(* ===== verification/Prelude.thy ===== *)
theory Prelude
  imports Main "HOL-Library.Word" "HOL-Library.Monad_Syntax"
begin

text \<open>
  Shared vocabulary of the development: the machine integer types of the x86-64 build, the
  treatment of byte buffers (slices, overwrites) and the lemma collections used by the component
  theories.

  Conventions. A C function that the compiler may give any meaning to (a read or write outside an
  object, a dereferenced null pointer, a use of a local array that was never written) has the value
  \<^term>\<open>None\<close> in the model, so that a theorem of the form \<open>f x = Some y\<close> also states that the
  run is free of such accesses. A buffer is the list of its bytes.
\<close>

unbundle bit_operations_syntax

type_synonym u8 = "8 word"
type_synonym u16 = "16 word"
type_synonym u32 = "32 word"
type_synonym u64 = "64 word"
type_synonym bytes = "u8 list"

named_theorems layout_simps \<open>constants of the on-disk and in-memory layouts\<close>
named_theorems buf_simps \<open>lengths and slices of byte buffers\<close>

section \<open>Slices and overwrites of buffers\<close>

definition bslice :: "nat \<Rightarrow> nat \<Rightarrow> 'a list \<Rightarrow> 'a list" where
  "bslice off n xs = take n (drop off xs)"

definition overwrite :: "'a list \<Rightarrow> nat \<Rightarrow> 'a list \<Rightarrow> 'a list" where
  "overwrite xs off ys = take off xs @ ys @ drop (off + length ys) xs"

lemma length_bslice [buf_simps]: "off + n \<le> length xs \<Longrightarrow> length (bslice off n xs) = n"
  by (simp add: bslice_def)

lemma length_overwrite [buf_simps]:
  "off + length ys \<le> length xs \<Longrightarrow> length (overwrite xs off ys) = length xs"
  by (simp add: overwrite_def)

lemma overwrite_Nil: "overwrite xs off [] = xs"
  by (simp add: overwrite_def)

lemma nth_bslice: "i < n \<Longrightarrow> off + n \<le> length xs \<Longrightarrow> bslice off n xs ! i = xs ! (off + i)"
  by (simp add: bslice_def)

lemma bslice_append:
  "off + n \<le> length xs \<Longrightarrow> bslice off n xs @ bslice (off + n) m xs = bslice off (n + m) xs"
  by (simp add: bslice_def take_add add.commute [of off])

lemma bslice_all [simp]: "bslice 0 (length xs) xs = xs"
  by (simp add: bslice_def)

lemma bslice_overwrite_same:
  "off + length ys \<le> length xs \<Longrightarrow> bslice off (length ys) (overwrite xs off ys) = ys"
  by (simp add: bslice_def overwrite_def)

lemma nth_overwrite:
  assumes "off + length ys \<le> length xs"
  shows "overwrite xs off ys ! i =
    (if off \<le> i \<and> i < off + length ys then ys ! (i - off) else xs ! i)"
proof (cases "i < off + length ys")
  case True
  then show ?thesis using assms by (auto simp: overwrite_def nth_append)
next
  case False
  then have eq: "off + length ys + (i - (off + length ys)) = i" by simp
  have "overwrite xs off ys ! i = drop (off + length ys) xs ! (i - (off + length ys))"
    using False assms by (auto simp: overwrite_def nth_append)
  also have "\<dots> = xs ! i"
    using nth_drop [of "off + length ys" xs "i - (off + length ys)"] assms eq by simp
  finally show ?thesis using False by simp
qed

lemma bslice_overwrite_other:
  assumes "off + length ys \<le> length xs" and "p + n \<le> length xs"
    and "p + n \<le> off \<or> off + length ys \<le> p"
  shows "bslice p n (overwrite xs off ys) = bslice p n xs"
proof (rule nth_equalityI)
  show "length (bslice p n (overwrite xs off ys)) = length (bslice p n xs)"
    using assms by (simp add: buf_simps)
next
  fix i assume "i < length (bslice p n (overwrite xs off ys))"
  then have i: "i < n" using assms by (simp add: buf_simps)
  then show "bslice p n (overwrite xs off ys) ! i = bslice p n xs ! i"
    using assms by (auto simp: nth_bslice nth_overwrite buf_simps)
qed

lemma overwrite_bslice_id: "off + n \<le> length xs \<Longrightarrow> overwrite xs off (bslice off n xs) = xs"
proof -
  assume "off + n \<le> length xs"
  then have "overwrite xs off (bslice off n xs) = take off xs @ bslice off n xs @ drop (n + off) xs"
    by (simp add: overwrite_def buf_simps add.commute)
  also have "\<dots> = take off xs @ drop off xs"
    by (simp only: bslice_def drop_drop [symmetric] append_take_drop_id)
  finally show ?thesis by simp
qed

section \<open>Checked array accesses\<close>

definition idx :: "'a list \<Rightarrow> nat \<Rightarrow> 'a option" where
  "idx xs i = (if i < length xs then Some (xs ! i) else None)"

definition upd :: "'a list \<Rightarrow> nat \<Rightarrow> 'a \<Rightarrow> 'a list option" where
  "upd xs i v = (if i < length xs then Some (xs[i := v]) else None)"

lemma idx_Some [simp]: "i < length xs \<Longrightarrow> idx xs i = Some (xs ! i)"
  by (simp add: idx_def)

lemma upd_Some [simp]: "i < length xs \<Longrightarrow> upd xs i v = Some (xs[i := v])"
  by (simp add: upd_def)

lemma option_eqI: "(\<And>x. a = Some x \<longleftrightarrow> b = Some x) \<Longrightarrow> a = b"
  by (cases a; cases b) auto

section \<open>Words\<close>

lemma unat_le_of_nat: "n < 2 ^ LENGTH('a) \<Longrightarrow> unat (of_nat n :: 'a::len word) = n"
  by (simp add: unat_of_nat take_bit_eq_mod)

lemma word_eq_of_nat: "unat (w :: 'a::len word) = n \<Longrightarrow> w = of_nat n"
  by (metis of_nat_unat ucast_id)

lemma unat_add_no_wrap:
  "unat (a :: 'a::len word) + unat b < 2 ^ LENGTH('a) \<Longrightarrow> unat (a + b) = unat a + unat b"
  by (simp add: unat_word_ariths)

lemma unat_mult_no_wrap:
  "unat (a :: 'a::len word) * unat b < 2 ^ LENGTH('a) \<Longrightarrow> unat (a * b) = unat a * unat b"
  by (simp add: unat_word_ariths)

lemma nat_less_pow2_if_int: "int n = v \<Longrightarrow> v < 2 ^ k \<Longrightarrow> n < 2 ^ k"
  by (metis of_nat_less_numeral_power_cancel_iff)

lemma sint_of_nat_small: "k < 2 ^ 31 \<Longrightarrow> sint (of_nat k :: u32) = int k"
  by (simp add: signed_of_nat signed_take_bit_int_eq_self)

lemma sint_small: "unat (w :: u32) < 2 ^ 31 \<Longrightarrow> sint w = int (unat w)"
  using sint_of_nat_small [of "unat w"] by simp

lemma word_xor_cancel [simp]: "((x :: 'a::len word) XOR k) XOR k = x"
  by (simp add: xor.assoc)

lemma word_xor_both_iff: "((x :: 'a::len word) XOR p) XOR q = x \<longleftrightarrow> p = q"
proof
  assume "(x XOR p) XOR q = x"
  then have "((x XOR p) XOR q) XOR q = x XOR q" by simp
  then have "x XOR p = x XOR q" by simp
  then have "x XOR (x XOR p) = x XOR (x XOR q)" by simp
  then show "p = q" by (simp add: xor.assoc [symmetric])
qed simp

section \<open>Least index with a property\<close>

text \<open>A bounded search from \<open>i\<close> upwards, the shape of the scanning loops of the program.\<close>

function first_from :: "(nat \<Rightarrow> bool) \<Rightarrow> nat \<Rightarrow> nat \<Rightarrow> nat option" where
  "first_from P i n = (if i < n then (if P i then Some i else first_from P (Suc i) n) else None)"
  by pat_completeness auto
termination
  by (relation "measure (\<lambda>(P, i, n). n - i)") auto

declare first_from.simps [simp del]

lemma first_from_step:
  "i < n \<Longrightarrow> \<not> P i \<Longrightarrow> first_from P i n = first_from P (Suc i) n"
  "i < n \<Longrightarrow> P i \<Longrightarrow> first_from P i n = Some i"
  "\<not> i < n \<Longrightarrow> first_from P i n = None"
  by (simp_all add: first_from.simps [of P i])

lemma first_from_Some_iff:
  "first_from P i n = Some j \<longleftrightarrow> i \<le> j \<and> j < n \<and> P j \<and> (\<forall>k. i \<le> k \<and> k < j \<longrightarrow> \<not> P k)"
proof (induction P i n rule: first_from.induct)
  case (1 P i n)
  show ?case
  proof (cases "i < n \<and> \<not> P i")
    case True
    then have "(\<forall>k. i \<le> k \<and> k < j \<longrightarrow> \<not> P k) \<longleftrightarrow> (\<forall>k. Suc i \<le> k \<and> k < j \<longrightarrow> \<not> P k)"
      by (auto simp: le_less [of i] Suc_le_eq)
    with True 1 show ?thesis
      by (auto simp: first_from_step le_less [of i j] Suc_le_eq)
  next
    case False
    then show ?thesis
      by (cases "i < n") (auto simp: first_from_step le_less)
  qed
qed

lemma first_from_None_iff: "first_from P i n = None \<longleftrightarrow> (\<forall>k. i \<le> k \<and> k < n \<longrightarrow> \<not> P k)"
proof (cases "first_from P i n")
  case None
  have "\<not> P k" if "i \<le> k" "k < n" for k
  proof
    assume "P k"
    define j where "j = (LEAST m. i \<le> m \<and> P m)"
    have j: "i \<le> j \<and> P j" unfolding j_def using that \<open>P k\<close> by (metis (mono_tags, lifting) LeastI)
    have "j \<le> k" unfolding j_def using that \<open>P k\<close> by (simp add: Least_le)
    moreover have "\<forall>m. i \<le> m \<and> m < j \<longrightarrow> \<not> P m" unfolding j_def using not_less_Least by blast
    ultimately have "first_from P i n = Some j" using j that by (auto simp: first_from_Some_iff)
    with None show False by simp
  qed
  with None show ?thesis by blast
next
  case (Some j)
  then have "i \<le> j \<and> j < n \<and> P j" by (simp add: first_from_Some_iff)
  with Some show ?thesis by auto
qed

lemma first_from_skip:
  assumes "i \<le> j" and "\<And>k. i \<le> k \<Longrightarrow> k < j \<Longrightarrow> \<not> P k"
  shows "first_from P i n = first_from P j n"
  using assms
proof (induction "j - i" arbitrary: i)
  case 0
  then show ?case by simp
next
  case (Suc d)
  then have "\<not> P i" "first_from P (Suc i) n = first_from P j n" by auto
  then show ?case by (cases "i < n") (auto simp: first_from_step first_from_None_iff
        intro: first_from_None_iff [THEN iffD2, symmetric])
qed

lemma first_from_append:
  assumes "i \<le> m" "m \<le> n"
  shows "first_from P i n = (case first_from P i m of Some j \<Rightarrow> Some j | None \<Rightarrow> first_from P m n)"
proof (cases "first_from P i m")
  case None
  then have "first_from P i n = first_from P m n"
    using assms(1) by (intro first_from_skip) (auto simp: first_from_None_iff)
  with None show ?thesis by simp
next
  case (Some j)
  then have "first_from P i n = Some j" using assms(2) by (auto simp: first_from_Some_iff)
  with Some show ?thesis by simp
qed

lemma first_from_shift:
  "first_from (\<lambda>j. P (a + j)) i n = map_option (\<lambda>g. g - a) (first_from P (a + i) (a + n))"
proof (cases "first_from P (a + i) (a + n)")
  case None
  then have "first_from (\<lambda>j. P (a + j)) i n = None" by (auto simp: first_from_None_iff)
  with None show ?thesis by simp
next
  case (Some g)
  then have g: "a + i \<le> g" "g < a + n" "P g" "\<And>k. a + i \<le> k \<Longrightarrow> k < g \<Longrightarrow> \<not> P k" by (auto simp: first_from_Some_iff)
  then have "first_from (\<lambda>j. P (a + j)) i n = Some (g - a)" by (auto simp: first_from_Some_iff)
  with Some show ?thesis by simp
qed

lemma first_from_cong:
  "(\<And>k. i \<le> k \<Longrightarrow> k < n \<Longrightarrow> P k = Q k) \<Longrightarrow> first_from P i n = first_from Q i n"
proof (cases "first_from Q i n")
  case None
  assume "\<And>k. i \<le> k \<Longrightarrow> k < n \<Longrightarrow> P k = Q k"
  then have "first_from P i n = None" using None by (auto simp: first_from_None_iff)
  then show ?thesis using None by simp
next
  case (Some j)
  assume "\<And>k. i \<le> k \<Longrightarrow> k < n \<Longrightarrow> P k = Q k"
  then have "first_from P i n = Some j" using Some by (auto simp: first_from_Some_iff)
  then show ?thesis using Some by simp
qed

end
