(* ===== verification/Bit_Array.thy ===== *)
theory Bit_Array
  imports Prelude
begin

text \<open>
  The two bitmaps of the kernel, as one interface. \<open>bit_array\<close> is what their clients use: test,
  set and clear of a numbered bit, with the laws that relate them. \<open>packed_bits\<close> is what both
  implementations do: eight bits to a byte, at a position that depends on the bit number only
  (least significant first in \<open>mm/page_alloc.c\<close>, most significant first in \<open>fs/fs.c\<close>); it gives
  the laws of \<open>bit_array\<close>.
\<close>

locale bit_array =
  fixes test :: "'b \<Rightarrow> nat \<Rightarrow> bool"
    and put :: "nat \<Rightarrow> 'b \<Rightarrow> 'b"
    and clear :: "nat \<Rightarrow> 'b \<Rightarrow> 'b"
    and bits :: "'b \<Rightarrow> nat"
  assumes bits_put: "bits (put i b) = bits b"
    and bits_clear: "bits (clear i b) = bits b"
    and test_put: "i < bits b \<Longrightarrow> j < bits b \<Longrightarrow> test (put i b) j \<longleftrightarrow> j = i \<or> test b j"
    and test_clear: "i < bits b \<Longrightarrow> j < bits b \<Longrightarrow> test (clear i b) j \<longleftrightarrow> j \<noteq> i \<and> test b j"
    and bits_ext: "bits b = bits c \<Longrightarrow> (\<And>j. j < bits b \<Longrightarrow> test b j = test c j) \<Longrightarrow> b = c"
begin

text \<open>Ranges of bits, as the marking and clearing loops of the clients produce them.\<close>

lemma bits_put_range [simp]: "bits (fold put xs b) = bits b"
  by (induction xs arbitrary: b) (auto simp: bits_put)

lemma bits_clear_range [simp]: "bits (fold clear xs b) = bits b"
  by (induction xs arbitrary: b) (auto simp: bits_clear)

lemma test_put_range:
  "\<forall>i\<in>set xs. i < bits b \<Longrightarrow> j < bits b \<Longrightarrow> test (fold put xs b) j \<longleftrightarrow> j \<in> set xs \<or> test b j"
  by (induction xs arbitrary: b) (auto simp: test_put bits_put)

lemma test_clear_range:
  "\<forall>i\<in>set xs. i < bits b \<Longrightarrow> j < bits b \<Longrightarrow> test (fold clear xs b) j \<longleftrightarrow> j \<notin> set xs \<and> test b j"
  by (induction xs arbitrary: b) (auto simp: test_clear bits_clear)

lemma clear_put_range:
  assumes "\<forall>i\<in>set xs. i < bits b \<and> \<not> test b i"
  shows "fold clear xs (fold put xs b) = b"
proof (rule bits_ext)
  fix j assume "j < bits (fold clear xs (fold put xs b))"
  then show "test (fold clear xs (fold put xs b)) j = test b j"
    using assms by (auto simp: test_clear_range test_put_range)
qed simp

lemma clear_put: "i < bits b \<Longrightarrow> \<not> test b i \<Longrightarrow> clear i (put i b) = b"
  using clear_put_range [of "[i]" b] by simp

lemma put_clear: "i < bits b \<Longrightarrow> test b i \<Longrightarrow> put i (clear i b) = b"
  by (rule bits_ext) (auto simp: bits_put bits_clear test_put test_clear)

text \<open>How many of the first \<open>n\<close> bits are clear.\<close>

definition clear_count :: "nat \<Rightarrow> 'b \<Rightarrow> nat" where
  "clear_count n b = card {i. i < n \<and> \<not> test b i}"

lemma clear_count_put:
  assumes "i < n" and "n \<le> bits b" and "\<not> test b i"
  shows "Suc (clear_count n (put i b)) = clear_count n b"
proof -
  have "{j. j < n \<and> \<not> test b j} = insert i {j. j < n \<and> \<not> test (put i b) j}"
    using assms by (auto simp: test_put)
  moreover have "i \<notin> {j. j < n \<and> \<not> test (put i b) j}"
    using assms by (simp add: test_put)
  ultimately show ?thesis by (simp add: clear_count_def)
qed

lemma clear_count_clear:
  assumes "i < n" and "n \<le> bits b" and "test b i"
  shows "clear_count n (clear i b) = Suc (clear_count n b)"
  using clear_count_put [of i n "clear i b"] assms by (simp add: put_clear test_clear bits_clear)

lemma clear_count_pos: "0 < clear_count n b \<longleftrightarrow> (\<exists>i < n. \<not> test b i)"
  by (auto simp: clear_count_def card_gt_0_iff)

end

locale packed_bits =
  fixes pos :: "nat \<Rightarrow> nat"
    and tst :: "bytes \<Rightarrow> nat \<Rightarrow> bool"
    and st :: "nat \<Rightarrow> bytes \<Rightarrow> bytes"
    and cl :: "nat \<Rightarrow> bytes \<Rightarrow> bytes"
  assumes pos_less: "k < 8 \<Longrightarrow> pos k < 8"
    and pos_inj: "k < 8 \<Longrightarrow> l < 8 \<Longrightarrow> pos k = pos l \<Longrightarrow> k = l"
    and tst_eq: "n < 8 * length bm \<Longrightarrow> tst bm n = bit (bm ! (n div 8)) (pos (n mod 8))"
    and st_eq: "st n bm = bm[n div 8 := set_bit (pos (n mod 8)) (bm ! (n div 8))]"
    and cl_eq: "cl n bm = bm[n div 8 := unset_bit (pos (n mod 8)) (bm ! (n div 8))]"
begin

lemma pos_onto: "m < 8 \<Longrightarrow> \<exists>k < 8. pos k = m"
proof -
  assume "m < 8"
  have "inj_on pos {..<8}" using pos_inj by (auto simp: inj_on_def)
  moreover have "pos ` {..<8} \<subseteq> {..<8}" using pos_less by auto
  ultimately have "pos ` {..<8} = {..<8}" by (simp add: endo_inj_surj)
  with \<open>m < 8\<close> show ?thesis by (metis imageE lessThan_iff)
qed

lemma same_byte: "n div 8 = m div 8 \<Longrightarrow> pos (n mod 8) = pos (m mod 8) \<longleftrightarrow> n = m"
  by (metis div_mod_decomp mod_less_divisor pos_inj zero_less_numeral)

lemma packed_ext:
  assumes "length b = length c" and "\<And>j. j < 8 * length b \<Longrightarrow> tst b j = tst c j"
  shows "b = c"
proof (rule nth_equalityI)
  fix i assume i: "i < length b"
  show "b ! i = c ! i"
  proof (rule bit_word_eqI)
    fix m assume "m < LENGTH(8)"
    then obtain k where k: "k < 8" "pos k = m" using pos_onto by auto
    then have "8 * i + k < 8 * length b" using i by simp
    then show "bit (b ! i) m = bit (c ! i) m"
      using assms(2) [of "8 * i + k"] assms(1) k by (simp add: tst_eq)
  qed
qed (rule assms)

lemma packed_test:
  assumes "i < 8 * length b" and "j < 8 * length b"
  shows "tst (st i b) j \<longleftrightarrow> j = i \<or> tst b j" and "tst (cl i b) j \<longleftrightarrow> j \<noteq> i \<and> tst b j"
proof -
  have lt: "i div 8 < length b" "pos (i mod 8) < 8" "pos (j mod 8) < 8"
    using assms by (auto intro: pos_less)
  have t: "tst (b[i div 8 := w]) j =
      (if j div 8 = i div 8 then bit w (pos (j mod 8)) else tst b j)" for w
    using lt assms by (simp add: tst_eq nth_list_update)
  have same: "tst b j = bit (b ! (i div 8)) (pos (j mod 8))" if "j div 8 = i div 8"
    using assms that by (simp add: tst_eq)
  show "tst (st i b) j \<longleftrightarrow> j = i \<or> tst b j"
    using same_byte [of j i] lt same
    by (cases "j div 8 = i div 8") (auto simp: st_eq t bit_set_bit_iff)
  show "tst (cl i b) j \<longleftrightarrow> j \<noteq> i \<and> tst b j"
    using same_byte [of j i] same
    by (cases "j div 8 = i div 8") (auto simp: cl_eq t bit_unset_bit_iff)
qed

lemma packed_length: "length (st i b) = length b" "length (cl i b) = length b"
  by (simp_all add: st_eq cl_eq)

lemma packed_length_range [simp]:
  "length (fold st xs b) = length b" "length (fold cl xs b) = length b"
  by (induction xs arbitrary: b) (auto simp: packed_length)

end

sublocale packed_bits \<subseteq> bit_array tst st cl "\<lambda>bm. 8 * length bm"
  by standard (auto simp: packed_test packed_length intro: packed_ext)

end
