(* ===== verification/Page_Alloc.thy ===== *)
theory Page_Alloc
  imports Bit_Array
begin

text \<open>
  \<open>mm/page_alloc.c\<close>: the physical page allocator, a bitmap with one bit per page and the length of
  each allocation at its first page. The file-level statics are the fields of \<open>page_state\<close>; the
  bytes of physical memory (\<open>phys\<close>) are there because \<open>krealloc\<close> copies them. The linker symbol
  \<open>endkernel\<close> is an argument of \<open>initAllocator\<close>.

  The invariant \<open>pa_inv\<close> says that the set bits are page 0 and, exactly, the pages of the recorded
  allocations, which do not overlap. The operations keep it, \<open>kalloc\<close> is first fit, and the
  allocator refines an abstract map from first pages to lengths.
\<close>

definition PHYSICAL_MEMORY_SIZE :: nat where
  [layout_simps]: "PHYSICAL_MEMORY_SIZE = 1024 * 1024 * 30"

definition PAGE_SIZE :: nat where
  [layout_simps]: "PAGE_SIZE = 4096"

definition BITMAP_SIZE :: nat where
  [layout_simps]: "BITMAP_SIZE = PHYSICAL_MEMORY_SIZE div PAGE_SIZE div 8"

record page_state =
  first_page :: u64
  bitmap :: bytes
  page_counts :: "u16 list"
  phys :: "u64 \<Rightarrow> u8"

section \<open>The bitmap\<close>

definition page_used :: "bytes \<Rightarrow> nat \<Rightarrow> bool" where
  "page_used bm p \<longleftrightarrow> bm ! (p div 8) AND push_bit (p mod 8) 1 \<noteq> 0"

definition mark_page :: "nat \<Rightarrow> bytes \<Rightarrow> bytes" where
  "mark_page i bm = bm[i div 8 := bm ! (i div 8) OR push_bit (i mod 8) 1]"

definition unmark_page :: "nat \<Rightarrow> bytes \<Rightarrow> bytes" where
  "unmark_page i bm = bm[i div 8 := bm ! (i div 8) AND NOT (push_bit (i mod 8) 1)]"

section \<open>Operations\<close>

definition initAllocator :: "u64 \<Rightarrow> page_state \<Rightarrow> page_state" where
  "initAllocator endkernel s =
     s\<lparr>first_page := (endkernel + of_nat PAGE_SIZE - 1) AND NOT (of_nat PAGE_SIZE - 1),
       bitmap := mark_page 0 (replicate BITMAP_SIZE 0),
       page_counts := replicate (BITMAP_SIZE * 8) 0\<rparr>"

text \<open>The scanning loop of \<open>kalloc\<close>: the first page of the run it stops at.\<close>

function kalloc_scan :: "bytes \<Rightarrow> int \<Rightarrow> nat \<Rightarrow> nat \<Rightarrow> nat \<Rightarrow> nat option" where
  "kalloc_scan bm pages_needed p run_start run_len =
     (if p < BITMAP_SIZE * 8 then
        (if \<not> page_used bm p then
           (let run_start' = (if run_len = 0 then p else run_start)
            in if int (Suc run_len) = pages_needed then Some run_start'
               else kalloc_scan bm pages_needed (Suc p) run_start' (Suc run_len))
         else kalloc_scan bm pages_needed (Suc p) run_start 0)
      else None)"
  by pat_completeness auto
termination
  by (relation "measure (\<lambda>(bm, n, p, run_start, run_len). BITMAP_SIZE * 8 - p)") auto

declare kalloc_scan.simps [simp del]

text \<open>\<open>int pages_needed\<close>: the 64-bit quotient is converted to a 32-bit \<open>int\<close>.\<close>

definition pages_needed :: "u64 \<Rightarrow> int" where
  "pages_needed sz =
     (if sz < of_nat PAGE_SIZE then 1
      else sint (ucast ((sz + of_nat PAGE_SIZE - 1) div of_nat PAGE_SIZE) :: u32))"

definition kalloc :: "u64 \<Rightarrow> page_state \<Rightarrow> u64 \<times> page_state" where
  "kalloc sz s =
     (if sz = 0 then (0, s)
      else (let n = pages_needed sz
            in case kalloc_scan (bitmap s) n 0 0 0 of
                 Some run_start \<Rightarrow>
                   (of_nat run_start * of_nat PAGE_SIZE + first_page s,
                    s\<lparr>bitmap := fold mark_page [run_start..<run_start + nat n] (bitmap s),
                      page_counts := (page_counts s)[run_start := word_of_int n]\<rparr>)
               | None \<Rightarrow> (0, s)))"

definition page_free :: "u64 \<Rightarrow> page_state \<Rightarrow> page_state option" where
  "page_free addr s =
     (if addr \<ge> first_page s \<and> addr < first_page s + of_nat PHYSICAL_MEMORY_SIZE then
        (let page_num = unat (ucast ((addr - first_page s) div of_nat PAGE_SIZE) :: u32)
         in if page_num < length (page_counts s) then
              (let count = unat (page_counts s ! page_num)
               in if count = 0 \<or> page_num + count \<le> 8 * length (bitmap s) then
                    Some (s\<lparr>bitmap := fold unmark_page [page_num..<page_num + count] (bitmap s),
                            page_counts := (page_counts s)[page_num := 0]\<rparr>)
                  else None)
            else None)
      else Some s)"

definition phys_copy :: "u64 \<Rightarrow> u64 \<Rightarrow> nat \<Rightarrow> (u64 \<Rightarrow> u8) \<Rightarrow> (u64 \<Rightarrow> u8)" where
  "phys_copy dest src n m =
     fold (\<lambda>i m. m(dest + of_nat i := m (src + of_nat i))) [0..<n] m"

text \<open>\<open>krealloc\<close> keeps its page counts in \<open>uint16_t\<close>; the result is the returned address.\<close>

definition krealloc :: "u64 \<Rightarrow> u64 \<Rightarrow> page_state \<Rightarrow> (u64 \<times> page_state) option" where
  "krealloc addr new_size s =
     (if new_size = 0 then map_option (Pair 0) (page_free addr s)
      else
        (let page_idx = unat (ucast ((addr - first_page s) div of_nat PAGE_SIZE) :: u32)
         in if page_idx < length (page_counts s) then
              (let old_pages = page_counts s ! page_idx;
                   new_pages = (if new_size < of_nat PAGE_SIZE then 1
                                else ucast ((new_size + of_nat PAGE_SIZE - 1) div of_nat PAGE_SIZE)
                                  :: u16)
               in if new_pages \<le> old_pages then
                    (if new_pages = old_pages \<or> page_idx + unat old_pages \<le> 8 * length (bitmap s)
                     then Some (addr,
                       s\<lparr>bitmap := fold unmark_page
                            [page_idx + unat new_pages..<page_idx + unat old_pages] (bitmap s),
                         page_counts := (page_counts s)[page_idx := new_pages]\<rparr>)
                     else None)
                  else
                    (let (new_addr, s') = kalloc new_size s
                     in if new_addr = 0 then Some (0, s')
                        else map_option (Pair new_addr)
                          (page_free addr
                            (s'\<lparr>phys := phys_copy new_addr addr (unat old_pages * PAGE_SIZE)
                                  (phys s')\<rparr>))))
            else None))"

section \<open>The bitmap is a bit array\<close>

interpretation page_bits: packed_bits "\<lambda>k. k" page_used mark_page unmark_page
proof
  fix n :: nat and bm :: bytes
  assume "n < 8 * length bm"
  show "page_used bm n = bit (bm ! (n div 8)) (n mod 8)"
    by (simp add: page_used_def bit_iff_and_push_bit_not_eq_0)
qed (auto simp: mark_page_def unmark_page_def set_bit_eq_or unset_bit_eq_and_not)

section \<open>The scan finds the first run that is long enough\<close>

definition free_run :: "bytes \<Rightarrow> nat \<Rightarrow> nat \<Rightarrow> bool" where
  "free_run bm n s \<longleftrightarrow> (\<forall>k. s \<le> k \<and> k < s + n \<longrightarrow> \<not> page_used bm k)"

abbreviation total_pages :: nat where
  "total_pages \<equiv> BITMAP_SIZE * 8"

lemma total_pages_eq: "total_pages = 7680"
  by (simp add: layout_simps)

lemma kalloc_scan_first_fit:
  assumes "0 < n" and "n \<le> total_pages"
  shows "p \<le> total_pages \<Longrightarrow> rl < n \<Longrightarrow> rl \<le> p \<Longrightarrow> (rl > 0 \<Longrightarrow> rs = p - rl) \<Longrightarrow>
    (\<And>k. p - rl \<le> k \<Longrightarrow> k < p \<Longrightarrow> \<not> page_used bm k) \<Longrightarrow>
    kalloc_scan bm (int n) p rs rl = first_from (free_run bm n) (p - rl) (Suc total_pages - n)"
proof (induction "total_pages - p" arbitrary: p rs rl)
  case 0
  then have "p = total_pages" by simp
  with 0 show ?case
    by (simp add: kalloc_scan.simps [of bm] first_from_step)
next
  case (Suc d)
  then have p: "p < total_pages" and d: "d = total_pages - Suc p" by auto
  show ?case
  proof (cases "page_used bm p")
    case True
    have "first_from (free_run bm n) (p - rl) (Suc total_pages - n) =
        first_from (free_run bm n) (Suc p) (Suc total_pages - n)"
    proof (rule first_from_skip)
      fix k assume "p - rl \<le> k" "k < Suc p"
      then have "k \<le> p \<and> p < k + n" using Suc.prems(2,3) by linarith
      with True show "\<not> free_run bm n k" by (auto simp: free_run_def)
    qed (use Suc.prems in simp)
    moreover have "kalloc_scan bm (int n) (Suc p) rs 0 =
        first_from (free_run bm n) (Suc p) (Suc total_pages - n)"
      using Suc.hyps(1) [OF d, of 0 rs] p assms(1) by simp
    ultimately show ?thesis
      using True p by (simp add: kalloc_scan.simps [of bm "int n" p])
  next
    case False
    define rs' where "rs' = p - rl"
    have rs': "(if rl = 0 then p else rs) = rs'" using Suc.prems(4) by (simp add: rs'_def)
    have free: "\<not> page_used bm k" if "rs' \<le> k" "k < Suc p" for k
      using that False Suc.prems(5) [of k] by (cases "k = p") (auto simp: rs'_def)
    show ?thesis
    proof (cases "Suc rl = n")
      case True
      then have "free_run bm n rs'"
        using free Suc.prems(3) by (auto simp: free_run_def rs'_def)
      moreover have "rs' < Suc total_pages - n" using True p Suc.prems(3) by (simp add: rs'_def)
      ultimately show ?thesis
        using False True p rs'
        by (simp add: kalloc_scan.simps [of bm "int n" p] first_from_step rs'_def [symmetric])
    next
      case neq: False
      have "kalloc_scan bm (int n) (Suc p) rs' (Suc rl) =
          first_from (free_run bm n) (Suc p - Suc rl) (Suc total_pages - n)"
        using free p neq Suc.prems(2,3) by (intro Suc.hyps(1) [OF d]) (auto simp: rs'_def)
      then show ?thesis
        using False neq p rs' by (simp add: kalloc_scan.simps [of bm "int n" p])
    qed
  qed
qed

lemma kalloc_scan_eq:
  "0 < n \<Longrightarrow> n \<le> total_pages \<Longrightarrow>
   kalloc_scan bm (int n) 0 0 0 = first_from (free_run bm n) 0 (Suc total_pages - n)"
  using kalloc_scan_first_fit [of n 0 0 0 bm] by simp

text \<open>A request of more pages than there are, or of a negative number of pages, finds nothing.\<close>

lemma kalloc_scan_too_many:
  "n \<le> 0 \<or> int total_pages < n \<Longrightarrow> rl \<le> p \<Longrightarrow> kalloc_scan bm n p rs rl = None"
proof (induction bm n p rs rl rule: kalloc_scan.induct)
  case (1 bm n p rs rl)
  then show ?case
    by (auto simp: kalloc_scan.simps [of bm n p] Let_def)
qed

section \<open>The invariant\<close>

definition page_len :: "page_state \<Rightarrow> nat \<Rightarrow> nat" where
  "page_len s p = unat (page_counts s ! p)"

definition pa_inv :: "page_state \<Rightarrow> bool" where
  "pa_inv s \<longleftrightarrow>
     length (bitmap s) = BITMAP_SIZE \<and> length (page_counts s) = total_pages \<and> page_len s 0 = 0 \<and>
     (\<forall>p < total_pages. p + page_len s p \<le> total_pages) \<and>
     (\<forall>q < total_pages. page_used (bitmap s) q \<longleftrightarrow>
        q = 0 \<or> (\<exists>p \<le> q. q < p + page_len s p)) \<and>
     (\<forall>q < total_pages. \<forall>p < q. 0 < page_len s q \<longrightarrow> p + page_len s p \<le> q)"

text \<open>The managed memory does not start at the null address and does not wrap around.\<close>

definition base_ok :: "page_state \<Rightarrow> bool" where
  "base_ok s \<longleftrightarrow> first_page s \<noteq> 0 \<and> unat (first_page s) + PHYSICAL_MEMORY_SIZE < 2 ^ 64"

definition page_addr :: "page_state \<Rightarrow> nat \<Rightarrow> u64" where
  "page_addr s p = of_nat p * of_nat PAGE_SIZE + first_page s"

text \<open>The abstract view: the first page of every allocation, with its length.\<close>

definition allocs :: "page_state \<Rightarrow> nat \<rightharpoonup> nat" where
  "allocs s = (\<lambda>p. if p < total_pages \<and> 0 < page_len s p then Some (page_len s p) else None)"

lemma pa_invD:
  assumes "pa_inv s"
  shows "length (bitmap s) = BITMAP_SIZE" "length (page_counts s) = total_pages"
    and "page_len s 0 = 0"
    and "p < total_pages \<Longrightarrow> p + page_len s p \<le> total_pages"
    and "q < total_pages \<Longrightarrow> page_used (bitmap s) q \<longleftrightarrow> q = 0 \<or> (\<exists>p \<le> q. q < p + page_len s p)"
    and "q < total_pages \<Longrightarrow> p < q \<Longrightarrow> 0 < page_len s q \<Longrightarrow> p + page_len s p \<le> q"
  using assms by (auto simp: pa_inv_def)

lemma bitmap_bits: "pa_inv s \<Longrightarrow> 8 * length (bitmap s) = total_pages"
  by (simp add: pa_invD)

section \<open>State changes\<close>

text \<open>Recording a new allocation, and cutting one down to its first \<open>m\<close> pages.\<close>

definition grant :: "nat \<Rightarrow> nat \<Rightarrow> page_state \<Rightarrow> page_state" where
  "grant p n s = s\<lparr>bitmap := fold mark_page [p..<p + n] (bitmap s),
                   page_counts := (page_counts s)[p := of_nat n]\<rparr>"

definition cut_down :: "nat \<Rightarrow> nat \<Rightarrow> page_state \<Rightarrow> page_state" where
  "cut_down p m s = s\<lparr>bitmap := fold unmark_page [p + m..<p + page_len s p] (bitmap s),
                      page_counts := (page_counts s)[p := of_nat m]\<rparr>"

lemma unat_of_nat_u16: "n \<le> total_pages \<Longrightarrow> unat (of_nat n :: u16) = n"
  by (rule unat_le_of_nat) (simp add: layout_simps)

lemma page_len_grant:
  assumes "pa_inv s" "p < total_pages" "n \<le> total_pages"
  shows "page_len (grant p n s) q = (if q = p then n else page_len s q)"
  using assms by (auto simp: page_len_def grant_def pa_invD unat_of_nat_u16 nth_list_update)

lemma page_len_cut_down:
  assumes "pa_inv s" "p < total_pages" "m \<le> page_len s p"
  shows "page_len (cut_down p m s) q = (if q = p then m else page_len s q)"
proof -
  have "m \<le> total_pages" using assms pa_invD(4) [OF assms(1,2)] by simp
  then show ?thesis
    using assms by (auto simp: page_len_def cut_down_def pa_invD unat_of_nat_u16 nth_list_update)
qed

lemma used_grant:
  assumes "pa_inv s" "p + n \<le> total_pages" "q < total_pages"
  shows "page_used (bitmap (grant p n s)) q \<longleftrightarrow> p \<le> q \<and> q < p + n \<or> page_used (bitmap s) q"
  using assms by (auto simp: grant_def page_bits.test_put_range bitmap_bits)

lemma used_cut_down:
  assumes "pa_inv s" "p < total_pages" "q < total_pages"
  shows "page_used (bitmap (cut_down p m s)) q \<longleftrightarrow>
    \<not> (p + m \<le> q \<and> q < p + page_len s p) \<and> page_used (bitmap s) q"
  using assms pa_invD(4) [OF assms(1,2)]
  by (auto simp: cut_down_def page_bits.test_clear_range bitmap_bits)

lemma free_run_not_0: "pa_inv s \<Longrightarrow> 0 < n \<Longrightarrow> free_run (bitmap s) n p \<Longrightarrow> 0 < p"
  using pa_invD(5) [of s 0] by (auto simp: free_run_def layout_simps)

lemma free_run_apart:
  assumes "pa_inv s" "p + n \<le> total_pages" "0 < n" "free_run (bitmap s) n p"
    and "q < total_pages" "0 < page_len s q"
  shows "q + page_len s q \<le> p \<or> p + n \<le> q"
proof (rule ccontr)
  assume "\<not> ?thesis"
  then have "\<exists>k. p \<le> k \<and> k < p + n \<and> q \<le> k \<and> k < q + page_len s q"
    using assms(3,6) by (intro exI [of _ "max p q"]) auto
  then obtain k where "p \<le> k" "k < p + n" "q \<le> k" "k < q + page_len s q" by blast
  with assms show False using pa_invD(5) [of s k] by (auto simp: free_run_def)
qed

lemma pa_inv_grant:
  assumes inv: "pa_inv s" and fits: "p + n \<le> total_pages" and n: "0 < n"
    and free: "free_run (bitmap s) n p"
  shows "pa_inv (grant p n s)"
proof -
  have p: "0 < p" "p < total_pages" "n \<le> total_pages"
    using free_run_not_0 [OF inv n free] fits n by auto
  note len = page_len_grant [OF inv p(2,3)]
  have none: "page_len s p = 0"
    using free_run_apart [OF inv fits n free p(2)] n by auto
  have "page_used (bitmap (grant p n s)) q \<longleftrightarrow>
      q = 0 \<or> (\<exists>k \<le> q. q < k + page_len (grant p n s) k)" if "q < total_pages" for q
    using none unfolding used_grant [OF inv fits that] pa_invD(5) [OF inv that] len by force
  moreover have "k + page_len (grant p n s) k \<le> q"
    if "q < total_pages" "k < q" "0 < page_len (grant p n s) q" for k q
  proof (cases "q = p")
    case True
    then show ?thesis
      using that free_run_apart [OF inv fits n free, of k] by (cases "page_len s k = 0") (auto simp: len)
  next
    case False
    then have "0 < page_len s q" using that by (simp add: len)
    then show ?thesis
      using that False free_run_apart [OF inv fits n free, of q] pa_invD(6) [OF inv that(1,2)]
      by (cases "k = p") (auto simp: len)
  qed
  moreover have "length (bitmap (grant p n s)) = BITMAP_SIZE"
    using pa_invD(1) [OF inv] by (simp add: grant_def)
  moreover have "length (page_counts (grant p n s)) = total_pages" "page_len (grant p n s) 0 = 0"
    using pa_invD(2,3) [OF inv] p by (auto simp: len) (simp add: grant_def)
  moreover have "k + page_len (grant p n s) k \<le> total_pages" if "k < total_pages" for k
    using pa_invD(4) [OF inv that] fits by (auto simp: len)
  ultimately show ?thesis unfolding pa_inv_def by blast
qed

lemma pa_inv_cut_down:
  assumes inv: "pa_inv s" and p: "p < total_pages" and m: "m \<le> page_len s p"
  shows "pa_inv (cut_down p m s)"
proof -
  note len = page_len_cut_down [OF inv p m]
  have apart: "q + page_len s q \<le> p \<or> p + page_len s p \<le> q \<or> q = p \<or> page_len s q = 0"
    if "0 < page_len s p" "q < total_pages" for q
    using pa_invD(6) [OF inv p, of q] pa_invD(6) [OF inv that(2), of p] that
    by (metis linorder_neqE_nat gr0I)
  have "page_used (bitmap (cut_down p m s)) q \<longleftrightarrow>
      q = 0 \<or> (\<exists>k \<le> q. q < k + page_len (cut_down p m s) k)" (is "?l \<longleftrightarrow> ?r")
    if q: "q < total_pages" for q
  proof (cases "p \<le> q \<and> q < p + page_len s p")
    case True
    then have pos: "0 < page_len s p" by simp
    have only: "k = p" if "k \<le> q" "q < k + page_len s k" for k
      using apart [OF pos, of k] that True q by auto
    have "0 < p" using pos pa_invD(3) [OF inv] by (metis gr0I less_numeral_extra(3))
    then have "?r \<longleftrightarrow> q < p + m"
      using True only unfolding len by (auto split: if_splits)
    moreover have "?l \<longleftrightarrow> q < p + m"
      unfolding used_cut_down [OF inv p q] pa_invD(5) [OF inv q] using True by auto
    ultimately show ?thesis by simp
  next
    case False
    then show ?thesis
      unfolding used_cut_down [OF inv p q] pa_invD(5) [OF inv q] len using m by force
  qed
  moreover have "k + page_len (cut_down p m s) k \<le> q"
    if "q < total_pages" "k < q" "0 < page_len (cut_down p m s) q" for k q
  proof -
    have "0 < page_len s q" using that m by (auto simp: len split: if_splits)
    then show ?thesis using pa_invD(6) [OF inv that(1,2)] m by (auto simp: len)
  qed
  moreover have "length (bitmap (cut_down p m s)) = BITMAP_SIZE"
    using pa_invD(1) [OF inv] by (simp add: cut_down_def)
  moreover have "k + page_len (cut_down p m s) k \<le> total_pages" if "k < total_pages" for k
    using pa_invD(4) [OF inv that] m by (auto simp: len)
  moreover have "length (page_counts (cut_down p m s)) = total_pages"
    "page_len (cut_down p m s) 0 = 0"
    using pa_invD(2,3) [OF inv] m by (auto simp: len) (simp add: cut_down_def)
  ultimately show ?thesis unfolding pa_inv_def by blast
qed

section \<open>Addresses and sizes\<close>

definition pages_for :: "nat \<Rightarrow> nat" where
  "pages_for n = (n + (PAGE_SIZE - 1)) div PAGE_SIZE"

lemma pages_for_bounds:
  "0 < n \<Longrightarrow> n \<le> PHYSICAL_MEMORY_SIZE \<Longrightarrow> 0 < pages_for n \<and> pages_for n \<le> total_pages"
  by (auto simp: pages_for_def layout_simps div_le_mono [of "_ + 4095" 31461375 4096, simplified])

lemma round_up_quotient:
  assumes "unat sz \<le> PHYSICAL_MEMORY_SIZE"
  shows "(sz + of_nat PAGE_SIZE - 1) div of_nat PAGE_SIZE = (of_nat (pages_for (unat sz)) :: u64)"
proof -
  have e: "sz + of_nat PAGE_SIZE - 1 = sz + 4095" by (simp add: layout_simps)
  have u: "unat (sz + 4095) = unat sz + 4095"
    using assms by (subst unat_add_no_wrap) (auto simp: layout_simps)
  have "unat ((sz + of_nat PAGE_SIZE - 1) div of_nat PAGE_SIZE) = pages_for (unat sz)"
    unfolding e unat_div_distrib u by (simp add: pages_for_def layout_simps)
  then show ?thesis by (rule word_eq_of_nat)
qed

lemma pages_needed_eq:
  assumes "0 < sz" and "unat sz \<le> PHYSICAL_MEMORY_SIZE"
  shows "pages_needed sz = int (pages_for (unat sz))"
proof (cases "sz < of_nat PAGE_SIZE")
  case True
  then have "unat sz < 4096" "0 < unat sz"
    using assms(1) by (simp_all add: layout_simps word_less_nat_alt)
  then show ?thesis using True by (simp add: pages_needed_def pages_for_def layout_simps)
next
  case False
  have "pages_for (unat sz) < 2 ^ 31"
    using assms(2) by (simp add: pages_for_def layout_simps)
  then have "sint (of_nat (pages_for (unat sz)) :: u32) = int (pages_for (unat sz))"
    by (simp add: signed_of_nat signed_take_bit_int_eq_self)
  moreover have "(ucast (of_nat (pages_for (unat sz)) :: u64) :: u32) = of_nat (pages_for (unat sz))"
    using \<open>pages_for (unat sz) < 2 ^ 31\<close>
    by (intro word_unat_eq_iff [THEN iffD2]) (simp add: unsigned_ucast_eq unsigned_of_nat take_bit_eq_mod)
  ultimately show ?thesis using False round_up_quotient [OF assms(2)] by (simp add: pages_needed_def)
qed

lemma unat_page_addr:
  assumes "base_ok s" and "p < total_pages"
  shows "unat (page_addr s p) = p * PAGE_SIZE + unat (first_page s)"
proof -
  have p: "unat (of_nat p * of_nat PAGE_SIZE :: u64) = p * PAGE_SIZE"
    using assms(2) by (simp add: unat_word_ariths unat_of_nat layout_simps take_bit_eq_mod)
  show ?thesis
    unfolding page_addr_def using assms p
    by (subst unat_add_no_wrap) (auto simp: base_ok_def layout_simps)
qed

lemma page_addr_nonnull: "base_ok s \<Longrightarrow> p < total_pages \<Longrightarrow> page_addr s p \<noteq> 0"
  using unat_page_addr [of s p] by (auto simp: base_ok_def unat_eq_0)

lemma page_addr_range:
  assumes "base_ok s" and "p < total_pages"
  shows "page_addr s p \<ge> first_page s \<and> page_addr s p < first_page s + of_nat PHYSICAL_MEMORY_SIZE"
proof -
  have "unat (first_page s + of_nat PHYSICAL_MEMORY_SIZE) =
      unat (first_page s) + PHYSICAL_MEMORY_SIZE"
    using assms(1) by (subst unat_add_no_wrap) (auto simp: base_ok_def layout_simps)
  then show ?thesis
    using assms unat_page_addr [OF assms] by (simp add: word_le_nat_alt word_less_nat_alt layout_simps)
qed

lemma page_index_of_addr:
  assumes "p < total_pages"
  shows "unat (ucast ((page_addr s p - first_page s) div of_nat PAGE_SIZE) :: u32) = p"
proof -
  have "unat (of_nat p * of_nat PAGE_SIZE :: u64) = p * PAGE_SIZE"
    using assms by (simp add: unat_word_ariths unat_of_nat layout_simps take_bit_eq_mod)
  then have "unat ((page_addr s p - first_page s) div of_nat PAGE_SIZE) = p"
    by (simp add: page_addr_def unat_div_distrib layout_simps)
  then have "(page_addr s p - first_page s) div of_nat PAGE_SIZE = of_nat p"
    by (rule word_eq_of_nat)
  moreover have "unat (ucast (of_nat p :: u64) :: u32) = p"
    using assms by (simp add: unsigned_ucast_eq unsigned_of_nat take_bit_eq_mod layout_simps)
  ultimately show ?thesis by simp
qed

section \<open>The operations as state changes\<close>

lemma kalloc_eq:
  assumes "0 < sz" and "unat sz \<le> PHYSICAL_MEMORY_SIZE"
  shows "kalloc sz s =
    (let n = pages_for (unat sz)
     in case first_from (free_run (bitmap s) n) 0 (Suc total_pages - n) of
          None \<Rightarrow> (0, s)
        | Some p \<Rightarrow> (page_addr s p, grant p n s))"
proof -
  have n: "0 < pages_for (unat sz)" "pages_for (unat sz) \<le> total_pages"
    using assms pages_for_bounds [of "unat sz"] by (auto simp: word_less_nat_alt)
  show ?thesis
    using assms n
    by (auto simp: kalloc_def Let_def pages_needed_eq kalloc_scan_eq grant_def page_addr_def
        split: option.splits)
qed

lemma kalloc_cases:
  assumes "0 < sz" and "unat sz \<le> PHYSICAL_MEMORY_SIZE"
  obtains (full) "kalloc sz s = (0, s)"
      and "\<forall>p. p + pages_for (unat sz) \<le> total_pages \<longrightarrow> \<not> free_run (bitmap s) (pages_for (unat sz)) p"
  | (found) p where "kalloc sz s = (page_addr s p, grant p (pages_for (unat sz)) s)"
      and "p + pages_for (unat sz) \<le> total_pages" and "free_run (bitmap s) (pages_for (unat sz)) p"
      and "\<forall>q < p. \<not> free_run (bitmap s) (pages_for (unat sz)) q"
proof (cases "first_from (free_run (bitmap s) (pages_for (unat sz))) 0
    (Suc total_pages - pages_for (unat sz))")
  case None
  then have "kalloc sz s = (0, s)" using assms by (simp add: kalloc_eq Let_def)
  then show ?thesis
    using None by (intro full) (auto simp: first_from_None_iff)
next
  case (Some p)
  then have "kalloc sz s = (page_addr s p, grant p (pages_for (unat sz)) s)"
    using assms by (simp add: kalloc_eq Let_def)
  then show ?thesis
    using Some by (intro found [of p]) (auto simp: first_from_Some_iff)
qed

lemma page_free_live:
  assumes "pa_inv s" and "base_ok s" and "p < total_pages"
  shows "page_free (page_addr s p) s = Some (cut_down p 0 s)"
  using assms page_addr_range [OF assms(2,3)] page_index_of_addr [OF assms(3)]
    pa_invD(4) [OF assms(1,3)] bitmap_bits [OF assms(1)] pa_invD(2) [OF assms(1)]
  by (simp add: page_free_def Let_def cut_down_def page_len_def)

lemma page_free_outside:
  "\<not> (addr \<ge> first_page s \<and> addr < first_page s + of_nat PHYSICAL_MEMORY_SIZE) \<Longrightarrow>
   page_free addr s = Some s"
  by (auto simp: page_free_def)

text \<open>Freeing any address at all: outside the managed memory nothing happens, inside it the
  allocation that starts at the address's page, if any, goes away.\<close>

lemma page_free_any:
  assumes "pa_inv s" and "base_ok s"
  obtains "page_free addr s = Some s"
  | p where "p < total_pages" and "page_free addr s = Some (cut_down p 0 s)"
proof (cases "addr \<ge> first_page s \<and> addr < first_page s + of_nat PHYSICAL_MEMORY_SIZE")
  case True
  define q where "q = unat (addr - first_page s) div PAGE_SIZE"
  have "unat (first_page s + of_nat PHYSICAL_MEMORY_SIZE) =
      unat (first_page s) + PHYSICAL_MEMORY_SIZE"
    using assms(2) by (subst unat_add_no_wrap) (auto simp: base_ok_def layout_simps)
  then have "unat addr - unat (first_page s) < PHYSICAL_MEMORY_SIZE"
    using True by (auto simp: word_le_nat_alt word_less_nat_alt layout_simps)
  then have q: "q < total_pages"
    using True by (simp add: q_def unat_sub layout_simps)
  have "unat ((addr - first_page s) div of_nat PAGE_SIZE) = q"
    by (simp add: q_def unat_div_distrib layout_simps)
  then have "unat (ucast ((addr - first_page s) div of_nat PAGE_SIZE) :: u32) = q"
    using q by (simp add: unsigned_ucast_eq take_bit_eq_mod layout_simps)
  then have "page_free addr s = Some (cut_down q 0 s)"
    using True assms(1) q pa_invD(4) [OF assms(1) q]
    by (simp add: page_free_def Let_def cut_down_def page_len_def pa_invD bitmap_bits)
  with q show ?thesis by (rule that(2))
qed (use page_free_outside that(1) in blast)

lemma frame_grant [simp]:
  "first_page (grant p n s) = first_page s" "phys (grant p n s) = phys s"
  "page_addr (grant p n s) = page_addr s" "base_ok (grant p n s) = base_ok s"
  by (simp_all add: grant_def page_addr_def base_ok_def fun_eq_iff)

lemma frame_cut_down [simp]:
  "first_page (cut_down p n s) = first_page s" "phys (cut_down p n s) = phys s"
  "page_addr (cut_down p n s) = page_addr s" "base_ok (cut_down p n s) = base_ok s"
  by (simp_all add: cut_down_def page_addr_def base_ok_def fun_eq_iff)

lemma frame_phys [simp]:
  "pa_inv (s\<lparr>phys := m\<rparr>) = pa_inv s" "base_ok (s\<lparr>phys := m\<rparr>) = base_ok s"
  "page_addr (s\<lparr>phys := m\<rparr>) = page_addr s" "page_len (s\<lparr>phys := m\<rparr>) = page_len s"
  "allocs (s\<lparr>phys := m\<rparr>) = allocs s"
  by (simp_all add: pa_inv_def page_len_def base_ok_def page_addr_def allocs_def fun_eq_iff)

section \<open>Copying physical memory\<close>

lemma u64_offset_inj:
  "i < 2 ^ 64 \<Longrightarrow> j < 2 ^ 64 \<Longrightarrow> (a :: u64) + of_nat i = a + of_nat j \<longleftrightarrow> i = j"
proof -
  assume "i < 2 ^ 64" "j < 2 ^ 64"
  then have "unat (of_nat i :: u64) = i" "unat (of_nat j :: u64) = j"
    by (simp_all add: unat_le_of_nat)
  then have "(of_nat i :: u64) = of_nat j \<longleftrightarrow> i = j" by metis
  then show ?thesis by simp
qed

lemma phys_copy_disjoint:
  assumes "n \<le> 2 ^ 64" and "\<And>i j. i < n \<Longrightarrow> j < n \<Longrightarrow> dest + of_nat i \<noteq> src + of_nat j"
  shows "i < n \<Longrightarrow> phys_copy dest src n m (dest + of_nat i) = m (src + of_nat i)"
    and "(\<And>i. i < n \<Longrightarrow> a \<noteq> dest + of_nat i) \<Longrightarrow> phys_copy dest src n m a = m a"
proof -
  have other: "k \<le> n \<Longrightarrow> (\<And>i. i < k \<Longrightarrow> a \<noteq> dest + of_nat i) \<Longrightarrow> phys_copy dest src k m a = m a"
    for k a
    by (induction k) (auto simp: phys_copy_def)
  have "k \<le> n \<Longrightarrow> i < k \<Longrightarrow> phys_copy dest src k m (dest + of_nat i) = m (src + of_nat i)" for k i
  proof (induction k)
    case (Suc k)
    have step: "phys_copy dest src (Suc k) m =
        (phys_copy dest src k m)(dest + of_nat k := phys_copy dest src k m (src + of_nat k))"
      by (simp add: phys_copy_def)
    have src: "phys_copy dest src k m (src + of_nat k) = m (src + of_nat k)"
      by (rule other) (use Suc.prems assms(2) [of _ k] in \<open>auto simp: eq_commute [of "src + _"]\<close>)
    have "dest + of_nat i = dest + of_nat k \<longleftrightarrow> i = k"
      using Suc.prems assms(1) by (intro u64_offset_inj) auto
    with Suc step src show ?case by (cases "i = k") auto
  qed simp
  then show "i < n \<Longrightarrow> phys_copy dest src n m (dest + of_nat i) = m (src + of_nat i)" by simp
  show "(\<And>i. i < n \<Longrightarrow> a \<noteq> dest + of_nat i) \<Longrightarrow> phys_copy dest src n m a = m a"
    using other [of n a] by simp
qed

text \<open>Bytes of different pages have different addresses.\<close>

lemma page_bytes_apart:
  assumes "base_ok s" and "p + n \<le> total_pages" and "q + k \<le> total_pages"
    and "p + n \<le> q \<or> q + k \<le> p" and "i < n * PAGE_SIZE" and "j < k * PAGE_SIZE"
  shows "page_addr s p + of_nat i \<noteq> page_addr s q + of_nat j"
proof -
  have addr: "unat (page_addr s r + of_nat l) = r * PAGE_SIZE + unat (first_page s) + l"
    if "r + c \<le> total_pages" "l < c * PAGE_SIZE" for r c l
  proof -
    have "r < total_pages" using that by (cases c) auto
    moreover have "r * PAGE_SIZE + l < PHYSICAL_MEMORY_SIZE"
      using that by (simp add: layout_simps)
    moreover have "unat (of_nat l :: u64) = l"
      using that by (intro unat_le_of_nat) (simp add: layout_simps)
    ultimately show ?thesis
      using assms(1) unat_page_addr [OF assms(1), of r]
      by (subst unat_add_no_wrap) (auto simp: base_ok_def)
  qed
  have "p * PAGE_SIZE + i \<noteq> q * PAGE_SIZE + j"
    using assms(4-6) by (auto simp: layout_simps)
  then have "unat (page_addr s p + of_nat i) \<noteq> unat (page_addr s q + of_nat j)"
    using addr [OF assms(2,5)] addr [OF assms(3,6)] by simp
  then show ?thesis by metis
qed

section \<open>Abstract view\<close>

lemma allocs_grant:
  assumes "pa_inv s" "p + n \<le> total_pages" "0 < n"
  shows "allocs (grant p n s) = (allocs s)(p \<mapsto> n)"
  using assms by (auto simp: allocs_def fun_eq_iff page_len_grant)

lemma allocs_cut_down:
  assumes "pa_inv s" "p < total_pages" "m \<le> page_len s p"
  shows "allocs (cut_down p m s) = (allocs s)(p := if m = 0 then None else Some m)"
  using assms by (auto simp: allocs_def fun_eq_iff page_len_cut_down)

text \<open>First fit over the abstract map: the least page where \<open>n\<close> pages fit.\<close>

definition fits_at :: "(nat \<rightharpoonup> nat) \<Rightarrow> nat \<Rightarrow> nat \<Rightarrow> bool" where
  "fits_at A n p \<longleftrightarrow> 0 < p \<and> p + n \<le> total_pages \<and>
     (\<forall>q m. A q = Some m \<longrightarrow> q + m \<le> p \<or> p + n \<le> q)"

lemma free_run_iff_fits:
  assumes inv: "pa_inv s" and n: "0 < n" and p: "p + n \<le> total_pages"
  shows "free_run (bitmap s) n p \<longleftrightarrow> fits_at (allocs s) n p"
proof
  assume "free_run (bitmap s) n p"
  then show "fits_at (allocs s) n p"
    using free_run_not_0 [OF inv n] free_run_apart [OF inv p n] p
    by (auto simp: fits_at_def allocs_def)
next
  assume fit: "fits_at (allocs s) n p"
  have "\<not> page_used (bitmap s) k" if k: "p \<le> k" "k < p + n" for k
  proof
    assume "page_used (bitmap s) k"
    then obtain q where q: "q \<le> k" "k < q + page_len s q"
      using pa_invD(5) [OF inv, of k] k p fit unfolding fits_at_def by fastforce
    then have "allocs s q = Some (page_len s q)" using k p by (auto simp: allocs_def)
    with fit have "q + page_len s q \<le> p \<or> p + n \<le> q" by (simp add: fits_at_def)
    with q k show False by linarith
  qed
  then show "free_run (bitmap s) n p" by (simp add: free_run_def)
qed

text \<open>Whatever the size, \<open>kalloc\<close> either fails or records one new allocation in free pages.\<close>

lemma kalloc_any:
  obtains "kalloc sz s = (0, s)"
  | p n where "0 < n" and "p + n \<le> total_pages" and "free_run (bitmap s) n p"
      and "kalloc sz s = (page_addr s p, grant p n s)"
proof (cases "0 < pages_needed sz \<and> pages_needed sz \<le> int total_pages")
  case True
  define n where "n = nat (pages_needed sz)"
  have n: "0 < n" "n \<le> total_pages" "pages_needed sz = int n" using True by (auto simp: n_def)
  show ?thesis
  proof (cases "sz = 0 \<or> kalloc_scan (bitmap s) (pages_needed sz) 0 0 0 = None")
    case False
    then obtain p where p: "kalloc_scan (bitmap s) (int n) 0 0 0 = Some p" and "sz \<noteq> 0"
      using n by auto
    then have "p < Suc total_pages - n" "free_run (bitmap s) n p"
      using n by (auto simp: kalloc_scan_eq first_from_Some_iff)
    then show ?thesis
      using that(2) [of n p] n p \<open>sz \<noteq> 0\<close> by (simp add: kalloc_def grant_def page_addr_def)
  qed (use that(1) in \<open>auto simp: kalloc_def Let_def\<close>)
next
  case False
  then show ?thesis
    using that(1) kalloc_scan_too_many [of "pages_needed sz" 0 0 "bitmap s" 0]
    by (auto simp: kalloc_def Let_def)
qed

lemma kalloc_inv: "pa_inv s \<Longrightarrow> base_ok s \<Longrightarrow> pa_inv (snd (kalloc sz s)) \<and> base_ok (snd (kalloc sz s))"
  by (rule kalloc_any [of sz s]) (auto simp: pa_inv_grant)

lemma page_free_inv:
  assumes "pa_inv s" "base_ok s" "page_free a s = Some s'"
  shows "pa_inv s' \<and> base_ok s'"
  by (rule page_free_any [OF assms(1,2), of a]) (use assms in \<open>auto simp: pa_inv_cut_down\<close>)

definition realloc_pages :: "u64 \<Rightarrow> u16" where
  "realloc_pages new_size =
     (if new_size < of_nat PAGE_SIZE then 1
      else ucast ((new_size + of_nat PAGE_SIZE - 1) div of_nat PAGE_SIZE))"

text \<open>The shrinking branch of \<open>krealloc\<close> is a cut.\<close>

lemma krealloc_shrink:
  assumes inv: "pa_inv s" and "new_size \<noteq> 0"
    and ix: "ix = unat (ucast ((addr - first_page s) div of_nat PAGE_SIZE) :: u32)"
    and "ix < total_pages" and le: "unat (realloc_pages new_size) \<le> page_len s ix"
  shows "krealloc addr new_size s = Some (addr, cut_down ix (unat (realloc_pages new_size)) s)"
proof -
  have "realloc_pages new_size \<le> page_counts s ! ix"
    using le by (simp add: word_le_nat_alt page_len_def)
  then show ?thesis
    using assms pa_invD(4) [OF inv, of ix]
    by (simp add: krealloc_def Let_def realloc_pages_def [symmetric] cut_down_def page_len_def
        pa_invD bitmap_bits)
qed

lemma krealloc_grow:
  assumes inv: "pa_inv s" and "new_size \<noteq> 0"
    and ix: "ix = unat (ucast ((addr - first_page s) div of_nat PAGE_SIZE) :: u32)"
    and "ix < total_pages" and "page_len s ix < unat (realloc_pages new_size)"
  shows "krealloc addr new_size s =
    (let (new_addr, s') = kalloc new_size s
     in if new_addr = 0 then Some (0, s')
        else map_option (Pair new_addr)
          (page_free addr (s'\<lparr>phys := phys_copy new_addr addr (page_len s ix * PAGE_SIZE) (phys s')\<rparr>)))"
proof -
  have "\<not> realloc_pages new_size \<le> page_counts s ! ix"
    using assms(5) by (simp add: word_le_nat_alt page_len_def)
  then show ?thesis
    using assms
    by (auto simp: krealloc_def Let_def realloc_pages_def [symmetric] page_len_def pa_invD
        split: prod.splits)
qed

lemma krealloc_inv:
  assumes inv: "pa_inv s" and base: "base_ok s" and r: "krealloc addr new_size s = Some (r, s')"
  shows "pa_inv s' \<and> base_ok s'"
proof (cases "new_size = 0")
  case True
  with r have "page_free addr s = Some s'" by (auto simp: krealloc_def)
  with inv base show ?thesis by (rule page_free_inv)
next
  case False
  define ix where "ix = unat (ucast ((addr - first_page s) div of_nat PAGE_SIZE) :: u32)"
  have ix: "ix < total_pages"
    using r False inv by (auto simp: krealloc_def Let_def ix_def pa_invD split: if_splits)
  show ?thesis
  proof (cases "unat (realloc_pages new_size) \<le> page_len s ix")
    case True
    with r krealloc_shrink [OF inv False ix_def ix] have
      "s' = cut_down ix (unat (realloc_pages new_size)) s" by simp
    with True inv base ix show ?thesis by (simp add: pa_inv_cut_down)
  next
    case grow: False
    obtain a t where k: "kalloc new_size s = (a, t)" by (cases "kalloc new_size s") auto
    then have t: "pa_inv t" "base_ok t" using kalloc_inv [OF inv base, of new_size] by auto
    show ?thesis
    proof (cases "a = 0")
      case True
      then show ?thesis using r krealloc_grow [OF inv False ix_def ix] grow k t by auto
    next
      case a: False
      then obtain m where "page_free addr (t\<lparr>phys := m\<rparr>) = Some s'"
        using r krealloc_grow [OF inv False ix_def ix] grow k by (auto simp: Let_def)
      with t page_free_inv [of "t\<lparr>phys := m\<rparr>" addr s'] show ?thesis by simp
    qed
  qed
qed

lemma realloc_pages_eq:
  assumes "0 < sz" and "unat sz \<le> PHYSICAL_MEMORY_SIZE"
  shows "unat (realloc_pages sz) = pages_for (unat sz)"
proof (cases "sz < of_nat PAGE_SIZE")
  case True
  then have "unat sz < 4096" "0 < unat sz"
    using assms(1) by (simp_all add: layout_simps word_less_nat_alt)
  then show ?thesis using True by (simp add: realloc_pages_def pages_for_def layout_simps)
next
  case False
  have "pages_for (unat sz) < 2 ^ 16"
    using assms(2) by (simp add: pages_for_def layout_simps)
  then show ?thesis
    using False round_up_quotient [OF assms(2)]
    by (simp add: realloc_pages_def unsigned_ucast_eq unsigned_of_nat take_bit_eq_mod)
qed

lemma initAllocator_inv: "pa_inv (initAllocator e s)"
proof -
  let ?s = "initAllocator e s"
  have len0: "page_len ?s p = 0" if "p < total_pages" for p
    using that by (simp add: page_len_def initAllocator_def)
  have "page_used (replicate BITMAP_SIZE 0) q = False" if "q < total_pages" for q
  proof -
    have "q div 8 < BITMAP_SIZE" using that by simp
    then show ?thesis by (simp add: page_used_def)
  qed
  then have "page_used (bitmap ?s) q \<longleftrightarrow> q = 0" if "q < total_pages" for q
    using that page_bits.test_put [of 0 "replicate BITMAP_SIZE 0" q]
    by (simp add: initAllocator_def layout_simps)
  moreover have "length (bitmap ?s) = BITMAP_SIZE" "length (page_counts ?s) = total_pages"
    by (simp_all add: initAllocator_def mark_page_def)
  moreover have "0 < total_pages" by (simp add: layout_simps)
  ultimately show ?thesis
    using len0 unfolding pa_inv_def by auto
qed

section \<open>Runs of the allocator\<close>

text \<open>One step: a call of one of the three operations, with any arguments, or a write to memory
  by the owner of some page.\<close>

inductive pa_step :: "page_state \<Rightarrow> page_state \<Rightarrow> bool" where
  alloc: "pa_step s (snd (kalloc sz s))"
| free: "page_free addr s = Some s' \<Longrightarrow> pa_step s s'"
| realloc: "krealloc addr new_size s = Some (r, s') \<Longrightarrow> pa_step s s'"
| mem_write: "pa_step s (s\<lparr>phys := m\<rparr>)"

inductive pa_reachable :: "u64 \<Rightarrow> page_state \<Rightarrow> bool" for e where
  init: "pa_reachable e (initAllocator e s)"
| step: "pa_reachable e s \<Longrightarrow> pa_step s s' \<Longrightarrow> pa_reachable e s'"

inductive_cases pa_stepE: "pa_step s s'"

lemma pa_step_inv: "pa_step s s' \<Longrightarrow> pa_inv s \<Longrightarrow> base_ok s \<Longrightarrow> pa_inv s' \<and> base_ok s'"
  by (erule pa_stepE) (auto simp: kalloc_inv dest: page_free_inv krealloc_inv)

text \<open>The linker places the end of the kernel so that 30 MiB of addresses follow it.\<close>

definition endkernel_ok :: "u64 \<Rightarrow> bool" where
  "endkernel_ok e \<longleftrightarrow> e \<noteq> 0 \<and> unat e + PAGE_SIZE + PHYSICAL_MEMORY_SIZE < 2 ^ 64"

lemma and_not_mask: "(x :: 'a::len word) AND NOT (mask n) = push_bit n (drop_bit n x)"
  by (rule bit_word_eqI) (auto simp: bit_simps)

lemma base_ok_init:
  assumes "endkernel_ok e"
  shows "base_ok (initAllocator e s)"
proof -
  have le: "unat (e + 4095) = unat e + 4095"
    using assms by (subst unat_add_no_wrap) (auto simp: endkernel_ok_def layout_simps)
  define t where "t = take_bit 12 (e + 4095)"
  have "(e + 4095) AND NOT 4095 = push_bit 12 (drop_bit 12 (e + 4095))"
    using and_not_mask [of "e + 4095" 12] by (simp add: mask_eq_exp_minus_1)
  then have w: "(e + 4095) AND NOT 4095 = e + 4095 - t"
    using bits_ident [of 12 "e + 4095"] by (simp add: t_def algebra_simps)
  have "unat t < 4096"
    using take_bit_nat_less_exp [of 12 "unat (e + 4095)"] by (simp add: t_def unsigned_take_bit_eq)
  moreover have "t \<le> e + 4095"
    by (simp add: t_def take_bit_eq_mask word_and_le2)
  ultimately have "unat e \<le> unat (e + 4095 - t)" "unat (e + 4095 - t) \<le> unat e + 4095"
    using le by (simp_all add: unat_sub)
  moreover have "first_page (initAllocator e s) = e + 4095 - t"
    using w by (simp add: initAllocator_def layout_simps add.commute)
  ultimately show ?thesis
    using assms unat_gt_0 [of e] by (auto simp: base_ok_def endkernel_ok_def layout_simps)
qed

lemma pa_reachable_inv: "pa_reachable e s \<Longrightarrow> endkernel_ok e \<Longrightarrow> pa_inv s \<and> base_ok s"
  by (induction rule: pa_reachable.induct) (auto simp: initAllocator_inv base_ok_init dest: pa_step_inv)

section \<open>Properties\<close>

text \<open>The state right after boot, for the witnesses.\<close>

definition boot_state :: page_state where
  "boot_state = initAllocator 0xFFFFFFFF80100000
     \<lparr>first_page = 0, bitmap = [], page_counts = [], phys = (\<lambda>_. 0)\<rparr>"

lemma boot_state_ok: "pa_inv boot_state" "base_ok boot_state"
  by (simp_all add: boot_state_def initAllocator_inv base_ok_init endkernel_ok_def layout_simps)

lemma boot_pages: "\<not> page_used (bitmap boot_state) (Suc 0)" "page_used (bitmap boot_state) 0"
  using pa_invD(5) [OF boot_state_ok(1), of 0] pa_invD(5) [OF boot_state_ok(1), of 1]
  by (auto simp: page_len_def boot_state_def initAllocator_def layout_simps le_Suc_eq)

lemma boot_page_1_free: "free_run (bitmap boot_state) (Suc 0) (Suc 0)"
  using boot_pages by (auto simp: free_run_def less_Suc_eq)

lemma boot_page_1: "kalloc 4096 boot_state = (page_addr boot_state 1, grant 1 1 boot_state)"
proof -
  note boot_pages
  then have "first_from (free_run (bitmap boot_state) 1) 0 7680 = Some 1"
    by (auto simp: first_from_Some_iff free_run_def less_Suc_eq)
  then show ?thesis
    by (subst kalloc_eq) (auto simp: layout_simps pages_for_def Let_def)
qed

text \<open>C9: in every state reachable from boot by any sequence of calls of \<open>kalloc\<close>, \<open>page_free\<close> and
  \<open>krealloc\<close> with any arguments, the recorded allocations lie inside the managed pages, do not
  overlap, and the set bits of the bitmap are exactly their pages and the reserved page 0.\<close>

theorem reachable_allocator_consistent:
  assumes "pa_reachable e s" and "endkernel_ok e"
  shows "allocs s 0 = None \<and> (\<forall>p n. allocs s p = Some n \<longrightarrow> p + n \<le> total_pages) \<and>
    (\<forall>p n q m. allocs s p = Some n \<longrightarrow> allocs s q = Some m \<longrightarrow> p < q \<longrightarrow> p + n \<le> q) \<and>
    (\<forall>k < total_pages. page_used (bitmap s) k \<longleftrightarrow>
       k = 0 \<or> (\<exists>p n. allocs s p = Some n \<and> p \<le> k \<and> k < p + n))"
proof -
  have inv: "pa_inv s" using pa_reachable_inv [OF assms] by simp
  have "allocs s 0 = None" using pa_invD(3) [OF inv] by (simp add: allocs_def)
  moreover have "p + n \<le> total_pages" if "allocs s p = Some n" for p n
    using that pa_invD(4) [OF inv, of p] by (auto simp: allocs_def split: if_splits)
  moreover have "p + n \<le> q" if "allocs s p = Some n" "allocs s q = Some m" "p < q" for p n q m
    using that pa_invD(6) [OF inv, of q p] by (auto simp: allocs_def split: if_splits)
  moreover have "page_used (bitmap s) k \<longleftrightarrow>
      k = 0 \<or> (\<exists>p n. allocs s p = Some n \<and> p \<le> k \<and> k < p + n)" if "k < total_pages" for k
    unfolding pa_invD(5) [OF inv that] using that by (force simp: allocs_def)
  ultimately show ?thesis by blast
qed

theorem reachable_allocator_consistent_witness:
  "pa_reachable 0xFFFFFFFF80100000 (snd (kalloc 4096 boot_state)) \<and>
   allocs (snd (kalloc 4096 boot_state)) 1 = Some 1 \<and>
   allocs (snd (kalloc 4096 boot_state)) 0 = None \<and> 1 + 1 \<le> total_pages"
proof -
  have r: "pa_reachable 0xFFFFFFFF80100000 (snd (kalloc 4096 boot_state))"
    unfolding boot_state_def by (rule pa_reachable.step [OF pa_reachable.init pa_step.alloc])
  have e: "endkernel_ok 0xFFFFFFFF80100000"
    by (simp add: endkernel_ok_def layout_simps)
  have one: "allocs (snd (kalloc 4096 boot_state)) 1 = Some 1"
    by (simp add: boot_page_1 allocs_grant boot_state_ok total_pages_eq)
  show ?thesis
    using reachable_allocator_consistent [OF r e] r one by blast
qed

text \<open>C13: for a request of at most the managed memory, \<open>kalloc\<close> refines first fit over the abstract
  map of allocations: it takes the least page after page 0 where the rounded-up number of pages
  does not meet an allocation, records it there, and fails, changing nothing, only when there is
  no such page.\<close>

theorem kalloc_refines_first_fit:
  assumes "pa_inv s" and "0 < sz" and "unat sz \<le> PHYSICAL_MEMORY_SIZE"
    and "kalloc sz s = (addr, s')"
  shows "case first_from (fits_at (allocs s) (pages_for (unat sz))) 0 total_pages of
      None \<Rightarrow> addr = 0 \<and> s' = s
    | Some p \<Rightarrow> addr = page_addr s p \<and> allocs s' = (allocs s)(p \<mapsto> pages_for (unat sz)) \<and>
        pa_inv s'"
proof -
  define n where "n = pages_for (unat sz)"
  have n: "0 < n" "n \<le> total_pages"
    using assms pages_for_bounds [of "unat sz"] by (auto simp: word_less_nat_alt n_def)
  note fits = free_run_iff_fits [OF assms(1) n(1)]
  show ?thesis
    unfolding n_def [symmetric]
  proof (rule kalloc_cases [OF assms(2,3), of s])
    assume k: "kalloc sz s = (0, s)"
      and "\<forall>p. p + pages_for (unat sz) \<le> total_pages \<longrightarrow> \<not> free_run (bitmap s) (pages_for (unat sz)) p"
    then have "first_from (fits_at (allocs s) n) 0 total_pages = None"
      using fits by (auto simp: first_from_None_iff n_def fits_at_def)
    with k assms(4) show "case first_from (fits_at (allocs s) n) 0 total_pages of
        None \<Rightarrow> addr = 0 \<and> s' = s
      | Some p \<Rightarrow> addr = page_addr s p \<and> allocs s' = (allocs s)(p \<mapsto> n) \<and> pa_inv s'"
      by simp
  next
    fix p
    assume k: "kalloc sz s = (page_addr s p, grant p (pages_for (unat sz)) s)"
      and p: "p + pages_for (unat sz) \<le> total_pages" "free_run (bitmap s) (pages_for (unat sz)) p"
      and least: "\<forall>q < p. \<not> free_run (bitmap s) (pages_for (unat sz)) q"
    have "first_from (fits_at (allocs s) n) 0 total_pages = Some p"
      using p least n fits by (auto simp: first_from_Some_iff n_def [symmetric])
    with k p assms n show "case first_from (fits_at (allocs s) n) 0 total_pages of
        None \<Rightarrow> addr = 0 \<and> s' = s
      | Some p \<Rightarrow> addr = page_addr s p \<and> allocs s' = (allocs s)(p \<mapsto> n) \<and> pa_inv s'"
      by (auto simp: allocs_grant pa_inv_grant n_def [symmetric])
  qed
qed

theorem kalloc_refines_first_fit_witness:
  "fst (kalloc 4096 boot_state) = page_addr boot_state 1 \<and>
   allocs (snd (kalloc 4096 boot_state)) = (allocs boot_state)(1 \<mapsto> 1)"
proof -
  have "case first_from (fits_at (allocs boot_state) (pages_for (unat (4096 :: u64)))) 0 total_pages of
      None \<Rightarrow> page_addr boot_state 1 = 0 \<and> grant 1 1 boot_state = boot_state
    | Some p \<Rightarrow> page_addr boot_state 1 = page_addr boot_state p \<and>
        allocs (grant 1 1 boot_state) = (allocs boot_state)(p \<mapsto> pages_for (unat (4096 :: u64))) \<and>
        pa_inv (grant 1 1 boot_state)"
    by (rule kalloc_refines_first_fit [OF boot_state_ok(1) _ _ boot_page_1])
      (simp_all add: layout_simps)
  moreover have "allocs boot_state = Map.empty"
    by (auto simp: fun_eq_iff allocs_def page_len_def boot_state_def initAllocator_def)
  then have "first_from (fits_at (allocs boot_state) (pages_for (unat (4096 :: u64)))) 0 total_pages = Some 1"
    by (auto simp: first_from_Some_iff fits_at_def pages_for_def layout_simps)
  ultimately show ?thesis by (simp add: boot_page_1 pages_for_def layout_simps)
qed

text \<open>C21: freeing the block \<open>kalloc\<close> has just returned restores the whole allocator state.\<close>

theorem page_free_kalloc:
  assumes "pa_inv s" and "base_ok s" and "kalloc sz s = (addr, s')" and "addr \<noteq> 0"
  shows "page_free addr s' = Some s"
proof (rule kalloc_any [of sz s])
  assume "kalloc sz s = (0, s)"
  with assms show ?thesis by simp
next
  fix p n
  assume n: "0 < n" "p + n \<le> total_pages" and free: "free_run (bitmap s) n p"
    and k: "kalloc sz s = (page_addr s p, grant p n s)"
  have p: "p < total_pages" "n \<le> total_pages" using n by auto
  have len: "page_len s p = 0"
    using free_run_apart [OF assms(1) n(2,1) free p(1)] n by auto
  have bm: "fold unmark_page [p..<p + n] (fold mark_page [p..<p + n] (bitmap s)) = bitmap s"
    using free n by (intro page_bits.clear_put_range) (auto simp: free_run_def bitmap_bits assms(1))
  have "page_counts s ! p = 0" using len by (simp add: page_len_def unat_eq_0)
  then have ct: "(page_counts s)[p := 0] = page_counts s" by (metis list_update_id)
  have "cut_down p 0 (grant p n s) = s"
    using bm ct by (simp add: cut_down_def page_len_grant [OF assms(1) p]) (simp add: grant_def)
  moreover have "page_free (page_addr s p) (grant p n s) = Some (cut_down p 0 (grant p n s))"
    using page_free_live [of "grant p n s" p] pa_inv_grant [OF assms(1) n(2,1) free] assms(2) p by simp
  ultimately show ?thesis using k assms(3) by simp
qed

theorem page_free_kalloc_witness:
  "fst (kalloc 4096 boot_state) \<noteq> 0 \<and>
   page_free (fst (kalloc 4096 boot_state)) (snd (kalloc 4096 boot_state)) = Some boot_state"
proof -
  have "fst (kalloc 4096 boot_state) \<noteq> 0"
    by (simp add: boot_page_1 page_addr_nonnull boot_state_ok total_pages_eq)
  then show ?thesis
    using page_free_kalloc [OF boot_state_ok, of 4096] by (metis prod.collapse)
qed

text \<open>C20: \<open>krealloc\<close> of a live block of \<open>n\<close> pages to at most the managed memory never leaves its
  arrays and keeps the invariant. If the new size needs no more pages the block stays where it is
  and its tail pages become free; otherwise it moves to a first-fit block that holds the old
  contents and the old block is gone, or, when nothing fits, nothing changes and the result is
  null.\<close>

theorem krealloc_correct:
  assumes inv: "pa_inv s" and base: "base_ok s" and live: "allocs s p = Some n"
    and sz: "0 < sz" "unat sz \<le> PHYSICAL_MEMORY_SIZE"
  shows "\<exists>r s'. krealloc (page_addr s p) sz s = Some (r, s') \<and> pa_inv s' \<and>
    (if pages_for (unat sz) \<le> n
     then r = page_addr s p \<and> allocs s' = (allocs s)(p \<mapsto> pages_for (unat sz)) \<and> phys s' = phys s
     else (case first_from (fits_at (allocs s) (pages_for (unat sz))) 0 total_pages of
             None \<Rightarrow> r = 0 \<and> s' = s
           | Some q \<Rightarrow> r = page_addr s q \<and>
               allocs s' = (allocs s)(q \<mapsto> pages_for (unat sz), p := None) \<and>
               (\<forall>i < n * PAGE_SIZE. phys s' (r + of_nat i) = phys s (page_addr s p + of_nat i))))"
proof -
  define k where "k = pages_for (unat sz)"
  have k: "0 < k" "k \<le> total_pages" "unat (realloc_pages sz) = k"
    using sz pages_for_bounds [of "unat sz"] realloc_pages_eq
    by (auto simp: word_less_nat_alt k_def)
  have p: "p < total_pages" "page_len s p = n" "0 < n"
    using live by (auto simp: allocs_def split: if_splits)
  have pn: "p + n \<le> total_pages" using pa_invD(4) [OF inv p(1)] p by simp
  note ix = page_index_of_addr [OF p(1), of s, symmetric]
  note fits = free_run_iff_fits [OF inv k(1)]
  show ?thesis
  proof (cases "k \<le> n")
    case True
    have "krealloc (page_addr s p) sz s = Some (page_addr s p, cut_down p k s)"
      using krealloc_shrink [OF inv _ ix p(1)] True sz k p by auto
    with True k p inv show ?thesis
      by (auto simp: k_def [symmetric] pa_inv_cut_down allocs_cut_down)
  next
    case grow: False
    have gr: "krealloc (page_addr s p) sz s =
      (let (a, t) = kalloc sz s
       in if a = 0 then Some (0, t)
          else map_option (Pair a)
            (page_free (page_addr s p) (t\<lparr>phys := phys_copy a (page_addr s p) (n * PAGE_SIZE) (phys t)\<rparr>)))"
      using krealloc_grow [OF inv _ ix p(1)] grow sz k p by auto
    show ?thesis
    proof (cases rule: kalloc_cases [OF sz, of s, case_names full found])
      case full
      note ka = full(1) and none = full(2) [folded k_def]
      have "first_from (fits_at (allocs s) k) 0 total_pages = None"
        using none fits by (auto simp: first_from_None_iff fits_at_def)
      with ka gr grow inv show ?thesis by (simp add: k_def [symmetric])
    next
      case (found q)
      note ka = found(1) [folded k_def] and q = found(2) [folded k_def]
        and free = found(3) [folded k_def] and least = found(4) [folded k_def]
      have first: "first_from (fits_at (allocs s) k) 0 total_pages = Some q"
        using q free least k fits by (auto simp: first_from_Some_iff)
      have apart: "q + k \<le> p \<or> p + n \<le> q" and neq: "q \<noteq> p"
        using free_run_apart [OF inv q k(1) free p(1)] p k by auto
      define t where "t = (grant q k s)\<lparr>phys :=
          phys_copy (page_addr s q) (page_addr s p) (n * PAGE_SIZE) (phys s)\<rparr>"
      have t: "pa_inv t" "base_ok t" "page_addr t = page_addr s"
        using pa_inv_grant [OF inv q k(1) free] base by (simp_all add: t_def)
      have "page_free (page_addr s p) t = Some (cut_down p 0 t)"
        using page_free_live [OF t(1,2) p(1)] t(3) by simp
      then have "krealloc (page_addr s p) sz s = Some (page_addr s q, cut_down p 0 t)"
        using gr ka page_addr_nonnull [OF base, of q] q k by (simp add: t_def)
      moreover have "allocs (cut_down p 0 t) = (allocs s)(q \<mapsto> k, p := None)"
        using t p(1) neq by (simp add: allocs_cut_down) (simp add: t_def allocs_grant inv q k)
      moreover have "phys (cut_down p 0 t) (page_addr s q + of_nat i) =
          phys s (page_addr s p + of_nat i)" if "i < n * PAGE_SIZE" for i
      proof -
        have "n * PAGE_SIZE \<le> 2 ^ 64" using pn by (simp add: layout_simps)
        moreover have "page_addr s q + of_nat i \<noteq> page_addr s p + of_nat j"
          if "i < n * PAGE_SIZE" "j < n * PAGE_SIZE" for i j
          using page_bytes_apart [OF base q pn apart, of i j] that grow by (auto simp: layout_simps)
        ultimately show ?thesis
          using phys_copy_disjoint(1) [of "n * PAGE_SIZE"] that by (simp add: t_def)
      qed
      ultimately show ?thesis
        using grow first t(1) p(1) by (simp add: k_def [symmetric] pa_inv_cut_down)
    qed
  qed
qed

theorem krealloc_correct_witness:
  "\<exists>r s'. krealloc (page_addr (grant 1 1 boot_state) 1) 4096 (grant 1 1 boot_state) = Some (r, s') \<and>
     r = page_addr (grant 1 1 boot_state) 1"
proof -
  have inv: "pa_inv (grant 1 1 boot_state)"
    by (intro pa_inv_grant) (auto simp: boot_state_ok total_pages_eq boot_page_1_free)
  have base: "base_ok (grant 1 1 boot_state)" by (simp add: boot_state_ok)
  have live: "allocs (grant 1 1 boot_state) 1 = Some 1"
    by (simp add: allocs_grant boot_state_ok total_pages_eq)
  have sz: "(0 :: u64) < 4096" "unat (4096 :: u64) \<le> PHYSICAL_MEMORY_SIZE"
    by (simp_all add: layout_simps)
  have one: "pages_for (unat (4096 :: u64)) \<le> 1"
    by (simp add: pages_for_def layout_simps)
  show ?thesis
    using krealloc_correct [OF inv base live sz] one by auto
qed

lemma pages_needed_wraps:
  assumes "0 < unat r" "unat r \<le> PHYSICAL_MEMORY_SIZE" "k < 2 ^ 20"
  shows "unat (of_nat k * 2 ^ 44 + r :: u64) = k * 2 ^ 44 + unat r"
    and "0 < k \<Longrightarrow> pages_needed (of_nat k * 2 ^ 44 + r) = int (pages_for (unat r))"
proof -
  let ?z = "of_nat k * 2 ^ 44 + r :: u64"
  have r: "unat r \<le> 31457280" using assms(2) by (simp add: layout_simps)
  have "(of_nat k * 2 ^ 44 :: u64) = of_nat (k * 2 ^ 44)" by simp
  then have "unat (of_nat k * 2 ^ 44 :: u64) = k * 2 ^ 44" using assms(3) by (simp only: unat_of_nat) simp
  then show z: "unat ?z = k * 2 ^ 44 + unat r" using assms(3) r by (subst unat_add_no_wrap) auto
  have n: "pages_for (unat r) < 2 ^ 31" using assms(2) by (simp add: pages_for_def layout_simps)
  assume k: "0 < k"
  have "unat (?z + 4095) = k * 2 ^ 44 + unat r + 4095" using z assms(3) r by (subst unat_add_no_wrap) auto
  then have "unat ((?z + 4095) div 4096) = (k * 2 ^ 44 + unat r + 4095) div 4096" by (simp add: unat_div_distrib)
  also have "\<dots> = (unat r + 4095 + k * 2 ^ 32 * 4096) div 4096" by (simp add: algebra_simps)
  also have "\<dots> = k * 2 ^ 32 + pages_for (unat r)" by (simp add: pages_for_def layout_simps)
  finally have "(ucast ((?z + 4095) div 4096) :: u32) = of_nat (pages_for (unat r))"
    by (intro word_unat_eq_iff [THEN iffD2]) (simp add: unsigned_ucast_eq unsigned_of_nat unsigned_take_bit_eq take_bit_eq_mod)
  then have "sint (ucast ((?z + 4095) div 4096) :: u32) = int (pages_for (unat r))"
    using n by (simp add: signed_of_nat signed_take_bit_int_eq_self)
  moreover have "\<not> ?z < 4096" using k z by (simp add: word_less_nat_alt)
  moreover have "?z + of_nat PAGE_SIZE - 1 = ?z + 4095" by (simp add: layout_simps)
  ultimately show "pages_needed ?z = int (pages_for (unat r))"
    by (simp add: pages_needed_def layout_simps add.commute [of _ "4095 :: u64"])
qed

text \<open>C26: \<open>kalloc\<close> narrows the page count to 32 bits. Take any request of \<open>k * 2^44 + r\<close> bytes
  (\<open>0 < k < 2^20\<close>), far more than the managed memory, with \<open>r\<close> positive and not above that memory: in every
  consistent state in which the pages for the \<open>r\<close> bytes are free somewhere, \<open>kalloc\<close> reports success
  and has reserved the pages for \<open>r\<close> bytes only.\<close>

theorem kalloc_truncates:
  assumes "pa_inv s" and "base_ok s" and "0 < unat r" and "unat r \<le> PHYSICAL_MEMORY_SIZE" and "0 < k" and "k < 2 ^ 20"
    and "fits_at (allocs s) (pages_for (unat r)) q"
  shows "\<exists>p s'. kalloc (of_nat k * 2 ^ 44 + r) s = (page_addr s p, s') \<and> page_addr s p \<noteq> 0 \<and>
    allocs s' = (allocs s)(p \<mapsto> pages_for (unat r)) \<and> unat (of_nat k * 2 ^ 44 + r :: u64) = k * 2 ^ 44 + unat r"
proof -
  let ?z = "of_nat k * 2 ^ 44 + r :: u64"
  note w = pages_needed_wraps [OF assms(3,4,6)]
  have r: "0 < r" using assms(3) by (simp add: word_less_nat_alt)
  have "r \<noteq> 0" and "?z \<noteq> 0" using w(1) assms(3) by auto
  then have eq: "kalloc ?z s = kalloc r s" using w(2) [OF assms(5)] pages_needed_eq [OF r assms(4)] r by (simp add: kalloc_def)
  have n: "0 < pages_for (unat r)" using pages_for_bounds [OF assms(3,4)] by simp
  show ?thesis
  proof (rule kalloc_cases [OF r assms(4), of s])
    assume "\<forall>p. p + pages_for (unat r) \<le> total_pages \<longrightarrow> \<not> free_run (bitmap s) (pages_for (unat r)) p"
    then show ?thesis using free_run_iff_fits [OF assms(1) n, of q] assms(7) by (auto simp: fits_at_def)
  next
    fix p assume p: "kalloc r s = (page_addr s p, grant p (pages_for (unat r)) s)" "p + pages_for (unat r) \<le> total_pages"
    then show ?thesis using eq w(1) allocs_grant [OF assms(1) p(2) n] page_addr_nonnull [OF assms(2), of p] n by auto
  qed
qed

theorem kalloc_truncates_witness:
  "\<exists>p s'. kalloc 0x300000001000 boot_state = (page_addr boot_state p, s') \<and> page_addr boot_state p \<noteq> 0 \<and> allocs s' p = Some 1"
proof -
  have a: "allocs boot_state = Map.empty" by (auto simp: fun_eq_iff allocs_def page_len_def boot_state_def initAllocator_def)
  have "fits_at (allocs boot_state) (pages_for (unat (4096 :: u64))) 1" unfolding a by (simp add: fits_at_def pages_for_def layout_simps)
  moreover have "unat (4096 :: u64) \<le> PHYSICAL_MEMORY_SIZE" by (simp add: layout_simps)
  ultimately show ?thesis using kalloc_truncates [OF boot_state_ok, of 4096 3 1] by (auto simp: pages_for_def layout_simps)
qed

text \<open>C27: \<open>krealloc\<close> narrows the page count to 16 bits: growing a live block to 256 MiB returns the
  block's address, as success does, but has freed all of its pages.\<close>

theorem krealloc_truncates:
  assumes "pa_inv s" and "base_ok s" and "allocs s p = Some n"
  shows "\<exists>s'. krealloc (page_addr s p) (2 ^ 28) s = Some (page_addr s p, s') \<and> allocs s' p = None"
proof -
  have p: "p < total_pages" using assms(3) by (auto simp: allocs_def split: if_splits)
  have "realloc_pages (2 ^ 28) = 0" by (simp add: realloc_pages_def layout_simps)
  then have "krealloc (page_addr s p) (2 ^ 28) s = Some (page_addr s p, cut_down p 0 s)"
    using krealloc_shrink [OF assms(1) _ page_index_of_addr [OF p, symmetric] p, of "2 ^ 28"] by simp
  then show ?thesis using assms(1) p by (simp add: allocs_cut_down)
qed

theorem krealloc_truncates_witness:
  "\<exists>s'. krealloc (page_addr (snd (kalloc 4096 boot_state)) 1) (2 ^ 28) (snd (kalloc 4096 boot_state)) =
     Some (page_addr (snd (kalloc 4096 boot_state)) 1, s') \<and> allocs s' 1 = None"
proof (rule krealloc_truncates)
  show "pa_inv (snd (kalloc 4096 boot_state))" "base_ok (snd (kalloc 4096 boot_state))"
    using kalloc_inv [OF boot_state_ok] by auto
  show "allocs (snd (kalloc 4096 boot_state)) 1 = Some 1"
    by (simp add: boot_page_1 allocs_grant boot_state_ok total_pages_eq)
qed

end
