(* ===== verification/Codec.thy ===== *)
theory Codec
  imports Prelude
begin

text \<open>
  Packed little-endian structures in byte blocks. The program keeps its on-disk structures as
  \<open>__attribute__((packed))\<close> structs and reads and writes them through casts of a block pointer; here
  a struct is a record with an encoder and a decoder. \<open>struct_codec\<close> is the contract between the
  two; from it follow, once, the laws of an array of structs that a cast block is.
\<close>

section \<open>Little-endian integers\<close>

definition le16 :: "u16 \<Rightarrow> bytes" where
  "le16 w = [ucast w, ucast (drop_bit 8 w)]"

definition le32 :: "u32 \<Rightarrow> bytes" where
  "le32 w = [ucast w, ucast (drop_bit 8 w), ucast (drop_bit 16 w), ucast (drop_bit 24 w)]"

definition rd16 :: "bytes \<Rightarrow> nat \<Rightarrow> u16" where
  "rd16 bs off = ucast (bs ! off) OR push_bit 8 (ucast (bs ! (off + 1)))"

definition rd32 :: "bytes \<Rightarrow> nat \<Rightarrow> u32" where
  "rd32 bs off = ucast (bs ! off) OR push_bit 8 (ucast (bs ! (off + 1))) OR
     push_bit 16 (ucast (bs ! (off + 2))) OR push_bit 24 (ucast (bs ! (off + 3)))"

definition le32s :: "u32 list \<Rightarrow> bytes" where
  "le32s ws = concat (map le32 ws)"

definition rd32s :: "bytes \<Rightarrow> nat \<Rightarrow> nat \<Rightarrow> u32 list" where
  "rd32s bs off n = map (\<lambda>i. rd32 bs (off + 4 * i)) [0..<n]"

named_theorems codec_simps \<open>reading and writing fields of packed structures\<close>

lemma length_le [codec_simps]:
  "length (le16 v) = 2" "length (le32 w) = 4" "length (le32s ws) = 4 * length ws"
  "length (rd32s bs off n) = n"
  by (simp_all add: le16_def le32_def le32s_def rd32s_def length_concat o_def sum_list_triv)

lemma rd_le_here [codec_simps]: "rd16 (le16 v @ r) 0 = v" "rd32 (le32 w @ r) 0 = w"
proof -
  show "rd16 (le16 v @ r) 0 = v"
    unfolding rd16_def le16_def
    by (rule bit_word_eqI) (auto simp: bit_simps le_Suc_ex)
  have "bit (rd32 (le32 w @ r) 0) n = bit w n" if n: "n < 32" for n
  proof -
    have eq: "rd32 (le32 w @ r) 0 = ucast (ucast w :: u8) OR push_bit 8 (ucast (ucast (drop_bit 8 w) :: u8)) OR
        push_bit 16 (ucast (ucast (drop_bit 16 w) :: u8)) OR
        push_bit 24 (ucast (ucast (drop_bit 24 w) :: u8))"
      by (simp add: rd32_def le32_def numeral_2_eq_2 numeral_3_eq_3)
    consider "n < 8" | "8 \<le> n" "n < 16" | "16 \<le> n" "n < 24" | "24 \<le> n" by linarith
    then show ?thesis
      using n by cases (auto simp: eq bit_simps)
  qed
  then show "rd32 (le32 w @ r) 0 = w" by (auto intro: bit_word_eqI)
qed

lemma rd_skip [codec_simps]:
  assumes "length xs \<le> off"
  shows "rd16 (xs @ r) off = rd16 r (off - length xs)"
    and "rd32 (xs @ r) off = rd32 r (off - length xs)"
    and "rd32s (xs @ r) off n = rd32s r (off - length xs) n"
    and "bslice off n (xs @ r) = bslice (off - length xs) n r"
proof -
  show "rd16 (xs @ r) off = rd16 r (off - length xs)"
    using assms by (simp add: rd16_def nth_append Suc_diff_le)
  have rd: "rd32 (xs @ r) k = rd32 r (k - length xs)" if "length xs \<le> k" for k
    using that by (simp add: rd32_def nth_append Suc_diff_le)
  from rd assms show "rd32 (xs @ r) off = rd32 r (off - length xs)" by simp
  from rd assms show "rd32s (xs @ r) off n = rd32s r (off - length xs) n"
    by (simp add: rd32s_def)
  show "bslice off n (xs @ r) = bslice (off - length xs) n r"
    using assms by (simp add: bslice_def)
qed

lemma nth_skip [codec_simps]: "length xs \<le> off \<Longrightarrow> (xs @ r) ! off = r ! (off - length xs)"
  by (simp add: nth_append)

lemma rd_skip_byte [codec_simps]:
  assumes "0 < off"
  shows "rd16 (b # r) off = rd16 r (off - 1)"
    and "rd32 (b # r) off = rd32 r (off - 1)"
    and "rd32s (b # r) off n = rd32s r (off - 1) n"
    and "bslice off n (b # r) = bslice (off - 1) n r"
    and "(b # r) ! off = r ! (off - 1)"
  using assms rd_skip [of "[b]" off] by simp_all

lemma bit_u8_beyond: "8 \<le> n \<Longrightarrow> \<not> bit (b :: u8) n"
  using bit_imp_le_length [of b n] by auto

lemma le_rd [codec_simps]:
  "off + 2 \<le> length bs \<Longrightarrow> le16 (rd16 bs off) = bslice off 2 bs"
  "off + 4 \<le> length bs \<Longrightarrow> le32 (rd32 bs off) = bslice off 4 bs"
proof -
  assume "off + 2 \<le> length bs"
  then have "bslice off 2 bs = [bs ! off, bs ! Suc off]"
    by (intro nth_equalityI) (auto simp: buf_simps nth_bslice less_Suc_eq numeral_2_eq_2)
  moreover have "le16 (rd16 bs off) = [bs ! off, bs ! Suc off]"
    unfolding le16_def rd16_def by (auto intro!: bit_word_eqI simp: bit_simps bit_u8_beyond)
  ultimately show "le16 (rd16 bs off) = bslice off 2 bs" by simp
next
  assume "off + 4 \<le> length bs"
  then have "bslice off 4 bs = [bs ! off, bs ! (off + 1), bs ! (off + 2), bs ! (off + 3)]"
    by (intro nth_equalityI) (auto simp: buf_simps nth_bslice less_Suc_eq numeral_eq_Suc)
  moreover have "le32 (rd32 bs off) = [bs ! off, bs ! (off + 1), bs ! (off + 2), bs ! (off + 3)]"
    unfolding le32_def rd32_def by (auto intro!: bit_word_eqI simp: bit_simps bit_u8_beyond)
  ultimately show "le32 (rd32 bs off) = bslice off 4 bs" by simp
qed

lemma bslice_here [codec_simps]: "length xs = n \<Longrightarrow> bslice 0 n (xs @ r) = xs"
  by (simp add: bslice_def)

lemma rd32s_here [codec_simps]: "length ws = n \<Longrightarrow> rd32s (le32s ws @ r) 0 n = ws"
proof (induction ws arbitrary: n r)
  case Nil
  then show ?case by (simp add: rd32s_def)
next
  case (Cons w ws)
  then obtain m where m: "n = Suc m" "length ws = m" by auto
  have "rd32s (le32s (w # ws) @ r) 0 n =
      rd32 (le32 w @ (le32s ws @ r)) 0 # rd32s (le32 w @ (le32s ws @ r)) 4 m"
    by (simp add: rd32s_def le32s_def m upt_conv_Cons map_Suc_upt [symmetric] del: upt_Suc)
  also have "\<dots> = w # ws"
    using Cons.IH [OF m(2), of r] by (simp add: codec_simps)
  finally show ?case .
qed

lemma le32s_rd32s [codec_simps]:
  "off + 4 * n \<le> length bs \<Longrightarrow> le32s (rd32s bs off n) = bslice off (4 * n) bs"
proof (induction n)
  case 0
  then show ?case by (simp add: rd32s_def le32s_def bslice_def)
next
  case (Suc n)
  have "le32s (rd32s bs off (Suc n)) = bslice off (4 * n) bs @ bslice (off + 4 * n) 4 bs"
    using Suc by (simp add: rd32s_def le32s_def le_rd)
  also have "\<dots> = bslice off (4 * n + 4) bs"
    using Suc.prems by (intro bslice_append) simp
  finally show ?case by (simp add: add.commute)
qed

lemma byte_merge [codec_simps]:
  assumes "off' = Suc off" and "Suc off \<le> length bs"
  shows "bs ! off # bslice off' m bs = bslice off (Suc m) bs"
  using assms by (simp add: bslice_def Cons_nth_drop_Suc [symmetric])

lemma bslice_merge [codec_simps]:
  "off' = off + n \<Longrightarrow> off + n \<le> length bs \<Longrightarrow>
   bslice off n bs @ bslice off' m bs = bslice off (n + m) bs"
  by (simp add: bslice_append)

section \<open>Arrays of structs in a block\<close>

definition struct_at :: "nat \<Rightarrow> (bytes \<Rightarrow> 'a) \<Rightarrow> bytes \<Rightarrow> nat \<Rightarrow> 'a option" where
  "struct_at sz dec bs i =
     (if (i + 1) * sz \<le> length bs then Some (dec (drop (i * sz) bs)) else None)"

definition struct_put :: "nat \<Rightarrow> ('a \<Rightarrow> bytes) \<Rightarrow> bytes \<Rightarrow> nat \<Rightarrow> 'a \<Rightarrow> bytes option" where
  "struct_put sz enc bs i x =
     (if (i + 1) * sz \<le> length bs then Some (overwrite bs (i * sz) (enc x)) else None)"

locale struct_codec =
  fixes sz :: nat
    and enc :: "'a \<Rightarrow> bytes"
    and dec :: "bytes \<Rightarrow> 'a"
    and wf :: "'a \<Rightarrow> bool"
  assumes sz_pos: "0 < sz"
    and enc_length: "wf x \<Longrightarrow> length (enc x) = sz"
    and dec_enc: "wf x \<Longrightarrow> dec (enc x @ r) = x"
    and wf_dec: "sz \<le> length bs \<Longrightarrow> wf (dec bs)"
    and enc_dec: "sz \<le> length bs \<Longrightarrow> enc (dec bs) = take sz bs"
begin

lemma dec_take: "sz \<le> length bs \<Longrightarrow> dec (take sz bs) = dec bs"
  using dec_enc [OF wf_dec, of bs "[]"] by (simp add: enc_dec)

lemma at_defined: "(i + 1) * sz \<le> length bs \<Longrightarrow> struct_at sz dec bs i = Some (dec (drop (i * sz) bs))"
  by (simp add: struct_at_def)

lemma at_wf: "struct_at sz dec bs i = Some x \<Longrightarrow> wf x"
  by (auto simp: struct_at_def wf_dec split: if_splits)

lemma at_bslice:
  assumes "(i + 1) * sz \<le> length bs"
  shows "struct_at sz dec bs i = Some (dec (bslice (i * sz) sz bs))"
  using assms dec_take [of "drop (i * sz) bs"] by (simp add: struct_at_def bslice_def)

lemma put_length: "wf x \<Longrightarrow> struct_put sz enc bs i x = Some bs' \<Longrightarrow> length bs' = length bs"
  by (auto simp: struct_put_def enc_length buf_simps split: if_splits)

lemma at_put_same:
  assumes "wf x" and "struct_put sz enc bs i x = Some bs'"
  shows "struct_at sz dec bs' i = Some x"
proof -
  have le: "(i + 1) * sz \<le> length bs" and bs': "bs' = overwrite bs (i * sz) (enc x)"
    using assms(2) by (auto simp: struct_put_def split: if_splits)
  have "bslice (i * sz) sz bs' = enc x"
    using bslice_overwrite_same [of "i * sz" "enc x" bs] assms(1) le by (simp add: bs' enc_length add.commute)
  then show ?thesis
    using at_bslice [of i bs'] put_length [OF assms] le dec_enc [OF assms(1), of "[]"] by simp
qed

lemma at_put_other:
  assumes "wf x" and "struct_put sz enc bs i x = Some bs'" and "i \<noteq> j"
  shows "struct_at sz dec bs' j = struct_at sz dec bs j"
proof (cases "(j + 1) * sz \<le> length bs")
  case True
  have le: "(i + 1) * sz \<le> length bs" and bs': "bs' = overwrite bs (i * sz) (enc x)"
    using assms(2) by (auto simp: struct_put_def split: if_splits)
  have "j + 1 \<le> i \<or> i + 1 \<le> j" using assms(3) by linarith
  then have "(j + 1) * sz \<le> i * sz \<or> (i + 1) * sz \<le> j * sz" by (meson mult_le_mono1)
  then have "bslice (j * sz) sz bs' = bslice (j * sz) sz bs"
    unfolding bs' using assms(1) le True by (intro bslice_overwrite_other) (auto simp: enc_length algebra_simps)
  then show ?thesis
    using True put_length [OF assms(1,2)] by (simp add: at_bslice)
next
  case False
  then show ?thesis using put_length [OF assms(1,2)] by (simp add: struct_at_def)
qed

lemma put_defined:
  assumes "(i + 1) * sz \<le> length bs"
  obtains bs' where "struct_put sz enc bs i x = Some bs'"
  using assms by (auto simp: struct_put_def)

lemma put_at_same:
  assumes "struct_at sz dec bs i = Some x"
  shows "struct_put sz enc bs i x = Some bs"
proof -
  have le: "(i + 1) * sz \<le> length bs" and x: "x = dec (drop (i * sz) bs)"
    using assms by (auto simp: struct_at_def split: if_splits)
  have "sz \<le> length (drop (i * sz) bs)" using le by simp
  then have "enc x = bslice (i * sz) sz bs" by (simp add: x enc_dec bslice_def)
  then show ?thesis
    using le by (simp add: struct_put_def overwrite_bslice_id add.commute)
qed

end

end
