(* ===== verification/Msg.thy ===== *)
theory Msg
  imports Codec
begin

text \<open>
  The message link (\<open>src/msg.c\<close>): framing of a message, and the receiver, a state machine fed with
  one byte at a time from the serial port. The bytes handed to \<open>serial_write_raw\<close> and the message
  printed by the receiver are results of the model.
\<close>

section \<open>Frames\<close>

definition MSG_MAGIC0 :: u8 where "MSG_MAGIC0 = 0x1D"
definition MSG_MAGIC1 :: u8 where "MSG_MAGIC1 = 0x05"
definition MSG_MAX_NODES :: nat where "MSG_MAX_NODES = 8"
definition MSG_MAX_PAYLOAD :: nat where "MSG_MAX_PAYLOAD = 512"
definition MSG_HDR :: nat where "MSG_HDR = 6"

record MsgHeader =
  h_magic :: bytes
  h_sender :: u8
  h_target :: u8
  h_length :: u16

definition decMsgHeader :: "bytes \<Rightarrow> MsgHeader" where
  "decMsgHeader bs = \<lparr> h_magic = bslice 0 2 bs, h_sender = bs ! 2, h_target = bs ! 3, h_length = rd16 bs 4 \<rparr>"

definition encMsgHeader :: "MsgHeader \<Rightarrow> bytes" where
  "encMsgHeader x = h_magic x @ [h_sender x] @ [h_target x] @ le16 (h_length x)"

definition wfMsgHeader :: "MsgHeader \<Rightarrow> bool" where
  "wfMsgHeader x \<longleftrightarrow> length (h_magic x) = 2"

lemma msg_layout [layout_simps]:
  "MSG_MAX_NODES = 8" "MSG_MAX_PAYLOAD = 512" "MSG_HDR = 6"
  by (simp_all add: MSG_MAX_NODES_def MSG_MAX_PAYLOAD_def MSG_HDR_def)

interpretation header_codec: struct_codec MSG_HDR encMsgHeader decMsgHeader wfMsgHeader
proof
  show "0 < MSG_HDR" by (simp add: layout_simps)
  show "wfMsgHeader x \<Longrightarrow> length (encMsgHeader x) = MSG_HDR" for x
    by (simp add: wfMsgHeader_def encMsgHeader_def layout_simps codec_simps)
  show "wfMsgHeader x \<Longrightarrow> decMsgHeader (encMsgHeader x @ r) = x" for x r
    by (simp add: wfMsgHeader_def encMsgHeader_def decMsgHeader_def codec_simps)
  show "MSG_HDR \<le> length bs \<Longrightarrow> wfMsgHeader (decMsgHeader bs)" for bs
    by (simp add: wfMsgHeader_def decMsgHeader_def layout_simps buf_simps)
  show "MSG_HDR \<le> length bs \<Longrightarrow> encMsgHeader (decMsgHeader bs) = take MSG_HDR bs" for bs
    by (simp add: encMsgHeader_def decMsgHeader_def layout_simps codec_simps) (simp add: bslice_def)
qed

fun xor_from :: "u8 \<Rightarrow> bytes \<Rightarrow> nat \<Rightarrow> u8 option" where
  "xor_from c bs 0 = Some c"
| "xor_from c [] (Suc n) = None"
| "xor_from c (b # bs) (Suc n) = xor_from (c XOR b) bs n"

definition checksum :: "bytes \<Rightarrow> nat \<Rightarrow> u8 option" where
  "checksum data len = xor_from 0 data len"

section \<open>Sending\<close>

datatype rx_state_t = RX_IDLE | RX_MAGIC1 | RX_HDR | RX_DATA | RX_CHK

record msg_state =
  g_node_id :: u8
  rx_state :: rx_state_t
  rx_buf :: bytes
  rx_pos :: nat
  rx_need :: nat

datatype send_result = No_Node_Id | Invalid_Target | Bad_Length | Frame bytes

definition frame_of :: "u8 \<Rightarrow> u8 \<Rightarrow> bytes \<Rightarrow> bytes option" where
  "frame_of sender target body = do {
     let pkt = encMsgHeader \<lparr> h_magic = [MSG_MAGIC0, MSG_MAGIC1], h_sender = sender, h_target = target,
       h_length = of_nat (length body) \<rparr> @ body;
     c \<leftarrow> checksum pkt (MSG_HDR + length body);
     Some (pkt @ [c]) }"

definition msg_send :: "msg_state \<Rightarrow> u8 \<Rightarrow> bytes \<Rightarrow> int \<Rightarrow> send_result option" where
  "msg_send s target txt len =
    (if g_node_id s = 0xFF then Some No_Node_Id
     else if unat target \<ge> MSG_MAX_NODES then Some Invalid_Target
     else if len \<le> 0 \<or> len > int MSG_MAX_PAYLOAD then Some Bad_Length
     else if length txt < nat len then None
     else do { pkt \<leftarrow> frame_of (g_node_id s) target (take (nat len) txt); Some (Frame pkt) })"

definition msg_set_id :: "msg_state \<Rightarrow> u8 \<Rightarrow> (send_result \<times> msg_state) option" where
  "msg_set_id s i =
    (if unat i \<ge> MSG_MAX_NODES then Some (Invalid_Target, s)
     else do {
       let s = s\<lparr> g_node_id := i \<rparr>;
       r \<leftarrow> msg_send s i [0] 1;
       Some (r, s) })"

section \<open>Receiving\<close>

text \<open>One turn of the loop of \<open>msg_poll\<close>: the new state and the message printed, if any.\<close>

definition rx_byte :: "msg_state \<Rightarrow> u8 \<Rightarrow> (msg_state \<times> (u8 \<times> bytes) option) option" where
  "rx_byte s b = (case rx_state s of
     RX_IDLE \<Rightarrow>
       if b = MSG_MAGIC0 then do {
         buf \<leftarrow> upd (rx_buf s) 0 b;
         Some (s\<lparr> rx_buf := buf, rx_pos := 1, rx_state := RX_MAGIC1 \<rparr>, None) }
       else Some (s, None)
   | RX_MAGIC1 \<Rightarrow>
       if b = MSG_MAGIC1 then do {
         buf \<leftarrow> upd (rx_buf s) 1 b;
         Some (s\<lparr> rx_buf := buf, rx_pos := 2, rx_state := RX_HDR \<rparr>, None) }
       else Some (s\<lparr> rx_state := RX_IDLE \<rparr>, None)
   | RX_HDR \<Rightarrow> do {
       buf \<leftarrow> upd (rx_buf s) (rx_pos s) b;
       let s = s\<lparr> rx_buf := buf, rx_pos := rx_pos s + 1 \<rparr>;
       if rx_pos s \<ge> MSG_HDR then do {
         h \<leftarrow> struct_at MSG_HDR decMsgHeader buf 0;
         let need = unat (h_length h);
         Some (s\<lparr> rx_need := need,
           rx_state := (if need > MSG_MAX_PAYLOAD \<or> need = 0 then RX_IDLE else RX_DATA) \<rparr>, None) }
       else Some (s, None) }
   | RX_DATA \<Rightarrow> do {
       buf \<leftarrow> upd (rx_buf s) (rx_pos s) b;
       let s = s\<lparr> rx_buf := buf, rx_pos := rx_pos s + 1 \<rparr>;
       Some (if rx_pos s \<ge> MSG_HDR + rx_need s then s\<lparr> rx_state := RX_CHK \<rparr> else s, None) }
   | RX_CHK \<Rightarrow> do {
       c \<leftarrow> checksum (rx_buf s) (MSG_HDR + rx_need s);
       if c = b then do {
         h \<leftarrow> struct_at MSG_HDR decMsgHeader (rx_buf s) 0;
         if h_target h = g_node_id s then do {
           buf \<leftarrow> upd (rx_buf s) (MSG_HDR + unat (h_length h)) 0;
           Some (s\<lparr> rx_buf := buf, rx_state := RX_IDLE \<rparr>,
             Some (h_sender h, takeWhile (\<lambda>c. c \<noteq> 0) (drop MSG_HDR buf))) }
         else Some (s\<lparr> rx_state := RX_IDLE \<rparr>, None) }
       else Some (s\<lparr> rx_state := RX_IDLE \<rparr>, None) })"

text \<open>\<open>msg_poll\<close> consumes what the port has: the messages printed, in order.\<close>

fun msg_poll :: "msg_state \<Rightarrow> bytes \<Rightarrow> (msg_state \<times> (u8 \<times> bytes) list) option" where
  "msg_poll s [] = Some (s, [])"
| "msg_poll s (b # bs) = do {
     (s, m) \<leftarrow> rx_byte s b;
     (s, ms) \<leftarrow> msg_poll s bs;
     Some (s, (case m of None \<Rightarrow> ms | Some x \<Rightarrow> x # ms)) }"

definition msg_boot :: msg_state where
  "msg_boot = \<lparr> g_node_id = 0xFF, rx_state = RX_IDLE,
     rx_buf = replicate (MSG_HDR + MSG_MAX_PAYLOAD + 1) 0, rx_pos = 0, rx_need = 0 \<rparr>"

section \<open>The receiver never leaves its buffer\<close>

definition rx_inv :: "msg_state \<Rightarrow> bool" where
  "rx_inv s \<longleftrightarrow> length (rx_buf s) = MSG_HDR + MSG_MAX_PAYLOAD + 1 \<and>
     (case rx_state s of
        RX_HDR \<Rightarrow> 2 \<le> rx_pos s \<and> rx_pos s < MSG_HDR
      | RX_DATA \<Rightarrow> MSG_HDR \<le> rx_pos s \<and> rx_pos s < MSG_HDR + rx_need s \<and> rx_need s \<le> MSG_MAX_PAYLOAD \<and>
          unat (h_length (decMsgHeader (rx_buf s))) = rx_need s
      | RX_CHK \<Rightarrow> 0 < rx_need s \<and> rx_need s \<le> MSG_MAX_PAYLOAD \<and>
          unat (h_length (decMsgHeader (rx_buf s))) = rx_need s
      | _ \<Rightarrow> True)"

lemma xor_from_defined: "n \<le> length bs \<Longrightarrow> \<exists>c'. xor_from c bs n = Some c'"
  by (induction c bs n rule: xor_from.induct) auto

lemma dec_header_update: "6 \<le> p \<Longrightarrow> decMsgHeader (xs[p := b]) = decMsgHeader xs"
  by (simp add: decMsgHeader_def rd16_def bslice_def nth_list_update take_update_cancel)

lemma rx_byte_inv:
  assumes "rx_inv s"
  shows "\<exists>s' m. rx_byte s b = Some (s', m) \<and> rx_inv s' \<and> g_node_id s' = g_node_id s"
proof (cases "rx_state s")
  case RX_IDLE
  then show ?thesis using assms by (auto simp: rx_byte_def rx_inv_def upd_def layout_simps)
next
  case RX_MAGIC1
  then show ?thesis using assms by (auto simp: rx_byte_def rx_inv_def upd_def layout_simps)
next
  case RX_HDR
  then show ?thesis
    using assms by (auto simp: rx_byte_def rx_inv_def upd_def layout_simps Let_def struct_at_def)
next
  case RX_DATA
  then show ?thesis
    using assms by (auto simp: rx_byte_def rx_inv_def upd_def layout_simps Let_def dec_header_update)
next
  case RX_CHK
  then obtain c where "checksum (rx_buf s) (MSG_HDR + rx_need s) = Some c"
    using assms xor_from_defined [of "MSG_HDR + rx_need s" "rx_buf s" 0]
    by (auto simp: checksum_def rx_inv_def layout_simps)
  with RX_CHK assms show ?thesis
    by (auto simp: rx_byte_def rx_inv_def upd_def layout_simps Let_def struct_at_def)
qed

lemma msg_poll_inv:
  "rx_inv s \<Longrightarrow> \<exists>s' ms. msg_poll s bs = Some (s', ms) \<and> rx_inv s' \<and> g_node_id s' = g_node_id s"
proof (induction bs arbitrary: s)
  case (Cons b bs)
  obtain s1 m where "rx_byte s b = Some (s1, m)" "rx_inv s1" "g_node_id s1 = g_node_id s"
    using rx_byte_inv [OF Cons.prems] by blast
  with Cons.IH [of s1] show ?case by (fastforce split: option.splits)
qed simp

lemma msg_poll_append:
  "msg_poll s (xs @ ys) = do {
     (s, ms) \<leftarrow> msg_poll s xs; (s, ns) \<leftarrow> msg_poll s ys; Some (s, ms @ ns) }"
proof (induction xs arbitrary: s)
  case Nil
  then show ?case by (cases "msg_poll s ys") auto
next
  case (Cons b xs)
  show ?case
  proof (cases "rx_byte s b")
    case (Some r)
    obtain s1 m where r: "r = (s1, m)" by (cases r)
    show ?thesis
    proof (cases "msg_poll s1 xs")
      case None
      then show ?thesis using Some r Cons.IH [of s1] by simp
    next
      case (Some q)
      obtain s2 ms where q: "q = (s2, ms)" by (cases q)
      show ?thesis
        using \<open>rx_byte s b = Some r\<close> r Some q Cons.IH [of s1]
        by (cases "msg_poll s2 ys") (auto split: option.splits)
    qed
  qed simp
qed

lemma msg_poll_then:
  assumes "msg_poll s xs = Some (s', ms)"
  shows "msg_poll s (xs @ ys) = do { (s'', ns) \<leftarrow> msg_poll s' ys; Some (s'', ms @ ns) }"
  using assms by (simp add: msg_poll_append)

section \<open>Readers of byte streams\<close>

text \<open>
  The contract of a component that is fed a byte stream in pieces of any size, as a serial port or a
  socket hands them out: a piece is the same as its parts one after the other. Then the way the
  stream is cut does not matter.
\<close>

fun feeds :: "('s \<Rightarrow> bytes \<Rightarrow> ('s \<times> 'm list) option) \<Rightarrow> 's \<Rightarrow> bytes list \<Rightarrow> ('s \<times> 'm list) option" where
  "feeds feed s [] = Some (s, [])"
| "feeds feed s (c # cs) = do {
     (s, ms) \<leftarrow> feed s c; (s, ns) \<leftarrow> feeds feed s cs; Some (s, ms @ ns) }"

locale stream_reader =
  fixes feed :: "'s \<Rightarrow> bytes \<Rightarrow> ('s \<times> 'm list) option"
    and ok :: "'s \<Rightarrow> bool"
  assumes feed_nil: "ok s \<Longrightarrow> feed s [] = Some (s, [])"
    and feed_ok: "ok s \<Longrightarrow> \<exists>s' ms. feed s xs = Some (s', ms) \<and> ok s'"
    and feed_split: "ok s \<Longrightarrow> feed s (xs @ ys) = do {
      (s, ms) \<leftarrow> feed s xs; (s, ns) \<leftarrow> feed s ys; Some (s, ms @ ns) }"
begin

lemma feeds_concat: "ok s \<Longrightarrow> feeds feed s cs = feed s (concat cs)"
proof (induction cs arbitrary: s)
  case (Cons c cs)
  obtain s1 ms where "feed s c = Some (s1, ms)" "ok s1" using feed_ok [OF Cons.prems] by blast
  with Cons show ?case by (simp add: feed_split)
qed (simp add: feed_nil)

lemma feeds_same: "ok s \<Longrightarrow> concat cs = concat ds \<Longrightarrow> feeds feed s cs = feeds feed s ds"
  by (simp add: feeds_concat)

end

interpretation port: stream_reader msg_poll rx_inv
proof
  show "rx_inv s \<Longrightarrow> \<exists>s' ms. msg_poll s xs = Some (s', ms) \<and> rx_inv s'" for s xs
    using msg_poll_inv [of s xs] by blast
qed (simp_all add: msg_poll_append)

section \<open>The check byte\<close>

definition xor_sum :: "bytes \<Rightarrow> u8" where
  "xor_sum bs = foldr (XOR) bs 0"

lemma xor_sum_simps [simp]:
  "xor_sum [] = 0" "xor_sum (b # bs) = b XOR xor_sum bs"
  "xor_sum (xs @ ys) = xor_sum xs XOR xor_sum ys"
proof -
  show "xor_sum [] = 0" "xor_sum (b # bs) = b XOR xor_sum bs" by (simp_all add: xor_sum_def)
  show "xor_sum (xs @ ys) = xor_sum xs XOR xor_sum ys"
    by (induction xs) (simp_all add: xor_sum_def xor.assoc)
qed

lemma xor_from_sum: "n \<le> length bs \<Longrightarrow> xor_from c bs n = Some (c XOR xor_sum (take n bs))"
  by (induction c bs n rule: xor_from.induct) (auto simp: xor.assoc)

lemma checksum_sum: "n \<le> length bs \<Longrightarrow> checksum bs n = Some (xor_sum (take n bs))"
  by (simp add: checksum_def xor_from_sum)

lemma xor_sum_update:
  "i < length xs \<Longrightarrow> xor_sum (xs[i := b]) = xor_sum xs XOR xs ! i XOR b"
proof (induction xs arbitrary: i)
  case (Cons x xs)
  show ?case
  proof (cases i)
    case 0
    have "b XOR xor_sum xs = (x XOR xor_sum xs) XOR x XOR b"
      by (simp add: xor.commute xor.left_commute xor.assoc)
    with 0 show ?thesis by simp
  next
    case (Suc j)
    with Cons show ?thesis by (simp add: xor.assoc)
  qed
qed simp

lemma xor_sum_detects:
  assumes "i < length xs" and "b \<noteq> xs ! i"
  shows "xor_sum (xs[i := b]) \<noteq> xor_sum xs"
  using assms word_xor_both_iff [of "xor_sum xs" "xs ! i" b] by (simp add: xor_sum_update xor.assoc)

section \<open>A whole frame\<close>

text \<open>The six bytes of a header, and the bytes of a frame with the check byte \<open>c\<close>, correct or not.\<close>

definition frame_head :: "u8 \<Rightarrow> u8 \<Rightarrow> nat \<Rightarrow> bytes" where
  "frame_head sn tg n = [MSG_MAGIC0, MSG_MAGIC1, sn, tg] @ le16 (of_nat n)"

definition raw_frame :: "u8 \<Rightarrow> u8 \<Rightarrow> bytes \<Rightarrow> u8 \<Rightarrow> bytes" where
  "raw_frame sn tg body c = frame_head sn tg (length body) @ body @ [c]"

definition frame_sum :: "u8 \<Rightarrow> u8 \<Rightarrow> bytes \<Rightarrow> u8" where
  "frame_sum sn tg body = xor_sum (frame_head sn tg (length body) @ body)"

definition good_frame :: "u8 \<Rightarrow> u8 \<Rightarrow> bytes \<Rightarrow> bytes" where
  "good_frame sn tg body = raw_frame sn tg body (frame_sum sn tg body)"

lemma length_frame_head [simp]: "length (frame_head sn tg n) = 6"
  by (simp add: frame_head_def codec_simps)

lemma dec_frame_head:
  "decMsgHeader (frame_head sn tg n @ r) =
    \<lparr> h_magic = [MSG_MAGIC0, MSG_MAGIC1], h_sender = sn, h_target = tg, h_length = of_nat n \<rparr>"
  using header_codec.dec_enc [of "\<lparr> h_magic = [MSG_MAGIC0, MSG_MAGIC1], h_sender = sn, h_target = tg,
      h_length = of_nat n \<rparr>" r]
  by (simp add: wfMsgHeader_def encMsgHeader_def frame_head_def)

lemma frame_of_eq: "frame_of sn tg body = Some (good_frame sn tg body)"
  by (simp add: frame_of_def good_frame_def raw_frame_def frame_sum_def frame_head_def Let_def
      checksum_sum encMsgHeader_def codec_simps layout_simps)

lemma payload_length [simp]:
  "n \<le> MSG_MAX_PAYLOAD \<Longrightarrow> unat (of_nat n :: u16) = n"
  by (simp add: unat_le_of_nat layout_simps)

lemma list_six: "6 \<le> length xs \<Longrightarrow> \<exists>a b c d e f r. xs = a # b # c # d # e # f # r"
  by (cases xs rule: list.exhaust; simp add: Suc_le_length_iff numeral_eq_Suc) blast

lemma feed_head:
  assumes inv: "rx_inv s" and idle: "rx_state s = RX_IDLE" and n: "0 < n" "n \<le> MSG_MAX_PAYLOAD"
  shows "msg_poll s (frame_head sn tg n) =
    Some (s\<lparr> rx_buf := frame_head sn tg n @ drop 6 (rx_buf s), rx_pos := 6, rx_need := n,
      rx_state := RX_DATA \<rparr>, [])"
proof -
  obtain a b c d e f r where buf: "rx_buf s = a # b # c # d # e # f # r"
    using inv list_six [of "rx_buf s"] by (auto simp: rx_inv_def layout_simps)
  obtain lo hi where le: "le16 (of_nat n) = [lo, hi]" by (simp add: le16_def)
  have h: "frame_head sn tg n = [MSG_MAGIC0, MSG_MAGIC1, sn, tg, lo, hi]"
    by (simp add: frame_head_def le)
  have need: "unat (h_length (decMsgHeader (MSG_MAGIC0 # MSG_MAGIC1 # sn # tg # lo # hi # r))) = n"
    using dec_frame_head [of sn tg n r] n by (simp add: h)
  show ?thesis
    unfolding h using idle buf n need
    by (simp add: rx_byte_def upd_def Let_def struct_at_def msg_layout numeral_eq_Suc)
qed

lemma feed_body:
  assumes "rx_state s = RX_DATA" and "length (rx_buf s) = MSG_HDR + MSG_MAX_PAYLOAD + 1"
    and "rx_need s \<le> MSG_MAX_PAYLOAD" and "bs \<noteq> []" and "rx_pos s + length bs = MSG_HDR + rx_need s"
  shows "msg_poll s bs = Some (s\<lparr> rx_buf := overwrite (rx_buf s) (rx_pos s) bs,
      rx_pos := MSG_HDR + rx_need s, rx_state := RX_CHK \<rparr>, [])"
  using assms
proof (induction bs arbitrary: s)
  case (Cons b bs)
  let ?s = "s\<lparr> rx_buf := (rx_buf s)[rx_pos s := b], rx_pos := rx_pos s + 1 \<rparr>"
  have p: "rx_pos s < length (rx_buf s)" using Cons.prems by simp
  have ow: "overwrite ((rx_buf s)[rx_pos s := b]) (Suc (rx_pos s)) bs = overwrite (rx_buf s) (rx_pos s) (b # bs)"
    using p by (simp add: overwrite_def take_Suc_conv_app_nth)
  show ?case
  proof (cases "bs = []")
    case True
    then show ?thesis using Cons.prems p ow by (simp add: rx_byte_def Let_def overwrite_Nil)
  next
    case False
    then have "rx_byte s b = Some (?s, None)"
      using Cons.prems p by (cases bs) (simp_all add: rx_byte_def Let_def)
    moreover have "msg_poll ?s bs = Some (?s\<lparr> rx_buf := overwrite (rx_buf ?s) (rx_pos ?s) bs,
      rx_pos := MSG_HDR + rx_need ?s, rx_state := RX_CHK \<rparr>, [])"
      by (rule Cons.IH) (use False Cons.prems in auto)
    ultimately show ?thesis using ow by simp
  qed
qed simp


lemma feed_check:
  assumes "rx_state s = RX_CHK" and "rx_buf s = frame_head sn tg (length body) @ body @ r"
    and "r \<noteq> []" and "length body = rx_need s" and "rx_need s \<le> MSG_MAX_PAYLOAD"
  shows "\<exists>buf. rx_byte s c = Some (s\<lparr> rx_buf := buf, rx_state := RX_IDLE \<rparr>,
      if c = frame_sum sn tg body \<and> tg = g_node_id s then Some (sn, takeWhile (\<lambda>b. b \<noteq> 0) body) else None) \<and>
    length buf = length (rx_buf s)"
proof -
  have sum: "checksum (rx_buf s) (MSG_HDR + rx_need s) = Some (frame_sum sn tg body)"
    using assms by (simp add: checksum_sum frame_sum_def msg_layout)
  have same: "s\<lparr> rx_state := RX_IDLE \<rparr> = s\<lparr> rx_buf := rx_buf s, rx_state := RX_IDLE \<rparr>" by simp
  show ?thesis
  proof (cases "c = frame_sum sn tg body \<and> tg = g_node_id s")
    case True
    have cut: "takeWhile (\<lambda>b. b \<noteq> 0) (xs @ 0 # ys) = takeWhile (\<lambda>b. b \<noteq> 0) xs" for xs ys :: bytes
      by (induction xs) auto
    have "takeWhile (\<lambda>c. c \<noteq> 0) (drop MSG_HDR ((rx_buf s)[MSG_HDR + rx_need s := 0])) = takeWhile (\<lambda>b. b \<noteq> 0) body"
      using assms by (cases r) (simp_all add: msg_layout drop_update_swap list_update_append cut)
    with True sum assms show ?thesis
      by (cases r) (auto simp: rx_byte_def struct_at_def msg_layout dec_frame_head)
  next
    case False
    then show ?thesis
      using sum assms same
      by (intro exI [of _ "rx_buf s"]) (auto simp: rx_byte_def struct_at_def msg_layout dec_frame_head)
  qed
qed

text \<open>
  A receiver between frames that is fed a frame prints the message exactly when the check byte is
  right and the frame is addressed to it, and is between frames again.
\<close>

lemma feed_frame:
  assumes inv: "rx_inv s" and idle: "rx_state s = RX_IDLE"
    and body: "body \<noteq> []" "length body \<le> MSG_MAX_PAYLOAD"
  shows "\<exists>s'. msg_poll s (raw_frame sn tg body c) = Some (s',
      if c = frame_sum sn tg body \<and> tg = g_node_id s then [(sn, takeWhile (\<lambda>b. b \<noteq> 0) body)] else []) \<and>
    rx_inv s' \<and> rx_state s' = RX_IDLE \<and> g_node_id s' = g_node_id s"
proof -
  let ?n = "length body" and ?h = "frame_head sn tg (length body)"
  define s1 where "s1 = s\<lparr> rx_buf := ?h @ drop 6 (rx_buf s), rx_pos := 6, rx_need := ?n, rx_state := RX_DATA \<rparr>"
  define s2 where "s2 = s1\<lparr> rx_buf := overwrite (rx_buf s1) (rx_pos s1) body,
      rx_pos := MSG_HDR + rx_need s1, rx_state := RX_CHK \<rparr>"
  have len: "length (rx_buf s) = 519" using inv by (simp add: rx_inv_def msg_layout)
  have head: "msg_poll s ?h = Some (s1, [])"
    unfolding s1_def using feed_head [OF inv idle, of ?n sn tg] body by simp
  have data: "msg_poll s1 body = Some (s2, [])"
    unfolding s2_def by (rule feed_body) (use body len in \<open>auto simp: s1_def msg_layout\<close>)
  have buf: "rx_buf s2 = ?h @ body @ drop (6 + ?n) (rx_buf s)"
    by (simp add: s2_def s1_def overwrite_def add.commute)
  have "rx_state s2 = RX_CHK" "drop (6 + ?n) (rx_buf s) \<noteq> []" "?n = rx_need s2" "rx_need s2 \<le> MSG_MAX_PAYLOAD"
    using len body by (simp_all add: s2_def s1_def msg_layout)
  from feed_check [OF this(1) buf this(2-4), of c] obtain b where
    chk: "rx_byte s2 c = Some (s2\<lparr> rx_buf := b, rx_state := RX_IDLE \<rparr>,
      if c = frame_sum sn tg body \<and> tg = g_node_id s2 then Some (sn, takeWhile (\<lambda>b. b \<noteq> 0) body) else None)"
      "length b = length (rx_buf s2)" by (elim exE conjE)
  have "msg_poll s (raw_frame sn tg body c) = Some (s2\<lparr> rx_buf := b, rx_state := RX_IDLE \<rparr>,
      if c = frame_sum sn tg body \<and> tg = g_node_id s2 then [(sn, takeWhile (\<lambda>b. b \<noteq> 0) body)] else [])"
    using chk by (simp add: raw_frame_def msg_poll_then [OF head] msg_poll_then [OF data])
  moreover have "g_node_id s2 = g_node_id s" by (simp add: s2_def s1_def)
  moreover have "rx_inv (s2\<lparr> rx_buf := b, rx_state := RX_IDLE \<rparr>)"
    using chk(2) buf len body by (simp add: rx_inv_def msg_layout)
  ultimately show ?thesis by auto
qed

lemma feed_noise:
  "rx_state s = RX_IDLE \<Longrightarrow> MSG_MAGIC0 \<notin> set bs \<Longrightarrow> msg_poll s bs = Some (s, [])"
  by (induction bs) (auto simp: rx_byte_def)

lemma good_frame_length [simp]: "length (good_frame sn tg body) = length body + 7"
  by (simp add: good_frame_def raw_frame_def)

lemma good_frame_bytes [simp]:
  "good_frame sn tg body \<noteq> []" "good_frame sn tg body ! 2 = sn" "good_frame sn tg body ! 3 = tg"
  by (simp_all add: good_frame_def raw_frame_def frame_head_def)

lemma msg_boot_inv: "rx_inv msg_boot" "rx_state msg_boot = RX_IDLE"
  by (simp_all add: rx_inv_def msg_boot_def msg_layout)

section \<open>Senders and the line\<close>

text \<open>What \<open>msg_send\<close> of the node \<open>sn\<close> puts on the line, when it sends at all.\<close>

definition sent :: "u8 \<times> u8 \<times> bytes \<Rightarrow> bytes option" where
  "sent m = (case m of (sn, tg, body) \<Rightarrow>
     (case msg_send (msg_boot\<lparr> g_node_id := sn \<rparr>) tg body (int (length body)) of
        Some (Frame f) \<Rightarrow> Some f | _ \<Rightarrow> None))"

fun on_line :: "(bytes \<times> u8 \<times> u8 \<times> bytes) list \<Rightarrow> bytes option" where
  "on_line [] = Some []"
| "on_line ((noise, m) # ms) = do {
     f \<leftarrow> sent m;
     r \<leftarrow> on_line ms;
     Some (noise @ f @ r) }"

fun printed :: "u8 \<Rightarrow> (bytes \<times> u8 \<times> u8 \<times> bytes) list \<Rightarrow> (u8 \<times> bytes) list" where
  "printed me [] = []"
| "printed me ((noise, sn, tg, body) # ms) =
     (if tg = me then [(sn, takeWhile (\<lambda>b. b \<noteq> 0) body)] else []) @ printed me ms"

lemma sent_Some_iff:
  "sent (sn, tg, body) = Some f \<longleftrightarrow> sn \<noteq> 0xFF \<and> unat tg < MSG_MAX_NODES \<and> body \<noteq> [] \<and>
     length body \<le> MSG_MAX_PAYLOAD \<and> f = good_frame sn tg body"
  by (auto simp: sent_def msg_send_def frame_of_eq split: if_splits)

lemma feed_sent:
  assumes "rx_inv s" "rx_state s = RX_IDLE" "sent (sn, tg, body) = Some f"
  shows "\<exists>s'. msg_poll s f = Some (s', if tg = g_node_id s then [(sn, takeWhile (\<lambda>b. b \<noteq> 0) body)] else []) \<and>
    rx_inv s' \<and> rx_state s' = RX_IDLE \<and> g_node_id s' = g_node_id s"
  using assms feed_frame [of s body sn tg "frame_sum sn tg body"] by (auto simp: sent_Some_iff good_frame_def)

text \<open>The states a node can be in: after boot, after \<open>msg_poll\<close> took bytes off the port, and after
  the command that sets the id.\<close>

inductive msg_reach :: "msg_state \<Rightarrow> bool" where
  boot: "msg_reach msg_boot"
| poll: "msg_reach s \<Longrightarrow> msg_poll s bs = Some (s', ms) \<Longrightarrow> msg_reach s'"
| set_id: "msg_reach s \<Longrightarrow> msg_set_id s i = Some (r, s') \<Longrightarrow> msg_reach s'"

lemma rx_inv_set_id: "rx_inv (s\<lparr> g_node_id := i \<rparr>) = rx_inv s"
  by (cases "rx_state s") (simp_all add: rx_inv_def)

lemma msg_set_id_cases:
  "msg_set_id s i = Some (if unat i < MSG_MAX_NODES then (Frame (good_frame i i [0]), s\<lparr> g_node_id := i \<rparr>)
     else (Invalid_Target, s))"
  by (auto simp: msg_set_id_def msg_send_def frame_of_eq msg_layout Let_def)

section \<open>Properties of the link\<close>

text \<open>C19: The receiver is safe for every input: in every state a node can reach, whatever bytes the
  port delivers, \<open>msg_poll\<close> never reads or writes outside its buffer (the result is not
  \<^term>\<open>None\<close>), keeps the invariant of its state machine (index below the announced end of the
  frame, announced length within the payload limit), and does not touch the node id, which is
  unset or below the number of nodes.\<close>

theorem msg_poll_safe:
  assumes "msg_reach s"
  shows "\<exists>s' ms. msg_poll s bs = Some (s', ms) \<and> rx_inv s' \<and> g_node_id s' = g_node_id s \<and>
    (g_node_id s = 0xFF \<or> unat (g_node_id s) < MSG_MAX_NODES)"
proof -
  from assms have "rx_inv s \<and> (g_node_id s = 0xFF \<or> unat (g_node_id s) < MSG_MAX_NODES)"
  proof induction
    case boot
    then show ?case by (simp add: msg_boot_inv) (simp add: msg_boot_def)
  next
    case (poll s bs s' ms)
    then show ?case using msg_poll_inv [of s bs] by auto
  next
    case (set_id s i r s')
    then show ?case by (auto simp: msg_set_id_cases rx_inv_set_id split: if_splits)
  qed
  then show ?thesis using msg_poll_inv [of s bs] by blast
qed

theorem msg_poll_safe_witness:
  "\<exists>s' ms. msg_poll msg_boot [0x1D, 0x05, 1, 2, 0xFF, 0xFF] = Some (s', ms) \<and> rx_inv s' \<and>
    g_node_id s' = g_node_id msg_boot \<and>
    (g_node_id msg_boot = 0xFF \<or> unat (g_node_id msg_boot) < MSG_MAX_NODES)"
  using msg_poll_safe [OF msg_reach.boot] by blast

lemma feed_line:
  assumes "rx_inv s" "rx_state s = RX_IDLE" "on_line ms = Some line"
    and "\<And>noise m. (noise, m) \<in> set ms \<Longrightarrow> MSG_MAGIC0 \<notin> set noise"
  shows "\<exists>s'. msg_poll s line = Some (s', printed (g_node_id s) ms) \<and> rx_inv s' \<and> rx_state s' = RX_IDLE"
  using assms
proof (induction ms arbitrary: s line)
  case (Cons x ms)
  obtain noise sn tg body where x: "x = (noise, sn, tg, body)" by (cases x)
  obtain f r where f: "sent (sn, tg, body) = Some f" "on_line ms = Some r" "line = noise @ f @ r"
    using Cons.prems(3) x by (auto simp: Option.bind_eq_Some_conv)
  have quiet: "msg_poll s noise = Some (s, [])"
    using Cons.prems x by (intro feed_noise) auto
  obtain s1 where s1: "msg_poll s f = Some (s1, if tg = g_node_id s then [(sn, takeWhile (\<lambda>b. b \<noteq> 0) body)] else [])"
      "rx_inv s1" "rx_state s1 = RX_IDLE" "g_node_id s1 = g_node_id s"
    using feed_sent [OF Cons.prems(1,2) f(1)] by blast
  obtain s2 where "msg_poll s1 r = Some (s2, printed (g_node_id s1) ms)" "rx_inv s2" "rx_state s2 = RX_IDLE"
    using Cons.IH [OF s1(2,3) f(2)] Cons.prems(4) by (meson list.set_intros(2))
  then show ?case
    using x f(3) s1(4) by (auto simp: msg_poll_then [OF quiet] msg_poll_then [OF s1(1)])
qed simp

text \<open>Everything \<open>msg_send\<close> accepts arrives: frames put on the line by nodes with an id, with any
  noise free of the first magic byte before each of them, make an idle receiver print exactly the
  messages addressed to it, in order, each with its sender and its text up to the first NUL, and
  leave it idle.\<close>

theorem link_delivers:
  assumes "rx_inv s" "rx_state s = RX_IDLE" "on_line ms = Some line"
    and "\<And>noise m. (noise, m) \<in> set ms \<Longrightarrow> MSG_MAGIC0 \<notin> set noise"
  shows "\<exists>s'. msg_poll s line = Some (s', printed (g_node_id s) ms) \<and> rx_inv s' \<and> rx_state s' = RX_IDLE"
  using assms by (rule feed_line)

theorem link_delivers_witness:
  "\<exists>s'. msg_poll (msg_boot\<lparr> g_node_id := 2 \<rparr>) ([7] @ good_frame 1 2 [72, 105, 0] @ [] @ good_frame 1 3 [72] @ []) =
     Some (s', [(1, [72, 105])]) \<and> rx_inv s' \<and> rx_state s' = RX_IDLE"
proof -
  let ?ms = "[([7], 1, 2, [72, 105, 0]), ([], 1, 3, [72])] :: (bytes \<times> u8 \<times> u8 \<times> bytes) list"
  have f: "sent (1, 2, [72, 105, 0]) = Some (good_frame 1 2 [72, 105, 0])"
    "sent (1, 3, [72]) = Some (good_frame 1 3 [72])"
    by (simp_all add: sent_Some_iff msg_layout)
  then have "on_line ?ms = Some ([7] @ good_frame 1 2 [72, 105, 0] @ [] @ good_frame 1 3 [72] @ [])" by simp
  then have "\<exists>s'. msg_poll (msg_boot\<lparr> g_node_id := 2 \<rparr>) ([7] @ good_frame 1 2 [72, 105, 0] @ [] @ good_frame 1 3 [72] @ []) =
     Some (s', printed (g_node_id (msg_boot\<lparr> g_node_id := 2 \<rparr>)) ?ms) \<and> rx_inv s' \<and> rx_state s' = RX_IDLE"
    by (rule link_delivers [rotated 2]) (auto simp: rx_inv_set_id msg_boot_inv MSG_MAGIC0_def)
  then show ?thesis by simp
qed

text \<open>C30: A changed byte of the sender, the target, the text or the check byte is detected: the
  receiver prints nothing for such a frame and is ready for the next one.\<close>

theorem corruption_detected:
  assumes "rx_inv s" "rx_state s = RX_IDLE" "sent (sn, tg, body) = Some f"
    and "i < length f" "i \<notin> {0, 1, 4, 5}" "b \<noteq> f ! i"
  shows "\<exists>s'. msg_poll s (f[i := b]) = Some (s', []) \<and> rx_inv s' \<and> rx_state s' = RX_IDLE"
proof -
  let ?h = "frame_head sn tg (length body)" and ?c = "frame_sum sn tg body"
  have body: "body \<noteq> []" "length body \<le> MSG_MAX_PAYLOAD" and f: "f = ?h @ body @ [?c]"
    using assms(3) by (auto simp: sent_Some_iff good_frame_def raw_frame_def)
  consider "i = 2" | "i = 3" | "6 \<le> i" "i < 6 + length body" | "i = 6 + length body"
    using assms(4,5) f by force
  then obtain sn' tg' body' c' where
    f': "f[i := b] = raw_frame sn' tg' body' c'" "length body' = length body" "c' \<noteq> frame_sum sn' tg' body'"
  proof cases
    case 1
    then show ?thesis
      using that [of b tg body ?c] assms(6) xor_sum_detects [of 2 "?h @ body" b]
      by (auto simp: f raw_frame_def frame_sum_def frame_head_def)
  next
    case 2
    then show ?thesis
      using that [of sn b body ?c] assms(6) xor_sum_detects [of 3 "?h @ body" b]
      by (auto simp: f raw_frame_def frame_sum_def frame_head_def)
  next
    case 3
    then have k: "i - 6 < length body" "\<not> i < 6" "i < length (?h @ body)" by auto
    have "xor_sum (?h @ body[i - 6 := b]) \<noteq> xor_sum (?h @ body)"
      using xor_sum_detects [OF k(3), of b] assms(6) k by (auto simp: f list_update_append nth_append)
    then show ?thesis
      using that [of sn tg "body[i - 6 := b]" ?c] k
      by (simp add: f raw_frame_def frame_sum_def list_update_append)
  next
    case 4
    then show ?thesis
      using that [of sn tg body b] assms(6)
      by (auto simp: f raw_frame_def list_update_append nth_append)
  qed
  have "body' \<noteq> []" using body(1) f'(2) by auto
  with body f' show ?thesis
    using feed_frame [OF assms(1,2), of body' sn' tg' c'] by auto
qed

theorem corruption_detected_witness:
  "\<exists>s'. msg_poll (msg_boot\<lparr> g_node_id := 2 \<rparr>) ((good_frame 1 2 [72, 105])[6 := 73]) = Some (s', []) \<and>
     rx_inv s' \<and> rx_state s' = RX_IDLE"
  by (rule corruption_detected [of _ 1 2 "[72, 105]"])
    (simp_all add: rx_inv_set_id msg_boot_inv sent_Some_iff msg_layout good_frame_def raw_frame_def
      frame_head_def codec_simps nth_append)

text \<open>C31: A stray first magic byte directly before a frame costs the whole frame: the receiver takes
  the real first byte for a wrong second one and goes back to idle, so the frame that it prints
  without the stray byte is lost with it.\<close>

theorem stray_magic_loses_frame:
  assumes "rx_inv s" "rx_state s = RX_IDLE" "sent (sn, g_node_id s, body) = Some f"
    and "MSG_MAGIC0 \<notin> set (tl f)"
  shows "(\<exists>s'. msg_poll s f = Some (s', [(sn, takeWhile (\<lambda>b. b \<noteq> 0) body)])) \<and>
    (\<exists>s'. msg_poll s (MSG_MAGIC0 # f) = Some (s', []) \<and> rx_state s' = RX_IDLE)"
proof
  show "\<exists>s'. msg_poll s f = Some (s', [(sn, takeWhile (\<lambda>b. b \<noteq> 0) body)])"
    using feed_sent [OF assms(1-3)] by auto
  have f: "f = MSG_MAGIC0 # tl f"
    using assms(3) by (auto simp: sent_Some_iff good_frame_def raw_frame_def frame_head_def)
  have "0 < length (rx_buf s)" using assms(1) by (simp add: rx_inv_def)
  then have two: "msg_poll s [MSG_MAGIC0, MSG_MAGIC0] =
      Some (s\<lparr> rx_buf := (rx_buf s)[0 := MSG_MAGIC0], rx_pos := 1, rx_state := RX_IDLE \<rparr>, [])"
    using assms(2) by (simp add: rx_byte_def MSG_MAGIC0_def MSG_MAGIC1_def)
  have "msg_poll s (MSG_MAGIC0 # f) = msg_poll s ([MSG_MAGIC0, MSG_MAGIC0] @ tl f)"
    using f by (metis append_Cons append_Nil)
  also have "\<dots> = Some (s\<lparr> rx_buf := (rx_buf s)[0 := MSG_MAGIC0], rx_pos := 1, rx_state := RX_IDLE \<rparr>, [])"
    using feed_noise [OF _ assms(4)] by (simp only: msg_poll_then [OF two]) simp
  finally show "\<exists>s'. msg_poll s (MSG_MAGIC0 # f) = Some (s', []) \<and> rx_state s' = RX_IDLE" by simp
qed

theorem stray_magic_loses_frame_witness:
  "(\<exists>s'. msg_poll (msg_boot\<lparr> g_node_id := 2 \<rparr>) (good_frame 1 2 [72]) = Some (s', [(1, [72])])) \<and>
   (\<exists>s'. msg_poll (msg_boot\<lparr> g_node_id := 2 \<rparr>) (MSG_MAGIC0 # good_frame 1 2 [72]) = Some (s', []) \<and>
      rx_state s' = RX_IDLE)"
  using stray_magic_loses_frame [of "msg_boot\<lparr> g_node_id := 2 \<rparr>" 1 "[72]" "good_frame 1 2 [72]"]
  by (simp add: rx_inv_set_id msg_boot_inv sent_Some_iff msg_layout good_frame_def raw_frame_def
      frame_head_def frame_sum_def le16_def MSG_MAGIC0_def MSG_MAGIC1_def)

end
