(* ===== verification/Hub.thy ===== *)
theory Hub
  imports Msg
begin

text \<open>
  The message hub (\<open>scripts/ioslink-hub.c\<close>), the process on the host that the serial ports of the
  machines are connected to. It keeps a table of connections, learns which node sits behind which
  connection from the sender field of the frames, and forwards every well-formed frame to the owner
  of its target, or to everybody else.

  The used part of the array \<open>buf\<close> of a connection is the list \<open>buf\<close>, whose length is \<open>buf_len\<close>.
  The answers of the operating system are inputs of the model: a list of answers to the calls of
  \<open>send\<close> (after which every call accepts all it is given), and the connections and bytes that
  \<open>accept\<close> and \<open>recv\<close> return in a turn of the main loop. What \<open>send\<close> accepted is recorded in
  \<open>wire\<close>, what was closed in \<open>closed\<close>. Logging is left out.
\<close>

section \<open>State\<close>

definition MAGIC0 :: u8 where "MAGIC0 = 0x1D"
definition MAGIC1 :: u8 where "MAGIC1 = 0x05"
definition HDR_LEN :: nat where "HDR_LEN = 6"
definition MAX_PAYLOAD :: nat where "MAX_PAYLOAD = 512"
definition MAX_FRAME :: nat where "MAX_FRAME = HDR_LEN + MAX_PAYLOAD + 1"
definition BROADCAST :: u8 where "BROADCAST = 0xFF"
definition BUF_CAP :: nat where "BUF_CAP = 8192"
definition MAX_PEERS :: nat where "MAX_PEERS = 64"

lemma hub_layout:
  "HDR_LEN = 6" "MAX_PAYLOAD = 512" "MAX_FRAME = 519" "BUF_CAP = 8192" "MAX_PEERS = 64"
  by (simp_all add: HDR_LEN_def MAX_PAYLOAD_def MAX_FRAME_def BUF_CAP_def MAX_PEERS_def)

record Peer =
  fd :: int
  have_node :: bool
  node_id :: u8
  buf :: bytes

datatype send_answer = Accepts nat | Interrupted | Send_Failed

record hub =
  peers :: "Peer list"
  answers :: "send_answer list"
  wire :: "(int \<times> bytes) list"
  closed :: "int list"

definition live :: "Peer \<Rightarrow> bool" where
  "live p \<longleftrightarrow> fd p \<ge> 0"

definition set_peer :: "nat \<Rightarrow> (Peer \<Rightarrow> Peer) \<Rightarrow> hub \<Rightarrow> hub" where
  "set_peer i f h = h\<lparr> peers := (peers h)[i := f (peers h ! i)] \<rparr>"

section \<open>The table of connections\<close>

definition peer_slot_alloc :: "int \<Rightarrow> hub \<Rightarrow> nat option \<times> hub" where
  "peer_slot_alloc c h =
    (case first_from (\<lambda>i. fd (peers h ! i) < 0) 0 MAX_PEERS of
       Some i \<Rightarrow> (Some i, set_peer i (\<lambda>p. p\<lparr> fd := c, have_node := False, node_id := 0, buf := [] \<rparr>) h)
     | None \<Rightarrow> (None, h))"

definition peer_find_by_node :: "hub \<Rightarrow> u8 \<Rightarrow> nat option" where
  "peer_find_by_node h n =
    first_from (\<lambda>i. fd (peers h ! i) \<ge> 0 \<and> have_node (peers h ! i) \<and> node_id (peers h ! i) = n) 0 MAX_PEERS"

definition peer_drop :: "nat \<Rightarrow> hub \<Rightarrow> hub" where
  "peer_drop i h =
    (if fd (peers h ! i) < 0 then h
     else set_peer i (\<lambda>p. p\<lparr> fd := -1, have_node := False, buf := [] \<rparr>)
       (h\<lparr> closed := closed h @ [fd (peers h ! i)] \<rparr>))"

section \<open>Sending\<close>

fun send_loop :: "send_answer list \<Rightarrow> int \<Rightarrow> bytes \<Rightarrow> (int \<times> bytes) list \<Rightarrow>
    bool \<times> send_answer list \<times> (int \<times> bytes) list" where
  "send_loop [] f bs w = (True, [], if bs = [] then w else w @ [(f, bs)])"
| "send_loop (a # as) f bs w =
    (if bs = [] then (True, a # as, w)
     else case a of
       Accepts n \<Rightarrow> send_loop as f (drop n bs) (w @ [(f, take n bs)])
     | Interrupted \<Rightarrow> send_loop as f bs w
     | Send_Failed \<Rightarrow> (False, as, w))"

definition send_all :: "int \<Rightarrow> bytes \<Rightarrow> hub \<Rightarrow> bool \<times> hub" where
  "send_all f bs h = (case send_loop (answers h) f bs (wire h) of
     (ok, as, w) \<Rightarrow> (ok, h\<lparr> answers := as, wire := w \<rparr>))"

section \<open>Frames\<close>

fun skip_to_magic :: "bytes \<Rightarrow> bytes" where
  "skip_to_magic (a # b # r) = (if a = MAGIC0 \<and> b = MAGIC1 then a # b # r else skip_to_magic (b # r))"
| "skip_to_magic r = r"

definition learn :: "nat \<Rightarrow> u8 \<Rightarrow> hub \<Rightarrow> hub" where
  "learn i sender h =
    (if \<not> have_node (peers h ! i) \<or> node_id (peers h ! i) \<noteq> sender then
       let h = (case peer_find_by_node h sender of
           Some prev \<Rightarrow> if prev \<noteq> i then set_peer prev (\<lambda>p. p\<lparr> have_node := False \<rparr>) h else h
         | None \<Rightarrow> h)
       in set_peer i (\<lambda>p. p\<lparr> have_node := True, node_id := sender \<rparr>) h
     else h)"

definition send_or_drop :: "nat \<Rightarrow> bytes \<Rightarrow> hub \<Rightarrow> hub" where
  "send_or_drop j frame h =
    (case send_all (fd (peers h ! j)) frame h of
       (True, h) \<Rightarrow> h
     | (False, h) \<Rightarrow> peer_drop j h)"

fun broadcast_from :: "nat list \<Rightarrow> nat \<Rightarrow> bytes \<Rightarrow> hub \<Rightarrow> hub" where
  "broadcast_from [] i frame h = h"
| "broadcast_from (j # js) i frame h =
    (if fd (peers h ! j) < 0 \<or> j = i then broadcast_from js i frame h
     else broadcast_from js i frame (send_or_drop j frame h))"

definition dispatch :: "nat \<Rightarrow> u8 \<Rightarrow> u8 \<Rightarrow> bytes \<Rightarrow> hub \<Rightarrow> hub" where
  "dispatch i sender target frame h =
    (if target = sender then h
     else if target = BROADCAST then broadcast_from [0..<MAX_PEERS] i frame h
     else (case peer_find_by_node h target of
         None \<Rightarrow> h
       | Some dst \<Rightarrow> send_or_drop dst frame h))"

text \<open>One turn of the loop of \<open>process_peer_buffer\<close>: whether it goes on, and the new state.\<close>

definition process_turn :: "nat \<Rightarrow> hub \<Rightarrow> (bool \<times> hub) option" where
  "process_turn i h = (
    let b = skip_to_magic (buf (peers h ! i));
        h = set_peer i (\<lambda>p. p\<lparr> buf := b \<rparr>) h
    in if length b < HDR_LEN then Some (False, h)
    else let sender = b ! 2; target = b ! 3; len = unat (rd16 b 4)
    in if len = 0 \<or> len > MAX_PAYLOAD then Some (True, set_peer i (\<lambda>p. p\<lparr> buf := drop 1 b \<rparr>) h)
    else let total = HDR_LEN + len + 1
    in if length b < total then Some (False, h)
    else do {
      chk \<leftarrow> xor_from 0 b (HDR_LEN + len);
      c \<leftarrow> idx b (HDR_LEN + len);
      if chk \<noteq> c then Some (True, set_peer i (\<lambda>p. p\<lparr> buf := drop 1 b \<rparr>) h)
      else if total > MAX_FRAME then None
      else let h = dispatch i sender target (take total b) (learn i sender h);
               b = buf (peers h ! i)
           in if length b < total then None
              else Some (True, set_peer i (\<lambda>p. p\<lparr> buf := drop total b \<rparr>) h) })"

section \<open>Which parts of the state the operations touch\<close>

lemma set_peer_simps [simp]:
  "length (peers (set_peer i f h)) = length (peers h)"
  "i < length (peers h) \<Longrightarrow> peers (set_peer i f h) ! j = (if j = i then f (peers h ! i) else peers h ! j)"
  "answers (set_peer i f h) = answers h" "wire (set_peer i f h) = wire h"
  "closed (set_peer i f h) = closed h"
  by (simp_all add: set_peer_def)

lemma set_peer_twice [simp]:
  "i < length (peers h) \<Longrightarrow> set_peer i f (set_peer i g h) = set_peer i (\<lambda>p. f (g p)) h"
  by (simp add: set_peer_def)

lemma set_peer_swap: "i \<noteq> j \<Longrightarrow> set_peer i f (set_peer j g h) = set_peer j g (set_peer i f h)"
  by (simp add: set_peer_def list_update_swap)

lemma set_peer_id: "f (peers h ! i) = peers h ! i \<Longrightarrow> set_peer i f h = h"
  by (simp add: set_peer_def)

lemma find_range: "peer_find_by_node h n = Some j \<Longrightarrow>
    j < MAX_PEERS \<and> fd (peers h ! j) \<ge> 0 \<and> have_node (peers h ! j) \<and> node_id (peers h ! j) = n"
  by (simp add: peer_find_by_node_def first_from_Some_iff)

lemma find_None: "peer_find_by_node h n = None \<Longrightarrow> j < MAX_PEERS \<Longrightarrow>
    fd (peers h ! j) \<ge> 0 \<Longrightarrow> have_node (peers h ! j) \<Longrightarrow> node_id (peers h ! j) \<noteq> n"
  by (auto simp: peer_find_by_node_def first_from_None_iff)

lemma send_all_peers: "send_all f bs h = (ok, h') \<Longrightarrow> peers h' = peers h \<and> closed h' = closed h"
  by (auto simp: send_all_def split: prod.splits)

lemma send_or_drop_peers:
  assumes "j < length (peers h)"
  shows "peers (send_or_drop j frame h) = peers h \<or>
    peers (send_or_drop j frame h) = (peers h)[j := (peers h ! j)\<lparr> fd := -1, have_node := False, buf := [] \<rparr>]"
proof -
  obtain ok h1 where s: "send_all (fd (peers h ! j)) frame h = (ok, h1)" by (cases "send_all (fd (peers h ! j)) frame h")
  then show ?thesis
    using send_all_peers [OF s] by (cases ok) (auto simp: send_or_drop_def peer_drop_def set_peer_def)
qed

text \<open>What forwarding may do to the table: it keeps its size, and a connection is left alone or dropped.\<close>

definition only_drops :: "hub \<Rightarrow> hub \<Rightarrow> bool" where
  "only_drops h h' \<longleftrightarrow> length (peers h') = length (peers h) \<and>
     (\<forall>k < length (peers h). peers h' ! k = peers h ! k \<or>
        peers h' ! k = (peers h ! k)\<lparr> fd := -1, have_node := False, buf := [] \<rparr>)"

lemma only_drops_refl [simp]: "only_drops h h"
  by (simp add: only_drops_def)

lemma only_drops_trans: "only_drops h h1 \<Longrightarrow> only_drops h1 h2 \<Longrightarrow> only_drops h h2"
  by (fastforce simp: only_drops_def)

lemma send_or_drop_only_drops: "j < length (peers h) \<Longrightarrow> only_drops h (send_or_drop j frame h)"
  using send_or_drop_peers [of j h frame] by (auto simp: only_drops_def nth_list_update)

lemma broadcast_only_drops:
  "\<forall>j \<in> set js. j < length (peers h) \<Longrightarrow>
    only_drops h (broadcast_from js i frame h) \<and> (i < length (peers h) \<longrightarrow> peers (broadcast_from js i frame h) ! i = peers h ! i)"
proof (induction js arbitrary: h)
  case (Cons j js)
  show ?case
  proof (cases "fd (peers h ! j) < 0 \<or> j = i")
    case False
    let ?h = "send_or_drop j frame h"
    have d: "only_drops h ?h" using Cons.prems by (intro send_or_drop_only_drops) simp
    then have "\<forall>j \<in> set js. j < length (peers ?h)" using Cons.prems by (simp add: only_drops_def)
    note ih = Cons.IH [OF this]
    have "i < length (peers h) \<longrightarrow> peers ?h ! i = peers h ! i"
      using send_or_drop_peers [of j h frame] Cons.prems False by auto
    moreover have "length (peers ?h) = length (peers h)" using d by (simp add: only_drops_def)
    ultimately show ?thesis using ih only_drops_trans [OF d] False by auto
  qed (use Cons in auto)
qed simp

lemma dispatch_only_drops:
  assumes "length (peers h) = MAX_PEERS"
  shows "only_drops h (dispatch i sender target frame h)"
proof -
  have "j < length (peers h)" if "j \<in> set [0..<MAX_PEERS] \<or> peer_find_by_node h target = Some j" for j
    using that assms by (auto dest: find_range)
  then show ?thesis
    by (auto simp: dispatch_def broadcast_only_drops send_or_drop_only_drops split: option.split)
qed

lemma dispatch_self:
  assumes "length (peers h) = MAX_PEERS" "i < MAX_PEERS" "node_id (peers h ! i) = sender"
  shows "peers (dispatch i sender target frame h) ! i = peers h ! i"
proof (cases "peer_find_by_node h target")
  case None
  then show ?thesis using assms broadcast_only_drops [of "[0..<MAX_PEERS]" h i frame] by (auto simp: dispatch_def)
next
  case (Some j)
  then have j: "j < MAX_PEERS" "node_id (peers h ! j) = target" by (auto dest: find_range)
  show ?thesis
  proof (cases "target = sender \<or> target = BROADCAST")
    case True
    then show ?thesis using assms broadcast_only_drops [of "[0..<MAX_PEERS]" h i frame] by (auto simp: dispatch_def)
  next
    case False
    then have "j \<noteq> i" using j assms by auto
    with False Some j assms show ?thesis
      using send_or_drop_peers [of j h frame] by (auto simp: dispatch_def)
  qed
qed

lemma learn_table:
  assumes "length (peers h) = MAX_PEERS" "i < MAX_PEERS"
  shows "length (peers (learn i sender h)) = MAX_PEERS \<and> have_node (peers (learn i sender h) ! i) \<and>
    node_id (peers (learn i sender h) ! i) = sender \<and>
    (\<forall>k < MAX_PEERS. fd (peers (learn i sender h) ! k) = fd (peers h ! k) \<and>
       buf (peers (learn i sender h) ! k) = buf (peers h ! k))"
proof (cases "peer_find_by_node h sender")
  case None
  then show ?thesis using assms by (auto simp: learn_def)
next
  case (Some j)
  then have "j < MAX_PEERS" by (auto dest: find_range)
  with Some assms show ?thesis by (auto simp: learn_def Let_def)
qed

lemma skip_to_magic_shape:
  "length (skip_to_magic bs) \<le> length bs \<and> (\<exists>n. skip_to_magic bs = drop n bs)"
proof (induction bs rule: skip_to_magic.induct)
  case (1 a b r)
  show ?case
  proof (cases "a = MAGIC0 \<and> b = MAGIC1")
    case True
    then show ?thesis by (auto intro: exI [of _ 0])
  next
    case False
    with 1 obtain n where "skip_to_magic (b # r) = drop n (b # r)" by auto
    with False 1 show ?thesis by (auto intro: exI [of _ "Suc n"])
  qed
qed (auto intro: exI [of _ 0])

section \<open>The loop over the buffer\<close>

text \<open>
  Every turn that goes on takes at least one byte off the buffer, so the loop ends.
\<close>

lemma process_turn_progress:
  assumes "length (peers h) = MAX_PEERS" "i < MAX_PEERS" "process_turn i h = Some (True, h')"
  shows "length (peers h') = MAX_PEERS \<and> length (buf (peers h' ! i)) < length (buf (peers h ! i))"
proof -
  define b where "b = skip_to_magic (buf (peers h ! i))"
  define h1 where "h1 = set_peer i (\<lambda>p. p\<lparr> buf := b \<rparr>) h"
  let ?snd = "b ! 2" and ?len = "unat (rd16 b 4)"
  let ?f = "take (HDR_LEN + ?len + 1) b"
  let ?h2 = "dispatch i ?snd (b ! 3) ?f (learn i ?snd h1)"
  have len: "length b \<le> length (buf (peers h ! i))"
    using skip_to_magic_shape by (simp add: b_def)
  have h1: "length (peers h1) = MAX_PEERS" "buf (peers h1 ! i) = b"
    using assms by (simp_all add: h1_def)
  note l = learn_table [OF h1(1) assms(2), of ?snd]
  have h2: "peers ?h2 ! i = peers (learn i ?snd h1) ! i" "length (peers ?h2) = MAX_PEERS"
    using dispatch_self [of "learn i ?snd h1" i ?snd] dispatch_only_drops [of "learn i ?snd h1" i ?snd "b ! 3" ?f] l assms
    by (auto simp: only_drops_def)
  have b2: "buf (peers ?h2 ! i) = b" using h2 l h1 assms(2) by simp
  have "6 \<le> length b"
    using assms(3) by (auto simp: process_turn_def b_def [symmetric] hub_layout Let_def split: if_splits)
  with assms(3) h1 h2(2) b2 len show ?thesis
    by (auto simp: process_turn_def b_def [symmetric] h1_def [symmetric] Let_def assms(1,2)
        Option.bind_eq_Some_conv split: if_splits)
qed

function process_peer_buffer :: "nat \<Rightarrow> hub \<Rightarrow> hub option" where
  "process_peer_buffer i h =
    (if \<not> (i < MAX_PEERS \<and> length (peers h) = MAX_PEERS) then None
     else case process_turn i h of
       None \<Rightarrow> None
     | Some (again, h') \<Rightarrow> if again then process_peer_buffer i h' else Some h')"
  by pat_completeness auto
termination
proof (relation "measure (\<lambda>(i, h). length (buf (peers h ! i)))")
qed (auto dest: process_turn_progress)

declare process_peer_buffer.simps [simp del]

section \<open>The main loop\<close>

datatype recv_answer = Data bytes | Try_Again | Recv_Failed

definition hub_start :: "send_answer list \<Rightarrow> hub" where
  "hub_start as = \<lparr> peers = replicate MAX_PEERS \<lparr> fd = -1, have_node = False, node_id = 0, buf = [] \<rparr>,
     answers = as, wire = [], closed = [] \<rparr>"

definition hub_accept :: "int \<Rightarrow> hub \<Rightarrow> hub" where
  "hub_accept c h =
    (if c \<ge> 0 then
       (case peer_slot_alloc c h of
          (None, h) \<Rightarrow> h\<lparr> closed := closed h @ [c] \<rparr>
        | (Some slot, h) \<Rightarrow> h)
     else h)"

definition hub_readable :: "nat \<Rightarrow> recv_answer \<Rightarrow> hub \<Rightarrow> hub option" where
  "hub_readable i r h = (
    let avail = BUF_CAP - length (buf (peers h ! i))
    in if length (buf (peers h ! i)) > BUF_CAP then None
    else if avail = 0 then Some (peer_drop i h)
    else case r of
      Data d \<Rightarrow> if take avail d = [] then Some (peer_drop i h)
        else process_peer_buffer i (set_peer i (\<lambda>p. p\<lparr> buf := buf p @ take avail d \<rparr>) h)
    | Try_Again \<Rightarrow> Some h
    | Recv_Failed \<Rightarrow> Some (peer_drop i h))"

fun serve :: "nat list \<Rightarrow> (nat \<Rightarrow> recv_answer option) \<Rightarrow> hub \<Rightarrow> hub option" where
  "serve [] rs h = Some h"
| "serve (i # is) rs h =
    (if fd (peers h ! i) < 0 then serve is rs h
     else case rs i of
       None \<Rightarrow> serve is rs h
     | Some r \<Rightarrow> do { h \<leftarrow> hub_readable i r h; serve is rs h })"

text \<open>
  One turn of the loop of \<open>main\<close>: \<open>acc\<close> is the result of \<open>accept\<close> when the listening socket is
  readable, \<open>rs\<close> says which connections are readable and what \<open>recv\<close> answers on them.
\<close>

definition hub_turn :: "int option \<Rightarrow> (nat \<Rightarrow> recv_answer option) \<Rightarrow> hub \<Rightarrow> hub option" where
  "hub_turn acc rs h = (
    let polled = filter (\<lambda>i. fd (peers h ! i) \<ge> 0) [0..<MAX_PEERS];
        h = (case acc of None \<Rightarrow> h | Some c \<Rightarrow> hub_accept c h)
    in serve polled rs h)"

section \<open>Reference: the frames of a byte stream\<close>

lemma skip_shrink:
  assumes "\<not> length (skip_to_magic bs) < HDR_LEN"
  shows "length (skip_to_magic bs) - Suc n < length bs"
  using assms skip_to_magic_shape [of bs] by (auto simp: hub_layout)

text \<open>The frames in a byte stream and the bytes left over, as a function of the bytes alone.\<close>

function hub_parse :: "bytes \<Rightarrow> bytes list \<times> bytes" where
  "hub_parse bs = (
    let b = skip_to_magic bs; len = unat (rd16 b 4); total = HDR_LEN + len + 1
    in if length b < HDR_LEN then ([], b)
    else if len = 0 \<or> len > MAX_PAYLOAD then hub_parse (tl b)
    else if length b < total then ([], b)
    else if xor_sum (take (HDR_LEN + len) b) \<noteq> b ! (HDR_LEN + len) then hub_parse (tl b)
    else (case hub_parse (drop total b) of (fs, r) \<Rightarrow> (take total b # fs, r)))"
  by pat_completeness auto
termination
  by (relation "measure length") (auto simp: skip_shrink)

declare hub_parse.simps [simp del]

text \<open>What the hub does for one frame.\<close>

definition handle_frame :: "nat \<Rightarrow> hub \<Rightarrow> bytes \<Rightarrow> hub" where
  "handle_frame i h f = dispatch i (f ! 2) (f ! 3) f (learn i (f ! 2) h)"

abbreviation set_buf :: "nat \<Rightarrow> bytes \<Rightarrow> hub \<Rightarrow> hub" where
  "set_buf i b \<equiv> set_peer i (\<lambda>p. p\<lparr> buf := b \<rparr>)"

abbreviation table_ok :: "nat \<Rightarrow> hub \<Rightarrow> bool" where
  "table_ok i h \<equiv> i < MAX_PEERS \<and> length (peers h) = MAX_PEERS"

named_theorems unbuffered \<open>operations that do not look at the buffer of the connection served\<close>

lemma find_set_buf [unbuffered]:
  "table_ok i h \<Longrightarrow> peer_find_by_node (set_buf i b h) n = peer_find_by_node h n"
  unfolding peer_find_by_node_def by (rule arg_cong [where f = "\<lambda>P. first_from P 0 MAX_PEERS"]) auto

lemma buf_update_last:
  "(p :: Peer)\<lparr> buf := b, have_node := c, node_id := n \<rparr> = p\<lparr> have_node := c, node_id := n, buf := b \<rparr>"
  by (cases p) simp

lemma learn_set_buf [unbuffered]:
  assumes "table_ok i h"
  shows "learn i s (set_buf i b h) = set_buf i b (learn i s h)"
  using assms
  by (auto simp: learn_def Let_def find_set_buf set_peer_swap [of _ i] buf_update_last split: option.split dest!: find_range)

lemma send_all_set_buf [unbuffered]:
  "send_all f bs (set_buf i b h) = (case send_all f bs h of (ok, h') \<Rightarrow> (ok, set_buf i b h'))"
  by (simp add: send_all_def set_peer_def split: prod.split)

lemma peer_drop_set_buf [unbuffered]:
  "j \<noteq> i \<Longrightarrow> peer_drop j (set_buf i b h) = set_buf i b (peer_drop j h)"
  by (auto simp: peer_drop_def set_peer_def list_update_swap)

lemma send_or_drop_set_buf [unbuffered]:
  assumes "table_ok i h" "j \<noteq> i"
  shows "send_or_drop j f (set_buf i b h) = set_buf i b (send_or_drop j f h)"
proof -
  obtain ok h1 where s: "send_all (fd (peers h ! j)) f h = (ok, h1)" by (cases "send_all (fd (peers h ! j)) f h")
  then have "peers h1 = peers h" using send_all_peers by blast
  with s assms show ?thesis
    by (cases ok) (auto simp: send_or_drop_def unbuffered)
qed

lemma broadcast_set_buf [unbuffered]:
  assumes "table_ok i h" "\<forall>j \<in> set js. j < MAX_PEERS"
  shows "broadcast_from js i f (set_buf i b h) = set_buf i b (broadcast_from js i f h)"
  using assms
proof (induction js arbitrary: h)
  case (Cons j js)
  have "table_ok i (send_or_drop j f h)"
    using send_or_drop_only_drops [of j h f] Cons.prems by (auto simp: only_drops_def)
  then show ?case using Cons by (auto simp: send_or_drop_set_buf)
qed simp

lemma dispatch_set_buf [unbuffered]:
  assumes "table_ok i h" "node_id (peers h ! i) = s"
  shows "dispatch i s t f (set_buf i b h) = set_buf i b (dispatch i s t f h)"
proof (cases "peer_find_by_node h t")
  case None
  then show ?thesis using assms by (simp add: dispatch_def unbuffered)
next
  case (Some j)
  then have "node_id (peers h ! j) = t" by (auto dest: find_range)
  then have "t \<noteq> s \<Longrightarrow> j \<noteq> i" using assms by auto
  with Some show ?thesis using assms by (simp add: dispatch_def unbuffered)
qed

lemma handle_frame_set_buf [unbuffered]:
  "table_ok i h \<Longrightarrow> handle_frame i (set_buf i b h) f = set_buf i b (handle_frame i h f)"
  using learn_table [of h i "f ! 2"] by (simp add: handle_frame_def unbuffered)

lemma handle_frame_keeps:
  assumes "table_ok i h"
  shows "table_ok i (handle_frame i h f) \<and> buf (peers (handle_frame i h f) ! i) = buf (peers h ! i) \<and>
    fd (peers (handle_frame i h f) ! i) = fd (peers h ! i)"
proof -
  note l = learn_table [of h i "f ! 2"]
  then have "peers (handle_frame i h f) ! i = peers (learn i (f ! 2) h) ! i"
    using assms dispatch_self [of "learn i (f ! 2) h" i "f ! 2"] by (simp add: handle_frame_def)
  moreover have "length (peers (handle_frame i h f)) = MAX_PEERS"
    using l assms dispatch_only_drops [of "learn i (f ! 2) h" i "f ! 2" "f ! 3" f]
    by (simp add: handle_frame_def only_drops_def)
  ultimately show ?thesis using l assms by simp
qed

lemma fold_frames_keep:
  "table_ok i h \<Longrightarrow> table_ok i (foldl (handle_frame i) h fs)"
  by (induction fs arbitrary: h) (auto simp: handle_frame_keeps)

lemma fold_frames_set_buf [unbuffered]:
  "table_ok i h \<Longrightarrow> foldl (handle_frame i) (set_buf i b h) fs = set_buf i b (foldl (handle_frame i) h fs)"
  by (induction fs arbitrary: h) (auto simp: handle_frame_keeps handle_frame_set_buf)

lemma process_turn_cases:
  assumes "table_ok i h"
  defines "b \<equiv> skip_to_magic (buf (peers h ! i))"
  defines "len \<equiv> unat (rd16 b 4)"
  shows "process_turn i h = (
    if length b < HDR_LEN then Some (False, set_buf i b h)
    else if len = 0 \<or> len > MAX_PAYLOAD then Some (True, set_buf i (tl b) h)
    else if length b < HDR_LEN + len + 1 then Some (False, set_buf i b h)
    else if xor_sum (take (HDR_LEN + len) b) \<noteq> b ! (HDR_LEN + len) then Some (True, set_buf i (tl b) h)
    else Some (True, set_buf i (drop (HDR_LEN + len + 1) b) (handle_frame i h (take (HDR_LEN + len + 1) b))))"
proof -
  let ?f = "take (HDR_LEN + len + 1) b"
  have h: "dispatch i (b ! 2) (b ! 3) ?f (learn i (b ! 2) (set_buf i b h)) = set_buf i b (handle_frame i h ?f)"
    using assms(1) handle_frame_set_buf [of i h b ?f] by (simp add: handle_frame_def hub_layout)
  have k: "table_ok i (handle_frame i h ?f)" using handle_frame_keeps assms(1) by blast
  show ?thesis
    using assms(1) h k
    by (simp add: process_turn_def b_def [symmetric] len_def [symmetric] Let_def xor_from_sum hub_layout drop_Suc)
qed

lemma process_parses:
  assumes "table_ok i h" "hub_parse (buf (peers h ! i)) = (fs, r)"
  shows "process_peer_buffer i h = Some (set_buf i r (foldl (handle_frame i) h fs))"
  using assms
proof (induction "buf (peers h ! i)" arbitrary: h fs r rule: hub_parse.induct)
  case 1
  define b where "b = skip_to_magic (buf (peers h ! i))"
  define len where "len = unat (rd16 b 4)"
  let ?f = "take (HDR_LEN + len + 1) b" and ?d = "drop (HDR_LEN + len + 1) b"
  note IH = 1(1-3) [OF b_def len_def refl]
  note parse = 1(5) [unfolded hub_parse.simps [of "buf (peers h ! i)"], folded b_def, unfolded Let_def, folded len_def]
  note turn = process_turn_cases [OF 1(4), folded b_def, folded len_def]
  note go = process_peer_buffer.simps [of i h]
  have keep: "buf (peers (set_buf i x h) ! i) = x" "table_ok i (set_buf i x h)" for x using 1(4) by auto
  consider (stop) "length b < HDR_LEN \<or> len \<noteq> 0 \<and> len \<le> MAX_PAYLOAD \<and> length b < HDR_LEN + len + 1"
    | (skip) "\<not> length b < HDR_LEN" "len = 0 \<or> len > MAX_PAYLOAD"
    | (sum) "\<not> length b < HDR_LEN" "\<not> (len = 0 \<or> len > MAX_PAYLOAD)" "\<not> length b < HDR_LEN + len + 1"
        "xor_sum (take (HDR_LEN + len) b) \<noteq> b ! (HDR_LEN + len)"
    | (frame) "\<not> length b < HDR_LEN" "\<not> (len = 0 \<or> len > MAX_PAYLOAD)" "\<not> length b < HDR_LEN + len + 1"
        "\<not> xor_sum (take (HDR_LEN + len) b) \<noteq> b ! (HDR_LEN + len)" by linarith
  then show ?case
  proof cases
    case stop
    then have "process_turn i h = Some (False, set_buf i b h)" using turn by auto
    moreover have "fs = []" "r = b" using stop parse by (auto split: if_splits)
    ultimately show ?thesis using go 1(4) by simp
  next
    case skip
    with parse have "hub_parse (buf (peers (set_buf i (tl b) h) ! i)) = (fs, r)" by (simp add: keep)
    with IH(1) [OF skip, of "set_buf i (tl b) h"] keep(2) [of "tl b"] show ?thesis
      using turn skip go 1(4) by (simp add: unbuffered fold_frames_keep keep)
  next
    case sum
    with parse have "hub_parse (buf (peers (set_buf i (tl b) h) ! i)) = (fs, r)" by (simp add: keep)
    with IH(2) [OF sum, of "set_buf i (tl b) h"] keep(2) [of "tl b"] show ?thesis
      using turn sum go 1(4) by (simp add: unbuffered fold_frames_keep keep)
  next
    case frame
    let ?h = "handle_frame i h ?f"
    have h: "table_ok i ?h" using handle_frame_keeps 1(4) by blast
    obtain gs where gs: "hub_parse ?d = (gs, r)" "fs = ?f # gs"
      using parse frame by (auto split: prod.splits)
    with IH(3) [OF frame, of "set_buf i ?d ?h" gs r] h show ?thesis
      using turn frame go 1(4) by (simp add: unbuffered fold_frames_keep)
  qed
qed

section \<open>Facts about the frames of a stream\<close>

lemma skip_two: "2 \<le> length (skip_to_magic bs) \<Longrightarrow> \<exists>r. skip_to_magic bs = MAGIC0 # MAGIC1 # r"
  by (induction bs rule: skip_to_magic.induct) (auto split: if_splits)

lemma skip_append: "skip_to_magic (skip_to_magic xs @ ys) = skip_to_magic (xs @ ys)"
  by (induction xs rule: skip_to_magic.induct) (auto split: list.splits)

lemma skip_skip [simp]: "skip_to_magic (skip_to_magic xs) = skip_to_magic xs"
  using skip_append [of xs "[]"] by simp

lemma parse_skip: "hub_parse (skip_to_magic xs @ ys) = hub_parse (xs @ ys)"
  by (simp add: hub_parse.simps [of "skip_to_magic xs @ ys"] hub_parse.simps [of "xs @ ys"] skip_append)

lemma skip_long:
  assumes "2 \<le> length (skip_to_magic xs)"
  shows "skip_to_magic (xs @ ys) = skip_to_magic xs @ ys"
  using skip_two [OF assms] skip_append [of xs ys] by auto

lemma parse_rest:
  "hub_parse bs = (fs, r) \<Longrightarrow> hub_parse r = ([], r) \<and> length r < MAX_FRAME"
proof (induction bs arbitrary: fs r rule: hub_parse.induct)
  case (1 bs)
  define b where "b = skip_to_magic bs"
  define len where "len = unat (rd16 b 4)"
  note IH = 1(1-3) [OF b_def len_def refl]
  note parse = 1(4) [unfolded hub_parse.simps [of bs], folded b_def, unfolded Let_def, folded len_def]
  have again: "hub_parse b = hub_parse bs"
    using parse_skip [of bs "[]"] by (simp add: b_def)
  show ?case
    using parse IH 1(4) again
    by (auto simp: hub_layout split: if_splits prod.splits)
qed

text \<open>Reading a stream in two pieces finds the same frames as reading it at once.\<close>

lemma parse_append:
  "hub_parse (xs @ ys) = (case hub_parse xs of (fs, r) \<Rightarrow>
     case hub_parse (r @ ys) of (gs, r') \<Rightarrow> (fs @ gs, r'))"
proof (induction xs rule: hub_parse.induct)
  case (1 bs)
  define b where "b = skip_to_magic bs"
  define len where "len = unat (rd16 b 4)"
  note IH = 1 [OF b_def len_def refl]
  note now = hub_parse.simps [of bs, folded b_def, unfolded Let_def, folded len_def]
  have stop: ?case if "hub_parse bs = ([], b)"
    using that parse_skip [of bs ys] by (simp add: b_def)
  show ?case
  proof (cases "length b < HDR_LEN")
    case True
    then show ?thesis using stop now by simp
  next
    case False
    then have l: "6 \<le> length b" by (simp add: hub_layout)
    have long: "skip_to_magic (bs @ ys) = b @ ys"
      unfolding b_def using l by (intro skip_long) (simp add: b_def)
    have len': "unat (rd16 (b @ ys) 4) = len"
      using l by (simp add: len_def rd16_def nth_append)
    note both = hub_parse.simps [of "bs @ ys", unfolded long Let_def len']
    have nonempty: "b \<noteq> []" using l by auto
    consider (bad) "len = 0 \<or> len > MAX_PAYLOAD"
      | (short) "\<not> (len = 0 \<or> len > MAX_PAYLOAD)" "length b < HDR_LEN + len + 1"
      | (full) "\<not> (len = 0 \<or> len > MAX_PAYLOAD)" "\<not> length b < HDR_LEN + len + 1" by blast
    then show ?thesis
    proof cases
      case bad
      then show ?thesis using IH(1) now both False nonempty by (simp add: hub_layout)
    next
      case short
      then show ?thesis using stop now False by simp
    next
      case full
      then have "take (HDR_LEN + len) (b @ ys) = take (HDR_LEN + len) b" "(b @ ys) ! (HDR_LEN + len) = b ! (HDR_LEN + len)"
        "take (HDR_LEN + len + 1) (b @ ys) = take (HDR_LEN + len + 1) b"
        "drop (HDR_LEN + len + 1) (b @ ys) = drop (HDR_LEN + len + 1) b @ ys" "\<not> length (b @ ys) < HDR_LEN + len + 1"
        by (auto simp: nth_append)
      then show ?thesis
        using IH(2) [OF False full] IH(3) [OF False full] now both False full nonempty
        by (cases "xor_sum (take (HDR_LEN + len) b) = b ! (HDR_LEN + len)") (simp_all split: prod.splits)
    qed
  qed
qed

lemma hub_magic: "MAGIC0 = MSG_MAGIC0" "MAGIC1 = MSG_MAGIC1" "MAX_PAYLOAD = MSG_MAX_PAYLOAD"
  by (simp_all add: MAGIC0_def MAGIC1_def MSG_MAGIC0_def MSG_MAGIC1_def MAX_PAYLOAD_def MSG_MAX_PAYLOAD_def)

lemma skip_noise:
  "MAGIC1 \<notin> set noise \<Longrightarrow> skip_to_magic (noise @ MAGIC0 # MAGIC1 # r) = MAGIC0 # MAGIC1 # r"
  by (induction noise rule: skip_to_magic.induct) (auto simp: MAGIC0_def MAGIC1_def)

lemma good_frame_start: "\<exists>r. good_frame sn tg body = MAGIC0 # MAGIC1 # r"
  by (simp add: good_frame_def raw_frame_def frame_head_def hub_magic)

text \<open>A frame of a sender is found as it is, also after bytes that are no frame.\<close>

lemma parse_good:
  assumes "body \<noteq> []" "length body \<le> MAX_PAYLOAD" "MAGIC1 \<notin> set noise"
  shows "hub_parse (noise @ good_frame sn tg body @ r) =
    (case hub_parse r of (fs, r') \<Rightarrow> (good_frame sn tg body # fs, r'))"
proof -
  let ?f = "good_frame sn tg body" and ?n = "length body"
  obtain q where "?f = MAGIC0 # MAGIC1 # q" using good_frame_start by blast
  then have skip: "skip_to_magic (noise @ ?f @ r) = ?f @ r" using skip_noise [OF assms(3)] by simp
  have f: "?f = [MSG_MAGIC0, MSG_MAGIC1, sn, tg] @ le16 (of_nat ?n) @ body @ [frame_sum sn tg body]"
    by (simp add: good_frame_def raw_frame_def frame_head_def)
  have len: "unat (rd16 (?f @ r) 4) = ?n"
    using assms(2) by (simp add: f codec_simps hub_magic)
  have body: "take (HDR_LEN + ?n) (?f @ r) = frame_head sn tg ?n @ body"
    by (simp add: good_frame_def raw_frame_def hub_layout)
  have c: "(?f @ r) ! (HDR_LEN + ?n) = frame_sum sn tg body"
    by (simp add: good_frame_def raw_frame_def hub_layout nth_append)
  show ?thesis
    using assms(1,2) body c
    by (simp add: hub_parse.simps [of "noise @ ?f @ r"] skip Let_def len)
      (simp add: hub_layout frame_sum_def)
qed

text \<open>Everything the hub finds is a frame that some sender could have made.\<close>

definition wf_frame :: "bytes \<Rightarrow> bool" where
  "wf_frame f \<longleftrightarrow> (\<exists>sn tg body. f = good_frame sn tg body \<and> body \<noteq> [] \<and> length body \<le> MAX_PAYLOAD)"

lemma whole_frame:
  assumes "b = MAGIC0 # MAGIC1 # q" "len = unat (rd16 b 4)" "len \<noteq> 0" "len \<le> MAX_PAYLOAD"
    and "HDR_LEN + len + 1 \<le> length b" "xor_sum (take (HDR_LEN + len) b) = b ! (HDR_LEN + len)"
  shows "wf_frame (take (HDR_LEN + len + 1) b)"
proof -
  let ?body = "bslice 6 len b"
  have n: "length ?body = len" using assms(5) by (simp add: buf_simps hub_layout)
  have head: "take HDR_LEN b = frame_head (b ! 2) (b ! 3) len"
  proof -
    have "le16 (of_nat len) = bslice 4 2 b"
      using le_rd(1) [of 4 b] assms(2,5) by (simp add: hub_layout)
    then show ?thesis
      using assms(1,5) by (simp add: frame_head_def hub_magic hub_layout bslice_def numeral_eq_Suc)
        (auto simp: Suc_le_length_iff)
  qed
  have "take (HDR_LEN + len) b = frame_head (b ! 2) (b ! 3) len @ ?body"
    using head by (simp add: take_add bslice_def hub_layout)
  then have "take (HDR_LEN + len + 1) b = good_frame (b ! 2) (b ! 3) ?body"
    using assms(5,6) n by (simp add: take_Suc_conv_app_nth good_frame_def raw_frame_def frame_sum_def)
  with n assms(3,4) show ?thesis unfolding wf_frame_def by (metis list.size(3))
qed

lemma parse_sound:
  "hub_parse bs = (fs, r) \<Longrightarrow> f \<in> set fs \<Longrightarrow> wf_frame f"
proof (induction bs arbitrary: fs r rule: hub_parse.induct)
  case (1 bs)
  define b where "b = skip_to_magic bs"
  define len where "len = unat (rd16 b 4)"
  note IH = 1(1-3) [OF b_def len_def refl]
  note parse = 1(4) [unfolded hub_parse.simps [of bs], folded b_def, unfolded Let_def, folded len_def]
  have "wf_frame (take (HDR_LEN + len + 1) b)" if "\<not> length b < HDR_LEN" "\<not> (len = 0 \<or> len > MAX_PAYLOAD)"
    "\<not> length b < HDR_LEN + len + 1" "xor_sum (take (HDR_LEN + len) b) = b ! (HDR_LEN + len)"
  proof -
    have "2 \<le> length (skip_to_magic bs)" using that(1) by (simp add: b_def hub_layout)
    then obtain q where "b = MAGIC0 # MAGIC1 # q" using skip_two b_def by blast
    then show ?thesis using that by (intro whole_frame [OF _ len_def]) auto
  qed
  with parse IH 1(5) show ?case by (auto split: if_splits prod.splits)
qed

section \<open>The invariant of the hub\<close>

definition hub_inv :: "hub \<Rightarrow> bool" where
  "hub_inv h \<longleftrightarrow> length (peers h) = MAX_PEERS \<and>
     (\<forall>k < MAX_PEERS. length (buf (peers h ! k)) < MAX_FRAME) \<and>
     (\<forall>k < MAX_PEERS. fd (peers h ! k) < 0 \<longrightarrow> \<not> have_node (peers h ! k) \<and> buf (peers h ! k) = []) \<and>
     (\<forall>j < MAX_PEERS. \<forall>k < MAX_PEERS. have_node (peers h ! j) \<and> have_node (peers h ! k) \<and>
        node_id (peers h ! j) = node_id (peers h ! k) \<longrightarrow> j = k) \<and>
     (\<forall>j < MAX_PEERS. \<forall>k < MAX_PEERS. fd (peers h ! j) \<ge> 0 \<and> fd (peers h ! j) = fd (peers h ! k) \<longrightarrow> j = k)"

lemma hub_inv_start: "hub_inv (hub_start as)"
  by (auto simp: hub_inv_def hub_start_def hub_layout)

lemma hub_inv_only_drops:
  assumes "hub_inv h" "only_drops h h'"
  shows "hub_inv h'"
proof -
  have k: "peers h' ! k = peers h ! k \<or> peers h' ! k = (peers h ! k)\<lparr> fd := -1, have_node := False, buf := [] \<rparr>"
    if "k < MAX_PEERS" for k using assms that by (auto simp: only_drops_def hub_inv_def)
  have "length (buf (peers h' ! j)) < MAX_FRAME" if "j < MAX_PEERS" for j
    using k [OF that] assms(1) that by (auto simp: hub_inv_def hub_layout)
  moreover have "\<not> have_node (peers h' ! j) \<and> buf (peers h' ! j) = []" if "j < MAX_PEERS" "fd (peers h' ! j) < 0" for j
    using k [OF that(1)] assms(1) that by (auto simp: hub_inv_def)
  moreover have "i = j" if "i < MAX_PEERS" "j < MAX_PEERS" "have_node (peers h' ! i)" "have_node (peers h' ! j)"
    "node_id (peers h' ! i) = node_id (peers h' ! j)" for i j
    using k [OF that(1)] k [OF that(2)] assms(1) that unfolding hub_inv_def by fastforce
  moreover have "i = j" if "i < MAX_PEERS" "j < MAX_PEERS" "fd (peers h' ! i) \<ge> 0" "fd (peers h' ! i) = fd (peers h' ! j)" for i j
    using k [OF that(1)] k [OF that(2)] assms(1) that unfolding hub_inv_def by fastforce
  moreover have "length (peers h') = MAX_PEERS" using assms by (simp add: only_drops_def hub_inv_def)
  ultimately show ?thesis unfolding hub_inv_def by blast
qed

lemma peer_drop_only_drops: "i < length (peers h) \<Longrightarrow> only_drops h (peer_drop i h)"
  by (auto simp: peer_drop_def only_drops_def set_peer_def nth_list_update)

lemma learn_inv:
  assumes inv: "hub_inv h" and i: "i < MAX_PEERS" "fd (peers h ! i) \<ge> 0"
  shows "hub_inv (learn i s h)"
proof (cases "have_node (peers h ! i) \<and> node_id (peers h ! i) = s")
  case True
  then show ?thesis using inv by (simp add: learn_def)
next
  case False
  let ?h = "learn i s h"
  have len: "length (peers h) = MAX_PEERS" using inv by (simp add: hub_inv_def)
  note l = learn_table [OF len i(1), of s]
  have other: "node_id (peers ?h ! k) = node_id (peers h ! k) \<and> (have_node (peers ?h ! k) \<longrightarrow> have_node (peers h ! k)) \<and>
      (have_node (peers ?h ! k) \<longrightarrow> node_id (peers ?h ! k) \<noteq> s)"
    if "k < MAX_PEERS" "k \<noteq> i" for k
  proof (cases "peer_find_by_node h s")
    case None
    have "have_node (peers h ! k) \<longrightarrow> fd (peers h ! k) \<ge> 0" using inv that by (force simp: hub_inv_def)
    with None False that i len show ?thesis by (auto simp: learn_def dest: find_None)
  next
    case (Some j)
    then have j: "j < MAX_PEERS" "have_node (peers h ! j)" "node_id (peers h ! j) = s" by (auto dest: find_range)
    then have only: "k \<noteq> j \<Longrightarrow> have_node (peers h ! k) \<Longrightarrow> node_id (peers h ! k) \<noteq> s"
      using inv that unfolding hub_inv_def by blast
    have "j \<noteq> i" using False j by auto
    then have "?h = set_peer i (\<lambda>p. p\<lparr> have_node := True, node_id := s \<rparr>) (set_peer j (\<lambda>p. p\<lparr> have_node := False \<rparr>) h)"
      using Some False by (simp add: learn_def)
    then show ?thesis using only j(1) that i(1) len by (cases "k = j") auto
  qed
  have uniq: "j = k" if "j < MAX_PEERS" "k < MAX_PEERS" "have_node (peers ?h ! j)" "have_node (peers ?h ! k)"
    "node_id (peers ?h ! j) = node_id (peers ?h ! k)" for j k
  proof (cases "j = i \<or> k = i")
    case True
    then show ?thesis using that other [of j] other [of k] l by metis
  next
    case False
    then show ?thesis using that other [of j] other [of k] inv by (auto simp: hub_inv_def)
  qed
  have "\<not> have_node (peers ?h ! k)" if "k < MAX_PEERS" "fd (peers ?h ! k) < 0" for k
  proof -
    have "fd (peers h ! k) < 0" using l that by simp
    then have "\<not> have_node (peers h ! k)" "k \<noteq> i" using inv that i by (auto simp: hub_inv_def)
    then show ?thesis using other that by blast
  qed
  with uniq l inv show ?thesis unfolding hub_inv_def by auto
qed

lemma handle_frame_inv:
  assumes "hub_inv h" "i < MAX_PEERS" "fd (peers h ! i) \<ge> 0"
  shows "hub_inv (handle_frame i h f) \<and> fd (peers (handle_frame i h f) ! i) = fd (peers h ! i)"
proof -
  have len: "length (peers h) = MAX_PEERS" using assms(1) by (simp add: hub_inv_def)
  have "length (peers (learn i (f ! 2) h)) = MAX_PEERS" using learn_table [OF len assms(2)] by simp
  with learn_inv [OF assms, of "f ! 2"] show ?thesis
    using hub_inv_only_drops dispatch_only_drops handle_frame_keeps assms(2) len
    by (auto simp: handle_frame_def)
qed

lemma fold_frames_inv:
  assumes "hub_inv h" "i < MAX_PEERS" "fd (peers h ! i) \<ge> 0"
  shows "hub_inv (foldl (handle_frame i) h fs) \<and> fd (peers (foldl (handle_frame i) h fs) ! i) = fd (peers h ! i)"
  using assms by (induction fs arbitrary: h) (auto simp: handle_frame_inv)

lemma hub_inv_set_buf:
  assumes "hub_inv h" "i < MAX_PEERS" "fd (peers h ! i) \<ge> 0" "length b < MAX_FRAME"
  shows "hub_inv (set_buf i b h)"
proof -
  have len: "length (peers h) = MAX_PEERS" using assms(1) by (simp add: hub_inv_def)
  have f: "fd (peers (set_buf i b h) ! k) = fd (peers h ! k)"
    "have_node (peers (set_buf i b h) ! k) = have_node (peers h ! k)"
    "node_id (peers (set_buf i b h) ! k) = node_id (peers h ! k)"
    "buf (peers (set_buf i b h) ! k) = (if k = i then b else buf (peers h ! k))" for k
    using len assms(2) by simp_all
  have "\<forall>k < MAX_PEERS. length (if k = i then b else buf (peers h ! k)) < MAX_FRAME"
    "\<forall>k < MAX_PEERS. fd (peers h ! k) < 0 \<longrightarrow> \<not> have_node (peers h ! k) \<and> (if k = i then b else buf (peers h ! k)) = []"
    using assms by (auto simp: hub_inv_def)
  with assms(1) show ?thesis unfolding hub_inv_def f by simp
qed

lemma fold_frames_bufs:
  "table_ok i h \<Longrightarrow> buf (peers (foldl (handle_frame i) h fs) ! i) = buf (peers h ! i)"
  by (induction fs arbitrary: h) (auto simp: handle_frame_keeps)

text \<open>The state after \<open>recv\<close> returned \<open>d\<close> on connection \<open>i\<close>.\<close>

lemma readable_data:
  assumes inv: "hub_inv h" and i: "i < MAX_PEERS"
    and d: "d \<noteq> []" "length (buf (peers h ! i)) + length d \<le> BUF_CAP"
    and p: "hub_parse (buf (peers h ! i) @ d) = (fs, r)"
  shows "hub_readable i (Data d) h = Some (set_buf i r (foldl (handle_frame i) h fs))"
proof -
  have ok: "table_ok i h" using inv i by (simp add: hub_inv_def)
  let ?h = "set_buf i (buf (peers h ! i) @ d) h"
  have app: "set_peer i (\<lambda>p. p\<lparr> buf := buf p @ d \<rparr>) h = ?h" by (simp add: set_peer_def)
  have "length (buf (peers h ! i)) < BUF_CAP" using inv i by (force simp: hub_inv_def hub_layout)
  then have "hub_readable i (Data d) h = process_peer_buffer i ?h"
    using d by (simp add: hub_readable_def Let_def app)
  also have "\<dots> = Some (set_buf i r (foldl (handle_frame i) ?h fs))"
    using ok p by (intro process_parses) auto
  also have "\<dots> = Some (set_buf i r (foldl (handle_frame i) h fs))"
    using ok by (simp add: unbuffered fold_frames_keep)
  finally show ?thesis .
qed

lemma readable_inv:
  assumes inv: "hub_inv h" and i: "i < MAX_PEERS" "fd (peers h ! i) \<ge> 0"
  shows "\<exists>h'. hub_readable i a h = Some h' \<and> hub_inv h'"
proof -
  have len: "length (peers h) = MAX_PEERS" and small: "length (buf (peers h ! i)) < BUF_CAP"
    using inv i by (auto simp: hub_inv_def hub_layout dest!: spec [of _ i])
  have dropped: "hub_inv (peer_drop i h)"
    using hub_inv_only_drops [OF inv] peer_drop_only_drops i len by simp
  show ?thesis
  proof (cases "\<exists>d. a = Data d \<and> d \<noteq> []")
    case True
    then obtain d where a: "a = Data d" "d \<noteq> []" by blast
    let ?d = "take (BUF_CAP - length (buf (peers h ! i))) d"
    have d: "?d \<noteq> []" "length (buf (peers h ! i)) + length ?d \<le> BUF_CAP" using a small by auto
    have same: "hub_readable i a h = hub_readable i (Data ?d) h"
      using a by (simp add: hub_readable_def Let_def)
    obtain fs r where p: "hub_parse (buf (peers h ! i) @ ?d) = (fs, r)" by (cases "hub_parse (buf (peers h ! i) @ ?d)")
    have "hub_inv (set_buf i r (foldl (handle_frame i) h fs))"
      using fold_frames_inv [OF inv i, of fs] parse_rest [OF p] i by (intro hub_inv_set_buf) auto
    then show ?thesis using same readable_data [OF inv i(1) d p] by simp
  next
    case False
    then show ?thesis
      using inv dropped small by (cases a) (auto simp: hub_readable_def Let_def)
  qed
qed

lemma serve_inv:
  assumes "hub_inv h" "\<forall>i \<in> set is. i < MAX_PEERS"
  shows "\<exists>h'. serve is rs h = Some h' \<and> hub_inv h'"
  using assms
proof (induction "is" arbitrary: h)
  case (Cons i "is")
  show ?case
  proof (cases "fd (peers h ! i) < 0 \<or> rs i = None")
    case True
    then show ?thesis using Cons by (auto split: option.splits)
  next
    case False
    then obtain a where a: "rs i = Some a" by auto
    obtain h1 where "hub_readable i a h = Some h1" "hub_inv h1"
      using readable_inv [of h i a] Cons.prems False by auto
    with Cons False a show ?thesis by auto
  qed
qed simp

definition fresh_fd :: "int \<Rightarrow> hub \<Rightarrow> bool" where
  "fresh_fd c h \<longleftrightarrow> (\<forall>p \<in> set (peers h). fd p \<noteq> c)"

lemma accept_inv:
  assumes "hub_inv h" "fresh_fd c h"
  shows "hub_inv (hub_accept c h)"
proof (cases "first_from (\<lambda>i. fd (peers h ! i) < 0) 0 MAX_PEERS")
  case None
  then show ?thesis using assms(1) by (simp add: hub_accept_def peer_slot_alloc_def hub_inv_def)
next
  case (Some s)
  then have s: "s < MAX_PEERS" "fd (peers h ! s) < 0" by (auto simp: first_from_Some_iff)
  have len: "length (peers h) = MAX_PEERS" using assms(1) by (simp add: hub_inv_def)
  have f: "fd (peers h ! k) \<noteq> c" if "k < MAX_PEERS" for k
    using assms(2) that len nth_mem [of k "peers h"] unfolding fresh_fd_def by metis
  have e: "hub_accept c h = (if c \<ge> 0 then set_peer s (\<lambda>p. p\<lparr> fd := c, have_node := False, node_id := 0, buf := [] \<rparr>) h else h)"
    using Some by (simp add: hub_accept_def peer_slot_alloc_def)
  show ?thesis
  proof (cases "c \<ge> 0")
    case True
    let ?h = "hub_accept c h"
    have at: "peers ?h ! k = (if k = s then (peers h ! s)\<lparr> fd := c, have_node := False, node_id := 0, buf := [] \<rparr> else peers h ! k)" for k
      using e True s len by simp
    have "fd (peers ?h ! j) \<ge> 0 \<and> fd (peers ?h ! j) = fd (peers ?h ! k) \<longrightarrow> j = k" if "j < MAX_PEERS" "k < MAX_PEERS" for j k
    proof (cases "j = s \<or> k = s")
      case True
      then show ?thesis using at [of j] at [of k] f [OF that(1)] f [OF that(2)] by (auto split: if_splits)
    next
      case False
      then show ?thesis using at [of j] at [of k] assms(1) that by (simp add: hub_inv_def)
    qed
    moreover have "have_node (peers ?h ! j) \<and> have_node (peers ?h ! k) \<and> node_id (peers ?h ! j) = node_id (peers ?h ! k) \<longrightarrow> j = k"
      if "j < MAX_PEERS" "k < MAX_PEERS" for j k
      using at [of j] at [of k] assms(1) that by (simp add: hub_inv_def)
    moreover have "length (buf (peers ?h ! k)) < MAX_FRAME \<and> (fd (peers ?h ! k) < 0 \<longrightarrow> \<not> have_node (peers ?h ! k) \<and> buf (peers ?h ! k) = [])"
      if "k < MAX_PEERS" for k
      using at [of k] assms(1) that True by (simp add: hub_inv_def hub_layout)
    moreover have "length (peers ?h) = MAX_PEERS" using e len by simp
    ultimately show ?thesis unfolding hub_inv_def by blast
  qed (use e assms(1) in simp)
qed

text \<open>The states of the hub while it runs. A descriptor that \<open>accept\<close> returns is not one of the
  open ones.\<close>

inductive hub_reach :: "hub \<Rightarrow> bool" where
  start: "hub_reach (hub_start as)"
| turn: "hub_reach h \<Longrightarrow> (\<And>c. acc = Some c \<Longrightarrow> fresh_fd c h) \<Longrightarrow> hub_turn acc rs h = Some h' \<Longrightarrow> hub_reach h'"

lemma turn_inv:
  assumes "hub_inv h" "\<And>c. acc = Some c \<Longrightarrow> fresh_fd c h"
  shows "\<exists>h'. hub_turn acc rs h = Some h' \<and> hub_inv h'"
proof -
  have "hub_inv (case acc of None \<Rightarrow> h | Some c \<Rightarrow> hub_accept c h)"
    using assms accept_inv by (auto split: option.split)
  then show ?thesis by (auto simp: hub_turn_def Let_def intro!: serve_inv)
qed

lemma reach_inv: "hub_reach h \<Longrightarrow> hub_inv h"
proof (induction rule: hub_reach.induct)
  case (turn h acc rs h')
  then show ?case using turn_inv [of h acc rs] by auto
qed (rule hub_inv_start)

section \<open>What goes out on a connection\<close>

text \<open>The bytes \<open>send\<close> accepted on the descriptor \<open>f\<close> so far.\<close>

definition accepted :: "int \<Rightarrow> hub \<Rightarrow> bytes" where
  "accepted f h = concat (map snd (filter (\<lambda>e. fst e = f) (wire h)))"

lemma send_loop_spec:
  assumes "send_loop as f bs w = (ok, as', w')"
  shows "set as' \<subseteq> set as" and "\<exists>ps. w' = w @ map (Pair f) ps \<and> (ok \<longrightarrow> concat ps = bs)"
    and "Send_Failed \<notin> set as \<Longrightarrow> ok"
proof -
  show "set as' \<subseteq> set as" "Send_Failed \<notin> set as \<Longrightarrow> ok"
    using assms by (induction as f bs w rule: send_loop.induct) (auto split: if_splits send_answer.splits)
  show "\<exists>ps. w' = w @ map (Pair f) ps \<and> (ok \<longrightarrow> concat ps = bs)"
    using assms
  proof (induction as f bs w rule: send_loop.induct)
    case (1 f bs w)
    then show ?case by (cases "bs = []") (auto intro: exI [of _ "[]"] exI [of _ "[bs]"])
  next
    case (2 a as f bs w)
    show ?case
    proof (cases "bs = []")
      case True
      then show ?thesis using 2 by (auto intro: exI [of _ "[]"])
    next
      case False
      show ?thesis
      proof (cases a)
        case (Accepts n)
        then obtain ps where "w' = (w @ [(f, take n bs)]) @ map (Pair f) ps" "ok \<longrightarrow> concat ps = drop n bs"
          using 2 False by auto
        then show ?thesis by (auto intro: exI [of _ "take n bs # ps"])
      qed (use 2 False in \<open>auto intro: exI [of _ "[]"]\<close>)
    qed
  qed
qed

lemma send_all_accepted:
  assumes "send_all f bs h = (ok, h')"
  shows "g \<noteq> f \<Longrightarrow> accepted g h' = accepted g h" and "ok \<Longrightarrow> accepted f h' = accepted f h @ bs"
    and "Send_Failed \<notin> set (answers h) \<Longrightarrow> ok \<and> Send_Failed \<notin> set (answers h')"
proof -
  obtain as' w' where l: "send_loop (answers h) f bs (wire h) = (ok, as', w')" "h' = h\<lparr> answers := as', wire := w' \<rparr>"
    using assms by (auto simp: send_all_def split: prod.splits)
  obtain ps where ps: "w' = wire h @ map (Pair f) ps" "ok \<longrightarrow> concat ps = bs"
    using send_loop_spec(2) [OF l(1)] by blast
  have flt: "filter (\<lambda>e. fst e = g) (map (Pair f) ps) = (if g = f then map (Pair f) ps else [])" for g
    by (induction ps) auto
  show "g \<noteq> f \<Longrightarrow> accepted g h' = accepted g h"
    using l(2) ps flt by (simp add: accepted_def)
  show "ok \<Longrightarrow> accepted f h' = accepted f h @ bs"
    using l(2) ps flt by (simp add: accepted_def o_def)
  show "Send_Failed \<notin> set (answers h) \<Longrightarrow> ok \<and> Send_Failed \<notin> set (answers h')"
    using send_loop_spec(1,3) [OF l(1)] l(2) by auto
qed

text \<open>The connection \<open>j\<close> is the one behind which the node \<open>n\<close> sits.\<close>

definition owner :: "hub \<Rightarrow> nat \<Rightarrow> u8 \<Rightarrow> bool" where
  "owner h j n \<longleftrightarrow> j < MAX_PEERS \<and> fd (peers h ! j) \<ge> 0 \<and> have_node (peers h ! j) \<and> node_id (peers h ! j) = n"

lemma find_owner:
  assumes "hub_inv h"
  shows "peer_find_by_node h n = Some j \<longleftrightarrow> owner h j n"
proof
  show "peer_find_by_node h n = Some j \<Longrightarrow> owner h j n" using find_range by (auto simp: owner_def)
next
  assume o: "owner h j n"
  then obtain k where k: "peer_find_by_node h n = Some k"
    using find_None [of h n j] by (cases "peer_find_by_node h n") (auto simp: owner_def)
  from find_range [OF this] o assms have "k = j" unfolding hub_inv_def owner_def by blast
  with k show "peer_find_by_node h n = Some j" by simp
qed

lemma learn_silent: "wire (learn i s h) = wire h" "answers (learn i s h) = answers h"
  by (simp_all add: learn_def Let_def split: option.split)

lemma learn_owner:
  assumes "length (peers h) = MAX_PEERS" "i < MAX_PEERS" "owner h j n" "j \<noteq> i" "n \<noteq> s"
  shows "owner (learn i s h) j n"
proof -
  have "prev \<noteq> j \<and> prev < MAX_PEERS" if "peer_find_by_node h s = Some prev" for prev
    using find_range [OF that] assms by (auto simp: owner_def)
  then show ?thesis
    using assms by (auto simp: learn_def Let_def owner_def split: option.split)
qed

lemma send_or_drop_ok:
  assumes "Send_Failed \<notin> set (answers h)"
  shows "peers (send_or_drop k f h) = peers h \<and> Send_Failed \<notin> set (answers (send_or_drop k f h)) \<and>
    accepted g (send_or_drop k f h) = accepted g h @ (if g = fd (peers h ! k) then f else [])"
proof -
  obtain ok h1 where s: "send_all (fd (peers h ! k)) f h = (ok, h1)" by (cases "send_all (fd (peers h ! k)) f h")
  note a = send_all_accepted [OF s]
  then have "ok" "Send_Failed \<notin> set (answers h1)" using assms by auto
  then show ?thesis using s a(1,2) send_all_peers [OF s] by (auto simp: send_or_drop_def)
qed

text \<open>A frame that arrives on another connection reaches the owner of its target whole, and nobody
  else's frame reaches it.\<close>

lemma handle_frame_routes:
  assumes inv: "hub_inv h" and i: "i < MAX_PEERS" "fd (peers h ! i) \<ge> 0"
    and own: "owner h j me" "j \<noteq> i" and good: "Send_Failed \<notin> set (answers h)"
    and f: "f ! 2 \<noteq> me" "f ! 3 \<noteq> BROADCAST"
  defines "h' \<equiv> handle_frame i h f"
  shows "owner h' j me \<and> Send_Failed \<notin> set (answers h') \<and> fd (peers h' ! j) = fd (peers h ! j) \<and>
    accepted (fd (peers h ! j)) h' = accepted (fd (peers h ! j)) h @ (if f ! 3 = me then f else [])"
proof -
  let ?l = "learn i (f ! 2) h" and ?g = "fd (peers h ! j)"
  have len: "length (peers h) = MAX_PEERS" using inv by (simp add: hub_inv_def)
  have lown: "owner ?l j me" using learn_owner [OF len i(1) own] f by simp
  have linv: "hub_inv ?l" by (rule learn_inv [OF inv i])
  have g: "fd (peers ?l ! j) = ?g" using learn_table [OF len i(1)] own by (simp add: owner_def)
  have silent: "Send_Failed \<notin> set (answers ?l)" "accepted g ?l = accepted g h" for g
    using good by (simp_all add: learn_silent accepted_def)
  have h': "h' = dispatch i (f ! 2) (f ! 3) f ?l" by (simp add: h'_def handle_frame_def)
  show ?thesis
  proof (cases "peer_find_by_node ?l (f ! 3)")
    case None
    then have "f ! 3 \<noteq> me" using lown find_owner [OF linv] by (metis option.distinct(1))
    with None h' f lown silent g show ?thesis by (simp add: dispatch_def)
  next
    case (Some k)
    then have k: "owner ?l k (f ! 3)" using find_owner [OF linv] by blast
    then have same: "fd (peers ?l ! k) = ?g \<longleftrightarrow> f ! 3 = me"
      using lown linv g unfolding owner_def hub_inv_def by metis
    show ?thesis
      using Some h' f lown silent g same send_or_drop_ok [OF silent(1), of k f ?g]
      by (auto simp: dispatch_def owner_def)
  qed
qed

text \<open>The hub as a reader of the stream of one connection: the bytes left over are its state.\<close>

definition hub_feed :: "bytes \<Rightarrow> bytes \<Rightarrow> (bytes \<times> bytes list) option" where
  "hub_feed r d = (case hub_parse (r @ d) of (fs, r') \<Rightarrow> Some (r', fs))"

interpretation conn: stream_reader hub_feed "\<lambda>r. hub_parse r = ([], r)"
proof
  fix r xs ys :: bytes
  show "hub_parse r = ([], r) \<Longrightarrow> hub_feed r [] = Some (r, [])" by (simp add: hub_feed_def)
  show "\<exists>r' fs. hub_feed r xs = Some (r', fs) \<and> hub_parse r' = ([], r')"
    by (auto simp: hub_feed_def parse_rest split: prod.splits)
  show "hub_feed r (xs @ ys) = do { (s, ms) \<leftarrow> hub_feed r xs; (s, ns) \<leftarrow> hub_feed s ys; Some (s, ms @ ns) }"
    using parse_append [of "r @ xs" ys] by (simp add: hub_feed_def split: prod.splits)
qed

text \<open>Turns in which only one thing happens.\<close>

lemma serve_none: "serve is (\<lambda>_. None) h = Some h"
  by (induction "is") auto

lemma serve_one:
  assumes "distinct is" "i \<in> set is" "fd (peers h ! i) \<ge> 0"
  shows "serve is (\<lambda>k. if k = i then Some a else None) h = hub_readable i a h"
  using assms
proof (induction "is")
  case (Cons k ks)
  have "serve ks (\<lambda>k. if k = i then Some a else None) g = Some g" if "i \<notin> set ks" for g
    using that by (induction ks) auto
  with Cons show ?case by (cases "hub_readable i a h") auto
qed simp

lemma reach_accept: "hub_reach h \<Longrightarrow> fresh_fd c h \<Longrightarrow> hub_reach (hub_accept c h)"
  by (rule hub_reach.turn [of h "Some c" "\<lambda>_. None"]) (auto simp: hub_turn_def serve_none)

lemma reach_readable:
  assumes "hub_reach h" "i < MAX_PEERS" "fd (peers h ! i) \<ge> 0" "hub_readable i a h = Some h'"
  shows "hub_reach h'"
proof -
  have "hub_turn None (\<lambda>k. if k = i then Some a else None) h = Some h'"
    using assms serve_one [of "filter (\<lambda>i. fd (peers h ! i) \<ge> 0) [0..<MAX_PEERS]" i h a]
    by (simp add: hub_turn_def)
  then show ?thesis using assms(1) by (auto intro: hub_reach.turn)
qed

text \<open>A hub with two connections, the descriptors 5 and 6 in the first two slots.\<close>

definition two_peers :: hub where
  "two_peers = hub_accept 6 (hub_accept 5 (hub_start []))"

lemma two_peers_facts:
  "hub_reach two_peers" "fd (peers two_peers ! 0) = 5" "fd (peers two_peers ! 1) = 6"
  "buf (peers two_peers ! 0) = []" "buf (peers two_peers ! 1) = []"
  "answers two_peers = []" "length (peers two_peers) = MAX_PEERS"
proof -
  have none: "peers (hub_start []) ! k = \<lparr> fd = -1, have_node = False, node_id = 0, buf = [] \<rparr>" if "k < MAX_PEERS" for k
    using that by (simp add: hub_start_def)
  have len: "length (peers (hub_start [])) = MAX_PEERS" by (simp add: hub_start_def)
  have "first_from (\<lambda>i. fd (peers (hub_start []) ! i) < 0) 0 MAX_PEERS = Some 0"
    using none by (simp add: first_from_Some_iff hub_layout)
  then have one: "hub_accept 5 (hub_start []) =
      set_peer 0 (\<lambda>p. p\<lparr> fd := 5, have_node := False, node_id := 0, buf := [] \<rparr>) (hub_start [])"
    by (simp add: hub_accept_def peer_slot_alloc_def)
  have "first_from (\<lambda>i. fd (peers (hub_accept 5 (hub_start [])) ! i) < 0) 0 MAX_PEERS = Some 1"
    unfolding one using none len by (simp add: first_from_Some_iff hub_layout)
  then have two: "two_peers = set_peer 1 (\<lambda>p. p\<lparr> fd := 6, have_node := False, node_id := 0, buf := [] \<rparr>)
      (hub_accept 5 (hub_start []))"
    by (simp add: hub_accept_def [of 6] peer_slot_alloc_def two_peers_def)
  show "fd (peers two_peers ! 0) = 5" "fd (peers two_peers ! 1) = 6" "buf (peers two_peers ! 0) = []"
    "buf (peers two_peers ! 1) = []" "answers two_peers = []" "length (peers two_peers) = MAX_PEERS"
    using len by (simp_all add: two one hub_layout) (simp_all add: hub_start_def)
  have "fresh_fd 5 (hub_start [])" by (auto simp: fresh_fd_def hub_start_def)
  moreover have "fresh_fd 6 (hub_accept 5 (hub_start []))"
    unfolding one by (auto simp: fresh_fd_def hub_start_def set_peer_def dest: set_update_subset_insert [THEN subsetD])
  ultimately show "hub_reach two_peers"
    unfolding two_peers_def by (intro reach_accept hub_reach.start)
qed

section \<open>Properties of the hub\<close>

text \<open>C16: While the hub runs, whatever the connections send and however \<open>send\<close> and \<open>recv\<close> answer,
  a turn of its main loop ends without an access outside a buffer and keeps its invariant: no two
  connections claim the same node, no two slots share a descriptor, a free slot is empty, and every
  buffer holds less than one maximal frame, so that the branch that drops a connection whose buffer
  is full is never taken. The only thing asked of the system is that a descriptor returned by
  \<open>accept\<close> is not already open.\<close>

theorem hub_turn_safe:
  assumes "hub_reach h" "\<And>c. acc = Some c \<Longrightarrow> fresh_fd c h"
  shows "\<exists>h'. hub_turn acc rs h = Some h' \<and> hub_inv h'"
  by (rule turn_inv [OF reach_inv [OF assms(1)] assms(2)])

theorem hub_turn_safe_witness:
  "\<exists>h'. hub_turn (Some 5) (\<lambda>_. Some (Data [29, 5])) (hub_start []) = Some h' \<and> hub_inv h'"
  by (rule hub_turn_safe [OF hub_reach.start]) (auto simp: fresh_fd_def hub_start_def)

text \<open>C17: However the operating system cuts the stream of a connection into pieces, the hub ends in
  the same state: the one in which the frames of the whole stream, as the reference parser finds
  them, were handled in order, with the reference parser's left-over bytes in the buffer. Every
  frame handled is well formed (magic, length within the limit, right check byte).\<close>

fun recv_all :: "nat \<Rightarrow> bytes list \<Rightarrow> hub \<Rightarrow> hub option" where
  "recv_all i [] h = Some h"
| "recv_all i (d # ds) h = do { h \<leftarrow> hub_readable i (Data d) h; recv_all i ds h }"

lemma recv_all_parses:
  assumes "ds \<noteq> []" "hub_inv h" "i < MAX_PEERS" "fd (peers h ! i) \<ge> 0"
    and "\<forall>d \<in> set ds. d \<noteq> [] \<and> length d \<le> BUF_CAP - MAX_FRAME"
    and "hub_parse (buf (peers h ! i) @ concat ds) = (fs, r)"
  shows "recv_all i ds h = Some (set_buf i r (foldl (handle_frame i) h fs))"
  using assms
proof (induction ds arbitrary: h fs r rule: list_nonempty_induct)
  case (single d)
  have "length (buf (peers h ! i)) < MAX_FRAME" using single.prems by (simp add: hub_inv_def)
  with single readable_data [of h i d fs r] show ?case by (auto simp: hub_layout)
next
  case (cons d ds)
  have ok: "table_ok i h" and small: "length (buf (peers h ! i)) < MAX_FRAME"
    using cons.prems by (auto simp: hub_inv_def)
  obtain fs1 r1 where p1: "hub_parse (buf (peers h ! i) @ d) = (fs1, r1)"
    by (cases "hub_parse (buf (peers h ! i) @ d)")
  obtain fs2 where p2: "hub_parse (r1 @ concat ds) = (fs2, r)" "fs = fs1 @ fs2"
    using cons.prems(5) parse_append [of "buf (peers h ! i) @ d" "concat ds"] p1
    by (auto split: prod.splits)
  let ?h = "set_buf i r1 (foldl (handle_frame i) h fs1)"
  have first: "hub_readable i (Data d) h = Some ?h"
    using readable_data [of h i d fs1 r1] cons.prems p1 small by (auto simp: hub_layout)
  have inv: "hub_inv (foldl (handle_frame i) h fs1)" "fd (peers (foldl (handle_frame i) h fs1) ! i) \<ge> 0"
    using fold_frames_inv [of h i fs1] cons.prems by auto
  have len: "length (peers (foldl (handle_frame i) h fs1)) = MAX_PEERS" using inv by (simp add: hub_inv_def)
  have "recv_all i ds ?h = Some (set_buf i r (foldl (handle_frame i) ?h fs2))"
    by (rule cons.IH) (use cons.prems p2 inv len parse_rest [OF p1] in \<open>auto intro!: hub_inv_set_buf\<close>)
  also have "foldl (handle_frame i) ?h fs2 = set_buf i r1 (foldl (handle_frame i) h fs)"
    using len cons.prems p2 by (simp add: unbuffered)
  finally show ?case
    using first fold_frames_keep [OF ok, of fs] by simp
qed

theorem hub_chunking:
  assumes "hub_reach h" "i < MAX_PEERS" "fd (peers h ! i) \<ge> 0"
    and "ds \<noteq> []" "\<forall>d \<in> set ds. d \<noteq> [] \<and> length d \<le> BUF_CAP - MAX_FRAME"
    and "hub_parse (buf (peers h ! i) @ concat ds) = (fs, r)"
  shows "recv_all i ds h = Some (set_buf i r (foldl (handle_frame i) h fs)) \<and> list_all wf_frame fs"
  using recv_all_parses [OF assms(4) reach_inv [OF assms(1)] assms(2,3,5,6)] parse_sound [OF assms(6)]
  by (simp add: list_all_iff)

theorem hub_chunking_witness:
  "recv_all 0 [take 3 (good_frame 1 2 [72]), drop 3 (good_frame 1 2 [72])] two_peers =
     Some (set_buf 0 [] (foldl (handle_frame 0) two_peers [good_frame 1 2 [72]])) \<and>
   list_all wf_frame [good_frame 1 2 [72]]"
proof (rule hub_chunking)
  show "hub_parse (buf (peers two_peers ! 0) @ concat [take 3 (good_frame 1 2 [72]), drop 3 (good_frame 1 2 [72])]) =
      ([good_frame 1 2 [72]], [])"
    using parse_good [of "[72]" "[]" 1 2 "[]"] by (simp add: two_peers_facts hub_layout hub_parse.simps [of "[]"])
qed (simp_all add: two_peers_facts hub_layout)

end
