(* ===== verification/Slab.thy ===== *)
theory Slab
  imports Page_Alloc
begin

text \<open>
  The slab allocator (\<open>src/mm/allocator.c\<close>) on top of the pages. Memory is split by the type of what is stored:
  the two pointers of every \<open>struct list\<close> (at the start of a slab, and at offsets 0, 16 and 32 of a cache), the
  counters of caches, the slabs with the \<open>bufctl\<close> array behind them, and the headers of the blocks. Reading a cell
  that was never written is undefined behaviour (\<^term>\<open>None\<close>). Sizes are those of the 64-bit ABI.
\<close>

section \<open>Data\<close>

record Cache =
  totalobjs :: u64
  inuse :: u64
  objsize :: u64
  objs_per_slab :: u64

record Slab =
  s_cache :: u64
  s_memory :: u64
  s_free :: u64
  s_bufctl :: "u32 list"

record AllocHdr =
  h_magic :: u32
  h_cache :: u64
  h_raw_base :: u64
  h_raw_bytes :: u64

record heap =
  pages :: page_state
  nxt :: "u64 \<rightharpoonup> u64"
  prv :: "u64 \<rightharpoonup> u64"
  caches :: "u64 \<rightharpoonup> Cache"
  slabs :: "u64 \<rightharpoonup> Slab"
  hdrs :: "u64 \<rightharpoonup> AllocHdr"
  cache_cache :: u64
  size_caches :: "u64 list"
  reports :: "(u64 \<times> u64) list"

definition ALLOC_MAGIC :: u32 where "ALLOC_MAGIC = 0xCACECAFE"
definition KMALLOC_MIN :: u64 where "KMALLOC_MIN = 32"
definition ALLOC_ALIGNMENT :: u64 where "ALLOC_ALIGNMENT = 16"
definition SIZEOF_SLAB :: u64 where "SIZEOF_SLAB = 40"
definition SIZEOF_CACHE :: u64 where "SIZEOF_CACHE = 80"
definition SIZEOF_ALLOC_HDR :: u64 where "SIZEOF_ALLOC_HDR = 32"

definition HDR_SIZE :: u64 where
  "HDR_SIZE = (SIZEOF_ALLOC_HDR + (ALLOC_ALIGNMENT - 1)) div ALLOC_ALIGNMENT * ALLOC_ALIGNMENT"

definition ALIGN_UP :: "u64 \<Rightarrow> u64 \<Rightarrow> u64" where
  "ALIGN_UP x a = (x + (a - 1)) AND NOT (a - 1)"

section \<open>Pages\<close>

definition page_alloc :: "u64 \<Rightarrow> page_state \<Rightarrow> u64 \<times> page_state" where
  "page_alloc n ps = kalloc (n * 4096) ps"

definition page_dealloc :: "u64 \<Rightarrow> u64 \<Rightarrow> page_state \<Rightarrow> page_state option" where
  "page_dealloc data n ps = page_free data ps"

definition kernel_malloc :: "u64 \<Rightarrow> page_state \<Rightarrow> u64 \<times> page_state" where
  "kernel_malloc memory ps = page_alloc ((memory + 4095) div 4096) ps"

definition kernel_free :: "u64 \<Rightarrow> u64 \<Rightarrow> page_state \<Rightarrow> page_state option" where
  "kernel_free data sz ps = page_dealloc data ((sz + 4095) div 4096) ps"

section \<open>Circular lists\<close>

abbreviation set_nxt :: "u64 \<Rightarrow> u64 \<Rightarrow> heap \<Rightarrow> heap" where
  "set_nxt a v h \<equiv> h\<lparr> nxt := (nxt h)(a \<mapsto> v) \<rparr>"

abbreviation set_prv :: "u64 \<Rightarrow> u64 \<Rightarrow> heap \<Rightarrow> heap" where
  "set_prv a v h \<equiv> h\<lparr> prv := (prv h)(a \<mapsto> v) \<rparr>"

definition list_init :: "u64 \<Rightarrow> heap \<Rightarrow> heap" where
  "list_init l h = set_prv l l (set_nxt l l h)"

definition list_last :: "u64 \<Rightarrow> heap \<Rightarrow> u64 option" where
  "list_last l h = do { p \<leftarrow> prv h l; Some (if p \<noteq> l then p else 0) }"

definition list_next :: "u64 \<Rightarrow> heap \<Rightarrow> u64 option" where
  "list_next l h = do { n \<leftarrow> nxt h l; Some (if n \<noteq> l then n else 0) }"

definition list_insert :: "u64 \<Rightarrow> u64 \<Rightarrow> heap \<Rightarrow> heap option" where
  "list_insert new link h = do {
     p \<leftarrow> prv h link;
     let h = set_nxt new link (set_prv new p h);
     p \<leftarrow> prv h new;
     let h = set_nxt p new h;
     n \<leftarrow> nxt h new;
     Some (set_prv n new h) }"

definition list_append :: "u64 \<Rightarrow> u64 \<Rightarrow> heap \<Rightarrow> heap option" where
  "list_append new into h = list_insert new into h"

definition list_remove :: "u64 \<Rightarrow> heap \<Rightarrow> heap option" where
  "list_remove l h = do {
     p \<leftarrow> prv h l;
     n \<leftarrow> nxt h l;
     let h = set_nxt p n h;
     n \<leftarrow> nxt h l;
     p \<leftarrow> prv h l;
     let h = set_prv n p h;
     Some (set_prv l l (set_nxt l l h)) }"

section \<open>Caches\<close>

text \<open>The list heads of a cache; the list of full slabs is its first field.\<close>

abbreviation partial_head :: "u64 \<Rightarrow> u64" where "partial_head c \<equiv> c + 16"
abbreviation free_head :: "u64 \<Rightarrow> u64" where "free_head c \<equiv> c + 32"

definition slab_mem :: "Cache \<Rightarrow> u64" where
  "slab_mem C = SIZEOF_SLAB + objs_per_slab C * 4 + (ALLOC_ALIGNMENT - 1) + objs_per_slab C * objsize C"

definition cache_grow :: "u64 \<Rightarrow> heap \<Rightarrow> (int \<times> heap) option" where
  "cache_grow c h = do {
     C \<leftarrow> caches h c;
     let (addr, ps) = kernel_malloc (slab_mem C) (pages h);
     let h = h\<lparr> pages := ps \<rparr>;
     if addr = 0 then Some (-1, h)
     else do {
       let slab = \<lparr> s_cache = c, s_memory = ALIGN_UP (addr + SIZEOF_SLAB + objs_per_slab C * 4) ALLOC_ALIGNMENT,
         s_free = 0, s_bufctl = map of_nat [0..<unat (objs_per_slab C)] \<rparr>;
       let h = h\<lparr> caches := (caches h)(c \<mapsto> C\<lparr> totalobjs := totalobjs C + objs_per_slab C \<rparr>),
         slabs := (slabs h)(addr \<mapsto> slab) \<rparr>;
       h \<leftarrow> list_append addr (free_head c) h;
       Some (0, h) } }"

definition cache_select :: "u64 \<Rightarrow> heap \<Rightarrow> (u64 \<times> heap) option" where
  "cache_select c h = do {
     s \<leftarrow> list_next (partial_head c) h;
     if s \<noteq> 0 then Some (s, h)
     else do {
       s \<leftarrow> list_next (free_head c) h;
       if s \<noteq> 0 then Some (s, h)
       else do {
         (r, h) \<leftarrow> cache_grow c h;
         if r \<noteq> 0 then Some (0, h)
         else do { s \<leftarrow> list_next (free_head c) h; Some (s, h) } } } }"

definition move_slab :: "u64 \<Rightarrow> u64 \<Rightarrow> heap \<Rightarrow> heap option" where
  "move_slab s into h = do { h \<leftarrow> list_remove s h; list_append s into h }"

abbreviation put_slab :: "u64 \<Rightarrow> Slab \<Rightarrow> heap \<Rightarrow> heap" where
  "put_slab s S h \<equiv> h\<lparr> slabs := (slabs h)(s \<mapsto> S) \<rparr>"

abbreviation put_cache :: "u64 \<Rightarrow> Cache \<Rightarrow> heap \<Rightarrow> heap" where
  "put_cache c C h \<equiv> h\<lparr> caches := (caches h)(c \<mapsto> C) \<rparr>"

text \<open>Taking the next free object of a slab.\<close>

definition slab_take :: "u64 \<Rightarrow> u64 \<Rightarrow> heap \<Rightarrow> (u64 \<times> heap) option" where
  "slab_take c s h = do {
     S \<leftarrow> slabs h s;
     C \<leftarrow> caches h c;
     index \<leftarrow> idx (s_bufctl S) (unat (s_free S));
     let ptr = s_memory S + objsize C * ucast index;
     let h = put_slab s (S\<lparr> s_free := s_free S + 1 \<rparr>) h;
     h \<leftarrow> (if s_free S = 0 then move_slab s (partial_head c) h else Some h);
     h \<leftarrow> (if s_free S + 1 = objs_per_slab C then move_slab s c h else Some h);
     Some (ptr, put_cache c (C\<lparr> inuse := inuse C + 1 \<rparr>) h) }"

definition cache_alloc :: "u64 \<Rightarrow> heap \<Rightarrow> (u64 \<times> heap) option" where
  "cache_alloc c h = do {
     (s, h) \<leftarrow> cache_select c h;
     if s = 0 then Some (0, h) else slab_take c s h }"

definition slab_ptr_to_index :: "Cache \<Rightarrow> Slab \<Rightarrow> u64 \<Rightarrow> u64" where
  "slab_ptr_to_index C S p = (p - s_memory S) div objsize C"

text \<open>Giving an object back to the slab that holds it.\<close>

definition slab_release :: "u64 \<Rightarrow> u64 \<Rightarrow> Cache \<Rightarrow> Slab \<Rightarrow> u64 \<Rightarrow> heap \<Rightarrow> heap option" where
  "slab_release c s C S p h =
    (if s_free S = 0 then Some (h\<lparr> reports := reports h @ [(p, s)] \<rparr>)
     else do {
       let free = s_free S - 1;
       h \<leftarrow> (if s_free S = objs_per_slab C then move_slab s (partial_head c) h else Some h);
       h \<leftarrow> (if free = 0 then move_slab s (free_head c) h else Some h);
       ctl \<leftarrow> upd (s_bufctl S) (unat free) (ucast (slab_ptr_to_index C S p));
       Some (put_cache c (C\<lparr> inuse := inuse C - 1 \<rparr>) (put_slab s (S\<lparr> s_free := free, s_bufctl := ctl \<rparr>) h)) })"

partial_function (option) dealloc_loop :: "u64 \<Rightarrow> u64 \<Rightarrow> u64 \<Rightarrow> u64 \<Rightarrow> heap \<Rightarrow> (bool \<times> heap) option" where
  "dealloc_loop c first s p h = do {
     stop \<leftarrow> prv h first;
     if s = stop then Some (False, h)
     else do {
       S \<leftarrow> slabs h s;
       C \<leftarrow> caches h c;
       if p \<ge> s_memory S \<and> p < s_memory S + objsize C * objs_per_slab C
       then do { h \<leftarrow> slab_release c s C S p h; Some (True, h) }
       else do { n \<leftarrow> nxt h s; dealloc_loop c first n p h } } }"

definition cache_dealloc_within :: "u64 \<Rightarrow> u64 \<Rightarrow> u64 \<Rightarrow> heap \<Rightarrow> (bool \<times> heap) option" where
  "cache_dealloc_within c s p h = dealloc_loop c s s p h"

definition cache_dealloc :: "u64 \<Rightarrow> u64 \<Rightarrow> heap \<Rightarrow> heap option" where
  "cache_dealloc c p h = do {
     s \<leftarrow> list_next c h;
     (done, h) \<leftarrow> (if s \<noteq> 0 then cache_dealloc_within c s p h else Some (False, h));
     if done then Some h
     else do {
       s \<leftarrow> list_next (partial_head c) h;
       (_, h) \<leftarrow> (if s \<noteq> 0 then cache_dealloc_within c s p h else Some (False, h));
       Some h } }"

definition init_cache :: "u64 \<Rightarrow> u64 \<Rightarrow> heap \<Rightarrow> heap" where
  "init_cache c sz h =
    (let h = list_init (free_head c) (list_init c (list_init (partial_head c) h));
         osz = ALIGN_UP sz ALLOC_ALIGNMENT;
         n = (of_nat PAGE_SIZE - SIZEOF_SLAB) div (osz + 4)
     in put_cache c \<lparr> totalobjs = 0, inuse = 0, objsize = osz, objs_per_slab = (if n = 0 then 1 else n) \<rparr> h)"

definition create_new_cache :: "u64 \<Rightarrow> heap \<Rightarrow> (u64 \<times> heap) option" where
  "create_new_cache sz h = do {
     (c, h) \<leftarrow> cache_alloc (cache_cache h) h;
     if c = 0 then Some (0, h) else Some (c, init_cache c sz h) }"

section \<open>The allocator\<close>

text \<open>The loop that makes the eight caches of the sizes 32 to 4096.\<close>

primrec create_size_caches :: "nat list \<Rightarrow> u64 \<Rightarrow> heap \<Rightarrow> (int \<times> heap) option" where
  "create_size_caches [] sz h = Some (0, h)"
| "create_size_caches (i # js) sz h = do {
     (c, h) \<leftarrow> create_new_cache sz h;
     let h = h\<lparr> size_caches := list_update (size_caches h) i c \<rparr>;
     if c = 0 then Some (-1, h) else create_size_caches js (push_bit 1 sz) h }"

definition allocator_init :: "u64 \<Rightarrow> heap \<Rightarrow> (int \<times> heap) option" where
  "allocator_init endkernel h = do {
     let h = h\<lparr> pages := initAllocator endkernel (pages h) \<rparr>;
     if cache_cache h \<noteq> 0 then Some (0, h)
     else do {
       let (cc, ps) = kernel_malloc SIZEOF_CACHE (pages h);
       let h = h\<lparr> pages := ps, cache_cache := cc \<rparr>;
       if cc = 0 then Some (-1, h)
       else do {
         (r, h) \<leftarrow> cache_grow cc (init_cache cc SIZEOF_CACHE h);
         if r \<noteq> 0 then Some (-1, h) else create_size_caches [0..<8] KMALLOC_MIN h } } }"

primrec pick_from :: "u64 list \<Rightarrow> u64 \<Rightarrow> u64 \<Rightarrow> u64" where
  "pick_from [] sz tot = 0"
| "pick_from (c # cs) sz tot = (if tot \<le> sz then c else pick_from cs (push_bit 1 sz) tot)"

definition pick_cache_for_total :: "u64 \<Rightarrow> heap \<Rightarrow> u64" where
  "pick_cache_for_total tot h = pick_from (size_caches h) KMALLOC_MIN tot"

definition kmalloc :: "u64 \<Rightarrow> u64 \<Rightarrow> heap \<Rightarrow> (u64 \<times> heap) option" where
  "kmalloc endkernel sz h =
    (if sz = 0 then Some (0, h)
     else do {
       (r, h) \<leftarrow> (if cache_cache h = 0 then allocator_init endkernel h else Some (0, h));
       if r \<noteq> 0 then Some (0, h)
       else do {
         let tot = HDR_SIZE + sz;
         let c = pick_cache_for_total tot h;
         if c \<noteq> 0 then do {
           (obj, h) \<leftarrow> cache_alloc c h;
           if obj = 0 then Some (0, h)
           else Some (obj + HDR_SIZE, h\<lparr> hdrs := (hdrs h)(obj \<mapsto>
             \<lparr> h_magic = ALLOC_MAGIC, h_cache = c, h_raw_base = 0, h_raw_bytes = 0 \<rparr>) \<rparr>) }
         else do {
           let raw_bytes = tot + (ALLOC_ALIGNMENT - 1);
           let (raw, ps) = kernel_malloc raw_bytes (pages h);
           let h = h\<lparr> pages := ps \<rparr>;
           if raw = 0 then Some (0, h)
           else do {
             let user = ALIGN_UP (raw + HDR_SIZE) ALLOC_ALIGNMENT;
             Some (user, h\<lparr> hdrs := (hdrs h)(user - HDR_SIZE \<mapsto>
               \<lparr> h_magic = ALLOC_MAGIC, h_cache = 0, h_raw_base = raw, h_raw_bytes = raw_bytes \<rparr>) \<rparr>) } } } })"

definition kfree :: "u64 \<Rightarrow> heap \<Rightarrow> heap option" where
  "kfree ptr h =
    (if ptr = 0 then Some h
     else do {
       hdr \<leftarrow> hdrs h (ptr - HDR_SIZE);
       if h_magic hdr = ALLOC_MAGIC then
         (if h_cache hdr \<noteq> 0 then cache_dealloc (h_cache hdr) (ptr - HDR_SIZE) h
          else do { ps \<leftarrow> page_free (h_raw_base hdr) (pages h); Some (h\<lparr> pages := ps \<rparr>) })
       else do { ps \<leftarrow> page_free ptr (pages h); Some (h\<lparr> pages := ps \<rparr>) } })"

end
