(* ===== verification/Slab_Ring.thy ===== *)
theory Slab_Ring
  imports Slab
begin

text \<open>
  The circular lists of the slab allocator: a head and the cells behind it, in order. The list operations change
  exactly the ring they are called on.
\<close>

primrec chain :: "heap \<Rightarrow> u64 \<Rightarrow> u64 list \<Rightarrow> u64 \<Rightarrow> bool" where
  "chain h a [] b \<longleftrightarrow> nxt h a = Some b \<and> prv h b = Some a"
| "chain h a (x # xs) b \<longleftrightarrow> nxt h a = Some x \<and> prv h x = Some a \<and> chain h x xs b"

definition ring :: "heap \<Rightarrow> u64 \<Rightarrow> u64 list \<Rightarrow> bool" where
  "ring h l xs \<longleftrightarrow> distinct (l # xs) \<and> chain h l xs l"

text \<open>Only the pointers of the cells in \<open>A\<close> have changed.\<close>

definition relinked :: "u64 set \<Rightarrow> heap \<Rightarrow> heap \<Rightarrow> bool" where
  "relinked A h h' \<longleftrightarrow> (\<exists>N Q. h' = h\<lparr> nxt := N, prv := Q \<rparr> \<and> (\<forall>a. a \<notin> A \<longrightarrow> N a = nxt h a \<and> Q a = prv h a))"

lemma relinkedI: "(\<And>a. a \<notin> A \<Longrightarrow> N a = nxt h a \<and> Q a = prv h a) \<Longrightarrow> relinked A h (h\<lparr> nxt := N, prv := Q \<rparr>)"
  unfolding relinked_def by blast

lemma relinked_refl: "relinked A h h"
  using relinkedI [of A "nxt h" h "prv h"] by simp

lemma chain_append: "chain h a (xs @ y # ys) b \<longleftrightarrow> chain h a xs y \<and> chain h y ys b"
  by (induction xs arbitrary: a) auto

lemma chain_cong:
  "\<forall>x \<in> insert a (set xs). nxt h' x = nxt h x \<Longrightarrow> \<forall>x \<in> insert b (set xs). prv h' x = prv h x \<Longrightarrow> chain h' a xs b = chain h a xs b"
  by (induction xs arbitrary: a) auto

lemma ring_relinked: "relinked A h h' \<Longrightarrow> A \<inter> set (l # xs) = {} \<Longrightarrow> ring h' l xs = ring h l xs"
  unfolding relinked_def ring_def by (auto intro!: chain_cong arg_cong [where f = "(\<and>) _"])

lemma relinked_trans:
  assumes "relinked A h h'" "relinked B h' h''" "A \<union> B \<subseteq> D"
  shows "relinked D h h''"
proof -
  obtain N Q N' Q' where n: "h' = h\<lparr> nxt := N, prv := Q \<rparr>" "\<And>a. a \<notin> A \<Longrightarrow> N a = nxt h a \<and> Q a = prv h a"
    "h'' = h'\<lparr> nxt := N', prv := Q' \<rparr>" "\<And>a. a \<notin> B \<Longrightarrow> N' a = nxt h' a \<and> Q' a = prv h' a"
    using assms(1,2) unfolding relinked_def by auto
  have "h'' = h\<lparr> nxt := N', prv := Q' \<rparr>" using n(1,3) by simp
  moreover have "N' a = nxt h a \<and> Q' a = prv h a" if "a \<notin> D" for a
  proof -
    have "a \<notin> A" "a \<notin> B" using that assms(3) by auto
    then show ?thesis using n(1) n(2) [of a] n(4) [of a] by simp
  qed
  ultimately show ?thesis using relinkedI by metis
qed

lemma relinked_fields:
  "relinked A h h' \<Longrightarrow> pages h' = pages h \<and> caches h' = caches h \<and> slabs h' = slabs h \<and> hdrs h' = hdrs h \<and>
    cache_cache h' = cache_cache h \<and> size_caches h' = size_caches h \<and> reports h' = reports h"
  by (auto simp: relinked_def)

lemma ring_links [simp]: "ring (h\<lparr> nxt := nxt h2, prv := prv h2 \<rparr>) l xs = ring h2 l xs"
  unfolding ring_def by (auto intro!: chain_cong arg_cong [where f = "(\<and>) _"])

lemma ring_same: "nxt h' = nxt h \<Longrightarrow> prv h' = prv h \<Longrightarrow> ring h' l xs = ring h l xs"
  unfolding ring_def by (auto intro!: chain_cong arg_cong [where f = "(\<and>) _"])

lemma ring_first: "ring h l xs \<Longrightarrow> nxt h l = Some (case xs of [] \<Rightarrow> l | x # _ \<Rightarrow> x)"
  by (cases xs) (auto simp: ring_def)

lemma list_next_ring: "ring h l xs \<Longrightarrow> list_next l h = Some (case xs of [] \<Rightarrow> 0 | x # _ \<Rightarrow> x)"
  by (cases xs) (auto simp: ring_def list_next_def)

lemma ring_init: "ring (list_init l h) l []" "relinked {l} h (list_init l h)"
proof -
  show "ring (list_init l h) l []" by (simp add: ring_def list_init_def)
  show "relinked {l} h (list_init l h)" unfolding list_init_def by (rule relinkedI) simp
qed

lemma list_append_ring:
  assumes "ring h l xs" "new \<notin> set (l # xs)"
  shows "\<exists>h'. list_append new l h = Some h' \<and> ring h' l (xs @ [new]) \<and> relinked (insert new (set (l # xs))) h h'"
proof -
  define p where "p = last (l # xs)"
  have p: "p \<in> set (l # xs)" using last_in_set [of "l # xs"] by (simp only: p_def) simp
  let ?N = "(nxt h)(new \<mapsto> l, p \<mapsto> new)" and ?Q = "(prv h)(new \<mapsto> p, l \<mapsto> new)"
  let ?h = "h\<lparr> nxt := ?N, prv := ?Q \<rparr>"
  have pl: "prv h l = Some p \<and> ring ?h l (xs @ [new])"
  proof (cases xs rule: rev_cases)
    case Nil
    then show ?thesis using assms by (auto simp: ring_def p_def)
  next
    case (snoc zs z)
    have z: "p = z" "z \<noteq> new" "l \<noteq> z" "l \<noteq> new" using assms snoc by (auto simp: p_def ring_def)
    have c: "chain h l zs z" "nxt h z = Some l" "prv h l = Some z"
      using assms(1) snoc by (simp_all add: ring_def chain_append)
    have "chain ?h l zs z \<longleftrightarrow> chain h l zs z" using assms snoc z by (intro chain_cong) (auto simp: ring_def)
    then show ?thesis using assms snoc z c by (auto simp: ring_def chain_append)
  qed
  have "new \<noteq> l" "p \<noteq> new" using assms(2) p by auto
  then have "list_append new l h = Some ?h" using pl by (simp add: list_append_def list_insert_def)
  moreover have "relinked (insert new (set (l # xs))) h ?h" by (rule relinkedI) (use p in auto)
  ultimately show ?thesis using pl by blast
qed

lemma list_remove_ring:
  assumes "ring h l xs" "y \<in> set xs"
  shows "\<exists>h'. list_remove y h = Some h' \<and> ring h' l (remove1 y xs) \<and> relinked (set (l # xs)) h h'"
proof -
  obtain as bs where xs: "xs = as @ y # bs" using split_list [OF assms(2)] by blast
  define p where "p = last (l # as)"
  define n where "n = hd (bs @ [l])"
  have d: "distinct (l # as @ y # bs)" using assms(1) xs by (simp add: ring_def)
  have c: "chain h l as y" "chain h y bs l" using assms(1) xs by (simp_all add: ring_def chain_append)
  have pn: "prv h y = Some p" "nxt h y = Some n"
    using c by (cases as rule: rev_cases; cases bs; simp add: p_def n_def chain_append)+
  have pi: "p \<in> set (l # as)" "n \<in> set (bs @ [l])"
    using last_in_set [of "l # as"] hd_in_set [of "bs @ [l]"] by (simp_all only: p_def n_def) simp_all
  have ny: "p \<noteq> y" "n \<noteq> y" using pi d by auto
  let ?N = "(nxt h)(p \<mapsto> n, y \<mapsto> y)" and ?Q = "(prv h)(n \<mapsto> p, y \<mapsto> y)"
  let ?h = "h\<lparr> nxt := ?N, prv := ?Q \<rparr>"
  have run: "list_remove y h = Some ?h" using pn ny by (simp add: list_remove_def)
  have rel: "relinked (set (l # xs)) h ?h" by (rule relinkedI) (use pi xs in auto)
  have r1: "remove1 y xs = as @ bs" using d xs by (simp add: remove1_append)
  have front: "chain ?h l as' z" if "as = as' @ [z]" for as' z
  proof -
    have "chain h l as' z" using c(1) that by (simp add: chain_append)
    moreover have "chain ?h l as' z \<longleftrightarrow> chain h l as' z" using d pi that by (intro chain_cong) (auto simp: p_def n_def hd_append split: if_splits)
    ultimately show ?thesis by blast
  qed
  have rear: "chain ?h z bs' l" if "bs = z # bs'" for bs' z
  proof -
    have "chain h z bs' l" using c(2) that by simp
    moreover have "chain ?h z bs' l \<longleftrightarrow> chain h z bs' l" using d pi that by (intro chain_cong) (auto simp: p_def n_def)
    ultimately show ?thesis by blast
  qed
  have "chain ?h l (as @ bs) l"
  proof (cases as rule: rev_cases)
    case Nil
    then show ?thesis using d rear ny by (cases bs) (auto simp: p_def n_def)
  next
    case (snoc as' z)
    show ?thesis
    proof (cases bs)
      case Nil
      then show ?thesis using snoc front ny d by (auto simp: p_def n_def chain_append)
    next
      case (Cons w bs')
      then show ?thesis using snoc front rear ny d by (auto simp: p_def n_def chain_append)
    qed
  qed
  then show ?thesis using run rel r1 d by (auto simp: ring_def)
qed

lemma move_slab_ring:
  assumes "ring h l xs" "ring h m ys" "set (l # xs) \<inter> set (m # ys) = {}" "y \<in> set xs"
  shows "\<exists>h'. move_slab y m h = Some h' \<and> ring h' l (remove1 y xs) \<and> ring h' m (ys @ [y]) \<and>
    relinked (set (l # xs) \<union> set (m # ys)) h h'"
proof -
  obtain h1 where h1: "list_remove y h = Some h1" "ring h1 l (remove1 y xs)" "relinked (set (l # xs)) h h1"
    using list_remove_ring [OF assms(1,4)] by blast
  have m: "ring h1 m ys" using ring_relinked [OF h1(3) assms(3)] assms(2) by simp
  have "y \<notin> set (m # ys)" using assms(3,4) by auto
  then obtain h2 where h2: "list_append y m h1 = Some h2" "ring h2 m (ys @ [y])" "relinked (insert y (set (m # ys))) h1 h2"
    using list_append_ring [OF m] by blast
  have "distinct (l # xs)" using assms(1) by (simp add: ring_def)
  then have "insert y (set (m # ys)) \<inter> set (l # remove1 y xs) = {}"
    using assms(3,4) by auto
  then have "ring h2 l (remove1 y xs)" using ring_relinked [OF h2(3)] h1(2) by blast
  moreover have "relinked (set (l # xs) \<union> set (m # ys)) h h2"
    by (rule relinked_trans [OF h1(3) h2(3)]) (use assms(4) in auto)
  ultimately show ?thesis using h1(1) h2(1,2) by (simp add: move_slab_def)
qed

text \<open>The three lists of a cache.\<close>

definition rings :: "heap \<Rightarrow> u64 \<Rightarrow> u64 list \<Rightarrow> u64 list \<Rightarrow> u64 list \<Rightarrow> bool" where
  "rings h c F P E \<longleftrightarrow> distinct ([c, c + 16, c + 32] @ F @ P @ E) \<and> ring h c F \<and> ring h (c + 16) P \<and> ring h (c + 32) E"

abbreviation ring_cells :: "u64 \<Rightarrow> u64 list \<Rightarrow> u64 list \<Rightarrow> u64 list \<Rightarrow> u64 set" where
  "ring_cells c F P E \<equiv> set ([c, c + 16, c + 32] @ F @ P @ E)"

lemma relinked_mono: "relinked A h h' \<Longrightarrow> A \<subseteq> B \<Longrightarrow> relinked B h h'"
  unfolding relinked_def by blast

lemma rings_move:
  assumes r: "rings h c F P E"
  shows "s \<in> set E \<Longrightarrow> \<exists>h'. move_slab s (c + 16) h = Some h' \<and> rings h' c F (P @ [s]) (remove1 s E) \<and> relinked (ring_cells c F P E) h h'"
    "s \<in> set P \<Longrightarrow> \<exists>h'. move_slab s c h = Some h' \<and> rings h' c (F @ [s]) (remove1 s P) E \<and> relinked (ring_cells c F P E) h h'"
    "s \<in> set F \<Longrightarrow> \<exists>h'. move_slab s (c + 16) h = Some h' \<and> rings h' c (remove1 s F) (P @ [s]) E \<and> relinked (ring_cells c F P E) h h'"
    "s \<in> set P \<Longrightarrow> \<exists>h'. move_slab s (c + 32) h = Some h' \<and> rings h' c F (remove1 s P) (E @ [s]) \<and> relinked (ring_cells c F P E) h h'"
proof -
  have d: "distinct ([c, c + 16, c + 32] @ F @ P @ E)" and R: "ring h c F" "ring h (c + 16) P" "ring h (c + 32) E"
    using r by (simp_all add: rings_def)
  have move: "\<exists>h'. move_slab s m h = Some h' \<and> ring h' l (remove1 s xs) \<and> ring h' m (ys @ [s]) \<and> ring h' k zs \<and> relinked (ring_cells c F P E) h h'"
    if "ring h l xs" "ring h m ys" "ring h k zs" "set (l # xs) \<inter> set (m # ys) = {}" "(set (l # xs) \<union> set (m # ys)) \<inter> set (k # zs) = {}" "s \<in> set xs"
      "set (l # xs) \<union> set (m # ys) \<subseteq> ring_cells c F P E" for l m k xs ys zs
    using move_slab_ring [OF that(1,2,4,6)] ring_relinked [OF _ that(5)] that(3,7) relinked_mono by blast
  show "\<exists>h'. move_slab s (c + 16) h = Some h' \<and> rings h' c F (P @ [s]) (remove1 s E) \<and> relinked (ring_cells c F P E) h h'" if "s \<in> set E"
    using move [OF R(3,2,1)] that d by (auto simp: rings_def distinct_remove1)
  show "\<exists>h'. move_slab s c h = Some h' \<and> rings h' c (F @ [s]) (remove1 s P) E \<and> relinked (ring_cells c F P E) h h'" if "s \<in> set P"
    using move [OF R(2,1,3)] that d by (auto simp: rings_def distinct_remove1)
  show "\<exists>h'. move_slab s (c + 16) h = Some h' \<and> rings h' c (remove1 s F) (P @ [s]) E \<and> relinked (ring_cells c F P E) h h'" if "s \<in> set F"
    using move [OF R(1,2,3)] that d by (auto simp: rings_def distinct_remove1)
  show "\<exists>h'. move_slab s (c + 32) h = Some h' \<and> rings h' c F (remove1 s P) (E @ [s]) \<and> relinked (ring_cells c F P E) h h'" if "s \<in> set P"
    using move [OF R(2,3,1)] that d by (auto simp: rings_def distinct_remove1)
qed

end
