(* ===== verification/Slab_Inv.thy ===== *)
theory Slab_Inv
  imports Slab_Ring
begin

text \<open>
  The invariant of the slab allocator and what keeps it: where slabs and their objects lie in the allocated pages,
  which objects are in use, and that the lists of a cache hold exactly its slabs, sorted by how full they are.
\<close>

section \<open>Runs of pages\<close>

definition pg_ok :: "page_state \<Rightarrow> bool" where
  "pg_ok ps \<longleftrightarrow> pa_inv ps \<and> base_ok ps \<and> 4096 dvd unat (first_page ps)"

text \<open>An allocated run of \<open>n\<close> pages from page \<open>q\<close> on, at address \<open>a\<close>.\<close>

definition run :: "page_state \<Rightarrow> nat \<Rightarrow> nat \<Rightarrow> u64 \<Rightarrow> bool" where
  "run ps q n a \<longleftrightarrow> allocs ps q = Some n \<and> a = page_addr ps q"

lemma run_facts:
  assumes "pg_ok ps" "run ps q n a"
  shows "0 < n" "q + n \<le> total_pages" "unat a = q * 4096 + unat (first_page ps)" "a \<noteq> 0" "4096 dvd unat a"
    "unat a + n * 4096 < 2 ^ 64"
proof -
  have q: "q < total_pages" "0 < page_len ps q" "n = page_len ps q" using assms(2) by (auto simp: run_def allocs_def split: if_splits)
  show "0 < n" using q by simp
  show le: "q + n \<le> total_pages" using pa_invD(4) [of ps q] assms(1) q by (simp add: pg_ok_def)
  show u: "unat a = q * 4096 + unat (first_page ps)"
    using unat_page_addr [of ps q] assms q by (simp add: pg_ok_def run_def PAGE_SIZE_def)
  show "a \<noteq> 0" using page_addr_nonnull [of ps q] assms q by (simp add: pg_ok_def run_def)
  show "4096 dvd unat a" using u assms(1) by (simp add: pg_ok_def)
  show "unat a + n * 4096 < 2 ^ 64" using u le assms(1) by (simp add: pg_ok_def base_ok_def layout_simps)
qed

lemma run_apart:
  assumes "pg_ok ps" "run ps q n a" "run ps q' n' a'" "a \<noteq> a'"
  shows "unat a + n * 4096 \<le> unat a' \<or> unat a' + n' * 4096 \<le> unat a"
proof -
  have "q \<noteq> q'" using assms(2-4) by (auto simp: run_def)
  moreover have "q < total_pages" "q' < total_pages" "n = page_len ps q" "n' = page_len ps q'" "0 < n" "0 < n'"
    using assms(2,3) by (auto simp: run_def allocs_def split: if_splits)
  moreover have "pa_inv ps" using assms(1) by (simp add: pg_ok_def)
  ultimately have "q + n \<le> q' \<or> q' + n' \<le> q" using pa_invD(6) [of ps q q'] pa_invD(6) [of ps q' q] by (cases "q < q'") auto
  then show ?thesis using run_facts(3) [OF assms(1,2)] run_facts(3) [OF assms(1,3)] by auto
qed

lemma run_unique: "pg_ok ps \<Longrightarrow> run ps q n a \<Longrightarrow> run ps q' n' a \<Longrightarrow> q = q' \<and> n = n'"
  using run_facts(3) [of ps q n a] run_facts(3) [of ps q' n' a] by (auto simp: run_def)

text \<open>\<open>kernel_malloc\<close> adds a run, or changes nothing.\<close>

lemma kernel_malloc_cases:
  assumes "pg_ok ps" "0 < unat m" "unat m \<le> PHYSICAL_MEMORY_SIZE"
  obtains (none) "kernel_malloc m ps = (0, ps)" "\<And>p. \<not> fits_at (allocs ps) (pages_for (unat m)) p"
  | (some) q n ps' a where "kernel_malloc m ps = (a, ps')" "run ps' q n a" "unat m \<le> n * 4096" "pg_ok ps'" "a \<noteq> 0"
      "allocs ps q = None" "\<And>q n a. run ps q n a \<Longrightarrow> run ps' q n a" "\<And>q' n' a'. run ps' q' n' a' \<Longrightarrow> q' = q \<or> run ps q' n' a'"
      "n = pages_for (unat m)"
proof -
  let ?n = "pages_for (unat m)"
  have u: "unat ((m + 4095) div 4096) = ?n"
  proof -
    have "unat (m + 4095) = unat m + 4095" using assms(3) by (subst unat_add_no_wrap) (auto simp: layout_simps)
    then show ?thesis by (simp add: unat_div_distrib pages_for_def layout_simps)
  qed
  have n: "0 < ?n" "?n \<le> total_pages" using pages_for_bounds assms by auto
  have sz: "unat ((m + 4095) div 4096 * 4096) = ?n * 4096" using u n by (subst unat_mult_no_wrap) (auto simp: layout_simps)
  have pf: "pages_for (?n * 4096) = ?n" by (simp add: pages_for_def layout_simps)
  have km: "kernel_malloc m ps = kalloc ((m + 4095) div 4096 * 4096) ps" by (simp add: kernel_malloc_def page_alloc_def)
  have bnd: "0 < (m + 4095) div 4096 * 4096" "unat ((m + 4095) div 4096 * 4096) \<le> PHYSICAL_MEMORY_SIZE"
    using sz n by (simp_all add: word_less_nat_alt layout_simps)
  have inv: "pa_inv ps" "base_ok ps" using assms(1) by (simp_all add: pg_ok_def)
  show ?thesis
  proof (rule kalloc_cases [OF bnd, of ps])
    assume k: "kalloc ((m + 4095) div 4096 * 4096) ps = (0, ps)"
      and "\<forall>p. p + pages_for (unat ((m + 4095) div 4096 * 4096)) \<le> total_pages \<longrightarrow>
        \<not> free_run (bitmap ps) (pages_for (unat ((m + 4095) div 4096 * 4096))) p"
    then have "\<forall>p. p + ?n \<le> total_pages \<longrightarrow> \<not> free_run (bitmap ps) ?n p" unfolding sz pf by blast
    then have "\<not> fits_at (allocs ps) ?n p" for p using free_run_iff_fits [OF inv(1) n(1), of p] by (auto simp: fits_at_def)
    then show thesis using none k km by simp
  next
    fix p assume "kalloc ((m + 4095) div 4096 * 4096) ps = (page_addr ps p, grant p (pages_for (unat ((m + 4095) div 4096 * 4096))) ps)"
      "p + pages_for (unat ((m + 4095) div 4096 * 4096)) \<le> total_pages"
      "free_run (bitmap ps) (pages_for (unat ((m + 4095) div 4096 * 4096))) p"
    then have k: "kalloc ((m + 4095) div 4096 * 4096) ps = (page_addr ps p, grant p ?n ps)" "p + ?n \<le> total_pages" "free_run (bitmap ps) ?n p"
      unfolding sz pf by auto
    let ?ps = "grant p ?n ps"
    have al: "allocs ?ps = (allocs ps)(p \<mapsto> ?n)" by (rule allocs_grant [OF inv(1) k(2) n(1)])
    have fit: "fits_at (allocs ps) ?n p" using free_run_iff_fits [OF inv(1) n(1) k(2)] k(3) by simp
    have new: "allocs ps p = None"
    proof (cases "allocs ps p")
      case (Some m)
      then have "0 < m" "p + m \<le> p \<or> p + ?n \<le> p" using fit by (auto simp: fits_at_def allocs_def split: if_splits)
      then show ?thesis using n(1) by simp
    qed
    have ok: "pg_ok ?ps" using assms(1) pa_inv_grant [OF inv(1) k(2) n(1) k(3)] by (simp add: pg_ok_def)
    show thesis
    proof (rule some [of "page_addr ps p" ?ps p ?n])
      show "kernel_malloc m ps = (page_addr ps p, ?ps)" using k(1) km by simp
      show "run ?ps p ?n (page_addr ps p)" using al by (simp add: run_def)
      show "unat m \<le> ?n * 4096" by (simp add: pages_for_def layout_simps)
      show "pg_ok ?ps" by (rule ok)
      show "page_addr ps p \<noteq> 0" using page_addr_nonnull [OF inv(2), of p] k(2) n(1) by simp
      show "allocs ps p = None" by (rule new)
      show "run ?ps q' n' a'" if "run ps q' n' a'" for q' n' a' using that al new by (auto simp: run_def)
      show "q' = p \<or> run ps q' n' a'" if "run ?ps q' n' a'" for q' n' a' using that al by (auto simp: run_def split: if_splits)
    qed (rule refl)
  qed
qed

section \<open>Where objects lie\<close>

lemma ALIGN_UP_16:
  assumes "unat x + 15 < 2 ^ 64"
  shows "unat (ALIGN_UP x 16) = (unat x + 15) div 16 * 16"
proof -
  have u: "unat (x + 15) = unat x + 15" using assms by (subst unat_add_no_wrap) auto
  have "ALIGN_UP x 16 = push_bit 4 (drop_bit 4 (x + 15))"
    using and_not_mask [of "x + 15" 4] by (simp add: ALIGN_UP_def mask_eq_exp_minus_1)
  then have w: "ALIGN_UP x 16 = (x + 15) div 16 * 16" by (simp add: push_bit_eq_mult drop_bit_eq_div)
  have d: "unat ((x + 15) div 16) = (unat x + 15) div 16" using u by (simp add: unat_div_distrib)
  have "(unat x + 15) div 16 * 16 \<le> unat x + 15" by simp
  then have "unat ((x + 15) div 16) * unat (16 :: u64) < 2 ^ LENGTH(64)" using d assms by simp
  then have "unat ((x + 15) div 16 * 16) = unat ((x + 15) div 16) * unat (16 :: u64)" by (rule unat_mult_no_wrap)
  then show ?thesis using w d by simp
qed

abbreviation osz :: "Cache \<Rightarrow> nat" where "osz C \<equiv> unat (objsize C)"
abbreviation nobj :: "Cache \<Rightarrow> nat" where "nobj C \<equiv> unat (objs_per_slab C)"

definition cache_wf :: "Cache \<Rightarrow> bool" where
  "cache_wf C \<longleftrightarrow> 0 < nobj C \<and> 0 < osz C \<and> 16 dvd osz C \<and> 55 + nobj C * 4 + nobj C * osz C \<le> 8192"

lemma cache_wf_bounds: "cache_wf C \<Longrightarrow> nobj C \<le> 2048 \<and> osz C \<le> 8192 \<and> nobj C * osz C \<le> 8192"
proof -
  assume w: "cache_wf C"
  then have "osz C \<le> nobj C * osz C" "nobj C \<le> nobj C * osz C" by (simp_all add: cache_wf_def)
  then show ?thesis using w unfolding cache_wf_def by linarith
qed

lemma unat_slab_mem:
  assumes "cache_wf C"
  shows "unat (slab_mem C) = 55 + nobj C * 4 + nobj C * osz C"
proof -
  note b = cache_wf_bounds [OF assms]
  have 1: "unat (objs_per_slab C * 4) = nobj C * 4" using b by (subst unat_mult_no_wrap) auto
  have 2: "unat (objs_per_slab C * objsize C) = nobj C * osz C" using b by (subst unat_mult_no_wrap) auto
  have 3: "unat (40 + objs_per_slab C * 4) = 40 + nobj C * 4" using 1 b by (subst unat_add_no_wrap) auto
  have 4: "unat (40 + objs_per_slab C * 4 + 15) = 40 + nobj C * 4 + 15" using 3 b by (subst unat_add_no_wrap) auto
  have "unat (40 + objs_per_slab C * 4 + 15 + objs_per_slab C * objsize C) = 40 + nobj C * 4 + 15 + nobj C * osz C"
    using 2 4 b by (subst unat_add_no_wrap) auto
  then show ?thesis by (simp add: slab_mem_def SIZEOF_SLAB_def ALLOC_ALIGNMENT_def)
qed

text \<open>A slab of a cache, at its place in memory. The entries of \<open>bufctl\<close> from \<open>free\<close> on are the free objects.\<close>

definition free_objs :: "Slab \<Rightarrow> u32 list" where
  "free_objs S = drop (unat (s_free S)) (s_bufctl S)"

definition slab_at :: "page_state \<Rightarrow> u64 \<Rightarrow> Cache \<Rightarrow> Slab \<Rightarrow> u64 \<Rightarrow> bool" where
  "slab_at ps c C S s \<longleftrightarrow> s_cache S = c \<and> (\<exists>q n. run ps q n s \<and> unat (slab_mem C) \<le> n * 4096) \<and>
     s_memory S = ALIGN_UP (s + 40 + objs_per_slab C * 4) 16 \<and>
     length (s_bufctl S) = nobj C \<and> unat (s_free S) \<le> nobj C \<and>
     distinct (free_objs S) \<and> (\<forall>i \<in> set (free_objs S). unat i < nobj C)"

definition obj_addr :: "Cache \<Rightarrow> Slab \<Rightarrow> nat \<Rightarrow> u64" where
  "obj_addr C S i = s_memory S + objsize C * of_nat i"

lemma slab_memory:
  assumes "pg_ok ps" "cache_wf C" "slab_at ps c C S s"
  shows "unat s + 40 + nobj C * 4 \<le> unat (s_memory S)" "unat (s_memory S) \<le> unat s + 55 + nobj C * 4" "16 dvd unat (s_memory S)"
proof -
  obtain q n where r: "run ps q n s" "55 + nobj C * 4 + nobj C * osz C \<le> n * 4096"
    using assms(3) unat_slab_mem [OF assms(2)] by (auto simp: slab_at_def)
  note f = run_facts [OF assms(1) r(1)]
  note b = cache_wf_bounds [OF assms(2)]
  have 1: "unat (objs_per_slab C * 4) = nobj C * 4" using b by (subst unat_mult_no_wrap) auto
  have 2: "unat (s + 40) = unat s + 40" using f r(2) by (subst unat_add_no_wrap) auto
  have 3: "unat (s + 40 + objs_per_slab C * 4) = unat s + 40 + nobj C * 4" using 1 2 f r(2) by (subst unat_add_no_wrap) auto
  have "unat s + 40 + nobj C * 4 + 15 < 2 ^ 64" using f(6) r(2) by linarith
  then have m: "unat (s_memory S) = (unat s + 40 + nobj C * 4 + 15) div 16 * 16"
    using ALIGN_UP_16 [of "s + 40 + objs_per_slab C * 4"] 3 assms(3) by (simp add: slab_at_def)
  show "16 dvd unat (s_memory S)" by (simp add: m)
  show "unat s + 40 + nobj C * 4 \<le> unat (s_memory S)" "unat (s_memory S) \<le> unat s + 55 + nobj C * 4" unfolding m by linarith+
qed

lemma slab_objects:
  assumes "pg_ok ps" "cache_wf C" "slab_at ps c C S s" "run ps q n s" "i < nobj C"
  shows "unat (obj_addr C S i) = unat (s_memory S) + osz C * i" "unat s + 40 \<le> unat (obj_addr C S i)"
    "unat (obj_addr C S i) + osz C \<le> unat s + n * 4096" "16 dvd unat (obj_addr C S i)"
    "unat (s_memory S + objsize C * objs_per_slab C) = unat (s_memory S) + osz C * nobj C"
proof -
  obtain q' n' where r: "run ps q' n' s" "55 + nobj C * 4 + nobj C * osz C \<le> n' * 4096"
    using assms(3) unat_slab_mem [OF assms(2)] by (auto simp: slab_at_def)
  have n: "n' = n" using run_unique [OF assms(1) r(1) assms(4)] by simp
  note f = run_facts [OF assms(1) r(1)]
  note m = slab_memory [OF assms(1-3)]
  have le: "osz C * i + osz C \<le> osz C * nobj C" using mult_le_mono2 [of "Suc i" "nobj C" "osz C"] assms(5) by simp
  have c: "nobj C * osz C = osz C * nobj C" by simp
  note b = cache_wf_bounds [OF assms(2)]
  have 0: "unat (of_nat i :: u64) = i" using assms(5) b by (intro unat_le_of_nat) simp
  have 1: "unat (objsize C * of_nat i) = osz C * i" using 0 le b c by (subst unat_mult_no_wrap) auto
  show u: "unat (obj_addr C S i) = unat (s_memory S) + osz C * i"
    unfolding obj_addr_def using 1 le m(2) f(6) r(2) c by (subst unat_add_no_wrap) auto
  show "unat s + 40 \<le> unat (obj_addr C S i)" using u m(1) by simp
  show "unat (obj_addr C S i) + osz C \<le> unat s + n * 4096" using u m(2) le r(2) c n by linarith
  show "16 dvd unat (obj_addr C S i)" using u m(3) assms(2) by (simp add: cache_wf_def)
  have 2: "unat (objsize C * objs_per_slab C) = osz C * nobj C" using b c by (subst unat_mult_no_wrap) auto
  show "unat (s_memory S + objsize C * objs_per_slab C) = unat (s_memory S) + osz C * nobj C"
    using 2 m(2) f(6) r(2) c by (subst unat_add_no_wrap) auto
qed

section \<open>The invariant\<close>

text \<open>The slabs of every cache, sorted by how full they are.\<close>

record shape =
  fullS :: "u64 \<Rightarrow> u64 list"
  partialS :: "u64 \<Rightarrow> u64 list"
  freeS :: "u64 \<Rightarrow> u64 list"

definition slabs_of :: "shape \<Rightarrow> u64 \<Rightarrow> u64 list" where
  "slabs_of sh c = fullS sh c @ partialS sh c @ freeS sh c"

definition cells :: "shape \<Rightarrow> u64 \<Rightarrow> u64 list" where
  "cells sh c = [c, c + 16, c + 32] @ slabs_of sh c"

definition slab_in :: "heap \<Rightarrow> u64 \<Rightarrow> Cache \<Rightarrow> (nat \<Rightarrow> bool) \<Rightarrow> u64 \<Rightarrow> bool" where
  "slab_in h c C P s \<longleftrightarrow> (\<exists>S. slabs h s = Some S \<and> slab_at (pages h) c C S s \<and> P (unat (s_free S)))"

definition cache_inv :: "shape \<Rightarrow> heap \<Rightarrow> u64 \<Rightarrow> bool" where
  "cache_inv sh h c \<longleftrightarrow> (\<exists>C. caches h c = Some C \<and> cache_wf C \<and>
     ring h c (fullS sh c) \<and> ring h (c + 16) (partialS sh c) \<and> ring h (c + 32) (freeS sh c) \<and>
     (\<forall>s \<in> set (fullS sh c). slab_in h c C (\<lambda>f. f = nobj C) s) \<and>
     (\<forall>s \<in> set (partialS sh c). slab_in h c C (\<lambda>f. 0 < f \<and> f < nobj C) s) \<and>
     (\<forall>s \<in> set (freeS sh c). slab_in h c C (\<lambda>f. f = 0) s))"

definition used_obj :: "shape \<Rightarrow> heap \<Rightarrow> u64 \<Rightarrow> u64 \<Rightarrow> bool" where
  "used_obj sh h c a \<longleftrightarrow> (\<exists>s \<in> set (slabs_of sh c). \<exists>S C i. slabs h s = Some S \<and> caches h c = Some C \<and>
     i < nobj C \<and> i \<notin> unat ` set (free_objs S) \<and> a = obj_addr C S i)"

text \<open>\<open>cc\<close> is the cache of caches and \<open>Cs\<close> are the caches it holds.\<close>

definition cells_apart :: "shape \<Rightarrow> u64 set \<Rightarrow> bool" where
  "cells_apart sh K \<longleftrightarrow> (\<forall>c \<in> K. distinct (cells sh c)) \<and>
     (\<forall>c \<in> K. \<forall>c' \<in> K. c \<noteq> c' \<longrightarrow> set (cells sh c) \<inter> set (cells sh c') = {})"

definition heap_inv :: "shape \<Rightarrow> u64 \<Rightarrow> u64 list \<Rightarrow> heap \<Rightarrow> bool" where
  "heap_inv sh cc Cs h \<longleftrightarrow> pg_ok (pages h) \<and> distinct (cc # Cs) \<and> cells_apart sh (set (cc # Cs)) \<and>
     (\<forall>c \<in> set (cc # Cs). cache_inv sh h c) \<and> (\<exists>q n. run (pages h) q n cc) \<and>
     (\<forall>c \<in> set Cs. used_obj sh h cc c) \<and> (\<forall>C. caches h cc = Some C \<longrightarrow> osz C = 80)"

text \<open>What everybody else may rely on when the allocator works on one cache.\<close>

definition evolves :: "u64 set \<Rightarrow> shape \<Rightarrow> heap \<Rightarrow> shape \<Rightarrow> heap \<Rightarrow> bool" where
  "evolves K sh h sh' h' \<longleftrightarrow>
     (\<forall>q n a. run (pages h) q n a \<longrightarrow> run (pages h') q n a) \<and>
     hdrs h' = hdrs h \<and> cache_cache h' = cache_cache h \<and> size_caches h' = size_caches h \<and> reports h' = reports h \<and>
     (\<forall>c C. caches h c = Some C \<longrightarrow> (\<exists>C'. caches h' c = Some C' \<and> objsize C' = objsize C \<and> objs_per_slab C' = objs_per_slab C)) \<and>
     (\<forall>c \<in> K. \<forall>s \<in> set (slabs_of sh' c). s \<in> set (slabs_of sh c) \<or> (\<forall>q n. \<not> run (pages h) q n s))"

lemma evolvesD:
  assumes "evolves K sh h sh' h'"
  shows "\<And>q n a. run (pages h) q n a \<Longrightarrow> run (pages h') q n a"
    and "hdrs h' = hdrs h" "cache_cache h' = cache_cache h" "size_caches h' = size_caches h" "reports h' = reports h"
    and "\<And>c C. caches h c = Some C \<Longrightarrow> \<exists>C'. caches h' c = Some C' \<and> objsize C' = objsize C \<and> objs_per_slab C' = objs_per_slab C"
    and "\<And>c s. c \<in> K \<Longrightarrow> s \<in> set (slabs_of sh' c) \<Longrightarrow> s \<in> set (slabs_of sh c) \<or> (\<forall>q n. \<not> run (pages h) q n s)"
  using assms by (simp_all add: evolves_def)

lemma evolves_refl: "evolves K sh h sh h"
  by (simp add: evolves_def)

lemma evolves_trans:
  assumes a: "evolves K sh h sh1 h1" and b: "evolves K sh1 h1 sh2 h2"
  shows "evolves K sh h sh2 h2"
proof -
  have "\<exists>C'. caches h2 c = Some C' \<and> objsize C' = objsize C \<and> objs_per_slab C' = objs_per_slab C" if c: "caches h c = Some C" for c C
  proof -
    obtain C1 where C1: "caches h1 c = Some C1" "objsize C1 = objsize C" "objs_per_slab C1 = objs_per_slab C"
      using evolvesD(6) [OF a c] by blast
    then show ?thesis using evolvesD(6) [OF b C1(1)] by simp
  qed
  moreover have "s \<in> set (slabs_of sh c) \<or> (\<forall>q n. \<not> run (pages h) q n s)" if "c \<in> K" "s \<in> set (slabs_of sh2 c)" for c s
    using evolvesD(7) [OF b that] evolvesD(7) [OF a that(1), of s] evolvesD(1) [OF a] by blast
  moreover note evolvesD(1-5) [OF a] evolvesD(1-5) [OF b]
  ultimately show ?thesis unfolding evolves_def by simp
qed

lemma slab_at_mono:
  assumes "slab_at ps c C S s" "\<And>q n a. run ps q n a \<Longrightarrow> run ps' q n a"
    and "objsize C' = objsize C" "objs_per_slab C' = objs_per_slab C"
  shows "slab_at ps' c C' S s"
proof -
  have m: "slab_mem C' = slab_mem C" using assms(3,4) by (simp add: slab_mem_def)
  obtain q n where r: "run ps q n s" "unat (slab_mem C) \<le> n * 4096" using assms(1) by (auto simp: slab_at_def)
  have "run ps' q n s" by (rule assms(2) [OF r(1)])
  then show ?thesis using assms(1,3,4) m r(2) unfolding slab_at_def by auto
qed

lemma cache_wf_same: "objsize C' = objsize C \<Longrightarrow> objs_per_slab C' = objs_per_slab C \<Longrightarrow> cache_wf C' = cache_wf C"
  by (simp add: cache_wf_def)

text \<open>Frame: a cache whose cells, slabs and counters are left alone keeps its invariant.\<close>

lemma slab_in_frame:
  assumes "slab_in h c C P s" "slabs h' s = slabs h s" "\<And>q n a. run (pages h) q n a \<Longrightarrow> run (pages h') q n a"
    and "objsize C' = objsize C" "objs_per_slab C' = objs_per_slab C"
  shows "slab_in h' c C' P s"
  using assms(1,2) slab_at_mono [OF _ assms(3-5)] unfolding slab_in_def by auto

lemma cache_inv_frame:
  assumes inv: "cache_inv sh h c" and A: "A \<inter> set (cells sh c) = {}"
    and links: "\<And>a. a \<notin> A \<Longrightarrow> nxt h' a = nxt h a \<and> prv h' a = prv h a"
    and slabs: "\<And>s. s \<notin> A \<Longrightarrow> slabs h' s = slabs h s" and cache: "caches h' c = caches h c"
    and runs: "\<And>q n a. run (pages h) q n a \<Longrightarrow> run (pages h') q n a"
    and shape: "fullS sh' c = fullS sh c" "partialS sh' c = partialS sh c" "freeS sh' c = freeS sh c"
  shows "cache_inv sh' h' c"
proof -
  obtain C where C: "caches h c = Some C" "cache_wf C" "ring h c (fullS sh c)" "ring h (c + 16) (partialS sh c)" "ring h (c + 32) (freeS sh c)"
      "\<forall>s \<in> set (fullS sh c). slab_in h c C (\<lambda>f. f = nobj C) s"
      "\<forall>s \<in> set (partialS sh c). slab_in h c C (\<lambda>f. 0 < f \<and> f < nobj C) s"
      "\<forall>s \<in> set (freeS sh c). slab_in h c C (\<lambda>f. f = 0) s"
    using inv unfolding cache_inv_def by blast
  have out: "c \<notin> A" "c + 16 \<notin> A" "c + 32 \<notin> A" "\<And>s. s \<in> set (slabs_of sh c) \<Longrightarrow> s \<notin> A" using A by (auto simp: cells_def)
  have r: "ring h' l xs" if "ring h l xs" "l \<notin> A" "set xs \<inter> A = {}" for l xs
  proof -
    have "chain h' l xs l = chain h l xs l" by (rule chain_cong) (use that links in auto)
    then show ?thesis using that(1) by (simp add: ring_def)
  qed
  have f: "slab_in h' c C P s" if "slab_in h c C P s" "s \<in> set (slabs_of sh c)" for P s
    using slab_in_frame [OF that(1) slabs [OF out(4) [OF that(2)]] runs] by simp
  have lists: "set (fullS sh c) \<subseteq> set (slabs_of sh c)" "set (partialS sh c) \<subseteq> set (slabs_of sh c)" "set (freeS sh c) \<subseteq> set (slabs_of sh c)"
    by (auto simp: slabs_of_def)
  have "ring h' c (fullS sh c)" "ring h' (c + 16) (partialS sh c)" "ring h' (c + 32) (freeS sh c)"
    using r [OF C(3)] r [OF C(4)] r [OF C(5)] out lists by blast+
  moreover have "\<forall>s \<in> set (fullS sh c). slab_in h' c C (\<lambda>f. f = nobj C) s"
      "\<forall>s \<in> set (partialS sh c). slab_in h' c C (\<lambda>f. 0 < f \<and> f < nobj C) s"
      "\<forall>s \<in> set (freeS sh c). slab_in h' c C (\<lambda>f. f = 0) s"
    using C(6-8) f lists by blast+
  moreover have "caches h' c = Some C" using C(1) cache by simp
  ultimately show ?thesis unfolding cache_inv_def shape using C(2) by blast
qed

lemma used_obj_frame:
  assumes "used_obj sh h c a" "\<And>s. s \<in> set (slabs_of sh c) \<Longrightarrow> s \<in> set (slabs_of sh' c)"
    and "\<And>s S. s \<in> set (slabs_of sh c) \<Longrightarrow> slabs h s = Some S \<Longrightarrow> \<exists>S'. slabs h' s = Some S' \<and> s_memory S' = s_memory S \<and> set (free_objs S') \<subseteq> set (free_objs S)"
    and "\<And>C. caches h c = Some C \<Longrightarrow> \<exists>C'. caches h' c = Some C' \<and> objsize C' = objsize C \<and> objs_per_slab C' = objs_per_slab C"
  shows "used_obj sh' h' c a"
proof -
  obtain s S C i where u: "s \<in> set (slabs_of sh c)" "slabs h s = Some S" "caches h c = Some C" "i < nobj C" "i \<notin> unat ` set (free_objs S)" "a = obj_addr C S i"
    using assms(1) by (auto simp: used_obj_def)
  obtain S' where S': "slabs h' s = Some S'" "s_memory S' = s_memory S" "set (free_objs S') \<subseteq> set (free_objs S)" using assms(3) [OF u(1,2)] by blast
  obtain C' where C': "caches h' c = Some C'" "objsize C' = objsize C" "objs_per_slab C' = objs_per_slab C" using assms(4) [OF u(3)] by blast
  have "i \<notin> unat ` set (free_objs S')" using S'(3) u(5) by auto
  moreover have "a = obj_addr C' S' i" using u(6) S'(2) C'(2) by (simp add: obj_addr_def)
  ultimately show ?thesis using assms(2) [OF u(1)] S'(1) C' u(4) unfolding used_obj_def by auto
qed

section \<open>Steps on one cache\<close>

lemma heap_invD:
  assumes "heap_inv sh cc Cs h"
  shows "pg_ok (pages h)" "distinct (cc # Cs)" "cells_apart sh (set (cc # Cs))" "\<And>c. c \<in> set (cc # Cs) \<Longrightarrow> cache_inv sh h c"
    "\<exists>q n. run (pages h) q n cc" "\<And>c. c \<in> set Cs \<Longrightarrow> used_obj sh h cc c" "\<And>C. caches h cc = Some C \<Longrightarrow> osz C = 80"
  using assms unfolding heap_inv_def by blast+

lemma cells_apartD:
  assumes "cells_apart sh K"
  shows "c \<in> K \<Longrightarrow> distinct (cells sh c)" "c \<in> K \<Longrightarrow> c' \<in> K \<Longrightarrow> c \<noteq> c' \<Longrightarrow> set (cells sh c) \<inter> set (cells sh c') = {}"
  using assms by (auto simp: cells_apart_def)

text \<open>A step that works on the cells of one cache, and perhaps on fresh ones, keeps the invariant of the whole heap.\<close>

lemma heap_inv_step:
  assumes inv: "heap_inv sh cc Cs h" and c: "c \<in> set (cc # Cs)" and pg: "pg_ok (pages h')"
    and own: "cache_inv sh' h' c" "distinct (cells sh' c)" "set (cells sh' c) \<subseteq> set (cells sh c) \<union> X"
    and fresh: "\<And>d. d \<in> set (cc # Cs) \<Longrightarrow> X \<inter> set (cells sh d) = {}"
    and shape: "\<And>d. d \<noteq> c \<Longrightarrow> fullS sh' d = fullS sh d \<and> partialS sh' d = partialS sh d \<and> freeS sh' d = freeS sh d"
    and same: "\<And>a. a \<notin> set (cells sh c) \<union> X \<Longrightarrow> nxt h' a = nxt h a \<and> prv h' a = prv h a \<and> slabs h' a = slabs h a"
    and caches: "\<And>d. d \<noteq> c \<Longrightarrow> caches h' d = caches h d"
    and runs: "\<And>q n a. run (pages h) q n a \<Longrightarrow> run (pages h') q n a"
    and size: "\<And>C. caches h' cc = Some C \<Longrightarrow> osz C = 80"
    and used: "\<And>a. a \<in> set Cs \<Longrightarrow> used_obj sh h cc a \<Longrightarrow> used_obj sh' h' cc a"
  shows "heap_inv sh' cc Cs h'"
proof -
  note d = heap_invD [OF inv]
  note ap = cells_apartD [OF d(3)]
  have cl: "cells sh' e = cells sh e" if "e \<noteq> c" for e using shape [OF that] by (simp add: cells_def slabs_of_def)
  have disj: "(set (cells sh c) \<union> X) \<inter> set (cells sh e) = {}" if "e \<in> set (cc # Cs)" "e \<noteq> c" for e
    using ap(2) [OF c that(1)] fresh [OF that(1)] that(2) by auto
  have "cells_apart sh' (set (cc # Cs))"
  proof -
    have "distinct (cells sh' e)" if "e \<in> set (cc # Cs)" for e using ap(1) [OF that] own(2) cl [of e] by (cases "e = c") auto
    moreover have "set (cells sh' e) \<inter> set (cells sh' e') = {}" if ee: "e \<in> set (cc # Cs)" "e' \<in> set (cc # Cs)" "e \<noteq> e'" for e e'
    proof -
      consider "e = c" "e' \<noteq> c" | "e' = c" "e \<noteq> c" | "e \<noteq> c" "e' \<noteq> c" using ee(3) by blast
      then show ?thesis
      proof cases
        case 1
        then show ?thesis using disj [OF ee(2)] own(3) cl [of e'] by (simp only: 1 cl) blast
      next
        case 2
        then show ?thesis using disj [OF ee(1)] own(3) cl [of e] by (simp only: 2 cl) blast
      next
        case 3
        then show ?thesis using cl ap(2) [OF ee] by simp
      qed
    qed
    ultimately show ?thesis by (simp add: cells_apart_def)
  qed
  moreover have "cache_inv sh' h' e" if "e \<in> set (cc # Cs)" for e
  proof (cases "e = c")
    case False
    show ?thesis
      by (rule cache_inv_frame [OF d(4) [OF that] disj [OF that False]]) (use same caches False runs shape in auto)
  qed (use own(1) in simp)
  moreover have "\<exists>q n. run (pages h') q n cc" using d(5) runs by blast
  ultimately show ?thesis using pg d(2,6) size used unfolding heap_inv_def by blast
qed

text \<open>The invariant of a cache one of whose slabs, \<open>s\<close>, has changed and perhaps moved to another list.\<close>

lemma cache_inv_reclass:
  assumes inv: "cache_inv sh h c" "caches h c = Some C"
    and C': "caches h' c = Some C'" "objsize C' = objsize C" "objs_per_slab C' = objs_per_slab C"
    and rings: "ring h' c (fullS sh' c)" "ring h' (c + 16) (partialS sh' c)" "ring h' (c + 32) (freeS sh' c)"
    and sub: "set (fullS sh' c) - {s} \<subseteq> set (fullS sh c)" "set (partialS sh' c) - {s} \<subseteq> set (partialS sh c)" "set (freeS sh' c) - {s} \<subseteq> set (freeS sh c)"
    and others: "\<And>x. x \<noteq> s \<Longrightarrow> slabs h' x = slabs h x" and runs: "\<And>q n a. run (pages h) q n a \<Longrightarrow> run (pages h') q n a"
    and S': "slabs h' s = Some S'" "slab_at (pages h') c C S' s"
    and cls: "s \<in> set (fullS sh' c) \<Longrightarrow> unat (s_free S') = nobj C" "s \<in> set (partialS sh' c) \<Longrightarrow> 0 < unat (s_free S') \<and> unat (s_free S') < nobj C"
      "s \<in> set (freeS sh' c) \<Longrightarrow> unat (s_free S') = 0"
  shows "cache_inv sh' h' c"
proof -
  have old: "cache_wf C" "\<forall>s \<in> set (fullS sh c). slab_in h c C (\<lambda>f. f = nobj C) s"
      "\<forall>s \<in> set (partialS sh c). slab_in h c C (\<lambda>f. 0 < f \<and> f < nobj C) s" "\<forall>s \<in> set (freeS sh c). slab_in h c C (\<lambda>f. f = 0) s"
    using inv unfolding cache_inv_def by auto
  have at: "slab_at (pages h') c C' S' s" by (rule slab_at_mono [OF S'(2) _ C'(2,3)])
  have n: "nobj C' = nobj C" using C'(3) by simp
  have f: "slab_in h' c C' P x" if "slab_in h c C P x" "x \<noteq> s" for P x
    by (rule slab_in_frame [OF that(1) others [OF that(2)] runs C'(2,3)])
  have me: "slab_in h' c C' P s" if "P (unat (s_free S'))" for P using that at S'(1) unfolding slab_in_def by blast
  have "slab_in h' c C' (\<lambda>f. f = nobj C) x" if "x \<in> set (fullS sh' c)" for x
  proof (cases "x = s")
    case True
    then show ?thesis using me [of "\<lambda>f. f = nobj C"] cls(1) that by simp
  qed (use that f old(2) sub(1) in blast)
  moreover have "slab_in h' c C' (\<lambda>f. 0 < f \<and> f < nobj C) x" if "x \<in> set (partialS sh' c)" for x
  proof (cases "x = s")
    case True
    then show ?thesis using me [of "\<lambda>f. 0 < f \<and> f < nobj C"] cls(2) that by simp
  qed (use that f old(3) sub(2) in blast)
  moreover have "slab_in h' c C' (\<lambda>f. f = 0) x" if "x \<in> set (freeS sh' c)" for x
  proof (cases "x = s")
    case True
    then show ?thesis using me [of "\<lambda>f. f = 0"] cls(3) that by simp
  qed (use that f old(4) sub(3) in blast)
  moreover have "cache_wf C'" using cache_wf_same [OF C'(2,3)] old(1) by simp
  ultimately show ?thesis using C'(1) rings unfolding cache_inv_def by (intro exI [of _ C']) (simp add: n)
qed

end
