(* ===== verification/Slab_Ops.thy ===== *)
theory Slab_Ops
  imports Slab_Inv
begin

text \<open>
  The operations on a cache keep the invariant: growing by a slab, taking an object, giving one back.
\<close>

section \<open>Places in memory\<close>

lemma slab_of_cache:
  assumes "heap_inv sh cc Cs h" "c \<in> set (cc # Cs)" "s \<in> set (slabs_of sh c)"
  obtains S C q n where "slabs h s = Some S" "caches h c = Some C" "cache_wf C" "slab_at (pages h) c C S s" "run (pages h) q n s"
proof -
  obtain C where C: "caches h c = Some C" "cache_wf C" "\<forall>s \<in> set (fullS sh c). slab_in h c C (\<lambda>f. f = nobj C) s"
      "\<forall>s \<in> set (partialS sh c). slab_in h c C (\<lambda>f. 0 < f \<and> f < nobj C) s" "\<forall>s \<in> set (freeS sh c). slab_in h c C (\<lambda>f. f = 0) s"
    using heap_invD(4) [OF assms(1,2)] unfolding cache_inv_def by auto
  then obtain P where "slab_in h c C P s" using assms(3) unfolding slabs_of_def by auto
  then obtain S where S: "slabs h s = Some S" "slab_at (pages h) c C S s" by (auto simp: slab_in_def)
  obtain q n where "run (pages h) q n s" using S(2) unfolding slab_at_def by blast
  then show thesis using that S C by blast
qed

lemma used_place:
  assumes "heap_inv sh cc Cs h" "c \<in> set (cc # Cs)" "used_obj sh h c a"
  obtains s S C i q n where "s \<in> set (slabs_of sh c)" "slabs h s = Some S" "caches h c = Some C" "cache_wf C" "slab_at (pages h) c C S s"
    "run (pages h) q n s" "i < nobj C" "i \<notin> unat ` set (free_objs S)" "a = obj_addr C S i"
    "unat s + 40 \<le> unat a" "unat a + osz C \<le> unat s + n * 4096" "16 dvd unat a"
proof -
  obtain s S C i where u: "s \<in> set (slabs_of sh c)" "slabs h s = Some S" "caches h c = Some C" "i < nobj C" "i \<notin> unat ` set (free_objs S)" "a = obj_addr C S i"
    using assms(3) by (auto simp: used_obj_def)
  obtain q n where r: "cache_wf C" "slab_at (pages h) c C S s" "run (pages h) q n s"
    using slab_of_cache [OF assms(1,2) u(1)] u(2,3) by (metis option.inject)
  note o = slab_objects [OF heap_invD(1) [OF assms(1)] r u(4)]
  show thesis using that [OF u(1-3) r(1-3) u(4-6)] o(2-4) u(6) by simp
qed

text \<open>Every list cell lies in an allocated run.\<close>

lemma heads_near:
  assumes "unat (c :: u64) + 80 \<le> 2 ^ 64"
  shows "unat (c + 16) = unat c + 16" "unat (c + 32) = unat c + 32"
  using assms by (auto intro!: unat_add_no_wrap [THEN trans])

lemma cells_in_runs:
  assumes inv: "heap_inv sh cc Cs h" and c: "c \<in> set (cc # Cs)" and a: "a \<in> set (cells sh c)"
  shows "\<exists>q n b. run (pages h) q n b \<and> unat b \<le> unat a \<and> unat a < unat b + n * 4096"
proof -
  note d = heap_invD [OF inv]
  have "\<exists>q n b. run (pages h) q n b \<and> unat b \<le> unat c \<and> unat c + 80 \<le> unat b + n * 4096"
  proof (cases "c = cc")
    case True
    then obtain q n where r: "run (pages h) q n c" using d(5) by blast
    then show ?thesis using run_facts(1) [OF d(1) r] by (intro exI [of _ q] exI [of _ n] exI [of _ c]) auto
  next
    case False
    then have "c \<in> set Cs" using c by simp
    from used_place [OF inv _ d(6) [OF this]] d(7) show ?thesis by (metis add_leD1 list.set_intros(1))
  qed
  then obtain q n b where b: "run (pages h) q n b" "unat b \<le> unat c" "unat c + 80 \<le> unat b + n * 4096" by blast
  have "unat c + 80 \<le> 2 ^ 64" using b(3) run_facts(6) [OF d(1) b(1)] by linarith
  note u = heads_near [OF this]
  show ?thesis
  proof (cases "a \<in> set (slabs_of sh c)")
    case True
    then obtain q n where r: "run (pages h) q n a" using slab_of_cache [OF inv c] by metis
    then show ?thesis using run_facts(1) [OF d(1) r] by (intro exI [of _ q] exI [of _ n] exI [of _ a]) auto
  next
    case False
    then have "a = c \<or> a = c + 16 \<or> a = c + 32" using a by (auto simp: cells_def)
    then show ?thesis using b u by (intro exI [of _ q] exI [of _ n] exI [of _ b]) auto
  qed
qed

lemma objects_differ:
  assumes pg: "pg_ok ps" and w: "cache_wf C" "cache_wf C'"
    and at: "slab_at ps c C S s" "slab_at ps c' C' S' s'" "run ps q n s" "run ps q' n' s'"
    and i: "i < nobj C" "i' < nobj C'" and ne: "s \<noteq> s'"
  shows "unat (obj_addr C S i) + osz C \<le> unat (obj_addr C' S' i') \<or> unat (obj_addr C' S' i') + osz C' \<le> unat (obj_addr C S i)"
proof -
  note o = slab_objects [OF pg w(1) at(1,3) i(1)] slab_objects [OF pg w(2) at(2,4) i(2)]
  show ?thesis using o(2,3,7,8) run_apart [OF pg at(3,4) ne] by linarith
qed

lemma objects_differ_same:
  assumes pg: "pg_ok ps" and w: "cache_wf C" and at: "slab_at ps c C S s" "run ps q n s" and i: "i < nobj C" "i' < nobj C" "i \<noteq> i'"
  shows "unat (obj_addr C S i) + osz C \<le> unat (obj_addr C S i') \<or> unat (obj_addr C S i') + osz C \<le> unat (obj_addr C S i)"
proof -
  note o = slab_objects(1) [OF pg w at i(1)] slab_objects(1) [OF pg w at i(2)]
  have "osz C * i + osz C \<le> osz C * i' \<or> osz C * i' + osz C \<le> osz C * i"
    using mult_le_mono2 [of "Suc i" i' "osz C"] mult_le_mono2 [of "Suc i'" i "osz C"] i(3) by (cases "i < i'") auto
  then show ?thesis using o by linarith
qed

text \<open>An object is determined by its address.\<close>

lemma object_unique:
  assumes inv: "heap_inv sh cc Cs h" and c: "c \<in> set (cc # Cs)" "caches h c = Some C"
    and s: "s \<in> set (slabs_of sh c)" "slabs h s = Some S" "i < nobj C" and s': "s' \<in> set (slabs_of sh c)" "slabs h s' = Some S'" "i' < nobj C"
    and eq: "obj_addr C S i = obj_addr C S' i'"
  shows "s = s' \<and> i = i'"
proof -
  obtain q n where r: "cache_wf C" "slab_at (pages h) c C S s" "run (pages h) q n s"
    using slab_of_cache [OF inv c(1) s(1)] s(2) c(2) by (metis option.inject)
  obtain q' n' where r': "slab_at (pages h) c C S' s'" "run (pages h) q' n' s'"
    using slab_of_cache [OF inv c(1) s'(1)] s'(2) c(2) by (metis option.inject)
  have pos: "0 < osz C" using r(1) by (simp add: cache_wf_def)
  have ss: "s = s'"
  proof (rule ccontr)
    assume "s \<noteq> s'"
    from objects_differ [OF heap_invD(1) [OF inv] r(1,1,2) r'(1) r(3) r'(2) s(3) s'(3) this] show False using eq pos by simp
  qed
  then have SS: "S' = S" using s(2) s'(2) by simp
  have "i = i'"
  proof (rule ccontr)
    assume "i \<noteq> i'"
    from objects_differ_same [OF heap_invD(1) [OF inv] r s(3) s'(3) this] show False using eq pos SS by simp
  qed
  then show ?thesis using ss by simp
qed

section \<open>Growing\<close>

text \<open>What the users of objects see of a step: nothing that was in use becomes free.\<close>

definition keeps_used :: "u64 set \<Rightarrow> shape \<Rightarrow> heap \<Rightarrow> shape \<Rightarrow> heap \<Rightarrow> bool" where
  "keeps_used K sh h sh' h' \<longleftrightarrow> (\<forall>c \<in> K. \<forall>a. used_obj sh h c a \<longrightarrow> used_obj sh' h' c a)"

text \<open>And what the allocator itself accounts for: no slab leaves its cache, a new run of pages is a slab, and only the
  objects in \<open>N\<close> come into use.\<close>

definition accounts :: "u64 set \<Rightarrow> (u64 \<times> u64) set \<Rightarrow> shape \<Rightarrow> heap \<Rightarrow> shape \<Rightarrow> heap \<Rightarrow> bool" where
  "accounts K N sh h sh' h' \<longleftrightarrow>
     (\<forall>c \<in> K. set (slabs_of sh c) \<subseteq> set (slabs_of sh' c)) \<and>
     (\<forall>q n a. run (pages h') q n a \<longrightarrow> run (pages h) q n a \<or> (\<exists>c \<in> K. a \<in> set (slabs_of sh' c))) \<and>
     (\<forall>c \<in> K. \<forall>a. used_obj sh' h' c a \<longrightarrow> used_obj sh h c a \<or> (c, a) \<in> N)"

lemma accountsD:
  assumes "accounts K N sh h sh' h'"
  shows "\<And>c s. c \<in> K \<Longrightarrow> s \<in> set (slabs_of sh c) \<Longrightarrow> s \<in> set (slabs_of sh' c)"
    and "\<And>q n a. run (pages h') q n a \<Longrightarrow> run (pages h) q n a \<or> (\<exists>c \<in> K. a \<in> set (slabs_of sh' c))"
    and "\<And>c a. c \<in> K \<Longrightarrow> used_obj sh' h' c a \<Longrightarrow> used_obj sh h c a \<or> (c, a) \<in> N"
  using assms unfolding accounts_def by blast+

lemma accounts_refl: "accounts K N sh h sh h"
  by (simp add: accounts_def)

lemma accounts_trans:
  assumes a: "accounts K N sh h sh1 h1" and b: "accounts K N' sh1 h1 sh2 h2"
  shows "accounts K (N \<union> N') sh h sh2 h2"
  unfolding accounts_def
proof (intro conjI ballI allI impI)
  show "set (slabs_of sh c) \<subseteq> set (slabs_of sh2 c)" if "c \<in> K" for c
    using accountsD(1) [OF a that] accountsD(1) [OF b that] by blast
  show "run (pages h) q n x \<or> (\<exists>c \<in> K. x \<in> set (slabs_of sh2 c))" if "run (pages h2) q n x" for q n x
    using accountsD(2) [OF b that] accountsD(2) [OF a, of q n x] accountsD(1) [OF b] by blast
  show "used_obj sh h c x \<or> (c, x) \<in> N \<union> N'" if "c \<in> K" "used_obj sh2 h2 c x" for c x
    using accountsD(3) [OF b that] accountsD(3) [OF a that(1), of x] by blast
qed

text \<open>An object in use after a step was in use before when its slab is an old one and its cache is shaped as before.\<close>

lemma used_obj_back:
  assumes "used_obj sh' h' c a" "caches h c = Some C" "\<And>C'. caches h' c = Some C' \<Longrightarrow> objsize C' = objsize C \<and> objs_per_slab C' = objs_per_slab C"
  obtains s S i where "s \<in> set (slabs_of sh' c)" "slabs h' s = Some S" "i < nobj C" "i \<notin> unat ` set (free_objs S)" "a = obj_addr C S i"
proof -
  obtain s S C' i where "s \<in> set (slabs_of sh' c)" "slabs h' s = Some S" "caches h' c = Some C'" "i < nobj C'" "i \<notin> unat ` set (free_objs S)" "a = obj_addr C' S i"
    using assms(1) by (auto simp: used_obj_def)
  then show thesis using that [of s S i] assms(3) [of C'] by (simp add: obj_addr_def)
qed

lemma new_slab_at:
  assumes "run ps q n s" "unat (slab_mem C) \<le> n * 4096" "cache_wf C"
  shows "slab_at ps c C \<lparr> s_cache = c, s_memory = ALIGN_UP (s + SIZEOF_SLAB + objs_per_slab C * 4) ALLOC_ALIGNMENT,
    s_free = 0, s_bufctl = map of_nat [0..<nobj C] \<rparr> s"
proof -
  have b: "nobj C \<le> 2048" using cache_wf_bounds [OF assms(3)] by simp
  have u: "unat (of_nat i :: u32) = i" if "i < nobj C" for i using that b by (intro unat_le_of_nat) simp
  have "inj_on (of_nat :: nat \<Rightarrow> u32) {0..<nobj C}" by (rule inj_on_inverseI [where g = unat]) (use u in simp)
  then show ?thesis using assms(1,2) u unfolding slab_at_def free_objs_def
    by (auto simp: SIZEOF_SLAB_def ALLOC_ALIGNMENT_def distinct_map)
qed

lemma cache_grow_ok:
  assumes inv: "heap_inv sh cc Cs h" and c: "c \<in> set (cc # Cs)"
  obtains (none) "cache_grow c h = Some (-1, h)" "\<And>C p. caches h c = Some C \<Longrightarrow> \<not> fits_at (allocs (pages h)) (pages_for (unat (slab_mem C))) p"
  | (some) s h' where "cache_grow c h = Some (0, h')" "heap_inv (sh\<lparr> freeS := (freeS sh)(c := freeS sh c @ [s]) \<rparr>) cc Cs h'" "s \<noteq> 0"
      "evolves (set (cc # Cs)) sh h (sh\<lparr> freeS := (freeS sh)(c := freeS sh c @ [s]) \<rparr>) h'"
      "keeps_used (set (cc # Cs)) sh h (sh\<lparr> freeS := (freeS sh)(c := freeS sh c @ [s]) \<rparr>) h'"
      "accounts (set (cc # Cs)) {} sh h (sh\<lparr> freeS := (freeS sh)(c := freeS sh c @ [s]) \<rparr>) h'"
      "\<And>t. t \<noteq> s \<Longrightarrow> slabs h' t = slabs h t" "\<exists>S. slabs h' s = Some S \<and> free_objs S = map of_nat [0..<length (free_objs S)] \<and> length (free_objs S) = nobj (the (caches h c))"
      "\<And>C. caches h c = Some C \<Longrightarrow> \<exists>q. \<forall>x j. allocs (pages h') x = Some j \<longrightarrow> allocs (pages h) x = Some j \<or> x = q \<and> j = pages_for (unat (slab_mem C))"
proof -
  note d = heap_invD [OF inv]
  obtain C where C: "caches h c = Some C" "cache_wf C" "ring h c (fullS sh c)" "ring h (c + 16) (partialS sh c)" "ring h (c + 32) (freeS sh c)"
    using d(4) [OF c] unfolding cache_inv_def by blast
  have m: "0 < unat (slab_mem C)" "unat (slab_mem C) \<le> PHYSICAL_MEMORY_SIZE"
    using unat_slab_mem [OF C(2)] C(2) by (simp_all add: cache_wf_def layout_simps)
  show thesis
  proof (cases rule: kernel_malloc_cases [OF d(1) m])
    case 1
    have "cache_grow c h = Some (-1, h)" using 1(1) C(1) by (simp add: cache_grow_def)
    then show ?thesis by (rule none) (use 1(2) C(1) in auto)
  next
    case (2 q n ps s)
    let ?slab = "\<lparr> s_cache = c, s_memory = ALIGN_UP (s + SIZEOF_SLAB + objs_per_slab C * 4) ALLOC_ALIGNMENT, s_free = 0, s_bufctl = map of_nat [0..<nobj C] \<rparr>"
    let ?C = "C\<lparr> totalobjs := totalobjs C + objs_per_slab C \<rparr>"
    let ?h = "h\<lparr> pages := ps, caches := (caches h)(c \<mapsto> ?C), slabs := (slabs h)(s \<mapsto> ?slab) \<rparr>"
    let ?sh = "sh\<lparr> freeS := (freeS sh)(c := freeS sh c @ [s]) \<rparr>"
    have nr: "\<not> run (pages h) q' n' s" for q' n'
    proof
      assume r: "run (pages h) q' n' s"
      have "q' = q" using run_unique [OF 2(4) 2(7) [OF r] 2(2)] by simp
      then show False using r 2(6) by (simp add: run_def)
    qed
    have fresh: "s \<notin> set (cells sh e)" if e: "e \<in> set (cc # Cs)" for e
    proof
      assume "s \<in> set (cells sh e)"
      then obtain q' n' b where b: "run (pages h) q' n' b" "unat b \<le> unat s" "unat s < unat b + n' * 4096"
        using cells_in_runs [OF inv e] by blast
      have "b \<noteq> s" using b(1) nr by auto
      then show False using run_apart [OF 2(4) 2(7) [OF b(1)] 2(2)] b(2,3) run_facts(1) [OF 2(4,2)] by auto
    qed
    have "ring ?h (c + 32) (freeS sh c)" using C(5) ring_same [of ?h h] by simp
    moreover have "s \<notin> set ((c + 32) # freeS sh c)" using fresh [OF c] by (auto simp: cells_def slabs_of_def)
    ultimately obtain h' where h': "list_append s (c + 32) ?h = Some h'" "ring h' (c + 32) (freeS sh c @ [s])"
        "relinked (insert s (set ((c + 32) # freeS sh c))) ?h h'"
      using list_append_ring by blast
    note rf = relinked_fields [OF h'(3)]
    have run: "cache_grow c h = Some (0, h')" using C(1) 2(1,5) h'(1) by (simp add: cache_grow_def)
    have links: "nxt h' a = nxt h a \<and> prv h' a = prv h a" if "a \<notin> insert s (set ((c + 32) # freeS sh c))" for a
      using h'(3) that unfolding relinked_def by auto
    note ap = cells_apartD(1) [OF d(3) c]
    have "insert s (set ((c + 32) # freeS sh c)) \<inter> set (c # fullS sh c) = {}" "insert s (set ((c + 32) # freeS sh c)) \<inter> set ((c + 16) # partialS sh c) = {}"
      using ap fresh [OF c] by (auto simp: cells_def slabs_of_def)
    then have rings: "ring h' c (fullS sh c)" "ring h' (c + 16) (partialS sh c)"
      using ring_relinked [OF h'(3)] C(3,4) ring_same [of ?h h] by simp_all
    have at: "slab_at ps c C ?slab s" using new_slab_at [OF 2(2,3) C(2)] .
    have ci: "cache_inv ?sh h' c"
      by (rule cache_inv_reclass [OF d(4) [OF c] C(1), where C' = ?C and s = s and S' = ?slab])
        (use rf rings h'(2) at 2(7) fresh [OF c] in \<open>auto simp: cells_def slabs_of_def\<close>)
    have same: "caches h' e = caches h e" if "e \<noteq> c" for e using rf that by simp
    have slabs': "slabs h' = (slabs h)(s \<mapsto> ?slab)" using rf by simp
    have ku: "keeps_used (set (cc # Cs)) sh h ?sh h'"
    proof -
      have "used_obj ?sh h' e a" if "e \<in> set (cc # Cs)" "used_obj sh h e a" for e a
      proof (rule used_obj_frame [OF that(2)])
        show "\<exists>S'. slabs h' t = Some S' \<and> s_memory S' = s_memory S \<and> set (free_objs S') \<subseteq> set (free_objs S)"
          if "t \<in> set (slabs_of sh e)" "slabs h t = Some S" for t S
          using that fresh [OF \<open>e \<in> set (cc # Cs)\<close>] slabs' by (auto simp: cells_def)
        show "\<exists>C''. caches h' e = Some C'' \<and> objsize C'' = objsize D \<and> objs_per_slab C'' = objs_per_slab D" if "caches h e = Some D" for D
          using that rf C(1) by (cases "e = c") auto
      qed (auto simp: slabs_of_def)
      then show ?thesis by (simp add: keeps_used_def)
    qed
    have hi: "heap_inv ?sh cc Cs h'"
    proof (rule heap_inv_step [OF inv c _ ci, where X = "{s}"])
      show "osz D = 80" if "caches h' cc = Some D" for D using that rf d(7) C(1) by (cases "cc = c") auto
    qed (use 2(4,7) rf fresh ap fresh [OF c] links same slabs' ku in \<open>auto simp: cells_def slabs_of_def keeps_used_def\<close>)
    have ev: "evolves (set (cc # Cs)) sh h ?sh h'"
      using rf 2(7) nr C(1) by (auto simp: evolves_def slabs_of_def)
    have "allocs (pages h) x = Some j \<or> x = q \<and> j = pages_for (unat (slab_mem C))" if "allocs (pages h') x = Some j" for x j
    proof -
      have x: "run ps x j (page_addr ps x)" using that rf by (simp add: run_def)
      then show ?thesis using 2(8) [OF x] 2(2,9) by (auto simp: run_def)
    qed
    then have pa: "\<exists>q. \<forall>x j. allocs (pages h') x = Some j \<longrightarrow> allocs (pages h) x = Some j \<or> x = q \<and> j = pages_for (unat (slab_mem D))"
      if "caches h c = Some D" for D using that C(1) by auto
    have ac: "accounts (set (cc # Cs)) {} sh h ?sh h'"
      unfolding accounts_def
    proof (intro conjI ballI allI impI)
      show "set (slabs_of sh e) \<subseteq> set (slabs_of ?sh e)" for e by (auto simp: slabs_of_def)
      show "run (pages h) q' n' a \<or> (\<exists>e \<in> set (cc # Cs). a \<in> set (slabs_of ?sh e))" if "run (pages h') q' n' a" for q' n' a
      proof -
        have r: "run ps q' n' a" using that rf by simp
        then have "a = s" if "q' = q" using that 2(2) by (auto simp: run_def)
        then show ?thesis using 2(8) [OF r] c by (auto simp: slabs_of_def)
      qed
      show "used_obj sh h e a \<or> (e, a) \<in> {}" if e: "e \<in> set (cc # Cs)" "used_obj ?sh h' e a" for e a
      proof -
        obtain D where D: "caches h e = Some D" using d(4) [OF e(1)] by (auto simp: cache_inv_def)
        obtain t T i where u: "t \<in> set (slabs_of ?sh e)" "slabs h' t = Some T" "i < nobj D" "i \<notin> unat ` set (free_objs T)" "a = obj_addr D T i"
          by (rule used_obj_back [OF e(2) D]) (use rf D C(1) in \<open>cases "e = c"; auto\<close>)
        have ts: "t \<noteq> s"
        proof
          assume t: "t = s"
          then have ec: "e = c" using u(1) fresh [OF e(1)] by (auto simp: slabs_of_def cells_def split: if_splits)
          have "\<exists>x \<in> set (free_objs T). unat x = i"
          proof
            have "T = ?slab" using u(2) t slabs' by simp
            then show "of_nat i \<in> set (free_objs T)" using u(3) ec D C(1) by (auto simp: free_objs_def)
            show "unat (of_nat i :: u32) = i" using u(3) ec D C(1) cache_wf_bounds [OF C(2)] by (intro unat_le_of_nat) simp
          qed
          then show False using u(4) by blast
        qed
        then have "t \<in> set (slabs_of sh e)" "slabs h t = Some T" using u(1,2) slabs' by (auto simp: slabs_of_def split: if_splits)
        then show ?thesis using u(3-5) D unfolding used_obj_def by blast
      qed
    qed
    show thesis
      by (rule some [OF run hi 2(5) ev ku ac]) (use slabs' C(1) pa in \<open>auto simp: free_objs_def\<close>)
  qed
qed

section \<open>Taking an object\<close>

text \<open>A slab of the cache has at most \<open>k\<close> objects in use.\<close>

definition room :: "nat \<Rightarrow> shape \<Rightarrow> heap \<Rightarrow> u64 \<Rightarrow> bool" where
  "room k sh h c \<longleftrightarrow> (\<exists>s \<in> set (slabs_of sh c). \<exists>S. slabs h s = Some S \<and> unat (s_free S) \<le> k)"

definition take_lists :: "u64 list \<Rightarrow> u64 list \<Rightarrow> u64 list \<Rightarrow> u64 \<Rightarrow> bool \<Rightarrow> u64 list \<times> u64 list \<times> u64 list" where
  "take_lists F P E s full =
    (let P1 = (if s \<in> set E then P @ [s] else P)
     in (if full then F @ [s] else F, if full then remove1 s P1 else P1, remove1 s E))"

lemma take_lists_sets:
  assumes "distinct (F @ P @ E)" "s \<in> set (P @ E)" "take_lists F P E s full = (F', P', E')"
  shows "set F' = set F \<union> (if full then {s} else {})" "set P' = (if full then set P - {s} else set P \<union> {s})" "set E' = set E - {s}"
proof -
  have l: "F' = (if full then F @ [s] else F)" "P' = (if full then remove1 s (if s \<in> set E then P @ [s] else P) else if s \<in> set E then P @ [s] else P)" "E' = remove1 s E"
    using assms(3) by (simp_all add: take_lists_def Let_def split: if_splits)
  show "set F' = set F \<union> (if full then {s} else {})" by (simp add: l(1))
  show "set E' = set E - {s}" using assms(1) by (simp add: l(3) set_remove1_eq)
  have "distinct (if s \<in> set E then P @ [s] else P)" using assms(1) by auto
  then have "set (remove1 s (if s \<in> set E then P @ [s] else P)) = set P - {s}" by (subst set_remove1_eq) auto
  then show "set P' = (if full then set P - {s} else set P \<union> {s})" using assms(2) unfolding l(2) by auto
qed

lemma take_moves:
  assumes r: "rings h c F P E" and s: "s \<in> set (P @ E)" and f: "fresh \<longleftrightarrow> s \<in> set E"
  shows "\<exists>h'. do { h \<leftarrow> (if fresh then move_slab s (c + 16) h else Some h); if full then move_slab s c h else Some h } = Some h' \<and>
    (case take_lists F P E s full of (F', P', E') \<Rightarrow> rings h' c F' P' E') \<and> relinked (ring_cells c F P E) h h'"
proof -
  let ?P = "if s \<in> set E then P @ [s] else P"
  obtain h1 where h1: "(if fresh then move_slab s (c + 16) h else Some h) = Some h1" "rings h1 c F ?P (remove1 s E)" "relinked (ring_cells c F P E) h h1"
  proof (cases "s \<in> set E")
    case True
    then show ?thesis using rings_move(1) [OF r True] that f by auto
  next
    case False
    then have "remove1 s E = E" by (rule remove1_idem)
    then show ?thesis using that [of h] r f False relinked_refl by simp
  qed
  have sP: "s \<in> set ?P" using s by auto
  have sub: "ring_cells c F ?P (remove1 s E) \<subseteq> ring_cells c F P E" using s by (auto dest: notin_set_remove1)
  show ?thesis
  proof (cases full)
    case True
    obtain h2 where h2: "move_slab s c h1 = Some h2" "rings h2 c (F @ [s]) (remove1 s ?P) (remove1 s E)" "relinked (ring_cells c F ?P (remove1 s E)) h1 h2"
      using rings_move(2) [OF h1(2) sP] by blast
    have "relinked (ring_cells c F P E) h h2" by (rule relinked_trans [OF h1(3) h2(3)]) (use sub in blast)
    then show ?thesis using True h1(1) h2(1,2) by (simp add: take_lists_def Let_def del: remove1_append)
  next
    case False
    then show ?thesis using h1 by (simp add: take_lists_def Let_def)
  qed
qed

lemma free_objs_take:
  assumes "slab_at ps c C S s" "unat (s_free S) < nobj C" "cache_wf C"
  shows "s_bufctl S ! unat (s_free S) = hd (free_objs S)" "free_objs S \<noteq> []" "free_objs (S\<lparr> s_free := s_free S + 1 \<rparr>) = tl (free_objs S)"
    "unat (s_free S + 1) = unat (s_free S) + 1" "slab_at ps c C (S\<lparr> s_free := s_free S + 1 \<rparr>) s"
proof -
  have l: "length (s_bufctl S) = nobj C" using assms(1) by (simp add: slab_at_def)
  show hd: "s_bufctl S ! unat (s_free S) = hd (free_objs S)" "free_objs S \<noteq> []" using l assms(2) by (simp_all add: free_objs_def hd_drop_conv_nth)
  show u: "unat (s_free S + 1) = unat (s_free S) + 1"
    using assms(2) cache_wf_bounds [OF assms(3)] by (subst unat_add_no_wrap) auto
  then show t: "free_objs (S\<lparr> s_free := s_free S + 1 \<rparr>) = tl (free_objs S)" by (simp add: free_objs_def drop_Suc tl_drop)
  have "distinct (tl (free_objs S))" "\<forall>i \<in> set (tl (free_objs S)). unat i < nobj C"
    using assms(1) hd(2) by (auto simp: slab_at_def distinct_tl dest: list.set_sel(2))
  then show "slab_at ps c C (S\<lparr> s_free := s_free S + 1 \<rparr>) s" using assms(1,2) u t by (simp add: slab_at_def)
qed

lemma free_objs_hd:
  assumes "slab_at ps c C S s" "free_objs S \<noteq> []"
  shows "unat (hd (free_objs S)) < nobj C" "unat (hd (free_objs S)) \<in> unat ` set (free_objs S)" "unat (hd (free_objs S)) \<notin> unat ` set (tl (free_objs S))"
proof -
  obtain x xs where x: "free_objs S = x # xs" using assms(2) by (cases "free_objs S") auto
  have "distinct (x # xs)" "unat x < nobj C" using assms(1) x by (auto simp: slab_at_def)
  then show "unat (hd (free_objs S)) < nobj C" "unat (hd (free_objs S)) \<in> unat ` set (free_objs S)" "unat (hd (free_objs S)) \<notin> unat ` set (tl (free_objs S))"
    using x by (auto simp: word_unat_eq_iff [symmetric])
qed

definition new_shape :: "shape \<Rightarrow> u64 \<Rightarrow> u64 list \<times> u64 list \<times> u64 list \<Rightarrow> shape" where
  "new_shape sh c = (\<lambda>(F, P, E). sh\<lparr> fullS := (fullS sh)(c := F), partialS := (partialS sh)(c := P), freeS := (freeS sh)(c := E) \<rparr>)"

lemma rings_of:
  assumes "heap_inv sh cc Cs h" "c \<in> set (cc # Cs)"
  shows "rings h c (fullS sh c) (partialS sh c) (freeS sh c)"
  using heap_invD(4) [OF assms] cells_apartD(1) [OF heap_invD(3) [OF assms(1)] assms(2)]
  unfolding cache_inv_def rings_def cells_def slabs_of_def by auto

text \<open>A slab of a cache has changed and the lists of the cache have been rearranged: the common part of taking and
  giving back.\<close>

lemma rearranged:
  assumes inv: "heap_inv sh cc Cs h" and c: "c \<in> set (cc # Cs)" "caches h c = Some C" and s: "s \<in> set (slabs_of sh c)"
    and h1: "h1 = h\<lparr> slabs := (slabs h)(s \<mapsto> S'), nxt := N, prv := Q, caches := (caches h)(c \<mapsto> C') \<rparr>"
    and links: "\<And>a. a \<notin> set (cells sh c) \<Longrightarrow> N a = nxt h a \<and> Q a = prv h a"
    and C': "objsize C' = objsize C" "objs_per_slab C' = objs_per_slab C"
    and S': "slab_at (pages h) c C S' s"
    and lists: "rings h1 c F P E" "set (F @ P @ E) \<subseteq> set (slabs_of sh c)"
      "set F - {s} \<subseteq> set (fullS sh c)" "set P - {s} \<subseteq> set (partialS sh c)" "set E - {s} \<subseteq> set (freeS sh c)"
    and cls: "s \<in> set F \<Longrightarrow> unat (s_free S') = nobj C" "s \<in> set P \<Longrightarrow> 0 < unat (s_free S') \<and> unat (s_free S') < nobj C"
      "s \<in> set E \<Longrightarrow> unat (s_free S') = 0"
    and used: "\<And>a. a \<in> set Cs \<Longrightarrow> used_obj sh h cc a \<Longrightarrow> used_obj (new_shape sh c (F, P, E)) h1 cc a"
  shows "heap_inv (new_shape sh c (F, P, E)) cc Cs h1"
proof -
  note d = heap_invD [OF inv]
  let ?sh = "new_shape sh c (F, P, E)"
  have lst: "fullS ?sh c = F" "partialS ?sh c = P" "freeS ?sh c = E" by (simp_all add: new_shape_def)
  have r: "ring h1 c F" "ring h1 (c + 16) P" "ring h1 (c + 32) E" "distinct ([c, c + 16, c + 32] @ F @ P @ E)" using lists(1) by (simp_all add: rings_def)
  have ci: "cache_inv ?sh h1 c"
    by (rule cache_inv_reclass [OF d(4) [OF c(1)] c(2), where s = s and S' = S' and C' = C'])
      (use C' S' r lists(3-5) cls in \<open>simp_all add: h1 lst\<close>)
  have sub: "set (cells ?sh c) \<subseteq> set (cells sh c)" using lists(2) unfolding cells_def slabs_of_def lst by auto
  show ?thesis
  proof (rule heap_inv_step [OF inv c(1) _ ci, where X = "{}"])
    show "distinct (cells ?sh c)" using r(4) unfolding cells_def slabs_of_def lst by simp
    show "osz D = 80" if "caches h1 cc = Some D" for D using that d(7) C' c(2) by (cases "cc = c") (auto simp: h1)
    show "nxt h1 a = nxt h a \<and> prv h1 a = prv h a \<and> slabs h1 a = slabs h a" if "a \<notin> set (cells sh c) \<union> {}" for a
      using that links [of a] s by (auto simp: h1 cells_def)
  qed (use sub d(1) used in \<open>auto simp: h1 new_shape_def\<close>)
qed

lemma slab_class:
  assumes "heap_inv sh cc Cs h" "c \<in> set (cc # Cs)" "caches h c = Some C" "slabs h s = Some S"
  shows "s \<in> set (fullS sh c) \<Longrightarrow> unat (s_free S) = nobj C" "s \<in> set (partialS sh c) \<Longrightarrow> 0 < unat (s_free S) \<and> unat (s_free S) < nobj C"
    "s \<in> set (freeS sh c) \<Longrightarrow> unat (s_free S) = 0"
  using heap_invD(4) [OF assms(1,2)] assms(3,4) unfolding cache_inv_def slab_in_def by fastforce+

lemma slab_take_ok:
  assumes inv: "heap_inv sh cc Cs h" and c: "c \<in> set (cc # Cs)" and s: "s \<in> set (partialS sh c @ freeS sh c)"
  obtains ptr sh' h' where "slab_take c s h = Some (ptr, h')" "heap_inv sh' cc Cs h'" "evolves (set (cc # Cs)) sh h sh' h'"
    "keeps_used (set (cc # Cs)) sh h sh' h'" "used_obj sh' h' c ptr" "\<not> used_obj sh h c ptr" "ptr \<noteq> 0"
    "\<And>k. room k sh h c \<Longrightarrow> room (Suc k) sh' h' c" "pages h' = pages h" "accounts (set (cc # Cs)) {(c, ptr)} sh h sh' h'"
proof -
  note d = heap_invD [OF inv]
  let ?F = "fullS sh c" and ?P = "partialS sh c" and ?E = "freeS sh c"
  have sm: "s \<in> set (slabs_of sh c)" using s by (auto simp: slabs_of_def)
  obtain S C q n where S: "slabs h s = Some S" "caches h c = Some C" "cache_wf C" "slab_at (pages h) c C S s" "run (pages h) q n s"
    using slab_of_cache [OF inv c sm] .
  note cl = slab_class [OF inv c S(2,1)]
  have ds: "distinct (cells sh c)" by (rule cells_apartD(1) [OF d(3) c])
  have n0: "0 < nobj C" using S(3) by (simp add: cache_wf_def)
  have lt: "unat (s_free S) < nobj C" using s cl n0 by auto
  have fr: "s_free S = 0 \<longleftrightarrow> s \<in> set ?E" using s cl by (auto simp: unat_eq_0 [symmetric])
  note ft = free_objs_take [OF S(4) lt S(3)]
  let ?full = "s_free S + 1 = objs_per_slab C" and ?S = "S\<lparr> s_free := s_free S + 1 \<rparr>" and ?C = "C\<lparr> inuse := inuse C + 1 \<rparr>"
  have full: "?full \<longleftrightarrow> unat (s_free S) + 1 = nobj C" using ft(4) by (metis word_unat_eq_iff)
  let ?i = "unat (hd (free_objs S))"
  have i: "?i < nobj C" "?i \<in> unat ` set (free_objs S)" "?i \<notin> unat ` set (tl (free_objs S))"
    using free_objs_hd [OF S(4) ft(2)] by blast+
  let ?ptr = "obj_addr C S ?i"
  have rs: "rings (put_slab s ?S h) c ?F ?P ?E" using rings_of [OF inv c] ring_same [of "put_slab s ?S h" h] by (simp add: rings_def)
  obtain F P E where L: "take_lists ?F ?P ?E s ?full = (F, P, E)" by (cases "take_lists ?F ?P ?E s ?full") auto
  obtain h2 where h2: "do { h \<leftarrow> (if s_free S = 0 then move_slab s (c + 16) (put_slab s ?S h) else Some (put_slab s ?S h)); if ?full then move_slab s c h else Some h } = Some h2"
      "rings h2 c F P E" "relinked (ring_cells c ?F ?P ?E) (put_slab s ?S h) h2"
    using take_moves [OF rs _ fr, of ?full] s L by auto
  let ?h = "put_cache c ?C h2"
  have run: "slab_take c s h = Some (?ptr, ?h)"
    using h2(1) S(1,2,4) lt ft(1) by (auto simp: slab_take_def slab_at_def obj_addr_def Let_def split: bind_splits if_splits)
  obtain N Q where NQ: "h2 = (put_slab s ?S h)\<lparr> nxt := N, prv := Q \<rparr>" "\<And>a. a \<notin> ring_cells c ?F ?P ?E \<Longrightarrow> N a = nxt h a \<and> Q a = prv h a"
    using h2(3) unfolding relinked_def by auto
  have heq: "?h = h\<lparr> slabs := (slabs h)(s \<mapsto> ?S), nxt := N, prv := Q, caches := (caches h)(c \<mapsto> ?C) \<rparr>" using NQ(1) by simp
  have rc: "ring_cells c ?F ?P ?E = set (cells sh c)" by (simp add: cells_def slabs_of_def)
  have mem: "set (F @ P @ E) = set (slabs_of sh c)" "set F - {s} \<subseteq> set ?F" "set P - {s} \<subseteq> set ?P" "set E \<subseteq> set ?E - {s}"
      "s \<in> set F \<longleftrightarrow> ?full" "s \<in> set P \<longleftrightarrow> \<not> ?full"
  proof -
    have "distinct (?F @ ?P @ ?E)" using ds by (simp add: cells_def slabs_of_def)
    note t = take_lists_sets [OF this s L]
    have "s \<notin> set ?F" using ds s by (auto simp: cells_def slabs_of_def)
    then show "set (F @ P @ E) = set (slabs_of sh c)" "set F - {s} \<subseteq> set ?F" "set P - {s} \<subseteq> set ?P" "set E \<subseteq> set ?E - {s}"
        "s \<in> set F \<longleftrightarrow> ?full" "s \<in> set P \<longleftrightarrow> \<not> ?full"
      using s unfolding set_append t slabs_of_def by auto
  qed
  let ?sh = "new_shape sh c (F, P, E)"
  have so: "slabs_of ?sh c = F @ P @ E" "\<And>e. e \<noteq> c \<Longrightarrow> slabs_of ?sh e = slabs_of sh e" by (simp_all add: new_shape_def slabs_of_def)
  have ku: "keeps_used (set (cc # Cs)) sh h ?sh ?h"
  proof -
    have "used_obj ?sh ?h e a" if "e \<in> set (cc # Cs)" "used_obj sh h e a" for e a
    proof (rule used_obj_frame [OF that(2)])
      show "t \<in> set (slabs_of ?sh e)" if "t \<in> set (slabs_of sh e)" for t using that so mem(1) by (cases "e = c") auto
      show "\<exists>S'. slabs ?h t = Some S' \<and> s_memory S' = s_memory T \<and> set (free_objs S') \<subseteq> set (free_objs T)" if "slabs h t = Some T" for t T
        using that S(1) ft(2,3) by (cases "t = s") (auto simp: heq dest: list.set_sel(2))
      show "\<exists>C'. caches ?h e = Some C' \<and> objsize C' = objsize D \<and> objs_per_slab C' = objs_per_slab D" if "caches h e = Some D" for D
        using that S(2) by (cases "e = c") (auto simp: heq)
    qed
    then show ?thesis by (simp add: keeps_used_def)
  qed
  have hi: "heap_inv ?sh cc Cs ?h"
  proof (rule rearranged [OF inv c S(2) sm heq])
    show "N a = nxt h a \<and> Q a = prv h a" if "a \<notin> set (cells sh c)" for a using NQ(2) [of a] that unfolding rc by blast
    show "rings ?h c F P E" using h2(2) ring_same [of ?h h2] by (simp add: rings_def)
    show "unat (s_free ?S) = nobj C" if "s \<in> set F" using that mem(5) by auto
    show "0 < unat (s_free ?S) \<and> unat (s_free ?S) < nobj C" if "s \<in> set P" using that mem(6) full lt ft(4) by auto
    show "used_obj ?sh ?h cc a" if "a \<in> set Cs" "used_obj sh h cc a" for a using ku that by (simp add: keeps_used_def)
  qed (use mem ft(5) in auto)
  have ev: "evolves (set (cc # Cs)) sh h ?sh ?h"
  proof -
    have "t \<in> set (slabs_of sh e)" if "t \<in> set (slabs_of ?sh e)" for t e using that so mem(1) by (cases "e = c") auto
    then show ?thesis using S(2) unfolding evolves_def by (auto simp: heq)
  qed
  have "used_obj ?sh ?h c ?ptr"
    unfolding used_obj_def so(1)
    by (rule bexI [of _ s], rule exI [of _ ?S], rule exI [of _ ?C], rule exI [of _ ?i])
      (use i ft(3) mem(1) sm in \<open>auto simp: heq obj_addr_def\<close>)
  moreover have "\<not> used_obj sh h c ?ptr"
  proof
    assume "used_obj sh h c ?ptr"
    then obtain t T j where t: "t \<in> set (slabs_of sh c)" "slabs h t = Some T" "j < nobj C" "j \<notin> unat ` set (free_objs T)" "?ptr = obj_addr C T j"
      using S(2) by (auto simp: used_obj_def)
    have "s = t \<and> ?i = j" by (rule object_unique [OF inv c S(2) sm S(1) i(1) t(1-3,5)])
    then show False using t(2,4) S(1) i(2) by auto
  qed
  moreover have "?ptr \<noteq> 0" using slab_objects(2) [OF d(1) S(3-5) i(1)] by auto
  moreover have "room (Suc k) ?sh ?h c" if r: "room k sh h c" for k
  proof -
    obtain t T where t: "t \<in> set (slabs_of sh c)" "slabs h t = Some T" "unat (s_free T) \<le> k" using r by (auto simp: room_def)
    have "\<exists>T'. slabs ?h t = Some T' \<and> unat (s_free T') \<le> Suc k" using t S(1) ft(4) by (cases "t = s") (auto simp: heq)
    then show ?thesis using t(1) so(1) mem(1) by (auto simp: room_def)
  qed
  moreover have "pages ?h = pages h" using heq by simp
  moreover have "accounts (set (cc # Cs)) {(c, ?ptr)} sh h ?sh ?h"
    unfolding accounts_def
  proof (intro conjI ballI allI impI)
    have su: "t \<in> set (slabs_of ?sh e) \<longleftrightarrow> t \<in> set (slabs_of sh e)" for t e using so mem(1) by (cases "e = c") auto
    then show "set (slabs_of sh e) \<subseteq> set (slabs_of ?sh e)" for e by blast
    show "run (pages h) q' n' a \<or> (\<exists>e \<in> set (cc # Cs). a \<in> set (slabs_of ?sh e))" if "run (pages ?h) q' n' a" for q' n' a
      using that by (simp add: heq)
    show "used_obj sh h e a \<or> (e, a) \<in> {(c, ?ptr)}" if e: "e \<in> set (cc # Cs)" "used_obj ?sh ?h e a" for e a
    proof -
      obtain D where D: "caches h e = Some D" using d(4) [OF e(1)] by (auto simp: cache_inv_def)
      obtain t T j where u: "t \<in> set (slabs_of ?sh e)" "slabs ?h t = Some T" "j < nobj D" "j \<notin> unat ` set (free_objs T)" "a = obj_addr D T j"
        by (rule used_obj_back [OF e(2) D]) (use D S(2) in \<open>cases "e = c"; auto simp: heq\<close>)
      show ?thesis
      proof (cases "t = s")
        case False
        then have "t \<in> set (slabs_of sh e)" "slabs h t = Some T" using u(1,2) su by (simp_all add: heq)
        then show ?thesis using u(3-5) D unfolding used_obj_def by blast
      next
        case True
        have "e = c" using cells_apartD(2) [OF d(3) e(1) c] su u(1) sm True by (auto simp: cells_def)
        then have DC: "D = C" using D S(2) by simp
        have T: "T = ?S" using u(2) True by (simp add: heq)
        have a: "a = obj_addr C S j" using u(5) T DC by (simp add: obj_addr_def)
        have "set (free_objs S) = insert (hd (free_objs S)) (set (tl (free_objs S)))" using ft(2) by (cases "free_objs S") auto
        then have "j = ?i \<or> j \<notin> unat ` set (free_objs S)" using u(4) T ft(3) by auto
        then show ?thesis using a \<open>e = c\<close> sm S(1,2) u(3) DC unfolding used_obj_def by auto
      qed
    qed
  qed
  ultimately show thesis using that [OF run hi ev ku] by blast
qed

section \<open>Allocating from a cache\<close>

lemma room_not_full:
  assumes inv: "heap_inv sh cc Cs h" "c \<in> set (cc # Cs)" "caches h c = Some C" and r: "room k sh h c" "k < nobj C"
  shows "partialS sh c \<noteq> [] \<or> freeS sh c \<noteq> []"
proof -
  obtain s S where s: "s \<in> set (slabs_of sh c)" "slabs h s = Some S" "unat (s_free S) \<le> k" using r(1) by (auto simp: room_def)
  have "s \<notin> set (fullS sh c)" using slab_class(1) [OF inv s(2)] s(3) r(2) by auto
  then show ?thesis using s(1) by (auto simp: slabs_of_def)
qed

lemma slab_nonzero:
  assumes "heap_inv sh cc Cs h" "c \<in> set (cc # Cs)" "s \<in> set (slabs_of sh c)"
  shows "s \<noteq> 0"
  using slab_of_cache [OF assms] run_facts(4) [OF heap_invD(1) [OF assms(1)]] by metis

lemma keeps_used_trans: "keeps_used K sh h sh1 h1 \<Longrightarrow> keeps_used K sh1 h1 sh2 h2 \<Longrightarrow> keeps_used K sh h sh2 h2"
  by (simp add: keeps_used_def)

lemma cache_select_ok:
  assumes inv: "heap_inv sh cc Cs h" and c: "c \<in> set (cc # Cs)"
  obtains (none) "cache_select c h = Some (0, h)" "partialS sh c = []" "freeS sh c = []"
      "\<And>C p. caches h c = Some C \<Longrightarrow> \<not> fits_at (allocs (pages h)) (pages_for (unat (slab_mem C))) p"
  | (some) s sh1 h1 where "cache_select c h = Some (s, h1)" "s \<noteq> 0" "heap_inv sh1 cc Cs h1" "evolves (set (cc # Cs)) sh h sh1 h1"
      "keeps_used (set (cc # Cs)) sh h sh1 h1" "s \<in> set (partialS sh1 c @ freeS sh1 c)"
      "\<And>k. room k sh h c \<Longrightarrow> room k sh1 h1 c" "partialS sh c \<noteq> [] \<or> freeS sh c \<noteq> [] \<Longrightarrow> h1 = h"
      "accounts (set (cc # Cs)) {} sh h sh1 h1"
proof -
  note r = rings_of [OF inv c, unfolded rings_def]
  have np: "list_next (c + 16) h = Some (case partialS sh c of [] \<Rightarrow> 0 | x # _ \<Rightarrow> x)" using list_next_ring r by blast
  have nf: "list_next (c + 32) h = Some (case freeS sh c of [] \<Rightarrow> 0 | x # _ \<Rightarrow> x)" using list_next_ring r by blast
  have same: thesis if "cache_select c h = Some (s, h)" "s \<in> set (partialS sh c @ freeS sh c)" for s
    using some [OF that(1) _ inv evolves_refl _ that(2)] slab_nonzero [OF inv c, of s] that(2) by (auto simp: slabs_of_def keeps_used_def accounts_refl)
  show thesis
  proof (cases "partialS sh c")
    case (Cons s ps)
    then have "s \<noteq> 0" using slab_nonzero [OF inv c, of s] by (simp add: slabs_of_def)
    then show ?thesis using np Cons by (intro same [of s]) (simp_all add: cache_select_def)
  next
    case P: Nil
    show ?thesis
    proof (cases "freeS sh c")
      case (Cons s fs)
      then have "s \<noteq> 0" using slab_nonzero [OF inv c, of s] by (simp add: slabs_of_def)
      then show ?thesis using np nf P Cons by (intro same [of s]) (simp_all add: cache_select_def)
    next
      case F: Nil
      show ?thesis
      proof (cases rule: cache_grow_ok [OF inv c])
        case 1
        have "cache_select c h = Some (0, h)" using np nf P F 1(1) by (simp add: cache_select_def)
        then show ?thesis by (rule none [OF _ P F 1(2)])
      next
        case (2 s h')
        let ?sh = "sh\<lparr> freeS := (freeS sh)(c := freeS sh c @ [s]) \<rparr>"
        have "list_next (c + 32) h' = Some s" using list_next_ring [of h' "c + 32" "freeS ?sh c"] rings_of [OF 2(2) c] F by (simp add: rings_def)
        then have "cache_select c h = Some (s, h')" using np nf P F 2(1) by (simp add: cache_select_def)
        moreover have "room k ?sh h' c" if r: "room k sh h c" for k
        proof -
          obtain t T where t: "t \<in> set (slabs_of sh c)" "slabs h t = Some T" "unat (s_free T) \<le> k" using r by (auto simp: room_def)
          have "distinct (cells ?sh c)" by (rule cells_apartD(1) [OF heap_invD(3) [OF 2(2)] c])
          then have "t \<noteq> s" using t(1) by (auto simp: cells_def slabs_of_def)
          then show ?thesis using t 2(7) [of t] by (auto simp: room_def slabs_of_def)
        qed
        ultimately show ?thesis using some [of s h' ?sh] 2(2-6) P F by simp
      qed
    qed
  qed
qed

lemma cache_alloc_ok:
  assumes inv: "heap_inv sh cc Cs h" and c: "c \<in> set (cc # Cs)"
  obtains (none) "cache_alloc c h = Some (0, h)" "\<And>k C. caches h c = Some C \<Longrightarrow> room k sh h c \<Longrightarrow> nobj C \<le> k"
      "\<And>C p. caches h c = Some C \<Longrightarrow> \<not> fits_at (allocs (pages h)) (pages_for (unat (slab_mem C))) p"
  | (some) ptr sh' h' where "cache_alloc c h = Some (ptr, h')" "ptr \<noteq> 0" "heap_inv sh' cc Cs h'" "evolves (set (cc # Cs)) sh h sh' h'"
      "keeps_used (set (cc # Cs)) sh h sh' h'" "used_obj sh' h' c ptr" "\<not> used_obj sh h c ptr" "\<And>k. room k sh h c \<Longrightarrow> room (Suc k) sh' h' c"
      "\<And>k C. caches h c = Some C \<Longrightarrow> room k sh h c \<Longrightarrow> k < nobj C \<Longrightarrow> pages h' = pages h"
      "accounts (set (cc # Cs)) {(c, ptr)} sh h sh' h'"
proof (cases rule: cache_select_ok [OF inv c])
  case 1
  have "cache_alloc c h = Some (0, h)" using 1(1) by (simp add: cache_alloc_def)
  then show thesis
  proof (rule none)
    show "nobj C \<le> k" if "caches h c = Some C" "room k sh h c" for k C
      using room_not_full [OF inv c that] 1(2,3) by (auto simp: not_less [symmetric])
  qed (rule 1(4))
next
  case (2 s sh1 h1)
  show thesis
  proof (rule slab_take_ok [OF 2(3) c 2(6)])
    fix ptr sh' h'
    assume t: "slab_take c s h1 = Some (ptr, h')" "heap_inv sh' cc Cs h'" "evolves (set (cc # Cs)) sh1 h1 sh' h'"
      "keeps_used (set (cc # Cs)) sh1 h1 sh' h'" "used_obj sh' h' c ptr" "\<not> used_obj sh1 h1 c ptr" "ptr \<noteq> 0"
      "\<And>k. room k sh1 h1 c \<Longrightarrow> room (Suc k) sh' h' c" "pages h' = pages h1" "accounts (set (cc # Cs)) {(c, ptr)} sh1 h1 sh' h'"
    have a: "cache_alloc c h = Some (ptr, h')" using 2(1,2) t(1) by (simp add: cache_alloc_def)
    have u: "\<not> used_obj sh h c ptr" using 2(5) t(6) c by (auto simp: keeps_used_def)
    show thesis by (rule some [OF a t(7,2) evolves_trans [OF 2(4) t(3)] keeps_used_trans [OF 2(5) t(4)] t(5) u t(8) [OF 2(7)]])
        (use room_not_full [OF inv c] 2(8) t(9) accounts_trans [OF 2(9) t(10)] in auto)
  qed
qed

section \<open>Giving an object back\<close>

definition release_lists :: "u64 list \<Rightarrow> u64 list \<Rightarrow> u64 list \<Rightarrow> u64 \<Rightarrow> bool \<Rightarrow> u64 list \<times> u64 list \<times> u64 list" where
  "release_lists F P E s drained =
    (let P1 = (if s \<in> set F then P @ [s] else P)
     in (remove1 s F, if drained then remove1 s P1 else P1, if drained then E @ [s] else E))"

lemma release_lists_sets:
  assumes "distinct (F @ P @ E)" "s \<in> set (F @ P)" "release_lists F P E s drained = (F', P', E')"
  shows "set F' = set F - {s}" "set P' = (if drained then set P - {s} else set P \<union> {s})" "set E' = set E \<union> (if drained then {s} else {})"
proof -
  have l: "F' = remove1 s F" "P' = (if drained then remove1 s (if s \<in> set F then P @ [s] else P) else if s \<in> set F then P @ [s] else P)" "E' = (if drained then E @ [s] else E)"
    using assms(3) by (simp_all add: release_lists_def Let_def split: if_splits)
  show "set E' = set E \<union> (if drained then {s} else {})" by (simp add: l(3))
  show "set F' = set F - {s}" using assms(1) by (simp add: l(1) set_remove1_eq)
  have "distinct (if s \<in> set F then P @ [s] else P)" using assms(1) by auto
  then have "set (remove1 s (if s \<in> set F then P @ [s] else P)) = set P - {s}" by (subst set_remove1_eq) auto
  then show "set P' = (if drained then set P - {s} else set P \<union> {s})" using assms(2) unfolding l(2) by auto
qed

lemma release_moves:
  assumes r: "rings h c F P E" and s: "s \<in> set (F @ P)" and f: "full \<longleftrightarrow> s \<in> set F"
  shows "\<exists>h1 h'. (if full then move_slab s (c + 16) h else Some h) = Some h1 \<and> (if drained then move_slab s (c + 32) h1 else Some h1) = Some h' \<and>
    (case release_lists F P E s drained of (F', P', E') \<Rightarrow> rings h' c F' P' E') \<and> relinked (ring_cells c F P E) h h'"
proof -
  let ?P = "if s \<in> set F then P @ [s] else P"
  obtain h1 where h1: "(if full then move_slab s (c + 16) h else Some h) = Some h1" "rings h1 c (remove1 s F) ?P E" "relinked (ring_cells c F P E) h h1"
  proof (cases "s \<in> set F")
    case True
    then show ?thesis using rings_move(3) [OF r True] that f by auto
  next
    case False
    then have "remove1 s F = F" by (rule remove1_idem)
    then show ?thesis using that [of h] r f False relinked_refl by simp
  qed
  have sP: "s \<in> set ?P" using s by auto
  have sub: "ring_cells c (remove1 s F) ?P E \<subseteq> ring_cells c F P E" using s by (auto dest: notin_set_remove1)
  show ?thesis
  proof (cases drained)
    case True
    obtain h2 where h2: "move_slab s (c + 32) h1 = Some h2" "rings h2 c (remove1 s F) (remove1 s ?P) (E @ [s])" "relinked (ring_cells c (remove1 s F) ?P E) h1 h2"
      using rings_move(4) [OF h1(2) sP] by blast
    have "relinked (ring_cells c F P E) h h2" by (rule relinked_trans [OF h1(3) h2(3)]) (use sub in blast)
    then show ?thesis using True h1(1) h2(1,2) by (simp add: release_lists_def Let_def del: remove1_append)
  next
    case False
    then show ?thesis using h1 by (simp add: release_lists_def Let_def)
  qed
qed

lemma used_not_fresh:
  assumes "slab_at ps c C S s" "i < nobj C" "i \<notin> unat ` set (free_objs S)"
  shows "s_free S \<noteq> 0"
proof
  assume "s_free S = 0"
  then have f: "free_objs S = s_bufctl S" by (simp add: free_objs_def)
  have d: "distinct (s_bufctl S)" "length (s_bufctl S) = nobj C" "\<forall>j \<in> set (s_bufctl S). unat j < nobj C" using assms(1) f by (simp_all add: slab_at_def)
  have "inj_on unat (set (s_bufctl S))" by (auto simp: inj_on_def word_unat_eq_iff)
  then have "card (unat ` set (s_bufctl S)) = nobj C" using d(1,2) by (simp add: card_image distinct_card)
  moreover have "unat ` set (s_bufctl S) \<subseteq> {..<nobj C}" using d(3) by auto
  ultimately have "unat ` set (s_bufctl S) = {..<nobj C}" by (intro card_subset_eq) auto
  then show False using assms(2,3) f by auto
qed

lemma ptr_to_index:
  assumes "pg_ok ps" "cache_wf C" "slab_at ps c C S s" "run ps q n s" "i < nobj C"
  shows "slab_ptr_to_index C S (obj_addr C S i) = of_nat i"
proof -
  note o = slab_objects(1) [OF assms]
  have "unat (obj_addr C S i - s_memory S) = osz C * i"
    using o by (simp add: unat_sub word_le_nat_alt)
  then have "unat (slab_ptr_to_index C S (obj_addr C S i)) = i" using assms(2) by (simp add: slab_ptr_to_index_def unat_div_distrib cache_wf_def)
  then show ?thesis by (rule word_eq_of_nat)
qed

lemma released_slab:
  assumes at: "slab_at ps c C S s" and w: "cache_wf C" and i: "i < nobj C" "i \<notin> unat ` set (free_objs S)"
  defines "S' \<equiv> S\<lparr> s_free := s_free S - 1, s_bufctl := (s_bufctl S)[unat (s_free S - 1) := of_nat i] \<rparr>"
  shows "unat (s_free S - 1) < length (s_bufctl S)" "unat (s_free S - 1) = unat (s_free S) - 1" "free_objs S' = of_nat i # free_objs S" "slab_at ps c C S' s"
proof -
  have nz: "s_free S \<noteq> 0" by (rule used_not_fresh [OF at i])
  then have pos: "0 < unat (s_free S)" by (simp add: unat_gt_0)
  show u: "unat (s_free S - 1) = unat (s_free S) - 1" using nz by (simp add: unat_minus_one)
  have l: "length (s_bufctl S) = nobj C" "unat (s_free S) \<le> nobj C" using at by (simp_all add: slab_at_def)
  then show lt: "unat (s_free S - 1) < length (s_bufctl S)" using u pos by simp
  have ui: "unat (of_nat i :: u32) = i" using i(1) cache_wf_bounds [OF w] by (intro unat_le_of_nat) simp
  show f: "free_objs S' = of_nat i # free_objs S"
  proof -
    have "drop (unat (s_free S) - 1) ((s_bufctl S)[unat (s_free S) - 1 := of_nat i]) = of_nat i # drop (unat (s_free S)) (s_bufctl S)"
      using lt pos u by (simp add: Cons_nth_drop_Suc [symmetric])
    then show ?thesis unfolding free_objs_def S'_def by (simp add: u)
  qed
  have "of_nat i \<notin> set (free_objs S)" using i(2) ui by force
  then show "slab_at ps c C S' s" using at f ui i(1) u l unfolding slab_at_def by (auto simp: S'_def)
qed

lemma slab_release_ok:
  assumes inv: "heap_inv sh cc Cs h" and c: "c \<in> set Cs" and s: "s \<in> set (slabs_of sh c)" "slabs h s = Some S" "caches h c = Some C"
    and i: "i < nobj C" "i \<notin> unat ` set (free_objs S)"
  obtains sh' h' where "slab_release c s C S (obj_addr C S i) h = Some h'" "heap_inv sh' cc Cs h'" "evolves (set (cc # Cs)) sh h sh' h'"
    "\<And>e a. e \<in> set (cc # Cs) \<Longrightarrow> used_obj sh h e a \<Longrightarrow> e \<noteq> c \<or> a \<noteq> obj_addr C S i \<Longrightarrow> used_obj sh' h' e a" "pages h' = pages h"
    "accounts (set (cc # Cs)) {} sh h sh' h'" "\<not> used_obj sh' h' c (obj_addr C S i)"
proof -
  note d = heap_invD [OF inv]
  have c': "c \<in> set (cc # Cs)" "c \<noteq> cc" using c d(2) by auto
  let ?F = "fullS sh c" and ?P = "partialS sh c" and ?E = "freeS sh c"
  obtain q n where S: "cache_wf C" "slab_at (pages h) c C S s" "run (pages h) q n s"
    using slab_of_cache [OF inv c'(1) s(1)] s(2,3) by (metis option.inject)
  note cl = slab_class [OF inv c'(1) s(3,2)]
  note rl = released_slab [OF S(2,1) i]
  have nz: "s_free S \<noteq> 0" by (rule used_not_fresh [OF S(2) i])
  have ds: "distinct (cells sh c)" by (rule cells_apartD(1) [OF d(3) c'(1)])
  have sFP: "s \<in> set (?F @ ?P)" using s(1) cl(3) nz by (auto simp: slabs_of_def unat_eq_0)
  have notE: "s \<notin> set ?E" using sFP ds by (auto simp: cells_def slabs_of_def)
  have full: "s_free S = objs_per_slab C \<longleftrightarrow> s \<in> set ?F" using sFP cl by (auto simp: word_unat_eq_iff)
  let ?S = "S\<lparr> s_free := s_free S - 1, s_bufctl := (s_bufctl S)[unat (s_free S - 1) := of_nat i] \<rparr>" and ?C = "C\<lparr> inuse := inuse C - 1 \<rparr>"
  let ?e = "s_free S - 1 = 0"
  have le: "unat (s_free S) \<le> nobj C" using S(2) by (simp add: slab_at_def)
  have pt: "(ucast (slab_ptr_to_index C S (obj_addr C S i)) :: u32) = of_nat i"
    using ptr_to_index [OF d(1) S i(1)] i(1) cache_wf_bounds [OF S(1)] by (intro word_unat_eq_iff [THEN iffD2]) (simp add: unsigned_ucast_eq unsigned_of_nat take_bit_eq_mod)
  obtain F P E where L: "release_lists ?F ?P ?E s ?e = (F, P, E)" by (cases "release_lists ?F ?P ?E s ?e") auto
  obtain h1 h2 where m: "(if s_free S = objs_per_slab C then move_slab s (c + 16) h else Some h) = Some h1" "(if ?e then move_slab s (c + 32) h1 else Some h1) = Some h2"
      "rings h2 c F P E" "relinked (ring_cells c ?F ?P ?E) h h2"
    using release_moves [OF rings_of [OF inv c'(1)] sFP full, of ?e] L by auto
  let ?h = "put_cache c ?C (put_slab s ?S h2)"
  have run: "slab_release c s C S (obj_addr C S i) h = Some ?h"
    using m(1,2) nz rl(1) pt by (simp add: slab_release_def Let_def)
  obtain N Q where NQ: "h2 = h\<lparr> nxt := N, prv := Q \<rparr>" "\<And>a. a \<notin> ring_cells c ?F ?P ?E \<Longrightarrow> N a = nxt h a \<and> Q a = prv h a"
    using m(4) unfolding relinked_def by auto
  have heq: "?h = h\<lparr> slabs := (slabs h)(s \<mapsto> ?S), nxt := N, prv := Q, caches := (caches h)(c \<mapsto> ?C) \<rparr>" using NQ(1) by simp
  have rc: "ring_cells c ?F ?P ?E = set (cells sh c)" by (simp add: cells_def slabs_of_def)
  have "distinct (?F @ ?P @ ?E)" using ds by (simp add: cells_def slabs_of_def)
  note t = release_lists_sets [OF this sFP L]
  have mem: "set (F @ P @ E) = set (slabs_of sh c)" using sFP unfolding set_append t slabs_of_def by auto
  let ?sh = "new_shape sh c (F, P, E)"
  have so: "slabs_of ?sh c = F @ P @ E" "\<And>e. e \<noteq> c \<Longrightarrow> slabs_of ?sh e = slabs_of sh e" by (simp_all add: new_shape_def slabs_of_def)
  have su: "t \<in> set (slabs_of ?sh e) \<longleftrightarrow> t \<in> set (slabs_of sh e)" for t e using so mem by (cases "e = c") auto
  have ku: "used_obj ?sh ?h e a" if e: "e \<in> set (cc # Cs)" "used_obj sh h e a" "e \<noteq> c \<or> a \<noteq> obj_addr C S i" for e a
  proof (cases "e = c")
    case False
    show ?thesis
    proof (rule used_obj_frame [OF e(2)])
      show "\<exists>S'. slabs ?h t = Some S' \<and> s_memory S' = s_memory T \<and> set (free_objs S') \<subseteq> set (free_objs T)" if "t \<in> set (slabs_of sh e)" "slabs h t = Some T" for t T
      proof -
        have "t \<noteq> s" using cells_apartD(2) [OF d(3) e(1) c'(1) False] that(1) s(1) by (auto simp: cells_def)
        then show ?thesis using that by (simp add: NQ(1))
      qed
    qed (use False su in \<open>simp_all add: NQ(1)\<close>)
  next
    case True
    obtain t T j where u: "t \<in> set (slabs_of sh c)" "slabs h t = Some T" "j < nobj C" "j \<notin> unat ` set (free_objs T)" "a = obj_addr C T j"
      using e(2) s(3) True by (auto simp: used_obj_def)
    show ?thesis
    proof (cases "t = s")
      case ts: True
      then have T: "T = S" using u(2) s(2) by simp
      then have "j \<noteq> i" using u(5) e(3) True by auto
      moreover have "unat (of_nat i :: u32) = i" using i(1) cache_wf_bounds [OF S(1)] by (intro unat_le_of_nat) simp
      ultimately have "j \<notin> unat ` set (free_objs ?S)" unfolding rl(3) using u(4) T by auto
      then show ?thesis unfolding used_obj_def True
        using ts su u(1,3,5) T by (intro bexI [of _ s] exI [of _ ?S] exI [of _ ?C] exI [of _ j]) (auto simp: NQ(1) obj_addr_def)
    next
      case ts: False
      show ?thesis unfolding used_obj_def True
        by (rule bexI [of _ t], rule exI [of _ T], rule exI [of _ ?C], rule exI [of _ j])
          (use ts su u in \<open>auto simp: NQ(1) obj_addr_def\<close>)
    qed
  qed
  have hi: "heap_inv ?sh cc Cs ?h"
  proof (rule rearranged [OF inv c'(1) s(3,1) heq])
    show "N a = nxt h a \<and> Q a = prv h a" if "a \<notin> set (cells sh c)" for a using NQ(2) [of a] that unfolding rc by blast
    show "rings ?h c F P E" using m(3) ring_same [of ?h h2] by (simp add: rings_def)
    show "unat (s_free ?S) = nobj C" if "s \<in> set F" using that t(1) by simp
    show "0 < unat (s_free ?S) \<and> unat (s_free ?S) < nobj C" if "s \<in> set P"
    proof -
      have "\<not> ?e" using that t(2) by (auto split: if_splits)
      then have "0 < unat (s_free S - 1)" by (simp add: unat_gt_0)
      then show ?thesis using rl(2) le by simp
    qed
    show "unat (s_free ?S) = 0" if "s \<in> set E"
    proof -
      have ?e using that t(3) notE by (auto split: if_splits)
      then show ?thesis by simp
    qed
    show "used_obj ?sh ?h cc a" if "a \<in> set Cs" "used_obj sh h cc a" for a using ku that c'(2) by simp
  qed (use mem t rl(4) in \<open>auto split: if_splits\<close>)
  have ev: "evolves (set (cc # Cs)) sh h ?sh ?h" using s(3) su unfolding evolves_def by (auto simp: NQ(1))
  have bk: "used_obj sh h e a \<and> (e \<noteq> c \<or> a \<noteq> obj_addr C S i)" if e: "e \<in> set (cc # Cs)" "used_obj ?sh ?h e a" for e a
  proof -
    obtain D where D: "caches h e = Some D" using d(4) [OF e(1)] by (auto simp: cache_inv_def)
    obtain t T j where u: "t \<in> set (slabs_of ?sh e)" "slabs ?h t = Some T" "j < nobj D" "j \<notin> unat ` set (free_objs T)" "a = obj_addr D T j"
      by (rule used_obj_back [OF e(2) D]) (use D s(3) in \<open>cases "e = c"; auto simp: NQ(1)\<close>)
    show ?thesis
    proof (cases "t = s")
      case False
      then have o: "t \<in> set (slabs_of sh e)" "slabs h t = Some T" using u(1,2) su by (simp_all add: NQ(1))
      have "a \<noteq> obj_addr C S i" if "e = c"
        using object_unique [OF inv c'(1) s(3) _ _ _ s(1,2) i(1), of t T j] o u(3,5) that D s(3) False by auto
      then show ?thesis using o u(3-5) D unfolding used_obj_def by blast
    next
      case True
      have ec: "e = c" using cells_apartD(2) [OF d(3) e(1) c'(1)] su u(1) s(1) True by (auto simp: cells_def)
      have DC: "D = C" "T = ?S" using D s(3) u(2) True ec by (simp_all add: NQ(1))
      have a: "a = obj_addr C S j" using u(5) DC by (simp add: obj_addr_def)
      have "unat (of_nat i :: u32) = i" using i(1) cache_wf_bounds [OF S(1)] by (intro unat_le_of_nat) simp
      then have j: "j \<noteq> i" "j \<notin> unat ` set (free_objs S)" using u(4) unfolding DC(2) rl(3) by auto
      have "a \<noteq> obj_addr C S i" using object_unique [OF inv c'(1) s(3) s(1,2) _ s(1,2) i(1), of j] u(3) DC a j(1) by auto
      then show ?thesis using a j(2) ec s u(3) DC unfolding used_obj_def by blast
    qed
  qed
  then have "accounts (set (cc # Cs)) {} sh h ?sh ?h" using su unfolding accounts_def by (auto simp: NQ(1))
  then show thesis using that [OF run hi ev ku] bk c'(1) by (auto simp: NQ(1))
qed

section \<open>Finding the slab of an object\<close>

definition holds :: "heap \<Rightarrow> Cache \<Rightarrow> u64 \<Rightarrow> u64 \<Rightarrow> bool" where
  "holds h C p s \<longleftrightarrow> (case slabs h s of None \<Rightarrow> False
     | Some S \<Rightarrow> p \<ge> s_memory S \<and> p < s_memory S + objsize C * objs_per_slab C)"

text \<open>The loop of \<open>cache_dealloc_within\<close> visits the slabs of the list in order and ends at its head.\<close>

lemma dealloc_loop_find:
  assumes "prv h first = Some l" "caches h c = Some C"
  shows "(case ys of [] \<Rightarrow> True | y # zs \<Rightarrow> chain h y zs l) \<Longrightarrow> l \<notin> set ys \<Longrightarrow> list_all (\<lambda>y. slabs h y \<noteq> None) ys \<Longrightarrow>
    dealloc_loop c first (case ys of [] \<Rightarrow> l | y # _ \<Rightarrow> y) p h =
      (case find (holds h C p) ys of None \<Rightarrow> Some (False, h)
       | Some s \<Rightarrow> do { h' \<leftarrow> slab_release c s C (the (slabs h s)) p h; Some (True, h') })"
proof (induction ys)
  case Nil
  then show ?case using assms by (simp add: dealloc_loop.simps [of c first l])
next
  case (Cons y zs)
  obtain S where S: "slabs h y = Some S" using Cons.prems(3) by auto
  have ch: "chain h y zs l" "y \<noteq> l" using Cons.prems(1,2) by auto
  show ?case
  proof (cases "holds h C p y")
    case True
    then show ?thesis using assms S ch(2) by (simp add: dealloc_loop.simps [of c first y] holds_def)
  next
    case False
    have n: "nxt h y = Some (case zs of [] \<Rightarrow> l | z # _ \<Rightarrow> z)" "case zs of [] \<Rightarrow> True | z # zs' \<Rightarrow> chain h z zs' l"
      using ch(1) by (cases zs; simp)+
    have "dealloc_loop c first y p h = dealloc_loop c first (case zs of [] \<Rightarrow> l | z # _ \<Rightarrow> z) p h"
      using assms S ch(2) False n(1) by (auto simp: dealloc_loop.simps [of c first y] holds_def)
    also have "\<dots> = (case find (holds h C p) zs of None \<Rightarrow> Some (False, h)
       | Some s \<Rightarrow> do { h' \<leftarrow> slab_release c s C (the (slabs h s)) p h; Some (True, h') })"
      by (rule Cons.IH [OF n(2)]) (use Cons.prems(2,3) in auto)
    finally show ?thesis using False by simp
  qed
qed

lemma dealloc_within_find:
  assumes r: "ring h l xs" and ne: "xs = x # xs'" and C: "caches h c = Some C" and all: "list_all (\<lambda>y. slabs h y \<noteq> None) xs"
  shows "cache_dealloc_within c x p h =
    (case find (holds h C p) xs of None \<Rightarrow> Some (False, h)
     | Some s \<Rightarrow> do { h' \<leftarrow> slab_release c s C (the (slabs h s)) p h; Some (True, h') })"
proof -
  have "prv h x = Some l" "chain h x xs' l" "l \<notin> set xs" using r ne by (simp_all add: ring_def)
  then show ?thesis using dealloc_loop_find [of h x l c C xs p] C all ne by (simp add: cache_dealloc_within_def)
qed

lemma holds_unique:
  assumes inv: "heap_inv sh cc Cs h" and c: "c \<in> set (cc # Cs)" "caches h c = Some C"
    and s: "s \<in> set (slabs_of sh c)" "slabs h s = Some S" "i < nobj C" and t: "t \<in> set (slabs_of sh c)"
  shows "holds h C (obj_addr C S i) t \<longleftrightarrow> t = s"
proof -
  note pg = heap_invD(1) [OF inv]
  obtain q n where r: "cache_wf C" "slab_at (pages h) c C S s" "run (pages h) q n s"
    using slab_of_cache [OF inv c(1) s(1)] s(2) c(2) by (metis option.inject)
  obtain T q' n' where T: "slabs h t = Some T" "slab_at (pages h) c C T t" "run (pages h) q' n' t"
    using slab_of_cache [OF inv c(1) t] c(2) by (metis option.inject)
  have n0: "0 < nobj C" "nobj C - 1 < nobj C" using r(1) by (auto simp: cache_wf_def)
  note o = slab_objects [OF pg r s(3)]
  note e = slab_objects [OF pg r(1) T(2,3) n0(2)] slab_memory(1) [OF pg r(1) T(2)]
  have last: "osz C * (nobj C - 1) + osz C = osz C * nobj C" using n0(1) by (metis Suc_diff_1 mult_Suc_right add.commute)
  have H: "holds h C (obj_addr C S i) t \<longleftrightarrow> unat (s_memory T) \<le> unat (obj_addr C S i) \<and> unat (obj_addr C S i) < unat (s_memory T) + osz C * nobj C"
    using T(1) e(5) by (simp add: holds_def word_le_nat_alt word_less_nat_alt)
  show ?thesis
  proof (cases "t = s")
    case True
    then have "T = S" using T(1) s(2) by simp
    moreover have "osz C * i < osz C * nobj C" using s(3) r(1) by (simp add: cache_wf_def)
    ultimately show ?thesis using H o(1) True by simp
  next
    case False
    have "0 < osz C" using r(1) by (simp add: cache_wf_def)
    then show ?thesis using H False o(2,3) e(1,3,6) last run_apart [OF pg r(3) T(3)] by auto
  qed
qed

lemma find_only: "(\<And>x. x \<in> set xs \<Longrightarrow> P x \<longleftrightarrow> x = s) \<Longrightarrow> find P xs = (if s \<in> set xs then Some s else None)"
  by (induction xs) auto

lemma cache_dealloc_ok:
  assumes inv: "heap_inv sh cc Cs h" and c: "c \<in> set Cs" and p: "used_obj sh h c p"
  obtains sh' h' where "cache_dealloc c p h = Some h'" "heap_inv sh' cc Cs h'" "evolves (set (cc # Cs)) sh h sh' h'"
    "\<And>e a. e \<in> set (cc # Cs) \<Longrightarrow> used_obj sh h e a \<Longrightarrow> e \<noteq> c \<or> a \<noteq> p \<Longrightarrow> used_obj sh' h' e a" "pages h' = pages h"
    "accounts (set (cc # Cs)) {} sh h sh' h'" "\<not> used_obj sh' h' c p"
proof -
  have c': "c \<in> set (cc # Cs)" using c by simp
  obtain s S C i where u: "s \<in> set (slabs_of sh c)" "slabs h s = Some S" "caches h c = Some C" "i < nobj C" "i \<notin> unat ` set (free_objs S)" "p = obj_addr C S i"
    using p by (auto simp: used_obj_def)
  note r = rings_of [OF inv c', unfolded rings_def]
  have ex: "list_all (\<lambda>y. slabs h y \<noteq> None) (fullS sh c)" "list_all (\<lambda>y. slabs h y \<noteq> None) (partialS sh c)"
  proof -
    have "slabs h y \<noteq> None" if "y \<in> set (slabs_of sh c)" for y
      by (rule slab_of_cache [OF inv c' that]) simp
    then show "list_all (\<lambda>y. slabs h y \<noteq> None) (fullS sh c)" "list_all (\<lambda>y. slabs h y \<noteq> None) (partialS sh c)"
      by (auto simp: list_all_iff slabs_of_def)
  qed
  have sub: "set (fullS sh c) \<subseteq> set (slabs_of sh c)" "set (partialS sh c) \<subseteq> set (slabs_of sh c)" by (auto simp: slabs_of_def)
  have h: "find (holds h C p) xs = (if s \<in> set xs then Some s else None)" if "set xs \<subseteq> set (slabs_of sh c)" for xs
    by (rule find_only) (use that holds_unique [OF inv c' u(3,1,2,4)] u(6) in blast)
  have nz: "\<And>x. x \<in> set (slabs_of sh c) \<Longrightarrow> x \<noteq> 0" using slab_nonzero [OF inv c'] .
  have within: "do { s \<leftarrow> list_next l h; if s \<noteq> 0 then cache_dealloc_within c s p h else Some (False, h) } =
      (if s \<in> set xs then do { h' \<leftarrow> slab_release c s C S p h; Some (True, h') } else Some (False, h))"
    if "ring h l xs" "set xs \<subseteq> set (slabs_of sh c)" "list_all (\<lambda>y. slabs h y \<noteq> None) xs" for l xs
  proof (cases xs)
    case Nil
    then show ?thesis using list_next_ring [OF that(1)] by simp
  next
    case (Cons x xs')
    then have "x \<noteq> 0" using nz that(2) by auto
    then show ?thesis
      using list_next_ring [OF that(1)] dealloc_within_find [OF that(1) Cons u(3) that(3), of p] h [OF that(2)] u(2) Cons by auto
  qed
  have sFP: "s \<in> set (fullS sh c) \<or> s \<in> set (partialS sh c)"
  proof -
    obtain q n where "slab_at (pages h) c C S s" using slab_of_cache [OF inv c' u(1)] u(2,3) by (metis option.inject)
    then have "s_free S \<noteq> 0" using used_not_fresh u(4,5) by blast
    then show ?thesis using u(1) slab_class(3) [OF inv c' u(3,2)] by (auto simp: slabs_of_def unat_eq_0)
  qed
  obtain x1 x2 where x: "list_next c h = Some x1" "list_next (c + 16) h = Some x2" using list_next_ring r by blast
  have w: "(if x1 \<noteq> 0 then cache_dealloc_within c x1 p h else Some (False, h)) = (if s \<in> set (fullS sh c) then do { h' \<leftarrow> slab_release c s C S p h; Some (True, h') } else Some (False, h))"
    "(if x2 \<noteq> 0 then cache_dealloc_within c x2 p h else Some (False, h)) = (if s \<in> set (partialS sh c) then do { h' \<leftarrow> slab_release c s C S p h; Some (True, h') } else Some (False, h))"
    using within [OF _ sub(1) ex(1), of c] within [OF _ sub(2) ex(2), of "c + 16"] r x by simp_all
  have eq: "cache_dealloc c p h = slab_release c s C S p h"
    unfolding cache_dealloc_def x bind.bind_lunit w(1)
    using sFP w(2) x(2) by (cases "s \<in> set (fullS sh c)"; cases "slab_release c s C S p h") simp_all
  show thesis
    using slab_release_ok [OF inv c u(1-5)] that eq u(6) by metis
qed

end
