(* ===== verification/Slab_Alloc.thy ===== *)
theory Slab_Alloc
  imports Slab_Ops
begin

text \<open>
  \<open>kmalloc\<close> and \<open>kfree\<close> against an abstract map from the blocks that are handed out to their sizes: the blocks do
  not overlap each other or the allocator's own data, whatever the order of the calls.
\<close>

section \<open>Objects in use are apart\<close>

lemma used_apart:
  assumes inv: "heap_inv sh cc Cs h" and c: "c \<in> set (cc # Cs)" "used_obj sh h c a" "caches h c = Some C"
    and c': "c' \<in> set (cc # Cs)" "used_obj sh h c' a'" "caches h c' = Some C'" and ne: "c \<noteq> c' \<or> a \<noteq> a'"
  shows "unat a + osz C \<le> unat a' \<or> unat a' + osz C' \<le> unat a"
proof -
  note pg = heap_invD(1) [OF inv]
  obtain s S i q n where u: "s \<in> set (slabs_of sh c)" "slabs h s = Some S" "cache_wf C" "slab_at (pages h) c C S s"
    "run (pages h) q n s" "i < nobj C" "a = obj_addr C S i" using used_place [OF inv c(1,2)] c(3) by (metis option.inject)
  obtain s' S' i' q' n' where u': "s' \<in> set (slabs_of sh c')" "slabs h s' = Some S'" "cache_wf C'" "slab_at (pages h) c' C' S' s'"
    "run (pages h) q' n' s'" "i' < nobj C'" "a' = obj_addr C' S' i'" using used_place [OF inv c'(1,2)] c'(3) by (metis option.inject)
  show ?thesis
  proof (cases "s = s'")
    case False
    then show ?thesis using objects_differ [OF pg u(3) u'(3) u(4) u'(4) u(5) u'(5) u(6) u'(6)] u(7) u'(7) by simp
  next
    case True
    have cc': "c = c'"
    proof (rule ccontr)
      assume "c \<noteq> c'"
      from cells_apartD(2) [OF heap_invD(3) [OF inv] c(1) c'(1) this] show False using u(1) u'(1) True by (auto simp: cells_def)
    qed
    then have eq: "C' = C" "S' = S" using c(3) c'(3) u(2) u'(2) True by auto
    then have "i \<noteq> i'" using ne cc' u(7) u'(7) by auto
    then show ?thesis using objects_differ_same [OF pg u(3-6), of i'] u'(6,7) u(7) eq by simp
  qed
qed

text \<open>An object in use never starts an allocated run, and lies in the run of its slab.\<close>

lemma used_in_run:
  assumes inv: "heap_inv sh cc Cs h" and c: "c \<in> set (cc # Cs)" "used_obj sh h c a" "caches h c = Some C" and r: "run (pages h) q n b"
    and b: "\<And>e. e \<in> set (cc # Cs) \<Longrightarrow> b \<notin> set (slabs_of sh e)"
  shows "unat a + osz C \<le> unat b \<or> unat b + n * 4096 \<le> unat a"
proof -
  note pg = heap_invD(1) [OF inv]
  obtain s q' n' where u: "s \<in> set (slabs_of sh c)" "run (pages h) q' n' s" "unat s + 40 \<le> unat a" "unat a + osz C \<le> unat s + n' * 4096"
    using used_place [OF inv c(1,2)] c(3) by (metis option.inject)
  have "s \<noteq> b" using u(1) b c(1) by blast
  then show ?thesis using run_apart [OF pg u(2) r] u(3,4) by linarith
qed

lemma used_not_run:
  assumes inv: "heap_inv sh cc Cs h" and c: "c \<in> set (cc # Cs)" "used_obj sh h c a"
  shows "\<not> run (pages h) q n a"
proof
  assume r: "run (pages h) q n a"
  note pg = heap_invD(1) [OF inv]
  obtain s C q' n' where u: "run (pages h) q' n' s" "unat s + 40 \<le> unat a" "unat a + osz C \<le> unat s + n' * 4096" "cache_wf C"
    using used_place [OF inv c] by metis
  have "s \<noteq> a" using u(2) by auto
  then show False using run_apart [OF pg u(1) r] u(2,3,4) run_facts(1) [OF pg r] by (auto simp: cache_wf_def)
qed

lemma cache_nonzero:
  assumes "heap_inv sh cc Cs h" "c \<in> set (cc # Cs)"
  shows "c \<noteq> 0"
proof (cases "c = cc")
  case True
  then show ?thesis using heap_invD(5) [OF assms(1)] run_facts(4) [OF heap_invD(1) [OF assms(1)]] by blast
next
  case False
  then have "used_obj sh h cc c" using heap_invD(6) [OF assms(1)] assms(2) by auto
  then show ?thesis using used_place [OF assms(1), of cc c] by fastforce
qed

text \<open>The invariant depends on the pages only through the runs of the slabs and of the first cache.\<close>

lemma heap_inv_pages:
  assumes inv: "heap_inv sh cc Cs h" and pg: "pg_ok ps"
    and runs: "\<And>c s q n. c \<in> set (cc # Cs) \<Longrightarrow> s \<in> set (slabs_of sh c) \<Longrightarrow> run (pages h) q n s \<Longrightarrow> run ps q n s"
    and cc: "\<And>q n. run (pages h) q n cc \<Longrightarrow> run ps q n cc"
  shows "heap_inv sh cc Cs (h\<lparr> pages := ps, hdrs := H \<rparr>)"
proof -
  let ?h = "h\<lparr> pages := ps, hdrs := H \<rparr>"
  note d = heap_invD [OF inv]
  have ring: "ring ?h l xs = ring h l xs" for l xs by (rule ring_same) simp_all
  have "cache_inv sh ?h c" if c: "c \<in> set (cc # Cs)" for c
  proof -
    have si: "slab_in ?h c C P s" if "slab_in h c C P s" "s \<in> set (slabs_of sh c)" for C P s
      using that runs [OF c that(2)] unfolding slab_in_def slab_at_def by auto blast
    show ?thesis using d(4) [OF c] si unfolding cache_inv_def ring by (auto simp: slabs_of_def)
  qed
  moreover have "used_obj sh ?h cc a = used_obj sh h cc a" for a by (simp add: used_obj_def)
  moreover have "\<exists>q n. run ps q n cc" using d(5) cc by blast
  ultimately show ?thesis using d(2,3,6,7) pg unfolding heap_inv_def by simp
qed

section \<open>Blocks\<close>

lemma HDR_SIZE_eq: "HDR_SIZE = 32"
  by (simp add: HDR_SIZE_def SIZEOF_ALLOC_HDR_def ALLOC_ALIGNMENT_def)

definition slab_block :: "shape \<Rightarrow> u64 list \<Rightarrow> heap \<Rightarrow> AllocHdr \<Rightarrow> u64 \<Rightarrow> nat \<Rightarrow> bool" where
  "slab_block sh Cs h hdr a sz \<longleftrightarrow> h_cache hdr \<in> set Cs \<and> used_obj sh h (h_cache hdr) a \<and>
     (\<exists>C. caches h (h_cache hdr) = Some C \<and> 32 + sz \<le> osz C)"

definition raw_block :: "shape \<Rightarrow> u64 \<Rightarrow> u64 list \<Rightarrow> heap \<Rightarrow> AllocHdr \<Rightarrow> u64 \<Rightarrow> nat \<Rightarrow> bool" where
  "raw_block sh cc Cs h hdr a sz \<longleftrightarrow> h_cache hdr = 0 \<and> h_raw_base hdr = a \<and> (\<exists>q n. run (pages h) q n a \<and> 32 + sz \<le> n * 4096) \<and>
     a \<noteq> cc \<and> (\<forall>c \<in> set (cc # Cs). a \<notin> set (slabs_of sh c))"

text \<open>A block of \<open>sz\<close> bytes at \<open>p\<close>, behind its header.\<close>

definition block_ok :: "shape \<Rightarrow> u64 \<Rightarrow> u64 list \<Rightarrow> heap \<Rightarrow> u64 \<Rightarrow> nat \<Rightarrow> bool" where
  "block_ok sh cc Cs h p sz \<longleftrightarrow> 0 < sz \<and> (\<exists>hdr. hdrs h (p - 32) = Some hdr \<and> h_magic hdr = ALLOC_MAGIC \<and>
     (slab_block sh Cs h hdr (p - 32) sz \<or> raw_block sh cc Cs h hdr (p - 32) sz))"

definition size_table :: "u64 list \<Rightarrow> heap \<Rightarrow> bool" where
  "size_table Cs h \<longleftrightarrow> length Cs = 8 \<and>
     (\<forall>i < 8. \<exists>C. caches h (Cs ! i) = Some C \<and> osz C = 32 * 2 ^ i \<and> nobj C = max 1 (4056 div (32 * 2 ^ i + 4)))"

text \<open>The blocks account for all that is in use: every object taken from a size cache is a block, and so is every run of
  allocated pages that is neither the first cache nor a slab.\<close>

definition covered :: "shape \<Rightarrow> u64 \<Rightarrow> u64 list \<Rightarrow> (u64 \<rightharpoonup> nat) \<Rightarrow> heap \<Rightarrow> bool" where
  "covered sh cc Cs B h \<longleftrightarrow> (\<forall>c \<in> set Cs. \<forall>a. used_obj sh h c a \<longrightarrow> B (a + 32) \<noteq> None) \<and>
     (\<forall>q n a. run (pages h) q n a \<longrightarrow> a = cc \<or> (\<exists>c \<in> set (cc # Cs). a \<in> set (slabs_of sh c)) \<or> B (a + 32) \<noteq> None)"

lemma coveredD:
  assumes "covered sh cc Cs B h"
  shows "\<And>c a. c \<in> set Cs \<Longrightarrow> used_obj sh h c a \<Longrightarrow> B (a + 32) \<noteq> None"
    and "\<And>q n a. run (pages h) q n a \<Longrightarrow> a = cc \<or> (\<exists>c \<in> set (cc # Cs). a \<in> set (slabs_of sh c)) \<or> B (a + 32) \<noteq> None"
  using assms unfolding covered_def by blast+

lemma covered_hdrs: "covered sh cc Cs B (h\<lparr> hdrs := H \<rparr>) = covered sh cc Cs B h"
  by (simp add: covered_def used_obj_def)

text \<open>The heap with exactly the blocks \<open>B\<close> handed out.\<close>

definition heap_ok :: "(u64 \<rightharpoonup> nat) \<Rightarrow> heap \<Rightarrow> bool" where
  "heap_ok B h \<longleftrightarrow> (\<exists>sh. heap_inv sh (cache_cache h) (size_caches h) h \<and> size_table (size_caches h) h \<and>
     (\<forall>p sz. B p = Some sz \<longrightarrow> block_ok sh (cache_cache h) (size_caches h) h p sz) \<and> covered sh (cache_cache h) (size_caches h) B h)"

lemma block_cases:
  assumes "block_ok sh cc Cs h p sz"
  obtains (slab) hdr C where "hdrs h (p - 32) = Some hdr" "h_magic hdr = ALLOC_MAGIC" "0 < sz" "h_cache hdr \<in> set Cs"
      "used_obj sh h (h_cache hdr) (p - 32)" "caches h (h_cache hdr) = Some C" "32 + sz \<le> osz C"
  | (raw) hdr q n where "hdrs h (p - 32) = Some hdr" "h_magic hdr = ALLOC_MAGIC" "0 < sz" "h_cache hdr = 0" "h_raw_base hdr = p - 32"
      "run (pages h) q n (p - 32)" "32 + sz \<le> n * 4096" "p - 32 \<noteq> cc" "\<And>c. c \<in> set (cc # Cs) \<Longrightarrow> p - 32 \<notin> set (slabs_of sh c)"
  using assms unfolding block_ok_def slab_block_def raw_block_def by blast

text \<open>A block with its header, as an interval of addresses, and where it lies.\<close>

lemma block_extent:
  assumes inv: "heap_inv sh cc Cs h" and b: "block_ok sh cc Cs h p sz"
  shows "unat p = unat (p - 32) + 32" "16 dvd unat p"
    "\<exists>q n a. run (pages h) q n a \<and> unat a \<le> unat (p - 32) \<and> unat p + sz \<le> unat a + n * 4096"
proof -
  note pg = heap_invD(1) [OF inv]
  have "16 dvd unat (p - 32) \<and> (\<exists>q n a. run (pages h) q n a \<and> unat a \<le> unat (p - 32) \<and> unat (p - 32) + (32 + sz) \<le> unat a + n * 4096)"
  proof (cases rule: block_cases [OF b])
    case (1 hdr C)
    have c: "h_cache hdr \<in> set (cc # Cs)" using 1(4) by simp
    obtain s q n where "run (pages h) q n s" "unat s + 40 \<le> unat (p - 32)" "unat (p - 32) + osz C \<le> unat s + n * 4096" "16 dvd unat (p - 32)"
      using used_place [OF inv c 1(5)] 1(6) by (metis option.inject)
    then show ?thesis using 1(7) by (intro conjI exI [of _ q] exI [of _ n] exI [of _ s]) auto
  next
    case (2 hdr q n)
    have "16 dvd unat (p - 32)" using run_facts(5) [OF pg 2(6)] by (auto simp: dvd_def)
    then show ?thesis using 2(6,7) by (intro conjI exI [of _ q] exI [of _ n] exI [of _ "p - 32"]) auto
  qed
  then obtain q n a where r: "16 dvd unat (p - 32)" "run (pages h) q n a" "unat a \<le> unat (p - 32)" "unat (p - 32) + (32 + sz) \<le> unat a + n * 4096" by blast
  have "unat ((p - 32) + 32) = unat (p - 32) + 32" using r(4) run_facts(6) [OF pg r(2)] by (subst unat_add_no_wrap) auto
  then show u: "unat p = unat (p - 32) + 32" by simp
  show "16 dvd unat p" unfolding u using r(1) by presburger
  have "unat p + sz \<le> unat a + n * 4096" using r(4) u by linarith
  then show "\<exists>q n a. run (pages h) q n a \<and> unat a \<le> unat (p - 32) \<and> unat p + sz \<le> unat a + n * 4096" using r(2,3) by blast
qed

lemma blocks_apart:
  assumes inv: "heap_inv sh cc Cs h" and b: "block_ok sh cc Cs h p m" and b': "block_ok sh cc Cs h p' m'" and ne: "p \<noteq> p'"
  shows "unat p + m \<le> unat (p' - 32) \<or> unat p' + m' \<le> unat (p - 32)"
proof -
  note pg = heap_invD(1) [OF inv]
  note u = block_extent(1) [OF inv b] block_extent(1) [OF inv b']
  have ne': "p - 32 \<noteq> p' - 32" using ne by simp
  show ?thesis
  proof (cases rule: block_cases [OF b])
    case (1 hdr C)
    show ?thesis
    proof (cases rule: block_cases [OF b'])
      case (1 hdr' C')
      then show ?thesis using used_apart [OF inv, of "h_cache hdr" "p - 32" C "h_cache hdr'" "p' - 32" C'] \<open>h_cache hdr \<in> set Cs\<close> \<open>used_obj sh h (h_cache hdr) (p - 32)\<close>
          \<open>caches h (h_cache hdr) = Some C\<close> \<open>32 + m \<le> osz C\<close> ne' u by auto
    next
      case (2 hdr' q n)
      then show ?thesis using used_in_run [OF inv, of "h_cache hdr" "p - 32" C q n "p' - 32"] 1 u by auto
    qed
  next
    case (2 hdr q n)
    show ?thesis
    proof (cases rule: block_cases [OF b'])
      case (1 hdr' C')
      then show ?thesis using used_in_run [OF inv, of "h_cache hdr'" "p' - 32" C' q n "p - 32"] 2 u by auto
    next
      case (2 hdr' q' n')
      then show ?thesis using run_apart [OF pg \<open>run (pages h) q n (p - 32)\<close> 2(6) ne'] \<open>32 + m \<le> n * 4096\<close> u by auto
    qed
  qed
qed

text \<open>Blocks survive a step of the allocator that keeps what they use.\<close>

lemma block_ok_step:
  assumes b: "block_ok sh cc Cs h p sz" and ev: "evolves (set (cc # Cs)) sh h sh' h'"
    and used: "\<And>c. c \<in> set Cs \<Longrightarrow> used_obj sh h c (p - 32) \<Longrightarrow> used_obj sh' h' c (p - 32)"
    and H: "H (p - 32) = hdrs h (p - 32)"
  shows "block_ok sh' cc Cs (h'\<lparr> hdrs := H \<rparr>) p sz"
proof -
  have uo: "used_obj sh' (h'\<lparr> hdrs := H \<rparr>) c a = used_obj sh' h' c a" for c a by (simp add: used_obj_def)
  note e = evolvesD [OF ev]
  show ?thesis
  proof (cases rule: block_cases [OF b])
    case (1 hdr C)
    obtain C' where C': "caches h' (h_cache hdr) = Some C'" "objsize C' = objsize C" using e(6) [OF 1(6)] by blast
    have "slab_block sh' Cs (h'\<lparr> hdrs := H \<rparr>) hdr (p - 32) sz"
      unfolding slab_block_def uo using 1(4,7) C' used [OF 1(4,5)] by simp
    then show ?thesis unfolding block_ok_def using 1(1-3) H by auto
  next
    case (2 hdr q n)
    have "p - 32 \<notin> set (slabs_of sh' c)" if "c \<in> set (cc # Cs)" for c
      using e(7) [OF that, of "p - 32"] 2(9) [OF that] 2(6) by blast
    then have "raw_block sh' cc Cs (h'\<lparr> hdrs := H \<rparr>) hdr (p - 32) sz"
      unfolding raw_block_def using 2(4,5,7,8) e(1) [OF 2(6)] by auto
    then show ?thesis unfolding block_ok_def using 2(1-3) H by auto
  qed
qed

section \<open>\<open>kmalloc\<close>\<close>

text \<open>The cache picked is the first of the table whose objects hold the block with its header.\<close>

lemma pick_from_first:
  "unat sz * 2 ^ length cs < 2 ^ 64 \<Longrightarrow>
   pick_from cs sz tot = (let k = length (takeWhile (\<lambda>i. unat sz * 2 ^ i < unat tot) [0..<length cs]) in if k < length cs then cs ! k else 0)"
proof (induction cs arbitrary: sz)
  case (Cons c cs)
  have ups: "[0..<length (c # cs)] = 0 # map Suc [0..<length cs]" by (simp add: upt_conv_Cons map_Suc_upt del: upt_Suc)
  show ?case
  proof (cases "tot \<le> sz")
    case True
    then show ?thesis unfolding ups by (simp add: word_le_nat_alt)
  next
    case False
    have le: "unat sz * 2 \<le> unat sz * 2 * 2 ^ length cs" by simp
    have "unat sz * 2 * 2 ^ length cs < 2 ^ 64" using Cons.prems by (simp add: mult.assoc)
    with le have "unat sz * 2 < 2 ^ 64" by (rule le_less_trans)
    then have "unat (sz * 2) = unat sz * 2" by (subst unat_mult_no_wrap) auto
    then have u: "unat (push_bit 1 sz) = unat sz * 2" by (simp add: push_bit_eq_mult)
    have "takeWhile (\<lambda>i. unat sz * 2 ^ i < unat tot) (0 # map Suc [0..<length cs]) =
        0 # map Suc (takeWhile (\<lambda>i. unat sz * 2 * 2 ^ i < unat tot) [0..<length cs])"
      using False by (simp add: word_le_nat_alt takeWhile_map comp_def mult.assoc)
    moreover have "unat (push_bit 1 sz) * 2 ^ length cs < 2 ^ 64" using Cons.prems u by (simp add: mult.assoc)
    ultimately have ih: "pick_from cs (push_bit 1 sz) tot = (let k = length (takeWhile (\<lambda>i. unat sz * 2 * 2 ^ i < unat tot) [0..<length cs])
        in if k < length cs then cs ! k else 0)" and tw: "length (takeWhile (\<lambda>i. unat sz * 2 ^ i < unat tot) (0 # map Suc [0..<length cs])) =
          Suc (length (takeWhile (\<lambda>i. unat sz * 2 * 2 ^ i < unat tot) [0..<length cs]))"
      using Cons.IH [of "push_bit 1 sz"] unfolding u by simp_all
    have "pick_from (c # cs) sz tot = pick_from cs (push_bit 1 sz) tot" using False by simp
    then show ?thesis unfolding ups tw ih Let_def by simp
  qed
qed simp

text \<open>The class of a request: the size caches hold objects of 32 to 4096 bytes, the header included. And the pages
  that are asked for when no object of the class is left: one for the classes up to 2048, two for the class of 4096,
  and those that hold the block, its header and its alignment where no class fits.\<close>

definition size_class :: "nat \<Rightarrow> nat" where
  "size_class m = length (takeWhile (\<lambda>i. 32 * 2 ^ i < m + 32) [0..<8])"

definition pages_asked :: "nat \<Rightarrow> nat" where
  "pages_asked m = (if m + 32 \<le> 2048 then 1 else if m + 32 \<le> 4096 then 2 else pages_for (m + 47))"

lemma upto_8: "[0..<8] = [0, 1, 2, 3, 4, 5, 6, 7 :: nat]"
  by (simp add: upt_rec)

lemma size_class_eq:
  "size_class m = (if m + 32 \<le> 32 then 0 else if m + 32 \<le> 64 then 1 else if m + 32 \<le> 128 then 2 else if m + 32 \<le> 256 then 3
     else if m + 32 \<le> 512 then 4 else if m + 32 \<le> 1024 then 5 else if m + 32 \<le> 2048 then 6 else if m + 32 \<le> 4096 then 7 else 8)"
  by (simp add: size_class_def upto_8)

lemma size_class_fits: "size_class m < 8 \<longleftrightarrow> m + 32 \<le> 4096" "m + 32 \<le> 4096 \<Longrightarrow> m + 32 \<le> 32 * 2 ^ size_class m"
  by (auto simp: size_class_eq)

lemma pick_cache_class:
  assumes "length (size_caches h) = 8" "unat (32 + sz) = 32 + unat sz"
  shows "pick_cache_for_total (32 + sz) h = (if unat sz + 32 \<le> 4096 then size_caches h ! size_class (unat sz) else 0)"
proof -
  have u: "unat KMALLOC_MIN = 32" by (simp add: KMALLOC_MIN_def)
  have "unat KMALLOC_MIN * 2 ^ length (size_caches h) < 2 ^ 64" unfolding u assms(1) by simp
  from pick_from_first [OF this, of "32 + sz"] have "pick_cache_for_total (32 + sz) h =
      (if size_class (unat sz) < 8 then size_caches h ! size_class (unat sz) else 0)"
    unfolding pick_cache_for_total_def u assms size_class_def Let_def by (simp only: add.commute [of 32 "unat sz"])
  then show ?thesis by (simp only: size_class_fits(1))
qed

lemma class_pages:
  assumes C: "cache_wf C" "osz C = 32 * 2 ^ size_class m" "nobj C = max 1 (4056 div (32 * 2 ^ size_class m + 4))" and m: "m + 32 \<le> 4096"
  shows "pages_for (unat (slab_mem C)) = pages_asked m"
  unfolding unat_slab_mem [OF C(1)] C(2,3) using m by (simp add: size_class_eq pages_asked_def pages_for_def layout_simps)

lemma size_table_evolves:
  assumes "size_table Cs h" "evolves K sh h sh' h'"
  shows "size_table Cs (h'\<lparr> hdrs := H \<rparr>)"
proof -
  have "\<exists>C. caches h' (Cs ! i) = Some C \<and> osz C = 32 * 2 ^ i \<and> nobj C = max 1 (4056 div (32 * 2 ^ i + 4))" if i: "i < 8" for i
  proof -
    obtain C where "caches h (Cs ! i) = Some C" "osz C = 32 * 2 ^ i" "nobj C = max 1 (4056 div (32 * 2 ^ i + 4))"
      using assms(1) i by (auto simp: size_table_def)
    then show ?thesis using evolvesD(6) [OF assms(2), of "Cs ! i" C] by auto
  qed
  then show ?thesis using assms(1) by (simp add: size_table_def)
qed

text \<open>The heap after a step, with the blocks \<open>B'\<close>: each is one of before, left alone, or shown to be good.\<close>

lemma heap_ok_step:
  assumes ok: "size_table (size_caches h) h" "\<And>p m. B p = Some m \<Longrightarrow> block_ok sh (cache_cache h) (size_caches h) h p m"
    and step: "heap_inv sh' (cache_cache h) (size_caches h) h'" "evolves (set (cache_cache h # size_caches h)) sh h sh' h'"
    and B': "\<And>p m. B' p = Some m \<Longrightarrow> block_ok sh' (cache_cache h) (size_caches h) (h'\<lparr> hdrs := H \<rparr>) p m \<or>
      B p = Some m \<and> H (p - 32) = hdrs h (p - 32) \<and>
      (\<forall>c. c \<in> set (size_caches h) \<and> used_obj sh h c (p - 32) \<longrightarrow> used_obj sh' h' c (p - 32))"
    and cov: "covered sh' (cache_cache h) (size_caches h) B' h'"
  shows "heap_ok B' (h'\<lparr> hdrs := H \<rparr>)"
proof -
  note e = evolvesD [OF step(2)]
  have "heap_inv sh' (cache_cache h) (size_caches h) (h'\<lparr> pages := pages h', hdrs := H \<rparr>)"
    by (rule heap_inv_pages [OF step(1) heap_invD(1) [OF step(1)]])
  moreover have "block_ok sh' (cache_cache h) (size_caches h) (h'\<lparr> hdrs := H \<rparr>) p m" if "B' p = Some m" for p m
    using B' [OF that] block_ok_step [OF ok(2) step(2), of p m H] by blast
  ultimately show ?thesis using size_table_evolves [OF ok(1) step(2), of H] e(3,4) cov unfolding heap_ok_def
    by (intro exI [of _ sh']) (simp add: covered_hdrs)
qed

lemma heap_okD:
  assumes "heap_ok B h"
  obtains sh where "heap_inv sh (cache_cache h) (size_caches h) h" "size_table (size_caches h) h"
    "\<And>p m. B p = Some m \<Longrightarrow> block_ok sh (cache_cache h) (size_caches h) h p m" "covered sh (cache_cache h) (size_caches h) B h"
  using assms unfolding heap_ok_def by blast

lemma covered_accounts:
  assumes cov: "covered sh cc Cs B h" and ac: "accounts (set (cc # Cs)) N sh h sh' h'"
    and N: "\<And>c a. (c, a) \<in> N \<Longrightarrow> c \<in> set Cs \<Longrightarrow> B' (a + 32) \<noteq> None" and B': "\<And>p. B p \<noteq> None \<Longrightarrow> B' p \<noteq> None"
  shows "covered sh' cc Cs B' h'"
  unfolding covered_def
proof (intro conjI ballI allI impI)
  show "B' (a + 32) \<noteq> None" if "c \<in> set Cs" "used_obj sh' h' c a" for c a
    using accountsD(3) [OF ac, of c a] coveredD(1) [OF cov that(1), of a] that N B' by auto
  show "a = cc \<or> (\<exists>c \<in> set (cc # Cs). a \<in> set (slabs_of sh' c)) \<or> B' (a + 32) \<noteq> None" if "run (pages h') q n a" for q n a
    using accountsD(2) [OF ac that] coveredD(2) [OF cov, of q n a] accountsD(1) [OF ac] B' by blast
qed

text \<open>A place that is in use after a step and was not before is the place of no block.\<close>

lemma fresh_object:
  assumes inv: "heap_inv sh' cc Cs h'" and ev: "evolves (set (cc # Cs)) sh h sh' h'" and ku: "keeps_used (set (cc # Cs)) sh h sh' h'"
    and c: "c \<in> set Cs" "used_obj sh' h' c a" "\<not> used_obj sh h c a"
  shows "\<not> block_ok sh cc Cs h (a + 32) m"
proof
  assume b: "block_ok sh cc Cs h (a + 32) m"
  have c': "c \<in> set (cc # Cs)" using c(1) by simp
  show False
  proof (cases rule: block_cases [OF b])
    case (1 hdr C)
    have u: "h_cache hdr \<in> set (cc # Cs)" "used_obj sh' h' (h_cache hdr) a" using 1(4,5) ku by (auto simp: keeps_used_def)
    have "h_cache hdr \<noteq> c" using 1(5) c(3) by auto
    moreover obtain D where D: "caches h' (h_cache hdr) = Some D" "cache_wf D" using used_place [OF inv u] by metis
    moreover obtain E where E: "caches h' c = Some E" "cache_wf E" using used_place [OF inv c' c(2)] by metis
    ultimately have "unat a + osz D \<le> unat a \<or> unat a + osz E \<le> unat a"
      using used_apart [OF inv u D(1) c' c(2) E(1)] by blast
    then show False using D(2) E(2) by (auto simp: cache_wf_def)
  next
    case (2 hdr q n)
    then have "run (pages h') q n a" using evolvesD(1) [OF ev] by simp
    then show False using used_not_run [OF inv c' c(2)] by blast
  qed
qed

lemma kmalloc_slab:
  assumes ok: "heap_ok B h" and c: "c \<in> set (size_caches h)" "\<And>C. caches h c = Some C \<Longrightarrow> 32 + m \<le> osz C" and m: "0 < m"
    and res: "cache_alloc c h = Some (a, h')" "a \<noteq> 0"
    and H: "H = (hdrs h')(a \<mapsto> \<lparr> h_magic = ALLOC_MAGIC, h_cache = c, h_raw_base = 0, h_raw_bytes = 0 \<rparr>)"
  shows "B (a + 32) = None" "a + 32 \<noteq> 0" "heap_ok (B(a + 32 \<mapsto> m)) (h'\<lparr> hdrs := H \<rparr>)"
proof -
  obtain sh where sh: "heap_inv sh (cache_cache h) (size_caches h) h" "size_table (size_caches h) h"
    "\<And>p m. B p = Some m \<Longrightarrow> block_ok sh (cache_cache h) (size_caches h) h p m" "covered sh (cache_cache h) (size_caches h) B h"
    using heap_okD [OF ok] by blast
  have c': "c \<in> set (cache_cache h # size_caches h)" using c(1) by simp
  obtain sh' where t: "heap_inv sh' (cache_cache h) (size_caches h) h'" "evolves (set (cache_cache h # size_caches h)) sh h sh' h'"
      "keeps_used (set (cache_cache h # size_caches h)) sh h sh' h'" "used_obj sh' h' c a" "\<not> used_obj sh h c a"
      "accounts (set (cache_cache h # size_caches h)) {(c, a)} sh h sh' h'"
  proof (cases rule: cache_alloc_ok [OF sh(1) c'])
    case 1
    then show thesis using res by simp
  next
    case (2 ptr sh' h2)
    have "ptr = a" "h2 = h'" using 2(1) res(1) by simp_all
    then show thesis using that [of sh'] 2 by simp
  qed
  note fr = fresh_object [OF t(1-3) c(1) t(4,5)]
  show new: "B (a + 32) = None" using fr sh(3) [of "a + 32"] by (cases "B (a + 32)") auto
  have b: "block_ok sh' (cache_cache h) (size_caches h) (h'\<lparr> hdrs := H \<rparr>) (a + 32) m"
  proof -
    obtain C where C: "caches h c = Some C" using heap_invD(4) [OF sh(1) c'] by (auto simp: cache_inv_def)
    obtain C' where C': "caches h' c = Some C'" "objsize C' = objsize C" using evolvesD(6) [OF t(2) C] by blast
    have "used_obj sh' (h'\<lparr> hdrs := H \<rparr>) c a" using t(4) by (simp add: used_obj_def)
    then show ?thesis using c(1) c(2) [OF C] C' m unfolding block_ok_def slab_block_def by (simp add: H)
  qed
  have "heap_inv sh' (cache_cache h) (size_caches h) (h'\<lparr> pages := pages h', hdrs := H \<rparr>)"
    by (rule heap_inv_pages [OF t(1) heap_invD(1) [OF t(1)]])
  then have "unat (a + 32) = unat a + 32" using block_extent(1) [OF _ b] by simp
  then show "a + 32 \<noteq> 0" by auto
  show "heap_ok (B(a + 32 \<mapsto> m)) (h'\<lparr> hdrs := H \<rparr>)"
  proof (rule heap_ok_step [OF sh(2,3) t(1,2)])
    fix p k assume "(B(a + 32 \<mapsto> m)) p = Some k"
    then consider "p = a + 32" "k = m" | "p \<noteq> a + 32" "B p = Some k" by (auto split: if_splits)
    then show "block_ok sh' (cache_cache h) (size_caches h) (h'\<lparr> hdrs := H \<rparr>) p k \<or>
      B p = Some k \<and> H (p - 32) = hdrs h (p - 32) \<and>
      (\<forall>c. c \<in> set (size_caches h) \<and> used_obj sh h c (p - 32) \<longrightarrow> used_obj sh' h' c (p - 32))"
    proof cases
      case 2
      have "p - 32 \<noteq> a" using 2(1) by auto
      then show ?thesis using 2(2) evolvesD(2) [OF t(2)] t(3) by (auto simp: H keeps_used_def)
    qed (use b in simp)
  next
    show "covered sh' (cache_cache h) (size_caches h) (B(a + 32 \<mapsto> m)) h'"
      by (rule covered_accounts [OF sh(4) t(6)]) auto
  qed auto
qed

lemma kmalloc_raw:
  assumes ok: "heap_ok B h" and m: "0 < m" "m + 47 \<le> unat k" "unat k \<le> PHYSICAL_MEMORY_SIZE"
    and res: "kernel_malloc k (pages h) = (a, ps)" "a \<noteq> 0"
    and H: "H = (hdrs h)(a \<mapsto> \<lparr> h_magic = ALLOC_MAGIC, h_cache = 0, h_raw_base = a, h_raw_bytes = k \<rparr>)"
  shows "ALIGN_UP (a + 32) 16 = a + 32" "B (a + 32) = None" "a + 32 \<noteq> 0" "heap_ok (B(a + 32 \<mapsto> m)) (h\<lparr> pages := ps, hdrs := H \<rparr>)"
proof -
  obtain sh where sh: "heap_inv sh (cache_cache h) (size_caches h) h" "size_table (size_caches h) h"
    "\<And>p m. B p = Some m \<Longrightarrow> block_ok sh (cache_cache h) (size_caches h) h p m" "covered sh (cache_cache h) (size_caches h) B h"
    using heap_okD [OF ok] by blast
  let ?K = "set (cache_cache h # size_caches h)" and ?h = "h\<lparr> pages := ps, hdrs := H \<rparr>"
  have k: "0 < unat k" using m by simp
  obtain q n where r: "run ps q n a" "unat k \<le> n * 4096" "pg_ok ps" "allocs (pages h) q = None" "\<And>q n a. run (pages h) q n a \<Longrightarrow> run ps q n a"
    "\<And>q' n' a'. run ps q' n' a' \<Longrightarrow> q' = q \<or> run (pages h) q' n' a'"
  proof (rule kernel_malloc_cases [OF heap_invD(1) [OF sh(1)] k m(3)])
    assume "kernel_malloc k (pages h) = (0, pages h)"
    then show thesis using res by simp
  next
    fix q n ps' a'
    assume "kernel_malloc k (pages h) = (a', ps')" "run ps' q n a'" "unat k \<le> n * 4096" "pg_ok ps'" "allocs (pages h) q = None"
      "\<And>q n a. run (pages h) q n a \<Longrightarrow> run ps' q n a" "\<And>q' n' a'. run ps' q' n' a' \<Longrightarrow> q' = q \<or> run (pages h) q' n' a'"
    then show thesis using that [of q n] res(1) by simp
  qed
  note f = run_facts [OF r(3,1)]
  have u: "unat (a + 32) = unat a + 32" using f(6) r(2) m by (subst unat_add_no_wrap) auto
  then show "a + 32 \<noteq> 0" by auto
  have "16 dvd unat a" using f(5) by (auto simp: dvd_def)
  then have "16 dvd unat (a + 32)" unfolding u by presburger
  moreover have "unat (ALIGN_UP (a + 32) 16) = (unat (a + 32) + 15) div 16 * 16" by (rule ALIGN_UP_16) (use u f(6) r(2) m in simp)
  ultimately have "unat (ALIGN_UP (a + 32) 16) = unat (a + 32)" by presburger
  then show "ALIGN_UP (a + 32) 16 = a + 32" by (rule word_unat_eq_iff [THEN iffD2])
  have not_run: "\<not> run (pages h) q' n' a" for q' n'
  proof
    assume r': "run (pages h) q' n' a"
    from run_unique [OF r(3) r(5) [OF r'] r(1)] show False using r' r(4) by (auto simp: run_def)
  qed
  have inv: "heap_inv sh (cache_cache h) (size_caches h) (h\<lparr> pages := ps, hdrs := hdrs h \<rparr>)"
    by (rule heap_inv_pages [OF sh(1) r(3) r(5) r(5)])
  have ev: "evolves ?K sh h sh (h\<lparr> pages := ps \<rparr>)" using r(5) by (simp add: evolves_def)
  have uo: "used_obj sh (h\<lparr> pages := ps \<rparr>) c b = used_obj sh h c b" for c b by (simp add: used_obj_def)
  have "\<not> block_ok sh (cache_cache h) (size_caches h) h (a + 32) j" for j
  proof
    assume b: "block_ok sh (cache_cache h) (size_caches h) h (a + 32) j"
    show False
    proof (cases rule: block_cases [OF b])
      case (1 hdr C)
      then show False using used_not_run [of sh "cache_cache h" "size_caches h" "h\<lparr> pages := ps \<rparr>" "h_cache hdr" a q n] inv uo r(1) by simp
    next
      case (2 hdr q n)
      then show False using not_run by simp
    qed
  qed
  then show new: "B (a + 32) = None" using sh(3) [of "a + 32"] by (cases "B (a + 32)") auto
  have not_slab: "a \<notin> set (slabs_of sh c)" if "c \<in> ?K" for c
    using slab_of_cache [OF sh(1) that, of a] not_run by metis
  have "a \<noteq> cache_cache h" using heap_invD(5) [OF sh(1)] not_run by auto
  moreover have "\<exists>q n. run ps q n a \<and> 32 + m \<le> n * 4096" using r(1,2) m(2) by (intro exI [of _ q] exI [of _ n]) simp
  ultimately have b: "block_ok sh (cache_cache h) (size_caches h) ?h (a + 32) m"
    unfolding block_ok_def raw_block_def using m(1) not_slab by (auto simp: H)
  have "heap_ok (B(a + 32 \<mapsto> m)) ((h\<lparr> pages := ps \<rparr>)\<lparr> hdrs := H \<rparr>)"
  proof (rule heap_ok_step [OF sh(2,3) _ ev])
    fix p j assume "(B(a + 32 \<mapsto> m)) p = Some j"
    then consider "p = a + 32" "j = m" | "p \<noteq> a + 32" "B p = Some j" by (auto split: if_splits)
    then show "block_ok sh (cache_cache h) (size_caches h) (h\<lparr> pages := ps, hdrs := H \<rparr>) p j \<or>
      B p = Some j \<and> H (p - 32) = hdrs h (p - 32) \<and>
      (\<forall>c. c \<in> set (size_caches h) \<and> used_obj sh h c (p - 32) \<longrightarrow> used_obj sh (h\<lparr> pages := ps \<rparr>) c (p - 32))"
    proof cases
      case 2
      have "p - 32 \<noteq> a" using 2(1) by auto
      then show ?thesis using 2(2) uo by (auto simp: H)
    qed (use b in simp)
  next
    have "x = a \<or> run (pages h) q' n' x" if "run ps q' n' x" for q' n' x using r(6) [OF that] r(1) that by (auto simp: run_def)
    then have "x = cache_cache h \<or> (\<exists>c \<in> ?K. x \<in> set (slabs_of sh c)) \<or> (B(a + 32 \<mapsto> m)) (x + 32) \<noteq> None" if "run ps q' n' x" for q' n' x
      using coveredD(2) [OF sh(4), of q' n' x] that by (cases "x = a") auto
    then show "covered sh (cache_cache h) (size_caches h) (B(a + 32 \<mapsto> m)) (h\<lparr> pages := ps \<rparr>)"
      unfolding covered_def uo using coveredD(1) [OF sh(4)] by auto
  qed (use inv in auto)
  then show "heap_ok (B(a + 32 \<mapsto> m)) ?h" by simp
qed

text \<open>The slabs a cache has: the members of its three lists.\<close>

definition listed :: "heap \<Rightarrow> u64 \<Rightarrow> u64 \<Rightarrow> bool" where
  "listed h c s \<longleftrightarrow> (\<exists>l \<in> {c, partial_head c, free_head c}. \<exists>xs. ring h l xs \<and> s \<in> set xs)"

lemma chain_unique: "chain h a xs l \<Longrightarrow> chain h a ys l \<Longrightarrow> l \<notin> set xs \<Longrightarrow> l \<notin> set ys \<Longrightarrow> xs = ys"
proof (induction xs arbitrary: a ys)
  case Nil
  then show ?case by (cases ys) auto
next
  case (Cons x xs)
  then show ?case by (cases ys) auto
qed

lemma ring_unique: "ring h l xs \<Longrightarrow> ring h l ys \<Longrightarrow> xs = ys"
  unfolding ring_def using chain_unique by fastforce

lemma listed_iff:
  assumes "heap_inv sh cc Cs h" "c \<in> set (cc # Cs)"
  shows "listed h c s \<longleftrightarrow> s \<in> set (slabs_of sh c)"
proof -
  have r: "ring h c (fullS sh c)" "ring h (c + 16) (partialS sh c)" "ring h (c + 32) (freeS sh c)"
    using rings_of [OF assms] by (simp_all add: rings_def)
  show ?thesis
  proof
    assume "listed h c s"
    then show "s \<in> set (slabs_of sh c)"
      unfolding listed_def slabs_of_def using ring_unique [OF r(1)] ring_unique [OF r(2)] ring_unique [OF r(3)] by auto
  next
    assume "s \<in> set (slabs_of sh c)"
    then show "listed h c s" unfolding listed_def slabs_of_def using r by auto
  qed
qed

text \<open>\<open>kmalloc\<close> on an initialised heap fails only when no run of free pages of the length it asks for is left, and
  no slab of the size class of the request has a free object.\<close>

definition no_room :: "heap \<Rightarrow> nat \<Rightarrow> bool" where
  "no_room h m \<longleftrightarrow> (\<forall>p. \<not> fits_at (allocs (pages h)) (pages_asked m) p) \<and>
     (m + 32 \<le> 4096 \<longrightarrow> (\<forall>s S. listed h (size_caches h ! size_class m) s \<longrightarrow> slabs h s = Some S \<longrightarrow> free_objs S = []))"

lemma fits_at_mono: "fits_at A n p \<Longrightarrow> k \<le> n \<Longrightarrow> fits_at A k p"
  unfolding fits_at_def by fastforce

lemma pages_for_le: "m \<le> n * 4096 \<Longrightarrow> pages_for m \<le> n"
  by (simp add: pages_for_def layout_simps less_Suc_eq_le [symmetric] less_mult_imp_div_less)

definition kmalloc_post :: "(u64 \<rightharpoonup> nat) \<Rightarrow> heap \<Rightarrow> u64 \<Rightarrow> u64 \<Rightarrow> heap \<Rightarrow> bool" where
  "kmalloc_post B h sz p h' \<longleftrightarrow> p = 0 \<and> h' = h \<and> (sz = 0 \<or> no_room h (unat sz)) \<or> p \<noteq> 0 \<and> B p = None \<and> heap_ok (B(p \<mapsto> unat sz)) h'"

lemma class_exhausted:
  assumes inv: "heap_inv sh cc Cs h" and c: "c \<in> set (cc # Cs)" "caches h c = Some C"
    and full: "\<And>k. room k sh h c \<Longrightarrow> nobj C \<le> k" and s: "listed h c s" "slabs h s = Some S"
  shows "free_objs S = []"
proof -
  have m: "s \<in> set (slabs_of sh c)" using s(1) listed_iff [OF inv c(1)] by simp
  have "slab_at (pages h) c C S s" using slab_of_cache [OF inv c(1) m] s(2) c(2) by (metis option.inject)
  then have "length (s_bufctl S) = nobj C" by (simp add: slab_at_def)
  moreover have "nobj C \<le> unat (s_free S)" by (rule full) (use m s(2) in \<open>auto simp: room_def\<close>)
  ultimately show ?thesis by (simp add: free_objs_def)
qed

lemma kmalloc_spec:
  assumes ok: "heap_ok B h" and sz: "unat sz + 47 \<le> PHYSICAL_MEMORY_SIZE"
  shows "\<exists>p h'. kmalloc e sz h = Some (p, h') \<and> kmalloc_post B h sz p h'"
proof (cases "sz = 0")
  case True
  then show ?thesis by (simp add: kmalloc_def kmalloc_post_def)
next
  case False
  then have m: "0 < unat sz" by (simp add: unat_gt_0)
  obtain sh where sh: "heap_inv sh (cache_cache h) (size_caches h) h" "size_table (size_caches h) h" using heap_okD [OF ok] by blast
  have cc: "cache_cache h \<noteq> 0" using cache_nonzero [OF sh(1), of "cache_cache h"] by simp
  have len: "length (size_caches h) = 8" using sh(2) by (simp add: size_table_def)
  let ?c = "pick_cache_for_total (32 + sz) h"
  have tot: "unat (32 + sz) = 32 + unat sz" using sz by (subst unat_add_no_wrap) (auto simp: layout_simps)
  note pick = pick_cache_class [OF len tot]
  show ?thesis
  proof (cases "unat sz + 32 \<le> 4096")
    case slab: True
    then have i: "size_class (unat sz) < 8" "?c = size_caches h ! size_class (unat sz)" using size_class_fits(1) pick by simp_all
    have c: "?c \<in> set (size_caches h)" using i len by simp
    have c': "?c \<in> set (cache_cache h # size_caches h)" using c by simp
    have nz: "?c \<noteq> 0" by (rule cache_nonzero [OF sh(1) c'])
    obtain C where C: "caches h ?c = Some C" "osz C = 32 * 2 ^ size_class (unat sz)"
        "nobj C = max 1 (4056 div (32 * 2 ^ size_class (unat sz) + 4))"
      using sh(2) i unfolding size_table_def by metis
    have wf: "cache_wf C" using heap_invD(4) [OF sh(1) c'] C(1) by (auto simp: cache_inv_def)
    show ?thesis
    proof (cases rule: cache_alloc_ok [OF sh(1) c'])
      case 1
      have "free_objs S = []" if "listed h ?c s" "slabs h s = Some S" for s S
        by (rule class_exhausted [OF sh(1) c' C(1) 1(2) [OF C(1)] that])
      moreover have "\<not> fits_at (allocs (pages h)) (pages_asked (unat sz)) p" for p
        using 1(3) [OF C(1)] class_pages [OF wf C(2,3) slab] by simp
      ultimately have "no_room h (unat sz)" unfolding no_room_def i(2) [symmetric] by blast
      then show ?thesis using False cc nz 1(1) by (simp add: kmalloc_def kmalloc_post_def HDR_SIZE_eq Let_def)
    next
      case (2 a sh' h')
      have fit: "32 + unat sz \<le> osz D" if "caches h ?c = Some D" for D using that C size_class_fits(2) [OF slab] by simp
      note k = kmalloc_slab [OF ok c fit m 2(1,2) refl]
      then show ?thesis using False cc nz 2(1,2) by (simp add: kmalloc_def kmalloc_post_def HDR_SIZE_eq Let_def)
    qed
  next
    case raw: False
    then have z: "?c = 0" using pick by simp
    have ask: "pages_asked (unat sz) = pages_for (unat sz + 47)" using raw by (simp add: pages_asked_def)
    have u: "unat (32 + sz + 15) = unat sz + 47" using sz tot by (subst unat_add_no_wrap) (auto simp: layout_simps)
    obtain a ps where a: "kernel_malloc (32 + sz + 15) (pages h) = (a, ps)" by fastforce
    show ?thesis
    proof (cases "a = 0")
      case True
      have b: "0 < unat (32 + sz + 15)" "unat (32 + sz + 15) \<le> PHYSICAL_MEMORY_SIZE" using u sz by simp_all
      have "ps = pages h \<and> no_room h (unat sz)"
      proof (rule kernel_malloc_cases [OF heap_invD(1) [OF sh(1)] b])
        assume n: "kernel_malloc (32 + sz + 15) (pages h) = (0, pages h)" "\<And>p. \<not> fits_at (allocs (pages h)) (pages_for (unat (32 + sz + 15))) p"
        have "no_room h (unat sz)" unfolding no_room_def ask using n(2) [unfolded u] raw by blast
        then show ?thesis using a n(1) by simp
      qed (use a True in simp)
      then show ?thesis using False cc z a True by (simp add: kmalloc_def kmalloc_post_def HDR_SIZE_eq ALLOC_ALIGNMENT_def Let_def)
    next
      case nz: False
      have b: "unat sz + 47 \<le> unat (32 + sz + 15)" "unat (32 + sz + 15) \<le> PHYSICAL_MEMORY_SIZE" using u sz by simp_all
      note k = kmalloc_raw [OF ok m b a nz refl]
      then show ?thesis using False cc z a nz by (simp add: kmalloc_def kmalloc_post_def HDR_SIZE_eq ALLOC_ALIGNMENT_def Let_def)
    qed
  qed
qed

section \<open>\<open>kfree\<close>\<close>

lemma kfree_slab:
  assumes ok: "heap_ok B h" and sh: "heap_inv sh (cache_cache h) (size_caches h) h" "size_table (size_caches h) h"
      "\<And>p m. B p = Some m \<Longrightarrow> block_ok sh (cache_cache h) (size_caches h) h p m" "covered sh (cache_cache h) (size_caches h) B h"
    and c: "c \<in> set (size_caches h)" "used_obj sh h c (p - 32)"
  shows "\<exists>h'. cache_dealloc c (p - 32) h = Some h' \<and> heap_ok (B(p := None)) h'"
proof (rule cache_dealloc_ok [OF sh(1) c])
  fix sh' h'
  assume t: "cache_dealloc c (p - 32) h = Some h'" "heap_inv sh' (cache_cache h) (size_caches h) h'"
      "evolves (set (cache_cache h # size_caches h)) sh h sh' h'"
      "\<And>e a. e \<in> set (cache_cache h # size_caches h) \<Longrightarrow> used_obj sh h e a \<Longrightarrow> e \<noteq> c \<or> a \<noteq> p - 32 \<Longrightarrow> used_obj sh' h' e a" "pages h' = pages h"
      "accounts (set (cache_cache h # size_caches h)) {} sh h sh' h'" "\<not> used_obj sh' h' c (p - 32)"
  have c': "c \<in> set (cache_cache h # size_caches h)" using c(1) by simp
  have free: "\<not> used_obj sh' h' e (p - 32)" if e: "e \<in> set (size_caches h)" for e
  proof
    assume u: "used_obj sh' h' e (p - 32)"
    then have ec: "e \<noteq> c" using t(7) by blast
    have e': "e \<in> set (cache_cache h # size_caches h)" "used_obj sh h e (p - 32)" using accountsD(3) [OF t(6), of e "p - 32"] u e by auto
    obtain C D where C: "caches h c = Some C" "cache_wf C" "caches h e = Some D" "cache_wf D"
      using used_place [OF sh(1) c' c(2)] used_place [OF sh(1) e'] by metis
    then show False using used_apart [OF sh(1) c' c(2) C(1) e' C(3)] ec by (auto simp: cache_wf_def)
  qed
  have cov: "covered sh' (cache_cache h) (size_caches h) (B(p := None)) h'"
  proof -
    have s: "covered sh' (cache_cache h) (size_caches h) B h'" by (rule covered_accounts [OF sh(4) t(6)]) auto
    have "a + 32 \<noteq> p" if "e \<in> set (size_caches h)" "used_obj sh' h' e a" for e a using free [OF that(1)] that(2) by auto
    moreover have "a + 32 \<noteq> p" if "run (pages h') q n a" for q n a using used_not_run [OF sh(1) c' c(2)] that t(5) by auto
    ultimately show ?thesis unfolding covered_def using coveredD [OF s] by (metis fun_upd_other)
  qed
  have "heap_ok (B(p := None)) (h'\<lparr> hdrs := hdrs h' \<rparr>)"
  proof (rule heap_ok_step [OF sh(2,3) t(2,3)])
    fix x j assume "(B(p := None)) x = Some j"
    then have x: "x \<noteq> p" "B x = Some j" by (auto split: if_splits)
    then have "x - 32 \<noteq> p - 32" by simp
    then show "block_ok sh' (cache_cache h) (size_caches h) (h'\<lparr> hdrs := hdrs h' \<rparr>) x j \<or>
      B x = Some j \<and> hdrs h' (x - 32) = hdrs h (x - 32) \<and>
      (\<forall>c. c \<in> set (size_caches h) \<and> used_obj sh h c (x - 32) \<longrightarrow> used_obj sh' h' c (x - 32))"
      using x(2) evolvesD(2) [OF t(3)] t(4) by auto
  qed (use cov in auto)
  then show ?thesis using t(1) by simp
qed

lemma page_free_run:
  assumes pg: "pg_ok ps" and r: "run ps q n a"
  obtains ps' where "page_free a ps = Some ps'" "pg_ok ps'" "\<And>q' n' a'. run ps q' n' a' \<Longrightarrow> a' \<noteq> a \<Longrightarrow> run ps' q' n' a'"
    "\<And>q' n' a'. run ps' q' n' a' \<Longrightarrow> run ps q' n' a' \<and> a' \<noteq> a"
proof -
  have q: "q < total_pages" "a = page_addr ps q" using r by (auto simp: run_def allocs_def split: if_splits)
  have i: "pa_inv ps" "base_ok ps" using pg by (simp_all add: pg_ok_def)
  let ?ps = "cut_down q 0 ps"
  have pa: "page_addr ?ps x = page_addr ps x" for x by (simp add: page_addr_def cut_down_def)
  have "run ?ps q' n' a'" if "run ps q' n' a'" "a' \<noteq> a" for q' n' a'
    using that q(2) by (auto simp: run_def allocs_cut_down [OF i(1) q(1)] pa)
  moreover have "run ps q' n' a' \<and> a' \<noteq> a" if t: "run ?ps q' n' a'" for q' n' a'
  proof -
    have q': "q' \<noteq> q" "run ps q' n' a'" using t by (auto simp: run_def allocs_cut_down [OF i(1) q(1)] pa split: if_splits)
    then show ?thesis using run_unique [OF pg q'(2)] r by blast
  qed
  moreover have "first_page ?ps = first_page ps" by (simp add: cut_down_def)
  then have "pg_ok ?ps" using pg pa_inv_cut_down [OF i(1) q(1), of 0] by (simp add: pg_ok_def base_ok_def)
  moreover have "page_free a ps = Some ?ps" using page_free_live [OF i q(1)] q(2) by simp
  ultimately show thesis by (intro that [of ?ps])
qed

lemma kfree_raw:
  assumes sh: "heap_inv sh (cache_cache h) (size_caches h) h" "size_table (size_caches h) h"
      "\<And>p m. B p = Some m \<Longrightarrow> block_ok sh (cache_cache h) (size_caches h) h p m" "covered sh (cache_cache h) (size_caches h) B h"
    and r: "run (pages h) q n (p - 32)" "p - 32 \<noteq> cache_cache h" "\<And>c. c \<in> set (cache_cache h # size_caches h) \<Longrightarrow> p - 32 \<notin> set (slabs_of sh c)"
  shows "\<exists>ps. page_free (p - 32) (pages h) = Some ps \<and> heap_ok (B(p := None)) (h\<lparr> pages := ps \<rparr>)"
proof (rule page_free_run [OF heap_invD(1) [OF sh(1)] r(1)])
  fix ps
  assume ps: "page_free (p - 32) (pages h) = Some ps" "pg_ok ps" "\<And>q' n' a'. run (pages h) q' n' a' \<Longrightarrow> a' \<noteq> p - 32 \<Longrightarrow> run ps q' n' a'"
    "\<And>q' n' a'. run ps q' n' a' \<Longrightarrow> run (pages h) q' n' a' \<and> a' \<noteq> p - 32"
  let ?h = "h\<lparr> pages := ps, hdrs := hdrs h \<rparr>"
  have inv: "heap_inv sh (cache_cache h) (size_caches h) ?h"
    by (rule heap_inv_pages [OF sh(1) ps(2)]) (use ps(3) r(2,3) in auto)
  have uo: "used_obj sh (h\<lparr> pages := ps \<rparr>) c b = used_obj sh h c b" for c b by (simp add: used_obj_def)
  have "block_ok sh (cache_cache h) (size_caches h) ?h x j" if x: "x \<noteq> p" "B x = Some j" for x j
  proof (cases rule: block_cases [OF sh(3) [OF x(2)]])
    case (1 hdr C)
    then show ?thesis unfolding block_ok_def slab_block_def using uo by auto
  next
    case (2 hdr q n)
    have "run ps q n (x - 32)" using ps(3) [OF 2(6)] x(1) by simp
    then show ?thesis unfolding block_ok_def raw_block_def using 2 by auto
  qed
  moreover have "covered sh (cache_cache h) (size_caches h) (B(p := None)) ?h"
    unfolding covered_def
  proof (intro conjI ballI allI impI)
    show "(B(p := None)) (a + 32) \<noteq> None" if "c \<in> set (size_caches h)" "used_obj sh ?h c a" for c a
    proof -
      have u: "used_obj sh h c a" using that(2) uo by simp
      then have "a \<noteq> p - 32" using used_not_run [OF sh(1) _ u] r(1) that(1) by auto
      then show ?thesis using coveredD(1) [OF sh(4) that(1) u] by auto
    qed
    show "a = cache_cache h \<or> (\<exists>c \<in> set (cache_cache h # size_caches h). a \<in> set (slabs_of sh c)) \<or> (B(p := None)) (a + 32) \<noteq> None"
      if "run (pages ?h) q' n' a" for q' n' a
    proof -
      have a: "run (pages h) q' n' a" "a + 32 \<noteq> p" using ps(4) [of q' n' a] that by auto
      then show ?thesis using coveredD(2) [OF sh(4) a(1)] by simp
    qed
  qed
  ultimately have "heap_ok (B(p := None)) ?h" unfolding heap_ok_def using inv sh(2)
    by (intro exI [of _ sh]) (auto simp: size_table_def split: if_splits)
  then show ?thesis using ps(1) by simp
qed

lemma kfree_spec:
  assumes ok: "heap_ok B h" and p: "B p = Some m"
  shows "\<exists>h'. kfree p h = Some h' \<and> heap_ok (B(p := None)) h'"
proof (rule heap_okD [OF ok])
  fix sh
  assume sh: "heap_inv sh (cache_cache h) (size_caches h) h" "size_table (size_caches h) h"
    "\<And>p m. B p = Some m \<Longrightarrow> block_ok sh (cache_cache h) (size_caches h) h p m" "covered sh (cache_cache h) (size_caches h) B h"
  have "p \<noteq> 0" using block_extent(1) [OF sh(1) sh(3) [OF p]] by auto
  then have k: "kfree p h = do { hdr \<leftarrow> hdrs h (p - 32);
       if h_magic hdr = ALLOC_MAGIC then
         (if h_cache hdr \<noteq> 0 then cache_dealloc (h_cache hdr) (p - 32) h
          else do { ps \<leftarrow> page_free (h_raw_base hdr) (pages h); Some (h\<lparr> pages := ps \<rparr>) })
       else do { ps \<leftarrow> page_free p (pages h); Some (h\<lparr> pages := ps \<rparr>) } }"
    by (simp add: kfree_def HDR_SIZE_eq cong: if_cong)
  show ?thesis
  proof (cases rule: block_cases [OF sh(3) [OF p]])
    case (1 hdr C)
    have "h_cache hdr \<noteq> 0" using cache_nonzero [OF sh(1)] 1(4) by simp
    then show ?thesis using kfree_slab [OF ok sh 1(4,5)] 1(1,2) k by simp
  next
    case (2 hdr q n)
    obtain ps where "page_free (p - 32) (pages h) = Some ps" "heap_ok (B(p := None)) (h\<lparr> pages := ps \<rparr>)"
      using kfree_raw [OF sh 2(6,8,9)] by blast
    then show ?thesis using 2(1,2,4,5) k by simp
  qed
qed

end
