(* ===== verification/Slab_Init.thy ===== *)
theory Slab_Init
  imports Slab_Alloc
begin

text \<open>
  \<open>allocator_init\<close>: from the state at boot it succeeds, and leaves the eight caches of the sizes 32 to 4096 with no
  block handed out.
\<close>

section \<open>A new cache\<close>

definition cache_for :: "u64 \<Rightarrow> Cache" where
  "cache_for sz = (let osz = ALIGN_UP sz ALLOC_ALIGNMENT; n = (of_nat PAGE_SIZE - SIZEOF_SLAB) div (osz + 4)
     in \<lparr> totalobjs = 0, inuse = 0, objsize = osz, objs_per_slab = (if n = 0 then 1 else n) \<rparr>)"

lemma init_cache_eq:
  "init_cache c sz h = h\<lparr> nxt := (nxt h)(c + 16 \<mapsto> c + 16, c \<mapsto> c, c + 32 \<mapsto> c + 32),
     prv := (prv h)(c + 16 \<mapsto> c + 16, c \<mapsto> c, c + 32 \<mapsto> c + 32), caches := (caches h)(c \<mapsto> cache_for sz) \<rparr>"
  by (simp add: init_cache_def cache_for_def list_init_def Let_def)

lemma cache_for_wf:
  assumes "0 < unat sz" "unat sz \<le> 4096" "16 dvd unat sz"
  shows "osz (cache_for sz) = unat sz" "nobj (cache_for sz) = max 1 (4056 div (unat sz + 4))" "cache_wf (cache_for sz)"
proof -
  have "unat (ALIGN_UP sz 16) = (unat sz + 15) div 16 * 16" by (rule ALIGN_UP_16) (use assms(2) in simp)
  then have a: "unat (ALIGN_UP sz 16) = unat sz" using assms(3) by presburger
  then show o: "osz (cache_for sz) = unat sz" by (simp add: cache_for_def ALLOC_ALIGNMENT_def Let_def)
  have u: "unat (ALIGN_UP sz 16 + 4) = unat sz + 4" using a assms(2) by (subst unat_add_no_wrap) auto
  have d: "unat (4056 div (ALIGN_UP sz 16 + 4)) = 4056 div (unat sz + 4)" using u by (simp add: unat_div_distrib)
  have z: "4056 div (ALIGN_UP sz 16 + 4) = 0 \<longleftrightarrow> 4056 div (unat sz + 4) = 0" unfolding d [symmetric] by (simp only: unat_eq_0)
  have n: "objs_per_slab (cache_for sz) = (if 4056 div (ALIGN_UP sz 16 + 4) = 0 then 1 else 4056 div (ALIGN_UP sz 16 + 4))"
    by (simp add: cache_for_def ALLOC_ALIGNMENT_def SIZEOF_SLAB_def Let_def layout_simps)
  show nn: "nobj (cache_for sz) = max 1 (4056 div (unat sz + 4))"
    unfolding n if_distrib [of unat] d z by auto
  have le: "4056 div (unat sz + 4) * (unat sz + 4) \<le> 4100" by (rule order_trans [OF div_times_less_eq_dividend]) simp
  have "max 1 (4056 div (unat sz + 4)) * (unat sz + 4) \<le> 4100"
  proof (cases "4056 div (unat sz + 4) = 0")
    case True
    then show ?thesis using assms(2) by simp
  next
    case False
    then have "max 1 (4056 div (unat sz + 4)) = 4056 div (unat sz + 4)" by simp
    then show ?thesis using le by (simp only:)
  qed
  then show "cache_wf (cache_for sz)" unfolding cache_wf_def o nn using assms(1,3) by (simp add: distrib_left)
qed

text \<open>The cells of an object of the cache of caches belong to nobody.\<close>

lemma cache_cells:
  assumes inv: "heap_inv sh cc Cs h" and c: "used_obj sh h cc c" "c \<notin> set Cs"
  shows "distinct [c, c + 16, c + 32]" "c \<noteq> cc" "\<And>d. d \<in> set (cc # Cs) \<Longrightarrow> {c, c + 16, c + 32} \<inter> set (cells sh d) = {}"
proof -
  note d = heap_invD [OF inv]
  have cc: "cc \<in> set (cc # Cs)" by simp
  obtain t C q n where t: "t \<in> set (slabs_of sh cc)" "caches h cc = Some C" "run (pages h) q n t" "unat t + 40 \<le> unat c" "unat c + osz C \<le> unat t + n * 4096"
    using used_place [OF inv cc c(1)] by metis
  have o: "osz C = 80" by (rule d(7) [OF t(2)])
  have "unat t + n * 4096 < 2 ^ 64" using run_facts(6) [OF d(1) t(3)] .
  then have near: "unat (c + 16) = unat c + 16" "unat (c + 32) = unat c + 32" using heads_near [of c] t(5) o by auto
  then show "distinct [c, c + 16, c + 32]" by (auto simp: word_unat_eq_iff)
  show ne: "c \<noteq> cc" using used_not_run [OF inv cc c(1)] d(5) by blast
  fix e assume e: "e \<in> set (cc # Cs)"
  have far: "unat x + 16 \<le> unat c \<or> unat c + 80 \<le> unat x" if "x \<in> set (cells sh e)" for x
  proof -
    have slab: "unat x + 16 \<le> unat c \<or> unat c + 80 \<le> unat x" if x: "x \<in> set (slabs_of sh e)"
    proof -
      obtain q' n' where r: "run (pages h) q' n' x" using slab_of_cache [OF inv e x] by metis
      show ?thesis
      proof (cases "x = t")
        case False
        then show ?thesis using run_apart [OF d(1) r t(3)] t(4,5) o run_facts(1) [OF d(1) r] by auto
      qed (use t(4) in simp)
    qed
    have head: "unat e + 48 \<le> unat c \<or> unat c + 80 \<le> unat e" "unat e + 80 \<le> 2 ^ 64"
    proof -
      have "(unat e + 48 \<le> unat c \<or> unat c + 80 \<le> unat e) \<and> unat e + 80 \<le> 2 ^ 64"
      proof (cases "e = cc")
        case True
        then obtain q' n' where r: "run (pages h) q' n' e" using d(5) by blast
        have "e \<noteq> t" using cells_apartD(1) [OF d(3) cc] t(1) True by (auto simp: cells_def)
        then show ?thesis using run_apart [OF d(1) r t(3)] t(4,5) o run_facts [OF d(1) r] by auto
      next
        case False
        then have u: "used_obj sh h cc e" "e \<noteq> c" using e d(6) c(2) by auto
        have "unat c + osz C \<le> unat e \<or> unat e + osz C \<le> unat c"
          by (rule used_apart [OF inv cc c(1) t(2) cc u(1) t(2)]) (use u(2) in blast)
        moreover obtain q' n' s where "run (pages h) q' n' s" "unat e + osz C \<le> unat s + n' * 4096" using used_place [OF inv cc u(1)] t(2) by (metis option.inject)
        ultimately show ?thesis using o run_facts(6) [OF d(1), of q' n' s] by auto
      qed
      then show "unat e + 48 \<le> unat c \<or> unat c + 80 \<le> unat e" "unat e + 80 \<le> 2 ^ 64" by blast+
    qed
    show ?thesis using that slab head(1) heads_near [OF head(2)] by (auto simp: cells_def)
  qed
  show "{c, c + 16, c + 32} \<inter> set (cells sh e) = {}"
  proof -
    have "c \<notin> set (cells sh e)" "c + 16 \<notin> set (cells sh e)" "c + 32 \<notin> set (cells sh e)"
      using far [of c] far [of "c + 16"] far [of "c + 32"] near by auto
    then show ?thesis by blast
  qed
qed

lemma new_cache_inv:
  assumes inv: "heap_inv sh cc Cs h" and c: "used_obj sh h cc c" "c \<notin> set Cs" and sz: "0 < unat sz" "unat sz \<le> 4096" "16 dvd unat sz"
  shows "heap_inv (new_shape sh c ([], [], [])) cc (Cs @ [c]) (init_cache c sz h)"
proof -
  let ?sh = "new_shape sh c ([], [], [])" and ?h = "init_cache c sz h" and ?A = "{c, c + 16, c + 32}"
  note d = heap_invD [OF inv]
  note cc = cache_cells [OF inv c]
  have so: "fullS ?sh e = fullS sh e \<and> partialS ?sh e = partialS sh e \<and> freeS ?sh e = freeS sh e" if "e \<noteq> c" for e
    using that by (simp add: new_shape_def)
  have cl: "cells ?sh e = cells sh e" "slabs_of ?sh e = slabs_of sh e" if "e \<noteq> c" for e using so [OF that] by (simp_all add: cells_def slabs_of_def)
  have cn: "cells ?sh c = [c, c + 16, c + 32]" by (simp add: cells_def slabs_of_def new_shape_def)
  have ne: "e \<noteq> c" if "e \<in> set (cc # Cs)" for e using that c(2) cc(2) by auto
  have "cells_apart ?sh (insert c (set (cc # Cs)))"
    unfolding cells_apart_def
  proof (intro conjI ballI impI)
    fix e assume e: "e \<in> insert c (set (cc # Cs))"
    show "distinct (cells ?sh e)" using e cells_apartD(1) [OF d(3), of e] cc(1) cl(1) [of e] cn by (cases "e = c") auto
    fix e' assume e': "e' \<in> insert c (set (cc # Cs))" "e \<noteq> e'"
    consider "e = c" "e' \<noteq> c" | "e' = c" "e \<noteq> c" | "e \<noteq> c" "e' \<noteq> c" using e'(2) by blast
    then show "set (cells ?sh e) \<inter> set (cells ?sh e') = {}"
    proof cases
      case 1
      then show ?thesis using cc(3) [of e'] e' cl(1) [of e'] cn by auto
    next
      case 2
      then show ?thesis using cc(3) [of e] e cl(1) [of e] cn by auto
    next
      case 3
      then show ?thesis using cells_apartD(2) [OF d(3), of e e'] e e' cl(1) by auto
    qed
  qed
  moreover have "cache_inv ?sh ?h e" if e: "e \<in> set (cc # Cs)" for e
    by (rule cache_inv_frame [OF d(4) [OF e] cc(3) [OF e]]) (use so [OF ne [OF e]] ne [OF e] in \<open>auto simp: init_cache_eq\<close>)
  moreover have "cache_inv ?sh ?h c"
    unfolding cache_inv_def using cache_for_wf(3) [OF sz] cc(1) by (simp add: init_cache_eq new_shape_def ring_def)
  moreover have "used_obj ?sh ?h cc e = used_obj sh h cc e" for e
    using cc(2) cl(2) [of cc] by (simp add: used_obj_def init_cache_eq)
  ultimately show ?thesis using d(1,2,5,6,7) c cc(2) unfolding heap_inv_def by (auto simp: init_cache_eq insert_commute)
qed

lemma create_new_cache_ok:
  assumes inv: "heap_inv sh (cache_cache h) Cs h" and sz: "0 < unat sz" "unat sz \<le> 4096" "16 dvd unat sz"
    and r: "room k sh h (cache_cache h)" "\<And>C. caches h (cache_cache h) = Some C \<Longrightarrow> k < nobj C"
  obtains c sh' h' where "create_new_cache sz h = Some (c, h')" "c \<noteq> 0" "heap_inv sh' (cache_cache h) (Cs @ [c]) h'"
    "room (Suc k) sh' h' (cache_cache h)" "caches h' c = Some (cache_for sz)"
    "\<And>d C. d \<noteq> c \<Longrightarrow> caches h d = Some C \<Longrightarrow> \<exists>C'. caches h' d = Some C' \<and> objsize C' = objsize C \<and> objs_per_slab C' = objs_per_slab C"
    "cache_cache h' = cache_cache h" "size_caches h' = size_caches h" "c \<noteq> cache_cache h" "c \<notin> set Cs"
    "pages h' = pages h" "covered sh (cache_cache h) Cs Map.empty h \<Longrightarrow> covered sh' (cache_cache h) (Cs @ [c]) Map.empty h'"
proof -
  let ?cc = "cache_cache h"
  have cc: "?cc \<in> set (?cc # Cs)" by simp
  show thesis
  proof (rule cache_alloc_ok [OF inv cc])
    assume n: "\<And>k C. caches h ?cc = Some C \<Longrightarrow> room k sh h ?cc \<Longrightarrow> nobj C \<le> k"
    obtain C where "caches h ?cc = Some C" using heap_invD(4) [OF inv cc] by (auto simp: cache_inv_def)
    then show thesis using n [OF _ r(1)] r(2) by fastforce
  next
    fix c sh' h'
    assume t: "cache_alloc ?cc h = Some (c, h')" "c \<noteq> 0" "heap_inv sh' ?cc Cs h'" "evolves (set (?cc # Cs)) sh h sh' h'"
      "keeps_used (set (?cc # Cs)) sh h sh' h'" "used_obj sh' h' ?cc c" "\<not> used_obj sh h ?cc c" "\<And>k. room k sh h ?cc \<Longrightarrow> room (Suc k) sh' h' ?cc"
      "\<And>k C. caches h ?cc = Some C \<Longrightarrow> room k sh h ?cc \<Longrightarrow> k < nobj C \<Longrightarrow> pages h' = pages h"
      "accounts (set (?cc # Cs)) {(?cc, c)} sh h sh' h'"
    obtain C where C: "caches h ?cc = Some C" using heap_invD(4) [OF inv cc] by (auto simp: cache_inv_def)
    have pg: "pages h' = pages h" by (rule t(9) [OF C r(1) r(2) [OF C]])
    note e = evolvesD [OF t(4)]
    have new: "c \<notin> set Cs" using heap_invD(6) [OF inv] t(7) by blast
    have ne: "c \<noteq> ?cc" by (rule cache_cells(2) [OF t(3,6) new])
    let ?sh = "new_shape sh' c ([], [], [])"
    have cov: "covered ?sh ?cc (Cs @ [c]) Map.empty (init_cache c sz h')" if "covered sh ?cc Cs Map.empty h"
    proof -
      have cov': "covered sh' ?cc Cs Map.empty h'"
        by (rule covered_accounts [OF that t(10)]) (use heap_invD(2) [OF inv] in auto)
      have so: "slabs_of ?sh e = (if e = c then [] else slabs_of sh' e)" for e by (simp add: new_shape_def slabs_of_def)
      have uo: "used_obj ?sh (init_cache c sz h') e a = (e \<noteq> c \<and> used_obj sh' h' e a)" for e a
        by (simp add: used_obj_def so init_cache_eq)
      have pe: "pages (init_cache c sz h') = pages h'" by (simp add: init_cache_eq)
      have "a = ?cc \<or> (\<exists>e \<in> set (?cc # Cs @ [c]). a \<in> set (slabs_of ?sh e))" if "run (pages h') q n a" for q n a
        using coveredD(2) [OF cov' that] ne new unfolding so by fastforce
      then show ?thesis unfolding covered_def uo pe using coveredD(1) [OF cov'] by auto
    qed
    show thesis
    proof (rule that [of c "init_cache c sz h'"])
      show "create_new_cache sz h = Some (c, init_cache c sz h')" using t(1,2) by (simp add: create_new_cache_def)
      show "heap_inv (new_shape sh' c ([], [], [])) ?cc (Cs @ [c]) (init_cache c sz h')" by (rule new_cache_inv [OF t(3,6) new sz])
      show "room (Suc k) (new_shape sh' c ([], [], [])) (init_cache c sz h') ?cc"
        using t(8) [OF r(1)] ne by (simp add: room_def init_cache_eq new_shape_def slabs_of_def)
      show "\<exists>C'. caches (init_cache c sz h') d = Some C' \<and> objsize C' = objsize C \<and> objs_per_slab C' = objs_per_slab C"
        if "d \<noteq> c" "caches h d = Some C" for d C using e(6) [OF that(2)] that(1) by (simp add: init_cache_eq)
      show "covered ?sh ?cc (Cs @ [c]) Map.empty (init_cache c sz h')" if "covered sh ?cc Cs Map.empty h" by (rule cov [OF that])
    qed (use t(2) e(3,4) ne new pg in \<open>simp_all add: init_cache_eq\<close>)
  qed
qed

lemma heap_inv_table: "heap_inv sh cc Cs (h\<lparr> size_caches := l \<rparr>) = heap_inv sh cc Cs h"
proof -
  have "ring (h\<lparr> size_caches := l \<rparr>) a xs = ring h a xs" for a xs by (rule ring_same) simp_all
  then show ?thesis by (simp add: heap_inv_def cache_inv_def slab_in_def used_obj_def)
qed

section \<open>The size caches\<close>

lemma create_size_caches_ok:
  assumes "length Cs + n = 8" "heap_inv sh (cache_cache h) Cs h" "room (length Cs) sh h (cache_cache h)"
    "\<And>C. caches h (cache_cache h) = Some C \<Longrightarrow> nobj C = 48" "length (size_caches h) = 8" "take (length Cs) (size_caches h) = Cs"
    "\<And>i. i < length Cs \<Longrightarrow> \<exists>C. caches h (Cs ! i) = Some C \<and> osz C = 32 * 2 ^ i \<and> nobj C = max 1 (4056 div (32 * 2 ^ i + 4))"
    "covered sh (cache_cache h) Cs Map.empty h"
  shows "\<exists>sh' h'. create_size_caches [length Cs..<8] (32 * 2 ^ length Cs) h = Some (0, h') \<and>
    heap_inv sh' (cache_cache h') (size_caches h') h' \<and> size_table (size_caches h') h' \<and> pages h' = pages h \<and>
    covered sh' (cache_cache h') (size_caches h') Map.empty h'"
  using assms
proof (induction n arbitrary: Cs sh h)
  case 0
  then have "size_caches h = Cs" by simp
  then show ?case using 0 by (auto simp: size_table_def)
next
  case (Suc n)
  let ?k = "length Cs" and ?cc = "cache_cache h"
  have k: "?k < 8" using Suc.prems(1) by simp
  have pow: "unat (32 * 2 ^ ?k :: u64) = 32 * 2 ^ ?k"
  proof -
    have "(2 :: nat) ^ ?k \<le> 2 ^ 7" by (rule power_increasing) (use k in auto)
    moreover have "(32 * 2 ^ ?k :: u64) = of_nat (32 * 2 ^ ?k)" by simp
    ultimately show ?thesis by (simp only: unat_of_nat) simp
  qed
  have "(2 :: nat) ^ ?k \<le> 2 ^ 7" by (rule power_increasing) (use k in auto)
  then have sz: "0 < unat (32 * 2 ^ ?k :: u64)" "unat (32 * 2 ^ ?k :: u64) \<le> 4096" "16 dvd unat (32 * 2 ^ ?k :: u64)"
    unfolding pow by simp_all
  have less: "\<And>C. caches h ?cc = Some C \<Longrightarrow> ?k < nobj C" using Suc.prems(4) k by fastforce
  show ?case
  proof (rule create_new_cache_ok [OF Suc.prems(2) sz Suc.prems(3) less])
    fix c sh' h'
    assume t: "create_new_cache (32 * 2 ^ ?k) h = Some (c, h')" "c \<noteq> 0" "heap_inv sh' ?cc (Cs @ [c]) h'"
      "room (Suc ?k) sh' h' ?cc" "caches h' c = Some (cache_for (32 * 2 ^ ?k))"
      "\<And>d C. d \<noteq> c \<Longrightarrow> caches h d = Some C \<Longrightarrow> \<exists>C'. caches h' d = Some C' \<and> objsize C' = objsize C \<and> objs_per_slab C' = objs_per_slab C"
      "cache_cache h' = ?cc" "size_caches h' = size_caches h" "c \<noteq> ?cc" "c \<notin> set Cs" "pages h' = pages h"
      "covered sh ?cc Cs Map.empty h \<Longrightarrow> covered sh' ?cc (Cs @ [c]) Map.empty h'"
    let ?h = "h'\<lparr> size_caches := (size_caches h')[?k := c] \<rparr>"
    have ups: "[?k..<8] = ?k # [length (Cs @ [c])..<8]" using k by (simp add: upt_rec)
    have dbl: "push_bit 1 (32 * 2 ^ ?k :: u64) = 32 * 2 ^ length (Cs @ [c])" by (simp add: push_bit_eq_mult)
    have step: "create_size_caches [?k..<8] (32 * 2 ^ ?k) h = create_size_caches [length (Cs @ [c])..<8] (32 * 2 ^ length (Cs @ [c])) ?h"
      unfolding ups create_size_caches.simps dbl using t(1,2) by simp
    have old: "\<exists>C. caches h' (Cs ! i) = Some C \<and> osz C = 32 * 2 ^ i \<and> nobj C = max 1 (4056 div (32 * 2 ^ i + 4))" if i: "i < ?k" for i
    proof -
      obtain C where C: "caches h (Cs ! i) = Some C" "osz C = 32 * 2 ^ i" "nobj C = max 1 (4056 div (32 * 2 ^ i + 4))" using Suc.prems(7) [OF i] by blast
      have "Cs ! i \<noteq> c" using i t(10) by auto
      then show ?thesis using t(6) [OF _ C(1)] C(2,3) by auto
    qed
    have "\<exists>sh'' h''. create_size_caches [length (Cs @ [c])..<8] (32 * 2 ^ length (Cs @ [c])) ?h = Some (0, h'') \<and>
      heap_inv sh'' (cache_cache h'') (size_caches h'') h'' \<and> size_table (size_caches h'') h'' \<and> pages h'' = pages ?h \<and>
      covered sh'' (cache_cache h'') (size_caches h'') Map.empty h''"
    proof (rule Suc.IH)
      show "covered sh' (cache_cache ?h) (Cs @ [c]) Map.empty ?h" using t(12) [OF Suc.prems(8)] t(7) by (simp add: covered_def used_obj_def)
      show "heap_inv sh' (cache_cache ?h) (Cs @ [c]) ?h" using t(3,7) by (simp add: heap_inv_table)
      show "room (length (Cs @ [c])) sh' ?h (cache_cache ?h)" using t(4,7) by (simp add: room_def)
      show "nobj C = 48" if C: "caches ?h (cache_cache ?h) = Some C" for C
      proof -
        obtain C0 where C0: "caches h ?cc = Some C0" using heap_invD(4) [OF Suc.prems(2), of ?cc] by (auto simp: cache_inv_def)
        show ?thesis using C t(6) [OF t(9) [symmetric] C0] t(7) Suc.prems(4) [OF C0] by auto
      qed
      show "take (length (Cs @ [c])) (size_caches ?h) = Cs @ [c]" using Suc.prems(5,6) t(8) k by (simp add: take_Suc_conv_app_nth)
      show "\<exists>C. caches ?h ((Cs @ [c]) ! i) = Some C \<and> osz C = 32 * 2 ^ i \<and> nobj C = max 1 (4056 div (32 * 2 ^ i + 4))" if i: "i < length (Cs @ [c])" for i
      proof (cases "i < ?k")
        case True
        then show ?thesis using old by (simp add: nth_append)
      next
        case False
        then have "i = ?k" using i by simp
        then show ?thesis using t(5) cache_for_wf(1,2) [OF sz] unfolding pow by simp
      qed
    qed (use Suc.prems(1,5) t(8) in simp_all)
    then show ?thesis unfolding step using t(11) by simp
  qed
qed

section \<open>Initialising\<close>

lemma pg_ok_init:
  assumes "endkernel_ok e"
  shows "pg_ok (initAllocator e ps)" "allocs (initAllocator e ps) = Map.empty"
proof -
  have u: "unat (e + 4095) = unat e + 4095" using assms by (subst unat_add_no_wrap) (auto simp: endkernel_ok_def layout_simps)
  have "(e + 4095) AND NOT 4095 = push_bit 12 (drop_bit 12 (e + 4095))"
    using and_not_mask [of "e + 4095" 12] by (simp add: mask_eq_exp_minus_1)
  then have w: "(e + 4095) AND NOT 4095 = (e + 4095) div 4096 * 4096" by (simp add: push_bit_eq_mult drop_bit_eq_div)
  have d: "unat ((e + 4095) div 4096) = (unat e + 4095) div 4096" using u by (simp add: unat_div_distrib)
  have "(unat e + 4095) div 4096 < 4503599627370496"
    by (rule less_mult_imp_div_less) (use assms in \<open>simp add: endkernel_ok_def layout_simps\<close>)
  then have "unat ((e + 4095) div 4096) * unat (4096 :: u64) < 2 ^ LENGTH(64)" using d by simp
  then have "unat ((e + 4095) div 4096 * 4096) = unat ((e + 4095) div 4096) * unat (4096 :: u64)" by (rule unat_mult_no_wrap)
  then have "4096 dvd unat ((e + 4095) AND NOT 4095)" unfolding w by simp
  then have "4096 dvd unat (first_page (initAllocator e ps))" by (simp add: initAllocator_def layout_simps add.commute)
  then show "pg_ok (initAllocator e ps)" using assms initAllocator_inv base_ok_init by (simp add: pg_ok_def)
  show "allocs (initAllocator e ps) = Map.empty" by (auto simp: fun_eq_iff allocs_def page_len_def initAllocator_def)
qed

abbreviation no_slabs :: shape where
  "no_slabs \<equiv> \<lparr> fullS = (\<lambda>_. []), partialS = (\<lambda>_. []), freeS = (\<lambda>_. []) \<rparr>"

lemma first_cache_inv:
  assumes "pg_ok (pages h)" "run (pages h) q n c"
  shows "heap_inv no_slabs c [] (init_cache c 80 h)" "caches (init_cache c 80 h) c = Some (cache_for 80)"
    "nobj (cache_for 80) = 48" "unat (slab_mem (cache_for 80)) = 4087"
proof -
  have "unat c + 80 \<le> 2 ^ 64" using run_facts(1,6) [OF assms] by simp
  note n = heads_near [OF this]
  have sz: "0 < unat (80 :: u64)" "unat (80 :: u64) \<le> 4096" "16 dvd unat (80 :: u64)" by simp_all
  note w = cache_for_wf [OF sz]
  show nn: "nobj (cache_for 80) = 48" using w(2) by simp
  show "unat (slab_mem (cache_for 80)) = 4087" using unat_slab_mem [OF w(3)] w(1) nn by simp
  have ds: "distinct [c, c + 16, c + 32]" using n by (auto simp: word_unat_eq_iff)
  show "caches (init_cache c 80 h) c = Some (cache_for 80)" by (simp add: init_cache_eq)
  have "cache_inv no_slabs (init_cache c 80 h) c"
    unfolding cache_inv_def using w(3) ds by (simp add: init_cache_eq ring_def)
  then show "heap_inv no_slabs c [] (init_cache c 80 h)"
    using assms ds w(1) unfolding heap_inv_def cells_apart_def by (auto simp: init_cache_eq cells_def slabs_of_def)
qed

lemma allocator_init_spec:
  assumes e: "endkernel_ok e" and h: "cache_cache h = 0" "length (size_caches h) = 8"
  shows "\<exists>h' q q'. allocator_init e h = Some (0, h') \<and> heap_ok Map.empty h' \<and>
    (\<forall>x j. allocs (pages h') x = Some j \<longrightarrow> (x = q \<or> x = q') \<and> j = 1)"
proof -
  let ?ps = "initAllocator e (pages h)"
  note pg = pg_ok_init [OF e, of "pages h"]
  have m: "0 < unat (80 :: u64)" "unat (80 :: u64) \<le> PHYSICAL_MEMORY_SIZE" by (simp_all add: layout_simps)
  show ?thesis
  proof (rule kernel_malloc_cases [OF pg(1) m])
    assume "\<And>p. \<not> fits_at (allocs ?ps) (pages_for (unat (80 :: u64))) p"
    from this [of 1] show ?thesis by (simp add: pg(2) fits_at_def pages_for_def layout_simps)
  next
    fix q n ps cc
    assume k: "kernel_malloc 80 ?ps = (cc, ps)" "run ps q n cc" "unat (80 :: u64) \<le> n * 4096" "pg_ok ps" "cc \<noteq> 0"
      "\<And>q' n' a'. run ps q' n' a' \<Longrightarrow> q' = q \<or> run ?ps q' n' a'" "n = pages_for (unat (80 :: u64))"
    let ?h = "h\<lparr> pages := ps, cache_cache := cc \<rparr>"
    have pg': "pg_ok (pages ?h)" "run (pages ?h) q n cc" using k(2,4) by simp_all
    note f = first_cache_inv [OF pg']
    have c: "cc \<in> set (cc # [])" by simp
    have only: "x = q \<and> j = 1" if "allocs ps x = Some j" for x j
    proof -
      have "run ps x j (page_addr ps x)" using that by (simp add: run_def)
      from k(6) [OF this] have "x = q" using pg(2) by (simp add: run_def)
      then show ?thesis using that k(2,7) by (simp add: run_def pages_for_def layout_simps)
    qed
    show ?thesis
    proof (rule cache_grow_ok [OF f(1) c])
      assume "\<And>C p. caches (init_cache cc 80 ?h) cc = Some C \<Longrightarrow> \<not> fits_at (allocs (pages (init_cache cc 80 ?h))) (pages_for (unat (slab_mem C))) p"
      from this [OF f(2)] have "\<not> fits_at (allocs ps) 1 p" for p using f(4) by (simp add: init_cache_eq pages_for_def layout_simps)
      from this [of 1] this [of 2] show ?thesis using only by (auto simp: fits_at_def layout_simps dest!: only)
    next
      fix s h'
      let ?sh = "no_slabs\<lparr> freeS := (freeS no_slabs)(cc := freeS no_slabs cc @ [s]) \<rparr>"
      assume g: "cache_grow cc (init_cache cc 80 ?h) = Some (0, h')" "heap_inv ?sh cc [] h'" "s \<noteq> 0"
        "evolves (set (cc # [])) no_slabs (init_cache cc 80 ?h) ?sh h'"
        "\<And>C. caches (init_cache cc 80 ?h) cc = Some C \<Longrightarrow> \<exists>q. \<forall>x j. allocs (pages h') x = Some j \<longrightarrow>
          allocs (pages (init_cache cc 80 ?h)) x = Some j \<or> x = q \<and> j = pages_for (unat (slab_mem C))"
        "accounts (set (cc # [])) {} no_slabs (init_cache cc 80 ?h) ?sh h'"
      note ev = evolvesD [OF g(4)]
      have same: "cache_cache h' = cc" "size_caches h' = size_caches h" using ev(3,4) by (simp_all add: init_cache_eq)
      obtain S where S: "slabs h' s = Some S" using slab_of_cache [OF g(2) c, of s] by (auto simp: slabs_of_def)
      obtain C where C: "caches h' cc = Some C" "nobj C = 48" using ev(6) [OF f(2)] f(3) by auto
      have "unat (s_free S) = 0" by (rule slab_class(3) [OF g(2) c C(1) S]) simp
      then have r: "room (length ([] :: u64 list)) ?sh h' (cache_cache h')" using S same(1) by (auto simp: room_def slabs_of_def)
      have "a = cc" if "run ps q' n' a" for q' n' a using only [of q' n'] that k(2) by (auto simp: run_def)
      then have "covered no_slabs cc [] Map.empty (init_cache cc 80 ?h)" by (auto simp: covered_def init_cache_eq)
      then have cov: "covered ?sh cc [] Map.empty h'" by (rule covered_accounts [OF _ g(6)]) auto
      have "\<exists>sh' h''. create_size_caches [length ([] :: u64 list)..<8] (32 * 2 ^ length ([] :: u64 list)) h' = Some (0, h'') \<and>
          heap_inv sh' (cache_cache h'') (size_caches h'') h'' \<and> size_table (size_caches h'') h'' \<and> pages h'' = pages h' \<and>
          covered sh' (cache_cache h'') (size_caches h'') Map.empty h''"
        by (rule create_size_caches_ok [where n = 8, OF _ _ r]) (use g(2) same C h(2) cov in auto)
      then obtain sh' h'' where l: "create_size_caches [0..<8] 32 h' = Some (0, h'')" "heap_inv sh' (cache_cache h'') (size_caches h'') h''"
          "size_table (size_caches h'') h''" "pages h'' = pages h'" "covered sh' (cache_cache h'') (size_caches h'') Map.empty h''" by auto
      have "allocator_init e h = Some (0, h'')"
        unfolding allocator_init_def SIZEOF_CACHE_def KMALLOC_MIN_def using h(1) k(1,5) g(1) l(1) by simp
      moreover have "heap_ok Map.empty h''" unfolding heap_ok_def using l(2,3,5) by auto
      moreover obtain q' where "\<And>x j. allocs (pages h') x = Some j \<Longrightarrow> allocs ps x = Some j \<or> x = q' \<and> j = 1"
        using g(5) [OF f(2)] f(4) by (auto simp: init_cache_eq pages_for_def layout_simps)
      then have "\<forall>x j. allocs (pages h'') x = Some j \<longrightarrow> (x = q \<or> x = q') \<and> j = 1" using only l(4) by fastforce
      ultimately show ?thesis by blast
    qed
  qed
qed

end
