(* ===== verification/Heap.thy ===== *)
theory Heap
  imports Slab_Init
begin

text \<open>
  What the rest of the kernel relies on: an allocator that hands out blocks, takes them back, and keeps the blocks in
  use apart. The contract is a locale; the page level (\<open>kernel_malloc\<close>, \<open>kernel_free\<close>) and the kernel heap
  (\<open>kmalloc\<close>, \<open>kfree\<close>) are shown to meet it.
\<close>

section \<open>The contract\<close>

datatype call = Malloc u64 | Free u64

text \<open>A client that frees only what it holds: the calls one after the other, with the blocks the client has.\<close>

primrec calls :: "(u64 \<Rightarrow> 'h \<Rightarrow> (u64 \<times> 'h) option) \<Rightarrow> (u64 \<Rightarrow> 'h \<Rightarrow> 'h option) \<Rightarrow> call list \<Rightarrow> (u64 \<rightharpoonup> nat) \<Rightarrow> 'h \<Rightarrow>
    ((u64 \<rightharpoonup> nat) \<times> 'h) option" where
  "calls malloc free [] B h = Some (B, h)"
| "calls malloc free (x # xs) B h = (case x of
     Malloc sz \<Rightarrow> do { (p, h') \<leftarrow> malloc sz h; calls malloc free xs (if p = 0 then B else B(p \<mapsto> unat sz)) h' }
   | Free p \<Rightarrow> (case B p of None \<Rightarrow> calls malloc free xs B h
       | Some _ \<Rightarrow> do { h' \<leftarrow> free p h; calls malloc free xs (B(p := None)) h' }))"

definition requests :: "call list \<Rightarrow> u64 list" where
  "requests xs = concat (map (\<lambda>x. case x of Malloc sz \<Rightarrow> [sz] | Free p \<Rightarrow> []) xs)"

locale block_allocator =
  fixes good :: "(u64 \<rightharpoonup> nat) \<Rightarrow> 'h \<Rightarrow> bool" and admissible :: "u64 \<Rightarrow> bool"
    and malloc :: "u64 \<Rightarrow> 'h \<Rightarrow> (u64 \<times> 'h) option" and free :: "u64 \<Rightarrow> 'h \<Rightarrow> 'h option"
  assumes malloc: "good B h \<Longrightarrow> admissible sz \<Longrightarrow>
      \<exists>p h'. malloc sz h = Some (p, h') \<and> (p = 0 \<and> good B h' \<or> p \<noteq> 0 \<and> B p = None \<and> good (B(p \<mapsto> unat sz)) h')"
    and free: "good B h \<Longrightarrow> B p = Some m \<Longrightarrow> \<exists>h'. free p h = Some h' \<and> good (B(p := None)) h'"
    and apart: "good B h \<Longrightarrow> B p = Some m \<Longrightarrow> B p' = Some m' \<Longrightarrow> p \<noteq> p' \<Longrightarrow> unat p + m \<le> unat p' \<or> unat p' + m' \<le> unat p"
begin

lemma calls_return:
  "good B h \<Longrightarrow> list_all admissible (requests xs) \<Longrightarrow> \<exists>B' h'. calls malloc free xs B h = Some (B', h') \<and> good B' h'"
proof (induction xs arbitrary: B h)
  case (Cons x xs)
  show ?case
  proof (cases x)
    case (Malloc sz)
    then have a: "admissible sz" "list_all admissible (requests xs)" using Cons.prems(2) by (simp_all add: requests_def)
    obtain p h' where r: "malloc sz h = Some (p, h')" "p = 0 \<and> good B h' \<or> p \<noteq> 0 \<and> B p = None \<and> good (B(p \<mapsto> unat sz)) h'"
      using malloc [OF Cons.prems(1) a(1)] by blast
    then have "good (if p = 0 then B else B(p \<mapsto> unat sz)) h'" by auto
    from Cons.IH [OF this a(2)] show ?thesis using r(1) Malloc by simp
  next
    case (Free p)
    then have a: "list_all admissible (requests xs)" using Cons.prems(2) by (simp add: requests_def)
    show ?thesis
    proof (cases "B p")
      case None
      then show ?thesis using Cons.IH [OF Cons.prems(1) a] Free by simp
    next
      case (Some m)
      obtain h' where r: "free p h = Some h'" "good (B(p := None)) h'" using free [OF Cons.prems(1) Some] by blast
      from Cons.IH [OF r(2) a] show ?thesis using r(1) Some Free by (simp del: fun_upd_apply)
    qed
  qed
qed auto

text \<open>No byte belongs to two blocks.\<close>

lemma one_owner:
  "good B h \<Longrightarrow> B p = Some m \<Longrightarrow> B p' = Some m' \<Longrightarrow> unat p \<le> a \<Longrightarrow> a < unat p + m \<Longrightarrow> unat p' \<le> a \<Longrightarrow> a < unat p' + m' \<Longrightarrow> p = p'"
  using apart [of B h p m p' m'] by fastforce

end

section \<open>Pages\<close>

definition good_pages :: "(u64 \<rightharpoonup> nat) \<Rightarrow> page_state \<Rightarrow> bool" where
  "good_pages B ps \<longleftrightarrow> pg_ok ps \<and> (\<forall>p m. B p = Some m \<longrightarrow> (\<exists>q n. run ps q n p \<and> m \<le> n * 4096)) \<and>
     (\<forall>q n p. run ps q n p \<longrightarrow> B p \<noteq> None)"

definition page_request :: "u64 \<Rightarrow> bool" where
  "page_request sz \<longleftrightarrow> 0 < unat sz \<and> unat sz \<le> PHYSICAL_MEMORY_SIZE"

lemma kernel_malloc_good:
  assumes g: "good_pages B ps" and sz: "page_request sz"
  shows "\<exists>p ps'. kernel_malloc sz ps = (p, ps') \<and> (p = 0 \<and> good_pages B ps' \<or> p \<noteq> 0 \<and> B p = None \<and> good_pages (B(p \<mapsto> unat sz)) ps')"
proof -
  have pg: "pg_ok ps" "\<And>p m. B p = Some m \<Longrightarrow> \<exists>q n. run ps q n p \<and> m \<le> n * 4096" "\<And>q n p. run ps q n p \<Longrightarrow> B p \<noteq> None"
    using g by (auto simp: good_pages_def)
  have sz': "0 < unat sz" "unat sz \<le> PHYSICAL_MEMORY_SIZE" using sz by (auto simp: page_request_def)
  show ?thesis
  proof (cases rule: kernel_malloc_cases [OF pg(1) sz'])
    case 1
    then show ?thesis using g by simp
  next
    case (2 q n ps' a)
    have b: "B a = None"
    proof (cases "B a")
      case (Some m)
      then obtain q' n' where r: "run ps q' n' a" using pg(2) by blast
      from run_unique [OF 2(4) 2(7) [OF r] 2(2)] show ?thesis using r 2(6) by (auto simp: run_def)
    qed
    have "\<exists>q n. run ps' q n x \<and> j \<le> n * 4096" if "(B(a \<mapsto> unat sz)) x = Some j" for x j
      using that pg(2) [of x j] 2(2,3,7) by (cases "x = a") (simp, blast, metis fun_upd_other)
    moreover have "(B(a \<mapsto> unat sz)) x \<noteq> None" if "run ps' q' n' x" for q' n' x
      using 2(8) [OF that] pg(3) [of q' n' x] that 2(2) by (auto simp: run_def)
    ultimately have "good_pages (B(a \<mapsto> unat sz)) ps'" unfolding good_pages_def using 2(4) by blast
    with b show ?thesis using 2(1,5) by simp
  qed
qed

lemma kernel_free_good:
  assumes g: "good_pages B ps" and p: "B p = Some m"
  shows "\<exists>ps'. kernel_free p n ps = Some ps' \<and> good_pages (B(p := None)) ps'"
proof -
  have pg: "pg_ok ps" "\<And>p m. B p = Some m \<Longrightarrow> \<exists>q n. run ps q n p \<and> m \<le> n * 4096" "\<And>q n p. run ps q n p \<Longrightarrow> B p \<noteq> None"
    using g by (auto simp: good_pages_def)
  obtain q k where r: "run ps q k p" using pg(2) [OF p] by blast
  show ?thesis
  proof (rule page_free_run [OF pg(1) r])
    fix ps' assume t: "page_free p ps = Some ps'" "pg_ok ps'" "\<And>q' n' a'. run ps q' n' a' \<Longrightarrow> a' \<noteq> p \<Longrightarrow> run ps' q' n' a'"
      "\<And>q' n' a'. run ps' q' n' a' \<Longrightarrow> run ps q' n' a' \<and> a' \<noteq> p"
    have "\<exists>q n. run ps' q n x \<and> j \<le> n * 4096" if "(B(p := None)) x = Some j" for x j
      using that pg(2) [of x j] t(3) by (cases "x = p") (simp, metis fun_upd_other)
    moreover have "(B(p := None)) x \<noteq> None" if "run ps' q' n' x" for q' n' x using t(4) [OF that] pg(3) [of q' n' x] by auto
    ultimately have "good_pages (B(p := None)) ps'" unfolding good_pages_def using t(2) by blast
    then show ?thesis using t(1) by (simp add: kernel_free_def page_dealloc_def)
  qed
qed

interpretation page_heap: block_allocator good_pages page_request "\<lambda>sz ps. Some (kernel_malloc sz ps)" "\<lambda>p. kernel_free p n" for n
proof
  show "\<exists>p h'. Some (kernel_malloc sz ps) = Some (p, h') \<and> (p = 0 \<and> good_pages B h' \<or> p \<noteq> 0 \<and> B p = None \<and> good_pages (B(p \<mapsto> unat sz)) h')"
    if "good_pages B ps" "page_request sz" for B ps sz using kernel_malloc_good [OF that] by simp
  show "\<exists>h'. kernel_free p n ps = Some h' \<and> good_pages (B(p := None)) h'" if "good_pages B ps" "B p = Some m" for B ps p m
    by (rule kernel_free_good [OF that])
  show "unat p + m \<le> unat p' \<or> unat p' + m' \<le> unat p"
    if g: "good_pages B ps" and b: "B p = Some m" "B p' = Some m'" "p \<noteq> p'" for B ps p m p' m'
  proof -
    obtain q k where r: "run ps q k p" "m \<le> k * 4096" using g b(1) unfolding good_pages_def by blast
    obtain q' k' where r': "run ps q' k' p'" "m' \<le> k' * 4096" using g b(2) unfolding good_pages_def by blast
    show ?thesis using run_apart [OF _ r(1) r'(1) b(3)] r(2) r'(2) g by (auto simp: good_pages_def)
  qed
qed

section \<open>The kernel heap\<close>

definition at_boot :: "heap \<Rightarrow> bool" where
  "at_boot h \<longleftrightarrow> cache_cache h = 0 \<and> length (size_caches h) = 8"

text \<open>The heap before the first call, or one in order.\<close>

definition good_heap :: "u64 \<Rightarrow> (u64 \<rightharpoonup> nat) \<Rightarrow> heap \<Rightarrow> bool" where
  "good_heap e B h \<longleftrightarrow> endkernel_ok e \<and> (heap_ok B h \<or> at_boot h \<and> B = Map.empty)"

definition heap_request :: "u64 \<Rightarrow> bool" where
  "heap_request sz \<longleftrightarrow> unat sz + 47 \<le> PHYSICAL_MEMORY_SIZE"

lemma kmalloc_boot:
  assumes e: "endkernel_ok e" and h: "at_boot h" and sz: "sz \<noteq> 0"
  obtains h1 q q' where "kmalloc e sz h = kmalloc e sz h1" "heap_ok Map.empty h1"
    "\<forall>x j. allocs (pages h1) x = Some j \<longrightarrow> (x = q \<or> x = q') \<and> j = 1"
proof -
  have b: "cache_cache h = 0" "length (size_caches h) = 8" using h by (simp_all add: at_boot_def)
  obtain h1 q q' where i: "allocator_init e h = Some (0, h1)" "heap_ok Map.empty h1"
      "\<forall>x j. allocs (pages h1) x = Some j \<longrightarrow> (x = q \<or> x = q') \<and> j = 1"
    using allocator_init_spec [OF e b] by blast
  obtain sh where "heap_inv sh (cache_cache h1) (size_caches h1) h1" using heap_okD [OF i(2)] by blast
  then have "cache_cache h1 \<noteq> 0" using cache_nonzero by fastforce
  then have "kmalloc e sz h = kmalloc e sz h1" using i(1) h sz by (simp add: kmalloc_def at_boot_def)
  then show thesis using that i by blast
qed

lemma kmalloc_good:
  assumes g: "good_heap e B h" and sz: "heap_request sz"
  shows "\<exists>p h'. kmalloc e sz h = Some (p, h') \<and> (p = 0 \<and> good_heap e B h' \<or> p \<noteq> 0 \<and> B p = None \<and> good_heap e (B(p \<mapsto> unat sz)) h')"
proof -
  have e: "endkernel_ok e" using g by (simp add: good_heap_def)
  have ok: ?thesis if h1: "heap_ok B h1" "kmalloc e sz h = kmalloc e sz h1" for h1
  proof -
    obtain p h' where k: "kmalloc e sz h1 = Some (p, h')" "kmalloc_post B h1 sz p h'"
      using kmalloc_spec [OF h1(1), of sz e] sz unfolding heap_request_def by blast
    then show ?thesis using h1 e by (auto simp: kmalloc_post_def good_heap_def)
  qed
  show ?thesis
  proof (cases "heap_ok B h")
    case False
    then have h: "at_boot h" "B = Map.empty" using g by (auto simp: good_heap_def)
    show ?thesis
    proof (cases "sz = 0")
      case True
      then show ?thesis using g by (simp add: kmalloc_def)
    next
      case nz: False
      show ?thesis by (rule kmalloc_boot [OF e h(1) nz]) (use ok h(2) in blast)
    qed
  qed (use ok in blast)
qed

interpretation kernel_heap: block_allocator "good_heap e" heap_request "kmalloc e" kfree for e
proof
  show "\<exists>h'. kfree p h = Some h' \<and> good_heap e (B(p := None)) h'" if "good_heap e B h" "B p = Some m" for B h p m
    using that kfree_spec [of B h p m] by (auto simp: good_heap_def)
  show "unat p + m \<le> unat p' \<or> unat p' + m' \<le> unat p"
    if g: "good_heap e B h" and b: "B p = Some m" "B p' = Some m'" "p \<noteq> p'" for B h p m p' m'
  proof -
    have "heap_ok B h" using g b(1) by (auto simp: good_heap_def)
    then obtain sh where sh: "heap_inv sh (cache_cache h) (size_caches h) h" "\<And>p m. B p = Some m \<Longrightarrow> block_ok sh (cache_cache h) (size_caches h) h p m"
      using heap_okD by blast
    show ?thesis using blocks_apart [OF sh(1) sh(2) [OF b(1)] sh(2) [OF b(2)] b(3)]
        block_extent(1) [OF sh(1) sh(2) [OF b(1)]] block_extent(1) [OF sh(1) sh(2) [OF b(2)]] by linarith
  qed
qed (rule kmalloc_good)

section \<open>Properties\<close>

lemma block_place:
  assumes "good_heap e B h" "B p = Some m"
  shows "16 dvd unat p" "unat (first_page (pages h)) + 32 \<le> unat p" "unat p + m \<le> unat (first_page (pages h)) + PHYSICAL_MEMORY_SIZE"
proof -
  have "heap_ok B h" using assms by (auto simp: good_heap_def)
  then obtain sh where sh: "heap_inv sh (cache_cache h) (size_caches h) h" "block_ok sh (cache_cache h) (size_caches h) h p m"
    using heap_okD assms(2) by metis
  note b = block_extent [OF sh]
  obtain q n a where r: "run (pages h) q n a" "unat a \<le> unat (p - 32)" "unat p + m \<le> unat a + n * 4096" using b(3) by blast
  note f = run_facts [OF heap_invD(1) [OF sh(1)] r(1)]
  show "16 dvd unat p" by (rule b(2))
  show "unat (first_page (pages h)) + 32 \<le> unat p" using b(1) r(2) f(3) by linarith
  have "(q + n) * 4096 \<le> PHYSICAL_MEMORY_SIZE" using f(2) by (simp add: layout_simps)
  then show "unat p + m \<le> unat (first_page (pages h)) + PHYSICAL_MEMORY_SIZE" using r(3) f(3) by (simp add: algebra_simps)
qed

text \<open>What the heap itself says is handed out, read off the lists of slabs, the free objects of the slabs and the
  allocated pages: an object of a size cache that its slab does not list as free, or a run of pages that is neither the
  first cache nor a slab. Behind it come the header and the block.\<close>

definition in_use :: "heap \<Rightarrow> u64 \<Rightarrow> bool" where
  "in_use h p \<longleftrightarrow> cache_cache h \<noteq> 0 \<and>
     ((\<exists>c \<in> set (size_caches h). \<exists>s S C i. listed h c s \<and> slabs h s = Some S \<and> caches h c = Some C \<and> i < nobj C \<and>
         i \<notin> unat ` set (free_objs S) \<and> p = obj_addr C S i + 32) \<or>
      (\<exists>q n a. run (pages h) q n a \<and> a \<noteq> cache_cache h \<and> (\<forall>c \<in> set (cache_cache h # size_caches h). \<not> listed h c a) \<and> p = a + 32))"

lemma in_use_shape:
  assumes "heap_inv sh (cache_cache h) (size_caches h) h"
  shows "in_use h p \<longleftrightarrow> (\<exists>c \<in> set (size_caches h). used_obj sh h c (p - 32)) \<or>
    (\<exists>q n. run (pages h) q n (p - 32)) \<and> p - 32 \<noteq> cache_cache h \<and> (\<forall>c \<in> set (cache_cache h # size_caches h). p - 32 \<notin> set (slabs_of sh c))"
proof -
  have l: "listed h c s \<longleftrightarrow> s \<in> set (slabs_of sh c)" if "c \<in> set (cache_cache h # size_caches h)" for c s
    by (rule listed_iff [OF assms that])
  have nz: "cache_cache h \<noteq> 0" using cache_nonzero [OF assms, of "cache_cache h"] by simp
  have p: "p = a + 32 \<longleftrightarrow> p - 32 = a" for a by auto
  have "(\<exists>s S C i. listed h c s \<and> slabs h s = Some S \<and> caches h c = Some C \<and> i < nobj C \<and> i \<notin> unat ` set (free_objs S) \<and> p = obj_addr C S i + 32)
      \<longleftrightarrow> used_obj sh h c (p - 32)" if "c \<in> set (size_caches h)" for c
    unfolding used_obj_def p using l [of c] that by auto
  moreover have "(\<exists>q n a. run (pages h) q n a \<and> a \<noteq> cache_cache h \<and> (\<forall>c \<in> set (cache_cache h # size_caches h). \<not> listed h c a) \<and> p = a + 32)
      \<longleftrightarrow> (\<exists>q n. run (pages h) q n (p - 32)) \<and> p - 32 \<noteq> cache_cache h \<and> (\<forall>c \<in> set (cache_cache h # size_caches h). p - 32 \<notin> set (slabs_of sh c))"
    unfolding p using l by (auto simp del: list.set)
  ultimately show ?thesis unfolding in_use_def using nz by (simp cong: bex_cong)
qed

text \<open>In a heap in order these are exactly the blocks.\<close>

lemma in_use_iff:
  assumes "good_heap e B h"
  shows "in_use h p \<longleftrightarrow> B p \<noteq> None"
proof (cases "heap_ok B h")
  case False
  then show ?thesis using assms by (auto simp: good_heap_def at_boot_def in_use_def)
next
  case True
  then obtain sh where sh: "heap_inv sh (cache_cache h) (size_caches h) h" "\<And>p m. B p = Some m \<Longrightarrow> block_ok sh (cache_cache h) (size_caches h) h p m"
      "covered sh (cache_cache h) (size_caches h) B h"
    using heap_okD by blast
  show ?thesis
  proof
    assume "in_use h p"
    then show "B p \<noteq> None"
      unfolding in_use_shape [OF sh(1)] using coveredD(1) [OF sh(3), of _ "p - 32"] coveredD(2) [OF sh(3), of _ _ "p - 32"] by auto
  next
    assume "B p \<noteq> None"
    then obtain m where "B p = Some m" by blast
    then show "in_use h p" unfolding in_use_shape [OF sh(1)] by (cases rule: block_cases [OF sh(2)]) blast+
  qed
qed

text \<open>After boot two pages in a row are free, whatever the first two pages taken are.\<close>

lemma boot_fit:
  assumes "\<forall>x j. A x = Some j \<longrightarrow> (x = q \<or> x = q') \<and> j = (1 :: nat)"
  shows "\<exists>p. fits_at A 2 p"
proof -
  have "q \<notin> {p, p + 1} \<Longrightarrow> q' \<notin> {p, p + 1} \<Longrightarrow> 0 < p \<Longrightarrow> p \<le> 5 \<Longrightarrow> fits_at A 2 p" for p
    using assms unfolding fits_at_def by (fastforce simp: layout_simps)
  from this [of 1] this [of 3] this [of 5] show ?thesis by force
qed

lemma kmalloc_first:
  assumes "endkernel_ok e" "at_boot h" "0 < unat sz" "unat sz + 47 \<le> 8192"
  shows "\<exists>p h'. kmalloc e sz h = Some (p, h') \<and> p \<noteq> 0 \<and> good_heap e (Map.empty(p \<mapsto> unat sz)) h'"
proof -
  have nz: "sz \<noteq> 0" using assms(3) by auto
  show ?thesis
  proof (rule kmalloc_boot [OF assms(1,2) nz])
    fix h1 q q' assume i: "kmalloc e sz h = kmalloc e sz h1" "heap_ok Map.empty h1" "\<forall>x j. allocs (pages h1) x = Some j \<longrightarrow> (x = q \<or> x = q') \<and> j = 1"
    obtain p h' where k: "kmalloc e sz h1 = Some (p, h')" "kmalloc_post Map.empty h1 sz p h'"
      using kmalloc_spec [OF i(2), of sz e] assms(4) by (auto simp: layout_simps)
    have "pages_for (unat sz + 47) \<le> 2" by (rule pages_for_le) (use assms(4) in simp)
    then have "pages_asked (unat sz) \<le> 2" by (simp add: pages_asked_def)
    then have "\<not> no_room h1 (unat sz)" unfolding no_room_def using boot_fit [OF i(3)] fits_at_mono by blast
    then show ?thesis using k i(1) nz assms(1) by (auto simp: kmalloc_post_def good_heap_def)
  qed
qed

definition boot_heap :: heap where
  "boot_heap = \<lparr> pages = boot_state, nxt = Map.empty, prv = Map.empty, caches = Map.empty, slabs = Map.empty, hdrs = Map.empty,
     cache_cache = 0, size_caches = replicate 8 0, reports = [] \<rparr>"

lemma boot_heap_ok: "at_boot boot_heap" "endkernel_ok 0xFFFFFFFF80100000"
  by (simp_all add: at_boot_def boot_heap_def endkernel_ok_def layout_simps)

text \<open>C10: from boot on, every sequence of \<open>kmalloc\<close> calls (of sizes the memory can hold) and of \<open>kfree\<close> calls on
  blocks in use runs without undefined behaviour, and the blocks in use are then 16-aligned, lie inside the managed
  memory behind a header, and do not overlap.\<close>

theorem heap_calls_safe:
  assumes "endkernel_ok e" "at_boot h" "list_all heap_request (requests xs)"
  shows "\<exists>B h'. calls (kmalloc e) kfree xs Map.empty h = Some (B, h') \<and>
    (\<forall>p m. B p = Some m \<longrightarrow> 16 dvd unat p \<and> unat (first_page (pages h')) + 32 \<le> unat p \<and>
       unat p + m \<le> unat (first_page (pages h')) + PHYSICAL_MEMORY_SIZE) \<and>
    (\<forall>p m p' m'. B p = Some m \<longrightarrow> B p' = Some m' \<longrightarrow> p \<noteq> p' \<longrightarrow> unat p + m \<le> unat p' \<or> unat p' + m' \<le> unat p)"
proof -
  have "good_heap e Map.empty h" using assms(1,2) by (simp add: good_heap_def)
  from kernel_heap.calls_return [OF this assms(3)]
  obtain B h' where r: "calls (kmalloc e) kfree xs Map.empty h = Some (B, h')" "good_heap e B h'" by blast
  then show ?thesis using block_place [OF r(2)] kernel_heap.apart [OF r(2)] by blast
qed

theorem heap_calls_safe_witness:
  "\<exists>B h'. calls (kmalloc 0xFFFFFFFF80100000) kfree [Malloc 100, Malloc 5000, Malloc 100, Free 0] Map.empty boot_heap = Some (B, h')"
proof -
  have "list_all heap_request (requests [Malloc 100, Malloc 5000, Malloc 100, Free 0])"
    by (simp add: requests_def heap_request_def layout_simps)
  from heap_calls_safe [OF boot_heap_ok(2,1) this] show ?thesis by blast
qed

text \<open>C11: \<open>kmalloc\<close> on a heap in order (or before the first call), for a size other than 0 that the memory can hold.
  Either it returns a block that was not in use and overlaps no other, and just this block has come into use; or it returns
  null and the blocks in use are as before. It returns null only when there is no room: no run of free pages of the length
  it asks for is left (one page for a request that goes to the objects of up to 2048 bytes, two for the objects of 4096
  bytes, the block with header and alignment for a larger one) and no slab of the size class of the request has a free
  object.\<close>

theorem kmalloc_correct:
  assumes "good_heap e B h" "heap_request sz" "sz \<noteq> 0"
  shows "\<exists>p h'. kmalloc e sz h = Some (p, h') \<and>
    (if p = 0 then good_heap e B h' \<and> (\<forall>x. in_use h' x \<longleftrightarrow> in_use h x) \<and> no_room h' (unat sz)
     else B p = None \<and> good_heap e (B(p \<mapsto> unat sz)) h' \<and> (\<forall>x. in_use h' x \<longleftrightarrow> in_use h x \<or> x = p))"
proof -
  have e: "endkernel_ok e" using assms(1) by (simp add: good_heap_def)
  have ok: "\<exists>p h'. kmalloc e sz h = Some (p, h') \<and> (p = 0 \<and> good_heap e B h' \<and> no_room h' (unat sz) \<or>
      p \<noteq> 0 \<and> B p = None \<and> good_heap e (B(p \<mapsto> unat sz)) h')" if h1: "heap_ok B h1" "kmalloc e sz h = kmalloc e sz h1" for h1
    using kmalloc_spec [OF h1(1), of sz e] assms(2,3) h1 e unfolding kmalloc_post_def good_heap_def heap_request_def by metis
  have "\<exists>p h'. kmalloc e sz h = Some (p, h') \<and> (p = 0 \<and> good_heap e B h' \<and> no_room h' (unat sz) \<or>
      p \<noteq> 0 \<and> B p = None \<and> good_heap e (B(p \<mapsto> unat sz)) h')"
  proof (cases "heap_ok B h")
    case False
    then have h: "at_boot h" "B = Map.empty" using assms(1) by (auto simp: good_heap_def)
    show ?thesis by (rule kmalloc_boot [OF e h(1) assms(3)]) (use ok h(2) in blast)
  qed (use ok in blast)
  then obtain p h' where k: "kmalloc e sz h = Some (p, h')" "p = 0 \<and> good_heap e B h' \<and> no_room h' (unat sz) \<or>
      p \<noteq> 0 \<and> B p = None \<and> good_heap e (B(p \<mapsto> unat sz)) h'" by blast
  have "in_use h' x \<longleftrightarrow> (if p = 0 then in_use h x else in_use h x \<or> x = p)" for x
    using k(2) in_use_iff [OF assms(1), of x] in_use_iff [of e B h' x] in_use_iff [of e "B(p \<mapsto> unat sz)" h' x] by auto
  then show ?thesis using k by auto
qed

theorem kmalloc_correct_witness:
  "\<exists>p h'. kmalloc 0xFFFFFFFF80100000 100 boot_heap = Some (p, h') \<and>
    (if p = 0 then no_room h' 100 else good_heap 0xFFFFFFFF80100000 [p \<mapsto> 100] h' \<and> in_use h' p)"
proof -
  have "good_heap 0xFFFFFFFF80100000 Map.empty boot_heap" "heap_request 100" "(100 :: u64) \<noteq> 0"
    using boot_heap_ok by (simp_all add: good_heap_def heap_request_def layout_simps)
  from kmalloc_correct [OF this] show ?thesis by fastforce
qed

text \<open>C12: \<open>kfree\<close> of a block in use returns: the loop over the slabs of its cache finds the slab of the block and
  ends. Afterwards the heap is in order, and what its lists of slabs, free objects and allocated pages say is in use is
  what was in use before, less this block: the block is free and all others are as they were.\<close>

theorem kfree_returns:
  assumes "good_heap e B h" "B p = Some m"
  shows "\<exists>h'. kfree p h = Some h' \<and> good_heap e (B(p := None)) h' \<and> in_use h p \<and> (\<forall>x. in_use h' x \<longleftrightarrow> in_use h x \<and> x \<noteq> p)"
proof -
  obtain h' where h': "kfree p h = Some h'" "good_heap e (B(p := None)) h'" using kernel_heap.free [OF assms] by blast
  then show ?thesis using in_use_iff [OF h'(2)] in_use_iff [OF assms(1)] assms(2) by auto
qed

theorem kfree_returns_witness:
  "\<exists>p h h'. kmalloc 0xFFFFFFFF80100000 100 boot_heap = Some (p, h) \<and> p \<noteq> 0 \<and> in_use h p \<and> kfree p h = Some h' \<and>
     good_heap 0xFFFFFFFF80100000 Map.empty h' \<and> \<not> in_use h' p"
proof -
  have sz: "0 < unat (100 :: u64)" "unat (100 :: u64) + 47 \<le> 8192" by simp_all
  obtain p h where k: "kmalloc 0xFFFFFFFF80100000 100 boot_heap = Some (p, h)" "p \<noteq> 0" "good_heap 0xFFFFFFFF80100000 [p \<mapsto> unat (100 :: u64)] h"
    using kmalloc_first [OF boot_heap_ok(2,1) sz] by blast
  have "\<exists>h'. kfree p h = Some h' \<and> good_heap 0xFFFFFFFF80100000 ([p \<mapsto> unat (100 :: u64)](p := None)) h' \<and> in_use h p \<and>
      (\<forall>x. in_use h' x \<longleftrightarrow> in_use h x \<and> x \<noteq> p)"
    by (rule kfree_returns [OF k(3)]) simp
  then show ?thesis using k(1,2) by auto
qed

end
