(* ===== verification/Mem.thy ===== *)
theory Mem
  imports Prelude
begin

text \<open>
  \<open>framework/mem.c\<close>: the byte loops \<open>memcpy\<close>, \<open>memset\<close> and \<open>memcmp\<close>. A pointer argument is
  the list of the bytes of its object from the pointer onwards; an access past the end of that
  list gives \<^term>\<open>None\<close>. Every loop is proved equal to its closed form.
\<close>

function memcpy_from :: "bytes \<Rightarrow> bytes \<Rightarrow> nat \<Rightarrow> nat \<Rightarrow> bytes option" where
  "memcpy_from dest src i n =
     (if i < n
      then (if i < length dest \<and> i < length src
            then memcpy_from (dest[i := src ! i]) src (Suc i) n
            else None)
      else Some dest)"
  by pat_completeness auto
termination
  by (relation "measure (\<lambda>(dest, src, i, n). n - i)") auto

declare memcpy_from.simps [simp del]

definition memcpy :: "bytes \<Rightarrow> bytes \<Rightarrow> nat \<Rightarrow> bytes option" where
  "memcpy dest src n = memcpy_from dest src 0 n"

fun memset_from :: "bytes \<Rightarrow> nat \<Rightarrow> u8 \<Rightarrow> nat \<Rightarrow> bytes option" where
  "memset_from buf p v 0 = Some buf"
| "memset_from buf p v (Suc num) =
     (if p < length buf then memset_from (buf[p := v]) (Suc p) v num else None)"

definition memset :: "bytes \<Rightarrow> int \<Rightarrow> nat \<Rightarrow> bytes option" where
  "memset ptr val num = memset_from ptr 0 (word_of_int val) num"

fun memcmp :: "bytes \<Rightarrow> bytes \<Rightarrow> nat \<Rightarrow> int option" where
  "memcmp p1 p2 0 = Some 0"
| "memcmp (a # p1) (b # p2) (Suc num) =
     (if a \<noteq> b then Some (if a > b then 1 else -1) else memcmp p1 p2 num)"
| "memcmp p1 p2 (Suc num) = None"

section \<open>Closed forms\<close>

lemma memcpy_from_ok:
  "i \<le> n \<Longrightarrow> n \<le> length dest \<Longrightarrow> n \<le> length src \<Longrightarrow>
   memcpy_from dest src i n = Some (take i dest @ drop i (take n src) @ drop n dest)"
proof (induction dest src i n rule: memcpy_from.induct)
  case (1 dest src i n)
  show ?case
  proof (cases "i < n")
    case True
    have tk: "take (Suc i) (dest[i := src ! i]) = take i dest @ [src ! i]"
      using True 1 by (simp add: take_Suc_conv_app_nth)
    have dr: "src ! i # drop (Suc i) (take n src) = drop i (take n src)"
      using True 1 by (simp add: Cons_nth_drop_Suc [symmetric])
    have "memcpy_from (dest[i := src ! i]) src (Suc i) n =
        Some (take (Suc i) (dest[i := src ! i]) @ drop (Suc i) (take n src) @ drop n dest)"
      using True 1 by simp
    then show ?thesis
      using True 1 by (simp add: memcpy_from.simps [of dest] tk dr [symmetric])
  next
    case False
    with "1.prems" show ?thesis by (simp add: memcpy_from.simps [of dest])
  qed
qed

lemma memcpy_from_fail:
  "i < n \<Longrightarrow> length dest < n \<or> length src < n \<Longrightarrow> memcpy_from dest src i n = None"
proof (induction dest src i n rule: memcpy_from.induct)
  case (1 dest src i n)
  show ?case
  proof (cases "i < length dest \<and> i < length src")
    case True
    with 1 have "Suc i < n" by auto
    with True 1 show ?thesis by (simp add: memcpy_from.simps [of dest])
  next
    case False
    with 1 show ?thesis by (auto simp: memcpy_from.simps [of dest])
  qed
qed

lemma memcpy_eq:
  "memcpy dest src n =
     (if n \<le> length dest \<and> n \<le> length src then Some (take n src @ drop n dest) else None)"
  by (auto simp: memcpy_def memcpy_from_ok memcpy_from_fail)

lemma memset_from_eq:
  "memset_from buf p v num =
     (if num = 0 then Some buf
      else if p + num \<le> length buf then Some (take p buf @ replicate num v @ drop (p + num) buf)
      else None)"
proof (induction num arbitrary: buf p)
  case 0
  then show ?case by simp
next
  case (Suc num)
  show ?case
  proof (cases "p < length buf")
    case True
    have "take (Suc p) (buf[p := v]) = take p buf @ [v]"
      using True by (simp add: take_Suc_conv_app_nth)
    moreover have "buf[p := v] = take p buf @ v # drop (Suc p) buf"
      using True by (rule upd_conv_take_nth_drop)
    ultimately show ?thesis
      using True Suc.IH [of "buf[p := v]" "Suc p"] by (auto simp: add.commute)
  next
    case False
    then show ?thesis by simp
  qed
qed

lemma memset_eq:
  "memset ptr val num =
     (if num \<le> length ptr then Some (replicate num (word_of_int val) @ drop num ptr) else None)"
  by (simp add: memset_def memset_from_eq)

lemma memcmp_None_iff: "memcmp p1 p2 n = None \<Longrightarrow> length p1 < n \<or> length p2 < n"
  by (induction p1 p2 n rule: memcmp.induct) (auto split: if_splits)

lemma memcmp_eq_0_iff:
  "memcmp p1 p2 n = Some 0 \<longleftrightarrow> n \<le> length p1 \<and> n \<le> length p2 \<and> take n p1 = take n p2"
  by (induction p1 p2 n rule: memcmp.induct) auto

lemma memcmp_defined: "n \<le> length p1 \<Longrightarrow> n \<le> length p2 \<Longrightarrow> \<exists>r. memcmp p1 p2 n = Some r"
  by (cases "memcmp p1 p2 n") (auto dest: memcmp_None_iff)

text \<open>The sign of \<open>memcmp\<close> is the sign of the first difference.\<close>

lemma memcmp_sign:
  "memcmp p1 p2 n = Some r \<Longrightarrow> r \<noteq> 0 \<Longrightarrow>
   \<exists>i < n. i < length p1 \<and> i < length p2 \<and> take i p1 = take i p2 \<and>
     (if r = 1 then p1 ! i > p2 ! i else r = -1 \<and> p1 ! i < p2 ! i)"
proof (induction p1 p2 n rule: memcmp.induct)
  case (2 a p1 b p2 num)
  show ?case
  proof (cases "a = b")
    case True
    with 2 obtain i where "i < num \<and> i < length p1 \<and> i < length p2 \<and> take i p1 = take i p2 \<and>
      (if r = 1 then p1 ! i > p2 ! i else r = -1 \<and> p1 ! i < p2 ! i)" by auto
    with True show ?thesis by (intro exI [of _ "Suc i"]) auto
  next
    case False
    with 2 show ?thesis by (intro exI [of _ 0]) (auto split: if_splits)
  qed
qed auto

end
