(* ===== verification/Cstring.thy ===== *)
theory Cstring
  imports Mem
begin

text \<open>
  \<open>framework/string.c\<close> and the macros of \<open>framework/string.h\<close>: the string routines of the
  kernel and the number formatting used by \<open>printk\<close>. A \<open>char *\<close> is the list of the bytes of
  its object from the pointer onwards, so the C string it denotes is \<open>cstr\<close>, the bytes before
  the first NUL, and a missing terminator makes the scan leave the object (\<^term>\<open>None\<close>). A
  \<open>char\<close> used as an \<open>int\<close> is sign-extended (\<^term>\<open>sint\<close>), as on x86-64.
\<close>

definition cstr :: "bytes \<Rightarrow> bytes" where
  "cstr p = takeWhile (\<lambda>b. b \<noteq> 0) p"

definition terminated :: "bytes \<Rightarrow> bool" where
  "terminated p \<longleftrightarrow> 0 \<in> set p"

section \<open>Scanning and comparing\<close>

fun strlen :: "bytes \<Rightarrow> nat option" where
  "strlen [] = None"
| "strlen (b # str) = (if b \<noteq> 0 then map_option Suc (strlen str) else Some 0)"

fun strcmp :: "bytes \<Rightarrow> bytes \<Rightarrow> int option" where
  "strcmp (a # str1) (b # str2) =
     (if a \<noteq> 0 \<and> b \<noteq> 0 then
        (if a \<noteq> b then Some (uint a - uint b) else strcmp str1 str2)
      else Some (uint a - uint b))"
| "strcmp _ _ = None"

fun strncmp :: "bytes \<Rightarrow> bytes \<Rightarrow> nat \<Rightarrow> int option" where
  "strncmp u1 u2 0 = Some 0"
| "strncmp (a # u1) (b # u2) (Suc n) =
     (if a \<noteq> b then Some (if a > b then 1 else -1)
      else if a = 0 then Some 0
      else strncmp u1 u2 n)"
| "strncmp u1 u2 (Suc n) = None"

text \<open>\<open>strchr\<close> returns the offset of the match; the inner \<^term>\<open>None\<close> is the null pointer.\<close>

fun strchr :: "bytes \<Rightarrow> u8 \<Rightarrow> nat option option" where
  "strchr [] ch = None"
| "strchr (b # str) ch =
     (if b \<noteq> 0 then
        (if b = ch then Some (Some 0) else map_option (map_option Suc) (strchr str ch))
      else if ch = 0 then Some (Some 0)
      else Some None)"

section \<open>Copying\<close>

text \<open>The destination object, the write position in it, and the remaining source.\<close>

fun strcpy_at :: "bytes \<Rightarrow> nat \<Rightarrow> bytes \<Rightarrow> bytes option" where
  "strcpy_at dest d [] = None"
| "strcpy_at dest d (b # src) =
     (if d < length dest then
        (if b \<noteq> 0 then strcpy_at (dest[d := b]) (Suc d) src else Some (dest[d := 0]))
      else None)"

definition strcpy :: "bytes \<Rightarrow> bytes \<Rightarrow> bytes option" where
  "strcpy dest src = strcpy_at dest 0 src"

definition strcat :: "bytes \<Rightarrow> bytes \<Rightarrow> bytes option" where
  "strcat dest src = (case strlen dest of None \<Rightarrow> None | Some d \<Rightarrow> strcpy_at dest d src)"

text \<open>The first loop of \<open>strncpy\<close> copies up to the terminator, the second pads with NUL.\<close>

function strncpy_copy :: "bytes \<Rightarrow> bytes \<Rightarrow> nat \<Rightarrow> nat \<Rightarrow> (bytes \<times> nat) option" where
  "strncpy_copy dest src i n =
     (if i < n then
        (if i < length src then
           (if src ! i \<noteq> 0 then
              (if i < length dest then strncpy_copy (dest[i := src ! i]) src (Suc i) n else None)
            else Some (dest, i))
         else None)
      else Some (dest, i))"
  by pat_completeness auto
termination
  by (relation "measure (\<lambda>(dest, src, i, n). n - i)") auto

declare strncpy_copy.simps [simp del]

definition strncpy :: "bytes option \<Rightarrow> bytes option \<Rightarrow> nat \<Rightarrow> bytes option option" where
  "strncpy dest src n =
     (case (dest, src) of
        (Some d, Some s) \<Rightarrow>
          (case strncpy_copy d s 0 n of
             None \<Rightarrow> None
           | Some (d', i) \<Rightarrow> map_option Some (memset_from d' i 0 (n - i)))
      | _ \<Rightarrow> Some None)"

section \<open>Character classes and \<open>atoi\<close>\<close>

definition toupper :: "int \<Rightarrow> int" where
  "toupper c = (if c \<ge> 97 \<and> c \<le> 122 then c - (97 - 65) else c)"

definition isdigit :: "int \<Rightarrow> bool" where
  "isdigit c \<longleftrightarrow> c \<ge> 48 \<and> c \<le> 57"

definition isalpha :: "int \<Rightarrow> bool" where
  "isalpha c \<longleftrightarrow> (c \<ge> 65 \<and> c \<le> 90) \<or> (c \<ge> 97 \<and> c \<le> 122)"

definition isspace :: "int \<Rightarrow> bool" where
  "isspace c \<longleftrightarrow> c = 32 \<or> c = 9 \<or> c = 10 \<or> c = 11 \<or> c = 12 \<or> c = 13"

definition int_range :: "int \<Rightarrow> bool" where
  "int_range v \<longleftrightarrow> - (2 ^ 31) \<le> v \<and> v < 2 ^ 31"

text \<open>
  \<open>result * 10 + (*str - '0')\<close> is signed arithmetic: a value outside \<open>int\<close> is undefined.
\<close>

fun atoi_digits :: "int \<Rightarrow> bytes \<Rightarrow> int option" where
  "atoi_digits result [] = None"
| "atoi_digits result (b # str) =
     (if isdigit (sint b) then
        (let r = result * 10 + (sint b - 48)
         in if int_range (result * 10) \<and> int_range r then atoi_digits r str else None)
      else Some result)"

fun skip_space :: "bytes \<Rightarrow> bytes option" where
  "skip_space [] = None"
| "skip_space (b # str) = (if isspace (sint b) then skip_space str else Some (b # str))"

definition atoi :: "bytes \<Rightarrow> int option" where
  "atoi str =
     (case skip_space str of
        None \<Rightarrow> None
      | Some p \<Rightarrow>
          (if hd p = 45 then map_option uminus (atoi_digits 0 (tl p))
           else if hd p = 43 then atoi_digits 0 (tl p)
           else atoi_digits 0 p))"

section \<open>Number formatting\<close>

definition DIGITS :: bytes where
  "DIGITS = [48, 49, 50, 51, 52, 53, 54, 55, 56, 57, 97, 98, 99, 100, 101, 102]"

text \<open>
  The digit loop shared by the 32-bit and the 64-bit routine: at most \<open>len\<close> digits, least
  significant first, as they are collected in the local array \<open>buf\<close>.
\<close>

fun digit_loop :: "'a::len word \<Rightarrow> 'a word \<Rightarrow> nat \<Rightarrow> bytes" where
  "digit_loop val base 0 = []"
| "digit_loop val base (Suc len) =
     (if val > 0 then DIGITS ! unat (val mod base) # digit_loop (val div base) base len else [])"

text \<open>Storing a run of bytes from the start of the caller's buffer.\<close>

definition store_at_0 :: "bytes \<Rightarrow> bytes \<Rightarrow> bytes option" where
  "store_at_0 buf bs = (if length bs \<le> length buf then Some (bs @ drop (length bs) buf) else None)"

definition uintToStr :: "u32 \<Rightarrow> int \<Rightarrow> bytes \<Rightarrow> bytes option" where
  "uintToStr val base return_buffer =
     (if base < 2 \<or> base > 16 then store_at_0 return_buffer [0]
      else if val = 0 then store_at_0 return_buffer [48, 0]
      else store_at_0 return_buffer (rev (digit_loop val (word_of_int base) 32) @ [0]))"

definition intToStr :: "int \<Rightarrow> int \<Rightarrow> bytes \<Rightarrow> bytes option" where
  "intToStr val base return_buffer =
     (if val \<ge> 0 then uintToStr (word_of_int val) base return_buffer
      else (case return_buffer of
              [] \<Rightarrow> None
            | _ # rest \<Rightarrow> map_option ((#) 45) (uintToStr (0 - word_of_int val) base rest)))"

definition ulongToStr :: "u64 \<Rightarrow> int \<Rightarrow> bytes \<Rightarrow> bytes option" where
  "ulongToStr val base return_buffer =
     (if base < 2 \<or> base > 16 then store_at_0 return_buffer [0]
      else if val = 0 then store_at_0 return_buffer [48, 0]
      else store_at_0 return_buffer (rev (digit_loop val (word_of_int base) 64) @ [0]))"

definition longToStr :: "int \<Rightarrow> int \<Rightarrow> bytes \<Rightarrow> bytes option" where
  "longToStr val base return_buffer =
     (if val \<ge> 0 then ulongToStr (word_of_int val) base return_buffer
      else (case return_buffer of
              [] \<Rightarrow> None
            | _ # rest \<Rightarrow> map_option ((#) 45) (ulongToStr (0 - word_of_int val) base rest)))"

section \<open>Strings and their terminators\<close>

lemma terminated_simps [simp]:
  "\<not> terminated []" "terminated (b # p) \<longleftrightarrow> b = 0 \<or> terminated p"
  by (auto simp: terminated_def)

lemma cstr_simps [simp]:
  "cstr [] = []" "cstr (b # p) = (if b = 0 then [] else b # cstr p)"
  by (auto simp: cstr_def)

lemma cstr_nonzero: "0 \<notin> set (cstr p)"
  by (auto simp: cstr_def dest: set_takeWhileD)

lemma terminated_decomp: "terminated p \<Longrightarrow> \<exists>q. p = cstr p @ 0 # q"
  by (induction p) auto

lemma length_cstr_less: "terminated p \<Longrightarrow> length (cstr p) < length p"
  by (induction p) auto

lemma cstr_append_nul [simp]: "0 \<notin> set s \<Longrightarrow> cstr (s @ 0 # q) = s"
  by (induction s) auto

lemma cstr_id: "0 \<notin> set s \<Longrightarrow> cstr s = s"
  by (induction s) auto

lemma strlen_eq: "strlen p = (if terminated p then Some (length (cstr p)) else None)"
  by (induction p) auto

lemma strcmp_eq_0_iff:
  "terminated p \<Longrightarrow> terminated q \<Longrightarrow> strcmp p q = Some 0 \<longleftrightarrow> cstr p = cstr q"
  by (induction p q rule: strcmp.induct) (auto simp: uint_0_iff dest: word_uint_eqI)

lemma strcmp_defined: "terminated p \<Longrightarrow> terminated q \<Longrightarrow> \<exists>r. strcmp p q = Some r"
  by (induction p q rule: strcmp.induct) auto

lemma strncmp_eq_0_iff:
  "terminated p \<Longrightarrow> terminated q \<Longrightarrow>
   strncmp p q n = Some 0 \<longleftrightarrow> take n (cstr p) = take n (cstr q)"
  by (induction p q n rule: strncmp.induct) auto

lemma strchr_eq:
  "terminated p \<Longrightarrow> ch \<noteq> 0 \<Longrightarrow>
   strchr p ch = Some (if ch \<in> set (cstr p)
                       then Some (length (takeWhile (\<lambda>b. b \<noteq> ch) (cstr p))) else None)"
  by (induction p ch rule: strchr.induct) auto

lemma strcpy_at_eq:
  "terminated src \<Longrightarrow>
   strcpy_at dest d src =
     (if d + length (cstr src) < length dest
      then Some (overwrite dest d (cstr src @ [0])) else None)"
proof (induction dest d src rule: strcpy_at.induct)
  case (2 dest d b src)
  show ?case
  proof (cases "b = 0 \<or> \<not> d < length dest")
    case True
    then show ?thesis by (auto simp: overwrite_def upd_conv_take_nth_drop)
  next
    case False
    then have "terminated src" using "2.prems" by auto
    with False 2 have "strcpy_at (dest[d := b]) (Suc d) src =
        (if Suc d + length (cstr src) < length dest
         then Some (overwrite (dest[d := b]) (Suc d) (cstr src @ [0])) else None)" by simp
    moreover have "take (Suc d) (dest[d := b]) = take d dest @ [b]"
      using False by (simp add: take_Suc_conv_app_nth)
    ultimately show ?thesis using False by (simp add: overwrite_def)
  qed
qed simp

lemma strcpy_at_unterminated: "\<not> terminated src \<Longrightarrow> strcpy_at dest d src = None"
  by (induction dest d src rule: strcpy_at.induct) auto

lemma strcpy_eq:
  "strcpy dest src =
     (if terminated src \<and> length (cstr src) < length dest
      then Some (cstr src @ 0 # drop (Suc (length (cstr src))) dest) else None)"
  by (cases "terminated src")
    (simp_all add: strcpy_def strcpy_at_eq strcpy_at_unterminated overwrite_def)

lemma strcat_cstr:
  assumes "strcat dest src = Some r"
  shows "cstr r = cstr dest @ cstr src \<and> length r = length dest"
proof -
  have t: "terminated dest" "terminated src"
    using assms by (auto simp: strcat_def strlen_eq strcpy_at_unterminated split: if_splits)
      (metis option.distinct(1) strcpy_at_unterminated)
  then have fits: "length (cstr dest) + length (cstr src) < length dest"
    and r: "r = overwrite dest (length (cstr dest)) (cstr src @ [0])"
    using assms by (auto simp: strcat_def strlen_eq strcpy_at_eq split: if_splits)
  obtain q where q: "dest = cstr dest @ 0 # q" using t terminated_decomp by blast
  then have "take (length (cstr dest)) dest = cstr dest" by (metis append_eq_conv_conj)
  then have "r = (cstr dest @ cstr src) @ 0 # drop (length (cstr dest) + Suc (length (cstr src))) dest"
    by (simp add: r overwrite_def)
  then have "cstr r = cstr dest @ cstr src"
    using cstr_nonzero [of dest] cstr_nonzero [of src] cstr_append_nul [of "cstr dest @ cstr src"]
    by simp
  moreover have "length r = length dest"
    using fits by (simp add: r buf_simps)
  ultimately show ?thesis by simp
qed

lemma strncpy_copy_eq:
  "i \<le> n \<Longrightarrow> n \<le> length dest \<Longrightarrow> terminated src \<or> n \<le> length src \<Longrightarrow> i \<le> length (cstr src) \<Longrightarrow>
   strncpy_copy dest src i n =
     (let m = min n (length (cstr src))
      in Some (take i dest @ drop i (take m src) @ drop m dest, m))"
proof (induction dest src i n rule: strncpy_copy.induct)
  case (1 dest src i n)
  define m where "m = min n (length (cstr src))"
  have len: "length (cstr src) \<le> length src" by (simp add: cstr_def length_takeWhile_le)
  show ?case
  proof (cases "i < n \<and> i < length (cstr src)")
    case True
    then have lt: "i < length src" "i < length dest" "i < m"
      using len 1 by (auto simp: m_def)
    have nz: "src ! i \<noteq> 0"
      using True cstr_nonzero [of src] nth_mem [of i "cstr src"]
      by (auto simp: cstr_def takeWhile_nth)
    have tk: "take (Suc i) (dest[i := src ! i]) = take i dest @ [src ! i]"
      using lt by (simp add: take_Suc_conv_app_nth)
    have dr: "src ! i # drop (Suc i) (take m src) = drop i (take m src)"
      using lt by (simp add: Cons_nth_drop_Suc [symmetric])
    have "strncpy_copy (dest[i := src ! i]) src (Suc i) n =
        Some (take (Suc i) (dest[i := src ! i]) @ drop (Suc i) (take m src) @ drop m dest, m)"
      using True lt nz 1 by (simp add: m_def Let_def)
    then show ?thesis
      unfolding Let_def m_def [symmetric]
      using True lt nz by (simp add: strncpy_copy.simps [of dest] tk dr [symmetric])
  next
    case False
    show ?thesis
    proof (cases "i < n")
      case True
      with False 1 have i: "i = length (cstr src)" by simp
      with True 1 have t: "i < length src"
        using length_cstr_less [of src] by auto
      then have "src ! i = 0"
        using i nth_length_takeWhile [of "\<lambda>b. b \<noteq> 0" src] by (simp add: cstr_def)
      with True t i show ?thesis
        by (simp add: strncpy_copy.simps [of dest] Let_def)
    next
      case False
      with 1 have "i = n" by simp
      with 1 show ?thesis by (simp add: strncpy_copy.simps [of dest] Let_def)
    qed
  qed
qed

lemma strncpy_eq:
  assumes "n \<le> length dest" and "terminated src \<or> n \<le> length src"
  shows "strncpy (Some dest) (Some src) n =
    Some (Some (take n (cstr src) @ replicate (n - length (cstr src)) 0 @ drop n dest))"
proof -
  define m where "m = min n (length (cstr src))"
  have tk: "take m src = take n (cstr src)"
    by (metis cstr_def m_def min.commute take_take takeWhile_eq_take)
  have "strncpy_copy dest src 0 n = Some (take m src @ drop m dest, m)"
    using strncpy_copy_eq [of 0 n dest src] assms by (simp add: m_def Let_def)
  moreover have "length (take m src) = m"
    using tk by (simp add: m_def)
  moreover have "m \<le> n" by (simp add: m_def)
  ultimately show ?thesis
    using assms tk by (auto simp: strncpy_def memset_from_eq m_def)
qed

lemma strncpy_null: "strncpy None s n = Some None" "strncpy d None n = Some None"
  by (auto simp: strncpy_def split: option.splits)

section \<open>What the number formatting prints\<close>

definition digit_val :: "u8 \<Rightarrow> nat" where
  "digit_val d = (if d \<le> 57 then unat d - 48 else unat d - 87)"

text \<open>The number a digit string denotes in a base, most significant digit first.\<close>

definition str_value :: "nat \<Rightarrow> bytes \<Rightarrow> nat" where
  "str_value base s = foldl (\<lambda>acc d. base * acc + digit_val d) 0 s"

lemma DIGITS_facts:
  assumes "k < 16"
  shows "digit_val (DIGITS ! k) = k" and "DIGITS ! k \<noteq> 0"
    and "k < 10 \<Longrightarrow> isdigit (sint (DIGITS ! k)) \<and> sint (DIGITS ! k) = 48 + int k"
proof -
  have "k \<in> set [0, 1, 2, 3, 4, 5, 6, 7, 8, 9, 10, 11, 12, 13, 14, 15]"
    using assms by (simp, presburger)
  then show "digit_val (DIGITS ! k) = k" and "DIGITS ! k \<noteq> 0"
    and "k < 10 \<Longrightarrow> isdigit (sint (DIGITS ! k)) \<and> sint (DIGITS ! k) = 48 + int k"
    by (auto simp: DIGITS_def digit_val_def isdigit_def)
qed

lemma str_value_snoc: "str_value b (s @ [d]) = b * str_value b s + digit_val d"
  by (simp add: str_value_def)

lemma unat_mod_less: "0 < unat b \<Longrightarrow> unat (v mod b :: 'a::len word) < unat b"
  by (simp add: unat_mod_distrib)

lemma digit_loop_value:
  assumes "2 \<le> unat base" and "unat base \<le> 16"
  shows "unat val < unat base ^ len \<Longrightarrow>
    str_value (unat base) (rev (digit_loop val base len)) = unat val"
proof (induction len arbitrary: val)
  case 0
  then show ?case by (simp add: str_value_def)
next
  case (Suc len)
  show ?case
  proof (cases "val > 0")
    case True
    have "unat (val mod base) < 16" using assms unat_mod_less [of base val] by simp
    then have d: "digit_val (DIGITS ! unat (val mod base)) = unat val mod unat base"
      by (simp add: DIGITS_facts unat_mod_distrib)
    have "unat (val div base) < unat base ^ len"
      using Suc.prems assms
      by (simp add: unat_div_distrib less_mult_imp_div_less mult.commute)
    then have "str_value (unat base) (rev (digit_loop (val div base) base len)) =
        unat val div unat base"
      using Suc.IH by (simp add: unat_div_distrib)
    with True d show ?thesis by (simp add: str_value_snoc)
  next
    case False
    then show ?thesis by (simp add: str_value_def word_gt_0)
  qed
qed

lemma digit_loop_length:
  assumes "2 \<le> unat base"
  shows "unat val < unat base ^ k \<Longrightarrow> length (digit_loop val base len) \<le> k"
proof (induction len arbitrary: val k)
  case (Suc len)
  show ?case
  proof (cases "val > 0")
    case True
    then obtain k' where k: "k = Suc k'" using Suc.prems by (cases k) (auto simp: word_gt_0 unat_eq_0)
    have "unat (val div base) < unat base ^ k'"
      using Suc.prems assms k
      by (simp add: unat_div_distrib less_mult_imp_div_less mult.commute)
    with Suc.IH True k show ?thesis by simp
  qed simp
qed simp

lemma digit_loop_chars:
  assumes "2 \<le> unat base" and "unat base \<le> 16"
  shows "d \<in> set (digit_loop val base len) \<Longrightarrow>
    d \<noteq> 0 \<and> (unat base \<le> 10 \<longrightarrow> isdigit (sint d) \<and> sint d - 48 = int (digit_val d))"
proof (induction len arbitrary: val)
  case (Suc len)
  have lt: "unat (val mod base) < unat base" using assms unat_mod_less [of base val] by simp
  then have "unat (val mod base) < 16" using assms by simp
  with Suc lt DIGITS_facts [of "unat (val mod base)"] show ?case
    by (auto split: if_splits)
qed simp

lemma word_of_base:
  assumes "2 \<le> base" and "base \<le> 16" and "5 \<le> LENGTH('a::len)"
  shows "unat (word_of_int base :: 'a word) = nat base"
proof -
  have "(2::int) ^ 5 \<le> 2 ^ LENGTH('a)" using assms(3) by (rule power_increasing) simp
  then have "base < 2 ^ LENGTH('a)" using assms by simp
  then show ?thesis
    using assms by (simp add: unat_eq_nat_uint uint_word_of_int take_bit_int_eq_self)
qed

lemma le_32_pow: assumes "2 \<le> (b::nat)" shows "unat (v :: u32) < b ^ 32"
proof -
  have "unat v < 2 ^ 32" using unsigned_less [of v] by simp
  also have "(2::nat) ^ 32 \<le> b ^ 32" using assms by (rule power_mono) simp
  finally show ?thesis .
qed

text \<open>The buffer contents after a successful conversion.\<close>

lemma uintToStr_digits:
  assumes "2 \<le> base" and "base \<le> 16" and "33 \<le> length buf"
  obtains s where "uintToStr v base buf = Some (s @ 0 # drop (Suc (length s)) buf)"
    and "0 \<notin> set s" and "length s \<le> 32" and "s \<noteq> []" and "str_value (nat base) s = unat v"
    and "base \<le> 10 \<Longrightarrow> \<forall>d\<in>set s. isdigit (sint d) \<and> sint d - 48 = int (digit_val d)"
proof (cases "v = 0")
  case True
  have "uintToStr v base buf = Some ([48] @ 0 # drop (Suc (length [48])) buf)"
    using assms True by (simp add: uintToStr_def store_at_0_def)
  then show ?thesis
    by (rule that) (auto simp: True str_value_def digit_val_def isdigit_def)
next
  case False
  define b where "b = (word_of_int base :: u32)"
  have b: "unat b = nat base" "2 \<le> unat b" "unat b \<le> 16"
    using assms by (auto simp: b_def word_of_base)
  define s where "s = rev (digit_loop v b 32)"
  have val: "str_value (unat b) s = unat v"
    unfolding s_def using b le_32_pow [of "unat b" v] by (intro digit_loop_value) auto
  have len: "length s \<le> 32"
    unfolding s_def using b le_32_pow [of "unat b" v] by (simp add: digit_loop_length)
  have ne: "s \<noteq> []"
    using False by (simp add: s_def numeral_eq_Suc word_gt_0)
  have "uintToStr v base buf = Some (s @ 0 # drop (Suc (length s)) buf)"
    using assms False len by (simp add: uintToStr_def store_at_0_def s_def b_def)
  then show ?thesis
    using len ne val b digit_loop_chars [of b _ v 32]
    by (intro that [of s]) (auto simp: s_def)
qed

lemma atoi_digits_run:
  assumes "\<forall>d\<in>set s. isdigit (sint d) \<and> sint d - 48 = int (digit_val d)"
  shows "0 \<le> r \<Longrightarrow> int (str_value 10 s) + r * 10 ^ length s < 2 ^ 31 \<Longrightarrow> \<not> isdigit (sint x) \<Longrightarrow>
    atoi_digits r (s @ x # q) = Some (r * 10 ^ length s + int (str_value 10 s))"
  using assms
proof (induction s arbitrary: r)
  case Nil
  then show ?case by (simp add: str_value_def)
next
  case (Cons d s)
  have fold: "foldl (\<lambda>acc d. 10 * acc + digit_val d) k s =
      k * 10 ^ length s + foldl (\<lambda>acc d. 10 * acc + digit_val d) 0 s" for k
    by (induction s rule: rev_induct) (auto simp: algebra_simps)
  have sv: "str_value 10 (d # s) = digit_val d * 10 ^ length s + str_value 10 s"
    by (simp add: str_value_def fold [of "digit_val d"])
  define r' where "r' = r * 10 + int (digit_val d)"
  have r': "r' * 10 ^ length s + int (str_value 10 s) =
      r * 10 ^ length (d # s) + int (str_value 10 (d # s))"
    by (simp add: sv r'_def algebra_simps)
  have pow: "(1::int) \<le> 10 ^ length s" by simp
  have nonneg: "0 \<le> r'" using Cons.prems by (simp add: r'_def)
  have "r' \<le> r' * 10 ^ length s" using mult_left_mono [OF pow nonneg] by simp
  then have "r' < 2 ^ 31" using r' Cons.prems(2) by linarith
  then have "int_range (r * 10) \<and> int_range r'"
    using Cons.prems(1) by (auto simp: int_range_def r'_def)
  moreover have "atoi_digits r' (s @ x # q) = Some (r' * 10 ^ length s + int (str_value 10 s))"
    using Cons r' nonneg by (intro Cons.IH) (auto simp: add.commute)
  ultimately show ?case
    using Cons.prems(4) r' by (simp add: Let_def r'_def)
qed

lemma atoi_nonneg:
  assumes "s \<noteq> []" and "\<forall>d\<in>set s. isdigit (sint d) \<and> sint d - 48 = int (digit_val d)"
    and "str_value 10 s < 2 ^ 31"
  shows "atoi (s @ 0 # q) = Some (int (str_value 10 s))"
    and "atoi (45 # s @ 0 # q) = Some (- int (str_value 10 s))"
proof -
  have run: "atoi_digits 0 (s @ 0 # q) = Some (int (str_value 10 s))"
    using atoi_digits_run [OF assms(2), of 0 0 q] assms(3) by (simp add: isdigit_def)
  obtain d s' where s: "s = d # s'" using assms(1) by (cases s) auto
  then have d: "isdigit (sint d)" using assms(2) by simp
  then have "\<not> isspace (sint d)" "d \<noteq> 45" "d \<noteq> 43"
    by (auto simp: isdigit_def isspace_def)
  with run s show "atoi (s @ 0 # q) = Some (int (str_value 10 s))"
    by (simp add: atoi_def)
  from run show "atoi (45 # s @ 0 # q) = Some (- int (str_value 10 s))"
    by (simp add: atoi_def isspace_def)
qed

section \<open>Properties\<close>

text \<open>C24: for every base from 2 to 16 and every 32-bit value, \<open>uintToStr\<close> stays inside a buffer
  of 33 bytes (the size \<open>printk\<close> passes) and leaves there a NUL-terminated numeral of at most 32
  digits that denotes the value in that base.\<close>

theorem uintToStr_correct:
  assumes "2 \<le> base" and "base \<le> 16" and "33 \<le> length buf"
  shows "\<exists>r. uintToStr v base buf = Some r \<and> length r = length buf \<and> terminated r \<and>
    1 \<le> length (cstr r) \<and> length (cstr r) \<le> 32 \<and> str_value (nat base) (cstr r) = unat v"
proof -
  obtain s where r: "uintToStr v base buf = Some (s @ 0 # drop (Suc (length s)) buf)"
    and "0 \<notin> set s" "length s \<le> 32" "s \<noteq> []" "str_value (nat base) s = unat v"
    by (rule uintToStr_digits [OF assms])
  then show ?thesis using assms(3)
    by (intro exI [of _ "s @ 0 # drop (Suc (length s)) buf"]) (auto simp: Suc_le_eq terminated_def)
qed

theorem uintToStr_correct_witness:
  "uintToStr 255 16 (replicate 33 0) = Some ([102, 102] @ replicate 31 0) \<and>
   (\<exists>r. uintToStr 255 16 (replicate 33 0) = Some r \<and> str_value 16 (cstr r) = 255)"
proof
  show "uintToStr 255 16 (replicate 33 0) = Some ([102, 102] @ replicate 31 0)"
    by code_simp
  show "\<exists>r. uintToStr 255 16 (replicate 33 0) = Some r \<and> str_value 16 (cstr r) = 255"
    using uintToStr_correct [of 16 "replicate 33 0" 255] by auto
qed

text \<open>C25: printing an \<open>int\<close> in decimal with \<open>intToStr\<close> and reading it back with \<open>atoi\<close> gives the
  same number, for every \<open>int\<close> but the least one.\<close>

theorem atoi_intToStr:
  assumes "- (2 ^ 31) < v" and "v < 2 ^ 31" and "34 \<le> length buf"
  shows "\<exists>r. intToStr v 10 buf = Some r \<and> atoi r = Some v"
proof (cases "0 \<le> v")
  case True
  obtain s where "uintToStr (word_of_int v) 10 buf = Some (s @ 0 # drop (Suc (length s)) buf)"
    and s: "s \<noteq> []" "\<forall>d\<in>set s. isdigit (sint d) \<and> sint d - 48 = int (digit_val d)"
      "str_value 10 s = unat (word_of_int v :: u32)"
    by (rule uintToStr_digits [of 10 buf "word_of_int v"]) (use assms in auto)
  moreover have int: "int (unat (word_of_int v :: u32)) = v"
    using True assms by (simp add: uint_word_of_int take_bit_int_eq_self)
  moreover have "unat (word_of_int v :: u32) < 2 ^ 31"
    using int assms(2) by (rule nat_less_pow2_if_int)
  ultimately show ?thesis
    using True assms atoi_nonneg(1) [OF s(1,2)] by (simp add: intToStr_def)
next
  case False
  obtain x rest where buf: "buf = x # rest" using assms by (cases buf) auto
  obtain s where u: "uintToStr (0 - word_of_int v) 10 rest = Some (s @ 0 # drop (Suc (length s)) rest)"
    and s: "s \<noteq> []" "\<forall>d\<in>set s. isdigit (sint d) \<and> sint d - 48 = int (digit_val d)"
      "str_value 10 s = unat (0 - word_of_int v :: u32)"
    by (rule uintToStr_digits [of 10 rest "0 - word_of_int v"]) (use assms buf in auto)
  have eq: "(0 - word_of_int v :: u32) = word_of_int (- v)" by simp
  have int: "int (unat (0 - word_of_int v :: u32)) = - v"
    unfolding eq using False assms
    by (simp add: uint_word_of_int take_bit_int_eq_self del: wi_hom_neg of_int_minus)
  moreover have "unat (0 - word_of_int v :: u32) < 2 ^ 31"
    using int assms(1) by (intro nat_less_pow2_if_int) auto
  ultimately show ?thesis
    using False assms u atoi_nonneg(2) [OF s(1,2)] s(3) buf
    by (simp add: intToStr_def)
qed

theorem atoi_intToStr_witness:
  "intToStr (- 17) 10 (replicate 34 0) = Some ([45, 49, 55] @ replicate 31 0) \<and>
   (\<exists>r. intToStr (- 17) 10 (replicate 34 0) = Some r \<and> atoi r = Some (- 17))"
proof
  show "intToStr (- 17) 10 (replicate 34 0) = Some ([45, 49, 55] @ replicate 31 0)"
    by code_simp
  show "\<exists>r. intToStr (- 17) 10 (replicate 34 0) = Some r \<and> atoi r = Some (- 17)"
    using atoi_intToStr [of "- 17" "replicate 34 0"] by simp
qed

end
