(* ===== verification/Keyboard.thy ===== *)
theory Keyboard
  imports Msg Cstring
begin

text \<open>
  The keyboard driver (\<open>src/keyboard.c\<close>): decoding of scan codes, the blocking readers \<open>getChar\<close> and
  \<open>getCharEx\<close>, the line reader \<open>fgetsk\<close> and the scanner behind \<open>scank\<close> and \<open>sscank\<close>. What the
  hardware does is the list of the answers the status port will give: ready with a scan code, or not ready,
  in which case \<open>msg_poll\<close> runs on the bytes that the serial port has at that moment and prints the messages that
  arrive on the same terminal. A reader whose input ends waits for ever, which is \<^term>\<open>None\<close>.
\<close>

section \<open>The console\<close>

datatype kbd_status = Not_Ready bytes | Ready u8

record console =
  g_shift :: bool
  kbd :: "kbd_status list"
  msgs :: msg_state
  heard :: "(u8 \<times> bytes) list"
  screen :: bytes

definition KEY_UP :: int where "KEY_UP = 256"
definition KEY_DOWN :: int where "KEY_DOWN = 257"
definition KEY_LEFT :: int where "KEY_LEFT = 258"
definition KEY_RIGHT :: int where "KEY_RIGHT = 259"
definition KEY_HOME :: int where "KEY_HOME = 260"
definition KEY_END :: int where "KEY_END = 261"
definition KEY_DEL :: int where "KEY_DEL = 262"

lemmas key_codes = KEY_UP_def KEY_DOWN_def KEY_LEFT_def KEY_RIGHT_def KEY_HOME_def KEY_END_def KEY_DEL_def

definition putChar :: "u8 \<Rightarrow> console \<Rightarrow> console" where
  "putChar ch con = con\<lparr> screen := screen con @ [ch] \<rparr>"

text \<open>A message on the terminal, as \<open>msg_poll\<close> prints it, and \<open>msg_poll\<close> on the bytes that the serial port has:
  the messages for this node are printed in the order of their arrival.\<close>

fun decimal :: "nat \<Rightarrow> bytes" where
  "decimal n = (if n < 10 then [48 + of_nat n] else decimal (n div 10) @ [48 + of_nat (n mod 10)])"

declare decimal.simps [simp del]

definition message_text :: "u8 \<times> bytes \<Rightarrow> bytes" where
  "message_text = (\<lambda>(sender, body). map of_char ''\<newline>[msg from '' @ decimal (unat sender) @ map of_char '']: '' @ body @ [10])"

definition console_poll :: "bytes \<Rightarrow> console \<Rightarrow> console option" where
  "console_poll bs con = do {
     (m, hs) \<leftarrow> msg_poll (msgs con) bs;
     Some (con\<lparr> msgs := m, heard := heard con @ hs, screen := screen con @ concat (map message_text hs) \<rparr>) }"

lemma console_poll_kbd [termination_simp]: "console_poll bs con = Some con' \<Longrightarrow> kbd con' = kbd con"
  by (auto simp: console_poll_def split: bind_splits)

function readKeyData :: "console \<Rightarrow> (u8 \<times> console) option" where
  "readKeyData con = (case kbd con of
     [] \<Rightarrow> None
   | Not_Ready bs # ks \<Rightarrow> do {
       con \<leftarrow> console_poll bs (con\<lparr> kbd := ks \<rparr>);
       readKeyData con }
   | Ready code # ks \<Rightarrow> Some (code, con\<lparr> kbd := ks \<rparr>))"
  by pat_completeness auto
termination
  by (relation "measure (\<lambda>con. length (kbd con))") (auto dest: console_poll_kbd)

declare readKeyData.simps [simp del]

text \<open>\<open>clearKeyboardBuffer\<close> drops the codes that are ready now.\<close>

fun clearKeyboardBuffer :: "kbd_status list \<Rightarrow> kbd_status list" where
  "clearKeyboardBuffer (Ready code # ks) = clearKeyboardBuffer ks"
| "clearKeyboardBuffer ks = ks"

section \<open>Scan codes\<close>

definition scan_code_map :: bytes where
  "scan_code_map =
    [0, 0, 49, 50, 51, 52, 53, 54, 55, 56, 57, 48, 45, 61, 8, 0, 113, 119,
     101, 114, 116, 121, 117, 105, 111, 112, 91, 93, 10, 0, 97, 115, 100, 102, 103, 104,
     106, 107, 108, 59, 39, 96, 0, 92, 122, 120, 99, 118, 98, 110, 109, 44, 46, 47,
     0, 42, 0, 32, 0, 0, 0, 0, 0, 0, 0, 0, 45, 0, 43, 0, 0, 0,
     0, 0, 0, 0, 0, 0, 0, 0, 0, 0, 0, 0, 0, 0, 0, 0, 0, 0,
     0, 0, 0, 0, 0, 0, 0, 0, 0, 0, 0, 0, 0, 0]"

text \<open>The \<open>switch\<close> for a pressed shift key.\<close>

definition shift_map :: "(u8 \<times> u8) list" where
  "shift_map =
    [(0x02, 33), (0x03, 64), (0x04, 35), (0x05, 36), (0x06, 37), (0x07, 94), (0x08, 38), (0x09, 42), (0x0A, 40), (0x0B, 41),
     (0x0C, 95), (0x0D, 43), (0x10, 81), (0x11, 87), (0x12, 69), (0x13, 82), (0x14, 84), (0x15, 89), (0x16, 85), (0x17, 73),
     (0x18, 79), (0x19, 80), (0x1A, 123), (0x1B, 125), (0x1E, 65), (0x1F, 83), (0x20, 68), (0x21, 70), (0x22, 71), (0x23, 72),
     (0x24, 74), (0x25, 75), (0x26, 76), (0x27, 58), (0x28, 34), (0x29, 126), (0x2B, 124), (0x2C, 90), (0x2D, 88), (0x2E, 67),
     (0x2F, 86), (0x30, 66), (0x31, 78), (0x32, 77), (0x33, 60), (0x34, 62), (0x35, 63)]"

definition codeToChar :: "bool \<Rightarrow> u8 \<Rightarrow> u8" where
  "codeToChar shift scan_code =
     (if scan_code \<ge> 0x02 \<and> scan_code \<le> 0x39 then
        (case (if shift then map_of shift_map scan_code else None) of
           Some ch \<Rightarrow> ch
         | None \<Rightarrow> scan_code_map ! unat scan_code)
      else 0)"

section \<open>Blocking readers\<close>

lemma readKeyData_less [termination_simp]:
  "readKeyData con = Some (code, con') \<Longrightarrow> length (kbd con') < length (kbd con)"
proof (induction con rule: readKeyData.induct)
  case (1 con)
  show ?case
  proof (cases "kbd con")
    case (Cons k ks)
    then show ?thesis using 1 by (cases k) (fastforce simp: readKeyData.simps [of con] dest: console_poll_kbd split: bind_splits)+
  qed (use 1 in \<open>simp add: readKeyData.simps [of con]\<close>)
qed

function getChar :: "console \<Rightarrow> (u8 \<times> console) option" where
  "getChar con = do {
     (code, con) \<leftarrow> readKeyData con;
     if code = 0x2A \<or> code = 0x36 then getChar (con\<lparr> g_shift := True \<rparr>)
     else if code = 0xAA \<or> code = 0xB6 then getChar (con\<lparr> g_shift := False \<rparr>)
     else if code AND 0x80 \<noteq> 0 then getChar con
     else if code \<noteq> 0 then
       (let ch = codeToChar (g_shift con) code in
        if ch = 8 then Some (ch, con)
        else if ch \<noteq> 0 then Some (ch, putChar ch con)
        else getChar con)
     else getChar con }"
  by pat_completeness auto
termination
  by (relation "measure (\<lambda>con. length (kbd con))") (auto dest: readKeyData_less)

declare getChar.simps [simp del]

text \<open>The second \<open>switch\<close>: the code behind a \<open>0xE0\<close>.\<close>

definition extended_key :: "u8 \<Rightarrow> int option" where
  "extended_key code = map_of [(0x48, KEY_UP), (0x50, KEY_DOWN), (0x4B, KEY_LEFT), (0x4D, KEY_RIGHT),
     (0x47, KEY_HOME), (0x4F, KEY_END), (0x53, KEY_DEL)] code"

function getCharEx :: "console \<Rightarrow> (int \<times> console) option" where
  "getCharEx con = do {
     (code, con) \<leftarrow> readKeyData con;
     if code = 0xE0 then do {
       (code, con) \<leftarrow> readKeyData con;
       case extended_key code of Some k \<Rightarrow> Some (k, con) | None \<Rightarrow> getCharEx con }
     else if code = 0x2A \<or> code = 0x36 then getCharEx (con\<lparr> g_shift := True \<rparr>)
     else if code = 0xAA \<or> code = 0xB6 then getCharEx (con\<lparr> g_shift := False \<rparr>)
     else if code AND 0x80 \<noteq> 0 then getCharEx con
     else if code \<noteq> 0 then
       (let ch = codeToChar (g_shift con) code in
        if ch \<noteq> 0 then Some (sint ch, con) else getCharEx con)
     else getCharEx con }"
  by pat_completeness auto
termination
  by (relation "measure (\<lambda>con. length (kbd con))") (auto dest!: readKeyData_less)

declare getCharEx.simps [simp del]

text \<open>The two character sources of the scanner. The context of the second is the rest of the string.\<close>

type_synonym 'c getCharFunc = "'c \<Rightarrow> console \<Rightarrow> (int \<times> 'c \<times> console) option"

definition getCharWrapper :: "unit getCharFunc" where
  "getCharWrapper context con = do { (ch, con) \<leftarrow> getChar con; Some (sint ch, context, con) }"

definition getCharFromString :: "bytes getCharFunc" where
  "getCharFromString p con = (case p of
     [] \<Rightarrow> None
   | c # cs \<Rightarrow> if c = 0 then Some (-1, p, con) else Some (sint c, cs, con))"

section \<open>Reading a line\<close>

partial_function (option) fgetsk_loop ::
  "'c getCharFunc \<Rightarrow> 'c \<Rightarrow> console \<Rightarrow> bytes \<Rightarrow> int \<Rightarrow> nat \<Rightarrow> (nat \<times> bytes \<times> 'c \<times> console) option" where
  "fgetsk_loop getc context con buf sz i =
    (if int i < sz - 1 then do {
       (ch, context, con) \<leftarrow> getc context con;
       if ch = -1 then Some (i, buf, context, con)
       else if ch = 10 then Some (i, buf, context, putChar 10 con)
       else if ch = 8 then
         (if i > 0
          then fgetsk_loop getc context (putChar 8 (putChar 32 (putChar 8 con))) buf sz (i - 1)
          else fgetsk_loop getc context con buf sz i)
       else do {
         buf \<leftarrow> upd buf i (word_of_int ch);
         fgetsk_loop getc context con buf sz (i + 1) } }
     else Some (i, buf, context, con))"

definition fgetsk_core :: "bytes \<Rightarrow> int \<Rightarrow> 'c getCharFunc \<Rightarrow> 'c \<Rightarrow> console \<Rightarrow> (int \<times> bytes \<times> 'c \<times> console) option" where
  "fgetsk_core buf sz getc context con =
    (if sz \<le> 0 then Some (0, buf, context, con)
     else do {
       (i, buf, context, con) \<leftarrow> fgetsk_loop getc context con buf sz 0;
       buf \<leftarrow> upd buf i 0;
       Some (int i, buf, context, con) })"

definition fgetsk :: "bytes \<Rightarrow> int \<Rightarrow> console \<Rightarrow> (int \<times> bytes \<times> console) option" where
  "fgetsk buf sz con = do {
     (n, buf, _, con) \<leftarrow> fgetsk_core buf sz getCharWrapper () con;
     Some (n, buf, con) }"

section \<open>Scanning\<close>

text \<open>The variable arguments: pointers to a character array or to an \<open>int\<close>.\<close>

datatype scan_arg = Scan_Str bytes | Scan_Int int

partial_function (option) scan_string ::
  "'c getCharFunc \<Rightarrow> 'c \<Rightarrow> console \<Rightarrow> bytes \<Rightarrow> nat \<Rightarrow> (bytes \<times> 'c \<times> console) option" where
  "scan_string getc context con str arg = do {
     (ch, context, con) \<leftarrow> getc context con;
     if ch = -1 \<or> ch = 10 \<or> ch = 13 then do { str \<leftarrow> upd str arg 0; Some (str, context, con) }
     else if ch = 32 then
       (if arg \<noteq> 0 then do { str \<leftarrow> upd str arg 0; scan_string getc context con str (arg + 1) }
        else scan_string getc context con str arg)
     else if ch = 8 then do { str \<leftarrow> upd str arg 0; scan_string getc context con str (arg - 1) }
     else do { str \<leftarrow> upd str arg (word_of_int ch); scan_string getc context con str (arg + 1) } }"

partial_function (option) scan_digits ::
  "'c getCharFunc \<Rightarrow> 'c \<Rightarrow> console \<Rightarrow> int \<Rightarrow> int \<Rightarrow> nat \<Rightarrow> (int \<times> nat \<times> 'c \<times> console) option" where
  "scan_digits getc context con ch val digits =
    (if ch \<ge> 48 \<and> ch \<le> 57 then
       (let v = val * 10 + (ch - 48) in
        if int_range (val * 10) \<and> int_range v then do {
          (ch, context, con) \<leftarrow> getc context con;
          scan_digits getc context con ch v (digits + 1) }
        else None)
     else Some (val, digits, context, con))"

definition scan_int ::
  "'c getCharFunc \<Rightarrow> 'c \<Rightarrow> console \<Rightarrow> (int \<times> nat \<times> 'c \<times> console) option" where
  "scan_int getc context con = do {
     (ch, context, con) \<leftarrow> getc context con;
     if ch = 45 then do {
       (ch, context, con) \<leftarrow> getc context con;
       (v, digits, context, con) \<leftarrow> scan_digits getc context con ch 0 0;
       Some (- v, digits, context, con) }
     else scan_digits getc context con ch 0 0 }"

text \<open>The loop over the format: the scanned arguments in order, the count, the context.\<close>

fun scankCore ::
  "'c getCharFunc \<Rightarrow> 'c \<Rightarrow> console \<Rightarrow> bytes \<Rightarrow> scan_arg list \<Rightarrow> (nat \<times> scan_arg list \<times> 'c \<times> console) option" where
  "scankCore getc context con [] args = None"
| "scankCore getc context con (f # fmt) args =
    (if f = 0 then Some (0, args, context, con)
     else if f = 37 then
       (case fmt of
          [] \<Rightarrow> None
        | g # fmt' \<Rightarrow>
          if g = 115 then
            (case args of
               Scan_Str str # args' \<Rightarrow> do {
                 (str, context, con) \<leftarrow> scan_string getc context con str 0;
                 (n, args', context, con) \<leftarrow> scankCore getc context con fmt' args';
                 Some (n + 1, Scan_Str str # args', context, con) }
             | _ \<Rightarrow> None)
          else if g = 100 then
            (case args of
               Scan_Int old # args' \<Rightarrow> do {
                 (v, digits, context, con) \<leftarrow> scan_int getc context con;
                 if digits = 0 then Some (0, args, context, con)
                 else do {
                   (n, args', context, con) \<leftarrow> scankCore getc context con fmt' args';
                   Some (n + 1, Scan_Int v # args', context, con) } }
             | _ \<Rightarrow> None)
          else scankCore getc context con fmt' args)
     else do {
       (ch, context, con) \<leftarrow> getc context con;
       if ch \<noteq> sint f then Some (0, args, context, con)
       else scankCore getc context con fmt args })"

definition scank :: "console \<Rightarrow> bytes \<Rightarrow> scan_arg list \<Rightarrow> (nat \<times> scan_arg list \<times> console) option" where
  "scank con fmt args = do {
     (n, args, _, con) \<leftarrow> scankCore getCharWrapper () con fmt args;
     Some (n, args, con) }"

definition sscank :: "console \<Rightarrow> bytes \<Rightarrow> bytes \<Rightarrow> scan_arg list \<Rightarrow> (nat \<times> scan_arg list) option" where
  "sscank con input fmt args = do {
     (n, args, _, _) \<leftarrow> scankCore getCharFromString input con fmt args;
     Some (n, args) }"

section \<open>What a sequence of key presses types\<close>

fun codes :: "kbd_status list \<Rightarrow> u8 list" where
  "codes [] = []"
| "codes (Not_Ready bs # ks) = codes ks"
| "codes (Ready code # ks) = code # codes ks"

text \<open>The characters that a sequence of scan codes types, with the shift key as it is.\<close>

fun typed :: "bool \<Rightarrow> u8 list \<Rightarrow> bytes" where
  "typed shift [] = []"
| "typed shift (code # cs) =
    (if code = 0x2A \<or> code = 0x36 then typed True cs
     else if code = 0xAA \<or> code = 0xB6 then typed False cs
     else if code AND 0x80 \<noteq> 0 \<or> code = 0 \<or> codeToChar shift code = 0 then typed shift cs
     else codeToChar shift code # typed shift cs)"

abbreviation pending :: "console \<Rightarrow> bytes" where
  "pending con \<equiv> typed (g_shift con) (codes (kbd con))"

definition con_ok :: "console \<Rightarrow> bool" where
  "con_ok con \<longleftrightarrow> rx_inv (msgs con)"

lemma con_ok_simps [simp]:
  "con_ok (con\<lparr> g_shift := s \<rparr>) = con_ok con" "con_ok (putChar ch con) = con_ok con"
  "g_shift (putChar ch con) = g_shift con" "kbd (putChar ch con) = kbd con" "screen (putChar ch con) = screen con @ [ch]"
  by (simp_all add: con_ok_def putChar_def)

abbreviation puts :: "bytes \<Rightarrow> console \<Rightarrow> console" where
  "puts cs con \<equiv> fold putChar cs con"

lemma puts_fields [simp]:
  "screen (puts cs con) = screen con @ cs" "kbd (puts cs con) = kbd con" "g_shift (puts cs con) = g_shift con" "con_ok (puts cs con) = con_ok con"
  by (induction cs arbitrary: con) simp_all

lemma puts_heard [simp]: "heard (puts cs con) = heard con" "heard (putChar ch con) = heard con"
  by (induction cs arbitrary: con) (simp_all add: putChar_def)

text \<open>Output with messages in it: \<open>res\<close> is \<open>out\<close> with the texts \<open>ms\<close>, in order and each in one piece, somewhere in between.\<close>

fun woven :: "bytes \<Rightarrow> bytes list \<Rightarrow> bytes \<Rightarrow> bool" where
  "woven out [] res \<longleftrightarrow> res = out"
| "woven out (m # ms) res \<longleftrightarrow> (\<exists>a b r. out = a @ b \<and> res = a @ m @ r \<and> woven b ms r)"

lemma woven_front: "woven b ms r \<Longrightarrow> woven (a @ b) ms (a @ r)"
  by (cases ms) (auto, metis append.assoc)

lemma woven_append: "woven a ms r \<Longrightarrow> woven b ms' r' \<Longrightarrow> woven (a @ b) (ms @ ms') (r @ r')"
proof (induction ms arbitrary: a r)
  case Nil
  then show ?case using woven_front by simp
next
  case (Cons m ms)
  obtain x y z where "a = x @ y" "r = x @ m @ z" "woven y ms z" using Cons.prems(1) by auto
  then show ?case using Cons.IH [of y z] Cons.prems(2) by fastforce
qed

lemma woven_only: "woven [] ms r \<longleftrightarrow> r = concat ms"
  by (induction ms arbitrary: r) auto

text \<open>Between two states of the console the program has written \<open>out\<close>, and the messages that have arrived in the
  meantime have been printed in between.\<close>

definition wrote :: "console \<Rightarrow> bytes \<Rightarrow> console \<Rightarrow> bool" where
  "wrote con out con' \<longleftrightarrow> (\<exists>news res. heard con' = heard con @ news \<and> screen con' = screen con @ res \<and> woven out (map message_text news) res)"

lemma wrote_refl: "wrote con [] con"
  by (simp add: wrote_def)

lemma wrote_trans:
  assumes "wrote con a con1" "wrote con1 b con2"
  shows "wrote con (a @ b) con2"
proof -
  obtain n r n' r' where "heard con1 = heard con @ n" "screen con1 = screen con @ r" "woven a (map message_text n) r"
    "heard con2 = heard con1 @ n'" "screen con2 = screen con1 @ r'" "woven b (map message_text n') r'" using assms by (auto simp: wrote_def)
  then show ?thesis unfolding wrote_def using woven_append [of a "map message_text n" r b "map message_text n'" r']
    by (intro exI [of _ "n @ n'"] exI [of _ "r @ r'"]) simp
qed

lemma wrote_nothing: "wrote con [] con' \<longleftrightarrow> (\<exists>news. heard con' = heard con @ news \<and> screen con' = screen con @ concat (map message_text news))"
  by (auto simp: wrote_def woven_only)

lemma wrote_undisturbed: "wrote con out con' \<Longrightarrow> heard con' = heard con \<Longrightarrow> screen con' = screen con @ out"
  by (auto simp: wrote_def)

lemma wrote_ext: "heard con1 = heard con \<Longrightarrow> screen con1 = screen con @ out \<Longrightarrow> wrote con out con1"
  by (simp add: wrote_def)

lemma wrote_same: "heard con1 = heard con \<Longrightarrow> screen con1 = screen con \<Longrightarrow> wrote con1 = wrote con"
  by (intro ext) (simp add: wrote_def)

lemma console_poll_ok:
  assumes "con_ok con"
  obtains con' where "console_poll bs con = Some con'" "con_ok con'" "g_shift con' = g_shift con" "kbd con' = kbd con" "wrote con [] con'"
proof -
  obtain m hs where m: "msg_poll (msgs con) bs = Some (m, hs)" "rx_inv m"
    using msg_poll_inv [of "msgs con" bs] assms by (auto simp: con_ok_def)
  then show thesis using that by (simp add: console_poll_def con_ok_def wrote_nothing)
qed

lemma readKeyData_codes:
  assumes "con_ok con"
  shows "case codes (kbd con) of
      [] \<Rightarrow> readKeyData con = None
    | code # cs \<Rightarrow> \<exists>con'. readKeyData con = Some (code, con') \<and> codes (kbd con') = cs \<and> con_ok con' \<and>
        g_shift con' = g_shift con \<and> wrote con [] con'"
  using assms
proof (induction con rule: readKeyData.induct)
  case (1 con)
  show ?case
  proof (cases "kbd con")
    case Nil
    then show ?thesis by (simp add: readKeyData.simps [of con])
  next
    case (Cons k ks)
    show ?thesis
    proof (cases k)
      case (Not_Ready bs)
      have "con_ok (con\<lparr> kbd := ks \<rparr>)" using 1(2) by (simp add: con_ok_def)
      then obtain con1 where p: "console_poll bs (con\<lparr> kbd := ks \<rparr>) = Some con1" "con_ok con1" "g_shift con1 = g_shift con" "kbd con1 = ks"
          "wrote (con\<lparr> kbd := ks \<rparr>) [] con1"
        using console_poll_ok [of "con\<lparr> kbd := ks \<rparr>" bs] by auto
      have w: "wrote con [] con1" using p(5) wrote_same [of "con\<lparr> kbd := ks \<rparr>" con] by simp
      have "readKeyData con = readKeyData con1" using Cons Not_Ready p(1) by (simp add: readKeyData.simps [of con])
      moreover have "codes (kbd con) = codes (kbd con1)" using Cons Not_Ready p(4) by simp
      ultimately show ?thesis using 1(1) [OF Cons Not_Ready p(1,2)] p(3) wrote_trans [OF w, of "[]"]
        by (auto split: list.splits)
    next
      case (Ready code)
      then show ?thesis using Cons 1(2) by (simp add: readKeyData.simps [of con] con_ok_def wrote_ext)
    qed
  qed
qed

lemma readKeyData_Nil: "con_ok con \<Longrightarrow> codes (kbd con) = [] \<Longrightarrow> readKeyData con = None"
  using readKeyData_codes [of con] by simp

lemma readKeyData_Cons:
  assumes "con_ok con" "codes (kbd con) = code # cs"
  obtains con' where "readKeyData con = Some (code, con')" "codes (kbd con') = cs" "con_ok con'"
    "g_shift con' = g_shift con" "wrote con [] con'"
  using readKeyData_codes [OF assms(1)] assms(2) by auto

text \<open>\<open>getChar\<close> returns the next character typed, echoes it unless it is a backspace, and waits when
  there is none.\<close>

lemma getChar_typed:
  assumes "con_ok con"
  shows "case pending con of
      [] \<Rightarrow> getChar con = None
    | ch # cs \<Rightarrow> \<exists>con'. getChar con = Some (ch, con') \<and> pending con' = cs \<and> con_ok con' \<and>
        wrote con (if ch = 8 then [] else [ch]) con'"
  using assms
proof (induction "length (codes (kbd con))" arbitrary: con)
  case 0
  then have "codes (kbd con) = []" by simp
  then show ?case using readKeyData_Nil [OF 0(2)] by (simp add: getChar.simps [of con])
next
  case (Suc n)
  then obtain code cs where c: "codes (kbd con) = code # cs" by (cases "codes (kbd con)") auto
  obtain con' where r: "readKeyData con = Some (code, con')" "codes (kbd con') = cs" "con_ok con'"
    "g_shift con' = g_shift con" "wrote con [] con'"
    using readKeyData_Cons [OF Suc.prems c] .
  have n: "n = length (codes (kbd con'))" using Suc.hyps(2) c r(2) by simp
  have skip: ?case if "getChar con = getChar con''" "codes (kbd con'') = cs" "con_ok con''" "pending con = pending con''" "wrote con [] con''" for con''
    using Suc.hyps(1) [of con''] that n r(2) wrote_trans [OF that(5)] by (fastforce cong: list.case_cong split: list.splits)
  have shift: "wrote con [] (con'\<lparr> g_shift := s \<rparr>)" for s using r(5) by (simp add: wrote_def)
  consider "code = 0x2A \<or> code = 0x36" | "\<not> (code = 0x2A \<or> code = 0x36)" "code = 0xAA \<or> code = 0xB6"
    | "\<not> (code = 0x2A \<or> code = 0x36)" "\<not> (code = 0xAA \<or> code = 0xB6)" "code AND 0x80 \<noteq> 0 \<or> code = 0 \<or> codeToChar (g_shift con) code = 0"
    | "\<not> (code = 0x2A \<or> code = 0x36)" "\<not> (code = 0xAA \<or> code = 0xB6)" "\<not> (code AND 0x80 \<noteq> 0 \<or> code = 0 \<or> codeToChar (g_shift con) code = 0)"
    by blast
  then show ?case
  proof cases
    case 1
    then show ?thesis using r c shift by (intro skip [of "con'\<lparr> g_shift := True \<rparr>"]) (simp_all add: getChar.simps [of con])
  next
    case 2
    then show ?thesis using r c shift by (intro skip [of "con'\<lparr> g_shift := False \<rparr>"]) (simp_all add: getChar.simps [of con])
  next
    case 3
    then show ?thesis using r c by (intro skip [of con']) (auto simp: getChar.simps [of con] Let_def)
  next
    case 4
    have "wrote con [ch] (putChar ch con')" for ch using wrote_trans [OF r(5) wrote_ext [of "putChar ch con'" con' "[ch]"]] by simp
    then show ?thesis using 4 r c by (auto simp: getChar.simps [of con] Let_def)
  qed
qed

lemma getChar_Nil: "con_ok con \<Longrightarrow> pending con = [] \<Longrightarrow> getChar con = None"
  using getChar_typed [of con] by simp

lemma getChar_Cons:
  assumes "con_ok con" "pending con = ch # cs"
  obtains con' where "getChar con = Some (ch, con')" "pending con' = cs" "con_ok con'"
    "wrote con (if ch = 8 then [] else [ch]) con'"
  using getChar_typed [OF assms(1)] assms(2) by auto

text \<open>Every character typed is an ASCII character.\<close>

lemma codeToChar_ascii: "codeToChar shift code < 128"
proof -
  have m: "list_all (\<lambda>c. c < 128) scan_code_map" "list_all (\<lambda>(a, c). c < 128) shift_map" "length scan_code_map = 104"
    by code_simp+
  have "scan_code_map ! unat code < 128" if "code \<le> 0x39"
    using that m(1,3) by (auto simp: list_all_length word_le_nat_alt)
  moreover have "ch < 128" if "map_of shift_map code = Some ch" for ch
    using map_of_SomeD [OF that] m(2) by (auto simp: list_all_iff)
  ultimately show ?thesis by (auto simp: codeToChar_def split: option.splits)
qed

lemma typed_ascii: "ch \<in> set (typed shift cs) \<Longrightarrow> ch < 128"
  using codeToChar_ascii by (induction shift cs rule: typed.induct) (auto split: if_splits)

lemma sint_ascii: "(ch :: u8) < 128 \<Longrightarrow> sint ch = uint ch"
proof -
  assume "ch < 128"
  then have "uint ch < 128" by (simp add: word_less_def)
  moreover have p: "0 \<le> uint ch" by simp
  have "- 128 \<le> uint ch" using p by linarith
  ultimately show ?thesis using sint_uint [of ch] by (simp add: signed_take_bit_int_eq_self)
qed

lemma uint_keys: "uint (c :: u8) = 10 \<longleftrightarrow> c = 10" "uint c = 8 \<longleftrightarrow> c = 8" "uint c \<noteq> -1"
proof -
  have "0 \<le> uint c" by simp
  then show "uint c \<noteq> -1" by linarith
qed (simp_all add: word_uint_eq_iff)

section \<open>The line reader\<close>

text \<open>The line that a sequence of characters enters: a backspace takes the last one back, the line ends
  at a newline or when \<open>lim\<close> characters are there; \<^term>\<open>None\<close> when the characters run out before.\<close>

function edited :: "nat \<Rightarrow> bytes \<Rightarrow> bytes \<Rightarrow> (bytes \<times> bytes) option" where
  "edited lim acc cs =
    (if lim \<le> length acc then Some (acc, cs)
     else (case cs of
        [] \<Rightarrow> None
      | c # cs' \<Rightarrow>
          if c = 10 then Some (acc, cs')
          else if c = 8 then edited lim (butlast acc) cs'
          else edited lim (acc @ [c]) cs'))"
  by pat_completeness auto
termination
  by (relation "measure (\<lambda>(lim, acc, cs). length cs)") auto

declare edited.simps [simp del]

text \<open>What the loop returns for a buffer whose first \<open>i\<close> bytes are the line so far.\<close>

definition line_read :: "bytes \<Rightarrow> nat \<Rightarrow> (bytes \<times> bytes) option \<Rightarrow> (nat \<times> bytes \<times> unit \<times> console) option \<Rightarrow> bool" where
  "line_read buf lim r out \<longleftrightarrow> (case r of
     None \<Rightarrow> out = None
   | Some (line, rest) \<Rightarrow> \<exists>con' buf'. out = Some (length line, buf', (), con') \<and> length buf' = length buf \<and>
       take (length line) buf' = line \<and> drop lim buf' = drop lim buf \<and> pending con' = rest \<and> con_ok con' \<and> length line \<le> lim)"

lemma line_read_update: "i < lim \<Longrightarrow> line_read (buf[i := c]) lim = line_read buf lim"
  by (intro ext) (simp add: line_read_def split: option.split)

lemma fgetsk_loop_edited:
  assumes "con_ok con" "pending con = cs" "i \<le> lim" "lim < length buf" "set cs \<subseteq> {c. c < 128}"
  shows "line_read buf lim (edited lim (take i buf) cs) (fgetsk_loop getCharWrapper () con buf (int lim + 1) i)"
  using assms
proof (induction cs arbitrary: con buf i)
  case Nil
  then have "getChar con = None" using getChar_Nil by simp
  then show ?case
    using Nil by (auto simp: line_read_def edited.simps fgetsk_loop.simps [of _ _ con] getCharWrapper_def)
next
  case (Cons c cs)
  show ?case
  proof (cases "i < lim")
    case False
    then show ?thesis using Cons.prems by (simp add: line_read_def edited.simps fgetsk_loop.simps [of _ _ con])
  next
    case True
    obtain con1 where g: "getChar con = Some (c, con1)" "pending con1 = cs" "con_ok con1"
      using getChar_Cons [OF Cons.prems(1,2)] by metis
    have asc: "c < 128" "set cs \<subseteq> {c. c < 128}" using Cons.prems(5) by auto
    have w: "getCharWrapper () con = Some (uint c, (), con1)" using g(1) asc(1) by (simp add: getCharWrapper_def sint_ascii)
    note lp = fgetsk_loop.simps [of getCharWrapper "()" con buf "int lim + 1" i]
    have len: "length (take i buf) = i" "\<not> lim \<le> length (take i buf)" using True Cons.prems(4) by simp_all
    consider "c = 10" | "c = 8" | "c \<noteq> 10" "c \<noteq> 8" by blast
    then show ?thesis
    proof cases
      case 1
      then show ?thesis using True w g len Cons.prems(3) by (simp add: line_read_def edited.simps lp uint_keys)
    next
      case 2
      have bl: "butlast (take i buf) = take (i - 1) buf" using True Cons.prems(4) by (simp add: butlast_take)
      have e: "edited lim (take i buf) (c # cs) = edited lim (take (i - 1) buf) cs"
        using 2 len bl by (subst edited.simps) simp
      let ?con = "if 0 < i then putChar 8 (putChar 32 (putChar 8 con1)) else con1"
      have f: "fgetsk_loop getCharWrapper () con buf (int lim + 1) i = fgetsk_loop getCharWrapper () ?con buf (int lim + 1) (i - 1)"
        using 2 True w by (simp add: lp uint_keys)
      show ?thesis unfolding e f
        using Cons.IH [of ?con "i - 1" buf] g asc(2) True Cons.prems(4) by (simp split: if_splits)
    next
      case 3
      let ?buf = "buf[i := c]"
      have tk: "take (Suc i) ?buf = take i buf @ [c]" using True Cons.prems(4) by (simp add: take_Suc_conv_app_nth)
      have e: "edited lim (take i buf) (c # cs) = edited lim (take (Suc i) ?buf) cs"
        using 3 len tk by (subst edited.simps) simp
      have f: "fgetsk_loop getCharWrapper () con buf (int lim + 1) i = fgetsk_loop getCharWrapper () con1 ?buf (int lim + 1) (Suc i)"
        using 3 True w Cons.prems(4) by (simp add: lp uint_keys)
      have "line_read ?buf lim (edited lim (take (Suc i) ?buf) cs) (fgetsk_loop getCharWrapper () con1 ?buf (int lim + 1) (Suc i))"
        using Cons.IH [of con1 "Suc i" ?buf] g asc(2) True Cons.prems(4) by simp
      then show ?thesis unfolding e f using line_read_update [OF True] by simp
    qed
  qed
qed

lemma fgetsk_lines:
  assumes "con_ok con" "0 < sz" "nat sz \<le> length buf"
  shows "case edited (nat sz - 1) [] (pending con) of
      None \<Rightarrow> fgetsk buf sz con = None
    | Some (line, rest) \<Rightarrow> \<exists>con' buf'. fgetsk buf sz con = Some (int (length line), buf', con') \<and> length line < nat sz \<and>
        take (length line + 1) buf' = line @ [0] \<and> length buf' = length buf \<and> drop (nat sz) buf' = drop (nat sz) buf \<and>
        pending con' = rest \<and> con_ok con'"
proof -
  let ?lim = "nat sz - 1"
  have s: "int ?lim + 1 = sz" "?lim < length buf" using assms(2,3) by linarith+
  have asc: "set (pending con) \<subseteq> {c. c < 128}" using typed_ascii by blast
  have l: "line_read buf ?lim (edited ?lim [] (pending con)) (fgetsk_loop getCharWrapper () con buf sz 0)"
    using fgetsk_loop_edited [OF assms(1) refl _ s(2) asc, of 0] s(1) by simp
  show ?thesis
  proof (cases "edited ?lim [] (pending con)")
    case None
    then show ?thesis using l assms(2) by (simp add: line_read_def fgetsk_def fgetsk_core_def)
  next
    case (Some p)
    obtain line rest where p: "p = (line, rest)" by (cases p)
    obtain con' buf' where o: "fgetsk_loop getCharWrapper () con buf sz 0 = Some (length line, buf', (), con')" "length buf' = length buf"
      "take (length line) buf' = line" "drop ?lim buf' = drop ?lim buf" "pending con' = rest" "con_ok con'" "length line \<le> ?lim"
      using l Some p by (auto simp: line_read_def)
    have k: "length line < length buf'" "length line < nat sz" using o(2,7) s(2) assms(2) by linarith+
    have "take (length line + 1) (buf'[length line := 0]) = line @ [0]"
      using k o(3) by (simp add: take_Suc_conv_app_nth)
    moreover have "drop (nat sz) (buf'[length line := 0]) = drop (nat sz) buf"
    proof -
      have "drop (nat sz) buf' = drop 1 (drop ?lim buf')" using assms(2) by simp
      also have "\<dots> = drop (nat sz) buf" using o(4) assms(2) by simp
      finally show ?thesis using k by simp
    qed
    ultimately show ?thesis
      using Some p o k assms(2) by (simp add: fgetsk_def fgetsk_core_def)
  qed
qed

text \<open>C36: Reading a line from the keyboard. Whatever scan codes arrive, \<open>fgetsk\<close> into a buffer of at least the
  given size returns exactly when the characters they type contain a complete line (a newline, or as many characters as
  fit): then the buffer holds that line with all backspaces applied and a terminator, nothing behind the given size is written, the
  length is returned and the characters after the line are still there to be read. Otherwise it keeps waiting.\<close>

theorem fgetsk_correct:
  assumes "con_ok con" "0 < sz" "nat sz \<le> length buf"
  shows "case edited (nat sz - 1) [] (pending con) of
      None \<Rightarrow> fgetsk buf sz con = None
    | Some (line, rest) \<Rightarrow> \<exists>con' buf'. fgetsk buf sz con = Some (int (length line), buf', con') \<and> length line < nat sz \<and>
        take (length line + 1) buf' = line @ [0] \<and> length buf' = length buf \<and> drop (nat sz) buf' = drop (nat sz) buf \<and>
        pending con' = rest \<and> con_ok con'"
  by (rule fgetsk_lines [OF assms])

section \<open>Typing a text\<close>

text \<open>How to type a character: a scan code, with or without the shift key.\<close>

definition main_keys :: "u8 list" where
  "main_keys = map of_nat [2..<58]"

definition head_option :: "'a list \<Rightarrow> 'a option" where
  "head_option xs = (case xs of [] \<Rightarrow> None | x # _ \<Rightarrow> Some x)"

lemma head_option_in: "head_option xs = Some x \<Longrightarrow> x \<in> set xs"
  by (cases xs) (auto simp: head_option_def)

lemma head_option_None: "head_option xs = None \<longleftrightarrow> xs = []"
  by (cases xs) (auto simp: head_option_def)

definition key_for :: "u8 \<Rightarrow> (bool \<times> u8) option" where
  "key_for c = head_option (filter (\<lambda>(shift, code). codeToChar shift code = c) (List.product [False, True] main_keys))"

definition typable :: "u8 \<Rightarrow> bool" where
  "typable c \<longleftrightarrow> c \<noteq> 0 \<and> key_for c \<noteq> None"

text \<open>Press and release, between press and release of the shift key when it is needed.\<close>

definition strokes :: "u8 \<Rightarrow> u8 list" where
  "strokes c = (case key_for c of
     None \<Rightarrow> []
   | Some (shift, code) \<Rightarrow> (if shift then [0x2A, code, code OR 0x80, 0xAA] else [code, code OR 0x80]))"

definition silent :: "u8 \<Rightarrow> bool" where
  "silent code \<longleftrightarrow> code AND 0x80 \<noteq> 0"

lemma typed_append_silent:
  "code AND 0x80 \<noteq> 0 \<Longrightarrow> code \<noteq> 0xAA \<Longrightarrow> code \<noteq> 0xB6 \<Longrightarrow> typed shift (code # cs) = typed shift cs"
  by auto

lemma key_for_Some:
  assumes "key_for c = Some (shift, code)" "c \<noteq> 0"
  shows "codeToChar shift code = c" "code \<noteq> 0x2A" "code \<noteq> 0x36" "code AND 0x80 = 0" "code \<noteq> 0" "code OR 0x80 \<noteq> 0xAA" "code OR 0x80 \<noteq> 0xB6"
proof -
  from assms(1) have k: "codeToChar shift code = c" "code \<in> set main_keys"
    unfolding key_for_def by (auto dest!: head_option_in)
  then show "codeToChar shift code = c" by simp
  have z: "codeToChar s 0x2A = 0" "codeToChar s 0x36 = 0" for s
    by (simp_all add: codeToChar_def shift_map_def scan_code_map_def)
  show ne: "code \<noteq> 0x2A" "code \<noteq> 0x36" using z k(1) assms(2) by auto
  have "list_all (\<lambda>x. x AND 0x80 = 0 \<and> x \<noteq> 0) main_keys"
    "list_all (\<lambda>x. x = 0x2A \<or> x = 0x36 \<or> (x OR 0x80 \<noteq> 0xAA \<and> x OR 0x80 \<noteq> 0xB6)) main_keys"
    by (simp_all add: main_keys_def)
  then show "code AND 0x80 = 0" "code \<noteq> 0" "code OR 0x80 \<noteq> 0xAA" "code OR 0x80 \<noteq> 0xB6"
    using k(2) ne by (auto simp: list_all_iff)
qed

lemma typed_strokes:
  assumes "typable c"
  shows "typed False (strokes c @ cs) = c # typed False cs"
proof -
  obtain shift code where k: "key_for c = Some (shift, code)" using assms by (auto simp: typable_def)
  have c: "c \<noteq> 0" using assms by (simp add: typable_def)
  note f = key_for_Some [OF k c]
  have up: "(code OR 0x80) AND 0x80 \<noteq> (0 :: u8)" by (simp add: word_bw_comms word_ao_absorbs)
  have d: "code OR 0x80 \<noteq> 0x2A" "code OR 0x80 \<noteq> 0x36"
  proof -
    have "(0x2A :: u8) AND 0x80 = 0" "(0x36 :: u8) AND 0x80 = 0" by simp_all
    then show "code OR 0x80 \<noteq> 0x2A" "code OR 0x80 \<noteq> 0x36" using up by metis+
  qed
  have "code \<noteq> 0xAA" "code \<noteq> 0xB6" using f(4) by auto
  then show ?thesis using k f c up d by (cases shift) (auto simp: strokes_def)
qed

lemma typed_text: "list_all typable s \<Longrightarrow> typed False (concat (map strokes s) @ cs) = s @ typed False cs"
  by (induction s) (simp_all add: typed_strokes)

lemma edited_plain:
  "list_all (\<lambda>c. c \<noteq> 8 \<and> c \<noteq> 10) s \<Longrightarrow> length acc + length s < lim \<Longrightarrow> edited lim acc (s @ 10 # cs) = Some (acc @ s, cs)"
  by (induction s arbitrary: acc) (simp_all add: edited.simps)

text \<open>Every printable ASCII character can be typed, as the keys below show.\<close>

definition ascii_keys :: "(bool \<times> u8) list" where
  "ascii_keys =
    [(False, 0x39), (True, 0x02), (True, 0x28), (True, 0x04), (True, 0x05), (True, 0x06), (True, 0x08), (False, 0x28),
     (True, 0x0A), (True, 0x0B), (False, 0x37), (True, 0x0D), (False, 0x33), (False, 0x0C), (False, 0x34), (False, 0x35),
     (False, 0x0B), (False, 0x02), (False, 0x03), (False, 0x04), (False, 0x05), (False, 0x06), (False, 0x07), (False, 0x08),
     (False, 0x09), (False, 0x0A), (True, 0x27), (False, 0x27), (True, 0x33), (False, 0x0D), (True, 0x34), (True, 0x35),
     (True, 0x03), (True, 0x1E), (True, 0x30), (True, 0x2E), (True, 0x20), (True, 0x12), (True, 0x21), (True, 0x22),
     (True, 0x23), (True, 0x17), (True, 0x24), (True, 0x25), (True, 0x26), (True, 0x32), (True, 0x31), (True, 0x18),
     (True, 0x19), (True, 0x10), (True, 0x13), (True, 0x1F), (True, 0x14), (True, 0x16), (True, 0x2F), (True, 0x11),
     (True, 0x2D), (True, 0x15), (True, 0x2C), (False, 0x1A), (False, 0x2B), (False, 0x1B), (True, 0x07), (True, 0x0C),
     (False, 0x29), (False, 0x1E), (False, 0x30), (False, 0x2E), (False, 0x20), (False, 0x12), (False, 0x21), (False, 0x22),
     (False, 0x23), (False, 0x17), (False, 0x24), (False, 0x25), (False, 0x26), (False, 0x32), (False, 0x31), (False, 0x18),
     (False, 0x19), (False, 0x10), (False, 0x13), (False, 0x1F), (False, 0x14), (False, 0x16), (False, 0x2F), (False, 0x11),
     (False, 0x2D), (False, 0x15), (False, 0x2C), (True, 0x1A), (True, 0x2B), (True, 0x1B), (True, 0x29)]"

lemma ascii_typable: "32 \<le> c \<Longrightarrow> c < 127 \<Longrightarrow> typable (of_nat c)"
proof -
  assume c: "32 \<le> c" "c < 127"
  have all: "map (\<lambda>(shift, code). codeToChar shift code) ascii_keys = map of_nat [32..<127]"
    "list_all (\<lambda>(shift, code). code \<in> set main_keys) ascii_keys" "length ascii_keys = 95"
    by code_simp+
  obtain shift code where k: "ascii_keys ! (c - 32) = (shift, code)" by (cases "ascii_keys ! (c - 32)")
  have i: "c - 32 < length ascii_keys" using c all(3) by linarith
  have "codeToChar shift code = of_nat c"
    using arg_cong [OF all(1), of "\<lambda>xs. xs ! (c - 32)"] i k c by (simp del: upt_rec_numeral)
  moreover have "code \<in> set main_keys" using all(2) i k by (auto simp: list_all_length)
  ultimately have "(shift, code) \<in> set (filter (\<lambda>(shift, code). codeToChar shift code = of_nat c) (List.product [False, True] main_keys))"
    by (cases shift) auto
  then have "key_for (of_nat c) \<noteq> None" unfolding key_for_def head_option_None by (metis list.set(1) empty_iff)
  moreover have "unat (of_nat c :: u8) = c" using c by (intro unat_le_of_nat) simp
  then have "(of_nat c :: u8) \<noteq> 0" using c by auto
  ultimately show ?thesis by (simp add: typable_def)
qed

text \<open>C35: A typed line arrives. When a user types any text of printable ASCII characters and Enter, pressing
  and releasing the keys of the layout (with shift where it is needed), \<open>fgetsk\<close> does return, and what it returns is
  that text, however the status port answers in between and whatever arrives on the serial port meanwhile.\<close>

theorem typed_line_arrives:
  assumes "con_ok con" "\<not> g_shift con" "codes (kbd con) = concat (map strokes s) @ 0x1C # 0x9C # later"
    and "list_all (\<lambda>c. 32 \<le> c \<and> c < 127) s" "length s + 1 < nat sz" "nat sz \<le> length buf"
  shows "\<exists>con' buf'. fgetsk buf sz con = Some (int (length s), buf', con') \<and> take (length s + 1) buf' = s @ [0] \<and>
    pending con' = typed False later"
proof -
  have "typable c" "c \<noteq> 8 \<and> c \<noteq> 10" if "c \<in> set s" for c
  proof -
    have c: "32 \<le> unat c" "unat c < 127" using assms(4) that by (auto simp: list_all_iff word_le_nat_alt word_less_nat_alt)
    then show "typable c" using ascii_typable [of "unat c"] by simp
    show "c \<noteq> 8 \<and> c \<noteq> 10" using c by auto
  qed
  then have ty: "list_all typable s" "list_all (\<lambda>c. c \<noteq> 8 \<and> c \<noteq> 10) s" by (auto simp: list_all_iff)
  have nl: "codeToChar False 0x1C = 10" by code_simp
  have "pending con = s @ 10 # typed False later"
    using typed_text [OF ty(1), of "0x1C # 0x9C # later"] assms(2,3) nl by simp
  then have "edited (nat sz - 1) [] (pending con) = Some (s, typed False later)"
    using edited_plain [OF ty(2), of "[]" "nat sz - 1" "typed False later"] assms(5) by simp
  moreover have "0 < sz" using assms(5) by linarith
  ultimately show ?thesis using fgetsk_lines [OF assms(1) _ assms(6)] by auto
qed

text \<open>Typing \<open>Hi\<close> while one byte of noise arrives on the serial port.\<close>

definition demo_console :: console where
  "demo_console = \<lparr> g_shift = False, kbd = [Not_Ready [0x1D], Ready 0x2A, Ready 0x23, Ready 0xA3, Not_Ready [], Ready 0xAA,
     Ready 0x17, Ready 0x97, Ready 0x1C, Ready 0x9C], msgs = msg_boot, heard = [], screen = [] \<rparr>"

lemma demo_console_facts: "con_ok demo_console" "\<not> g_shift demo_console"
  "codes (kbd demo_console) = concat (map strokes [72, 105]) @ [0x1C, 0x9C]"
proof -
  show "con_ok demo_console" by (simp add: con_ok_def demo_console_def rx_inv_def msg_boot_def)
  show "\<not> g_shift demo_console" by (simp add: demo_console_def)
  have "concat (map strokes [72, 105]) = [0x2A, 0x23, 0xA3, 0xAA, 0x17, 0x97]" by code_simp
  then show "codes (kbd demo_console) = concat (map strokes [72, 105]) @ [0x1C, 0x9C]" by (simp add: demo_console_def)
qed

theorem typed_line_arrives_witness:
  "\<exists>con' buf'. fgetsk (replicate 8 0) 8 demo_console = Some (2, buf', con') \<and> take 3 buf' = [72, 105, 0]"
  using typed_line_arrives [OF demo_console_facts(1,2), of "[72, 105]" "[]" 8 "replicate 8 0"] demo_console_facts(3)
  by (auto simp: numeral_3_eq_3)

theorem fgetsk_correct_witness:
  "\<exists>con' buf'. fgetsk (replicate 8 0) 2 demo_console = Some (1, buf', con') \<and> take 2 buf' = [72, 0] \<and> drop 2 buf' = replicate 6 0"
proof -
  have p: "pending demo_console = [72, 105, 10]" by (simp add: demo_console_def) code_simp
  have "edited (nat 2 - 1) [] (pending demo_console) = Some ([72], [105, 10])"
    unfolding p by (simp add: edited.simps)
  then show ?thesis using fgetsk_correct [OF demo_console_facts(1), of 2 "replicate 8 0"] by (auto simp: numeral_2_eq_2)
qed

end
