(* ===== verification/Printk.thy ===== *)
theory Printk
  imports Keyboard
begin

text \<open>
  Formatted printing (\<open>src/framework/printk.c\<close>) onto the console. A variable argument is a 64-bit slot of the
  calling convention or a pointer to characters; reading one as the other, or one too many, is undefined behaviour
  (\<^term>\<open>None\<close>). The theorem compares what is printed with positional notation.
\<close>

section \<open>The model\<close>

datatype printk_arg = Num u64 | Str bytes

fun putS :: "bytes \<Rightarrow> console \<Rightarrow> console option" where
  "putS [] con = None"
| "putS (c # str) con = (if c \<noteq> 0 then putS str (putChar c con) else Some con)"

text \<open>\<open>va_arg\<close> at a number and at a pointer.\<close>

fun next_num :: "printk_arg list \<Rightarrow> (u64 \<times> printk_arg list) option" where
  "next_num (Num v # args) = Some (v, args)"
| "next_num _ = None"

fun next_str :: "printk_arg list \<Rightarrow> (bytes \<times> printk_arg list) option" where
  "next_str (Str s # args) = Some (s, args)"
| "next_str _ = None"

text \<open>\<open>longEvaluation\<close>, given the character behind the \<open>l\<close>. The arrays \<open>buf\<close> and \<open>return_buffer\<close> are local; \<open>stk\<close> is
  what the stack holds.\<close>

definition longEvaluation :: "bytes \<Rightarrow> u8 \<Rightarrow> printk_arg list \<Rightarrow> console \<Rightarrow> (printk_arg list \<times> console) option" where
  "longEvaluation stk c args con =
    (if c = 117 \<or> c = 100 then do {
       (v, args) \<leftarrow> next_num args;
       s \<leftarrow> ulongToStr v 10 stk;
       con \<leftarrow> putS s con;
       Some (args, con) }
     else if c = 120 then do {
       (v, args) \<leftarrow> next_num args;
       s \<leftarrow> ulongToStr v 16 stk;
       con \<leftarrow> putS s con;
       Some (args, con) }
     else Some (args, con))"

definition put_uint :: "bytes \<Rightarrow> int \<Rightarrow> printk_arg list \<Rightarrow> console \<Rightarrow> (printk_arg list \<times> console) option" where
  "put_uint stk base args con = do {
     (v, args) \<leftarrow> next_num args;
     s \<leftarrow> uintToStr (ucast v) base (take 33 stk);
     con \<leftarrow> putS s con;
     Some (args, con) }"

definition formatEvaluation :: "bytes \<Rightarrow> u8 \<Rightarrow> printk_arg list \<Rightarrow> console \<Rightarrow> (printk_arg list \<times> console) option" where
  "formatEvaluation stk c args con =
    (if c = 100 then do {
       (v, args) \<leftarrow> next_num args;
       s \<leftarrow> intToStr (sint (ucast v :: u32)) 10 (take 33 stk);
       con \<leftarrow> putS s con;
       Some (args, con) }
     else if c = 117 then put_uint stk 10 args con
     else if c = 111 then put_uint stk 8 args con
     else if c = 120 then put_uint stk 16 args con
     else if c = 99 then do { (v, args) \<leftarrow> next_num args; Some (args, putChar (ucast v) con) }
     else if c = 115 then do { (s, args) \<leftarrow> next_str args; con \<leftarrow> putS s con; Some (args, con) }
     else if c = 112 then longEvaluation stk 120 args (putChar 120 (putChar 48 con))
     else if c = 37 then Some (args, putChar 37 con)
     else Some (args, con))"

text \<open>The loop over the format. At \<open>%p\<close> the inner \<open>printk("0x%lx", ...)\<close> is written out above.\<close>

fun printk :: "bytes \<Rightarrow> bytes \<Rightarrow> printk_arg list \<Rightarrow> console \<Rightarrow> console option" where
  "printk stk [] args con = None"
| "printk stk (f # fmt) args con =
    (if f = 0 then Some con
     else if f = 37 then
       (case fmt of
          [] \<Rightarrow> None
        | c # fmt' \<Rightarrow>
            if c = 0 then Some con
            else if c = 108 then
              (case fmt' of
                 [] \<Rightarrow> None
               | d # fmt'' \<Rightarrow> do {
                   (args, con) \<leftarrow> longEvaluation stk d args con;
                   printk stk fmt'' args con })
            else do {
              (args, con) \<leftarrow> formatEvaluation stk c args con;
              printk stk fmt' args con })
     else printk stk fmt args (putChar f con))"

text \<open>A string literal: its characters and the terminator.\<close>

definition lit :: "string \<Rightarrow> bytes" where
  "lit s = map of_char s @ [0]"

section \<open>Positional notation\<close>

function digits :: "nat \<Rightarrow> nat \<Rightarrow> bytes" where
  "digits base n = (if base < 2 \<or> n < base then [DIGITS ! n] else digits base (n div base) @ [DIGITS ! (n mod base)])"
  by pat_completeness auto
termination
  by (relation "measure snd") auto

declare digits.simps [simp del]

lemma digit_loop_digits:
  assumes "2 \<le> unat base"
  shows "val \<noteq> 0 \<Longrightarrow> unat val < unat base ^ len \<Longrightarrow> rev (digit_loop val base len) = digits (unat base) (unat val)"
proof (induction len arbitrary: val)
  case 0
  then show ?case by (simp add: unat_eq_0)
next
  case (Suc len)
  have d: "DIGITS ! unat (val mod base) = DIGITS ! (unat val mod unat base)" by (simp add: unat_mod_distrib)
  have dv: "unat (val div base) = unat val div unat base" by (simp add: unat_div_distrib)
  show ?case
  proof (cases "unat val < unat base")
    case True
    then have "val div base = 0" using dv by (simp add: unat_eq_0 [symmetric])
    then have "digit_loop (val div base) base len = []" by (cases len) simp_all
    then show ?thesis using True Suc.prems d by (simp add: word_gt_0 digits.simps [of "unat base" "unat val"])
  next
    case False
    have "unat (val div base) < unat base ^ len"
      using Suc.prems assms dv by (simp add: less_mult_imp_div_less mult.commute)
    moreover have "val div base \<noteq> 0" using False dv assms by (auto simp: unat_eq_0 [symmetric] div_eq_0_iff)
    ultimately show ?thesis
      using Suc.IH [of "val div base"] Suc.prems False assms d dv by (simp add: word_gt_0 digits.simps [of "unat base" "unat val"])
  qed
qed

lemma u32_ten_digits: "unat (v :: u32) < nat 10 ^ 10"
proof -
  have "unat v < 2 ^ 32" using unsigned_less [of v] by simp
  then show ?thesis by simp
qed

lemma uintToStr_eq:
  assumes "2 \<le> base" "base \<le> 16" "unat (v :: u32) < nat base ^ k" "0 < k" "k < length buf" "k \<le> 32"
  shows "uintToStr v base buf = Some (digits (nat base) (unat v) @ 0 # drop (Suc (length (digits (nat base) (unat v)))) buf)"
proof -
  have b: "unat (word_of_int base :: u32) = nat base" using assms by (simp add: word_of_base)
  show ?thesis
  proof (cases "v = 0")
    case True
    then show ?thesis using assms by (simp add: uintToStr_def store_at_0_def digits.simps [of _ 0] DIGITS_def)
  next
    case False
    have "nat base ^ k \<le> nat base ^ 32" using assms by (intro power_increasing) auto
    with assms(3) have "unat v < nat base ^ 32" by (rule order_less_le_trans)
    then have "unat v < unat (word_of_int base :: u32) ^ 32" unfolding b .
    then have d: "rev (digit_loop v (word_of_int base) 32) = digits (nat base) (unat v)"
      using digit_loop_digits [of "word_of_int base" v 32] b False assms by simp
    moreover have "length (digit_loop v (word_of_int base) 32) \<le> k"
      using digit_loop_length [of "word_of_int base" v k 32] b assms by simp
    ultimately have "length (digits (nat base) (unat v)) \<le> k" by (metis length_rev)
    then show ?thesis using False d assms by (simp add: uintToStr_def store_at_0_def)
  qed
qed

lemma ulongToStr_eq:
  assumes "2 \<le> base" "base \<le> 16" "64 < length buf"
  shows "ulongToStr v base buf = Some (digits (nat base) (unat v) @ 0 # drop (Suc (length (digits (nat base) (unat v)))) buf)"
proof -
  have b: "unat (word_of_int base :: u64) = nat base" using assms by (simp add: word_of_base)
  show ?thesis
  proof (cases "v = 0")
    case True
    then show ?thesis using assms by (simp add: ulongToStr_def store_at_0_def digits.simps [of _ 0] DIGITS_def)
  next
    case False
    have "unat v < 2 ^ 64" using unsigned_less [of v] by simp
    also have "(2 :: nat) ^ 64 \<le> nat base ^ 64" using assms by (intro power_mono) auto
    finally have v: "unat v < unat (word_of_int base :: u64) ^ 64" using b by simp
    then have d: "rev (digit_loop v (word_of_int base) 64) = digits (nat base) (unat v)"
      using digit_loop_digits [of "word_of_int base" v 64] b False assms by simp
    moreover have "length (digit_loop v (word_of_int base) 64) \<le> 64"
      using digit_loop_length [of "word_of_int base" v 64 64] b v assms by simp
    ultimately have "length (digits (nat base) (unat v)) \<le> 64" by (metis length_rev)
    then show ?thesis using False d assms by (simp add: ulongToStr_def store_at_0_def)
  qed
qed

definition signed_text :: "int \<Rightarrow> bytes" where
  "signed_text i = (if i < 0 then 45 # digits 10 (nat (- i)) else digits 10 (nat i))"

lemma intToStr_eq:
  assumes "int_range i" "12 < length buf"
  shows "intToStr i 10 buf = Some (signed_text i @ 0 # drop (Suc (length (signed_text i))) buf)"
proof (cases "0 \<le> i")
  case True
  have "unat (word_of_int i :: u32) = nat i"
    using assms True by (simp add: int_range_def unat_eq_nat_uint uint_word_of_int take_bit_int_eq_self)
  moreover have "unat (word_of_int i :: u32) < nat 10 ^ 10" by (rule u32_ten_digits)
  ultimately show ?thesis
    using uintToStr_eq [of 10 "word_of_int i" 10 buf] True assms(2) by (simp add: intToStr_def signed_text_def)
next
  case False
  obtain c rest where buf: "buf = c # rest" using assms(2) by (cases buf) auto
  have "unat (0 - word_of_int i :: u32) = nat (- i)"
    using assms False by (simp add: int_range_def unat_eq_nat_uint uint_word_of_int take_bit_int_eq_self flip: of_int_minus)
  moreover have "unat (0 - word_of_int i :: u32) < nat 10 ^ 10" by (rule u32_ten_digits)
  ultimately show ?thesis
    using uintToStr_eq [of 10 "0 - word_of_int i" 10 rest] False assms(2) buf by (simp add: intToStr_def signed_text_def)
qed

lemma digits_nonzero: "2 \<le> base \<Longrightarrow> base \<le> 16 \<Longrightarrow> 0 \<notin> set (digits base n)"
proof (induction base n rule: digits.induct)
  case (1 base n)
  have "n mod base < 16" using 1(2,3) mod_less_divisor [of base n] by linarith
  then show ?case using 1 DIGITS_facts(2) [of n] DIGITS_facts(2) [of "n mod base"]
    by (auto simp: digits.simps [of base n] order_less_le_trans dest: sym)
qed

lemma putS_eq: "0 \<notin> set s \<Longrightarrow> putS (s @ 0 # rest) con = Some (puts s con)"
  by (induction s arbitrary: con) auto

lemma putS_terminated: "terminated s \<Longrightarrow> putS s con = Some (puts (cstr s) con)"
  using putS_eq [OF cstr_nonzero] terminated_decomp by metis

section \<open>What is printed\<close>

text \<open>The pieces of a format string, the arguments they take and the text they stand for.\<close>

datatype piece = Text bytes | Dec u64 | Uns u64 | Oct u64 | Hex u64 | Chr u64 | Word bytes | Ptr u64 | Percent | LDec u64 | LUns u64 | LHex u64

fun piece_fmt :: "piece \<Rightarrow> bytes" where
  "piece_fmt (Text bs) = bs"
| "piece_fmt (Dec v) = [37, 100]"
| "piece_fmt (Uns v) = [37, 117]"
| "piece_fmt (Oct v) = [37, 111]"
| "piece_fmt (Hex v) = [37, 120]"
| "piece_fmt (Chr v) = [37, 99]"
| "piece_fmt (Word s) = [37, 115]"
| "piece_fmt (Ptr v) = [37, 112]"
| "piece_fmt Percent = [37, 37]"
| "piece_fmt (LDec v) = [37, 108, 100]"
| "piece_fmt (LUns v) = [37, 108, 117]"
| "piece_fmt (LHex v) = [37, 108, 120]"

fun piece_args :: "piece \<Rightarrow> printk_arg list" where
  "piece_args (Text bs) = []"
| "piece_args Percent = []"
| "piece_args (Word s) = [Str s]"
| "piece_args (Dec v) = [Num v]"
| "piece_args (Uns v) = [Num v]"
| "piece_args (Oct v) = [Num v]"
| "piece_args (Hex v) = [Num v]"
| "piece_args (Chr v) = [Num v]"
| "piece_args (Ptr v) = [Num v]"
| "piece_args (LDec v) = [Num v]"
| "piece_args (LUns v) = [Num v]"
| "piece_args (LHex v) = [Num v]"

fun piece_text :: "piece \<Rightarrow> bytes" where
  "piece_text (Text bs) = bs"
| "piece_text (Dec v) = signed_text (sint (ucast v :: u32))"
| "piece_text (Uns v) = digits 10 (unat (ucast v :: u32))"
| "piece_text (Oct v) = digits 8 (unat (ucast v :: u32))"
| "piece_text (Hex v) = digits 16 (unat (ucast v :: u32))"
| "piece_text (Chr v) = [ucast v]"
| "piece_text (Word s) = cstr s"
| "piece_text (Ptr v) = 48 # 120 # digits 16 (unat v)"
| "piece_text Percent = [37]"
| "piece_text (LDec v) = digits 10 (unat v)"
| "piece_text (LUns v) = digits 10 (unat v)"
| "piece_text (LHex v) = digits 16 (unat v)"

fun piece_ok :: "piece \<Rightarrow> bool" where
  "piece_ok (Text bs) \<longleftrightarrow> 0 \<notin> set bs \<and> 37 \<notin> set bs"
| "piece_ok (Word s) \<longleftrightarrow> terminated s"
| "piece_ok _ \<longleftrightarrow> True"

lemma put_uint_eq:
  assumes "33 \<le> length stk" "base = 8 \<or> base = 10 \<or> base = 16"
  shows "put_uint stk base (Num v # args) con = Some (args, puts (digits (nat base) (unat (ucast v :: u32))) con)"
proof -
  have b: "2 \<le> base" "base \<le> 16" using assms(2) by auto
  then have "unat (ucast v :: u32) < nat base ^ 32" using le_32_pow [of "nat base"] by simp
  then show ?thesis
    using uintToStr_eq [OF b, of "ucast v" 32 "take 33 stk"] putS_eq [OF digits_nonzero, of "nat base"] b assms(1)
    by (simp add: put_uint_def)
qed

lemma longEvaluation_eq:
  assumes "65 \<le> length stk"
  shows "longEvaluation stk 100 (Num v # args) con = Some (args, puts (digits 10 (unat v)) con)"
    "longEvaluation stk 117 (Num v # args) con = Some (args, puts (digits 10 (unat v)) con)"
    "longEvaluation stk 120 (Num v # args) con = Some (args, puts (digits 16 (unat v)) con)"
  using assms ulongToStr_eq [of 10 stk v] ulongToStr_eq [of 16 stk v] putS_eq [OF digits_nonzero, of 10] putS_eq [OF digits_nonzero, of 16]
  by (simp_all add: longEvaluation_def)

lemma put_int_eq:
  assumes "33 \<le> length stk"
  shows "formatEvaluation stk 100 (Num v # args) con = Some (args, puts (signed_text (sint (ucast v :: u32))) con)"
proof -
  let ?i = "sint (ucast v :: u32)"
  have r: "int_range ?i" using sint_range_size [of "ucast v :: u32"] by (simp add: int_range_def word_size)
  have "0 \<notin> set (signed_text ?i)" using digits_nonzero [of 10] by (simp add: signed_text_def)
  then show ?thesis using intToStr_eq [OF r, of "take 33 stk"] putS_eq [of "signed_text ?i"] assms by (simp add: formatEvaluation_def)
qed

lemma printk_text: "0 \<notin> set bs \<Longrightarrow> 37 \<notin> set bs \<Longrightarrow> printk stk (bs @ fmt) args con = printk stk fmt args (puts bs con)"
  by (induction bs arbitrary: con) auto

lemma printk_piece:
  assumes "65 \<le> length stk" "piece_ok p"
  shows "printk stk (piece_fmt p @ fmt) (piece_args p @ args) con = printk stk fmt args (puts (piece_text p) con)"
proof (cases p)
  case (Text bs)
  then show ?thesis using printk_text assms(2) by simp
next
  case (Dec v)
  then show ?thesis using put_int_eq [of stk v args con] assms(1) by simp
next
  case (Word s)
  then show ?thesis using putS_terminated [of s con] assms(2) by (simp add: formatEvaluation_def)
next
  case (Uns v)
  then show ?thesis using put_uint_eq [of stk 10 v args con] assms(1) by (simp add: formatEvaluation_def)
next
  case (Oct v)
  then show ?thesis using put_uint_eq [of stk 8 v args con] assms(1) by (simp add: formatEvaluation_def)
next
  case (Hex v)
  then show ?thesis using put_uint_eq [of stk 16 v args con] assms(1) by (simp add: formatEvaluation_def)
qed (use longEvaluation_eq [OF assms(1)] in \<open>simp_all add: formatEvaluation_def\<close>)

lemma printk_pieces:
  assumes "65 \<le> length stk"
  shows "list_all piece_ok ps \<Longrightarrow>
    printk stk (concat (map piece_fmt ps) @ 0 # after) (concat (map piece_args ps) @ args) con = Some (puts (concat (map piece_text ps)) con)"
  by (induction ps arbitrary: con) (simp_all add: printk_piece [OF assms])

text \<open>Formats whose conversions are those of 32-bit numbers and pointers, with an argument for each.\<close>

fun prints :: "bytes \<Rightarrow> printk_arg list \<Rightarrow> bool" where
  "prints [] args = False"
| "prints (c # fmt) args =
    (if c = 0 then True
     else if c \<noteq> 37 then prints fmt args
     else (case (fmt, args) of (g # fmt', Num v # args') \<Rightarrow> g \<in> {100, 117, 120, 112} \<and> prints fmt' args' | _ \<Rightarrow> False))"

lemma printk_prints:
  assumes "65 \<le> length stk"
  shows "prints fmt args \<Longrightarrow> \<exists>bs. printk stk fmt args (puts as con) = Some (puts bs con)"
proof (induction fmt args arbitrary: as rule: prints.induct)
  case (2 c fmt args)
  show ?case
  proof (cases "c = 0 \<or> c \<noteq> 37")
    case True
    then show ?thesis using 2(1) [of "as @ [c]"] 2(3) by (cases "c = 0") auto
  next
    case False
    then obtain g fmt' v args' where f: "fmt = g # fmt'" "args = Num v # args'" "g \<in> {100, 117, 120, 112}" "prints fmt' args'"
      using 2(3) by (auto split: list.splits printk_arg.splits)
    then obtain p where p: "piece_fmt p = [37, g]" "piece_args p = [Num v]" "piece_ok p"
      using that [of "Dec v"] that [of "Uns v"] that [of "Hex v"] that [of "Ptr v"] by auto
    have "\<exists>bs. printk stk fmt' args' (puts (as @ piece_text p) con) = Some (puts bs con)"
      by (rule 2(2)) (use False f in auto)
    then show ?thesis using printk_piece [OF assms p(3), of fmt' args' "puts as con"] p False f by simp
  qed
qed simp

lemma printk_then:
  assumes "65 \<le> length stk" "prints fmt args" "\<And>bs. \<exists>bs'. k (puts bs con) = Some (puts bs' con)"
  shows "\<exists>bs'. (printk stk fmt args (puts as con) \<bind> k) = Some (puts bs' con)"
  using printk_prints [OF assms(1,2), of as con] assms(3) by fastforce

text \<open>What \<open>msg_poll\<close> prints for a message is what the console model has for it: the format of the source with the
  sender and the payload as arguments.\<close>

lemma decimal_digits: "decimal n = digits 10 n"
proof (induction n rule: decimal.induct)
  case (1 n)
  have d: "DIGITS ! k = 48 + of_nat k" if "k < 10" for k
  proof -
    have "k \<in> {0, 1, 2, 3, 4, 5, 6, 7, 8, 9}" using that by auto
    then show ?thesis by (auto simp: DIGITS_def)
  qed
  then show ?case using 1 by (subst decimal.simps, subst digits.simps) simp
qed

lemma printk_message:
  assumes "65 \<le> length stk" "terminated payload"
  shows "printk stk (lit ''\<newline>[msg from %d]: %s\<newline>'') [Num (ucast (sender :: u8)), Str payload] con =
    Some (puts (message_text (sender, cstr payload)) con)"
proof -
  let ?ps = "[Text (map of_char ''\<newline>[msg from ''), Dec (ucast sender), Text (map of_char '']: ''), Word payload, Text [10]]"
  let ?w = "ucast (ucast sender :: u64) :: u32"
  have b: "unat sender < 2 ^ 8" using unsigned_less [of sender] by simp
  then have "unat ?w = unat sender" unfolding unsigned_ucast_eq unsigned_take_bit_eq by (simp add: take_bit_nat_eq_self)
  then have u: "uint ?w = int (unat sender)" by (simp only: uint_nat)
  have "sint ?w = int (unat sender)" unfolding sint_uint u
  proof (rule signed_take_bit_int_eq_self)
    show "int (unat sender) < 2 ^ (LENGTH(32) - Suc 0)" using b by (simp del: of_nat_unat)
    have "(0 :: int) \<le> int (unat sender)" by (rule of_nat_0_le_iff)
    then show "- (2 ^ (LENGTH(32) - Suc 0)) \<le> int (unat sender)" by (rule order_trans [rotated]) simp
  qed
  then have d: "piece_text (Dec (ucast sender)) = digits 10 (unat sender)" by (simp add: signed_text_def)
  have f: "lit ''\<newline>[msg from %d]: %s\<newline>'' = concat (map piece_fmt ?ps) @ 0 # []" by (simp add: lit_def)
  have a: "[Num (ucast sender), Str payload] = concat (map piece_args ?ps) @ []" by simp
  have ok: "list_all piece_ok ?ps" using assms(2) by simp
  have m: "concat (map piece_text ?ps) = message_text (sender, cstr payload)" using d by (simp add: message_text_def decimal_digits)
  show ?thesis unfolding f a printk_pieces [OF assms(1) ok] m ..
qed

text \<open>C39: Formatted printing. For every format put together from plain text and the conversions that the code
  supports, with the arguments they ask for, \<open>printk\<close> never overruns its local buffers, consumes the arguments in
  order, stops at the terminator, and prints the text with every number in positional notation of its base, \<open>%d\<close>
  with a minus sign for negative values down to the smallest \<open>int\<close>.\<close>

theorem printk_correct:
  assumes "65 \<le> length stk" "list_all piece_ok ps"
  shows "\<exists>con'. printk stk (concat (map piece_fmt ps) @ 0 # after) (concat (map piece_args ps) @ args) con = Some con' \<and>
    screen con' = screen con @ concat (map piece_text ps)"
  using printk_pieces [OF assms, of after args con] by simp

theorem printk_correct_witness:
  "\<exists>con'. printk (replicate 65 0) [61, 37, 100, 33, 0, 7] [Num 0xFFFFFFD6] demo_console = Some con' \<and> screen con' = [61, 45, 52, 50, 33]"
proof -
  have "signed_text (-42) = [45, 52, 50]" by (simp add: signed_text_def digits.simps DIGITS_def)
  then show ?thesis
    using printk_correct [of "replicate 65 0" "[Text [61], Dec 0xFFFFFFD6, Text [33]]" "[7]" "[]" demo_console]
    by (simp add: demo_console_def)
qed

end
