(* ===== verification/Descriptors.thy ===== *)
theory Descriptors
  imports Printk
begin

text \<open>
  The segment and interrupt descriptors (\<open>src/gdt.c\<close>, \<open>src/idt.c\<close>, \<open>src/isr.c\<close>). The bit fields of the packed
  structs are words of their width, stored from the lowest bit on. The specification is how the processor reads a
  descriptor, at fixed bit positions. The addresses of the assembly stubs and of the tables are arguments; the
  instructions that load the tables are not modelled.
\<close>

section \<open>Segment descriptors\<close>

record GdtDescriptorEntry =
  lower_segment_limit :: u16
  lower_base_address :: "24 word"
  seg_type :: "4 word"
  seg_system :: "1 word"
  seg_dpl :: "2 word"
  seg_present :: "1 word"
  higher_segment_limit :: "4 word"
  seg_available :: "1 word"
  seg_long_mode :: "1 word"
  seg_d_b :: "1 word"
  seg_granularity :: "1 word"
  higher_base_address :: u8

definition encodeGlobalDescriptor :: "u32 \<Rightarrow> u64 \<Rightarrow> u32 \<Rightarrow> u16 \<Rightarrow> u32 \<Rightarrow> u16 \<Rightarrow> u16 \<Rightarrow> u16 \<Rightarrow> u16 \<Rightarrow> u16 \<Rightarrow> GdtDescriptorEntry" where
  "encodeGlobalDescriptor segment_limit base_address type system dpl present available long_mode d_b granularity = \<lparr>
     lower_segment_limit = ucast (segment_limit AND 0xffff),
     lower_base_address = ucast (base_address AND 0x00ffffff),
     seg_type = ucast (type AND 0x0f),
     seg_system = ucast system,
     seg_dpl = ucast dpl,
     seg_present = ucast present,
     higher_segment_limit = ucast (drop_bit 16 segment_limit AND 0xf),
     seg_available = ucast available,
     seg_long_mode = ucast long_mode,
     seg_d_b = ucast d_b,
     seg_granularity = ucast granularity,
     higher_base_address = ucast (drop_bit 24 base_address AND 0xff) \<rparr>"

definition ENCODE_64_BIT_DESCRIPTOR :: "u32 \<Rightarrow> u16 \<Rightarrow> u32 \<Rightarrow> u16 \<Rightarrow> u16 \<Rightarrow> u16 \<Rightarrow> u16 \<Rightarrow> GdtDescriptorEntry" where
  "ENCODE_64_BIT_DESCRIPTOR type system dpl present available d_b granularity =
     encodeGlobalDescriptor 0xfffff 0 type system dpl present available 1 d_b granularity"

definition READ_WRITE :: u32 where "READ_WRITE = 2"
definition EXECUTE_READ :: u32 where "EXECUTE_READ = 10"

record Gdt =
  gdt_empty :: GdtDescriptorEntry
  kernel_code :: GdtDescriptorEntry
  kernel_data :: GdtDescriptorEntry

record Table_Register =
  tr_limit :: u16
  tr_base_address :: u64

definition SIZEOF_GDT :: nat where "SIZEOF_GDT = 24"

definition gdt_table :: Gdt where
  "gdt_table = \<lparr> gdt_empty = ENCODE_64_BIT_DESCRIPTOR 0 0 0 0 0 0 0,
     kernel_code = ENCODE_64_BIT_DESCRIPTOR EXECUTE_READ 1 0 1 0 0 1,
     kernel_data = ENCODE_64_BIT_DESCRIPTOR READ_WRITE 1 0 1 0 1 1 \<rparr>"

definition printGdtDescriptorEntry :: "bytes \<Rightarrow> GdtDescriptorEntry \<Rightarrow> console \<Rightarrow> console option" where
  "printGdtDescriptorEntry stk entry con = do {
     con \<leftarrow> printk stk (lit ''============================================\<newline>'') [] con;
     con \<leftarrow> printk stk (lit ''               GDT entry                     \<newline>'') [] con;
     con \<leftarrow> printk stk (lit ''============================================\<newline>'') [] con;
     con \<leftarrow> printk stk (lit ''Segment Limit (15-00): 0x%x\<newline>'') [Num (ucast (lower_segment_limit entry))] con;
     con \<leftarrow> printk stk (lit ''Base Address (23-00): 0x%x\<newline>'') [Num (ucast (lower_base_address entry))] con;
     con \<leftarrow> printk stk (lit ''Type: %u\<newline>'') [Num (ucast (seg_type entry))] con;
     con \<leftarrow> printk stk (lit ''S (System): %u\<newline>'') [Num (ucast (seg_system entry))] con;
     con \<leftarrow> printk stk (lit ''DPL (Descriptor Privilege Level): %u\<newline>'') [Num (ucast (seg_dpl entry))] con;
     con \<leftarrow> printk stk (lit ''P (Present): %u\<newline>'') [Num (ucast (seg_present entry))] con;
     con \<leftarrow> printk stk (lit ''Segment Limit (19-16): 0x%x\<newline>'') [Num (ucast (higher_segment_limit entry))] con;
     con \<leftarrow> printk stk (lit ''AVL (Available): %u\<newline>'') [Num (ucast (seg_available entry))] con;
     con \<leftarrow> printk stk (lit ''L (64-bit Code Segment): %u\<newline>'') [Num (ucast (seg_long_mode entry))] con;
     con \<leftarrow> printk stk (lit ''D/B (Default Operation Size): %u\<newline>'') [Num (ucast (seg_d_b entry))] con;
     con \<leftarrow> printk stk (lit ''G (Granularity): %u\<newline>'') [Num (ucast (seg_granularity entry))] con;
     printk stk (lit ''Base Address (31-24): 0x%x\<newline>'') [Num (ucast (higher_base_address entry))] con }"

text \<open>Up to the instruction that loads the register; \<open>gdt_at\<close> and \<open>gdtr_at\<close> are the addresses of the two globals.\<close>

definition initGdt :: "bytes \<Rightarrow> u64 \<Rightarrow> u64 \<Rightarrow> console \<Rightarrow> (Gdt \<times> Table_Register \<times> console) option" where
  "initGdt stk gdt_at gdtr_at con = do {
     let gdtr = \<lparr> tr_limit = of_nat SIZEOF_GDT - 1, tr_base_address = gdt_at \<rparr>;
     con \<leftarrow> printGdtDescriptorEntry stk (kernel_code gdt_table) con;
     con \<leftarrow> printk stk (lit ''GDTR base = %p, limit = %d\<newline>GDTR address = %p\<newline>'') [Num gdt_at, Num (ucast (tr_limit gdtr)), Num gdtr_at] con;
     Some (gdt_table, gdtr, con) }"

section \<open>Interrupt descriptors\<close>

record IdtDescriptorEntry =
  lower_offset :: u16
  segment_selector :: u16
  interrupt_stack_table :: "3 word"
  gate_reserved :: "5 word"
  gate_type :: "4 word"
  gate_reserved_1 :: "1 word"
  gate_dpl :: "2 word"
  gate_present :: "1 word"
  middle_offset :: u16
  higher_offset :: u32
  gate_reserved_2 :: u32

definition IDT_MAX_ENTRIES :: nat where "IDT_MAX_ENTRIES = 256"
definition ISR_COUNT :: nat where "ISR_COUNT = 32"

definition encodeInterruptDescriptor :: "u64 \<Rightarrow> u16 \<Rightarrow> u32 \<Rightarrow> u8 \<Rightarrow> u8 \<Rightarrow> IdtDescriptorEntry" where
  "encodeInterruptDescriptor addr selector type dpl p = \<lparr>
     lower_offset = ucast (addr AND 0xffff),
     segment_selector = selector,
     interrupt_stack_table = 0,
     gate_reserved = 0,
     gate_type = ucast type,
     gate_reserved_1 = 0,
     gate_dpl = ucast dpl,
     gate_present = ucast p,
     middle_offset = ucast (drop_bit 16 addr AND 0xffff),
     higher_offset = ucast (drop_bit 32 addr AND 0xffffffff),
     gate_reserved_2 = 0 \<rparr>"

definition zero_gate :: IdtDescriptorEntry where
  "zero_gate = \<lparr> lower_offset = 0, segment_selector = 0, interrupt_stack_table = 0, gate_reserved = 0, gate_type = 0,
     gate_reserved_1 = 0, gate_dpl = 0, gate_present = 0, middle_offset = 0, higher_offset = 0, gate_reserved_2 = 0 \<rparr>"

text \<open>The loop of \<open>initIsr\<close> over the remaining vectors; \<open>isr_handlers\<close> holds the addresses of the stubs.\<close>

primrec initIsr_from :: "u64 list \<Rightarrow> nat list \<Rightarrow> IdtDescriptorEntry list \<Rightarrow> IdtDescriptorEntry list option" where
  "initIsr_from isr_handlers [] table = Some table"
| "initIsr_from isr_handlers (i # js) table = do {
     f \<leftarrow> idx isr_handlers i;
     table \<leftarrow> upd table i (encodeInterruptDescriptor f 8 14 0 1);
     initIsr_from isr_handlers js table }"

definition initIsr :: "u64 list \<Rightarrow> IdtDescriptorEntry list \<Rightarrow> IdtDescriptorEntry list option" where
  "initIsr isr_handlers table = initIsr_from isr_handlers [0..<ISR_COUNT] table"

definition initIdt :: "bytes \<Rightarrow> u64 list \<Rightarrow> u64 \<Rightarrow> console \<Rightarrow> (IdtDescriptorEntry list \<times> Table_Register \<times> console) option" where
  "initIdt stk isr_handlers idt_at con = do {
     table \<leftarrow> initIsr isr_handlers (replicate IDT_MAX_ENTRIES zero_gate);
     let idtr = \<lparr> tr_limit = of_nat (IDT_MAX_ENTRIES * 16 - 1), tr_base_address = idt_at \<rparr>;
     con \<leftarrow> printk stk (lit ''Interrupts enabled (STI executed)\<newline>'') [] con;
     Some (table, idtr, con) }"

definition printIdtDescriptorEntry :: "bytes \<Rightarrow> IdtDescriptorEntry \<Rightarrow> console \<Rightarrow> console option" where
  "printIdtDescriptorEntry stk entry con = do {
     let full_offset = (ucast (lower_offset entry) :: u64) OR push_bit 16 (ucast (middle_offset entry)) OR push_bit 32 (ucast (higher_offset entry));
     con \<leftarrow> printk stk (lit ''============================================\<newline>'') [] con;
     con \<leftarrow> printk stk (lit ''               IDT entry                     \<newline>'') [] con;
     con \<leftarrow> printk stk (lit ''============================================\<newline>'') [] con;
     con \<leftarrow> printk stk (lit ''  Offset (full): 0x%lx\<newline>'') [Num full_offset] con;
     con \<leftarrow> printk stk (lit ''  Offset (lower 16 bits): 0x%x\<newline>'') [Num (ucast (lower_offset entry))] con;
     con \<leftarrow> printk stk (lit ''  Offset (middle 16 bits): 0x%x\<newline>'') [Num (ucast (middle_offset entry))] con;
     con \<leftarrow> printk stk (lit ''  Offset (higher 32 bits): 0x%lx\<newline>'') [Num (ucast (higher_offset entry))] con;
     con \<leftarrow> printk stk (lit ''  Segment Selector: 0x%x\<newline>'') [Num (ucast (segment_selector entry))] con;
     con \<leftarrow> printk stk (lit ''  Interrupt Stack Table (IST): %u\<newline>'') [Num (ucast (interrupt_stack_table entry))] con;
     con \<leftarrow> printk stk (lit ''  Reserved: 0x%x\<newline>'') [Num (ucast (gate_reserved entry))] con;
     con \<leftarrow> printk stk (lit ''  Gate Type: 0x%x\<newline>'') [Num (ucast (gate_type entry))] con;
     con \<leftarrow> printk stk (lit ''  Reserved_1: %u\<newline>'') [Num (ucast (gate_reserved_1 entry))] con;
     con \<leftarrow> printk stk (lit ''  Descriptor Privilege Level (DPL): %u\<newline>'') [Num (ucast (gate_dpl entry))] con;
     con \<leftarrow> printk stk (lit ''  Present: %u\<newline>'') [Num (ucast (gate_present entry))] con;
     printk stk (lit ''  Reserved_2: 0x%lx\<newline>'') [Num (ucast (gate_reserved_2 entry))] con }"

section \<open>Handling an exception\<close>

definition exception_names :: "string list" where
  "exception_names = [''Division Error'', ''Debug'', ''Non-maskable Interrupt'', ''Breakpoint'', ''Overflow'',
     ''Bound Range Exceeded'', ''Invalid Opcode'', ''Device Not Available'', ''Double Fault'',
     ''Coprocessor Segment Overrun'', ''Invalid TSS'', ''Segment Not Present'', ''Stack-Segment Fault'',
     ''General Protection Fault'', ''Page Fault'', ''Reserved'', ''x87 Floating-Point Exception'', ''Alignment Check'',
     ''Machine Check'', ''SIMD Floating-Point Exception'', ''Virtualization Exception'', ''Control Protection Exception'',
     ''Reserved'', ''Reserved'', ''Reserved'', ''Reserved'', ''Reserved'', ''Reserved'', ''Hypervisor Injection Exception'',
     ''VMM Communication Exception'', ''Security Exception'', ''Reserved'']"

text \<open>The result says whether \<open>_exit\<close> was called, which halts the machine.\<close>

definition isrHandler :: "bytes \<Rightarrow> int \<Rightarrow> console \<Rightarrow> (bool \<times> console) option" where
  "isrHandler stk num con = do {
     con \<leftarrow> printk stk (lit ''\<newline>========== EXCEPTION ==========\<newline>'') [] con;
     con \<leftarrow> (if num < 32 then
         if num < 0 then None
         else printk stk (lit ''Exception: %s (INT %d)\<newline>'') [Str (lit (exception_names ! nat num)), Num (word_of_int num)] con
       else printk stk (lit ''Interrupt: %d\<newline>'') [Num (word_of_int num)] con);
     con \<leftarrow> printk stk (lit ''===============================\<newline>'') [] con;
     if num > 32 then do { con \<leftarrow> printk stk (lit ''System halted.\<newline>'') [] con; Some (True, con) }
     else Some (False, con) }"

text \<open>The machine is halted for numbers above 32 only, which the 32 gates never deliver.\<close>

lemma exception_not_halted: "isrHandler stk num con = Some (halted, con') \<Longrightarrow> halted \<longleftrightarrow> num > 32"
  by (auto simp: isrHandler_def split: Option.bind_splits if_splits)

section \<open>Layout\<close>

text \<open>Packed bit fields, the first in the lowest bits.\<close>

primrec pack :: "(nat \<times> nat) list \<Rightarrow> nat" where
  "pack [] = 0"
| "pack (f # fs) = snd f + 2 ^ fst f * pack fs"

definition gdt_bits :: "GdtDescriptorEntry \<Rightarrow> nat" where
  "gdt_bits e = pack [(16, unat (lower_segment_limit e)), (24, unat (lower_base_address e)), (4, unat (seg_type e)),
     (1, unat (seg_system e)), (2, unat (seg_dpl e)), (1, unat (seg_present e)), (4, unat (higher_segment_limit e)),
     (1, unat (seg_available e)), (1, unat (seg_long_mode e)), (1, unat (seg_d_b e)), (1, unat (seg_granularity e)),
     (8, unat (higher_base_address e))]"

definition idt_bits :: "IdtDescriptorEntry \<Rightarrow> nat" where
  "idt_bits e = pack [(16, unat (lower_offset e)), (16, unat (segment_selector e)), (3, unat (interrupt_stack_table e)),
     (5, unat (gate_reserved e)), (4, unat (gate_type e)), (1, unat (gate_reserved_1 e)), (2, unat (gate_dpl e)),
     (1, unat (gate_present e)), (16, unat (middle_offset e)), (32, unat (higher_offset e)), (32, unat (gate_reserved_2 e))]"

definition bit_field :: "nat \<Rightarrow> nat \<Rightarrow> nat \<Rightarrow> nat" where
  "bit_field off w x = x div 2 ^ off mod 2 ^ w"

lemma bit_field_pack:
  "list_all (\<lambda>f. snd f < 2 ^ fst f) fs \<Longrightarrow> i < length fs \<Longrightarrow> bit_field (sum_list (map fst (take i fs))) (fst (fs ! i)) (pack fs) = snd (fs ! i)"
proof (induction fs arbitrary: i)
  case (Cons f fs)
  have f: "snd f < 2 ^ fst f" using Cons.prems by simp
  show ?case
  proof (cases i)
    case 0
    then show ?thesis using f by (simp add: bit_field_def)
  next
    case (Suc j)
    have "(snd f + 2 ^ fst f * pack fs) div 2 ^ (fst f + k) = pack fs div 2 ^ k" for k
      using f by (simp add: power_add div_mult2_eq)
    then show ?thesis using Cons Suc by (simp add: bit_field_def)
  qed
qed simp

lemma pack_bound: "list_all (\<lambda>f. snd f < 2 ^ fst f) fs \<Longrightarrow> pack fs < 2 ^ sum_list (map fst fs)"
proof (induction fs)
  case (Cons f fs)
  then have p: "pack fs < 2 ^ sum_list (map fst fs)" "snd f < 2 ^ fst f" by simp_all
  then have "pack fs + 1 \<le> 2 ^ sum_list (map fst fs)" by simp
  then have "2 ^ fst f * (pack fs + 1) \<le> 2 ^ fst f * 2 ^ sum_list (map fst fs)" by (rule mult_le_mono2)
  then show ?case using p(2) by (simp add: power_add)
qed simp

section \<open>What the processor reads\<close>

definition gate_offset :: "nat \<Rightarrow> nat" where
  "gate_offset x = bit_field 0 16 x + 2 ^ 16 * bit_field 48 16 x + 2 ^ 32 * bit_field 64 32 x"

definition gate_fields :: "nat \<Rightarrow> nat \<times> nat \<times> nat \<times> nat \<times> nat" where
  "gate_fields x = (bit_field 16 16 x, bit_field 32 3 x, bit_field 40 4 x, bit_field 45 2 x, bit_field 47 1 x)"

definition segment_limit :: "nat \<Rightarrow> nat" where
  "segment_limit x = bit_field 0 16 x + 2 ^ 16 * bit_field 48 4 x"

definition segment_base :: "nat \<Rightarrow> nat" where
  "segment_base x = bit_field 16 24 x + 2 ^ 24 * bit_field 56 8 x"

text \<open>Type, system, privilege level and present bits; available, long mode, default size and granularity bits.\<close>

definition segment_access :: "nat \<Rightarrow> nat \<times> nat \<times> nat \<times> nat" where
  "segment_access x = (bit_field 40 4 x, bit_field 44 1 x, bit_field 45 2 x, bit_field 47 1 x)"

definition segment_flags :: "nat \<Rightarrow> nat \<times> nat \<times> nat \<times> nat" where
  "segment_flags x = (bit_field 52 1 x, bit_field 53 1 x, bit_field 54 1 x, bit_field 55 1 x)"

lemma word_bound: "unat (w :: 'a::len word) < 2 ^ LENGTH('a)"
  by (rule unsigned_less)

lemma gate_bits:
  "idt_bits e < 2 ^ 128" "bit_field 0 16 (idt_bits e) = unat (lower_offset e)" "bit_field 48 16 (idt_bits e) = unat (middle_offset e)"
  "bit_field 64 32 (idt_bits e) = unat (higher_offset e)"
  "gate_fields (idt_bits e) = (unat (segment_selector e), unat (interrupt_stack_table e), unat (gate_type e), unat (gate_dpl e), unat (gate_present e))"
proof -
  let ?fs = "[(16, unat (lower_offset e)), (16, unat (segment_selector e)), (3, unat (interrupt_stack_table e)),
     (5, unat (gate_reserved e)), (4, unat (gate_type e)), (1, unat (gate_reserved_1 e)), (2, unat (gate_dpl e)),
     (1, unat (gate_present e)), (16, unat (middle_offset e)), (32, unat (higher_offset e)), (32, unat (gate_reserved_2 e))]"
  have ok: "list_all (\<lambda>f. snd f < 2 ^ fst f) ?fs"
    using word_bound [of "lower_offset e"] word_bound [of "segment_selector e"] word_bound [of "interrupt_stack_table e"] word_bound [of "gate_reserved e"]
      word_bound [of "gate_type e"] word_bound [of "gate_reserved_1 e"] word_bound [of "gate_dpl e"] word_bound [of "gate_present e"]
      word_bound [of "middle_offset e"] word_bound [of "higher_offset e"] word_bound [of "gate_reserved_2 e"] by simp
  note b = bit_field_pack [OF ok, folded idt_bits_def]
  show "idt_bits e < 2 ^ 128" using pack_bound [OF ok, folded idt_bits_def] by simp
  show "bit_field 0 16 (idt_bits e) = unat (lower_offset e)" using b [of 0] by simp
  show "bit_field 48 16 (idt_bits e) = unat (middle_offset e)" using b [of 8] by simp
  show "bit_field 64 32 (idt_bits e) = unat (higher_offset e)" using b [of 9] by simp
  show "gate_fields (idt_bits e) = (unat (segment_selector e), unat (interrupt_stack_table e), unat (gate_type e), unat (gate_dpl e), unat (gate_present e))"
    unfolding gate_fields_def using b [of 1] b [of 2] b [of 4] b [of 6] b [of 7] by simp
qed

lemma segment_bits:
  "gdt_bits e < 2 ^ 64" "bit_field 0 16 (gdt_bits e) = unat (lower_segment_limit e)" "bit_field 48 4 (gdt_bits e) = unat (higher_segment_limit e)"
  "bit_field 16 24 (gdt_bits e) = unat (lower_base_address e)" "bit_field 56 8 (gdt_bits e) = unat (higher_base_address e)"
  "segment_access (gdt_bits e) = (unat (seg_type e), unat (seg_system e), unat (seg_dpl e), unat (seg_present e))"
  "segment_flags (gdt_bits e) = (unat (seg_available e), unat (seg_long_mode e), unat (seg_d_b e), unat (seg_granularity e))"
proof -
  let ?fs = "[(16, unat (lower_segment_limit e)), (24, unat (lower_base_address e)), (4, unat (seg_type e)),
     (1, unat (seg_system e)), (2, unat (seg_dpl e)), (1, unat (seg_present e)), (4, unat (higher_segment_limit e)),
     (1, unat (seg_available e)), (1, unat (seg_long_mode e)), (1, unat (seg_d_b e)), (1, unat (seg_granularity e)),
     (8, unat (higher_base_address e))]"
  have ok: "list_all (\<lambda>f. snd f < 2 ^ fst f) ?fs"
    using word_bound [of "lower_segment_limit e"] word_bound [of "lower_base_address e"] word_bound [of "seg_type e"] word_bound [of "seg_system e"]
      word_bound [of "seg_dpl e"] word_bound [of "seg_present e"] word_bound [of "higher_segment_limit e"] word_bound [of "seg_available e"]
      word_bound [of "seg_long_mode e"] word_bound [of "seg_d_b e"] word_bound [of "seg_granularity e"] word_bound [of "higher_base_address e"] by simp
  note b = bit_field_pack [OF ok, folded gdt_bits_def]
  show "gdt_bits e < 2 ^ 64" using pack_bound [OF ok, folded gdt_bits_def] by simp
  show "bit_field 0 16 (gdt_bits e) = unat (lower_segment_limit e)" using b [of 0] by simp
  show "bit_field 48 4 (gdt_bits e) = unat (higher_segment_limit e)" using b [of 6] by simp
  show "bit_field 16 24 (gdt_bits e) = unat (lower_base_address e)" using b [of 1] by simp
  show "bit_field 56 8 (gdt_bits e) = unat (higher_base_address e)" using b [of 11] by simp
  show "segment_access (gdt_bits e) = (unat (seg_type e), unat (seg_system e), unat (seg_dpl e), unat (seg_present e))"
    unfolding segment_access_def using b [of 2] b [of 3] b [of 4] b [of 5] by simp
  show "segment_flags (gdt_bits e) = (unat (seg_available e), unat (seg_long_mode e), unat (seg_d_b e), unat (seg_granularity e))"
    unfolding segment_flags_def using b [of 7] b [of 8] b [of 9] b [of 10] by simp
qed

lemma low_masks: "(x :: u64) AND 0xffff = take_bit 16 x" "x AND 0xffffffff = take_bit 32 x" "x AND 0x00ffffff = take_bit 24 x" "x AND 0xff = take_bit 8 x"
  by (simp_all add: take_bit_eq_mask mask_eq_exp_minus_1)

lemma low_masks_32: "(x :: u32) AND 0xffff = take_bit 16 x" "x AND 0xf = take_bit 4 x"
  by (simp_all add: take_bit_eq_mask mask_eq_exp_minus_1)

lemma word_parts: "unat (x :: u64) mod 2 ^ 16 + 2 ^ 16 * (unat x div 2 ^ 16 mod 2 ^ 16) + 2 ^ 32 * (unat x div 2 ^ 32) = unat x"
proof -
  have "unat x mod 2 ^ 32 = 2 ^ 16 * (unat x div 2 ^ 16 mod 2 ^ 16) + unat x mod 2 ^ 16" using mod_mult2_eq [of "unat x" "2 ^ 16" "2 ^ 16"] by simp
  moreover have "2 ^ 32 * (unat x div 2 ^ 32) + unat x mod 2 ^ 32 = unat x" by (rule mult_div_mod_eq)
  ultimately show ?thesis by linarith
qed

lemma unat_cut:
  "unat (ucast (take_bit n x) :: 'b::len word) = unat (x :: 'a::len word) mod 2 ^ n mod 2 ^ LENGTH('b)"
  "unat (drop_bit m x) = unat (x :: 'a::len word) div 2 ^ m"
  using take_bit_nat_eq_self [OF word_bound, of x]
  by (simp_all add: unsigned_ucast_eq unsigned_take_bit_eq unsigned_drop_bit_eq min.commute flip: take_bit_eq_mod drop_bit_eq_div)

lemma encoded_gate:
  "gate_offset (idt_bits (encodeInterruptDescriptor addr sel type dpl p)) = unat addr"
  "gate_fields (idt_bits (encodeInterruptDescriptor addr sel type dpl p)) = (unat sel, 0, unat type mod 16, unat dpl mod 4, unat p mod 2)"
proof -
  have lt: "unat addr div 2 ^ 32 < 2 ^ 32" by (rule less_mult_imp_div_less) (use word_bound [of addr] in simp)
  show "gate_offset (idt_bits (encodeInterruptDescriptor addr sel type dpl p)) = unat addr"
    unfolding gate_offset_def gate_bits encodeInterruptDescriptor_def low_masks
    using word_parts [of addr] lt by (simp add: unat_cut)
  show "gate_fields (idt_bits (encodeInterruptDescriptor addr sel type dpl p)) = (unat sel, 0, unat type mod 16, unat dpl mod 4, unat p mod 2)"
    unfolding gate_bits encodeInterruptDescriptor_def by (simp add: unsigned_ucast_eq take_bit_eq_mod)
qed

lemma encoded_segment:
  assumes "d = encodeGlobalDescriptor limit base type system dpl present available long_mode d_b granularity"
  shows "segment_limit (gdt_bits d) = unat limit mod 2 ^ 20" "segment_base (gdt_bits d) = unat base mod 2 ^ 32"
    "segment_access (gdt_bits d) = (unat type mod 16, unat system mod 2, unat dpl mod 4, unat present mod 2)"
    "segment_flags (gdt_bits d) = (unat available mod 2, unat long_mode mod 2, unat d_b mod 2, unat granularity mod 2)"
proof -
  have m: "x mod 2 ^ 16 + 2 ^ 16 * (x div 2 ^ 16 mod 2 ^ 4) = x mod 2 ^ 20" "x mod 2 ^ 24 + 2 ^ 24 * (x div 2 ^ 24 mod 2 ^ 8) = x mod 2 ^ 32" for x :: nat
    using mod_mult2_eq [of x "2 ^ 16" "2 ^ 4"] mod_mult2_eq [of x "2 ^ 24" "2 ^ 8"] by simp_all
  show "segment_limit (gdt_bits d) = unat limit mod 2 ^ 20"
    unfolding segment_limit_def segment_bits assms encodeGlobalDescriptor_def low_masks_32
    using m(1) [of "unat limit"] by (simp add: unat_cut)
  show "segment_base (gdt_bits d) = unat base mod 2 ^ 32"
    unfolding segment_base_def segment_bits assms encodeGlobalDescriptor_def low_masks
    using m(2) [of "unat base"] by (simp add: unat_cut)
  show "segment_access (gdt_bits d) = (unat type mod 16, unat system mod 2, unat dpl mod 4, unat present mod 2)"
    unfolding segment_bits assms encodeGlobalDescriptor_def low_masks_32 by (simp add: unat_cut) (simp add: unsigned_ucast_eq take_bit_eq_mod)
  show "segment_flags (gdt_bits d) = (unat available mod 2, unat long_mode mod 2, unat d_b mod 2, unat granularity mod 2)"
    unfolding segment_bits assms encodeGlobalDescriptor_def by (simp add: unsigned_ucast_eq take_bit_eq_mod)
qed

lemma initIsr_from_spec:
  "set js \<subseteq> {..<length hs} \<Longrightarrow> set js \<subseteq> {..<length t} \<Longrightarrow> \<exists>t'. initIsr_from hs js t = Some t' \<and> length t' = length t \<and>
    (\<forall>i. t' ! i = (if i \<in> set js then encodeInterruptDescriptor (hs ! i) 8 14 0 1 else t ! i))"
proof (induction js arbitrary: t)
  case (Cons j js)
  let ?t = "t[j := encodeInterruptDescriptor (hs ! j) 8 14 0 1]"
  obtain t' where t': "initIsr_from hs js ?t = Some t'" "length t' = length t"
    "\<forall>i. t' ! i = (if i \<in> set js then encodeInterruptDescriptor (hs ! i) 8 14 0 1 else ?t ! i)"
    using Cons.IH [of ?t] Cons.prems by auto
  then show ?case using Cons.prems by (cases "j < length t") (auto simp: nth_list_update)
qed simp

lemma printk_plain: "0 \<notin> set (map of_char s :: u8 list) \<Longrightarrow> 37 \<notin> set (map of_char s :: u8 list) \<Longrightarrow>
    printk stk (lit s) [] con = Some (puts (map of_char s) con)"
  using printk_text [of "map of_char s" stk "[0]" "[]" con] by (simp add: lit_def)

lemma initIdt_spec:
  assumes "length isr_handlers = ISR_COUNT"
  shows "\<exists>table idtr con'. initIdt stk isr_handlers idt_at con = Some (table, idtr, con') \<and> length table = IDT_MAX_ENTRIES \<and>
      tr_base_address idtr = idt_at \<and> unat (tr_limit idtr) = 16 * length table - 1 \<and>
      (\<forall>i < IDT_MAX_ENTRIES. idt_bits (table ! i) < 2 ^ 128 \<and>
        (if i < ISR_COUNT then gate_offset (idt_bits (table ! i)) = unat (isr_handlers ! i) \<and> gate_fields (idt_bits (table ! i)) = (8, 0, 14, 0, 1)
         else gate_fields (idt_bits (table ! i)) = (0, 0, 0, 0, 0)))"
proof -
  obtain t where t: "initIsr isr_handlers (replicate IDT_MAX_ENTRIES zero_gate) = Some t" "length t = IDT_MAX_ENTRIES"
    "\<forall>i. t ! i = (if i \<in> set [0..<ISR_COUNT] then encodeInterruptDescriptor (isr_handlers ! i) 8 14 0 1 else replicate IDT_MAX_ENTRIES zero_gate ! i)"
    using initIsr_from_spec [of "[0..<ISR_COUNT]" isr_handlers "replicate IDT_MAX_ENTRIES zero_gate"] assms(1)
    unfolding initIsr_def by (fastforce simp: IDT_MAX_ENTRIES_def ISR_COUNT_def)
  have g: "idt_bits (t ! i) < 2 ^ 128 \<and>
        (if i < ISR_COUNT then gate_offset (idt_bits (t ! i)) = unat (isr_handlers ! i) \<and> gate_fields (idt_bits (t ! i)) = (8, 0, 14, 0, 1)
         else gate_fields (idt_bits (t ! i)) = (0, 0, 0, 0, 0))" if "i < IDT_MAX_ENTRIES" for i
  proof (cases "i < ISR_COUNT")
    case True
    then have "t ! i = encodeInterruptDescriptor (isr_handlers ! i) 8 14 0 1" using t(3) by simp
    then show ?thesis using True gate_bits(1) [of "t ! i"] by (simp add: encoded_gate)
  next
    case False
    then have "t ! i = zero_gate" using t(3) that by simp
    then show ?thesis using False gate_bits(1,5) [of "t ! i"] by (simp add: zero_gate_def)
  qed
  have "printk stk (lit ''Interrupts enabled (STI executed)\<newline>'') [] con = Some (puts (map of_char ''Interrupts enabled (STI executed)\<newline>'') con)"
    by (rule printk_plain) simp_all
  then show ?thesis using t(1,2) g by (simp add: initIdt_def) (simp add: IDT_MAX_ENTRIES_def)
qed

lemma printGdt_returns:
  assumes "65 \<le> length stk"
  shows "\<exists>bs. printGdtDescriptorEntry stk entry (puts as con) = Some (puts bs con)"
  unfolding printGdtDescriptorEntry_def
  by ((rule printk_then [OF assms], simp add: lit_def)+, rule printk_prints [OF assms], simp add: lit_def)

lemma initGdt_returns:
  assumes "65 \<le> length stk"
  shows "\<exists>gdtr bs. initGdt stk a a' con = Some (gdt_table, gdtr, puts bs con) \<and> tr_base_address gdtr = a \<and> unat (tr_limit gdtr) = 23"
proof -
  obtain as where p: "printGdtDescriptorEntry stk (kernel_code gdt_table) con = Some (puts as con)" using printGdt_returns [OF assms, of _ "[]" con] by auto
  obtain bs where "printk stk (lit ''GDTR base = %p, limit = %d\<newline>GDTR address = %p\<newline>'') [Num a, Num (ucast (of_nat SIZEOF_GDT - 1 :: u16)), Num a'] (puts as con) = Some (puts bs con)"
    using printk_prints [OF assms, of "lit ''GDTR base = %p, limit = %d\<newline>GDTR address = %p\<newline>''"] by (fastforce simp: lit_def)
  then show ?thesis using p by (auto simp: initGdt_def Let_def SIZEOF_GDT_def)
qed

lemma initIdt_console:
  assumes "65 \<le> length stk" "initIdt stk hs a con = Some (table, idtr, con')"
  shows "\<exists>bs. con' = puts bs con"
proof -
  obtain bs where "printk stk (lit ''Interrupts enabled (STI executed)\<newline>'') [] con = Some (puts bs con)"
    using printk_prints [OF assms(1), of "lit ''Interrupts enabled (STI executed)\<newline>''" "[]" "[]" con] by (auto simp: lit_def)
  then show ?thesis using assms(2) by (auto simp: initIdt_def Let_def split: Option.bind_splits)
qed

text \<open>A segment descriptor as the processor reads it: base, limit, access and flags.\<close>

definition segment_view :: "nat \<Rightarrow> nat \<times> nat \<times> (nat \<times> nat \<times> nat \<times> nat) \<times> (nat \<times> nat \<times> nat \<times> nat)" where
  "segment_view x = (segment_base x, segment_limit x, segment_access x, segment_flags x)"

lemma encoded_view:
  "segment_view (gdt_bits (encodeGlobalDescriptor lim base type system dpl present available long_mode d_b granularity)) =
    (unat base mod 2 ^ 32, unat lim mod 2 ^ 20, (unat type mod 16, unat system mod 2, unat dpl mod 4, unat present mod 2),
     (unat available mod 2, unat long_mode mod 2, unat d_b mod 2, unat granularity mod 2))"
  unfolding segment_view_def encoded_segment [OF refl] by simp

lemma gdt_views:
  "segment_view (gdt_bits (kernel_code gdt_table)) = (0, 0xfffff, (10, 1, 0, 1), (0, 1, 0, 1))"
  "segment_view (gdt_bits (kernel_data gdt_table)) = (0, 0xfffff, (2, 1, 0, 1), (0, 1, 1, 1))"
  "segment_view (gdt_bits (gdt_empty gdt_table)) = (0, 0xfffff, (0, 0, 0, 0), (0, 1, 0, 0))"
  by (simp_all add: gdt_table_def ENCODE_64_BIT_DESCRIPTOR_def encoded_view EXECUTE_READ_def READ_WRITE_def)

text \<open>C40: the descriptor tables as the processor reads them. \<open>initGdt\<close> returns a table of three descriptors and its
  register: at selector 8 a present 64-bit code segment (execute and read, privilege 0) and at selector 16 a present data
  segment (read and write, privilege 0), both with base 0 and the largest limit in pages; the first descriptor is not
  present, and not null either: it has the largest limit and the long mode bit. \<open>initIdt\<close> returns a table in which each of
  the 32 exception vectors is a present interrupt gate of privilege 0 to the handler of that number in the segment at
  selector 8, and all other vectors are not present. And whatever the arguments, a segment descriptor holds them cut to the
  width of its fields, the pieces of base and limit put together.\<close>

theorem descriptors_well_formed:
  assumes "65 \<le> length stk" "length isr_handlers = ISR_COUNT"
  shows "(\<exists>gdt gdtr con'. initGdt stk gdt_at gdtr_at con = Some (gdt, gdtr, con') \<and>
      tr_base_address gdtr = gdt_at \<and> unat (tr_limit gdtr) = 3 * 8 - 1 \<and>
      segment_view (gdt_bits (kernel_code gdt)) = (0, 0xfffff, (10, 1, 0, 1), (0, 1, 0, 1)) \<and>
      segment_view (gdt_bits (kernel_data gdt)) = (0, 0xfffff, (2, 1, 0, 1), (0, 1, 1, 1)) \<and>
      segment_view (gdt_bits (gdt_empty gdt)) = (0, 0xfffff, (0, 0, 0, 0), (0, 1, 0, 0))) \<and>
    (\<exists>table idtr con'. initIdt stk isr_handlers idt_at con = Some (table, idtr, con') \<and> length table = IDT_MAX_ENTRIES \<and>
      tr_base_address idtr = idt_at \<and> unat (tr_limit idtr) = 16 * length table - 1 \<and>
      (\<forall>i < IDT_MAX_ENTRIES. idt_bits (table ! i) < 2 ^ 128 \<and>
        (if i < ISR_COUNT then gate_offset (idt_bits (table ! i)) = unat (isr_handlers ! i) \<and> gate_fields (idt_bits (table ! i)) = (8, 0, 14, 0, 1)
         else gate_fields (idt_bits (table ! i)) = (0, 0, 0, 0, 0)))) \<and>
    segment_view (gdt_bits (encodeGlobalDescriptor lim base type system dpl present available long_mode d_b granularity)) =
      (unat base mod 2 ^ 32, unat lim mod 2 ^ 20, (unat type mod 16, unat system mod 2, unat dpl mod 4, unat present mod 2),
       (unat available mod 2, unat long_mode mod 2, unat d_b mod 2, unat granularity mod 2))"
proof (intro conjI)
  show "\<exists>gdt gdtr con'. initGdt stk gdt_at gdtr_at con = Some (gdt, gdtr, con') \<and>
      tr_base_address gdtr = gdt_at \<and> unat (tr_limit gdtr) = 3 * 8 - 1 \<and>
      segment_view (gdt_bits (kernel_code gdt)) = (0, 0xfffff, (10, 1, 0, 1), (0, 1, 0, 1)) \<and>
      segment_view (gdt_bits (kernel_data gdt)) = (0, 0xfffff, (2, 1, 0, 1), (0, 1, 1, 1)) \<and>
      segment_view (gdt_bits (gdt_empty gdt)) = (0, 0xfffff, (0, 0, 0, 0), (0, 1, 0, 0))"
    using initGdt_returns [OF assms(1), of gdt_at gdtr_at con] gdt_views by auto
qed (use initIdt_spec [OF assms(2)] encoded_view in blast)+

theorem descriptors_well_formed_witness:
  "\<exists>table idtr con'. initIdt (replicate 65 0) (replicate 32 0xFFFFFFFF80001234) 4096 demo_console = Some (table, idtr, con') \<and>
     gate_offset (idt_bits (table ! 14)) = 0xFFFFFFFF80001234"
proof -
  have "65 \<le> length (replicate 65 (0 :: u8))" "length (replicate 32 (0xFFFFFFFF80001234 :: u64)) = ISR_COUNT" by (simp_all add: ISR_COUNT_def)
  note w = descriptors_well_formed [where idt_at = 4096 and con = demo_console, OF this, THEN conjunct2, THEN conjunct1]
  from w obtain table idtr con' where
    r: "initIdt (replicate 65 0) (replicate 32 0xFFFFFFFF80001234) 4096 demo_console = Some (table, idtr, con')"
      "\<forall>i < IDT_MAX_ENTRIES. idt_bits (table ! i) < 2 ^ 128 \<and>
        (if i < ISR_COUNT then gate_offset (idt_bits (table ! i)) = unat (replicate 32 (0xFFFFFFFF80001234 :: u64) ! i) \<and> gate_fields (idt_bits (table ! i)) = (8, 0, 14, 0, 1)
         else gate_fields (idt_bits (table ! i)) = (0, 0, 0, 0, 0))" by blast
  have "14 < IDT_MAX_ENTRIES" "14 < ISR_COUNT" by (simp_all add: IDT_MAX_ENTRIES_def ISR_COUNT_def)
  then have "gate_offset (idt_bits (table ! 14)) = unat (0xFFFFFFFF80001234 :: u64)" using r(2) by fastforce
  then show ?thesis using r(1) by auto
qed

end
