(* ===== verification/Shell_Line.thy ===== *)
theory Shell_Line
  imports Keyboard
begin

text \<open>
  The line editor of the shell (\<open>shell_readline\<close> in \<open>src/fs/shell.c\<close>): cursor keys, insertion and
  deletion inside the line, and the history of the last sixteen commands. It is related to an abstract editor, a
  line split at the cursor, and to what a terminal shows.
\<close>

section \<open>The model\<close>

definition HIST_MAX :: nat where "HIST_MAX = 16"
definition HIST_CMDLEN :: nat where "HIST_CMDLEN = 1000"

text \<open>\<open>hist_total\<close> is an \<open>int\<close> that counts up from 0.\<close>

record history =
  hist_buf :: "bytes list"
  hist_total :: nat

record readline =
  rl_buf :: bytes
  rl_len :: nat
  rl_cur :: nat
  rl_browse :: nat
  rl_saved :: bytes
  rl_saved_len :: nat

text \<open>The loops over a part of the buffer.\<close>

fun put_range :: "bytes \<Rightarrow> nat \<Rightarrow> nat \<Rightarrow> console \<Rightarrow> console option" where
  "put_range buf j 0 con = Some con"
| "put_range buf j (Suc n) con = do { c \<leftarrow> idx buf j; put_range buf (Suc j) n (putChar c con) }"

fun close_gap :: "bytes \<Rightarrow> nat \<Rightarrow> nat \<Rightarrow> bytes option" where
  "close_gap buf j 0 = Some buf"
| "close_gap buf j (Suc n) = do { c \<leftarrow> idx buf (Suc j); buf \<leftarrow> upd buf j c; close_gap buf (Suc j) n }"

fun open_gap :: "bytes \<Rightarrow> nat \<Rightarrow> nat \<Rightarrow> bytes option" where
  "open_gap buf cur 0 = Some buf"
| "open_gap buf cur (Suc n) = do { c \<leftarrow> idx buf (cur + n); buf \<leftarrow> upd buf (cur + Suc n) c; open_gap buf cur n }"

definition put_times :: "nat \<Rightarrow> bytes \<Rightarrow> console \<Rightarrow> console" where
  "put_times n cs con = ((\<lambda>con. fold putChar cs con) ^^ n) con"

definition redraw_tail :: "bytes \<Rightarrow> nat \<Rightarrow> nat \<Rightarrow> bool \<Rightarrow> console \<Rightarrow> console option" where
  "redraw_tail buf cur len blank con = do {
     con \<leftarrow> put_range buf cur (len - cur) con;
     let con = (if blank then putChar 32 con else con);
     Some (put_times (len - cur + (if blank then 1 else 0)) [8] con) }"

definition erase_line :: "bytes \<Rightarrow> nat \<Rightarrow> nat \<Rightarrow> console \<Rightarrow> console option" where
  "erase_line buf cur len con = do {
     con \<leftarrow> put_range buf cur (len - cur) con;
     Some (put_times len [8, 32, 8] con) }"

text \<open>Deleting the character at the cursor, for backspace (which first moves left) and for the delete key.\<close>

definition delete_at :: "readline \<Rightarrow> bool \<Rightarrow> console \<Rightarrow> (readline \<times> console) option" where
  "delete_at rl back con = do {
     let cur = (if back then rl_cur rl - 1 else rl_cur rl);
     let len = rl_len rl - 1;
     buf \<leftarrow> close_gap (rl_buf rl) cur (len - cur);
     con \<leftarrow> redraw_tail buf cur len True (if back then putChar 8 con else con);
     Some (rl\<lparr> rl_buf := buf, rl_len := len, rl_cur := cur \<rparr>, con) }"

text \<open>The arrow keys that browse the history.\<close>

definition show_entry :: "history \<Rightarrow> nat \<Rightarrow> readline \<Rightarrow> console \<Rightarrow> (readline \<times> console) option" where
  "show_entry h sz rl con = do {
     con \<leftarrow> erase_line (rl_buf rl) (rl_cur rl) (rl_len rl) con;
     (src, slen) \<leftarrow>
       (if rl_browse rl = hist_total h then Some (rl_saved rl, rl_saved_len rl)
        else do {
          src \<leftarrow> idx (hist_buf h) (rl_browse rl mod HIST_MAX);
          slen \<leftarrow> strlen src;
          Some (src, slen) });
     let slen = (if slen \<ge> sz then sz - 1 else slen);
     buf \<leftarrow> memcpy (rl_buf rl) src slen;
     con \<leftarrow> put_range buf 0 slen con;
     Some (rl\<lparr> rl_buf := buf, rl_len := slen, rl_cur := slen \<rparr>, con) }"

definition browse_up :: "history \<Rightarrow> nat \<Rightarrow> readline \<Rightarrow> console \<Rightarrow> (readline \<times> console) option" where
  "browse_up h sz rl con =
    (if rl_browse rl \<le> hist_total h - HIST_MAX then Some (rl, con)
     else do {
       rl \<leftarrow> (if rl_browse rl = hist_total h then do {
           saved \<leftarrow> memcpy (rl_saved rl) (rl_buf rl) (rl_len rl);
           saved \<leftarrow> upd saved (rl_len rl) 0;
           Some (rl\<lparr> rl_saved := saved, rl_saved_len := rl_len rl \<rparr>) }
         else Some rl);
       show_entry h sz (rl\<lparr> rl_browse := rl_browse rl - 1 \<rparr>) con })"

definition browse_down :: "history \<Rightarrow> nat \<Rightarrow> readline \<Rightarrow> console \<Rightarrow> (readline \<times> console) option" where
  "browse_down h sz rl con =
    (if rl_browse rl \<ge> hist_total h then Some (rl, con)
     else show_entry h sz (rl\<lparr> rl_browse := rl_browse rl + 1 \<rparr>) con)"

definition insert_char :: "nat \<Rightarrow> int \<Rightarrow> readline \<Rightarrow> console \<Rightarrow> (readline \<times> console) option" where
  "insert_char sz ch rl con =
    (if rl_len rl \<ge> sz - 1 then Some (rl, con)
     else do {
       buf \<leftarrow> open_gap (rl_buf rl) (rl_cur rl) (rl_len rl - rl_cur rl);
       buf \<leftarrow> upd buf (rl_cur rl) (word_of_int ch);
       let len = rl_len rl + 1;
       let cur = rl_cur rl + 1;
       con \<leftarrow> put_range buf (cur - 1) (len - (cur - 1)) con;
       Some (rl\<lparr> rl_buf := buf, rl_len := len, rl_cur := cur \<rparr>, put_times (len - cur) [8] con) })"

text \<open>One key other than Enter.\<close>

definition readline_key :: "history \<Rightarrow> nat \<Rightarrow> int \<Rightarrow> readline \<Rightarrow> console \<Rightarrow> (readline \<times> console) option" where
  "readline_key h sz ch rl con =
    (if ch = 8 then (if rl_cur rl > 0 then delete_at rl True con else Some (rl, con))
     else if ch = KEY_DEL then (if rl_cur rl < rl_len rl then delete_at rl False con else Some (rl, con))
     else if ch = KEY_LEFT then
       (if rl_cur rl > 0 then Some (rl\<lparr> rl_cur := rl_cur rl - 1 \<rparr>, putChar 8 con) else Some (rl, con))
     else if ch = KEY_RIGHT then
       (if rl_cur rl < rl_len rl then do {
          c \<leftarrow> idx (rl_buf rl) (rl_cur rl);
          Some (rl\<lparr> rl_cur := rl_cur rl + 1 \<rparr>, putChar c con) }
        else Some (rl, con))
     else if ch = KEY_HOME then Some (rl\<lparr> rl_cur := 0 \<rparr>, put_times (rl_cur rl) [8] con)
     else if ch = KEY_END then do {
       con \<leftarrow> put_range (rl_buf rl) (rl_cur rl) (rl_len rl - rl_cur rl) con;
       Some (rl\<lparr> rl_cur := max (rl_cur rl) (rl_len rl) \<rparr>, con) }
     else if ch = KEY_UP then browse_up h sz rl con
     else if ch = KEY_DOWN then browse_down h sz rl con
     else if ch > 127 then Some (rl, con)
     else insert_char sz ch rl con)"

partial_function (option) readline_loop :: "history \<Rightarrow> nat \<Rightarrow> readline \<Rightarrow> console \<Rightarrow> (readline \<times> console) option" where
  "readline_loop h sz rl con =
    (if rl_len rl < sz - 1 then do {
       (ch, con) \<leftarrow> getCharEx con;
       if ch = 10 then Some (rl, putChar 10 con)
       else do {
         (rl, con) \<leftarrow> readline_key h sz ch rl con;
         readline_loop h sz rl con } }
     else Some (rl, con))"

text \<open>\<open>saved\<close> is a local array; \<open>saved0\<close> is what the stack holds there.\<close>

definition readline_start :: "history \<Rightarrow> bytes \<Rightarrow> bytes \<Rightarrow> readline option" where
  "readline_start h saved0 buf = do {
     saved \<leftarrow> upd saved0 0 0;
     Some \<lparr> rl_buf = buf, rl_len = 0, rl_cur = 0, rl_browse = hist_total h, rl_saved = saved, rl_saved_len = 0 \<rparr> }"

text \<open>The count of the commands overflows, which is undefined, behind the largest \<open>int\<close>.\<close>

definition remember :: "history \<Rightarrow> bytes \<Rightarrow> nat \<Rightarrow> history option" where
  "remember h buf len =
    (if len > 0 then do {
       row \<leftarrow> idx (hist_buf h) (hist_total h mod HIST_MAX);
       row \<leftarrow> memcpy row buf (len + 1);
       rows \<leftarrow> upd (hist_buf h) (hist_total h mod HIST_MAX) row;
       if int_range (int (hist_total h) + 1) then Some \<lparr> hist_buf = rows, hist_total = hist_total h + 1 \<rparr> else None }
     else Some h)"

definition shell_readline :: "bytes \<Rightarrow> history \<Rightarrow> bytes \<Rightarrow> nat \<Rightarrow> console \<Rightarrow> (nat \<times> bytes \<times> history \<times> console) option" where
  "shell_readline saved0 h buf sz con = do {
     rl \<leftarrow> readline_start h saved0 buf;
     (rl, con) \<leftarrow> readline_loop h sz rl con;
     buf \<leftarrow> upd (rl_buf rl) (rl_len rl) 0;
     h \<leftarrow> remember h buf (rl_len rl);
     Some (rl_len rl, buf, h, con) }"

section \<open>The loops in closed form\<close>

lemma put_range_eq: "j + n \<le> length buf \<Longrightarrow> put_range buf j n con = Some (puts (bslice j n buf) con)"
proof (induction buf j n con rule: put_range.induct)
  case (2 buf j n con)
  have "bslice j (Suc n) buf = buf ! j # bslice (Suc j) n buf"
    using 2(2) by (simp add: bslice_def Cons_nth_drop_Suc [symmetric])
  then show ?case using 2 by simp
qed (simp add: bslice_def)

lemma close_gap_eq: "j + n < length buf \<Longrightarrow> close_gap buf j n = Some (overwrite buf j (bslice (Suc j) n buf))"
proof (induction buf j n rule: close_gap.induct)
  case (2 buf j n)
  have s: "bslice (Suc j) (Suc n) buf = buf ! Suc j # bslice (Suc (Suc j)) n buf"
    using 2(2) by (simp add: bslice_def Cons_nth_drop_Suc [symmetric])
  have l: "length (bslice (Suc (Suc j)) n buf) = n" using 2(2) by (simp add: bslice_def)
  have "overwrite (buf[j := buf ! Suc j]) (Suc j) (bslice (Suc (Suc j)) n (buf[j := buf ! Suc j])) =
      overwrite buf j (buf ! Suc j # bslice (Suc (Suc j)) n buf)"
    using 2(2) l by (simp add: overwrite_def take_Suc_conv_app_nth bslice_def)
  then show ?case using 2 s by simp
qed (simp add: bslice_def overwrite_def)

lemma open_gap_eq: "cur + n < length buf \<Longrightarrow> open_gap buf cur n = Some (overwrite buf (Suc cur) (bslice cur n buf))"
proof (induction n arbitrary: buf)
  case (Suc n)
  let ?b = "buf[cur + Suc n := buf ! (cur + n)]"
  have s: "bslice cur (Suc n) buf = bslice cur n buf @ [buf ! (cur + n)]"
    using Suc.prems by (simp add: bslice_def take_Suc_conv_app_nth)
  have l: "length (bslice cur n buf) = n" using Suc.prems by (simp add: bslice_def)
  have b: "bslice cur n ?b = bslice cur n buf" by (simp add: bslice_def drop_update_swap)
  have d: "drop (Suc cur + n) ?b = buf ! (cur + n) # drop (Suc (Suc cur + n)) buf"
    using Suc.prems by (simp add: Cons_nth_drop_Suc [symmetric])
  have "overwrite ?b (Suc cur) (bslice cur n ?b) = overwrite buf (Suc cur) (bslice cur n buf @ [buf ! (cur + n)])"
    unfolding overwrite_def b l using d l by simp
  then show ?case using Suc s by simp
qed (simp add: bslice_def overwrite_def)

lemma concat_replicate_single: "concat (replicate n [c]) = replicate n c"
  by (induction n) simp_all

lemma put_times_eq: "put_times n cs con = puts (concat (replicate n cs)) con"
  by (induction n arbitrary: con) (simp_all add: put_times_def funpow_Suc_right del: funpow.simps(2))

section \<open>The terminal\<close>

text \<open>A terminal line: its cells and the cursor. A backspace moves the cursor, any other character is written
  over the cell at the cursor.\<close>

definition term_put :: "bytes \<times> nat \<Rightarrow> u8 \<Rightarrow> bytes \<times> nat" where
  "term_put = (\<lambda>(cells, pos) c. if c = 8 then (cells, pos - 1)
     else (overwrite cells pos [c], pos + 1))"

abbreviation term_run :: "bytes \<Rightarrow> bytes \<times> nat \<Rightarrow> bytes \<times> nat" where
  "term_run out st \<equiv> foldl term_put st out"

definition plain :: "bytes \<Rightarrow> bool" where
  "plain cs \<longleftrightarrow> list_all (\<lambda>c. c \<noteq> 8 \<and> c \<noteq> 0) cs"

lemma plain_simps [simp]: "plain []" "plain (c # cs) \<longleftrightarrow> c \<noteq> 8 \<and> c \<noteq> 0 \<and> plain cs" "plain (xs @ ys) \<longleftrightarrow> plain xs \<and> plain ys"
  "plain (replicate k 32)"
  by (auto simp: plain_def list_all_iff)

text \<open>The line \<open>l @ r\<close> is shown behind \<open>pre\<close> with the cursor between \<open>l\<close> and \<open>r\<close>, followed by blanks.\<close>

definition shown :: "bytes \<Rightarrow> bytes \<Rightarrow> bytes \<Rightarrow> bytes \<times> nat \<Rightarrow> bool" where
  "shown pre l r st \<longleftrightarrow> (\<exists>k. st = (pre @ l @ r @ replicate k 32, length pre + length l))"

lemma run_plain:
  assumes "plain cs"
  shows "term_run cs (xs @ ys, length xs) = (xs @ cs @ drop (length cs) ys, length xs + length cs)"
  using assms
proof (induction cs arbitrary: xs ys)
  case (Cons c cs)
  have "term_put (xs @ ys, length xs) c = ((xs @ [c]) @ drop 1 ys, length (xs @ [c]))"
    using Cons.prems by (simp add: term_put_def overwrite_def)
  then show ?case using Cons.IH [of "xs @ [c]" "drop 1 ys"] Cons.prems by simp
qed simp

lemma run_back: "term_run (replicate n 8) (cells, pos) = (cells, pos - n)"
  by (induction n arbitrary: pos) (simp_all add: term_put_def)

lemma put_back: "term_put (cells, pos) 8 = (cells, pos - 1)"
  by (simp add: term_put_def)

lemma run_erase:
  assumes "n = length ys"
  shows "term_run (concat (replicate n [8, 32, 8])) (xs @ ys @ replicate k 32, length xs + n) = (xs @ replicate (n + k) 32, length xs)"
  using assms
proof (induction ys arbitrary: n k rule: rev_induct)
  case (snoc y ys)
  let ?st = "(xs @ (ys @ [y]) @ replicate k 32, length xs + Suc (length ys))"
  have "term_run [8, 32, 8] ?st = (xs @ ys @ replicate (Suc k) 32, length xs + length ys)"
    by (simp add: term_put_def overwrite_def)
  then show ?case using snoc.IH [of "length ys" "Suc k"] snoc.prems by (simp add: replicate_app_Cons_same)
qed simp

lemma drop_blanks: "drop n (replicate k (32 :: u8)) = replicate (k - n) 32"
  by simp

lemma shown_out:
  assumes "shown pre l r st" "plain l" "plain r"
  shows "plain [c] \<Longrightarrow> shown pre (l @ [c]) r (term_run ((c # r) @ replicate (length r) 8) st)"
    "l = l' @ [x] \<Longrightarrow> shown pre l' r (term_run (8 # r @ 32 # replicate (length r + 1) 8) st)"
    "r = x # r' \<Longrightarrow> shown pre l r' (term_run (r' @ 32 # replicate (length r' + 1) 8) st)"
    "l = l' @ [x] \<Longrightarrow> shown pre l' (x # r) (term_run [8] st)"
    "r = x # r' \<Longrightarrow> shown pre (l @ [x]) r' (term_run [x] st)"
    "shown pre [] (l @ r) (term_run (replicate (length l) 8) st)"
    "shown pre (l @ r) [] (term_run r st)"
    "plain new \<Longrightarrow> shown pre new [] (term_run (r @ concat (replicate (length l + length r) [8, 32, 8]) @ new) st)"
proof -
  obtain k where st: "st = (pre @ l @ r @ replicate k 32, length pre + length l)" using assms(1) by (auto simp: shown_def)
  have at: "st = ((pre @ l) @ r @ replicate k 32, length (pre @ l))" by (simp add: st)
  show "shown pre (l @ [c]) r (term_run ((c # r) @ replicate (length r) 8) st)" if "plain [c]"
  proof -
    have "term_run (c # r) st = ((pre @ l) @ (c # r) @ drop (length (c # r)) (r @ replicate k 32), length (pre @ l) + length (c # r))"
      unfolding at using that assms(3) by (intro run_plain) simp
    then show ?thesis unfolding foldl_append by (simp add: run_back shown_def)
  qed
  show "shown pre l' r (term_run (8 # r @ 32 # replicate (length r + 1) 8) st)" if l: "l = l' @ [x]"
  proof -
    have b: "term_run [8] st = ((pre @ l') @ (x # r) @ replicate k 32, length (pre @ l'))" by (simp add: st l term_put_def)
    have "term_run (r @ [32]) (term_run [8] st) =
        ((pre @ l') @ (r @ [32]) @ drop (length (r @ [32])) ((x # r) @ replicate k 32), length (pre @ l') + length (r @ [32]))"
      unfolding b using assms(3) by (intro run_plain) simp
    then have "term_run (8 # r @ 32 # replicate (length r + 1) 8) st = (pre @ l' @ r @ replicate (Suc k) 32, length pre + length l')"
      by (simp add: run_back put_back)
    then show ?thesis unfolding shown_def by blast
  qed
  show "shown pre l r' (term_run (r' @ 32 # replicate (length r' + 1) 8) st)" if r: "r = x # r'"
  proof -
    have "term_run (r' @ [32]) st =
        ((pre @ l) @ (r' @ [32]) @ drop (length (r' @ [32])) (r @ replicate k 32), length (pre @ l) + length (r' @ [32]))"
      unfolding at using assms(3) r by (intro run_plain) simp
    then have "term_run (r' @ 32 # replicate (length r' + 1) 8) st = (pre @ l @ r' @ replicate (Suc k) 32, length pre + length l)"
      using r by (simp add: run_back put_back)
    then show ?thesis unfolding shown_def by blast
  qed
  show "shown pre l' (x # r) (term_run [8] st)" if "l = l' @ [x]"
    using that by (auto simp: st shown_def term_put_def)
  show "shown pre (l @ [x]) r' (term_run [x] st)" if "r = x # r'"
    using that assms(3) by (auto simp: st shown_def term_put_def overwrite_def)
  show "shown pre [] (l @ r) (term_run (replicate (length l) 8) st)" by (auto simp: st shown_def run_back)
  have e: "term_run r st = (pre @ (l @ r) @ replicate k 32, length pre + (length l + length r))"
    unfolding at using run_plain [OF assms(3), of "pre @ l" "r @ replicate k 32"] by simp
  then show "shown pre (l @ r) [] (term_run r st)" by (auto simp: shown_def)
  show "shown pre new [] (term_run (r @ concat (replicate (length l + length r) [8, 32, 8]) @ new) st)" if "plain new"
  proof -
    let ?n = "length l + length r"
    have "term_run (concat (replicate ?n [8, 32, 8])) (term_run r st) = (pre @ replicate (?n + k) 32, length pre)"
      unfolding e by (rule run_erase) simp
    then have "term_run (r @ concat (replicate ?n [8, 32, 8]) @ new) st = (pre @ new @ replicate (?n + k - length new) 32, length pre + length new)"
      using run_plain [OF that, of pre "replicate (?n + k) 32"] by simp
    then show ?thesis by (auto simp: shown_def)
  qed
qed

section \<open>The abstract editor\<close>

text \<open>A line split at the cursor, the entry of the history that is shown and the draft that waits below it.\<close>

record editor =
  ed_left :: bytes
  ed_right :: bytes
  ed_entry :: nat
  ed_draft :: bytes

definition hist_line :: "history \<Rightarrow> nat \<Rightarrow> bytes" where
  "hist_line h b = cstr (hist_buf h ! (b mod HIST_MAX))"

definition ed_show :: "history \<Rightarrow> nat \<Rightarrow> editor \<Rightarrow> editor" where
  "ed_show h sz ed = ed\<lparr> ed_left := take (sz - 1)
     (if ed_entry ed = hist_total h then ed_draft ed else hist_line h (ed_entry ed)), ed_right := [] \<rparr>"

definition ed_key :: "history \<Rightarrow> nat \<Rightarrow> int \<Rightarrow> editor \<Rightarrow> editor" where
  "ed_key h sz ch ed = (let l = ed_left ed; r = ed_right ed in
     if ch = 8 then ed\<lparr> ed_left := butlast l \<rparr>
     else if ch = KEY_DEL then ed\<lparr> ed_right := tl r \<rparr>
     else if ch = KEY_LEFT then (if l = [] then ed else ed\<lparr> ed_left := butlast l, ed_right := last l # r \<rparr>)
     else if ch = KEY_RIGHT then (if r = [] then ed else ed\<lparr> ed_left := l @ [hd r], ed_right := tl r \<rparr>)
     else if ch = KEY_HOME then ed\<lparr> ed_left := [], ed_right := l @ r \<rparr>
     else if ch = KEY_END then ed\<lparr> ed_left := l @ r, ed_right := [] \<rparr>
     else if ch = KEY_UP then
       (if ed_entry ed \<le> hist_total h - HIST_MAX then ed
        else ed_show h sz (ed\<lparr> ed_entry := ed_entry ed - 1,
          ed_draft := (if ed_entry ed = hist_total h then l @ r else ed_draft ed) \<rparr>))
     else if ch = KEY_DOWN then
       (if ed_entry ed \<ge> hist_total h then ed else ed_show h sz (ed\<lparr> ed_entry := ed_entry ed + 1 \<rparr>))
     else if ch > 127 then ed
     else ed\<lparr> ed_left := l @ [word_of_int ch] \<rparr>)"

definition hist_ok :: "history \<Rightarrow> bool" where
  "hist_ok h \<longleftrightarrow> length (hist_buf h) = HIST_MAX \<and>
     (\<forall>row \<in> set (hist_buf h). length row = HIST_CMDLEN \<and> terminated row \<and> plain (cstr row))"

text \<open>The concrete state represents the abstract one.\<close>

definition rl_rel :: "history \<Rightarrow> nat \<Rightarrow> readline \<Rightarrow> editor \<Rightarrow> bool" where
  "rl_rel h sz rl ed \<longleftrightarrow> sz \<le> HIST_CMDLEN \<and> sz \<le> length (rl_buf rl) \<and> length (rl_saved rl) = HIST_CMDLEN \<and>
     rl_len rl < sz \<and> rl_len rl = length (ed_left ed) + length (ed_right ed) \<and> rl_cur rl = length (ed_left ed) \<and>
     take (rl_len rl) (rl_buf rl) = ed_left ed @ ed_right ed \<and> plain (ed_left ed @ ed_right ed) \<and>
     rl_browse rl = ed_entry ed \<and> hist_total h - HIST_MAX \<le> ed_entry ed \<and> ed_entry ed \<le> hist_total h \<and>
     (ed_entry ed < hist_total h \<longrightarrow> rl_saved_len rl = length (ed_draft ed) \<and> length (ed_draft ed) < sz \<and>
        take (rl_saved_len rl) (rl_saved rl) = ed_draft ed \<and> plain (ed_draft ed))"

text \<open>Keys that \<open>getCharEx\<close> returns, apart from Enter.\<close>

definition edit_key :: "int \<Rightarrow> bool" where
  "edit_key ch \<longleftrightarrow> 0 < ch \<and> ch \<noteq> 10 \<and> (ch < 128 \<or> 256 \<le> ch \<and> ch \<le> 262)"

text \<open>One key of the code against one key of the editor and the terminal.\<close>

definition key_ok :: "history \<Rightarrow> nat \<Rightarrow> editor \<Rightarrow> editor \<Rightarrow> console \<Rightarrow> (readline \<times> console) option \<Rightarrow> bool" where
  "key_ok h sz ed ed' con res \<longleftrightarrow> (\<exists>rl' out. res = Some (rl', puts out con) \<and> rl_rel h sz rl' ed' \<and>
     (\<forall>pre st. shown pre (ed_left ed) (ed_right ed) st \<longrightarrow> shown pre (ed_left ed') (ed_right ed') (term_run out st)))"

lemma key_okI:
  assumes "res = Some (rl', puts out con)" "rl_rel h sz rl' ed'"
    and "\<And>pre st. shown pre (ed_left ed) (ed_right ed) st \<Longrightarrow> shown pre (ed_left ed') (ed_right ed') (term_run out st)"
  shows "key_ok h sz ed ed' con res"
  using assms by (auto simp: key_ok_def)

lemma key_ok_same: "rl_rel h sz rl ed \<Longrightarrow> key_ok h sz ed ed con (Some (rl, con))"
  by (rule key_okI [of _ rl "[]"]) simp_all

lemma rl_relD:
  assumes "rl_rel h sz rl ed"
  shows "rl_len rl = length (ed_left ed) + length (ed_right ed)" "rl_cur rl = length (ed_left ed)" "rl_len rl < length (rl_buf rl)"
    "take (rl_len rl) (rl_buf rl) = ed_left ed @ ed_right ed" "plain (ed_left ed)" "plain (ed_right ed)"
    "bslice (rl_cur rl) (rl_len rl - rl_cur rl) (rl_buf rl) = ed_right ed" "take (rl_cur rl) (rl_buf rl) = ed_left ed" "rl_len rl < sz" "sz \<le> length (rl_buf rl)"
proof -
  show a: "rl_len rl = length (ed_left ed) + length (ed_right ed)" "rl_cur rl = length (ed_left ed)" "rl_len rl < length (rl_buf rl)"
    "plain (ed_left ed)" "plain (ed_right ed)" "rl_len rl < sz" "sz \<le> length (rl_buf rl)"
    using assms by (auto simp: rl_rel_def)
  show t: "take (rl_len rl) (rl_buf rl) = ed_left ed @ ed_right ed" using assms unfolding rl_rel_def by blast
  have "drop (rl_cur rl) (take (rl_len rl) (rl_buf rl)) = ed_right ed" using a t by simp
  then show "bslice (rl_cur rl) (rl_len rl - rl_cur rl) (rl_buf rl) = ed_right ed" by (simp add: bslice_def drop_take)
  have "take (rl_cur rl) (take (rl_len rl) (rl_buf rl)) = ed_left ed" using a t by simp
  then show "take (rl_cur rl) (rl_buf rl) = ed_left ed" using a by (simp add: min_absorb1)
qed

text \<open>Only the line and the cursor have changed.\<close>

lemma rl_rel_edit:
  assumes "rl_rel h sz rl ed" "length buf = length (rl_buf rl)" "length l + length r < sz" "take (length l + length r) buf = l @ r" "plain (l @ r)"
  shows "rl_rel h sz (rl\<lparr> rl_buf := buf, rl_len := length l + length r, rl_cur := length l \<rparr>) (ed\<lparr> ed_left := l, ed_right := r \<rparr>)"
  using assms unfolding rl_rel_def by auto

lemma move_ok:
  assumes rel: "rl_rel h sz rl ed" and ed: "ed_left ed @ ed_right ed = l @ r"
    and out: "\<And>pre st. shown pre (ed_left ed) (ed_right ed) st \<Longrightarrow> shown pre l r (term_run out st)"
  shows "key_ok h sz ed (ed\<lparr> ed_left := l, ed_right := r \<rparr>) con (Some (rl\<lparr> rl_cur := length l \<rparr>, puts out con))"
proof (rule key_okI [OF refl])
  have "length l + length r = length (ed_left ed) + length (ed_right ed)" using arg_cong [OF ed, of length] by simp
  moreover have "plain (ed_left ed @ ed_right ed)" using rl_relD(5,6) [OF rel] by simp
  then have "plain (l @ r)" by (simp only: ed)
  ultimately show "rl_rel h sz (rl\<lparr> rl_cur := length l \<rparr>) (ed\<lparr> ed_left := l, ed_right := r \<rparr>)"
    using rel unfolding rl_rel_def by (auto simp: ed)
qed (use out in simp)

lemma cursor_keys_ok:
  assumes rel: "rl_rel h sz rl ed" and ch: "ch \<in> {KEY_LEFT, KEY_RIGHT, KEY_HOME, KEY_END}"
  shows "key_ok h sz ed (ed_key h sz ch ed) con (readline_key h sz ch rl con)"
proof -
  note d = rl_relD [OF rel]
  let ?l = "ed_left ed" and ?r = "ed_right ed"
  note o = shown_out [OF _ d(5,6)]
  have same: "ed\<lparr> ed_left := ?l, ed_right := ?r \<rparr> = ed" by simp
  consider "ch = KEY_LEFT" "?l = []" | l' x where "ch = KEY_LEFT" "?l = l' @ [x]" | "ch = KEY_RIGHT" "?r = []" | x r' where "ch = KEY_RIGHT" "?r = x # r'"
    | "ch = KEY_HOME" | "ch = KEY_END"
    using ch by (cases ?l rule: rev_cases; cases ?r) auto
  then show ?thesis
  proof cases
    case 1
    then show ?thesis using d rel by (simp add: readline_key_def ed_key_def key_codes key_ok_same)
  next
    case (2 l' x)
    then show ?thesis
      using move_ok [OF rel, of l' "x # ?r" "[8]" con] o(4) [of _ _ l' x] d by (simp add: readline_key_def ed_key_def key_codes)
  next
    case 3
    then show ?thesis using d rel by (simp add: readline_key_def ed_key_def key_codes key_ok_same)
  next
    case (4 x r')
    have "rl_buf rl ! rl_cur rl = take (rl_len rl) (rl_buf rl) ! rl_cur rl" using d(1,2) 4 by simp
    then have "rl_buf rl ! rl_cur rl = x" unfolding d(4) using d(2) 4 by (simp add: nth_append)
    then show ?thesis
      using move_ok [OF rel, of "?l @ [x]" r' "[x]" con] o(5) [of _ _ x r'] d(1-3) 4 by (simp add: readline_key_def ed_key_def key_codes)
  next
    case 5
    then show ?thesis
      using move_ok [OF rel, of "[]" "?l @ ?r" "replicate (length ?l) 8" con] o(6) d(1,2)
      by (simp add: readline_key_def ed_key_def key_codes put_times_eq concat_replicate_single)
  next
    case 6
    then show ?thesis
      using move_ok [OF rel, of "?l @ ?r" "[]" ?r con] o(7) d(1-3,7) put_range_eq [of "rl_cur rl" "rl_len rl - rl_cur rl" "rl_buf rl" con]
      by (simp add: readline_key_def ed_key_def key_codes max_def)
  qed
qed

text \<open>Deleting and inserting.\<close>

lemma take_line: "take n buf = a @ b \<Longrightarrow> n \<le> length buf \<Longrightarrow> n = length a + length b \<Longrightarrow> bslice (length a) (length b) buf = b"
  by (metis add_diff_cancel_left' append_eq_conv_conj bslice_def drop_take)

lemma delete_at_eq:
  assumes buf: "take (rl_len rl) (rl_buf rl) = a @ x # b" "rl_len rl = length a + length b + 1" "rl_len rl < length (rl_buf rl)"
    and cur: "rl_cur rl = (if back then length a + 1 else length a)"
  shows "delete_at rl back con = Some (rl\<lparr> rl_buf := overwrite (rl_buf rl) (length a) b, rl_len := length a + length b, rl_cur := length a \<rparr>,
    puts ((if back then [8] else []) @ b @ 32 # replicate (length b + 1) 8) con)"
    "take (length a + length b) (overwrite (rl_buf rl) (length a) b) = a @ b"
proof -
  have c: "(if back then rl_cur rl - 1 else rl_cur rl) = length a" using cur by simp
  have b1: "bslice (Suc (length a)) (length b) (rl_buf rl) = b" using take_line [of _ _ "a @ [x]" b] buf by simp
  have ta: "take (length a) (rl_buf rl) = a"
    using arg_cong [OF buf(1), of "take (length a)"] buf(2) by (simp add: min_absorb1)
  show tk: "take (length a + length b) (overwrite (rl_buf rl) (length a) b) = a @ b"
    using buf(2,3) ta by (simp add: overwrite_def)
  have l: "length (overwrite (rl_buf rl) (length a) b) = length (rl_buf rl)" using buf(2,3) by (simp add: length_overwrite)
  have b2: "bslice (length a) (length b) (overwrite (rl_buf rl) (length a) b) = b" using take_line [OF tk] l buf(2,3) by simp
  have g: "close_gap (rl_buf rl) (length a) (length b) = Some (overwrite (rl_buf rl) (length a) b)"
    using close_gap_eq [of "length a" "length b" "rl_buf rl"] b1 buf(2,3) by simp
  have p: "put_range (overwrite (rl_buf rl) (length a) b) (length a) (length b) con = Some (puts b con)" for con
    using put_range_eq [of "length a" "length b" "overwrite (rl_buf rl) (length a) b"] b2 l buf(2,3) by simp
  show "delete_at rl back con = Some (rl\<lparr> rl_buf := overwrite (rl_buf rl) (length a) b, rl_len := length a + length b, rl_cur := length a \<rparr>,
      puts ((if back then [8] else []) @ b @ 32 # replicate (length b + 1) 8) con)"
    unfolding delete_at_def redraw_tail_def c Let_def
    using g p buf(2) by (simp add: put_times_eq concat_replicate_single)
qed

lemma delete_keys_ok:
  assumes rel: "rl_rel h sz rl ed" and ch: "ch \<in> {8, KEY_DEL}"
  shows "key_ok h sz ed (ed_key h sz ch ed) con (readline_key h sz ch rl con)"
proof -
  note d = rl_relD [OF rel]
  let ?l = "ed_left ed" and ?r = "ed_right ed"
  note o = shown_out [OF _ d(5,6)]
  consider "ch = 8" "?l = []" | l' x where "ch = 8" "?l = l' @ [x]" | "ch = KEY_DEL" "?r = []" | x r' where "ch = KEY_DEL" "?r = x # r'"
    using ch by (cases ?l rule: rev_cases; cases ?r) auto
  then show ?thesis
  proof cases
    case 1
    then have "ed_key h sz ch ed = ed" by (cases ed) (simp add: ed_key_def key_codes)
    moreover have "readline_key h sz ch rl con = Some (rl, con)" using 1 d(1,2) by (simp add: readline_key_def key_codes)
    ultimately show ?thesis using key_ok_same [OF rel] by simp
  next
    case (2 l' x)
    note del = delete_at_eq [of rl l' x ?r True]
    have buf: "take (rl_len rl) (rl_buf rl) = l' @ x # ?r" "rl_len rl = length l' + length ?r + 1" "rl_cur rl = length l' + 1" using d(1,2,4) 2 by simp_all
    have "rl_rel h sz (rl\<lparr> rl_buf := overwrite (rl_buf rl) (length l') ?r, rl_len := length l' + length ?r, rl_cur := length l' \<rparr>)
        (ed\<lparr> ed_left := l', ed_right := ?r \<rparr>)"
      using rl_rel_edit [OF rel, of "overwrite (rl_buf rl) (length l') ?r" l' ?r] del buf d(3,5,6,9) 2 by (simp add: length_overwrite)
    then have "key_ok h sz ed (ed\<lparr> ed_left := l', ed_right := ?r \<rparr>) con (delete_at rl True con)"
      using del buf d(3) o(2) [of _ _ l' x] 2 by (intro key_okI [OF del(1)]) auto
    then show ?thesis using 2 buf(3) by (simp add: readline_key_def ed_key_def key_codes)
  next
    case 3
    then have "ed_key h sz ch ed = ed" by (cases ed) (simp add: ed_key_def key_codes)
    moreover have "readline_key h sz ch rl con = Some (rl, con)" using 3 d(1,2) by (simp add: readline_key_def key_codes)
    ultimately show ?thesis using key_ok_same [OF rel] by simp
  next
    case (4 x r')
    note del = delete_at_eq [of rl ?l x r' False]
    have buf: "take (rl_len rl) (rl_buf rl) = ?l @ x # r'" "rl_len rl = length ?l + length r' + 1" "rl_cur rl = length ?l" using d(1,2,4) 4 by simp_all
    have "rl_rel h sz (rl\<lparr> rl_buf := overwrite (rl_buf rl) (length ?l) r', rl_len := length ?l + length r', rl_cur := length ?l \<rparr>)
        (ed\<lparr> ed_left := ?l, ed_right := r' \<rparr>)"
      using rl_rel_edit [OF rel, of "overwrite (rl_buf rl) (length ?l) r'" ?l r'] del buf d(3,5,6,9) 4 by (simp add: length_overwrite)
    then have "key_ok h sz ed (ed\<lparr> ed_left := ?l, ed_right := r' \<rparr>) con (delete_at rl False con)"
      using del buf d(3) o(3) [of _ _ x r'] 4 by (intro key_okI [OF del(1)]) auto
    then show ?thesis using 4 buf(2,3) by (simp add: readline_key_def ed_key_def key_codes)
  qed
qed

lemma insert_key_ok:
  assumes rel: "rl_rel h sz rl ed" and ch: "0 < ch" "ch < 128" "ch \<noteq> 8" and room: "rl_len rl < sz - 1"
  shows "key_ok h sz ed (ed_key h sz ch ed) con (readline_key h sz ch rl con)"
proof -
  note d = rl_relD [OF rel]
  let ?l = "ed_left ed" and ?r = "ed_right ed" and ?c = "word_of_int ch :: u8" and ?buf = "rl_buf rl"
  have pc: "plain [?c]"
  proof -
    have "uint ?c = ch" using ch by (simp add: unsigned_of_int take_bit_int_eq_self)
    then show ?thesis using ch by auto
  qed
  let ?b1 = "overwrite ?buf (Suc (length ?l)) ?r" and ?b2 = "overwrite ?buf (length ?l) (?c # ?r)"
  have g: "open_gap ?buf (length ?l) (length ?r) = Some ?b1"
    using open_gap_eq [of "length ?l" "length ?r" ?buf] d(1,2,3,7) by simp
  have u: "?b1[length ?l := ?c] = ?b2"
  proof -
    have "take (Suc (length ?l)) ?buf = take (length ?l) ?buf @ [?buf ! length ?l]" using d(1,3) by (simp add: take_Suc_conv_app_nth)
    then show ?thesis using d(1,3) by (simp add: overwrite_def list_update_append)
  qed
  have l: "length ?b1 = length ?buf" "length ?b2 = length ?buf" using d(1,3) by (simp_all add: length_overwrite)
  have tk: "take (length (?l @ [?c]) + length ?r) ?b2 = (?l @ [?c]) @ ?r"
    using d(1,2,3,8) by (simp add: overwrite_def)
  have p: "put_range ?b2 (length ?l) (Suc (length ?r)) con = Some (puts (?c # ?r) con)"
    using put_range_eq [of "length ?l" "Suc (length ?r)" ?b2 con] take_line [of _ ?b2 ?l "?c # ?r"] tk l d(1,3) by simp
  have rel': "rl_rel h sz (rl\<lparr> rl_buf := ?b2, rl_len := length (?l @ [?c]) + length ?r, rl_cur := length (?l @ [?c]) \<rparr>) (ed\<lparr> ed_left := ?l @ [?c], ed_right := ?r \<rparr>)"
    using tk l(2) d(1,5,6,9) room pc by (intro rl_rel_edit [OF rel]) auto
  have run: "insert_char sz ch rl con = Some (rl\<lparr> rl_buf := ?b2, rl_len := length (?l @ [?c]) + length ?r, rl_cur := length (?l @ [?c]) \<rparr>,
      puts ((?c # ?r) @ replicate (length ?r) 8) con)"
    unfolding insert_char_def Let_def
    using g u p l(1) d(1,2,3) room by (simp add: put_times_eq concat_replicate_single del: put_range.simps)
  have "key_ok h sz ed (ed\<lparr> ed_left := ?l @ [?c], ed_right := ?r \<rparr>) con (insert_char sz ch rl con)"
    by (rule key_okI [OF run rel']) (use shown_out(1) [OF _ d(5,6) pc] in simp)
  then show ?thesis using ch by (simp add: readline_key_def ed_key_def key_codes)
qed

text \<open>Browsing the history.\<close>

lemma plain_take: "plain cs \<Longrightarrow> plain (take n cs)"
  by (auto simp: plain_def list_all_iff dest: in_set_takeD)

lemma show_entry_ok:
  assumes rel: "rl_rel h sz rl ed" and h: "hist_ok h"
    and saved: "rl_saved_len rl = length (ed_draft ed)" "length (ed_draft ed) < sz" "take (rl_saved_len rl) (rl_saved rl) = ed_draft ed" "plain (ed_draft ed)"
  shows "key_ok h sz ed (ed_show h sz ed) con (show_entry h sz rl con)"
proof -
  note d = rl_relD [OF rel]
  let ?l = "ed_left ed" and ?r = "ed_right ed" and ?buf = "rl_buf rl"
  have e: "rl_browse rl = ed_entry ed" "length (rl_saved rl) = HIST_CMDLEN" "sz \<le> HIST_CMDLEN" using rel by (simp_all add: rl_rel_def)
  define full where "full = (if ed_entry ed = hist_total h then ed_draft ed else hist_line h (ed_entry ed))"
  have "\<exists>src. (if rl_browse rl = hist_total h then Some (rl_saved rl, rl_saved_len rl)
        else do { src \<leftarrow> idx (hist_buf h) (rl_browse rl mod HIST_MAX); slen \<leftarrow> strlen src; Some (src, slen) }) = Some (src, length full) \<and>
      length full \<le> length src \<and> take (length full) src = full \<and> plain full"
  proof (cases "ed_entry ed = hist_total h")
    case True
    then show ?thesis using saved e by (simp add: full_def)
  next
    case False
    let ?row = "hist_buf h ! (ed_entry ed mod HIST_MAX)"
    have "ed_entry ed mod HIST_MAX < length (hist_buf h)" using h by (simp add: hist_ok_def HIST_MAX_def)
    then have row: "terminated ?row" "plain (cstr ?row)" "idx (hist_buf h) (ed_entry ed mod HIST_MAX) = Some ?row"
      using h by (auto simp: hist_ok_def)
    moreover have "take (length (cstr ?row)) ?row = cstr ?row" by (simp add: cstr_def takeWhile_eq_take [symmetric])
    moreover have "length (cstr ?row) \<le> length ?row" using length_cstr_less [OF row(1)] by simp
    ultimately show ?thesis using False e by (simp add: full_def hist_line_def strlen_eq)
  qed
  then obtain src where src: "(if rl_browse rl = hist_total h then Some (rl_saved rl, rl_saved_len rl)
        else do { src \<leftarrow> idx (hist_buf h) (rl_browse rl mod HIST_MAX); slen \<leftarrow> strlen src; Some (src, slen) }) = Some (src, length full)"
      "length full \<le> length src" "take (length full) src = full" "plain full" by blast
  define new where "new = take (sz - 1) full"
  have n: "(if length full \<ge> sz then sz - 1 else length full) = length new" "length new < sz" "plain new" "ed_show h sz ed = ed\<lparr> ed_left := new, ed_right := [] \<rparr>"
    using d(9) src(4) by (auto simp: new_def plain_take ed_show_def full_def min_def)
  have tn: "take (length new) src = new"
  proof -
    have "length new \<le> length full" by (simp add: new_def)
    then have "take (length new) src = take (length new) (take (length full) src)" by (simp add: min_absorb1)
    also have "\<dots> = new" unfolding src(3) by (simp add: new_def min_def)
    finally show ?thesis .
  qed
  let ?b = "new @ drop (length new) ?buf"
  have cp: "memcpy ?buf src (length new) = Some ?b"
    using n(2) d(10) src(2) tn by (simp add: memcpy_eq new_def)
  have len: "length ?b = length ?buf" using n(2) d(10) by simp
  have er: "erase_line ?buf (rl_cur rl) (rl_len rl) con = Some (puts (?r @ concat (replicate (length ?l + length ?r) [8, 32, 8])) con)"
    using put_range_eq [of "rl_cur rl" "rl_len rl - rl_cur rl" ?buf con] d(1,2,3,7) by (simp add: erase_line_def put_times_eq)
  have pr: "put_range ?b 0 (length new) con = Some (puts new con)" for con
    using put_range_eq [of 0 "length new" ?b con] by (simp add: bslice_def)
  have rel': "rl_rel h sz (rl\<lparr> rl_buf := ?b, rl_len := length new + length ([] :: bytes), rl_cur := length new \<rparr>) (ed\<lparr> ed_left := new, ed_right := [] \<rparr>)"
    using n len by (intro rl_rel_edit [OF rel]) auto
  have run: "show_entry h sz rl con = Some (rl\<lparr> rl_buf := ?b, rl_len := length new + length ([] :: bytes), rl_cur := length new \<rparr>,
      puts (?r @ concat (replicate (length ?l + length ?r) [8, 32, 8]) @ new) con)"
    unfolding show_entry_def Let_def using er src(1) n(1) cp pr by simp
  show ?thesis unfolding n(4)
    by (rule key_okI [OF run rel']) (use shown_out(8) [OF _ d(5,6) n(3)] in simp)
qed

lemma history_keys_ok:
  assumes rel: "rl_rel h sz rl ed" and h: "hist_ok h" and ch: "ch \<in> {KEY_UP, KEY_DOWN}"
  shows "key_ok h sz ed (ed_key h sz ch ed) con (readline_key h sz ch rl con)"
proof -
  note d = rl_relD [OF rel]
  have e: "rl_browse rl = ed_entry ed" "hist_total h - HIST_MAX \<le> ed_entry ed" "ed_entry ed \<le> hist_total h" "length (rl_saved rl) = HIST_CMDLEN" "sz \<le> HIST_CMDLEN"
    using rel by (simp_all add: rl_rel_def)
  have stay: ?thesis if "ed_key h sz ch ed = ed" "readline_key h sz ch rl con = Some (rl, con)"
    using that key_ok_same [OF rel] by simp
  have entry: ?thesis if "ed_key h sz ch ed = ed_show h sz ed1" "readline_key h sz ch rl con = show_entry h sz rl1 con"
      "rl_rel h sz rl1 ed1" "rl_saved_len rl1 = length (ed_draft ed1)" "length (ed_draft ed1) < sz"
      "take (rl_saved_len rl1) (rl_saved rl1) = ed_draft ed1" "plain (ed_draft ed1)" "ed_left ed1 = ed_left ed" "ed_right ed1 = ed_right ed" for ed1 rl1
    using show_entry_ok [OF that(3) h that(4-7), of con] that(1,2,8,9) by (simp add: key_ok_def)
  consider "ch = KEY_UP" "ed_entry ed \<le> hist_total h - HIST_MAX" | "ch = KEY_UP" "\<not> ed_entry ed \<le> hist_total h - HIST_MAX" "ed_entry ed = hist_total h"
    | "ch = KEY_UP" "\<not> ed_entry ed \<le> hist_total h - HIST_MAX" "ed_entry ed \<noteq> hist_total h"
    | "ch = KEY_DOWN" "ed_entry ed \<ge> hist_total h" | "ch = KEY_DOWN" "\<not> ed_entry ed \<ge> hist_total h"
    using ch by blast
  then show ?thesis
  proof cases
    case 1
    then show ?thesis using e by (intro stay) (simp_all add: ed_key_def readline_key_def browse_up_def key_codes)
  next
    case 2
    let ?line = "ed_left ed @ ed_right ed"
    let ?s = "(?line @ drop (rl_len rl) (rl_saved rl))[rl_len rl := 0]"
    let ?ed = "ed\<lparr> ed_entry := ed_entry ed - 1, ed_draft := ?line \<rparr>"
    let ?rl = "rl\<lparr> rl_saved := ?s, rl_saved_len := rl_len rl, rl_browse := ed_entry ed - 1 \<rparr>"
    have cp: "memcpy (rl_saved rl) (rl_buf rl) (rl_len rl) = Some (?line @ drop (rl_len rl) (rl_saved rl))"
      using d(3,4,9) e by (simp add: memcpy_eq)
    have len: "length (?line @ drop (rl_len rl) (rl_saved rl)) = HIST_CMDLEN" "rl_len rl < HIST_CMDLEN" using d(1,9) e by simp_all
    have tk: "take (rl_len rl) ?s = ?line" using d(1) by simp
    have rel': "rl_rel h sz ?rl ?ed"
      using rel tk d(1,5,6,9) 2 e len unfolding rl_rel_def by auto
    show ?thesis
      by (rule entry [of ?ed ?rl])
        (use 2 e cp len d(1,5,6,9) tk rel' in \<open>simp_all add: ed_key_def readline_key_def browse_up_def key_codes\<close>)
  next
    case 3
    let ?ed = "ed\<lparr> ed_entry := ed_entry ed - 1 \<rparr>" and ?rl = "rl\<lparr> rl_browse := ed_entry ed - 1 \<rparr>"
    have s: "rl_saved_len rl = length (ed_draft ed)" "length (ed_draft ed) < sz" "take (rl_saved_len rl) (rl_saved rl) = ed_draft ed" "plain (ed_draft ed)"
      using rel 3 e(3) unfolding rl_rel_def by auto
    have "rl_rel h sz ?rl ?ed" using rel 3 e unfolding rl_rel_def by auto
    then show ?thesis
      using 3 e s by (intro entry [of ?ed ?rl]) (simp_all add: ed_key_def readline_key_def browse_up_def key_codes)
  next
    case 4
    then show ?thesis using e by (intro stay) (simp_all add: ed_key_def readline_key_def browse_down_def key_codes)
  next
    case 5
    let ?ed = "ed\<lparr> ed_entry := ed_entry ed + 1 \<rparr>" and ?rl = "rl\<lparr> rl_browse := ed_entry ed + 1 \<rparr>"
    have s: "rl_saved_len rl = length (ed_draft ed)" "length (ed_draft ed) < sz" "take (rl_saved_len rl) (rl_saved rl) = ed_draft ed" "plain (ed_draft ed)"
      using rel 5 unfolding rl_rel_def by auto
    have "rl_rel h sz ?rl ?ed" using rel 5 e unfolding rl_rel_def by auto
    then show ?thesis
      using 5 e s by (intro entry [of ?ed ?rl]) (simp_all add: ed_key_def readline_key_def browse_down_def key_codes)
  qed
qed

lemma readline_key_ok:
  assumes "rl_rel h sz rl ed" "hist_ok h" "edit_key ch" "rl_len rl < sz - 1"
  shows "key_ok h sz ed (ed_key h sz ch ed) con (readline_key h sz ch rl con)"
proof -
  consider "ch \<in> {8, KEY_DEL}" | "ch \<in> {KEY_LEFT, KEY_RIGHT, KEY_HOME, KEY_END}" | "ch \<in> {KEY_UP, KEY_DOWN}" | "0 < ch" "ch < 128" "ch \<noteq> 8"
  proof -
    have "0 < ch \<and> ch < 128 \<or> ch = 256 \<or> ch = 257 \<or> ch = 258 \<or> ch = 259 \<or> ch = 260 \<or> ch = 261 \<or> ch = 262"
      using assms(3) unfolding edit_key_def by presburger
    then show thesis using that by (auto simp: key_codes)
  qed
  then show ?thesis
    by cases (rule delete_keys_ok [OF assms(1)] cursor_keys_ok [OF assms(1)] history_keys_ok [OF assms(1,2)] insert_key_ok [OF assms(1) _ _ _ assms(4)]; assumption)+
qed

text \<open>C37: The line editor. Every key that \<open>getCharEx\<close> can return, pressed in any state of the editor, is handled
  without leaving a buffer. The state keeps representing a line split at the cursor, changed exactly as the key
  says (typed, deleted before or behind the cursor, moved, replaced by an entry of the history or by the draft), and
  a terminal that showed the line with the cursor in its place shows the new line with the cursor in its new place.\<close>

theorem readline_key_refines:
  assumes "rl_rel h sz rl ed" "hist_ok h" "edit_key ch" "rl_len rl < sz - 1"
    and "shown pre (ed_left ed) (ed_right ed) (term_run (screen con) st)"
  defines "ed' \<equiv> ed_key h sz ch ed"
  shows "\<exists>rl' con'. readline_key h sz ch rl con = Some (rl', con') \<and> rl_rel h sz rl' ed' \<and>
    shown pre (ed_left ed') (ed_right ed') (term_run (screen con') st)"
proof -
  obtain rl' out where k: "readline_key h sz ch rl con = Some (rl', puts out con)" "rl_rel h sz rl' ed'"
    and o: "\<And>pre st. shown pre (ed_left ed) (ed_right ed) st \<Longrightarrow> shown pre (ed_left ed') (ed_right ed') (term_run out st)"
    using readline_key_ok [OF assms(1-4), of con] by (auto simp: key_ok_def ed'_def)
  have "term_run (screen (puts out con)) st = term_run out (term_run (screen con) st)" by simp
  then show ?thesis using k o [OF assms(5)] by metis
qed

section \<open>A whole line\<close>

text \<open>The keys that a sequence of scan codes presses.\<close>

fun pressed :: "bool \<Rightarrow> u8 list \<Rightarrow> int list" where
  "pressed shift [] = []"
| "pressed shift (code # cs) =
    (if code = 0xE0 then
       (case cs of [] \<Rightarrow> []
        | c # cs' \<Rightarrow> (case extended_key c of Some k \<Rightarrow> k # pressed shift cs' | None \<Rightarrow> pressed shift cs'))
     else if code = 0x2A \<or> code = 0x36 then pressed True cs
     else if code = 0xAA \<or> code = 0xB6 then pressed False cs
     else if code AND 0x80 \<noteq> 0 \<or> code = 0 \<or> codeToChar shift code = 0 then pressed shift cs
     else sint (codeToChar shift code) # pressed shift cs)"

abbreviation keys :: "console \<Rightarrow> int list" where
  "keys con \<equiv> pressed (g_shift con) (codes (kbd con))"

lemma pressed_keys: "k \<in> set (pressed shift cs) \<Longrightarrow> k = 10 \<or> edit_key k"
proof (induction shift cs rule: pressed.induct)
  case (2 shift code cs)
  have ext: "edit_key k" if "extended_key c = Some k" for c k
    using that by (auto simp: extended_key_def edit_key_def key_codes split: if_splits)
  have chr: "sint (codeToChar shift code) = 10 \<or> edit_key (sint (codeToChar shift code))" if "codeToChar shift code \<noteq> 0"
  proof -
    have a: "codeToChar shift code < 128" by (rule codeToChar_ascii)
    then have u: "uint (codeToChar shift code) < 128" by (simp add: word_less_def)
    have n: "uint (codeToChar shift code) \<noteq> 0" using that by (simp add: word_uint_eq_iff)
    have "0 \<le> uint (codeToChar shift code)" by (rule uint_ge_0)
    with n have "0 < uint (codeToChar shift code)" by linarith
    then show ?thesis using u unfolding sint_ascii [OF a] edit_key_def by presburger
  qed
  show ?case
  proof (cases "code = 0xE0")
    case True
    show ?thesis
    proof (cases cs)
      case (Cons c cs')
      show ?thesis
      proof (cases "extended_key c")
        case None
        then show ?thesis using 2(1) 2(7) True Cons by simp
      next
        case (Some k')
        then show ?thesis using 2(2) 2(7) True Cons ext [of c k'] by auto
      qed
    qed (use 2(7) True in \<open>simp\<close>)
  next
    case False
    then show ?thesis using 2(3-6) 2(7) chr by (auto split: if_splits)
  qed
qed simp

text \<open>\<open>getCharEx\<close> returns the next key, and waits when there is none.\<close>

lemma getCharEx_keys:
  assumes "con_ok con"
  shows "case keys con of
      [] \<Rightarrow> getCharEx con = None
    | k # ks \<Rightarrow> \<exists>con'. getCharEx con = Some (k, con') \<and> keys con' = ks \<and> con_ok con' \<and> wrote con [] con'"
  using assms
proof (induction "length (codes (kbd con))" arbitrary: con rule: less_induct)
  case less
  show ?case
  proof (cases "codes (kbd con)")
    case Nil
    then show ?thesis using readKeyData_Nil [OF less.prems] by (simp add: getCharEx.simps [of con])
  next
    case (Cons code cs)
    obtain con' where r: "readKeyData con = Some (code, con')" "codes (kbd con') = cs" "con_ok con'"
      "g_shift con' = g_shift con" "wrote con [] con'"
      using readKeyData_Cons [OF less.prems Cons] .
    have skip: ?thesis if "getCharEx con = getCharEx con''" "length (codes (kbd con'')) < length (codes (kbd con))" "con_ok con''" "keys con = keys con''" "wrote con [] con''" for con''
      using less.hyps [of con''] that wrote_trans [OF that(5), of "[]"] by (auto cong: list.case_cong split: list.splits)
    have shift: "wrote con [] (con'\<lparr> g_shift := s \<rparr>)" for s using r(5) by (simp add: wrote_def)
    consider "code = 0xE0" | "code \<noteq> 0xE0" "code = 0x2A \<or> code = 0x36" | "code \<noteq> 0xE0" "\<not> (code = 0x2A \<or> code = 0x36)" "code = 0xAA \<or> code = 0xB6"
      | "code \<noteq> 0xE0" "\<not> (code = 0x2A \<or> code = 0x36)" "\<not> (code = 0xAA \<or> code = 0xB6)" "code AND 0x80 \<noteq> 0 \<or> code = 0 \<or> codeToChar (g_shift con) code = 0"
      | "code \<noteq> 0xE0" "\<not> (code = 0x2A \<or> code = 0x36)" "\<not> (code = 0xAA \<or> code = 0xB6)" "\<not> (code AND 0x80 \<noteq> 0 \<or> code = 0 \<or> codeToChar (g_shift con) code = 0)"
      by blast
    then show ?thesis
    proof cases
      case 1
      show ?thesis
      proof (cases cs)
        case Nil
        then show ?thesis using 1 r Cons readKeyData_Nil [of con'] by (simp add: getCharEx.simps [of con])
      next
        case c: (Cons c cs')
        obtain con2 where r2: "readKeyData con' = Some (c, con2)" "codes (kbd con2) = cs'" "con_ok con2"
          "g_shift con2 = g_shift con'" "wrote con' [] con2"
          using readKeyData_Cons [OF r(3)] r(2) c by metis
        have w: "wrote con [] con2" using wrote_trans [OF r(5) r2(5)] by simp
        show ?thesis
        proof (cases "extended_key c")
          case None
          then show ?thesis using 1 r r2 w Cons c by (intro skip [of con2]) (simp_all add: getCharEx.simps [of con])
        next
          case (Some k)
          then show ?thesis using 1 r r2 w Cons c by (simp add: getCharEx.simps [of con])
        qed
      qed
    next
      case 2
      then show ?thesis using r shift Cons by (intro skip [of "con'\<lparr> g_shift := True \<rparr>"]) (auto simp: getCharEx.simps [of con])
    next
      case 3
      then show ?thesis using r shift Cons by (intro skip [of "con'\<lparr> g_shift := False \<rparr>"]) (auto simp: getCharEx.simps [of con])
    next
      case 4
      then show ?thesis using r Cons by (intro skip [of con']) (auto simp: getCharEx.simps [of con] Let_def)
    next
      case 5
      then show ?thesis using r Cons by (auto simp: getCharEx.simps [of con] Let_def)
    qed
  qed
qed

text \<open>The editor run over a sequence of keys, until Enter or until the line is full.\<close>

fun ed_run :: "history \<Rightarrow> nat \<Rightarrow> int list \<Rightarrow> editor \<Rightarrow> (editor \<times> int list \<times> bool) option" where
  "ed_run h sz [] ed = (if length (ed_left ed) + length (ed_right ed) < sz - 1 then None else Some (ed, [], False))"
| "ed_run h sz (k # ks) ed =
    (if length (ed_left ed) + length (ed_right ed) < sz - 1 then
       (if k = 10 then Some (ed, ks, True) else ed_run h sz ks (ed_key h sz k ed))
     else Some (ed, k # ks, False))"

definition loop_ok :: "history \<Rightarrow> nat \<Rightarrow> editor \<Rightarrow> console \<Rightarrow> (editor \<times> int list \<times> bool) option \<Rightarrow> (readline \<times> console) option \<Rightarrow> bool" where
  "loop_ok h sz ed con r res \<longleftrightarrow> (case r of
     None \<Rightarrow> res = None
   | Some (ed', rest, entered) \<Rightarrow> \<exists>rl' con' out. res = Some (rl', con') \<and> rl_rel h sz rl' ed' \<and> keys con' = rest \<and> con_ok con' \<and>
       wrote con (out @ (if entered then [10] else [])) con' \<and>
       (\<forall>pre st. shown pre (ed_left ed) (ed_right ed) st \<longrightarrow> shown pre (ed_left ed') (ed_right ed') (term_run out st)))"

lemma loop_ok_step:
  assumes "loop_ok h sz ed1 con1 r res" and w: "wrote con out con1"
    and sh: "\<And>pre st. shown pre (ed_left ed) (ed_right ed) st \<Longrightarrow> shown pre (ed_left ed1) (ed_right ed1) (term_run out st)"
  shows "loop_ok h sz ed con r res"
proof (cases r)
  case None
  then show ?thesis using assms(1) by (simp add: loop_ok_def)
next
  case (Some x)
  obtain ed' rest entered where x: "x = (ed', rest, entered)" by (cases x)
  obtain rl' con' out2 where o: "res = Some (rl', con')" "rl_rel h sz rl' ed'" "keys con' = rest" "con_ok con'"
      "wrote con1 (out2 @ (if entered then [10] else [])) con'"
    and s2: "\<And>pre st. shown pre (ed_left ed1) (ed_right ed1) st \<Longrightarrow> shown pre (ed_left ed') (ed_right ed') (term_run out2 st)"
    using assms(1) unfolding loop_ok_def Some x by auto
  have "shown pre (ed_left ed') (ed_right ed') (term_run (out @ out2) st)" if "shown pre (ed_left ed) (ed_right ed) st" for pre st
    using s2 [OF sh [OF that]] by simp
  moreover have "wrote con ((out @ out2) @ (if entered then [10] else [])) con'" using wrote_trans [OF w o(5)] by simp
  ultimately show ?thesis unfolding loop_ok_def Some x option.case prod.case using o(1-4) by blast
qed

lemma readline_loop_ok:
  assumes "rl_rel h sz rl ed" "hist_ok h" "con_ok con"
  shows "loop_ok h sz ed con (ed_run h sz (keys con) ed) (readline_loop h sz rl con)"
  using assms(1,3)
proof (induction "keys con" arbitrary: con rl ed)
  case Nil
  have none: "getCharEx con = None" using getCharEx_keys [OF Nil.prems(2)] Nil.hyps by simp
  show ?case
  proof (cases "rl_len rl < sz - 1")
    case True
    then show ?thesis using Nil none rl_relD(1) [OF Nil.prems(1)] by (simp add: loop_ok_def readline_loop.simps [of h sz rl])
  next
    case False
    then show ?thesis using Nil rl_relD(1) [OF Nil.prems(1)]
      by (auto simp: loop_ok_def readline_loop.simps [of h sz rl] wrote_refl intro!: exI [of _ "[]"])
  qed
next
  case (Cons k ks)
  show ?case
  proof (cases "rl_len rl < sz - 1")
    case False
    then show ?thesis
      using Cons.prems Cons.hyps(2) [symmetric] rl_relD(1) [OF Cons.prems(1)]
      by (auto simp: loop_ok_def readline_loop.simps [of h sz rl] wrote_refl intro!: exI [of _ "[]"])
  next
    case True
    obtain con1 where g: "getCharEx con = Some (k, con1)" "keys con1 = ks" "con_ok con1" "wrote con [] con1"
      using getCharEx_keys [OF Cons.prems(2)] Cons.hyps(2) [symmetric] by auto
    have room: "length (ed_left ed) + length (ed_right ed) < sz - 1" using True rl_relD(1) [OF Cons.prems(1)] by simp
    show ?thesis
    proof (cases "k = 10")
      case True
      have "wrote con [10] (putChar 10 con1)" using wrote_trans [OF g(4) wrote_ext [of "putChar 10 con1" con1 "[10]"]] by simp
      then show ?thesis
        using True g Cons.prems(1) Cons.hyps(2) [symmetric] room \<open>rl_len rl < sz - 1\<close>
        by (auto simp: loop_ok_def readline_loop.simps [of h sz rl] intro!: exI [of _ "[]"])
    next
      case False
      then have ek: "edit_key k" using pressed_keys [of k "g_shift con" "codes (kbd con)"] Cons.hyps(2) [symmetric] by simp
      let ?ed = "ed_key h sz k ed"
      obtain rl' out where s: "readline_key h sz k rl con1 = Some (rl', puts out con1)" "rl_rel h sz rl' ?ed"
        and sh: "\<And>pre st. shown pre (ed_left ed) (ed_right ed) st \<Longrightarrow> shown pre (ed_left ?ed) (ed_right ?ed) (term_run out st)"
        using readline_key_ok [OF Cons.prems(1) assms(2) ek True, of con1] by (auto simp: key_ok_def)
      have l: "readline_loop h sz rl con = readline_loop h sz rl' (puts out con1)"
        using True False g(1) s(1) by (simp add: readline_loop.simps [of h sz rl])
      have e: "ed_run h sz (keys con) ed = ed_run h sz ks ?ed" using False room Cons.hyps(2) [symmetric] by simp
      have "loop_ok h sz ?ed (puts out con1) (ed_run h sz ks ?ed) (readline_loop h sz rl' (puts out con1))"
        using Cons.hyps(1) [of "puts out con1" rl' ?ed] s(2) g(2,3) by simp
      moreover have "wrote con out (puts out con1)" using wrote_trans [OF g(4) wrote_ext [of "puts out con1" con1 out]] by simp
      ultimately show ?thesis unfolding l e by (rule loop_ok_step) (rule sh)
    qed
  qed
qed

text \<open>Entering the line into the history.\<close>

lemma plain_nonzero: "plain cs \<Longrightarrow> 0 \<notin> set cs"
  by (auto simp: plain_def list_all_iff)

lemma mod_window:
  assumes "a < b" "b < a + n"
  shows "a mod n \<noteq> b mod (n :: nat)"
proof
  assume "a mod n = b mod n"
  then have "n dvd b - a" using assms(1) by (simp add: mod_eq_dvd_iff_nat [symmetric])
  then show False using assms nat_dvd_not_less [of "b - a" n] by auto
qed

lemma remember_ok:
  assumes h: "hist_ok h" and buf: "take (length line + 1) buf = line @ [0]" "length line < length buf" and line: "plain line" "length line < HIST_CMDLEN"
    and tot: "int (hist_total h) < 2 ^ 31 - 1"
  obtains h' where "remember h buf (length line) = Some h'" "hist_ok h'" "hist_total h' = hist_total h + (if line = [] then 0 else 1)"
    "\<And>b. b < hist_total h' \<Longrightarrow> hist_total h' - HIST_MAX \<le> b \<Longrightarrow> hist_line h' b = (if b = hist_total h then line else hist_line h b)"
proof (cases "line = []")
  case True
  then show ?thesis using that [of h] h by (simp add: remember_def)
next
  case False
  let ?i = "hist_total h mod HIST_MAX" and ?t = "hist_total h"
  let ?row = "line @ 0 # drop (length line + 1) (hist_buf h ! ?i)"
  let ?h = "\<lparr> hist_buf = (hist_buf h)[?i := ?row], hist_total = ?t + 1 \<rparr>"
  have i: "?i < length (hist_buf h)" using h by (simp add: hist_ok_def HIST_MAX_def)
  then have len: "length (hist_buf h ! ?i) = HIST_CMDLEN" using h by (auto simp: hist_ok_def)
  have cp: "memcpy (hist_buf h ! ?i) buf (length line + 1) = Some ?row"
    unfolding memcpy_eq buf(1) using len line(2) buf(2) by simp
  have c: "cstr ?row = line" by (rule cstr_append_nul) (rule plain_nonzero [OF line(1)])
  show ?thesis
  proof (rule that [of ?h])
    show "remember h buf (length line) = Some ?h" using False i cp tot by (simp add: remember_def int_range_def)
    have "length ?row = HIST_CMDLEN" "terminated ?row" "plain (cstr ?row)"
      unfolding c using len line by (simp_all add: terminated_def)
    then show "hist_ok ?h" using h set_update_subset_insert [of "hist_buf h" ?i ?row] unfolding hist_ok_def by auto
    show "hist_total ?h = hist_total h + (if line = [] then 0 else 1)" using False by simp
    show "hist_line ?h b = (if b = ?t then line else hist_line h b)" if "b < hist_total ?h" "hist_total ?h - HIST_MAX \<le> b" for b
    proof (cases "b = ?t")
      case True
      then show ?thesis using i c by (simp add: hist_line_def)
    next
      case False
      then have "b mod HIST_MAX \<noteq> ?i" using that by (intro mod_window) (simp_all add: HIST_MAX_def)
      then show ?thesis using False by (simp add: hist_line_def)
    qed
  qed
qed

definition ed_start :: "history \<Rightarrow> editor" where
  "ed_start h = \<lparr> ed_left = [], ed_right = [], ed_entry = hist_total h, ed_draft = [] \<rparr>"

text \<open>C38: The prompt as a whole. The loop of \<open>shell_readline\<close>, fed with any sequence of scan codes, waits for ever
  exactly when the editor run over the keys they press reaches neither Enter nor a full line. Otherwise (as long as the
  \<open>int\<close> that counts the commands does not overflow) it returns the edited line as a terminated string that fits the buffer,
  leaves the remaining keys unread, and appends a non-empty line to the history, whose other visible entries stay. What it
  writes itself lets a terminal show the line with the cursor in its place; what appears on the screen is this output with
  the messages that arrive on the serial port meanwhile printed in between, in order and each in one piece, and exactly
  this output when none arrives.\<close>

theorem shell_readline_correct:
  assumes "con_ok con" "hist_ok h" "0 < sz" "sz \<le> HIST_CMDLEN" "sz \<le> length buf" "length saved0 = HIST_CMDLEN"
    and "int (hist_total h) < 2 ^ 31 - 1"
  shows "case ed_run h sz (keys con) (ed_start h) of
      None \<Rightarrow> shell_readline saved0 h buf sz con = None
    | Some (ed, rest, entered) \<Rightarrow> (let line = ed_left ed @ ed_right ed in
        \<exists>buf' h' con' out. shell_readline saved0 h buf sz con = Some (length line, buf', h', con') \<and>
          length line < sz \<and> take (length line + 1) buf' = line @ [0] \<and> cstr buf' = line \<and>
          hist_ok h' \<and> hist_total h' = hist_total h + (if line = [] then 0 else 1) \<and>
          (\<forall>b. b < hist_total h' \<longrightarrow> hist_total h' - HIST_MAX \<le> b \<longrightarrow> hist_line h' b = (if b = hist_total h then line else hist_line h b)) \<and>
          con_ok con' \<and> keys con' = rest \<and> wrote con (out @ (if entered then [10] else [])) con' \<and>
          (heard con' = heard con \<longrightarrow> screen con' = screen con @ out @ (if entered then [10] else [])) \<and>
          (\<forall>pre st. shown pre [] [] st \<longrightarrow> shown pre (ed_left ed) (ed_right ed) (term_run out st)))"
proof -
  let ?rl = "\<lparr> rl_buf = buf, rl_len = 0, rl_cur = 0, rl_browse = hist_total h, rl_saved = saved0[0 := 0], rl_saved_len = 0 \<rparr>"
  have st: "readline_start h saved0 buf = Some ?rl" using assms(6) by (simp add: readline_start_def HIST_CMDLEN_def)
  have "rl_rel h sz ?rl (ed_start h)" using assms(3-6) by (simp add: rl_rel_def ed_start_def)
  from readline_loop_ok [OF this assms(2,1)]
  have loop: "loop_ok h sz (ed_start h) con (ed_run h sz (keys con) (ed_start h)) (readline_loop h sz ?rl con)" .
  show ?thesis
  proof (cases "ed_run h sz (keys con) (ed_start h)")
    case None
    then show ?thesis using loop st by (simp add: loop_ok_def shell_readline_def)
  next
    case (Some x)
    obtain ed rest entered where x: "x = (ed, rest, entered)" by (cases x)
    let ?line = "ed_left ed @ ed_right ed"
    obtain rl' con' out where r: "readline_loop h sz ?rl con = Some (rl', con')" "rl_rel h sz rl' ed" "keys con' = rest" "con_ok con'"
        "wrote con (out @ (if entered then [10] else [])) con'"
        "\<And>pre st. shown pre [] [] st \<Longrightarrow> shown pre (ed_left ed) (ed_right ed) (term_run out st)"
      using loop unfolding Some x loop_ok_def by (auto simp: ed_start_def)
    note d = rl_relD [OF r(2)]
    have n: "rl_len rl' = length ?line" using d(1) by simp
    let ?buf = "(rl_buf rl')[length ?line := 0]"
    have tk: "take (length ?line + 1) ?buf = ?line @ [0]"
      using d(3,4) unfolding n by (simp add: take_Suc_conv_app_nth)
    have c: "cstr ?buf = ?line"
    proof -
      have "?buf = ?line @ 0 # drop (length ?line + 1) ?buf" using append_take_drop_id [of "length ?line + 1" ?buf] unfolding tk by simp
      then show ?thesis using cstr_append_nul [OF plain_nonzero, of ?line] d(5,6) by (metis plain_simps(3))
    qed
    have "length ?line < length ?buf" "plain ?line" "length ?line < HIST_CMDLEN" using d n assms(4) by simp_all
    from remember_ok [OF assms(2) tk this assms(7)] obtain h' where h': "remember h ?buf (length ?line) = Some h'" "hist_ok h'"
        "hist_total h' = hist_total h + (if ?line = [] then 0 else 1)"
        "\<And>b. b < hist_total h' \<Longrightarrow> hist_total h' - HIST_MAX \<le> b \<Longrightarrow> hist_line h' b = (if b = hist_total h then ?line else hist_line h b)"
      by blast
    have "shell_readline saved0 h buf sz con = Some (length ?line, ?buf, h', con')"
      unfolding shell_readline_def using st r(1) n d(3) h'(1) by simp
    moreover have "length ?line < sz" using d(9) n by simp
    ultimately show ?thesis unfolding Some x Let_def using tk c h'(2-4) r(3-6) wrote_undisturbed [OF r(5)] by auto
  qed
qed

text \<open>Typing \<open>hi\<close>, going left, deleting the \<open>h\<close>, typing \<open>a\<close> and Enter, with an empty history.\<close>

definition demo_prompt :: console where
  "demo_prompt = \<lparr> g_shift = False, kbd = map Ready [0x23, 0x17, 0xE0, 0x4B, 0x0E, 0x1E, 0x1C], msgs = msg_boot, heard = [], screen = [] \<rparr>"

definition demo_history :: history where
  "demo_history = \<lparr> hist_buf = replicate 16 (replicate 1000 0), hist_total = 0 \<rparr>"

lemma demo_prompt_facts: "con_ok demo_prompt" "hist_ok demo_history" "keys demo_prompt = [104, 105, 258, 8, 97, 10]"
proof -
  show "con_ok demo_prompt" by (simp add: con_ok_def demo_prompt_def rx_inv_def msg_boot_def)
  show "hist_ok demo_history" by (simp add: hist_ok_def demo_history_def HIST_MAX_def HIST_CMDLEN_def terminated_def cstr_def)
  show "keys demo_prompt = [104, 105, 258, 8, 97, 10]" by (simp add: demo_prompt_def) code_simp
qed

theorem shell_readline_correct_witness:
  "\<exists>buf' h' con' out. shell_readline (replicate 1000 0) demo_history (replicate 8 1) 8 demo_prompt = Some (2, buf', h', con') \<and>
     cstr buf' = [97, 105] \<and> hist_line h' 0 = [97, 105] \<and> keys con' = [] \<and> wrote demo_prompt (out @ [10]) con' \<and>
     shown [62] [97] [105] (term_run out ([62], 1))"
proof -
  have e: "ed_run demo_history 8 (keys demo_prompt) (ed_start demo_history) =
      Some (\<lparr> ed_left = [97], ed_right = [105], ed_entry = 0, ed_draft = [] \<rparr>, [], True)"
    unfolding demo_prompt_facts(3) by (simp add: ed_start_def demo_history_def ed_key_def key_codes)
  have t: "hist_total demo_history = 0" by (simp add: demo_history_def)
  obtain buf' h' con' out where r: "shell_readline (replicate 1000 0) demo_history (replicate 8 1) 8 demo_prompt = Some (2, buf', h', con')"
      "cstr buf' = [97, 105]" "hist_total h' = 1" "keys con' = []" "wrote demo_prompt (out @ [10]) con'"
    and l: "\<forall>b. b < hist_total h' \<longrightarrow> hist_total h' - HIST_MAX \<le> b \<longrightarrow> hist_line h' b = (if b = hist_total demo_history then [97, 105] else hist_line demo_history b)"
    and s: "\<forall>pre st. shown pre [] [] st \<longrightarrow> shown pre [97] [105] (term_run out st)"
    using shell_readline_correct [OF demo_prompt_facts(1,2), of 8 "replicate 8 1" "replicate 1000 0"]
    unfolding e Let_def option.case prod.case by (auto simp: HIST_CMDLEN_def t)
  have "shown [62] [] [] ([62], 1)" by (simp add: shown_def)
  then have "shown [62] [97] [105] (term_run out ([62], 1))" using s by blast
  moreover have "hist_line h' 0 = [97, 105]" using l r(3) t by (simp add: HIST_MAX_def)
  ultimately show ?thesis using r by blast
qed

theorem readline_key_refines_witness:
  "\<exists>rl' con'. readline_key demo_history 8 8 \<lparr> rl_buf = [104, 105, 0, 0, 0, 0, 0, 0], rl_len = 2, rl_cur = 1, rl_browse = 0, rl_saved = replicate 1000 0, rl_saved_len = 0 \<rparr>
       (demo_prompt\<lparr> screen := [104, 105, 8] \<rparr>) = Some (rl', con') \<and> rl_cur rl' = 0 \<and> rl_len rl' = 1 \<and>
     shown [62] [] [105] (term_run (screen con') ([62], 1))"
proof -
  let ?rl = "\<lparr> rl_buf = [104, 105, 0, 0, 0, 0, 0, 0], rl_len = 2, rl_cur = 1, rl_browse = 0, rl_saved = replicate 1000 0, rl_saved_len = 0 \<rparr>"
  let ?ed = "\<lparr> ed_left = [104], ed_right = [105], ed_entry = 0, ed_draft = [] \<rparr>"
  have "plain [104, 105]" by code_simp
  then have "rl_rel demo_history 8 ?rl ?ed" by (simp add: rl_rel_def demo_history_def HIST_CMDLEN_def numeral_2_eq_2 del: plain_simps)
  moreover have "edit_key 8" by (simp add: edit_key_def)
  moreover have "shown [62] [104] [105] (term_run (screen (demo_prompt\<lparr> screen := [104, 105, 8] \<rparr>)) ([62], 1))"
  proof -
    have "term_run [104, 105, 8] ([62], 1) = ([62, 104, 105], 2)" by code_simp
    then show ?thesis by (simp add: shown_def)
  qed
  moreover have "ed_key demo_history 8 8 ?ed = \<lparr> ed_left = [], ed_right = [105], ed_entry = 0, ed_draft = [] \<rparr>" by (simp add: ed_key_def)
  ultimately obtain rl' con' where r: "readline_key demo_history 8 8 ?rl (demo_prompt\<lparr> screen := [104, 105, 8] \<rparr>) = Some (rl', con')"
      "rl_rel demo_history 8 rl' \<lparr> ed_left = [], ed_right = [105], ed_entry = 0, ed_draft = [] \<rparr>" "shown [62] [] [105] (term_run (screen con') ([62], 1))"
    using readline_key_refines [of demo_history 8 ?rl ?ed 8 "[62]" "([62], 1)" "demo_prompt\<lparr> screen := [104, 105, 8] \<rparr>"] demo_prompt_facts(2)
    by auto
  then show ?thesis using rl_relD(1,2) [OF r(2)] by auto
qed

end
