(* ===== verification/Splash.thy ===== *)
theory Splash
  imports Shell_Line Printk "HOL-Library.Signed_Division"
begin

text \<open>
  The boot screen (\<open>src/splash.c\<close>) on a frame buffer of \<open>fb_size\<close> pixels. Coordinates are of type \<open>int\<close>; an argument of
  \<open>fill_rect\<close> outside its range stands for an overflow in the caller, which is undefined, as is a write outside the
  buffer.
\<close>

section \<open>Drawing\<close>

definition font8x8 :: "bytes list" where
  "font8x8 =
    [[0x00, 0x00, 0x00, 0x00, 0x00, 0x00, 0x00, 0x00], [0x18, 0x18, 0x18, 0x18, 0x18, 0x00, 0x18, 0x00],
     [0x6C, 0x6C, 0x00, 0x00, 0x00, 0x00, 0x00, 0x00], [0x6C, 0x6C, 0xFE, 0x6C, 0xFE, 0x6C, 0x6C, 0x00],
     [0x18, 0x7E, 0xC0, 0x7C, 0x06, 0xFC, 0x18, 0x00], [0xC6, 0xCC, 0x18, 0x30, 0x60, 0xC6, 0xC6, 0x00],
     [0x38, 0x6C, 0x38, 0x76, 0xDC, 0xCC, 0x76, 0x00], [0x18, 0x18, 0x30, 0x00, 0x00, 0x00, 0x00, 0x00],
     [0x0C, 0x18, 0x30, 0x30, 0x30, 0x18, 0x0C, 0x00], [0x30, 0x18, 0x0C, 0x0C, 0x0C, 0x18, 0x30, 0x00],
     [0x00, 0x66, 0x3C, 0xFF, 0x3C, 0x66, 0x00, 0x00], [0x00, 0x18, 0x18, 0x7E, 0x18, 0x18, 0x00, 0x00],
     [0x00, 0x00, 0x00, 0x00, 0x00, 0x18, 0x18, 0x30], [0x00, 0x00, 0x00, 0x7E, 0x00, 0x00, 0x00, 0x00],
     [0x00, 0x00, 0x00, 0x00, 0x00, 0x18, 0x18, 0x00], [0x06, 0x0C, 0x18, 0x30, 0x60, 0xC0, 0x80, 0x00],
     [0x7C, 0xC6, 0xCE, 0xD6, 0xE6, 0xC6, 0x7C, 0x00], [0x18, 0x38, 0x18, 0x18, 0x18, 0x18, 0x7E, 0x00],
     [0x7C, 0xC6, 0x06, 0x1C, 0x30, 0x60, 0xFE, 0x00], [0x7C, 0xC6, 0x06, 0x3C, 0x06, 0xC6, 0x7C, 0x00],
     [0x1C, 0x3C, 0x6C, 0xCC, 0xFE, 0x0C, 0x0C, 0x00], [0xFE, 0xC0, 0xFC, 0x06, 0x06, 0xC6, 0x7C, 0x00],
     [0x38, 0x60, 0xC0, 0xFC, 0xC6, 0xC6, 0x7C, 0x00], [0xFE, 0xC6, 0x0C, 0x18, 0x30, 0x30, 0x30, 0x00],
     [0x7C, 0xC6, 0xC6, 0x7C, 0xC6, 0xC6, 0x7C, 0x00], [0x7C, 0xC6, 0xC6, 0x7E, 0x06, 0x0C, 0x78, 0x00],
     [0x00, 0x18, 0x18, 0x00, 0x00, 0x18, 0x18, 0x00], [0x00, 0x18, 0x18, 0x00, 0x00, 0x18, 0x18, 0x30],
     [0x0C, 0x18, 0x30, 0x60, 0x30, 0x18, 0x0C, 0x00], [0x00, 0x00, 0x7E, 0x00, 0x7E, 0x00, 0x00, 0x00],
     [0x60, 0x30, 0x18, 0x0C, 0x18, 0x30, 0x60, 0x00], [0x7C, 0xC6, 0x0C, 0x18, 0x18, 0x00, 0x18, 0x00],
     [0x7C, 0xC6, 0xDE, 0xDE, 0xDE, 0xC0, 0x7C, 0x00], [0x38, 0x6C, 0xC6, 0xC6, 0xFE, 0xC6, 0xC6, 0x00],
     [0xFC, 0xC6, 0xC6, 0xFC, 0xC6, 0xC6, 0xFC, 0x00], [0x7C, 0xC6, 0xC0, 0xC0, 0xC0, 0xC6, 0x7C, 0x00],
     [0xF8, 0xCC, 0xC6, 0xC6, 0xC6, 0xCC, 0xF8, 0x00], [0xFE, 0xC0, 0xC0, 0xFC, 0xC0, 0xC0, 0xFE, 0x00],
     [0xFE, 0xC0, 0xC0, 0xFC, 0xC0, 0xC0, 0xC0, 0x00], [0x7C, 0xC6, 0xC0, 0xCE, 0xC6, 0xC6, 0x7E, 0x00],
     [0xC6, 0xC6, 0xC6, 0xFE, 0xC6, 0xC6, 0xC6, 0x00], [0x7E, 0x18, 0x18, 0x18, 0x18, 0x18, 0x7E, 0x00],
     [0x1E, 0x06, 0x06, 0x06, 0xC6, 0xC6, 0x7C, 0x00], [0xC6, 0xCC, 0xD8, 0xF0, 0xD8, 0xCC, 0xC6, 0x00],
     [0xC0, 0xC0, 0xC0, 0xC0, 0xC0, 0xC0, 0xFE, 0x00], [0xC6, 0xEE, 0xFE, 0xD6, 0xC6, 0xC6, 0xC6, 0x00],
     [0xC6, 0xE6, 0xF6, 0xDE, 0xCE, 0xC6, 0xC6, 0x00], [0x7C, 0xC6, 0xC6, 0xC6, 0xC6, 0xC6, 0x7C, 0x00],
     [0xFC, 0xC6, 0xC6, 0xFC, 0xC0, 0xC0, 0xC0, 0x00], [0x7C, 0xC6, 0xC6, 0xC6, 0xD6, 0xCC, 0x76, 0x00],
     [0xFC, 0xC6, 0xC6, 0xFC, 0xD8, 0xCC, 0xC6, 0x00], [0x7C, 0xC6, 0xC0, 0x7C, 0x06, 0xC6, 0x7C, 0x00],
     [0xFE, 0x18, 0x18, 0x18, 0x18, 0x18, 0x18, 0x00], [0xC6, 0xC6, 0xC6, 0xC6, 0xC6, 0xC6, 0x7C, 0x00],
     [0xC6, 0xC6, 0xC6, 0xC6, 0x6C, 0x38, 0x10, 0x00], [0xC6, 0xC6, 0xC6, 0xD6, 0xFE, 0xEE, 0xC6, 0x00],
     [0xC6, 0xC6, 0x6C, 0x38, 0x6C, 0xC6, 0xC6, 0x00], [0xC6, 0xC6, 0x6C, 0x38, 0x18, 0x18, 0x18, 0x00],
     [0xFE, 0x06, 0x0C, 0x18, 0x30, 0x60, 0xFE, 0x00], [0x3C, 0x30, 0x30, 0x30, 0x30, 0x30, 0x3C, 0x00],
     [0xC0, 0x60, 0x30, 0x18, 0x0C, 0x06, 0x02, 0x00], [0x3C, 0x0C, 0x0C, 0x0C, 0x0C, 0x0C, 0x3C, 0x00],
     [0x10, 0x38, 0x6C, 0xC6, 0x00, 0x00, 0x00, 0x00], [0x00, 0x00, 0x00, 0x00, 0x00, 0x00, 0x00, 0xFF],
     [0x30, 0x18, 0x0C, 0x00, 0x00, 0x00, 0x00, 0x00], [0x00, 0x00, 0x7C, 0x06, 0x7E, 0xC6, 0x7E, 0x00],
     [0xC0, 0xC0, 0xFC, 0xC6, 0xC6, 0xC6, 0xFC, 0x00], [0x00, 0x00, 0x7C, 0xC6, 0xC0, 0xC6, 0x7C, 0x00],
     [0x06, 0x06, 0x7E, 0xC6, 0xC6, 0xC6, 0x7E, 0x00], [0x00, 0x00, 0x7C, 0xC6, 0xFE, 0xC0, 0x7C, 0x00],
     [0x1C, 0x36, 0x30, 0x7C, 0x30, 0x30, 0x30, 0x00], [0x00, 0x00, 0x7E, 0xC6, 0xC6, 0x7E, 0x06, 0x7C],
     [0xC0, 0xC0, 0xFC, 0xC6, 0xC6, 0xC6, 0xC6, 0x00], [0x18, 0x00, 0x38, 0x18, 0x18, 0x18, 0x3C, 0x00],
     [0x06, 0x00, 0x06, 0x06, 0x06, 0xC6, 0xC6, 0x7C], [0xC0, 0xC0, 0xCC, 0xD8, 0xF0, 0xD8, 0xCC, 0x00],
     [0x38, 0x18, 0x18, 0x18, 0x18, 0x18, 0x3C, 0x00], [0x00, 0x00, 0xCC, 0xFE, 0xD6, 0xC6, 0xC6, 0x00],
     [0x00, 0x00, 0xFC, 0xC6, 0xC6, 0xC6, 0xC6, 0x00], [0x00, 0x00, 0x7C, 0xC6, 0xC6, 0xC6, 0x7C, 0x00],
     [0x00, 0x00, 0xFC, 0xC6, 0xC6, 0xFC, 0xC0, 0xC0], [0x00, 0x00, 0x7E, 0xC6, 0xC6, 0x7E, 0x06, 0x06],
     [0x00, 0x00, 0xDC, 0xE6, 0xC0, 0xC0, 0xC0, 0x00], [0x00, 0x00, 0x7E, 0xC0, 0x7C, 0x06, 0xFC, 0x00],
     [0x30, 0x30, 0x7C, 0x30, 0x30, 0x36, 0x1C, 0x00], [0x00, 0x00, 0xC6, 0xC6, 0xC6, 0xC6, 0x7E, 0x00],
     [0x00, 0x00, 0xC6, 0xC6, 0xC6, 0x6C, 0x38, 0x00], [0x00, 0x00, 0xC6, 0xC6, 0xD6, 0xFE, 0x6C, 0x00],
     [0x00, 0x00, 0xC6, 0x6C, 0x38, 0x6C, 0xC6, 0x00], [0x00, 0x00, 0xC6, 0xC6, 0xC6, 0x7E, 0x06, 0x7C],
     [0x00, 0x00, 0xFE, 0x0C, 0x38, 0x60, 0xFE, 0x00], [0x0E, 0x18, 0x18, 0x70, 0x18, 0x18, 0x0E, 0x00],
     [0x18, 0x18, 0x18, 0x18, 0x18, 0x18, 0x18, 0x00], [0x70, 0x18, 0x18, 0x0E, 0x18, 0x18, 0x70, 0x00],
     [0x76, 0xDC, 0x00, 0x00, 0x00, 0x00, 0x00, 0x00]]"

record SplashFB =
  fb :: "int \<Rightarrow> u32"
  fb_size :: int
  sp_width :: int
  sp_height :: int
  pitch4 :: int
  sp_r_shift :: u8
  sp_g_shift :: u8
  sp_b_shift :: u8

definition col :: "SplashFB \<Rightarrow> u8 \<Rightarrow> u8 \<Rightarrow> u8 \<Rightarrow> u32 option" where
  "col s r g b =
    (if sp_r_shift s < 32 \<and> sp_g_shift s < 32 \<and> sp_b_shift s < 32 then
       Some (push_bit (unat (sp_r_shift s)) (ucast r) OR push_bit (unat (sp_g_shift s)) (ucast g) OR push_bit (unat (sp_b_shift s)) (ucast b))
     else None)"

definition put_pixel :: "int \<Rightarrow> int \<Rightarrow> u32 \<Rightarrow> SplashFB \<Rightarrow> SplashFB option" where
  "put_pixel j i c s =
    (let k = j * pitch4 s + i in
     if int_range (j * pitch4 s) \<and> int_range k \<and> 0 \<le> k \<and> k < fb_size s then Some (s\<lparr> fb := (fb s)(k := c) \<rparr>) else None)"

text \<open>The two loops of \<open>fill_rect\<close>.\<close>

function fill_row :: "int \<Rightarrow> int \<Rightarrow> int \<Rightarrow> u32 \<Rightarrow> SplashFB \<Rightarrow> SplashFB option" where
  "fill_row j i bound c s = (if i < bound then (case put_pixel j i c s of None \<Rightarrow> None | Some s \<Rightarrow> fill_row j (i + 1) bound c s) else Some s)"
  by pat_completeness auto
termination
  by (relation "measure (\<lambda>(j, i, bound, c, s). nat (bound - i))") auto

declare fill_row.simps [simp del]

function fill_rows :: "int \<Rightarrow> int \<Rightarrow> int \<Rightarrow> int \<Rightarrow> u32 \<Rightarrow> SplashFB \<Rightarrow> SplashFB option" where
  "fill_rows j bound x w c s =
    (if j < bound then
       if int_range (x + w) then (case fill_row j x (x + w) c s of None \<Rightarrow> None | Some s \<Rightarrow> fill_rows (j + 1) bound x w c s) else None
     else Some s)"
  by pat_completeness auto
termination
  by (relation "measure (\<lambda>(j, bound, x, w, c, s). nat (bound - j))") auto

declare fill_rows.simps [simp del]

definition fill_rect :: "SplashFB \<Rightarrow> int \<Rightarrow> int \<Rightarrow> int \<Rightarrow> int \<Rightarrow> u32 \<Rightarrow> SplashFB option" where
  "fill_rect s x y w h c =
    (if int_range x \<and> int_range y \<and> int_range w \<and> int_range h \<and> int_range (y + h) then fill_rows y (y + h) x w c s else None)"

text \<open>The loops of \<open>draw_char\<close> over the rows of a glyph and the bits of a row.\<close>

primrec draw_bits :: "nat list \<Rightarrow> u8 \<Rightarrow> int \<Rightarrow> int \<Rightarrow> u32 \<Rightarrow> int \<Rightarrow> SplashFB \<Rightarrow> SplashFB option" where
  "draw_bits [] bits x y color scale s = Some s"
| "draw_bits (c # cs) bits x y color scale s = do {
     s \<leftarrow> (if bits AND drop_bit c 0x80 \<noteq> 0 then fill_rect s (x + int c * scale) y scale scale color else Some s);
     draw_bits cs bits x y color scale s }"

primrec draw_rows :: "nat list \<Rightarrow> bytes \<Rightarrow> int \<Rightarrow> int \<Rightarrow> u32 \<Rightarrow> int \<Rightarrow> SplashFB \<Rightarrow> SplashFB option" where
  "draw_rows [] glyph x y color scale s = Some s"
| "draw_rows (row # rows) glyph x y color scale s = do {
     bits \<leftarrow> idx glyph row;
     s \<leftarrow> draw_bits [0..<8] bits x (y + int row * scale) color scale s;
     draw_rows rows glyph x y color scale s }"

definition draw_char :: "SplashFB \<Rightarrow> int \<Rightarrow> int \<Rightarrow> u8 \<Rightarrow> u32 \<Rightarrow> int \<Rightarrow> SplashFB option" where
  "draw_char s x y ch color scale =
    (if sint ch < 32 \<or> sint ch > 126 then Some s
     else do {
       glyph \<leftarrow> idx font8x8 (nat (sint ch - 32));
       draw_rows [0..<8] glyph x y color scale s })"

definition str_width :: "bytes \<Rightarrow> int \<Rightarrow> int option" where
  "str_width str scale = do {
     n \<leftarrow> strlen str;
     Some (if n > 0 then int n * 9 * scale - scale else 0) }"

fun draw_str :: "SplashFB \<Rightarrow> int \<Rightarrow> int \<Rightarrow> bytes \<Rightarrow> u32 \<Rightarrow> int \<Rightarrow> SplashFB option" where
  "draw_str s x y [] color scale = None"
| "draw_str s x y (c # str) color scale =
    (if c = 0 then Some s
     else do { s \<leftarrow> draw_char s x y c color scale; draw_str s (x + 9 * scale) y str color scale })"

definition draw_str_centered :: "SplashFB \<Rightarrow> int \<Rightarrow> bytes \<Rightarrow> u32 \<Rightarrow> int \<Rightarrow> SplashFB option" where
  "draw_str_centered s y str color scale = do {
     sw \<leftarrow> str_width str scale;
     draw_str s ((sp_width s - sw) sdiv 2) y str color scale }"

section \<open>The screen\<close>

text \<open>A turn of the loop over the boxes; the colours are those of a selected and of another box, border and inside, and of the digit.\<close>

primrec draw_boxes :: "nat list \<Rightarrow> int \<Rightarrow> int \<Rightarrow> int \<Rightarrow> u32 \<times> u32 \<times> u32 \<times> u32 \<times> u32 \<Rightarrow> SplashFB \<Rightarrow> SplashFB option" where
  "draw_boxes [] sel bx0 by0 colors s = Some s"
| "draw_boxes (i # js) sel bx0 by0 colors s = do {
     let (sel_bg, sel_brd, box_bg, box_brd, white) = colors;
     let bx = bx0 + int i * (50 + 15);
     let bbg = (if int i = sel then sel_bg else box_bg);
     let bbrd = (if int i = sel then sel_brd else box_brd);
     s \<leftarrow> fill_rect s (bx - 3) (by0 - 3) (50 + 2 * 3) (50 + 2 * 3) bbrd;
     s \<leftarrow> fill_rect s bx by0 50 50 bbg;
     s \<leftarrow> draw_char s (bx + (50 - 8 * 3) sdiv 2) (by0 + (50 - 8 * 3) sdiv 2) (48 + of_nat i) white 3;
     draw_boxes js sel bx0 by0 colors s }"

partial_function (option) splash_loop ::
  "int \<Rightarrow> int \<Rightarrow> int \<Rightarrow> u32 \<times> u32 \<times> u32 \<times> u32 \<times> u32 \<Rightarrow> SplashFB \<Rightarrow> console \<Rightarrow> (int \<times> SplashFB \<times> console) option" where
  "splash_loop sel bx0 by0 colors s con = do {
     s \<leftarrow> draw_boxes [0..<8] sel bx0 by0 colors s;
     (ch, con) \<leftarrow> getCharEx con;
     let sel = (if ch = KEY_LEFT \<and> sel > 0 then sel - 1 else sel);
     let sel = (if ch = KEY_RIGHT \<and> sel < 7 then sel + 1 else sel);
     if ch = 10 then Some (sel, s, con) else splash_loop sel bx0 by0 colors s con }"

definition splash_screen :: "SplashFB \<Rightarrow> console \<Rightarrow> (int \<times> SplashFB \<times> console) option" where
  "splash_screen s con = do {
     let w = sp_width s;
     let h = sp_height s;
     bg \<leftarrow> col s 15 15 35;
     white \<leftarrow> col s 255 255 255;
     gray \<leftarrow> col s 160 170 200;
     dim \<leftarrow> col s 80 85 120;
     box_bg \<leftarrow> col s 40 42 70;
     box_brd \<leftarrow> col s 70 75 110;
     sel_bg \<leftarrow> col s 50 110 210;
     sel_brd \<leftarrow> col s 80 160 255;
     s \<leftarrow> fill_rect s 0 0 w h bg;
     if int_range (h * 20) \<and> int_range (h * 48) then do {
       let title_y = (h * 20) sdiv 100;
       s \<leftarrow> draw_str_centered s title_y (lit ''IOS'') white 6;
       let line_y = title_y + 6 * 8 + 15;
       s \<leftarrow> fill_rect s ((w - 220) sdiv 2) line_y 220 2 dim;
       s \<leftarrow> draw_str_centered s (line_y + 25) (lit ''Select Node ID'') gray 2;
       let bx0 = (w - (8 * 50 + 7 * 15)) sdiv 2;
       let by0 = (h * 48) sdiv 100;
       s \<leftarrow> draw_str_centered s (by0 + 50 + 3 + 25) (lit ''Arrow keys to select, ENTER to confirm'') dim 1;
       (sel, s, con) \<leftarrow> splash_loop 0 bx0 by0 (sel_bg, sel_brd, box_bg, box_brd, white) s con;
       s \<leftarrow> fill_rect s 0 0 w h 0;
       Some (sel, s, con) }
     else None }"

section \<open>Drawing stays inside the visible area\<close>

definition visible :: "SplashFB \<Rightarrow> int set" where
  "visible s = {y * pitch4 s + x | x y. 0 \<le> x \<and> x < sp_width s \<and> 0 \<le> y \<and> y < sp_height s}"

definition fb_ok :: "SplashFB \<Rightarrow> bool" where
  "fb_ok s \<longleftrightarrow> 511 \<le> sp_width s \<and> 170 \<le> sp_height s \<and> sp_width s \<le> pitch4 s \<and> pitch4 s * sp_height s \<le> fb_size s \<and>
     fb_size s < 2 ^ 31 \<and> 48 * sp_height s < 2 ^ 31 \<and> sp_r_shift s < 32 \<and> sp_g_shift s < 32 \<and> sp_b_shift s < 32"

definition drawn :: "SplashFB \<Rightarrow> SplashFB \<Rightarrow> bool" where
  "drawn s s' \<longleftrightarrow> s' = s\<lparr> fb := fb s' \<rparr> \<and> (\<forall>k. k \<notin> visible s \<longrightarrow> fb s' k = fb s k)"

lemma drawn_refl [simp]: "drawn s s"
  by (simp add: drawn_def)

lemma drawn_geometry:
  assumes "drawn s s'"
  shows "sp_width s' = sp_width s" "sp_height s' = sp_height s" "pitch4 s' = pitch4 s" "fb_size s' = fb_size s" "visible s' = visible s" "fb_ok s' = fb_ok s"
proof -
  obtain f where s': "s' = s\<lparr> fb := f \<rparr>" using assms unfolding drawn_def by blast
  show "sp_width s' = sp_width s" "sp_height s' = sp_height s" "pitch4 s' = pitch4 s" "fb_size s' = fb_size s" by (simp_all add: s')
  show "visible s' = visible s" "fb_ok s' = fb_ok s" by (simp_all add: s' visible_def fb_ok_def)
qed

lemma drawn_trans: "drawn s s1 \<Longrightarrow> drawn s1 s2 \<Longrightarrow> drawn s s2"
proof -
  assume a: "drawn s s1" "drawn s1 s2"
  obtain f g where "s1 = s\<lparr> fb := f \<rparr>" "s2 = s1\<lparr> fb := g \<rparr>" using a unfolding drawn_def by blast
  then have "s2 = s\<lparr> fb := fb s2 \<rparr>" by simp
  then show ?thesis using a drawn_geometry(5) [OF a(1)] unfolding drawn_def by metis
qed

lemma visible_index:
  assumes "fb_ok s" "0 \<le> x" "x < sp_width s" "0 \<le> y" "y < sp_height s"
  shows "int_range (y * pitch4 s)" "int_range (y * pitch4 s + x)" "0 \<le> y * pitch4 s + x" "y * pitch4 s + x < fb_size s"
proof -
  have p: "0 \<le> pitch4 s" "x < pitch4 s" using assms by (auto simp: fb_ok_def)
  have "(y + 1) * pitch4 s \<le> sp_height s * pitch4 s" using assms(5) p(1) by (intro mult_right_mono) auto
  then have "y * pitch4 s + pitch4 s \<le> fb_size s" using assms(1) by (simp add: fb_ok_def algebra_simps)
  moreover have "0 \<le> y * pitch4 s" using assms(4) p(1) by simp
  ultimately show "int_range (y * pitch4 s)" "int_range (y * pitch4 s + x)" "0 \<le> y * pitch4 s + x" "y * pitch4 s + x < fb_size s"
    using assms(1,2) p by (auto simp: int_range_def fb_ok_def)
qed

lemma fb_ok_bounds: "fb_ok s \<Longrightarrow> sp_width s < 2 ^ 31 \<and> sp_height s < 2 ^ 31"
  using visible_index [of s "sp_width s - 1" 0] by (auto simp: fb_ok_def)

lemma fill_row_spec:
  "fb_ok s \<Longrightarrow> 0 \<le> i \<Longrightarrow> bound \<le> sp_width s \<Longrightarrow> 0 \<le> j \<Longrightarrow> j < sp_height s \<Longrightarrow>
    \<exists>s'. fill_row j i bound c s = Some s' \<and> drawn s s' \<and> (\<forall>k. fb s' k = (if \<exists>x. i \<le> x \<and> x < bound \<and> k = j * pitch4 s + x then c else fb s k))"
proof (induction "nat (bound - i)" arbitrary: i s rule: less_induct)
  case less
  show ?case
  proof (cases "i < bound")
    case True
    let ?k = "j * pitch4 s + i"
    define s1 where "s1 = s\<lparr> fb := (fb s)(?k := c) \<rparr>"
    have f1: "fb s1 = (fb s)(?k := c)" by (simp add: s1_def)
    have v: "?k \<in> visible s" using True less.prems unfolding visible_def by fastforce
    have d: "drawn s s1" using v by (auto simp: drawn_def s1_def)
    have p: "put_pixel j i c s = Some s1" using visible_index [OF less.prems(1,2) _ less.prems(4,5)] True less.prems(3) by (simp add: put_pixel_def s1_def)
    obtain s' where s': "fill_row j (i + 1) bound c s1 = Some s'" "drawn s1 s'"
      "\<forall>k. fb s' k = (if \<exists>x. i + 1 \<le> x \<and> x < bound \<and> k = j * pitch4 s + x then c else ((fb s)(?k := c)) k)"
      using less.hyps [of "i + 1" s1] less.prems True drawn_geometry [OF d] unfolding f1 by auto
    have "fb s' k = (if \<exists>x. i \<le> x \<and> x < bound \<and> k = j * pitch4 s + x then c else fb s k)" for k
    proof (cases "k = ?k")
      case False
      then have "(\<exists>x. i + 1 \<le> x \<and> x < bound \<and> k = j * pitch4 s + x) \<longleftrightarrow> (\<exists>x. i \<le> x \<and> x < bound \<and> k = j * pitch4 s + x)"
        by (metis add.commute order_le_less zle_add1_eq_le zless_add1_eq add1_zle_eq)
      then show ?thesis using s'(3) False by auto
    qed (use s'(3) True in auto)
    then show ?thesis using s' p True drawn_trans [OF d s'(2)] by (simp add: fill_row.simps [of j i])
  next
    case False
    then have "\<not> (\<exists>x. i \<le> x \<and> x < bound \<and> k = j * pitch4 s + x)" for k by auto
    then show ?thesis using False by (auto simp: fill_row.simps)
  qed
qed

definition rect :: "SplashFB \<Rightarrow> int \<Rightarrow> int \<Rightarrow> int \<Rightarrow> int \<Rightarrow> int set" where
  "rect s x y w h = {j * pitch4 s + i | i j. x \<le> i \<and> i < x + w \<and> y \<le> j \<and> j < y + h}"

lemma rect_split: "0 < h \<Longrightarrow> k \<in> rect s x y w h \<longleftrightarrow> (\<exists>i. x \<le> i \<and> i < x + w \<and> k = y * pitch4 s + i) \<or> k \<in> rect s x (y + 1) w (h - 1)"
proof -
  assume h: "0 < h"
  have "(y \<le> j \<and> j < y + h) = (j = y \<or> y + 1 \<le> j \<and> j < y + 1 + (h - 1))" for j using h by auto
  then have "k \<in> rect s x y w h \<longleftrightarrow> (\<exists>i j. k = j * pitch4 s + i \<and> x \<le> i \<and> i < x + w \<and> (j = y \<or> y + 1 \<le> j \<and> j < y + 1 + (h - 1)))"
    by (simp add: rect_def)
  also have "\<dots> \<longleftrightarrow> (\<exists>i. x \<le> i \<and> i < x + w \<and> k = y * pitch4 s + i) \<or> k \<in> rect s x (y + 1) w (h - 1)"
    unfolding rect_def mem_Collect_eq by iprover
  finally show ?thesis .
qed

lemma fill_rows_spec:
  "fb_ok s \<Longrightarrow> 0 \<le> x \<Longrightarrow> x + w \<le> sp_width s \<Longrightarrow> 0 \<le> y \<Longrightarrow> 0 \<le> w \<Longrightarrow> y + h \<le> sp_height s \<Longrightarrow>
    \<exists>s'. fill_rows y (y + h) x w c s = Some s' \<and> drawn s s' \<and> (\<forall>k. fb s' k = (if k \<in> rect s x y w h then c else fb s k))"
proof (induction "nat h" arbitrary: y h s rule: less_induct)
  case less
  show ?case
  proof (cases "0 < h")
    case True
    obtain s1 where 1: "fill_row y x (x + w) c s = Some s1" "drawn s s1"
      "\<forall>k. fb s1 k = (if \<exists>i. x \<le> i \<and> i < x + w \<and> k = y * pitch4 s + i then c else fb s k)"
      using fill_row_spec [OF less.prems(1-4), of c] less.prems(6) True by auto
    note g = drawn_geometry [OF 1(2)]
    obtain s2 where 2: "fill_rows (y + 1) (y + h) x w c s1 = Some s2" "drawn s1 s2"
      "\<forall>k. fb s2 k = (if k \<in> rect s1 x (y + 1) w (h - 1) then c else fb s1 k)"
      using less.hyps [of "h - 1" s1 "y + 1"] less.prems True g by auto
    have "rect s1 x (y + 1) w (h - 1) = rect s x (y + 1) w (h - 1)" using g by (simp add: rect_def)
    then have "\<forall>k. fb s2 k = (if k \<in> rect s x y w h then c else fb s k)" using 1(3) 2(3) rect_split [OF True, of _ s x y w] by auto
    moreover have "int_range (x + w)" using less.prems(2,3,5) fb_ok_bounds [OF less.prems(1)] by (simp add: int_range_def)
    ultimately show ?thesis using 1(1) 2(1) True drawn_trans [OF 1(2) 2(2)] by (simp add: fill_rows.simps [of y])
  next
    case False
    then have "rect s x y w h = {}" by (auto simp: rect_def)
    then show ?thesis using False by (simp add: fill_rows.simps)
  qed
qed

lemma fill_rect_spec:
  assumes "fb_ok s" "0 \<le> x" "0 \<le> y" "0 \<le> w" "0 \<le> h" "x + w \<le> sp_width s" "y + h \<le> sp_height s"
  shows "\<exists>s'. fill_rect s x y w h c = Some s' \<and> drawn s s' \<and> (\<forall>k. fb s' k = (if k \<in> rect s x y w h then c else fb s k))"
proof -
  have "int_range x" "int_range y" "int_range w" "int_range h" "int_range (y + h)" using assms fb_ok_bounds [OF assms(1)] by (simp_all add: int_range_def)
  then show ?thesis using fill_rows_spec [OF assms(1,2,6,3,4,7), of c] by (simp add: fill_rect_def)
qed

lemma eight: "set [0..<8] \<subseteq> {..<8 :: nat}"
  by auto

lemma draw_bits_spec:
  "fb_ok s \<Longrightarrow> 0 \<le> scale \<Longrightarrow> 0 \<le> x \<Longrightarrow> x + 8 * scale \<le> sp_width s \<Longrightarrow> 0 \<le> y \<Longrightarrow> y + scale \<le> sp_height s \<Longrightarrow> set cs \<subseteq> {..<8} \<Longrightarrow>
    \<exists>s'. draw_bits cs bits x y color scale s = Some s' \<and> drawn s s'"
proof (induction cs arbitrary: s)
  case (Cons c cs)
  have "(int c + 1) * scale \<le> 8 * scale" using Cons.prems by (intro mult_right_mono) auto
  then have b: "0 \<le> x + int c * scale" "x + int c * scale + scale \<le> sp_width s" using Cons.prems by (auto simp: algebra_simps)
  obtain s1 where 1: "(if bits AND drop_bit c 0x80 \<noteq> 0 then fill_rect s (x + int c * scale) y scale scale color else Some s) = Some s1" "drawn s s1"
    using fill_rect_spec [OF Cons.prems(1) b(1) Cons.prems(5,2,2) b(2) Cons.prems(6), of color]
    by (cases "bits AND drop_bit c 0x80 \<noteq> 0") auto
  obtain s2 where "draw_bits cs bits x y color scale s1 = Some s2" "drawn s1 s2"
    using Cons.IH [of s1] Cons.prems drawn_geometry [OF 1(2)] by auto
  then show ?case using 1 drawn_trans [OF 1(2)] by auto
qed simp

lemma draw_rows_spec:
  "fb_ok s \<Longrightarrow> 0 \<le> scale \<Longrightarrow> 0 \<le> x \<Longrightarrow> x + 8 * scale \<le> sp_width s \<Longrightarrow> 0 \<le> y \<Longrightarrow> y + 8 * scale \<le> sp_height s \<Longrightarrow> set rows \<subseteq> {..<8} \<Longrightarrow> length glyph = 8 \<Longrightarrow>
    \<exists>s'. draw_rows rows glyph x y color scale s = Some s' \<and> drawn s s'"
proof (induction rows arbitrary: s)
  case (Cons row rows)
  have "(int row + 1) * scale \<le> 8 * scale" using Cons.prems by (intro mult_right_mono) auto
  then have b: "0 \<le> y + int row * scale" "y + int row * scale + scale \<le> sp_height s" using Cons.prems by (auto simp: algebra_simps)
  obtain s1 where 1: "draw_bits [0..<8] (glyph ! row) x (y + int row * scale) color scale s = Some s1" "drawn s s1"
    using draw_bits_spec [OF Cons.prems(1-4) b eight] by blast
  obtain s2 where "draw_rows rows glyph x y color scale s1 = Some s2" "drawn s1 s2"
    using Cons.IH [of s1] Cons.prems drawn_geometry [OF 1(2)] by auto
  then show ?case using 1 Cons.prems(7,8) drawn_trans [OF 1(2)] by auto
qed simp

lemma font_shape: "length font8x8 = 95" "list_all (\<lambda>g. length g = 8) font8x8"
  by (simp_all add: font8x8_def)

lemma draw_char_spec:
  assumes "fb_ok s" "0 \<le> scale" "0 \<le> x" "x + 8 * scale \<le> sp_width s" "0 \<le> y" "y + 8 * scale \<le> sp_height s"
  shows "\<exists>s'. draw_char s x y ch color scale = Some s' \<and> drawn s s'"
proof (cases "sint ch < 32 \<or> sint ch > 126")
  case False
  then have n: "nat (sint ch - 32) < length font8x8" by (simp add: font_shape nat_less_iff)
  then have "length (font8x8 ! nat (sint ch - 32)) = 8" using font_shape(2) by (simp add: list_all_length)
  then show ?thesis using draw_rows_spec [OF assms eight, of "font8x8 ! nat (sint ch - 32)" color] False n by (auto simp: draw_char_def)
qed (simp add: draw_char_def)

lemma draw_str_spec:
  "fb_ok s \<Longrightarrow> 0 \<le> scale \<Longrightarrow> 0 \<le> x \<Longrightarrow> x + int (length (cstr str)) * 9 * scale - scale \<le> sp_width s \<Longrightarrow> 0 \<le> y \<Longrightarrow> y + 8 * scale \<le> sp_height s \<Longrightarrow> terminated str \<Longrightarrow>
    \<exists>s'. draw_str s x y str color scale = Some s' \<and> drawn s s'"
proof (induction str arbitrary: s x)
  case (Cons c str)
  show ?case
  proof (cases "c = 0")
    case False
    have "0 \<le> int (length (cstr str)) * 9 * scale" using Cons.prems(2) by simp
    then have b: "x + 8 * scale \<le> sp_width s" "x + 9 * scale + int (length (cstr str)) * 9 * scale - scale \<le> sp_width s"
      using Cons.prems(4) False by (simp_all add: algebra_simps)
    obtain s1 where 1: "draw_char s x y c color scale = Some s1" "drawn s s1"
      using draw_char_spec [OF Cons.prems(1-3) b(1) Cons.prems(5,6)] by blast
    obtain s2 where "draw_str s1 (x + 9 * scale) y str color scale = Some s2" "drawn s1 s2"
      using Cons.IH [of s1 "x + 9 * scale"] Cons.prems b(2) False drawn_geometry [OF 1(2)] by auto
    then show ?thesis using 1 False drawn_trans [OF 1(2)] by auto
  qed simp
qed simp

lemma draw_str_centered_spec:
  assumes "fb_ok s" "0 \<le> scale" "int (length (cstr str)) * 9 * scale \<le> 511" "0 \<le> y" "y + 8 * scale \<le> sp_height s" "terminated str" "0 < length (cstr str)"
  shows "\<exists>s'. draw_str_centered s y str color scale = Some s' \<and> drawn s s'"
proof -
  let ?sw = "int (length (cstr str)) * 9 * scale - scale"
  have w: "511 \<le> sp_width s" using assms(1) by (simp add: fb_ok_def)
  have d: "(sp_width s - ?sw) sdiv 2 = (sp_width s - ?sw) div 2" using w assms(2,3) by (simp add: signed_divide_int_def sgn_if)
  have "0 \<le> (sp_width s - ?sw) div 2" "(sp_width s - ?sw) div 2 + ?sw \<le> sp_width s" using w assms(2,3) by auto
  then show ?thesis
    using draw_str_spec [OF assms(1,2), of "(sp_width s - ?sw) div 2" str y color] assms(4-7) d
    by (simp add: draw_str_centered_def str_width_def strlen_eq)
qed

lemma draw_boxes_spec:
  "fb_ok s \<Longrightarrow> 3 \<le> bx0 \<Longrightarrow> bx0 + 508 \<le> sp_width s \<Longrightarrow> 3 \<le> by0 \<Longrightarrow> by0 + 53 \<le> sp_height s \<Longrightarrow> set js \<subseteq> {..<8} \<Longrightarrow>
    \<exists>s'. draw_boxes js sel bx0 by0 colors s = Some s' \<and> drawn s s'"
proof (induction js arbitrary: s)
  case (Cons i js)
  obtain a b c d e where colors: "colors = (a, b, c, d, e)" by (cases colors)
  let ?bx = "bx0 + int i * 65"
  have x: "3 \<le> ?bx" "?bx + 53 \<le> sp_width s" using Cons.prems by auto
  have q: "(50 - 8 * 3) sdiv 2 = (13 :: int)" by (simp add: signed_divide_int_def)
  obtain s1 where 1: "fill_rect s (?bx - 3) (by0 - 3) 56 56 (if int i = sel then b else d) = Some s1" "drawn s s1"
    using fill_rect_spec [OF Cons.prems(1), of "?bx - 3" "by0 - 3" 56 56] x Cons.prems(4,5) by force
  note g1 = drawn_geometry [OF 1(2)]
  obtain s2 where 2: "fill_rect s1 ?bx by0 50 50 (if int i = sel then a else c) = Some s2" "drawn s1 s2"
    using fill_rect_spec [of s1 ?bx by0 50 50] x Cons.prems(1,4,5) g1 by force
  note g2 = drawn_geometry [OF 2(2)]
  obtain s3 where 3: "draw_char s2 (?bx + 13) (by0 + 13) (48 + of_nat i) e 3 = Some s3" "drawn s2 s3"
    using draw_char_spec [of s2 3 "?bx + 13" "by0 + 13" "48 + of_nat i" e] x Cons.prems(1,4,5) g1 g2 by auto
  have d: "drawn s s3" by (rule drawn_trans [OF drawn_trans [OF 1(2) 2(2)] 3(2)])
  obtain s4 where "draw_boxes js sel bx0 by0 colors s3 = Some s4" "drawn s3 s4"
    using Cons.IH [of s3] Cons.prems drawn_geometry [OF d] by auto
  then show ?case using 1(1) 2(1) 3(1) colors q drawn_trans [OF d] by auto
qed simp

section \<open>Choosing a node\<close>

text \<open>The number selected by a sequence of keys, and the keys behind Enter.\<close>

fun chosen :: "int \<Rightarrow> int list \<Rightarrow> (int \<times> int list) option" where
  "chosen sel [] = None"
| "chosen sel (k # ks) =
    (if k = 10 then Some (sel, ks)
     else chosen (if k = KEY_LEFT then max 0 (sel - 1) else if k = KEY_RIGHT then min 7 (sel + 1) else sel) ks)"

lemma splash_loop_spec:
  "fb_ok s \<Longrightarrow> 3 \<le> bx0 \<Longrightarrow> bx0 + 508 \<le> sp_width s \<Longrightarrow> 3 \<le> by0 \<Longrightarrow> by0 + 53 \<le> sp_height s \<Longrightarrow> con_ok con \<Longrightarrow> 0 \<le> sel \<Longrightarrow> sel \<le> 7 \<Longrightarrow>
    (case chosen sel (keys con) of None \<Rightarrow> splash_loop sel bx0 by0 colors s con = None
     | Some (n, ks) \<Rightarrow> 0 \<le> n \<and> n \<le> 7 \<and> (\<exists>s' con'. splash_loop sel bx0 by0 colors s con = Some (n, s', con') \<and> drawn s s' \<and>
         con_ok con' \<and> keys con' = ks \<and> wrote con [] con'))"
proof (induction "keys con" arbitrary: sel s con)
  case Nil
  have "getCharEx con = None" using getCharEx_keys [OF Nil.prems(6)] Nil.hyps by simp
  moreover obtain s1 where "draw_boxes [0..<8] sel bx0 by0 colors s = Some s1"
    using draw_boxes_spec [OF Nil.prems(1-5) eight] by blast
  ultimately show ?case using Nil.hyps [symmetric] by (simp add: splash_loop.simps [of sel])
next
  case (Cons k ks)
  obtain s1 where 1: "draw_boxes [0..<8] sel bx0 by0 colors s = Some s1" "drawn s s1"
    using draw_boxes_spec [OF Cons.prems(1-5) eight] by blast
  note g = drawn_geometry [OF 1(2)]
  obtain con1 where c: "getCharEx con = Some (k, con1)" "keys con1 = ks" "con_ok con1" "wrote con [] con1"
    using getCharEx_keys [OF Cons.prems(6)] Cons.hyps(2) [symmetric] by auto
  let ?sel = "if k = KEY_LEFT then max 0 (sel - 1) else if k = KEY_RIGHT then min 7 (sel + 1) else sel"
  have step: "splash_loop sel bx0 by0 colors s con = (if k = 10 then Some (sel, s1, con1) else splash_loop ?sel bx0 by0 colors s1 con1)"
    using 1(1) c(1) Cons.prems(7,8) by (simp add: splash_loop.simps [of sel] key_codes)
  show ?case
  proof (cases "k = 10")
    case True
    then show ?thesis using step 1(2) c Cons.prems(7,8) Cons.hyps(2) [symmetric] by simp
  next
    case False
    have "case chosen ?sel (keys con1) of None \<Rightarrow> splash_loop ?sel bx0 by0 colors s1 con1 = None
     | Some (n, ks) \<Rightarrow> 0 \<le> n \<and> n \<le> 7 \<and> (\<exists>s' con'. splash_loop ?sel bx0 by0 colors s1 con1 = Some (n, s', con') \<and> drawn s1 s' \<and>
         con_ok con' \<and> keys con' = ks \<and> wrote con1 [] con')"
      by (rule Cons.hyps(1)) (use c Cons.prems g in auto)
    then show ?thesis using step False c(2,4) Cons.hyps(2) [symmetric] drawn_trans [OF 1(2)] wrote_trans [OF c(4), of "[]"] by (fastforce split: option.splits)
  qed
qed

lemma whole_rect: "rect s 0 0 (sp_width s) (sp_height s) = visible s"
  by (auto simp: rect_def visible_def)

lemma layout_numbers:
  assumes "fb_ok s"
  defines "w \<equiv> sp_width s" and "h \<equiv> sp_height s"
  shows "(h * 20) sdiv 100 = h div 5" "(h * 48) sdiv 100 = h * 12 div 25" "(w - 220) sdiv 2 = (w - 220) div 2" "(w - (8 * 50 + 7 * 15)) sdiv 2 = (w - 505) div 2"
    "int_range (h * 20)" "int_range (h * 48)"
proof -
  have g: "511 \<le> w" "170 \<le> h" "48 * h < 2 ^ 31" using assms by (auto simp: fb_ok_def)
  have s: "a sdiv b = a div b" if "0 \<le> a" "0 < b" for a b :: int using that by (simp add: signed_divide_int_def sgn_if)
  show "(h * 20) sdiv 100 = h div 5" "(h * 48) sdiv 100 = h * 12 div 25" "(w - 220) sdiv 2 = (w - 220) div 2" "(w - (8 * 50 + 7 * 15)) sdiv 2 = (w - 505) div 2"
    using g by (simp_all add: s)
  show "int_range (h * 20)" "int_range (h * 48)" using g by (simp_all add: int_range_def)
qed

lemma screen_strings:
  "length (cstr (lit ''IOS'')) = 3" "length (cstr (lit ''Select Node ID'')) = 14" "length (cstr (lit ''Arrow keys to select, ENTER to confirm'')) = 38" "terminated (lit str)"
  by (simp_all add: lit_def terminated_def)

lemma layout_bounds:
  assumes "170 \<le> (h :: int)"
  shows "0 \<le> h div 5" "h div 5 + 104 \<le> h" "3 \<le> h * 12 div 25" "h * 12 div 25 + 86 \<le> h"
  using assms mult_div_mod_eq [of 5 h] mult_div_mod_eq [of 25 "h * 12"] pos_mod_bound [of 5 h] pos_mod_bound [of 25 "h * 12"]
    pos_mod_sign [of 5 h] pos_mod_sign [of 25 "h * 12"] by linarith+

lemma splash_screen_spec:
  assumes ok: "fb_ok s" and con: "con_ok con"
  shows "case chosen 0 (keys con) of None \<Rightarrow> splash_screen s con = None
    | Some (n, ks) \<Rightarrow> 0 \<le> n \<and> n \<le> 7 \<and> (\<exists>s' con'. splash_screen s con = Some (n, s', con') \<and>
        (\<forall>k. fb s' k = (if k \<in> visible s then 0 else fb s k)) \<and> con_ok con' \<and> keys con' = ks \<and> wrote con [] con')"
proof -
  let ?w = "sp_width s" and ?h = "sp_height s"
  have g: "511 \<le> ?w" "170 \<le> ?h" using ok by (auto simp: fb_ok_def)
  define T B X X0 where "T = ?h div 5" "B = ?h * 12 div 25" "X = (?w - 220) div 2" "X0 = (?w - 505) div 2"
  note num = layout_numbers [OF ok, folded T_B_X_X0_def]
  have y: "0 \<le> T" "T + 104 \<le> ?h" "3 \<le> B" "B + 86 \<le> ?h" and x: "0 \<le> X" "X + 220 \<le> ?w" "3 \<le> X0" "X0 + 508 \<le> ?w"
    using layout_bounds [OF g(2)] g(1) unfolding T_B_X_X0_def by auto
  have cs: "\<exists>c. col s r g b = Some c" for r g b using ok by (simp add: col_def fb_ok_def)
  obtain c1 c2 c3 c4 c5 c6 c7 c8 where c: "col s 15 15 35 = Some c1" "col s 255 255 255 = Some c2" "col s 160 170 200 = Some c3" "col s 80 85 120 = Some c4"
    "col s 40 42 70 = Some c5" "col s 70 75 110 = Some c6" "col s 50 110 210 = Some c7" "col s 80 160 255 = Some c8" using cs by metis
  obtain s1 where 1: "fill_rect s 0 0 ?w ?h c1 = Some s1" "drawn s s1" using fill_rect_spec [OF ok, of 0 0 ?w ?h c1] g by auto
  note g1 = drawn_geometry [OF 1(2)]
  have "\<exists>t. draw_str_centered s1 T (lit ''IOS'') c2 6 = Some t \<and> drawn s1 t"
    by (rule draw_str_centered_spec) (use ok y g1(2,6) screen_strings in simp_all)
  then obtain s2 where 2: "draw_str_centered s1 T (lit ''IOS'') c2 6 = Some s2" "drawn s1 s2" by (elim exE conjE)
  have d2: "drawn s s2" by (rule drawn_trans [OF 1(2) 2(2)])
  note g2 = drawn_geometry [OF d2]
  obtain s3 where 3: "fill_rect s2 X (T + 6 * 8 + 15) 220 2 c4 = Some s3" "drawn s2 s3"
    using fill_rect_spec [of s2 X "T + 6 * 8 + 15" 220 2 c4] ok g x y g2 by auto
  have d3: "drawn s s3" by (rule drawn_trans [OF d2 3(2)])
  note g3 = drawn_geometry [OF d3]
  have "\<exists>t. draw_str_centered s3 (T + 6 * 8 + 15 + 25) (lit ''Select Node ID'') c3 2 = Some t \<and> drawn s3 t"
    by (rule draw_str_centered_spec) (use ok y g3(2,6) screen_strings in simp_all)
  then obtain s4 where 4: "draw_str_centered s3 (T + 6 * 8 + 15 + 25) (lit ''Select Node ID'') c3 2 = Some s4" "drawn s3 s4" by (elim exE conjE)
  have d4: "drawn s s4" by (rule drawn_trans [OF d3 4(2)])
  note g4 = drawn_geometry [OF d4]
  have "\<exists>t. draw_str_centered s4 (B + 50 + 3 + 25) (lit ''Arrow keys to select, ENTER to confirm'') c4 1 = Some t \<and> drawn s4 t"
    by (rule draw_str_centered_spec) (use ok y g4(2,6) screen_strings in simp_all)
  then obtain s5 where 5: "draw_str_centered s4 (B + 50 + 3 + 25) (lit ''Arrow keys to select, ENTER to confirm'') c4 1 = Some s5" "drawn s4 s5" by (elim exE conjE)
  have d5: "drawn s s5" by (rule drawn_trans [OF d4 5(2)])
  note g5 = drawn_geometry [OF d5]
  let ?l = "splash_loop 0 X0 B (c7, c8, c5, c6, c2) s5 con"
  have run: "splash_screen s con = do { (sel, t, con) \<leftarrow> ?l; t \<leftarrow> fill_rect t 0 0 ?w ?h 0; Some (sel, t, con) }"
    using c 1(1) 2(1) 3(1) 4(1) 5(1) num unfolding splash_screen_def Let_def by simp
  have l: "case chosen 0 (keys con) of None \<Rightarrow> ?l = None
     | Some (n, ks) \<Rightarrow> 0 \<le> n \<and> n \<le> 7 \<and> (\<exists>s' con'. ?l = Some (n, s', con') \<and> drawn s5 s' \<and> con_ok con' \<and> keys con' = ks \<and> wrote con [] con')"
    by (rule splash_loop_spec) (use ok con x y g5 in auto)
  show ?thesis
  proof (cases "chosen 0 (keys con)")
    case None
    then show ?thesis using l run by simp
  next
    case (Some r)
    obtain n ks where r: "r = (n, ks)" by (cases r)
    obtain t con' where t: "?l = Some (n, t, con')" "drawn s5 t" "con_ok con'" "keys con' = ks" "wrote con [] con'" "0 \<le> n" "n \<le> 7"
      using l Some r by auto
    have dt: "drawn s t" by (rule drawn_trans [OF d5 t(2)])
    note gt = drawn_geometry [OF dt]
    obtain t' where t': "fill_rect t 0 0 ?w ?h 0 = Some t'" "\<forall>k. fb t' k = (if k \<in> rect t 0 0 ?w ?h then 0 else fb t k)"
      using fill_rect_spec [of t 0 0 ?w ?h 0] ok g gt by auto
    have "rect t 0 0 ?w ?h = visible s" using whole_rect [of t] gt by simp
    then have "\<forall>k. fb t' k = (if k \<in> visible s then 0 else fb s k)" using t'(2) dt by (simp add: drawn_def)
    then show ?thesis using Some r run t t'(1) by simp
  qed
qed

text \<open>C18: The boot screen. On every frame buffer of at least 511 by 170 pixels whose lines fit the mapped memory, \<open>splash_screen\<close> writes
  visible pixels only (no overflow, no write outside the buffer, nothing in the padding of the lines), and leaves them
  all black. It returns exactly when Enter is among the keys, with the number that the arrow keys in front of it
  select, which is a valid node; the keys behind Enter are left for the shell. To the
  terminal it writes nothing of its own: what appears there are the messages that arrive on the serial port meanwhile.\<close>

theorem splash_screen_correct:
  assumes "fb_ok s" "con_ok con"
  shows "case chosen 0 (keys con) of None \<Rightarrow> splash_screen s con = None
    | Some (n, ks) \<Rightarrow> 0 \<le> n \<and> n \<le> 7 \<and> (\<exists>s' con'. splash_screen s con = Some (n, s', con') \<and>
        (\<forall>k. fb s' k = (if k \<in> visible s then 0 else fb s k)) \<and> con_ok con' \<and> keys con' = ks \<and>
        (\<exists>news. heard con' = heard con @ news \<and> screen con' = screen con @ concat (map message_text news)))"
  by (rule splash_screen_spec [OF assms, unfolded wrote_nothing])

definition demo_fb :: SplashFB where
  "demo_fb = \<lparr> fb = (\<lambda>k. 7), fb_size = 312000, sp_width = 640, sp_height = 480, pitch4 = 650, sp_r_shift = 16, sp_g_shift = 8, sp_b_shift = 0 \<rparr>"

definition demo_arrows :: console where
  "demo_arrows = demo_console\<lparr> kbd := [Ready 0xE0, Ready 0x4D, Ready 0xE0, Ready 0x4D, Ready 0xE0, Ready 0x4B, Ready 0x1C] \<rparr>"

theorem splash_screen_correct_witness:
  "\<exists>s' con'. splash_screen demo_fb demo_arrows = Some (1, s', con') \<and> fb s' 0 = 0 \<and> fb s' 645 = 7"
proof -
  have k: "keys demo_arrows = [KEY_RIGHT, KEY_RIGHT, KEY_LEFT, 10]"
    by (simp add: demo_arrows_def demo_console_def extended_key_def codeToChar_def scan_code_map_def key_codes)
  have ok: "fb_ok demo_fb" "con_ok demo_arrows" using demo_console_facts(1) by (simp_all add: fb_ok_def demo_fb_def demo_arrows_def con_ok_def)
  have "645 \<notin> visible demo_fb" "0 \<in> visible demo_fb"
  proof -
    have "645 \<noteq> y * 650 + x" if "0 \<le> x" "x < 640" for x y :: int using that by (cases "y \<le> 0") linarith+
    then show "645 \<notin> visible demo_fb" by (auto simp: visible_def demo_fb_def)
    show "0 \<in> visible demo_fb" by (force simp: visible_def demo_fb_def)
  qed
  then show ?thesis using splash_screen_correct [OF ok] by (auto simp: k key_codes demo_fb_def)
qed

end
