(* ===== verification/Fs_Layout.thy ===== *)
theory Fs_Layout
  imports Codec Cstring
begin

text \<open>
  The file system's constants and on-disk structures (\<open>src/fs/fs.h\<close>): super block, group
  descriptor, inode and directory entry as records with the source's fields in the source's order.
  \<open>dec\<close> reads a struct at the start of a byte sequence the way the packed layout places its fields,
  \<open>enc\<close> writes it; \<^const>\<open>struct_codec\<close> is discharged for each of the four.
\<close>

section \<open>Constants\<close>

definition TOTAL_DISK_SIZE :: nat where "TOTAL_DISK_SIZE = 8389632"
definition MAX_SECTOR_SIZE :: nat where "MAX_SECTOR_SIZE = 512"
definition MAX_BLOCK_SIZE :: nat where "MAX_BLOCK_SIZE = MAX_SECTOR_SIZE * 2"
definition MAX_NAME_LENGTH :: nat where "MAX_NAME_LENGTH = 256"
definition MAX_ENTRY_NAME_LENGTH :: nat where "MAX_ENTRY_NAME_LENGTH = 11"
definition FS_D_BLOCKS :: nat where "FS_D_BLOCKS = 12"
definition FS_N_BLOCKS :: nat where "FS_N_BLOCKS = 15"
definition NUMBER_OF_SECTORS :: nat where "NUMBER_OF_SECTORS = TOTAL_DISK_SIZE div MAX_SECTOR_SIZE"
definition MAX_BLOCK_GROUP_SIZE :: nat where
  "MAX_BLOCK_GROUP_SIZE = 8 * MAX_BLOCK_SIZE * MAX_BLOCK_SIZE"
definition NUMBER_OF_GROUPS :: nat where
  "NUMBER_OF_GROUPS = (TOTAL_DISK_SIZE - MAX_BLOCK_SIZE) div MAX_BLOCK_GROUP_SIZE"
definition BLOCKS_PER_GROUP :: nat where "BLOCKS_PER_GROUP = MAX_BLOCK_GROUP_SIZE div MAX_BLOCK_SIZE"
definition NUMBER_OF_BLOCK :: nat where "NUMBER_OF_BLOCK = BLOCKS_PER_GROUP * NUMBER_OF_GROUPS"
definition NUMBER_OF_INODES :: nat where "NUMBER_OF_INODES = NUMBER_OF_BLOCK div 2"
definition INODES_PER_GROUP :: nat where "INODES_PER_GROUP = NUMBER_OF_INODES div NUMBER_OF_GROUPS"
definition SECTORS_PER_BLOCK :: nat where "SECTORS_PER_BLOCK = MAX_BLOCK_SIZE div MAX_SECTOR_SIZE"
definition INODE_SIZE :: nat where "INODE_SIZE = 128"
definition INODES_PER_BLOCK :: nat where "INODES_PER_BLOCK = MAX_BLOCK_SIZE div INODE_SIZE"
definition USER_PERMISSION :: u16 where "USER_PERMISSION = 0x1FF"
definition FILE_TYPE_DIR :: u16 where "FILE_TYPE_DIR = 0x4000"
definition DIR_ENTRY_FREE :: u8 where "DIR_ENTRY_FREE = 0x01"
definition DIR_ENTRY_NO_MORE :: u8 where "DIR_ENTRY_NO_MORE = 0x00"
definition NUM_OF_ROOT_INODE :: u32 where "NUM_OF_ROOT_INODE = 2"
definition SPACE_CHAR :: u8 where "SPACE_CHAR = 0x20"
definition SUPER_BLOCK_BASE :: nat where "SUPER_BLOCK_BASE = 1"
definition GDT_BASE :: nat where "GDT_BASE = SUPER_BLOCK_BASE + 1"
definition BLOCK_NUM_GDT_PER_GROUP :: nat where
  "BLOCK_NUM_GDT_PER_GROUP = (32 * NUMBER_OF_GROUPS + (MAX_BLOCK_SIZE - 1)) div MAX_BLOCK_SIZE"
definition BLOCK_BITMAP_BASE :: nat where "BLOCK_BITMAP_BASE = GDT_BASE + BLOCK_NUM_GDT_PER_GROUP"
definition INODE_BITMAP_BASE :: nat where "INODE_BITMAP_BASE = BLOCK_BITMAP_BASE + 1"
definition INODE_TABLE_BASE :: nat where "INODE_TABLE_BASE = INODE_BITMAP_BASE + 1"
definition BLOCK_NUM_IT_PER_GROUP :: nat where
  "BLOCK_NUM_IT_PER_GROUP = (128 * INODES_PER_GROUP + (MAX_BLOCK_SIZE - 1)) div MAX_BLOCK_SIZE"
definition DATA_BLOCK_BASE :: nat where "DATA_BLOCK_BASE = INODE_TABLE_BASE + BLOCK_NUM_IT_PER_GROUP"

definition FS_ERROR :: int where "FS_ERROR = -1"
definition FS_SUCCESS :: int where "FS_SUCCESS = 0"

text \<open>\<open>sizeof\<close> of the packed structures; the super block is four bytes short of a block.\<close>

definition SUPER_BLOCK_SIZE :: nat where "SUPER_BLOCK_SIZE = 1020"
definition GROUP_DESCRIPTOR_SIZE :: nat where "GROUP_DESCRIPTOR_SIZE = 32"
definition DIR_ENTRY_SIZE :: nat where "DIR_ENTRY_SIZE = 32"

lemma layout_values [layout_simps]:
  "TOTAL_DISK_SIZE = 8389632" "MAX_SECTOR_SIZE = 512" "MAX_BLOCK_SIZE = 1024"
  "MAX_NAME_LENGTH = 256" "MAX_ENTRY_NAME_LENGTH = 11" "FS_D_BLOCKS = 12" "FS_N_BLOCKS = 15"
  "NUMBER_OF_SECTORS = 16386" "MAX_BLOCK_GROUP_SIZE = 8388608" "NUMBER_OF_GROUPS = 1"
  "BLOCKS_PER_GROUP = 8192" "NUMBER_OF_BLOCK = 8192" "NUMBER_OF_INODES = 4096"
  "INODES_PER_GROUP = 4096" "SECTORS_PER_BLOCK = 2" "INODE_SIZE = 128" "INODES_PER_BLOCK = 8"
  "SUPER_BLOCK_BASE = 1" "GDT_BASE = 2" "BLOCK_NUM_GDT_PER_GROUP = 1" "BLOCK_BITMAP_BASE = 3"
  "INODE_BITMAP_BASE = 4" "INODE_TABLE_BASE = 5" "BLOCK_NUM_IT_PER_GROUP = 512"
  "DATA_BLOCK_BASE = 517" "FS_ERROR = -1" "FS_SUCCESS = 0"
  "SUPER_BLOCK_SIZE = 1020" "GROUP_DESCRIPTOR_SIZE = 32" "DIR_ENTRY_SIZE = 32"
  by (simp_all add: TOTAL_DISK_SIZE_def MAX_SECTOR_SIZE_def MAX_BLOCK_SIZE_def MAX_NAME_LENGTH_def
      MAX_ENTRY_NAME_LENGTH_def FS_D_BLOCKS_def FS_N_BLOCKS_def NUMBER_OF_SECTORS_def
      MAX_BLOCK_GROUP_SIZE_def NUMBER_OF_GROUPS_def BLOCKS_PER_GROUP_def NUMBER_OF_BLOCK_def
      NUMBER_OF_INODES_def INODES_PER_GROUP_def SECTORS_PER_BLOCK_def INODE_SIZE_def
      INODES_PER_BLOCK_def SUPER_BLOCK_BASE_def GDT_BASE_def BLOCK_NUM_GDT_PER_GROUP_def
      BLOCK_BITMAP_BASE_def INODE_BITMAP_BASE_def INODE_TABLE_BASE_def BLOCK_NUM_IT_PER_GROUP_def
      DATA_BLOCK_BASE_def FS_ERROR_def FS_SUCCESS_def SUPER_BLOCK_SIZE_def
      GROUP_DESCRIPTOR_SIZE_def DIR_ENTRY_SIZE_def)

lemma bslice_from_0: "bslice 0 n xs = take n xs"
  by (simp add: bslice_def)

section \<open>Super block\<close>

record SuperBlock =
  sb_maxInodeCount :: u32
  sb_blockCount :: u32
  sb_reservedBlockCount :: u32
  sb_freeBlockCount :: u32
  sb_freeInodeCount :: u32
  sb_firstDataBlock :: u32
  sb_logBlockSize :: u32
  sb_logFragmentationSize :: u32
  sb_blockPerGroup :: u32
  sb_fragmentationPerGroup :: u32
  sb_inodePerGroup :: u32
  sb_mtime :: u32
  sb_wtime :: u32
  sb_mountCount :: u16
  sb_maxMountCount :: u16
  sb_magicSignature :: u16
  sb_state :: u16
  sb_errors :: u16
  sb_minorVersion :: u16
  sb_lastConsistencyCheckTime :: u32
  sb_checkInterval :: u32
  sb_creatorOs :: u32
  sb_uidThatCanUseReservedBlocks :: u16
  sb_gidThatCanUseReservedBlocks :: u16
  sb_firstNonReservedInode :: u32
  sb_inodeStructureSize :: u16
  sb_blockGroupNumber :: u16
  sb_compatibleFeatureFlags :: u32
  sb_incompatibleFeatureFlags :: u32
  sb_readOnlyFeatureFlags :: u32
  sb_uuid :: "u32 list"
  sb_volumeName :: "u32 list"
  sb_lastMountedPath :: "u32 list"
  sb_algorithmUsageBitmap :: u32
  sb_preallocatedBlocksCount :: u8
  sb_preallocatedDirBlocksCount :: u8
  sb_padding :: bytes
  sb_journalUuid :: "u32 list"
  sb_journalInodeNumber :: u32
  sb_journalDevice :: u32
  sb_orphanInodeList :: u32
  sb_hashSeed :: "u32 list"
  sb_definedHashVersion :: u8
  sb_padding1 :: u8
  sb_padding2 :: bytes
  sb_defaultMountOption :: u32
  sb_firstDataBlockEachGroup :: u32
  sb_reserved :: bytes

definition decSuperBlock :: "bytes \<Rightarrow> SuperBlock" where
  "decSuperBlock bs = \<lparr>
     sb_maxInodeCount = rd32 bs 0,
     sb_blockCount = rd32 bs 4,
     sb_reservedBlockCount = rd32 bs 8,
     sb_freeBlockCount = rd32 bs 12,
     sb_freeInodeCount = rd32 bs 16,
     sb_firstDataBlock = rd32 bs 20,
     sb_logBlockSize = rd32 bs 24,
     sb_logFragmentationSize = rd32 bs 28,
     sb_blockPerGroup = rd32 bs 32,
     sb_fragmentationPerGroup = rd32 bs 36,
     sb_inodePerGroup = rd32 bs 40,
     sb_mtime = rd32 bs 44,
     sb_wtime = rd32 bs 48,
     sb_mountCount = rd16 bs 52,
     sb_maxMountCount = rd16 bs 54,
     sb_magicSignature = rd16 bs 56,
     sb_state = rd16 bs 58,
     sb_errors = rd16 bs 60,
     sb_minorVersion = rd16 bs 62,
     sb_lastConsistencyCheckTime = rd32 bs 64,
     sb_checkInterval = rd32 bs 68,
     sb_creatorOs = rd32 bs 72,
     sb_uidThatCanUseReservedBlocks = rd16 bs 76,
     sb_gidThatCanUseReservedBlocks = rd16 bs 78,
     sb_firstNonReservedInode = rd32 bs 80,
     sb_inodeStructureSize = rd16 bs 84,
     sb_blockGroupNumber = rd16 bs 86,
     sb_compatibleFeatureFlags = rd32 bs 88,
     sb_incompatibleFeatureFlags = rd32 bs 92,
     sb_readOnlyFeatureFlags = rd32 bs 96,
     sb_uuid = rd32s bs 100 4,
     sb_volumeName = rd32s bs 116 4,
     sb_lastMountedPath = rd32s bs 132 16,
     sb_algorithmUsageBitmap = rd32 bs 196,
     sb_preallocatedBlocksCount = bs ! 200,
     sb_preallocatedDirBlocksCount = bs ! 201,
     sb_padding = bslice 202 2 bs,
     sb_journalUuid = rd32s bs 204 4,
     sb_journalInodeNumber = rd32 bs 220,
     sb_journalDevice = rd32 bs 224,
     sb_orphanInodeList = rd32 bs 228,
     sb_hashSeed = rd32s bs 232 4,
     sb_definedHashVersion = bs ! 248,
     sb_padding1 = bs ! 249,
     sb_padding2 = bslice 250 2 bs,
     sb_defaultMountOption = rd32 bs 252,
     sb_firstDataBlockEachGroup = rd32 bs 256,
     sb_reserved = bslice 260 760 bs \<rparr>"

definition encSuperBlock :: "SuperBlock \<Rightarrow> bytes" where
  "encSuperBlock x =
     le32 (sb_maxInodeCount x) @
     le32 (sb_blockCount x) @
     le32 (sb_reservedBlockCount x) @
     le32 (sb_freeBlockCount x) @
     le32 (sb_freeInodeCount x) @
     le32 (sb_firstDataBlock x) @
     le32 (sb_logBlockSize x) @
     le32 (sb_logFragmentationSize x) @
     le32 (sb_blockPerGroup x) @
     le32 (sb_fragmentationPerGroup x) @
     le32 (sb_inodePerGroup x) @
     le32 (sb_mtime x) @
     le32 (sb_wtime x) @
     le16 (sb_mountCount x) @
     le16 (sb_maxMountCount x) @
     le16 (sb_magicSignature x) @
     le16 (sb_state x) @
     le16 (sb_errors x) @
     le16 (sb_minorVersion x) @
     le32 (sb_lastConsistencyCheckTime x) @
     le32 (sb_checkInterval x) @
     le32 (sb_creatorOs x) @
     le16 (sb_uidThatCanUseReservedBlocks x) @
     le16 (sb_gidThatCanUseReservedBlocks x) @
     le32 (sb_firstNonReservedInode x) @
     le16 (sb_inodeStructureSize x) @
     le16 (sb_blockGroupNumber x) @
     le32 (sb_compatibleFeatureFlags x) @
     le32 (sb_incompatibleFeatureFlags x) @
     le32 (sb_readOnlyFeatureFlags x) @
     le32s (sb_uuid x) @
     le32s (sb_volumeName x) @
     le32s (sb_lastMountedPath x) @
     le32 (sb_algorithmUsageBitmap x) @
     [sb_preallocatedBlocksCount x] @
     [sb_preallocatedDirBlocksCount x] @
     sb_padding x @
     le32s (sb_journalUuid x) @
     le32 (sb_journalInodeNumber x) @
     le32 (sb_journalDevice x) @
     le32 (sb_orphanInodeList x) @
     le32s (sb_hashSeed x) @
     [sb_definedHashVersion x] @
     [sb_padding1 x] @
     sb_padding2 x @
     le32 (sb_defaultMountOption x) @
     le32 (sb_firstDataBlockEachGroup x) @
     sb_reserved x"

definition wfSuperBlock :: "SuperBlock \<Rightarrow> bool" where
  "wfSuperBlock x \<longleftrightarrow> length (sb_uuid x) = 4 \<and> length (sb_volumeName x) = 4 \<and> length (sb_lastMountedPath x) = 16 \<and> length (sb_padding x) = 2 \<and> length (sb_journalUuid x) = 4 \<and> length (sb_hashSeed x) = 4 \<and> length (sb_padding2 x) = 2 \<and> length (sb_reserved x) = 760"

interpretation super_codec: struct_codec SUPER_BLOCK_SIZE encSuperBlock decSuperBlock wfSuperBlock
proof
  show "0 < SUPER_BLOCK_SIZE" by (simp add: layout_simps)
  show "wfSuperBlock x \<Longrightarrow> length (encSuperBlock x) = SUPER_BLOCK_SIZE" for x
    by (simp add: wfSuperBlock_def encSuperBlock_def layout_simps codec_simps)
  show "wfSuperBlock x \<Longrightarrow> decSuperBlock (encSuperBlock x @ r) = x" for x r
    by (simp add: wfSuperBlock_def encSuperBlock_def decSuperBlock_def codec_simps)
  show "SUPER_BLOCK_SIZE \<le> length bs \<Longrightarrow> wfSuperBlock (decSuperBlock bs)" for bs
    by (simp add: wfSuperBlock_def decSuperBlock_def layout_simps codec_simps buf_simps)
  show "SUPER_BLOCK_SIZE \<le> length bs \<Longrightarrow> encSuperBlock (decSuperBlock bs) = take SUPER_BLOCK_SIZE bs" for bs
    by (simp add: encSuperBlock_def decSuperBlock_def layout_simps codec_simps flip: bslice_from_0)
qed

section \<open>Group descriptor\<close>

record GroupDescriptor =
  gd_startBlockOfBlockBitmap :: u32
  gd_startBlockOfInodeBitmap :: u32
  gd_startBlockOfInodeTable :: u32
  gd_freeBlocksCount :: u16
  gd_freeInodesCount :: u16
  gd_directoriesCount :: u16
  gd_padding :: bytes
  gd_reserved :: bytes

definition decGroupDescriptor :: "bytes \<Rightarrow> GroupDescriptor" where
  "decGroupDescriptor bs = \<lparr>
     gd_startBlockOfBlockBitmap = rd32 bs 0,
     gd_startBlockOfInodeBitmap = rd32 bs 4,
     gd_startBlockOfInodeTable = rd32 bs 8,
     gd_freeBlocksCount = rd16 bs 12,
     gd_freeInodesCount = rd16 bs 14,
     gd_directoriesCount = rd16 bs 16,
     gd_padding = bslice 18 2 bs,
     gd_reserved = bslice 20 12 bs \<rparr>"

definition encGroupDescriptor :: "GroupDescriptor \<Rightarrow> bytes" where
  "encGroupDescriptor x =
     le32 (gd_startBlockOfBlockBitmap x) @
     le32 (gd_startBlockOfInodeBitmap x) @
     le32 (gd_startBlockOfInodeTable x) @
     le16 (gd_freeBlocksCount x) @
     le16 (gd_freeInodesCount x) @
     le16 (gd_directoriesCount x) @
     gd_padding x @
     gd_reserved x"

definition wfGroupDescriptor :: "GroupDescriptor \<Rightarrow> bool" where
  "wfGroupDescriptor x \<longleftrightarrow> length (gd_padding x) = 2 \<and> length (gd_reserved x) = 12"

interpretation group_codec: struct_codec GROUP_DESCRIPTOR_SIZE encGroupDescriptor decGroupDescriptor wfGroupDescriptor
proof
  show "0 < GROUP_DESCRIPTOR_SIZE" by (simp add: layout_simps)
  show "wfGroupDescriptor x \<Longrightarrow> length (encGroupDescriptor x) = GROUP_DESCRIPTOR_SIZE" for x
    by (simp add: wfGroupDescriptor_def encGroupDescriptor_def layout_simps codec_simps)
  show "wfGroupDescriptor x \<Longrightarrow> decGroupDescriptor (encGroupDescriptor x @ r) = x" for x r
    by (simp add: wfGroupDescriptor_def encGroupDescriptor_def decGroupDescriptor_def codec_simps)
  show "GROUP_DESCRIPTOR_SIZE \<le> length bs \<Longrightarrow> wfGroupDescriptor (decGroupDescriptor bs)" for bs
    by (simp add: wfGroupDescriptor_def decGroupDescriptor_def layout_simps codec_simps buf_simps)
  show "GROUP_DESCRIPTOR_SIZE \<le> length bs \<Longrightarrow> encGroupDescriptor (decGroupDescriptor bs) = take GROUP_DESCRIPTOR_SIZE bs" for bs
    by (simp add: encGroupDescriptor_def decGroupDescriptor_def layout_simps codec_simps flip: bslice_from_0)
qed

section \<open>Inode\<close>

record Inode =
  i_mode :: u16
  i_uid :: u16
  i_size :: u32
  i_atime :: u32
  i_ctime :: u32
  i_mtime :: u32
  i_dtime :: u32
  i_gid :: u16
  i_linksCount :: u16
  i_blocks :: u32
  i_flags :: u32
  i_reserved1 :: u32
  i_block :: "u32 list"
  i_generation :: u32
  i_fileAcl :: u32
  i_dirAcl :: u32
  i_faddr :: u32
  i_reserved2 :: "u32 list"

definition decInode :: "bytes \<Rightarrow> Inode" where
  "decInode bs = \<lparr>
     i_mode = rd16 bs 0,
     i_uid = rd16 bs 2,
     i_size = rd32 bs 4,
     i_atime = rd32 bs 8,
     i_ctime = rd32 bs 12,
     i_mtime = rd32 bs 16,
     i_dtime = rd32 bs 20,
     i_gid = rd16 bs 24,
     i_linksCount = rd16 bs 26,
     i_blocks = rd32 bs 28,
     i_flags = rd32 bs 32,
     i_reserved1 = rd32 bs 36,
     i_block = rd32s bs 40 15,
     i_generation = rd32 bs 100,
     i_fileAcl = rd32 bs 104,
     i_dirAcl = rd32 bs 108,
     i_faddr = rd32 bs 112,
     i_reserved2 = rd32s bs 116 3 \<rparr>"

definition encInode :: "Inode \<Rightarrow> bytes" where
  "encInode x =
     le16 (i_mode x) @
     le16 (i_uid x) @
     le32 (i_size x) @
     le32 (i_atime x) @
     le32 (i_ctime x) @
     le32 (i_mtime x) @
     le32 (i_dtime x) @
     le16 (i_gid x) @
     le16 (i_linksCount x) @
     le32 (i_blocks x) @
     le32 (i_flags x) @
     le32 (i_reserved1 x) @
     le32s (i_block x) @
     le32 (i_generation x) @
     le32 (i_fileAcl x) @
     le32 (i_dirAcl x) @
     le32 (i_faddr x) @
     le32s (i_reserved2 x)"

definition wfInode :: "Inode \<Rightarrow> bool" where
  "wfInode x \<longleftrightarrow> length (i_block x) = 15 \<and> length (i_reserved2 x) = 3"

interpretation inode_codec: struct_codec INODE_SIZE encInode decInode wfInode
proof
  show "0 < INODE_SIZE" by (simp add: layout_simps)
  show "wfInode x \<Longrightarrow> length (encInode x) = INODE_SIZE" for x
    by (simp add: wfInode_def encInode_def layout_simps codec_simps)
  show "wfInode x \<Longrightarrow> decInode (encInode x @ r) = x" for x r
    by (simp add: wfInode_def encInode_def decInode_def codec_simps)
  show "INODE_SIZE \<le> length bs \<Longrightarrow> wfInode (decInode bs)" for bs
    by (simp add: wfInode_def decInode_def layout_simps codec_simps buf_simps)
  show "INODE_SIZE \<le> length bs \<Longrightarrow> encInode (decInode bs) = take INODE_SIZE bs" for bs
    by (simp add: encInode_def decInode_def layout_simps codec_simps flip: bslice_from_0)
qed

section \<open>Directory entry\<close>

record DirEntry =
  d_inode :: u32
  d_name :: bytes
  d_nameLen :: u32
  d_pad :: bytes

definition decDirEntry :: "bytes \<Rightarrow> DirEntry" where
  "decDirEntry bs = \<lparr>
     d_inode = rd32 bs 0,
     d_name = bslice 4 11 bs,
     d_nameLen = rd32 bs 15,
     d_pad = bslice 19 13 bs \<rparr>"

definition encDirEntry :: "DirEntry \<Rightarrow> bytes" where
  "encDirEntry x =
     le32 (d_inode x) @
     d_name x @
     le32 (d_nameLen x) @
     d_pad x"

definition wfDirEntry :: "DirEntry \<Rightarrow> bool" where
  "wfDirEntry x \<longleftrightarrow> length (d_name x) = 11 \<and> length (d_pad x) = 13"

interpretation dirent_codec: struct_codec DIR_ENTRY_SIZE encDirEntry decDirEntry wfDirEntry
proof
  show "0 < DIR_ENTRY_SIZE" by (simp add: layout_simps)
  show "wfDirEntry x \<Longrightarrow> length (encDirEntry x) = DIR_ENTRY_SIZE" for x
    by (simp add: wfDirEntry_def encDirEntry_def layout_simps codec_simps)
  show "wfDirEntry x \<Longrightarrow> decDirEntry (encDirEntry x @ r) = x" for x r
    by (simp add: wfDirEntry_def encDirEntry_def decDirEntry_def codec_simps)
  show "DIR_ENTRY_SIZE \<le> length bs \<Longrightarrow> wfDirEntry (decDirEntry bs)" for bs
    by (simp add: wfDirEntry_def decDirEntry_def layout_simps codec_simps buf_simps)
  show "DIR_ENTRY_SIZE \<le> length bs \<Longrightarrow> encDirEntry (decDirEntry bs) = take DIR_ENTRY_SIZE bs" for bs
    by (simp add: encDirEntry_def decDirEntry_def layout_simps codec_simps flip: bslice_from_0)
qed

section \<open>Nodes\<close>

record DirEntryLocation =
  l_group :: u32
  l_block :: u32
  l_offset :: u32

text \<open>
  A node's pointer to the file system is not a field: the program has one \<open>Filesystem\<close> object, every
  node points at it, and it is the state that the operations thread.
\<close>

record FsNode =
  n_entry :: DirEntry
  n_location :: DirEntryLocation

text \<open>The all-zero structs that \<open>memset\<close> leaves.\<close>

definition zero_inode :: Inode where "zero_inode = decInode (replicate INODE_SIZE 0)"
definition zero_entry :: DirEntry where "zero_entry = decDirEntry (replicate DIR_ENTRY_SIZE 0)"
definition zero_node :: FsNode where
  "zero_node = \<lparr> n_entry = zero_entry, n_location = \<lparr> l_group = 0, l_block = 0, l_offset = 0 \<rparr> \<rparr>"

end
