(* ===== verification/Disksim.thy ===== *)
theory Disksim
  imports Fs_Layout
begin

text \<open>
  The simulated disk (\<open>src/fs/disksim.c\<close>) and the block layer over it (\<open>blockRead\<close> and \<open>blockWrite\<close>
  of \<open>src/fs/fs.c\<close>). The state is the \<open>DiskOperations\<close> record together with the static array
  \<open>diskStorage\<close>; the function pointers of the record only ever hold \<open>disksimRead\<close> and
  \<open>disksimWrite\<close> and are not fields. A local block buffer is the list of the bytes of it that have
  been written: an uninitialised buffer is the empty list.

  The locale \<open>block_device\<close> is what the file system relies on: reading returns what was last written
  to that block. Its interpretation on \<open>blockRead\<close> and \<open>blockWrite\<close> carries every proof of the
  layers above.
\<close>

section \<open>Sectors\<close>

record Disk =
  numberOfSectors :: u32
  bytesPerSector :: u32
  pdata :: bool
  diskStorage :: "nat \<Rightarrow> u8"

definition disksimInit :: "u32 \<Rightarrow> u32 \<Rightarrow> Disk option \<Rightarrow> int \<times> Disk option" where
  "disksimInit sectors bps disk = (case disk of
     None \<Rightarrow> (-1, None)
   | Some d \<Rightarrow> (0, Some (d\<lparr> pdata := True, numberOfSectors := sectors, bytesPerSector := bps \<rparr>)))"

definition disksimUninit :: "Disk option \<Rightarrow> Disk option" where
  "disksimUninit disk = (case disk of None \<Rightarrow> None | Some d \<Rightarrow> Some (d\<lparr> pdata := False \<rparr>))"

definition storage_read :: "(nat \<Rightarrow> u8) \<Rightarrow> nat \<Rightarrow> nat \<Rightarrow> bytes" where
  "storage_read st a n = map st [a..<a + n]"

definition storage_write :: "(nat \<Rightarrow> u8) \<Rightarrow> nat \<Rightarrow> bytes \<Rightarrow> nat \<Rightarrow> u8" where
  "storage_write st a bs = (\<lambda>x. if a \<le> x \<and> x < a + length bs then bs ! (x - a) else st x)"

definition disksimRead :: "Disk \<Rightarrow> u32 \<Rightarrow> bytes \<Rightarrow> nat \<Rightarrow> (int \<times> bytes) option" where
  "disksimRead d sector buf off =
    (if \<not> pdata d then None
     else if numberOfSectors d \<le> sector then Some (-1, buf)
     else let a = unat (sector * bytesPerSector d); n = unat (bytesPerSector d) in
       if a + n \<le> TOTAL_DISK_SIZE \<and> off \<le> length buf \<and> off + n \<le> MAX_BLOCK_SIZE
       then Some (0, overwrite buf off (storage_read (diskStorage d) a n)) else None)"

definition disksimWrite :: "Disk \<Rightarrow> u32 \<Rightarrow> bytes \<Rightarrow> nat \<Rightarrow> (int \<times> Disk) option" where
  "disksimWrite d sector data off =
    (if \<not> pdata d then None
     else if numberOfSectors d \<le> sector then Some (-1, d)
     else let a = unat (sector * bytesPerSector d); n = unat (bytesPerSector d) in
       if a + n \<le> TOTAL_DISK_SIZE \<and> off + n \<le> length data
       then Some (0, d\<lparr> diskStorage := storage_write (diskStorage d) a (bslice off n data) \<rparr>) else None)"

section \<open>Blocks\<close>

fun read_sectors :: "Disk \<Rightarrow> u32 \<Rightarrow> nat list \<Rightarrow> int \<times> bytes \<Rightarrow> (int \<times> bytes) option" where
  "read_sectors d sectorNum [] (result, buf) = Some (result, buf)"
| "read_sectors d sectorNum (i # is) (result, buf) =
     do { rb \<leftarrow> disksimRead d (sectorNum + of_nat i) buf (i * MAX_SECTOR_SIZE);
          read_sectors d sectorNum is rb }"

fun write_sectors :: "bytes \<Rightarrow> u32 \<Rightarrow> nat list \<Rightarrow> int \<times> Disk \<Rightarrow> (int \<times> Disk) option" where
  "write_sectors data sectorNum [] (result, d) = Some (result, d)"
| "write_sectors data sectorNum (i # is) (result, d) =
     do { rd \<leftarrow> disksimWrite d (sectorNum + of_nat i) data (i * MAX_SECTOR_SIZE);
          write_sectors data sectorNum is rd }"

definition blockRead :: "Disk \<Rightarrow> u32 \<Rightarrow> bytes \<Rightarrow> (int \<times> bytes) option" where
  "blockRead d block buf =
     read_sectors d (block * of_nat SECTORS_PER_BLOCK) [0..<SECTORS_PER_BLOCK] (0, buf)"

definition blockWrite :: "Disk \<Rightarrow> u32 \<Rightarrow> bytes \<Rightarrow> (int \<times> Disk) option" where
  "blockWrite d block data =
     write_sectors data (block * of_nat SECTORS_PER_BLOCK) [0..<SECTORS_PER_BLOCK] (0, d)"

section \<open>The contract of a block device\<close>

locale block_device =
  fixes ok :: "'d \<Rightarrow> bool"
    and nblocks :: nat
    and bsize :: nat
    and rd :: "'d \<Rightarrow> u32 \<Rightarrow> bytes \<Rightarrow> (int \<times> bytes) option"
    and wr :: "'d \<Rightarrow> u32 \<Rightarrow> bytes \<Rightarrow> (int \<times> 'd) option"
    and content :: "'d \<Rightarrow> nat \<Rightarrow> bytes"
    and put :: "'d \<Rightarrow> nat \<Rightarrow> bytes \<Rightarrow> 'd"
  assumes rd_content: "ok d \<Longrightarrow> unat b < nblocks \<Longrightarrow> length buf \<le> bsize \<Longrightarrow>
      rd d b buf = Some (0, content d (unat b))"
    and wr_put: "ok d \<Longrightarrow> unat b < nblocks \<Longrightarrow> length bs = bsize \<Longrightarrow>
      wr d b bs = Some (0, put d (unat b) bs)"
    and ok_put [simp]: "ok (put d k bs) = ok d"
    and content_length [simp]: "length (content d k) = bsize"
    and content_put: "length bs = bsize \<Longrightarrow>
      content (put d k bs) j = (if j = k then bs else content d j)"
    and put_put: "length bs = bsize \<Longrightarrow> length bs' = bsize \<Longrightarrow>
      put (put d k bs') k bs = put d k bs"
    and put_commute: "j \<noteq> k \<Longrightarrow> length bs = bsize \<Longrightarrow> length bs' = bsize \<Longrightarrow>
      put (put d j bs') k bs = put (put d k bs) j bs'"
    and put_content: "put d k (content d k) = d"
begin

text \<open>A block just written is read back, and reading any other block is not affected.\<close>

lemma read_after_write:
  assumes "ok d" "unat b < nblocks" "unat c < nblocks" "length bs = bsize" "length buf \<le> bsize"
  shows "Option.bind (wr d b bs) (\<lambda>(r, d'). rd d' c buf) =
    (if c = b then Some (0, bs) else rd d c buf)"
  using assms by (auto simp: wr_put rd_content content_put word_unat_eq_iff)

text \<open>The read-modify-write of one block, the shape of every metadata update of the file system.\<close>

lemma read_modify_write:
  assumes "ok d" "unat b < nblocks" "\<And>bs. length bs = bsize \<Longrightarrow> length (f bs) = bsize"
  shows "Option.bind (rd d b []) (\<lambda>(r, bs). wr d b (f bs)) =
    Some (0, put d (unat b) (f (content d (unat b))))"
  using assms by (simp add: rd_content wr_put)

end

section \<open>The simulated disk is a block device\<close>

definition disk_blocks :: nat where "disk_blocks = NUMBER_OF_SECTORS div SECTORS_PER_BLOCK"

definition disk_ok :: "Disk \<Rightarrow> bool" where
  "disk_ok d \<longleftrightarrow> pdata d \<and> unat (numberOfSectors d) = NUMBER_OF_SECTORS \<and>
     unat (bytesPerSector d) = MAX_SECTOR_SIZE"

definition dblock :: "Disk \<Rightarrow> nat \<Rightarrow> bytes" where
  "dblock d k = storage_read (diskStorage d) (k * MAX_BLOCK_SIZE) MAX_BLOCK_SIZE"

definition put_block :: "Disk \<Rightarrow> nat \<Rightarrow> bytes \<Rightarrow> Disk" where
  "put_block d k bs = d\<lparr> diskStorage := storage_write (diskStorage d) (k * MAX_BLOCK_SIZE) bs \<rparr>"

lemma disk_blocks_value [layout_simps]: "disk_blocks = 8193"
  by (simp add: disk_blocks_def layout_simps)

lemma length_storage_read [simp]: "length (storage_read st a n) = n"
  by (simp add: storage_read_def)

lemma storage_read_append: "storage_read st a n @ storage_read st (a + n) m = storage_read st a (n + m)"
  using upt_add_eq_append [of a "a + n" m] by (simp add: storage_read_def add.assoc)

lemma storage_write_append:
  "storage_write (storage_write st a xs) (a + length xs) ys = storage_write st a (xs @ ys)"
  by (rule ext) (auto simp: storage_write_def nth_append)

lemma storage_write_commute:
  "a + length xs \<le> b \<or> b + length ys \<le> a \<Longrightarrow>
   storage_write (storage_write st a xs) b ys = storage_write (storage_write st b ys) a xs"
  by (rule ext, unfold storage_write_def) (simp, linarith)

lemma storage_read_write:
  "storage_read (storage_write st a bs) c n =
    map (\<lambda>x. if a \<le> x \<and> x < a + length bs then bs ! (x - a) else st x) [c..<c + n]"
  by (simp add: storage_read_def storage_write_def)

lemma disksimRead_ok:
  assumes "disk_ok d" and "unat s < NUMBER_OF_SECTORS"
    and "off \<le> length buf" and "off + MAX_SECTOR_SIZE \<le> MAX_BLOCK_SIZE"
  shows "disksimRead d s buf off =
    Some (0, overwrite buf off (storage_read (diskStorage d) (unat s * MAX_SECTOR_SIZE) MAX_SECTOR_SIZE))"
proof -
  have "unat (s * bytesPerSector d) = unat s * MAX_SECTOR_SIZE"
    using assms by (subst unat_mult_no_wrap) (auto simp: disk_ok_def layout_simps)
  moreover have "unat s * MAX_SECTOR_SIZE + MAX_SECTOR_SIZE \<le> TOTAL_DISK_SIZE"
    using assms(2) by (simp add: layout_simps)
  ultimately show ?thesis
    using assms by (simp add: disksimRead_def disk_ok_def word_le_nat_alt Let_def)
qed

lemma disksimWrite_ok:
  assumes "disk_ok d" and "unat s < NUMBER_OF_SECTORS" and "off + MAX_SECTOR_SIZE \<le> length data"
  shows "disksimWrite d s data off =
    Some (0, d\<lparr> diskStorage :=
      storage_write (diskStorage d) (unat s * MAX_SECTOR_SIZE) (bslice off MAX_SECTOR_SIZE data) \<rparr>)"
proof -
  have "unat (s * bytesPerSector d) = unat s * MAX_SECTOR_SIZE"
    using assms by (subst unat_mult_no_wrap) (auto simp: disk_ok_def layout_simps)
  moreover have "unat s * MAX_SECTOR_SIZE + MAX_SECTOR_SIZE \<le> TOTAL_DISK_SIZE"
    using assms(2) by (simp add: layout_simps)
  ultimately show ?thesis
    using assms by (simp add: disksimWrite_def disk_ok_def word_le_nat_alt Let_def)
qed

lemma block_sectors:
  assumes "unat (b :: u32) < disk_blocks"
  shows "unat (b * 2) = unat b * 2" and "unat (b * 2 + 1) = unat b * 2 + 1"
proof -
  show two: "unat (b * 2) = unat b * 2"
    using assms by (subst unat_mult_no_wrap) (auto simp: layout_simps)
  show "unat (b * 2 + 1) = unat b * 2 + 1"
    using assms two by (subst unat_add_no_wrap) (auto simp: layout_simps)
qed

lemma sector_list: "[0..<SECTORS_PER_BLOCK] = [0, Suc 0]"
  by (simp add: layout_simps upt_rec)

lemma blockRead_ok:
  assumes "disk_ok d" and "unat b < disk_blocks" and "length buf \<le> MAX_BLOCK_SIZE"
  shows "blockRead d b buf = Some (0, dblock d (unat b))"
proof -
  let ?st = "diskStorage d" and ?a = "unat b * 1024"
  define b0 where "b0 = overwrite buf 0 (storage_read ?st ?a 512)"
  have len: "512 \<le> length b0" "length b0 \<le> 1024"
    using assms(3) by (auto simp: b0_def overwrite_def layout_simps)
  have r0: "disksimRead d (b * 2) buf 0 = Some (0, b0)"
    using assms(1,2) block_sectors [OF assms(2)]
    by (subst disksimRead_ok) (auto simp: b0_def layout_simps mult.commute)
  have r1: "disksimRead d (b * 2 + 1) b0 512 = Some (0, overwrite b0 512 (storage_read ?st (?a + 512) 512))"
    using assms(1,2) block_sectors [OF assms(2)] len
    by (subst disksimRead_ok) (auto simp: layout_simps algebra_simps)
  have "overwrite b0 512 (storage_read ?st (?a + 512) 512) = dblock d (unat b)"
    using len storage_read_append [of ?st ?a 512 512] assms(3)
    by (simp add: b0_def overwrite_def dblock_def layout_simps)
  with r0 r1 show ?thesis
    unfolding blockRead_def sector_list by (simp add: layout_simps)
qed

lemma blockWrite_ok:
  assumes "disk_ok d" and "unat b < disk_blocks" and "length bs = MAX_BLOCK_SIZE"
  shows "blockWrite d b bs = Some (0, put_block d (unat b) bs)"
proof -
  let ?d = "d\<lparr> diskStorage := storage_write (diskStorage d) (unat b * 1024) (bslice 0 512 bs) \<rparr>"
  have ok: "disk_ok ?d" using assms(1) by (simp add: disk_ok_def)
  have "bslice 0 512 bs @ bslice 512 512 bs = bs" "length (bslice 0 512 bs) = 512"
    using assms(3) by (simp_all add: bslice_def layout_simps)
  then show ?thesis
    using assms ok storage_write_append [of "diskStorage d" "unat b * 1024" "bslice 0 512 bs" "bslice 512 512 bs"]
    unfolding blockWrite_def sector_list put_block_def
    using block_sectors [OF assms(2)] by (simp add: disksimWrite_ok layout_simps algebra_simps)
qed

text \<open>A block number outside the disk is refused: nothing is read and nothing is written.\<close>

lemma block_out_of_range:
  assumes "disk_ok d" and "NUMBER_OF_SECTORS \<le> unat (b * of_nat SECTORS_PER_BLOCK)"
  shows "blockRead d b buf = Some (-1, buf) \<and> blockWrite d b data = Some (-1, d)"
proof -
  let ?s = "b * of_nat SECTORS_PER_BLOCK"
  have "even (?s)" by (simp add: layout_simps)
  then have "1 + ?s \<noteq> 0" using odd_one even_plus_one_iff [of ?s] even_zero by (metis add.commute)
  then have "unat (?s + 1) = unat ?s + 1"
    using unatSuc [of ?s] by (simp add: add.commute)
  then have "numberOfSectors d \<le> ?s" "numberOfSectors d \<le> ?s + 1"
    using assms by (simp_all add: disk_ok_def word_le_nat_alt)
  then show ?thesis
    using assms(1) unfolding blockRead_def blockWrite_def sector_list
    by (simp add: disksimRead_def disksimWrite_def disk_ok_def)
qed

lemma dblock_put_block:
  assumes "length bs = MAX_BLOCK_SIZE"
  shows "dblock (put_block d k bs) j = (if j = k then bs else dblock d j)"
proof (cases "j = k")
  case True
  then show ?thesis
    using assms by (auto simp: dblock_def put_block_def storage_read_write intro!: nth_equalityI)
next
  case False
  have "\<not> (k * MAX_BLOCK_SIZE \<le> x \<and> x < k * MAX_BLOCK_SIZE + MAX_BLOCK_SIZE)"
    if "j * MAX_BLOCK_SIZE \<le> x" "x < j * MAX_BLOCK_SIZE + MAX_BLOCK_SIZE" for x
    using False that unfolding layout_simps by linarith
  with False assms show ?thesis
    by (auto simp: dblock_def put_block_def storage_write_def storage_read_def)
qed

interpretation blk: block_device disk_ok disk_blocks MAX_BLOCK_SIZE blockRead blockWrite dblock put_block
proof
  show "disk_ok (put_block d k bs) = disk_ok d" for d k bs by (simp add: disk_ok_def put_block_def)
  show "length (dblock d k) = MAX_BLOCK_SIZE" for d k by (simp add: dblock_def)
  show "put_block (put_block d k bs') k bs = put_block d k bs"
    if "length bs = MAX_BLOCK_SIZE" "length bs' = MAX_BLOCK_SIZE" for d k bs bs'
    using that by (simp add: put_block_def storage_write_def fun_eq_iff)
  show "put_block (put_block d j bs') k bs = put_block (put_block d k bs) j bs'"
    if "j \<noteq> k" "length bs = MAX_BLOCK_SIZE" "length bs' = MAX_BLOCK_SIZE" for d j k bs bs'
  proof -
    have "j * MAX_BLOCK_SIZE + MAX_BLOCK_SIZE \<le> k * MAX_BLOCK_SIZE \<or>
        k * MAX_BLOCK_SIZE + MAX_BLOCK_SIZE \<le> j * MAX_BLOCK_SIZE"
      using \<open>j \<noteq> k\<close> unfolding layout_simps by linarith
    then have "storage_write (storage_write st (j * MAX_BLOCK_SIZE) bs') (k * MAX_BLOCK_SIZE) bs =
        storage_write (storage_write st (k * MAX_BLOCK_SIZE) bs) (j * MAX_BLOCK_SIZE) bs'" for st
      using that by (intro storage_write_commute) simp
    then show ?thesis by (simp add: put_block_def)
  qed
  show "put_block d k (dblock d k) = d" for d k
    by (auto simp: put_block_def dblock_def storage_write_def storage_read_def fun_eq_iff
        intro!: Disk.equality)
qed (simp_all add: blockRead_ok blockWrite_ok dblock_put_block)

lemmas block_simps = blk.rd_content blk.wr_put blk.content_put

end
