(* ===== verification/Fs_Meta.thy ===== *)
theory Fs_Meta
  imports Disksim Bit_Array "HOL-Library.Signed_Division"
begin

text \<open>
  The metadata layer of the file system (\<open>src/fs/fs.c\<close>): bits of the two bitmaps, allocation of
  inodes and blocks, the free counters of the super block and of the group descriptors, and the
  inode table. The mounted file system, with its copies of the super block and the first group
  descriptor, is the state; only the disk behind it changes.
\<close>

record Filesystem =
  fs_sb :: SuperBlock
  fs_gd :: GroupDescriptor
  fs_disk :: Disk

definition fsRd :: "Filesystem \<Rightarrow> u32 \<Rightarrow> bytes \<Rightarrow> (int \<times> bytes) option" where
  "fsRd fs b buf = blockRead (fs_disk fs) b buf"

definition fsWr :: "Filesystem \<Rightarrow> u32 \<Rightarrow> bytes \<Rightarrow> (int \<times> Filesystem) option" where
  "fsWr fs b data = do { (r, d) \<leftarrow> blockWrite (fs_disk fs) b data; Some (r, fs\<lparr> fs_disk := d \<rparr>) }"

section \<open>Bits\<close>

text \<open>The \<open>switch\<close> over the bit offset that \<open>setBit\<close> and \<open>setZeroBit\<close> share.\<close>

definition bit_value :: "nat \<Rightarrow> u8" where
  "bit_value offset = [0x80, 0x40, 0x20, 0x10, 0x8, 0x4, 0x2, 0x1] ! offset"

definition or_bit :: "nat \<Rightarrow> bytes \<Rightarrow> bytes" where
  "or_bit n bitmap = bitmap[n div 8 := bitmap ! (n div 8) OR bit_value (n mod 8)]"

definition and_not_bit :: "nat \<Rightarrow> bytes \<Rightarrow> bytes" where
  "and_not_bit n bitmap = bitmap[n div 8 := bitmap ! (n div 8) AND NOT (bit_value (n mod 8))]"

definition setBit :: "u32 \<Rightarrow> bytes \<Rightarrow> bytes option" where
  "setBit number bitmap =
     (if unat (number div 8) < length bitmap then Some (or_bit (unat number) bitmap) else None)"

definition setZeroBit :: "u32 \<Rightarrow> bytes \<Rightarrow> bytes option" where
  "setZeroBit number bitmap =
     (if unat (number div 8) < length bitmap then Some (and_not_bit (unat number) bitmap) else None)"

definition bm_used :: "bytes \<Rightarrow> nat \<Rightarrow> bool" where
  "bm_used bitmap n \<longleftrightarrow> (bitmap ! (n div 8)) AND drop_bit (n mod 8) 0x80 \<noteq> 0"

section \<open>Allocation\<close>

definition flip_bit :: "nat \<Rightarrow> nat \<Rightarrow> bytes \<Rightarrow> bytes option" where
  "flip_bit indexNum bitNum bitmap =
     (if indexNum < length bitmap
      then Some (bitmap[indexNum := bitmap ! indexNum XOR drop_bit (bitNum mod 8) 0x80]) else None)"

definition group_block :: "Filesystem \<Rightarrow> nat \<Rightarrow> u32" where
  "group_block fs base = ucast (sb_blockGroupNumber (fs_sb fs)) * of_nat BLOCKS_PER_GROUP + of_nat base"

definition setInodeBitmap :: "Filesystem \<Rightarrow> bytes \<Rightarrow> nat \<Rightarrow> nat \<Rightarrow> (int \<times> Filesystem) option" where
  "setInodeBitmap fs i_bitmap bitNum indexNum = do {
     bm \<leftarrow> flip_bit indexNum bitNum i_bitmap;
     (_, fs) \<leftarrow> fsWr fs (group_block fs INODE_BITMAP_BASE) bm;
     Some (FS_SUCCESS, fs) }"

definition setBlockBitmap :: "Filesystem \<Rightarrow> bytes \<Rightarrow> nat \<Rightarrow> nat \<Rightarrow> (int \<times> Filesystem) option" where
  "setBlockBitmap fs b_bitmap bitNum indexNum = do {
     bm \<leftarrow> flip_bit indexNum bitNum b_bitmap;
     (_, fs) \<leftarrow> fsWr fs (group_block fs BLOCK_BITMAP_BASE) bm;
     Some (FS_SUCCESS, fs) }"

text \<open>
  The two nested loops over bytes and bits: the result is the byte index and bit of the first clear
  bit, \<^term>\<open>Some None\<close> when the loops run out.
\<close>

function scan_bitmap :: "bytes \<Rightarrow> nat \<Rightarrow> nat \<Rightarrow> (nat \<times> nat) option option" where
  "scan_bitmap bm i n =
     (if i < n then
        (if i < length bm then
           (if bm ! i \<noteq> 0xff then
              (case first_from (\<lambda>j. bm ! i AND drop_bit j 0x80 = 0) 0 8 of
                 Some j \<Rightarrow> Some (Some (i, j))
               | None \<Rightarrow> scan_bitmap bm (Suc i) n)
            else scan_bitmap bm (Suc i) n)
         else None)
      else Some None)"
  by pat_completeness auto
termination
  by (relation "measure (\<lambda>(bm, i, n). n - i)") auto

declare scan_bitmap.simps [simp del]

definition scan_bound :: "u32 \<Rightarrow> nat" where
  "scan_bound perGroup = min (unat ((perGroup + 7) div 8)) MAX_BLOCK_SIZE"

definition getFreeInodeNumber :: "Filesystem \<Rightarrow> (u32 \<times> Filesystem) option" where
  "getFreeInodeNumber fs = do {
     (_, i_bitmap) \<leftarrow> fsRd fs (group_block fs INODE_BITMAP_BASE) [];
     found \<leftarrow> scan_bitmap i_bitmap 0 (scan_bound (sb_inodePerGroup (fs_sb fs)));
     case found of
       None \<Rightarrow> Some (0, fs)
     | Some (i, j) \<Rightarrow> do {
         (_, fs) \<leftarrow> setInodeBitmap fs i_bitmap (8 * i + j) i;
         Some (of_nat (8 * i + j + 1), fs) } }"

definition getFreeBlockNumber :: "Filesystem \<Rightarrow> (u32 \<times> Filesystem) option" where
  "getFreeBlockNumber fs = do {
     (_, b_bitmap) \<leftarrow> fsRd fs (group_block fs BLOCK_BITMAP_BASE) [];
     found \<leftarrow> scan_bitmap b_bitmap 0 (scan_bound (sb_blockPerGroup (fs_sb fs)));
     case found of
       None \<Rightarrow> Some (0, fs)
     | Some (i, j) \<Rightarrow> do {
         (_, fs) \<leftarrow> setBlockBitmap fs b_bitmap (8 * i + j) i;
         Some (group_block fs 0 + of_nat (8 * i + j), fs) } }"

section \<open>Free counters\<close>

definition setSbFreeBlockCount :: "Filesystem \<Rightarrow> int \<Rightarrow> (int \<times> Filesystem) option" where
  "setSbFreeBlockCount fs num = do {
     (_, block) \<leftarrow> fsRd fs (of_nat SUPER_BLOCK_BASE) [];
     sb \<leftarrow> struct_at SUPER_BLOCK_SIZE decSuperBlock block 0;
     if num > 0 \<or> sb_freeBlockCount sb \<ge> word_of_int (- num) then do {
       block \<leftarrow> struct_put SUPER_BLOCK_SIZE encSuperBlock block 0
         (sb\<lparr> sb_freeBlockCount := sb_freeBlockCount sb + word_of_int num \<rparr>);
       (_, fs) \<leftarrow> fsWr fs (of_nat SUPER_BLOCK_BASE) block;
       Some (FS_SUCCESS, fs) }
     else Some (FS_ERROR, fs) }"

definition setSbFreeInodeCount :: "Filesystem \<Rightarrow> int \<Rightarrow> (int \<times> Filesystem) option" where
  "setSbFreeInodeCount fs num = do {
     (_, block) \<leftarrow> fsRd fs (of_nat SUPER_BLOCK_BASE) [];
     sb \<leftarrow> struct_at SUPER_BLOCK_SIZE decSuperBlock block 0;
     if num > 0 \<or> sb_freeInodeCount sb \<ge> word_of_int (- num) then do {
       block \<leftarrow> struct_put SUPER_BLOCK_SIZE encSuperBlock block 0
         (sb\<lparr> sb_freeInodeCount := sb_freeInodeCount sb + word_of_int num \<rparr>);
       (_, fs) \<leftarrow> fsWr fs (of_nat SUPER_BLOCK_BASE) block;
       Some (FS_SUCCESS, fs) }
     else Some (FS_ERROR, fs) }"

definition GET_INODE_GROUP :: "u32 \<Rightarrow> u32" where
  "GET_INODE_GROUP x = (x - 1) div of_nat (NUMBER_OF_INODES div NUMBER_OF_GROUPS)"

definition GET_DATA_GROUP :: "u32 \<Rightarrow> u32" where
  "GET_DATA_GROUP x = (x - 1) div of_nat BLOCKS_PER_GROUP"

text \<open>Block and index of a group's descriptor; the product with \<open>sizeof\<close> is 64 bits wide.\<close>

definition gd_blockNum :: "u32 \<Rightarrow> u32" where
  "gd_blockNum groupNum = of_nat (unat groupNum * GROUP_DESCRIPTOR_SIZE div MAX_BLOCK_SIZE)"

definition gd_block_offset :: "u32 \<Rightarrow> nat" where
  "gd_block_offset groupNum = unat groupNum mod (MAX_BLOCK_SIZE div GROUP_DESCRIPTOR_SIZE)"

definition setGdFreeBlockCount :: "Filesystem \<Rightarrow> u32 \<Rightarrow> int \<Rightarrow> (int \<times> Filesystem) option" where
  "setGdFreeBlockCount fs free_data_block num = do {
     let groupNum = GET_DATA_GROUP free_data_block;
     (_, block) \<leftarrow> fsRd fs (of_nat GDT_BASE + gd_blockNum groupNum) [];
     gd \<leftarrow> struct_at GROUP_DESCRIPTOR_SIZE decGroupDescriptor block (gd_block_offset groupNum);
     if num > 0 \<or> uint (gd_freeBlocksCount gd) \<ge> - num then do {
       block \<leftarrow> struct_put GROUP_DESCRIPTOR_SIZE encGroupDescriptor block (gd_block_offset groupNum)
         (gd\<lparr> gd_freeBlocksCount := gd_freeBlocksCount gd + word_of_int num \<rparr>);
       (_, fs) \<leftarrow> fsWr fs (of_nat GDT_BASE + gd_blockNum groupNum) block;
       Some (FS_SUCCESS, fs) }
     else Some (FS_ERROR, fs) }"

definition setGdFreeInodeCount :: "Filesystem \<Rightarrow> u32 \<Rightarrow> int \<Rightarrow> (int \<times> Filesystem) option" where
  "setGdFreeInodeCount fs freeInode num = do {
     let groupNum = GET_INODE_GROUP freeInode;
     (_, block) \<leftarrow> fsRd fs (of_nat GDT_BASE + gd_blockNum groupNum) [];
     gd \<leftarrow> struct_at GROUP_DESCRIPTOR_SIZE decGroupDescriptor block (gd_block_offset groupNum);
     if num > 0 \<or> uint (gd_freeInodesCount gd) \<ge> - num then do {
       block \<leftarrow> struct_put GROUP_DESCRIPTOR_SIZE encGroupDescriptor block (gd_block_offset groupNum)
         (gd\<lparr> gd_freeInodesCount := gd_freeInodesCount gd + word_of_int num \<rparr>);
       (_, fs) \<leftarrow> fsWr fs (of_nat GDT_BASE + gd_blockNum groupNum) block;
       Some (FS_SUCCESS, fs) }
     else Some (FS_ERROR, fs) }"

section \<open>The inode table\<close>

text \<open>
  \<open>getInode\<close> leaves the caller's buffer alone when it fails: the result is then
  \<^term>\<open>Some None\<close>, and a caller that goes on to use the buffer reads an uninitialised object.
\<close>

definition getInode :: "Filesystem \<Rightarrow> u32 \<Rightarrow> Inode option option" where
  "getInode fs inode_num =
    (if inode_num = 0 \<or> inode_num > of_nat NUMBER_OF_INODES then Some None
     else do {
       let inode_num = inode_num - 1;
       let groupNumber = inode_num div of_nat INODES_PER_GROUP;
       let group_inode_offset = inode_num mod of_nat INODES_PER_GROUP;
       let blockNumber = group_inode_offset div of_nat INODES_PER_BLOCK;
       let block_inode_offset = group_inode_offset mod of_nat INODES_PER_BLOCK;
       (r, block) \<leftarrow> fsRd fs
         (of_nat INODE_TABLE_BASE + groupNumber * of_nat BLOCKS_PER_GROUP + blockNumber) [];
       if r \<noteq> 0 then Some None
       else do {
         inode \<leftarrow> struct_at INODE_SIZE decInode block (unat block_inode_offset);
         Some (Some inode) } })"

definition insertInodeTable :: "Filesystem \<Rightarrow> Inode \<Rightarrow> int \<Rightarrow> (int \<times> Filesystem) option" where
  "insertInodeTable fs inode_entry freeInode = do {
     let freeInode = freeInode - 1;
     let groupNum = (word_of_int (freeInode sdiv int INODES_PER_GROUP) :: u32);
     let blockNum = (word_of_int ((freeInode smod int INODES_PER_GROUP) sdiv int INODES_PER_BLOCK) :: u32);
     let block_offset = (word_of_int ((freeInode smod int INODES_PER_GROUP) smod int INODES_PER_BLOCK) :: u32);
     let target = groupNum * of_nat BLOCKS_PER_GROUP + of_nat INODE_TABLE_BASE + blockNum;
     (_, block) \<leftarrow> fsRd fs target [];
     block \<leftarrow> struct_put INODE_SIZE encInode block (unat block_offset) inode_entry;
     (_, fs) \<leftarrow> fsWr fs target block;
     Some (FS_SUCCESS, fs) }"

section \<open>The mounted disk as a block device\<close>

definition fs_ok :: "Filesystem \<Rightarrow> bool" where
  "fs_ok fs \<longleftrightarrow> disk_ok (fs_disk fs)"

definition fblock :: "Filesystem \<Rightarrow> nat \<Rightarrow> bytes" where
  "fblock fs k = dblock (fs_disk fs) k"

definition fput :: "Filesystem \<Rightarrow> nat \<Rightarrow> bytes \<Rightarrow> Filesystem" where
  "fput fs k bs = fs\<lparr> fs_disk := put_block (fs_disk fs) k bs \<rparr>"

interpretation fsd: block_device fs_ok disk_blocks MAX_BLOCK_SIZE fsRd fsWr fblock fput
proof
  show "fput (fput fs k bs') k bs = fput fs k bs"
    if "length bs = MAX_BLOCK_SIZE" "length bs' = MAX_BLOCK_SIZE" for fs k bs bs'
    using that by (simp add: fput_def blk.put_put)
  show "fput (fput fs j bs') k bs = fput (fput fs k bs) j bs'"
    if "j \<noteq> k" "length bs = MAX_BLOCK_SIZE" "length bs' = MAX_BLOCK_SIZE" for fs j k bs bs'
    using blk.put_commute [OF that] by (simp add: fput_def)
  show "fput fs k (fblock fs k) = fs" for fs k
    by (simp add: fput_def fblock_def blk.put_content)
qed (simp_all add: fs_ok_def fblock_def fput_def fsRd_def fsWr_def block_simps)

lemmas fsd_simps = fsd.rd_content fsd.wr_put fsd.content_put

lemma fput_fields [simp]: "fs_sb (fput fs k bs) = fs_sb fs" "fs_gd (fput fs k bs) = fs_gd fs"
  by (simp_all add: fput_def)

text \<open>What mounting leaves in memory: the disk is attached and the geometry is that of the format.\<close>

definition mounted :: "Filesystem \<Rightarrow> bool" where
  "mounted fs \<longleftrightarrow> fs_ok fs \<and> sb_blockGroupNumber (fs_sb fs) = 0 \<and>
     unat (sb_inodePerGroup (fs_sb fs)) = INODES_PER_GROUP \<and>
     unat (sb_blockPerGroup (fs_sb fs)) = BLOCKS_PER_GROUP"

lemma mounted_fput [simp]: "mounted (fput fs k bs) = mounted fs"
  by (simp add: mounted_def)

lemma mounted_ok: "mounted fs \<Longrightarrow> fs_ok fs"
  by (simp add: mounted_def)

section \<open>The bitmaps are bit arrays\<close>

lemma less_8_cases:
  "(k :: nat) < 8 \<Longrightarrow> k = 0 \<or> k = 1 \<or> k = 2 \<or> k = 3 \<or> k = 4 \<or> k = 5 \<or> k = 6 \<or> k = 7"
  by linarith

lemma bit_value_eq: "k < 8 \<Longrightarrow> bit_value k = push_bit (7 - k) 1 \<and> drop_bit k (0x80 :: u8) = push_bit (7 - k) 1"
  by (drule less_8_cases) (auto simp: bit_value_def drop_bit_eq_div)

interpretation fs_bits: packed_bits "\<lambda>k. 7 - k" bm_used or_bit and_not_bit
proof
  fix n :: nat and bm :: bytes
  have v: "bit_value (n mod 8) = push_bit (7 - n mod 8) 1"
    "drop_bit (n mod 8) (0x80 :: u8) = push_bit (7 - n mod 8) 1"
    using bit_value_eq [of "n mod 8"] by auto
  show "bm_used bm n = bit (bm ! (n div 8)) (7 - n mod 8)"
    by (simp add: bm_used_def v bit_iff_and_push_bit_not_eq_0)
  show "or_bit n bm = bm[n div 8 := set_bit (7 - n mod 8) (bm ! (n div 8))]"
    by (simp add: or_bit_def v set_bit_eq_or)
  show "and_not_bit n bm = bm[n div 8 := unset_bit (7 - n mod 8) (bm ! (n div 8))]"
    by (simp add: and_not_bit_def v unset_bit_eq_and_not)
qed auto

lemmas bm_simps = fs_bits.test_put fs_bits.test_clear fs_bits.packed_length

lemma setBit_eq: "unat n < 8 * length bm \<Longrightarrow> setBit n bm = Some (or_bit (unat n) bm)"
  by (auto simp: setBit_def unat_div_distrib)

lemma setZeroBit_eq: "unat n < 8 * length bm \<Longrightarrow> setZeroBit n bm = Some (and_not_bit (unat n) bm)"
  by (auto simp: setZeroBit_def unat_div_distrib)

lemma flip_bit_eq:
  assumes "n < 8 * length bm" and "\<not> bm_used bm n"
  shows "flip_bit (n div 8) n bm = Some (or_bit n bm)"
proof -
  have v: "bit_value (n mod 8) = push_bit (7 - n mod 8) 1"
    "drop_bit (n mod 8) (0x80 :: u8) = push_bit (7 - n mod 8) 1"
    using bit_value_eq [of "n mod 8"] by auto
  have "\<not> bit (bm ! (n div 8)) (7 - n mod 8)" using assms by (simp add: fs_bits.tst_eq)
  then have "bm ! (n div 8) XOR push_bit (7 - n mod 8) 1 = bm ! (n div 8) OR push_bit (7 - n mod 8) 1"
    by (intro bit_word_eqI) (auto simp: bit_simps)
  with assms show ?thesis by (auto simp: flip_bit_def or_bit_def v)
qed

lemma full_byte: "(b :: u8) = 0xff \<Longrightarrow> k < 8 \<Longrightarrow> b AND drop_bit k 0x80 \<noteq> 0"
  by (drule less_8_cases) (auto simp: drop_bit_eq_div)

lemma scan_bitmap_eq:
  "n \<le> length bm \<Longrightarrow> scan_bitmap bm i n =
     Some (map_option (\<lambda>k. (k div 8, k mod 8)) (first_from (\<lambda>k. \<not> bm_used bm k) (8 * i) (8 * n)))"
proof (induction bm i n rule: scan_bitmap.induct)
  case (1 bm i n)
  let ?Q = "\<lambda>j. bm ! i AND drop_bit j 0x80 = 0" and ?P = "\<lambda>k. \<not> bm_used bm k"
  have PQ: "?P (8 * i + j) = ?Q j" if "j < 8" for j
    using that by (simp add: bm_used_def)
  show ?case
  proof (cases "i < n")
    case False
    then show ?thesis by (simp add: scan_bitmap.simps [of bm] first_from_step)
  next
    case True
    show ?thesis
    proof (cases "first_from ?Q 0 8")
      case None
      then have none: "\<not> ?P k" if "8 * i \<le> k" "k < 8 * Suc i" for k
        using PQ [of "k - 8 * i"] that by (auto simp: first_from_None_iff)
      have "scan_bitmap bm i n = scan_bitmap bm (Suc i) n"
        using True 1 None by (simp add: scan_bitmap.simps [of bm i])
      moreover have "first_from ?P (8 * i) (8 * n) = first_from ?P (8 * Suc i) (8 * n)"
        using none by (intro first_from_skip) auto
      moreover have "scan_bitmap bm (Suc i) n =
          Some (map_option (\<lambda>k. (k div 8, k mod 8)) (first_from ?P (8 * Suc i) (8 * n)))"
        using True 1 None by (cases "bm ! i = 0xff") auto
      ultimately show ?thesis by simp
    next
      case (Some j)
      then have j: "j < 8" "?Q j" "\<forall>k<j. \<not> ?Q k" by (auto simp: first_from_Some_iff)
      have "bm ! i \<noteq> 0xff" using full_byte [of "bm ! i" j] j by auto
      then have scan: "scan_bitmap bm i n = Some (Some (i, j))"
        using True 1 Some by (simp add: scan_bitmap.simps [of bm i])
      have "\<not> ?P k" if "8 * i \<le> k" "k < 8 * i + j" for k
        using PQ [of "k - 8 * i"] j that by auto
      then have "first_from ?P (8 * i) (8 * n) = Some (8 * i + j)"
        using PQ [of j] j True by (auto simp: first_from_Some_iff)
      with scan j show ?thesis by simp
    qed
  qed
qed

section \<open>Allocation takes the first free number\<close>

definition block_used :: "Filesystem \<Rightarrow> nat \<Rightarrow> bool" where
  "block_used fs k = bm_used (fblock fs BLOCK_BITMAP_BASE) k"

definition inode_used :: "Filesystem \<Rightarrow> nat \<Rightarrow> bool" where
  "inode_used fs n = bm_used (fblock fs INODE_BITMAP_BASE) (n - 1)"

definition mark_block :: "Filesystem \<Rightarrow> nat \<Rightarrow> Filesystem" where
  "mark_block fs k = fput fs BLOCK_BITMAP_BASE (or_bit k (fblock fs BLOCK_BITMAP_BASE))"

definition mark_inode :: "Filesystem \<Rightarrow> nat \<Rightarrow> Filesystem" where
  "mark_inode fs n = fput fs INODE_BITMAP_BASE (or_bit (n - 1) (fblock fs INODE_BITMAP_BASE))"

definition unmark_block :: "Filesystem \<Rightarrow> nat \<Rightarrow> Filesystem" where
  "unmark_block fs k = fput fs BLOCK_BITMAP_BASE (and_not_bit k (fblock fs BLOCK_BITMAP_BASE))"

definition unmark_inode :: "Filesystem \<Rightarrow> nat \<Rightarrow> Filesystem" where
  "unmark_inode fs n = fput fs INODE_BITMAP_BASE (and_not_bit (n - 1) (fblock fs INODE_BITMAP_BASE))"

lemma group_block_mounted:
  "mounted fs \<Longrightarrow> group_block fs base = of_nat base"
  by (simp add: group_block_def mounted_def)

lemma scan_bound_values:
  assumes "mounted fs"
  shows "scan_bound (sb_inodePerGroup (fs_sb fs)) = 512" "scan_bound (sb_blockPerGroup (fs_sb fs)) = 1024"
proof -
  have "sb_inodePerGroup (fs_sb fs) = 4096" "sb_blockPerGroup (fs_sb fs) = 8192"
    using assms by (auto simp: mounted_def layout_simps dest!: word_eq_of_nat)
  then show "scan_bound (sb_inodePerGroup (fs_sb fs)) = 512"
    "scan_bound (sb_blockPerGroup (fs_sb fs)) = 1024"
    by (simp_all add: scan_bound_def layout_simps unat_div_distrib)
qed

lemma of_nat_div_mod: "8 * of_nat (k div 8) + of_nat (k mod 8) = (of_nat k :: u32)"
proof -
  have "(of_nat (8 * (k div 8) + k mod 8) :: u32) = of_nat k" by simp
  then show ?thesis by (simp only: of_nat_add of_nat_mult of_nat_numeral)
qed

lemma getFreeBlockNumber_eq:
  assumes "mounted fs"
  shows "getFreeBlockNumber fs =
    Some (case first_from (\<lambda>k. \<not> block_used fs k) 0 BLOCKS_PER_GROUP of
            None \<Rightarrow> (0, fs) | Some k \<Rightarrow> (of_nat k, mark_block fs k))"
proof -
  let ?bm = "fblock fs 3"
  have rd: "fsRd fs (group_block fs 3) [] = Some (0, ?bm)"
    using mounted_ok [OF assms] group_block_mounted [OF assms, of 3] by (simp add: fsd_simps layout_simps)
  have len: "length ?bm = 1024" using fsd.content_length by (simp add: layout_simps)
  have scan: "scan_bitmap ?bm 0 1024 =
      Some (map_option (\<lambda>k. (k div 8, k mod 8)) (first_from (\<lambda>k. \<not> bm_used ?bm k) 0 8192))"
    using scan_bitmap_eq [of 1024 ?bm 0] len by simp
  have set: "setBlockBitmap fs ?bm k (k div 8) = Some (0, fput fs 3 (or_bit k ?bm))"
    if "k < 8192" "\<not> bm_used ?bm k" for k
    using that len mounted_ok [OF assms] group_block_mounted [OF assms, of 3]
    by (simp add: setBlockBitmap_def flip_bit_eq fsd.wr_put bm_simps layout_simps)
  show ?thesis
  proof (cases "first_from (\<lambda>k. \<not> bm_used ?bm k) 0 8192")
    case None
    then show ?thesis
      unfolding getFreeBlockNumber_def block_used_def scan_bound_values [OF assms] layout_simps by (simp add: rd scan)
  next
    case (Some k)
    then have "k < 8192" "\<not> bm_used ?bm k" by (auto simp: first_from_Some_iff)
    with Some show ?thesis
      unfolding getFreeBlockNumber_def block_used_def mark_block_def scan_bound_values [OF assms] layout_simps
      by (simp add: rd scan set group_block_mounted [where base = 0] assms of_nat_div_mod)
  qed
qed

lemma getFreeInodeNumber_eq:
  assumes "mounted fs"
  shows "getFreeInodeNumber fs =
    Some (case first_from (\<lambda>k. \<not> inode_used fs (Suc k)) 0 INODES_PER_GROUP of
            None \<Rightarrow> (0, fs) | Some k \<Rightarrow> (of_nat (Suc k), mark_inode fs (Suc k)))"
proof -
  let ?bm = "fblock fs 4"
  have rd: "fsRd fs (group_block fs 4) [] = Some (0, ?bm)"
    using mounted_ok [OF assms] group_block_mounted [OF assms, of 4] by (simp add: fsd_simps layout_simps)
  have len: "length ?bm = 1024" using fsd.content_length by (simp add: layout_simps)
  have scan: "scan_bitmap ?bm 0 512 =
      Some (map_option (\<lambda>k. (k div 8, k mod 8)) (first_from (\<lambda>k. \<not> bm_used ?bm k) 0 4096))"
    using scan_bitmap_eq [of 512 ?bm 0] len by simp
  have set: "setInodeBitmap fs ?bm k (k div 8) = Some (0, fput fs 4 (or_bit k ?bm))"
    if "k < 4096" "\<not> bm_used ?bm k" for k
    using that len mounted_ok [OF assms] group_block_mounted [OF assms, of 4]
    by (simp add: setInodeBitmap_def flip_bit_eq fsd.wr_put bm_simps layout_simps)
  show ?thesis
  proof (cases "first_from (\<lambda>k. \<not> bm_used ?bm k) 0 4096")
    case None
    then show ?thesis
      unfolding getFreeInodeNumber_def inode_used_def scan_bound_values [OF assms] layout_simps by (simp add: rd scan)
  next
    case (Some k)
    then have "k < 4096" "\<not> bm_used ?bm k" by (auto simp: first_from_Some_iff)
    with Some show ?thesis
      unfolding getFreeInodeNumber_def inode_used_def mark_inode_def scan_bound_values [OF assms] layout_simps
      by (simp add: rd scan set group_block_mounted [where base = 0] assms of_nat_div_mod)
  qed
qed

section \<open>The counters\<close>

definition sb_of :: "Filesystem \<Rightarrow> SuperBlock" where
  "sb_of fs = decSuperBlock (fblock fs SUPER_BLOCK_BASE)"

definition gd_of :: "Filesystem \<Rightarrow> GroupDescriptor" where
  "gd_of fs = decGroupDescriptor (fblock fs GDT_BASE)"

definition put_sb :: "Filesystem \<Rightarrow> SuperBlock \<Rightarrow> Filesystem" where
  "put_sb fs sb = fput fs SUPER_BLOCK_BASE (overwrite (fblock fs SUPER_BLOCK_BASE) 0 (encSuperBlock sb))"

definition put_gd :: "Filesystem \<Rightarrow> GroupDescriptor \<Rightarrow> Filesystem" where
  "put_gd fs gd = fput fs GDT_BASE (overwrite (fblock fs GDT_BASE) 0 (encGroupDescriptor gd))"

lemma fblock_length [simp]: "length (fblock fs k) = 1024"
  using fsd.content_length [of fs k] by (simp add: layout_simps)

lemma sb_at: "struct_at SUPER_BLOCK_SIZE decSuperBlock (fblock fs k) 0 = Some (decSuperBlock (fblock fs k))"
  by (simp add: struct_at_def layout_simps)

lemma gd_at: "struct_at GROUP_DESCRIPTOR_SIZE decGroupDescriptor (fblock fs k) 0 =
    Some (decGroupDescriptor (fblock fs k))"
  by (simp add: struct_at_def layout_simps)

lemma wf_sb_of: "wfSuperBlock (sb_of fs)"
  unfolding sb_of_def by (rule super_codec.wf_dec) (simp add: layout_simps)

lemma wf_gd_of: "wfGroupDescriptor (gd_of fs)"
  unfolding gd_of_def by (rule group_codec.wf_dec) (simp add: layout_simps)

lemma wf_sb_update [simp]:
  "wfSuperBlock sb \<Longrightarrow> wfSuperBlock (sb\<lparr> sb_freeBlockCount := v \<rparr>)"
  "wfSuperBlock sb \<Longrightarrow> wfSuperBlock (sb\<lparr> sb_freeInodeCount := v \<rparr>)"
  by (simp_all add: wfSuperBlock_def)

lemma wf_gd_update [simp]:
  "wfGroupDescriptor gd \<Longrightarrow> wfGroupDescriptor (gd\<lparr> gd_freeBlocksCount := c \<rparr>)"
  "wfGroupDescriptor gd \<Longrightarrow> wfGroupDescriptor (gd\<lparr> gd_freeInodesCount := c \<rparr>)"
  by (simp_all add: wfGroupDescriptor_def)

lemma put_sb_len:
  "wfSuperBlock sb \<Longrightarrow> length (overwrite (fblock fs k) 0 (encSuperBlock sb)) = MAX_BLOCK_SIZE"
  using super_codec.enc_length [of sb] by (simp add: buf_simps layout_simps)

lemma put_gd_len:
  "wfGroupDescriptor gd \<Longrightarrow> length (overwrite (fblock fs k) 0 (encGroupDescriptor gd)) = MAX_BLOCK_SIZE"
  using group_codec.enc_length [of gd] by (simp add: buf_simps layout_simps)

lemma fblock_put_sb:
  "wfSuperBlock sb \<Longrightarrow> fblock (put_sb fs sb) k =
     (if k = SUPER_BLOCK_BASE then overwrite (fblock fs k) 0 (encSuperBlock sb) else fblock fs k)"
  by (simp add: put_sb_def fsd.content_put put_sb_len)

lemma fblock_put_gd:
  "wfGroupDescriptor gd \<Longrightarrow> fblock (put_gd fs gd) k =
     (if k = GDT_BASE then overwrite (fblock fs k) 0 (encGroupDescriptor gd) else fblock fs k)"
  by (simp add: put_gd_def fsd.content_put put_gd_len)

lemma sb_of_put_sb: "wfSuperBlock sb \<Longrightarrow> sb_of (put_sb fs sb) = sb"
  by (simp add: sb_of_def fblock_put_sb overwrite_def super_codec.dec_enc)

lemma gd_of_put_gd: "wfGroupDescriptor gd \<Longrightarrow> gd_of (put_gd fs gd) = gd"
  by (simp add: gd_of_def fblock_put_gd overwrite_def group_codec.dec_enc)

lemma put_fields [simp]:
  "fs_sb (put_sb fs sb) = fs_sb fs" "fs_gd (put_sb fs sb) = fs_gd fs"
  "fs_sb (put_gd fs gd) = fs_sb fs" "fs_gd (put_gd fs gd) = fs_gd fs"
  by (simp_all add: put_sb_def put_gd_def)

lemma mounted_put [simp]: "mounted (put_sb fs sb) = mounted fs" "mounted (put_gd fs gd) = mounted fs"
  by (simp_all add: put_sb_def put_gd_def)

lemma fsRd_nat: "fs_ok fs \<Longrightarrow> k < disk_blocks \<Longrightarrow> fsRd fs (of_nat k) [] = Some (0, fblock fs k)"
  by (simp add: fsd.rd_content unat_le_of_nat layout_simps)

lemma fsWr_nat:
  "fs_ok fs \<Longrightarrow> k < disk_blocks \<Longrightarrow> length bs = MAX_BLOCK_SIZE \<Longrightarrow> fsWr fs (of_nat k) bs = Some (0, fput fs k bs)"
  by (simp add: fsd.wr_put unat_le_of_nat layout_simps)

lemma bases_on_disk:
  "SUPER_BLOCK_BASE < disk_blocks" "GDT_BASE < disk_blocks" "BLOCK_BITMAP_BASE < disk_blocks"
  "INODE_BITMAP_BASE < disk_blocks" "INODE_TABLE_BASE < disk_blocks" "DATA_BLOCK_BASE < disk_blocks"
  by (simp_all add: layout_simps)

lemmas fs_rw_base = fsRd_nat [OF _ bases_on_disk(1)] fsRd_nat [OF _ bases_on_disk(2)]
  fsRd_nat [OF _ bases_on_disk(3)] fsRd_nat [OF _ bases_on_disk(4)]
  fsWr_nat [OF _ bases_on_disk(1)] fsWr_nat [OF _ bases_on_disk(2)]
  fsWr_nat [OF _ bases_on_disk(3)] fsWr_nat [OF _ bases_on_disk(4)]

lemma sb_put: "struct_put SUPER_BLOCK_SIZE encSuperBlock (fblock fs k) 0 sb =
    Some (overwrite (fblock fs k) 0 (encSuperBlock sb))"
  by (simp add: struct_put_def layout_simps)

lemma gd_put: "struct_put GROUP_DESCRIPTOR_SIZE encGroupDescriptor (fblock fs k) 0 gd =
    Some (overwrite (fblock fs k) 0 (encGroupDescriptor gd))"
  by (simp add: struct_put_def layout_simps)

lemma pred_div_0:
  assumes "unat (x :: u32) \<noteq> 0" and "unat x \<le> n" and "n < 2 ^ 32"
  shows "(x - 1) div of_nat n = 0"
proof -
  have "unat (x - 1) = unat x - 1" using assms(1) by (intro unat_minus_one) auto
  moreover have "unat (of_nat n :: u32) = n" using assms(3) by (simp add: unat_le_of_nat)
  ultimately have "unat ((x - 1) div of_nat n) = 0" using assms by (simp add: unat_div_distrib)
  then show ?thesis by (simp add: unat_eq_zero)
qed

lemma first_group:
  "unat x \<noteq> 0 \<Longrightarrow> unat x \<le> BLOCKS_PER_GROUP \<Longrightarrow> GET_DATA_GROUP x = 0"
  "unat y \<noteq> 0 \<Longrightarrow> unat y \<le> NUMBER_OF_INODES \<Longrightarrow> GET_INODE_GROUP y = 0"
  unfolding GET_DATA_GROUP_def GET_INODE_GROUP_def by (rule pred_div_0; simp add: layout_simps)+

lemma gd_in_first: "gd_blockNum 0 = 0" "gd_block_offset 0 = 0"
  by (simp_all add: gd_blockNum_def gd_block_offset_def)

lemma setSbFreeBlockCount_eq:
  assumes "fs_ok fs"
  shows "setSbFreeBlockCount fs num = Some (let sb = sb_of fs in
    if num > 0 \<or> sb_freeBlockCount sb \<ge> word_of_int (- num)
    then (0, put_sb fs (sb\<lparr> sb_freeBlockCount := sb_freeBlockCount sb + word_of_int num \<rparr>))
    else (-1, fs))"
  using assms wf_sb_of [of fs]
  unfolding setSbFreeBlockCount_def sb_of_def put_sb_def FS_SUCCESS_def FS_ERROR_def
  by (simp add: fs_rw_base sb_at sb_put put_sb_len Let_def)

lemma setSbFreeInodeCount_eq:
  assumes "fs_ok fs"
  shows "setSbFreeInodeCount fs num = Some (let sb = sb_of fs in
    if num > 0 \<or> sb_freeInodeCount sb \<ge> word_of_int (- num)
    then (0, put_sb fs (sb\<lparr> sb_freeInodeCount := sb_freeInodeCount sb + word_of_int num \<rparr>))
    else (-1, fs))"
  using assms wf_sb_of [of fs]
  unfolding setSbFreeInodeCount_def sb_of_def put_sb_def FS_SUCCESS_def FS_ERROR_def
  by (simp add: fs_rw_base sb_at sb_put put_sb_len Let_def)

lemma setGdFreeBlockCount_eq:
  assumes "fs_ok fs" and "unat b \<noteq> 0" and "unat b \<le> BLOCKS_PER_GROUP"
  shows "setGdFreeBlockCount fs b num = Some (let gd = gd_of fs in
    if num > 0 \<or> uint (gd_freeBlocksCount gd) \<ge> - num
    then (0, put_gd fs (gd\<lparr> gd_freeBlocksCount := gd_freeBlocksCount gd + word_of_int num \<rparr>))
    else (-1, fs))"
  using assms wf_gd_of [of fs]
  unfolding setGdFreeBlockCount_def gd_of_def put_gd_def FS_SUCCESS_def FS_ERROR_def
  by (simp add: first_group fs_rw_base gd_at gd_put put_gd_len Let_def gd_in_first)

lemma setGdFreeInodeCount_eq:
  assumes "fs_ok fs" and "unat n \<noteq> 0" and "unat n \<le> NUMBER_OF_INODES"
  shows "setGdFreeInodeCount fs n num = Some (let gd = gd_of fs in
    if num > 0 \<or> uint (gd_freeInodesCount gd) \<ge> - num
    then (0, put_gd fs (gd\<lparr> gd_freeInodesCount := gd_freeInodesCount gd + word_of_int num \<rparr>))
    else (-1, fs))"
  using assms wf_gd_of [of fs]
  unfolding setGdFreeInodeCount_def gd_of_def put_gd_def FS_SUCCESS_def FS_ERROR_def
  by (simp add: first_group fs_rw_base gd_at gd_put put_gd_len Let_def gd_in_first)

section \<open>The inode table\<close>

definition inode_blk :: "nat \<Rightarrow> nat" where
  "inode_blk n = INODE_TABLE_BASE + (n - 1) div INODES_PER_BLOCK"

definition inode_idx :: "nat \<Rightarrow> nat" where
  "inode_idx n = (n - 1) mod INODES_PER_BLOCK"

definition inode_at :: "Filesystem \<Rightarrow> nat \<Rightarrow> Inode" where
  "inode_at fs n = decInode (drop (inode_idx n * INODE_SIZE) (fblock fs (inode_blk n)))"

definition put_inode :: "Filesystem \<Rightarrow> nat \<Rightarrow> Inode \<Rightarrow> Filesystem" where
  "put_inode fs n x = fput fs (inode_blk n)
     (overwrite (fblock fs (inode_blk n)) (inode_idx n * INODE_SIZE) (encInode x))"

definition inode_no :: "nat \<Rightarrow> bool" where
  "inode_no n \<longleftrightarrow> 1 \<le> n \<and> n \<le> NUMBER_OF_INODES"

lemma inode_idx_fits: "(inode_idx n + 1) * INODE_SIZE \<le> length (fblock fs k)"
  by (simp add: inode_idx_def layout_simps)

lemma inode_blk_range: "inode_no n \<Longrightarrow> INODE_TABLE_BASE \<le> inode_blk n \<and> inode_blk n < DATA_BLOCK_BASE"
  by (auto simp: inode_blk_def inode_no_def layout_simps)

lemma inode_blk_on_disk: "inode_no n \<Longrightarrow> inode_blk n < disk_blocks"
  using inode_blk_range [of n] by (simp add: layout_simps)

lemma inode_struct_at:
  "struct_at INODE_SIZE decInode (fblock fs (inode_blk n)) (inode_idx n) = Some (inode_at fs n)"
  using inode_idx_fits by (simp add: inode_at_def inode_codec.at_defined)

lemma wf_inode_at: "wfInode (inode_at fs n)"
  using inode_struct_at by (rule inode_codec.at_wf)

lemma put_inode_eq:
  "struct_put INODE_SIZE encInode (fblock fs (inode_blk n)) (inode_idx n) x =
     Some (overwrite (fblock fs (inode_blk n)) (inode_idx n * INODE_SIZE) (encInode x))"
  using inode_idx_fits by (simp add: struct_put_def)

lemma put_inode_len:
  "wfInode x \<Longrightarrow>
   length (overwrite (fblock fs (inode_blk n)) (inode_idx n * INODE_SIZE) (encInode x)) = MAX_BLOCK_SIZE"
  using inode_codec.put_length [OF _ put_inode_eq] by (simp add: layout_simps)

lemma inode_word_split:
  assumes "inode_no (unat n)"
  shows "of_nat INODE_TABLE_BASE + ((n - 1) div of_nat INODES_PER_GROUP) * of_nat BLOCKS_PER_GROUP +
      ((n - 1) mod of_nat INODES_PER_GROUP) div of_nat INODES_PER_BLOCK = (of_nat (inode_blk (unat n)) :: u32)"
    and "unat (((n - 1) mod of_nat INODES_PER_GROUP) mod of_nat INODES_PER_BLOCK) = inode_idx (unat n)"
proof -
  have m: "unat (n - 1) = unat n - 1" using assms by (intro unat_minus_one) (auto simp: inode_no_def)
  have z: "(n - 1) div of_nat INODES_PER_GROUP = 0"
    using assms by (intro pred_div_0) (auto simp: inode_no_def layout_simps)
  then have md: "(n - 1) mod of_nat INODES_PER_GROUP = n - 1"
    using mult_div_mod_eq [of "of_nat INODES_PER_GROUP" "n - 1"] by simp
  have "unat ((n - 1) div of_nat INODES_PER_BLOCK) = (unat n - 1) div 8"
    by (simp add: unat_div_distrib m layout_simps)
  then have "(n - 1) div of_nat INODES_PER_BLOCK = of_nat ((unat n - 1) div 8)"
    by (rule word_eq_of_nat)
  then show "of_nat INODE_TABLE_BASE + ((n - 1) div of_nat INODES_PER_GROUP) * of_nat BLOCKS_PER_GROUP +
      ((n - 1) mod of_nat INODES_PER_GROUP) div of_nat INODES_PER_BLOCK = (of_nat (inode_blk (unat n)) :: u32)"
    unfolding md z by (simp add: inode_blk_def layout_simps)
  show "unat (((n - 1) mod of_nat INODES_PER_GROUP) mod of_nat INODES_PER_BLOCK) = inode_idx (unat n)"
    unfolding md by (simp add: unat_mod_distrib m inode_idx_def layout_simps)
qed

lemma getInode_eq:
  assumes "fs_ok fs" and "inode_no (unat n)"
  shows "getInode fs n = Some (Some (inode_at fs (unat n)))"
proof -
  have "\<not> (n = 0 \<or> n > of_nat NUMBER_OF_INODES)"
    using assms(2) by (auto simp: inode_no_def word_less_nat_alt layout_simps)
  then show ?thesis
    using assms fsRd_nat [OF assms(1) inode_blk_on_disk [OF assms(2)]]
    by (simp add: getInode_def Let_def inode_word_split inode_struct_at)
qed

lemma getInode_error:
  "unat n = 0 \<or> unat n > NUMBER_OF_INODES \<Longrightarrow> getInode fs n = Some None"
  by (auto simp: getInode_def word_less_nat_alt layout_simps unat_eq_zero)

lemma insertInodeTable_eq:
  assumes "fs_ok fs" and "inode_no n" and "wfInode x"
  shows "insertInodeTable fs x (int n) = Some (FS_SUCCESS, put_inode fs n x)"
proof -
  obtain m where n: "n = Suc m" and m: "m < 4096"
    using assms(2) by (cases n) (auto simp: inode_no_def layout_simps)
  have q: "int m sdiv 4096 = 0" "int m smod 4096 = int m" "int m sdiv 8 = int (m div 8)"
    "int m smod 8 = int (m mod 8)"
    using m by (simp_all add: signed_divide_int_def signed_modulo_int_def sgn_if zdiv_int zmod_int)
  have off: "unat (of_nat (m mod 8) :: u32) = inode_idx n"
    by (simp add: n inode_idx_def layout_simps unat_le_of_nat)
  have tgt: "of_nat INODE_TABLE_BASE + of_nat (m div 8) = (of_nat (inode_blk n) :: u32)"
    by (simp add: n inode_blk_def layout_simps)
  have i: "int n - 1 = int m" by (simp add: n)
  show ?thesis
    using assms fsRd_nat [OF assms(1) inode_blk_on_disk [OF assms(2)]]
      fsWr_nat [OF assms(1) inode_blk_on_disk [OF assms(2)] put_inode_len [OF assms(3)]]
    unfolding insertInodeTable_def Let_def i
    by (simp add: q off tgt put_inode_eq put_inode_def layout_values(14,17))
qed

lemma inode_at_put_inode:
  assumes "wfInode x" and "inode_no n" and "inode_no m"
  shows "inode_at (put_inode fs n x) m = (if m = n then x else inode_at fs m)"
proof (cases "inode_blk m = inode_blk n")
  case True
  let ?bs = "overwrite (fblock fs (inode_blk n)) (inode_idx n * INODE_SIZE) (encInode x)"
  have fb: "fblock (put_inode fs n x) (inode_blk m) = ?bs"
    using True by (simp add: put_inode_def fsd.content_put put_inode_len [OF assms(1)])
  have idx: "inode_idx m = inode_idx n \<longleftrightarrow> m = n"
  proof
    assume "inode_idx m = inode_idx n"
    with True have "m - 1 = n - 1"
      unfolding inode_blk_def inode_idx_def by (metis add_left_cancel div_mod_decomp)
    with assms show "m = n" by (auto simp: inode_no_def)
  qed simp
  have "struct_at INODE_SIZE decInode ?bs (inode_idx m) =
      Some (if m = n then x else inode_at fs m)"
    using inode_codec.at_put_same [OF assms(1) put_inode_eq]
      inode_codec.at_put_other [OF assms(1) put_inode_eq, of n "inode_idx m" fs] idx
      inode_struct_at [of fs m] True by auto
  then show ?thesis
    using inode_struct_at [of "put_inode fs n x" m] by (simp add: fb)
next
  case False
  then show ?thesis
    by (auto simp: inode_at_def put_inode_def fsd.content_put put_inode_len [OF assms(1)])
qed

section \<open>What an update leaves alone\<close>

named_theorems fs_frame \<open>observations of the file system after an update of one part\<close>

lemma fblock_mark [fs_frame]:
  "fblock (mark_block fs k) j =
     (if j = BLOCK_BITMAP_BASE then or_bit k (fblock fs BLOCK_BITMAP_BASE) else fblock fs j)"
  "fblock (unmark_block fs k) j =
     (if j = BLOCK_BITMAP_BASE then and_not_bit k (fblock fs BLOCK_BITMAP_BASE) else fblock fs j)"
  "fblock (mark_inode fs n) j =
     (if j = INODE_BITMAP_BASE then or_bit (n - 1) (fblock fs INODE_BITMAP_BASE) else fblock fs j)"
  "fblock (unmark_inode fs n) j =
     (if j = INODE_BITMAP_BASE then and_not_bit (n - 1) (fblock fs INODE_BITMAP_BASE) else fblock fs j)"
  by (simp_all add: mark_block_def unmark_block_def mark_inode_def unmark_inode_def fsd.content_put
      bm_simps layout_simps)

lemma fblock_put_inode:
  "wfInode x \<Longrightarrow> j \<noteq> inode_blk n \<Longrightarrow> fblock (put_inode fs n x) j = fblock fs j"
  by (simp add: put_inode_def fsd.content_put put_inode_len)

lemma mounted_updates [simp]:
  "mounted (mark_block fs k) = mounted fs" "mounted (unmark_block fs k) = mounted fs"
  "mounted (mark_inode fs n) = mounted fs" "mounted (unmark_inode fs n) = mounted fs"
  "mounted (put_inode fs n x) = mounted fs"
  by (simp_all add: mark_block_def unmark_block_def mark_inode_def unmark_inode_def put_inode_def)

lemma block_used_mark [fs_frame]:
  assumes "k < BLOCKS_PER_GROUP" and "j < BLOCKS_PER_GROUP"
  shows "block_used (mark_block fs k) j \<longleftrightarrow> j = k \<or> block_used fs j"
    and "block_used (unmark_block fs k) j \<longleftrightarrow> j \<noteq> k \<and> block_used fs j"
  using assms by (simp_all add: block_used_def fs_frame bm_simps layout_simps)

lemma inode_used_mark [fs_frame]:
  assumes "inode_no n" and "inode_no m"
  shows "inode_used (mark_inode fs n) m \<longleftrightarrow> m = n \<or> inode_used fs m"
    and "inode_used (unmark_inode fs n) m \<longleftrightarrow> m \<noteq> n \<and> inode_used fs m"
  using assms by (auto simp: inode_used_def fs_frame bm_simps layout_simps inode_no_def)

text \<open>An observer of one block (or of the inode table) does not see an update of another.\<close>

lemma sb_of_frame: "fblock fs' SUPER_BLOCK_BASE = fblock fs SUPER_BLOCK_BASE \<Longrightarrow> sb_of fs' = sb_of fs"
  by (simp add: sb_of_def)

lemma gd_of_frame: "fblock fs' GDT_BASE = fblock fs GDT_BASE \<Longrightarrow> gd_of fs' = gd_of fs"
  by (simp add: gd_of_def)

lemma block_used_frame: "fblock fs' BLOCK_BITMAP_BASE = fblock fs BLOCK_BITMAP_BASE \<Longrightarrow> block_used fs' = block_used fs"
  by (simp add: block_used_def fun_eq_iff)

lemma inode_used_frame: "fblock fs' INODE_BITMAP_BASE = fblock fs INODE_BITMAP_BASE \<Longrightarrow> inode_used fs' = inode_used fs"
  by (simp add: inode_used_def fun_eq_iff)

lemma inode_at_frame:
  "(\<And>k. INODE_TABLE_BASE \<le> k \<Longrightarrow> k < DATA_BLOCK_BASE \<Longrightarrow> fblock fs' k = fblock fs k) \<Longrightarrow>
   inode_no n \<Longrightarrow> inode_at fs' n = inode_at fs n"
  using inode_blk_range [of n] by (simp add: inode_at_def)

lemmas observers_frame = sb_of_frame gd_of_frame block_used_frame inode_used_frame inode_at_frame

lemma frame_mark_block [fs_frame]:
  "sb_of (mark_block fs k) = sb_of fs" "gd_of (mark_block fs k) = gd_of fs"
  "inode_used (mark_block fs k) = inode_used fs"
  "inode_no n \<Longrightarrow> inode_at (mark_block fs k) n = inode_at fs n"
  "sb_of (unmark_block fs k) = sb_of fs" "gd_of (unmark_block fs k) = gd_of fs"
  "inode_used (unmark_block fs k) = inode_used fs"
  "inode_no n \<Longrightarrow> inode_at (unmark_block fs k) n = inode_at fs n"
  by (rule observers_frame; simp add: fblock_mark layout_simps)+

lemma frame_mark_inode [fs_frame]:
  "sb_of (mark_inode fs k) = sb_of fs" "gd_of (mark_inode fs k) = gd_of fs"
  "block_used (mark_inode fs k) = block_used fs"
  "inode_no n \<Longrightarrow> inode_at (mark_inode fs k) n = inode_at fs n"
  "sb_of (unmark_inode fs k) = sb_of fs" "gd_of (unmark_inode fs k) = gd_of fs"
  "block_used (unmark_inode fs k) = block_used fs"
  "inode_no n \<Longrightarrow> inode_at (unmark_inode fs k) n = inode_at fs n"
  by (rule observers_frame; simp add: fblock_mark layout_simps)+

lemma frame_put_sb [fs_frame]:
  assumes "wfSuperBlock sb"
  shows "gd_of (put_sb fs sb) = gd_of fs" "block_used (put_sb fs sb) = block_used fs"
    "inode_used (put_sb fs sb) = inode_used fs"
    "inode_no n \<Longrightarrow> inode_at (put_sb fs sb) n = inode_at fs n"
  by (rule observers_frame; simp add: fblock_put_sb [OF assms] layout_simps)+

lemma frame_put_gd [fs_frame]:
  assumes "wfGroupDescriptor gd"
  shows "sb_of (put_gd fs gd) = sb_of fs" "block_used (put_gd fs gd) = block_used fs"
    "inode_used (put_gd fs gd) = inode_used fs"
    "inode_no n \<Longrightarrow> inode_at (put_gd fs gd) n = inode_at fs n"
  by (rule observers_frame; simp add: fblock_put_gd [OF assms] layout_simps)+

lemma frame_put_inode [fs_frame]:
  assumes "wfInode x" and "inode_no n"
  shows "sb_of (put_inode fs n x) = sb_of fs" "gd_of (put_inode fs n x) = gd_of fs"
    "block_used (put_inode fs n x) = block_used fs" "inode_used (put_inode fs n x) = inode_used fs"
  using inode_blk_range [OF assms(2)]
  by (rule_tac [!] observers_frame; simp add: fblock_put_inode [OF assms(1)] layout_simps)+

text \<open>Blocks from \<open>DATA_BLOCK_BASE\<close> on hold no metadata.\<close>

lemma frame_data [fs_frame]:
  assumes "DATA_BLOCK_BASE \<le> k" and "length bs = MAX_BLOCK_SIZE"
  shows "sb_of (fput fs k bs) = sb_of fs" "gd_of (fput fs k bs) = gd_of fs"
    "block_used (fput fs k bs) = block_used fs" "inode_used (fput fs k bs) = inode_used fs"
    "inode_no n \<Longrightarrow> inode_at (fput fs k bs) n = inode_at fs n"
  using assms by (rule_tac [!] observers_frame; simp add: fsd.content_put layout_simps)+

text \<open>C22: Allocation of a block refines first-fit on the abstract bitmap: on a mounted file system
  \<open>getFreeBlockNumber\<close> returns the smallest block whose bit is clear and sets exactly that bit,
  leaving every other block of the disk as it is; when no bit is clear it returns 0 and changes
  nothing.\<close>

theorem getFreeBlockNumber_first_fit:
  assumes "mounted fs"
  shows "\<exists>b fs'. getFreeBlockNumber fs = Some (b, fs') \<and>
    (if \<forall>k < BLOCKS_PER_GROUP. block_used fs k then b = 0 \<and> fs' = fs
     else unat b < BLOCKS_PER_GROUP \<and> \<not> block_used fs (unat b) \<and> (\<forall>k < unat b. block_used fs k) \<and>
       (\<forall>k < BLOCKS_PER_GROUP. block_used fs' k \<longleftrightarrow> k = unat b \<or> block_used fs k) \<and>
       (\<forall>j. j \<noteq> BLOCK_BITMAP_BASE \<longrightarrow> fblock fs' j = fblock fs j))"
proof (cases "first_from (\<lambda>k. \<not> block_used fs k) 0 BLOCKS_PER_GROUP")
  case None
  then have "\<forall>k < BLOCKS_PER_GROUP. block_used fs k" by (simp add: first_from_None_iff)
  then show ?thesis using getFreeBlockNumber_eq [OF assms] None by auto
next
  case (Some k)
  then have k: "k < BLOCKS_PER_GROUP" "\<not> block_used fs k" "\<forall>j<k. block_used fs j"
    by (auto simp: first_from_Some_iff)
  have u: "unat (of_nat k :: u32) = k" using k(1) by (simp add: unat_le_of_nat layout_simps)
  have "getFreeBlockNumber fs = Some (of_nat k, mark_block fs k)"
    using getFreeBlockNumber_eq [OF assms] Some by simp
  moreover have "\<forall>j. j \<noteq> BLOCK_BITMAP_BASE \<longrightarrow> fblock (mark_block fs k) j = fblock fs j"
    by (simp add: fblock_mark)
  ultimately show ?thesis
    using k u block_used_mark(1) [OF k(1)] by (intro exI [of _ "of_nat k"] exI [of _ "mark_block fs k"]) auto
qed

text \<open>C23: The inode table. An inode written by \<open>insertInodeTable\<close> is what \<open>getInode\<close> returns for its
  number afterwards, and every other inode of the table is what it was; \<open>getInode\<close> refuses the
  numbers outside the table.\<close>

theorem inode_table_roundtrip:
  assumes "fs_ok fs" and "wfInode x" and "1 \<le> unat n" and "unat n \<le> NUMBER_OF_INODES"
  shows "\<exists>fs'. insertInodeTable fs x (int (unat n)) = Some (FS_SUCCESS, fs') \<and>
    (\<forall>m. getInode fs' m =
       (if m = n then Some (Some x) else getInode fs m))"
proof -
  have n: "inode_no (unat n)" using assms by (simp add: inode_no_def)
  let ?fs = "put_inode fs (unat n) x"
  have ok: "fs_ok ?fs" using assms(1) by (simp add: put_inode_def)
  have "getInode ?fs m = (if m = n then Some (Some x) else getInode fs m)" for m
  proof (cases "inode_no (unat m)")
    case True
    then show ?thesis
      using getInode_eq [OF ok True] getInode_eq [OF assms(1) True] inode_at_put_inode [OF assms(2) n True]
      by (simp add: word_unat_eq_iff)
  next
    case False
    then have e: "unat m = 0 \<or> unat m > NUMBER_OF_INODES" by (auto simp: inode_no_def)
    then have "m \<noteq> n" using assms(3,4) by auto
    then show ?thesis using getInode_error [OF e] by simp
  qed
  then show ?thesis using insertInodeTable_eq [OF assms(1) n assms(2)] by auto
qed

end
