(* ===== verification/Fs_Inv.thy ===== *)
theory Fs_Inv
  imports Fs_Meta
begin

text \<open>
  Consistency of the file system: which inode owns which block, the bitmaps and the counters that
  record it. \<open>taken\<close> and \<open>given\<close> are the two transitions that all operations are made of, a
  block leaving and re-entering the free set with both counters adjusted.
\<close>

section \<open>Ownership and counters\<close>

definition owned :: "Filesystem \<Rightarrow> nat \<Rightarrow> u32 list" where
  "owned fs n = take (unat (i_blocks (inode_at fs n))) (i_block (inode_at fs n))"

definition live :: "Filesystem \<Rightarrow> nat \<Rightarrow> bool" where
  "live fs n \<longleftrightarrow> inode_no n \<and> inode_used fs n"

definition data_block :: "nat \<Rightarrow> bool" where
  "data_block k \<longleftrightarrow> DATA_BLOCK_BASE \<le> k \<and> k < BLOCKS_PER_GROUP"

definition free_blocks :: "Filesystem \<Rightarrow> nat" where
  "free_blocks fs = fs_bits.clear_count BLOCKS_PER_GROUP (fblock fs BLOCK_BITMAP_BASE)"

definition counts_ok :: "Filesystem \<Rightarrow> bool" where
  "counts_ok fs \<longleftrightarrow> unat (sb_freeBlockCount (sb_of fs)) = free_blocks fs \<and>
     unat (gd_freeBlocksCount (gd_of fs)) = free_blocks fs"

definition base_reserved :: "Filesystem \<Rightarrow> bool" where
  "base_reserved fs \<longleftrightarrow> (\<forall>k < DATA_BLOCK_BASE. block_used fs k)"

definition inode_wf :: "Filesystem \<Rightarrow> nat \<Rightarrow> bool" where
  "inode_wf fs n \<longleftrightarrow> unat (i_blocks (inode_at fs n)) \<le> FS_N_BLOCKS \<and> distinct (owned fs n) \<and>
     (\<forall>b \<in> set (owned fs n). data_block (unat b) \<and> block_used fs (unat b))"

definition fs_inv :: "Filesystem \<Rightarrow> bool" where
  "fs_inv fs \<longleftrightarrow> mounted fs \<and> base_reserved fs \<and> counts_ok fs \<and>
     (\<forall>n. live fs n \<longrightarrow> inode_wf fs n) \<and>
     (\<forall>n m. live fs n \<longrightarrow> live fs m \<longrightarrow> n \<noteq> m \<longrightarrow> set (owned fs n) \<inter> set (owned fs m) = {})"

section \<open>A block leaves or re-enters the free set\<close>

definition add_free :: "Filesystem \<Rightarrow> int \<Rightarrow> Filesystem" where
  "add_free fs num =
    (let fs = put_sb fs ((sb_of fs)\<lparr> sb_freeBlockCount := sb_freeBlockCount (sb_of fs) + word_of_int num \<rparr>)
     in put_gd fs ((gd_of fs)\<lparr> gd_freeBlocksCount := gd_freeBlocksCount (gd_of fs) + word_of_int num \<rparr>))"

definition taken :: "Filesystem \<Rightarrow> nat \<Rightarrow> Filesystem" where
  "taken fs k = add_free (mark_block fs k) (-1)"

definition given :: "Filesystem \<Rightarrow> nat \<Rightarrow> Filesystem" where
  "given fs k = unmark_block (add_free fs 1) k"

text \<open>Everything but the block bitmap and the block counters.\<close>

definition same_rest :: "Filesystem \<Rightarrow> Filesystem \<Rightarrow> bool" where
  "same_rest fs fs' \<longleftrightarrow> (\<forall>j. j \<notin> {SUPER_BLOCK_BASE, GDT_BASE, BLOCK_BITMAP_BASE} \<longrightarrow> fblock fs' j = fblock fs j) \<and>
     sb_freeInodeCount (sb_of fs') = sb_freeInodeCount (sb_of fs) \<and>
     gd_freeInodesCount (gd_of fs') = gd_freeInodesCount (gd_of fs) \<and>
     fs_sb fs' = fs_sb fs \<and> fs_gd fs' = fs_gd fs"

lemma same_rest_refl [simp]: "same_rest fs fs"
  by (simp add: same_rest_def)

lemma same_rest_trans [trans]: "same_rest fs fs' \<Longrightarrow> same_rest fs' fs'' \<Longrightarrow> same_rest fs fs''"
  by (simp add: same_rest_def)

lemma same_rest_inodes:
  assumes "same_rest fs fs'"
  shows "inode_used fs' = inode_used fs" and "inode_no n \<Longrightarrow> inode_at fs' n = inode_at fs n"
    and "inode_no n \<Longrightarrow> owned fs' n = owned fs n"
    and "live fs' n = live fs n"
    and "DATA_BLOCK_BASE \<le> k \<Longrightarrow> fblock fs' k = fblock fs k"
proof -
  have fb: "fblock fs' j = fblock fs j" if "j \<noteq> 1" "j \<noteq> 2" "j \<noteq> 3" for j
    using assms that by (simp add: same_rest_def layout_simps)
  show u: "inode_used fs' = inode_used fs"
    by (rule inode_used_frame) (simp add: fb layout_simps)
  show at: "inode_no n \<Longrightarrow> inode_at fs' n = inode_at fs n"
    by (rule inode_at_frame) (auto intro!: fb simp: layout_simps)
  show "inode_no n \<Longrightarrow> owned fs' n = owned fs n" by (simp add: owned_def at)
  show "live fs' n = live fs n" by (simp add: live_def u)
  show "DATA_BLOCK_BASE \<le> k \<Longrightarrow> fblock fs' k = fblock fs k" by (rule fb) (auto simp: layout_simps)
qed

lemma wf_add_free_structs:
  "wfSuperBlock ((sb_of fs)\<lparr> sb_freeBlockCount := v \<rparr>)"
  "wfGroupDescriptor ((gd_of fs)\<lparr> gd_freeBlocksCount := c \<rparr>)"
  by (simp_all add: wf_sb_of wf_gd_of)

lemma add_free_simps:
  "sb_of (add_free fs num) = (sb_of fs)\<lparr> sb_freeBlockCount := sb_freeBlockCount (sb_of fs) + word_of_int num \<rparr>"
  "gd_of (add_free fs num) = (gd_of fs)\<lparr> gd_freeBlocksCount := gd_freeBlocksCount (gd_of fs) + word_of_int num \<rparr>"
  "block_used (add_free fs num) = block_used fs" "free_blocks (add_free fs num) = free_blocks fs"
  "mounted (add_free fs num) = mounted fs"
  by (simp_all add: add_free_def Let_def wf_add_free_structs sb_of_put_sb gd_of_put_gd fs_frame
      free_blocks_def fblock_put_sb fblock_put_gd layout_simps)

lemma same_rest_add_free: "same_rest fs (add_free fs num)"
  by (simp add: same_rest_def add_free_simps)
     (simp add: add_free_def Let_def wf_add_free_structs fblock_put_sb fblock_put_gd)

lemma same_rest_mark: "same_rest fs (mark_block fs k)" "same_rest fs (unmark_block fs k)"
  by (simp_all add: same_rest_def fs_frame) (simp_all add: mark_block_def unmark_block_def)

lemma same_rest_taken: "same_rest fs (taken fs k)"
  unfolding taken_def by (rule same_rest_trans [OF same_rest_mark(1) same_rest_add_free])

lemma same_rest_given: "same_rest fs (given fs k)"
  unfolding given_def by (rule same_rest_trans [OF same_rest_add_free same_rest_mark(2)])

lemma mounted_taken [simp]: "mounted (taken fs k) = mounted fs" "mounted (given fs k) = mounted fs"
  by (simp_all add: taken_def given_def add_free_simps)

lemma free_blocks_mark:
  assumes "k < BLOCKS_PER_GROUP" and "\<not> block_used fs k"
  shows "Suc (free_blocks (mark_block fs k)) = free_blocks fs"
  unfolding free_blocks_def
  using fs_bits.clear_count_put [of k BLOCKS_PER_GROUP "fblock fs BLOCK_BITMAP_BASE"] assms
  by (simp add: fblock_mark block_used_def layout_simps)

lemma free_blocks_unmark:
  assumes "k < BLOCKS_PER_GROUP" and "block_used fs k"
  shows "free_blocks (unmark_block fs k) = Suc (free_blocks fs)"
  unfolding free_blocks_def
  using fs_bits.clear_count_clear [of k BLOCKS_PER_GROUP "fblock fs BLOCK_BITMAP_BASE"] assms
  by (simp add: fblock_mark block_used_def layout_simps)

lemma free_blocks_le: "free_blocks fs \<le> BLOCKS_PER_GROUP"
proof -
  have "card {i. i < BLOCKS_PER_GROUP \<and> \<not> bm_used (fblock fs BLOCK_BITMAP_BASE) i} \<le> card {..<BLOCKS_PER_GROUP}"
    by (rule card_mono) auto
  then show ?thesis by (simp add: free_blocks_def fs_bits.clear_count_def)
qed

lemma unat_pred: "unat (w :: 'a::len word) = Suc n \<Longrightarrow> unat (w - 1) = n"
  by (subst unat_minus_one) auto

lemma unat_succ: "unat (w :: 'a::len word) + 1 < 2 ^ LENGTH('a) \<Longrightarrow> unat (w + 1) = Suc (unat w)"
  by (subst unat_add_no_wrap) auto

lemma taken_facts:
  assumes "counts_ok fs" and "k < BLOCKS_PER_GROUP" and "\<not> block_used fs k"
  shows "counts_ok (taken fs k)"
    and "j < BLOCKS_PER_GROUP \<Longrightarrow> block_used (taken fs k) j \<longleftrightarrow> j = k \<or> block_used fs j"
proof -
  have "Suc (free_blocks (mark_block fs k)) = free_blocks fs" using assms by (simp add: free_blocks_mark)
  with assms(1) show "counts_ok (taken fs k)"
    by (auto simp: counts_ok_def taken_def add_free_simps fs_frame intro!: unat_pred)
  show "j < BLOCKS_PER_GROUP \<Longrightarrow> block_used (taken fs k) j \<longleftrightarrow> j = k \<or> block_used fs j"
    using assms(2) by (simp add: taken_def add_free_simps fs_frame)
qed

lemma given_facts:
  assumes "counts_ok fs" and "k < BLOCKS_PER_GROUP" and "block_used fs k"
  shows "counts_ok (given fs k)"
    and "j < BLOCKS_PER_GROUP \<Longrightarrow> block_used (given fs k) j \<longleftrightarrow> j \<noteq> k \<and> block_used fs j"
proof -
  have f: "free_blocks (given fs k) = Suc (free_blocks fs)"
    using assms free_blocks_unmark [of k "add_free fs 1"] by (simp add: given_def add_free_simps)
  have le: "Suc (free_blocks fs) \<le> 8192"
    using free_blocks_le [of "given fs k"] by (simp add: f layout_simps)
  then show "counts_ok (given fs k)"
    using assms(1) f
    by (auto simp: counts_ok_def) (auto simp: given_def add_free_simps fs_frame unat_succ)
  show "j < BLOCKS_PER_GROUP \<Longrightarrow> block_used (given fs k) j \<longleftrightarrow> j \<noteq> k \<and> block_used fs j"
    using assms(2) by (simp add: given_def add_free_simps fs_frame)
qed

text \<open>The pairs of counter updates in the code, when the counters are in step with the bitmap.\<close>

lemma count_down:
  assumes "mounted fs" and "counts_ok fs" and "k < BLOCKS_PER_GROUP" and "k \<noteq> 0" and "\<not> block_used fs k"
  obtains fs1 where "setSbFreeBlockCount (mark_block fs k) (-1) = Some (0, fs1)"
    and "setGdFreeBlockCount fs1 (of_nat k) (-1) = Some (0, taken fs k)"
proof -
  have "Suc (free_blocks (mark_block fs k)) = free_blocks fs" using assms by (simp add: free_blocks_mark)
  then have pos: "unat (sb_freeBlockCount (sb_of fs)) \<ge> 1" "unat (gd_freeBlocksCount (gd_of fs)) \<ge> 1"
    using assms(2) by (auto simp: counts_ok_def)
  have pos': "1 \<le> sb_freeBlockCount (sb_of fs)" "1 \<le> uint (gd_freeBlocksCount (gd_of fs))"
    using pos(1) apply (simp add: word_le_nat_alt)
    using pos(2) uint_nat [of "gd_freeBlocksCount (gd_of fs)"] by linarith
  define fs1 where "fs1 = put_sb (mark_block fs k)
    ((sb_of fs)\<lparr> sb_freeBlockCount := sb_freeBlockCount (sb_of fs) + word_of_int (-1) \<rparr>)"
  have "setSbFreeBlockCount (mark_block fs k) (-1) = Some (0, fs1)"
    using assms(1) pos'
    by (simp add: setSbFreeBlockCount_eq mounted_ok fs_frame fs1_def Let_def)
  moreover have "setGdFreeBlockCount fs1 (of_nat k) (-1) = Some (0, taken fs k)"
  proof -
    have u: "unat (of_nat k :: u32) = k" using assms(3) by (simp add: unat_le_of_nat layout_simps)
    have "gd_of fs1 = gd_of fs" by (simp add: fs1_def fs_frame wf_add_free_structs)
    then show ?thesis
      using assms(1,3,4) pos' u
      by (subst setGdFreeBlockCount_eq)
         (auto simp: fs1_def mounted_ok taken_def add_free_def Let_def fs_frame wf_add_free_structs)
  qed
  ultimately show ?thesis by (rule that)
qed

lemma count_up:
  assumes "mounted fs" and "k \<noteq> 0" and "k \<le> BLOCKS_PER_GROUP"
  obtains fs1 where "setSbFreeBlockCount fs 1 = Some (0, fs1)"
    and "setGdFreeBlockCount fs1 (of_nat k) 1 = Some (0, add_free fs 1)"
proof -
  define fs1 where "fs1 = put_sb fs
    ((sb_of fs)\<lparr> sb_freeBlockCount := sb_freeBlockCount (sb_of fs) + word_of_int 1 \<rparr>)"
  have "setSbFreeBlockCount fs 1 = Some (0, fs1)"
    using assms(1) by (simp add: setSbFreeBlockCount_eq mounted_ok fs1_def Let_def)
  moreover have "setGdFreeBlockCount fs1 (of_nat k) 1 = Some (0, add_free fs 1)"
  proof -
    have u: "unat (of_nat k :: u32) = k" using assms(3) by (simp add: unat_le_of_nat layout_simps)
    show ?thesis
      using assms u by (subst setGdFreeBlockCount_eq) (auto simp: fs1_def mounted_ok add_free_def Let_def)
  qed
  ultimately show ?thesis by (rule that)
qed

section \<open>Taking and giving back cancel\<close>

lemma fs_ext:
  assumes "\<And>j. fblock fs' j = fblock fs j" and "fs_sb fs' = fs_sb fs" "fs_gd fs' = fs_gd fs"
    and "(fs_disk fs')\<lparr> diskStorage := st \<rparr> = (fs_disk fs)\<lparr> diskStorage := st \<rparr>"
  shows "fs' = fs"
proof -
  have "diskStorage (fs_disk fs') a = diskStorage (fs_disk fs) a" for a
  proof -
    have "fblock fs' (a div 1024) ! (a mod 1024) = fblock fs (a div 1024) ! (a mod 1024)"
      using assms(1) by simp
    then show ?thesis
      by (simp add: fblock_def dblock_def storage_read_def layout_simps)
  qed
  then have "diskStorage (fs_disk fs') = diskStorage (fs_disk fs)" by auto
  moreover have "numberOfSectors (fs_disk fs') = numberOfSectors (fs_disk fs)"
    "bytesPerSector (fs_disk fs') = bytesPerSector (fs_disk fs)" "pdata (fs_disk fs') = pdata (fs_disk fs)"
    using arg_cong [OF assms(4), of numberOfSectors] arg_cong [OF assms(4), of bytesPerSector]
      arg_cong [OF assms(4), of pdata] by simp_all
  ultimately show ?thesis using assms(2,3) by (intro Filesystem.equality Disk.equality) auto
qed

lemma overwrite_start:
  "length a = length b \<Longrightarrow> overwrite (overwrite xs 0 a) 0 b = overwrite xs 0 b"
  "overwrite xs 0 (take n xs) = xs"
  by (simp_all add: overwrite_def min_def)

lemma disk_fields_fput [simp]:
  "(fs_disk (fput fs k bs))\<lparr> diskStorage := st \<rparr> = (fs_disk fs)\<lparr> diskStorage := st \<rparr>"
  by (simp add: fput_def put_block_def)

lemma sb_restore: "overwrite (fblock fs SUPER_BLOCK_BASE) 0 (encSuperBlock (sb_of fs)) = fblock fs SUPER_BLOCK_BASE"
  by (simp add: sb_of_def super_codec.enc_dec layout_simps overwrite_start)

lemma gd_restore: "overwrite (fblock fs GDT_BASE) 0 (encGroupDescriptor (gd_of fs)) = fblock fs GDT_BASE"
  by (simp add: gd_of_def group_codec.enc_dec layout_simps overwrite_start)

lemma fblock_add_free:
  "fblock (add_free fs num) j =
    (if j = SUPER_BLOCK_BASE then overwrite (fblock fs j) 0 (encSuperBlock (sb_of (add_free fs num)))
     else if j = GDT_BASE then overwrite (fblock fs j) 0 (encGroupDescriptor (gd_of (add_free fs num)))
     else fblock fs j)"
  unfolding add_free_simps
  by (simp add: add_free_def Let_def wf_add_free_structs fblock_put_sb fblock_put_gd fs_frame layout_simps)

lemma given_taken:
  assumes "k < BLOCKS_PER_GROUP" and "\<not> block_used fs k"
  shows "given (taken fs k) k = fs"
proof (rule fs_ext)
  have sb: "sb_of (add_free (taken fs k) 1) = sb_of fs" "gd_of (add_free (taken fs k) 1) = gd_of fs"
    by (simp_all add: taken_def add_free_simps fs_frame)
  have lens: "length (encSuperBlock (sb_of g)) = length (encSuperBlock (sb_of fs))"
    "length (encGroupDescriptor (gd_of g)) = length (encGroupDescriptor (gd_of fs))" for g
    by (simp_all add: super_codec.enc_length group_codec.enc_length wf_sb_of wf_gd_of)
  have bm: "and_not_bit k (or_bit k (fblock fs BLOCK_BITMAP_BASE)) = fblock fs BLOCK_BITMAP_BASE"
    using assms by (intro fs_bits.clear_put) (auto simp: block_used_def layout_simps)
  show "fblock (given (taken fs k) k) j = fblock fs j" for j
    unfolding given_def fblock_mark fblock_add_free sb
    unfolding taken_def fblock_add_free fblock_mark
    using bm lens sb_restore [of fs] gd_restore [of fs] by (simp add: overwrite_start layout_values(18,19,21))
qed (simp_all add: given_def taken_def unmark_block_def mark_block_def add_free_def Let_def put_sb_def put_gd_def)

section \<open>Sequences of blocks\<close>

text \<open>A list of blocks that an operation may take, one after the other.\<close>

definition fresh :: "Filesystem \<Rightarrow> nat list \<Rightarrow> bool" where
  "fresh fs ks \<longleftrightarrow> distinct ks \<and> (\<forall>k\<in>set ks. data_block k \<and> \<not> block_used fs k)"

lemma data_blockD:
  assumes "data_block k"
  shows "k \<noteq> 0" "k < BLOCKS_PER_GROUP" "k < 8192" "DATA_BLOCK_BASE \<le> k" "k < disk_blocks"
  using assms by (simp_all add: data_block_def layout_simps)

lemma fresh_Nil [simp]: "fresh fs []"
  by (simp add: fresh_def)

lemma mounted_foldl [simp]: "mounted (foldl taken fs ks) = mounted fs" "mounted (foldl given fs ks) = mounted fs"
  by (induction ks arbitrary: fs) auto

lemma same_rest_foldl: "same_rest fs (foldl taken fs ks)" "same_rest fs (foldl given fs ks)"
  by (induction ks arbitrary: fs)
     (auto intro: same_rest_trans [OF same_rest_taken] same_rest_trans [OF same_rest_given])

lemma foldl_taken_facts:
  assumes "counts_ok fs" and "fresh fs ks"
  shows "counts_ok (foldl taken fs ks) \<and>
    (\<forall>j < BLOCKS_PER_GROUP. block_used (foldl taken fs ks) j \<longleftrightarrow> j \<in> set ks \<or> block_used fs j)"
  using assms
proof (induction ks arbitrary: fs)
  case (Cons k ks)
  have k: "k < BLOCKS_PER_GROUP" "\<not> block_used fs k" using Cons.prems by (auto simp: fresh_def dest: data_blockD)
  have "fresh (taken fs k) ks"
    using Cons.prems k data_blockD(2) by (simp add: fresh_def taken_facts(2)) blast
  then have "counts_ok (foldl taken (taken fs k) ks) \<and> (\<forall>j < BLOCKS_PER_GROUP.
      block_used (foldl taken (taken fs k) ks) j \<longleftrightarrow> j \<in> set ks \<or> block_used (taken fs k) j)"
    using Cons.IH taken_facts(1) Cons.prems(1) k by simp
  then show ?case using taken_facts(2) Cons.prems(1) k by auto
qed simp

lemma foldl_given_facts:
  assumes "counts_ok fs" and "distinct ks" and "\<forall>k\<in>set ks. data_block k \<and> block_used fs k"
  shows "counts_ok (foldl given fs ks) \<and>
    (\<forall>j < BLOCKS_PER_GROUP. block_used (foldl given fs ks) j \<longleftrightarrow> j \<notin> set ks \<and> block_used fs j)"
  using assms
proof (induction ks arbitrary: fs)
  case (Cons k ks)
  have k: "k < BLOCKS_PER_GROUP" "block_used fs k" using Cons.prems by (auto dest: data_blockD)
  have "\<forall>l\<in>set ks. data_block l \<and> block_used (given fs k) l"
    using Cons.prems k data_blockD(2) by (simp add: given_facts(2)) blast
  then have "counts_ok (foldl given (given fs k) ks) \<and> (\<forall>j < BLOCKS_PER_GROUP.
      block_used (foldl given (given fs k) ks) j \<longleftrightarrow> j \<notin> set ks \<and> block_used (given fs k) j)"
    using Cons.IH given_facts(1) Cons.prems k by simp
  then show ?case using given_facts(2) Cons.prems(1) k by auto
qed simp

lemma free_blocks_taken:
  assumes "fresh fs ks"
  shows "free_blocks (foldl taken fs ks) + length ks = free_blocks fs"
  using assms
proof (induction ks arbitrary: fs)
  case (Cons k ks)
  have k: "k < BLOCKS_PER_GROUP" "\<not> block_used fs k" using Cons.prems by (auto simp: fresh_def dest: data_blockD)
  have used: "block_used (taken fs k) j \<longleftrightarrow> j = k \<or> block_used fs j" if "j < BLOCKS_PER_GROUP" for j
    using k that by (simp add: taken_def add_free_simps fs_frame)
  have "fresh (taken fs k) ks"
    using Cons.prems k data_blockD(2) used by (simp add: fresh_def) blast
  moreover have "Suc (free_blocks (taken fs k)) = free_blocks fs"
    using free_blocks_mark [OF k] by (simp add: taken_def add_free_simps)
  ultimately show ?case using Cons.IH [of "taken fs k"] by simp
qed simp

lemma free_blocks_0: "\<forall>k < BLOCKS_PER_GROUP. block_used fs k \<Longrightarrow> free_blocks fs = 0"
  using fs_bits.clear_count_pos [of BLOCKS_PER_GROUP "fblock fs BLOCK_BITMAP_BASE"]
  by (auto simp: free_blocks_def block_used_def)

text \<open>An allocator call on a file system whose metadata area is reserved returns a data block.\<close>

lemma alloc_block_cases:
  assumes "mounted fs" and "base_reserved fs"
  obtains (full) "getFreeBlockNumber fs = Some (0, fs)" "\<forall>k < BLOCKS_PER_GROUP. block_used fs k"
    | (got) k where "getFreeBlockNumber fs = Some (of_nat k, mark_block fs k)" "data_block k"
        "\<not> block_used fs k" "(of_nat k :: u32) \<noteq> 0" "unat (of_nat k :: u32) = k"
proof (cases "first_from (\<lambda>k. \<not> block_used fs k) 0 BLOCKS_PER_GROUP")
  case None
  then show ?thesis
    using full getFreeBlockNumber_eq [OF assms(1)] first_from_None_iff [THEN iffD1, OF None] by (simp add: None)
next
  case (Some k)
  then have k: "k < BLOCKS_PER_GROUP" "\<not> block_used fs k" by (auto simp: first_from_Some_iff)
  then have d: "data_block k"
    using assms(2) by (auto simp: data_block_def base_reserved_def not_less [symmetric])
  then have u: "unat (of_nat k :: u32) = k" by (auto simp: unat_le_of_nat dest: data_blockD)
  then have "(of_nat k :: u32) \<noteq> 0" using data_blockD(1) [OF d] by (metis unat_0)
  then show ?thesis
    using got [of k] getFreeBlockNumber_eq [OF assms(1)] Some d k u by simp
qed

section \<open>Replacing one inode and its blocks\<close>

lemma fs_invD:
  assumes "fs_inv fs"
  shows "mounted fs" "base_reserved fs" "counts_ok fs" "live fs n \<Longrightarrow> inode_wf fs n"
    "live fs n \<Longrightarrow> live fs m \<Longrightarrow> n \<noteq> m \<Longrightarrow> set (owned fs n) \<inter> set (owned fs m) = {}"
  using assms by (simp_all add: fs_inv_def)

lemma counts_ok_frame:
  "(\<And>k. k < INODE_TABLE_BASE \<Longrightarrow> fblock fs' k = fblock fs k) \<Longrightarrow> counts_ok fs' = counts_ok fs"
  using sb_of_frame [of fs' fs] gd_of_frame [of fs' fs]
  by (simp add: counts_ok_def free_blocks_def layout_simps)

lemma unat_image_iff: "unat (b :: 'a::len word) \<in> unat ` S \<longleftrightarrow> b \<in> S"
  by (auto simp: image_iff word_unat_eq_iff [symmetric])

lemma distinct_unat: "distinct (map unat (bs :: 'a::len word list)) = distinct bs"
  by (auto simp: distinct_map inj_on_def word_unat_eq_iff [symmetric])

text \<open>
  An inode is given a new list of blocks \<open>bs\<close>, some of them its own, the others free until now; the
  bitmap has been brought in line with it and only blocks of \<open>bs\<close> have been written. The invariant
  is kept and no other inode or block of another inode has changed.
\<close>

lemma replace_inode:
  assumes inv: "fs_inv fs" and n: "live fs n"
    and rest: "same_rest fs fs2" "counts_ok fs2" "mounted fs3"
    and used: "\<And>j. j < BLOCKS_PER_GROUP \<Longrightarrow> block_used fs2 j \<longleftrightarrow>
      j \<in> unat ` set bs \<or> block_used fs j \<and> j \<notin> unat ` set (owned fs n)"
    and bs: "distinct bs" "length bs \<le> FS_N_BLOCKS"
      "\<And>b. b \<in> set bs \<Longrightarrow> data_block (unat b) \<and> (b \<in> set (owned fs n) \<or> \<not> block_used fs (unat b))"
    and data: "\<And>k. k \<notin> unat ` set bs \<Longrightarrow> fblock fs3 k = fblock fs2 k"
    and x: "wfInode x" "unat (i_blocks x) = length bs" "take (length bs) (i_block x) = bs"
  defines "fs4 \<equiv> put_inode fs3 n x"
  shows "fs_inv fs4" and "live fs4 m = live fs m" and "inode_at fs4 n = x"
    and "live fs m \<Longrightarrow> m \<noteq> n \<Longrightarrow> inode_at fs4 m = inode_at fs m"
    and "live fs m \<Longrightarrow> m \<noteq> n \<Longrightarrow> b \<in> set (owned fs m) \<Longrightarrow> fblock fs4 (unat b) = fblock fs (unat b)"
    and "b \<in> set bs \<Longrightarrow> fblock fs4 (unat b) = fblock fs3 (unat b)"
proof -
  have no: "inode_no n" using n by (simp add: live_def)
  note fd = fs_invD [OF inv]
  have low: "fblock fs3 k = fblock fs2 k" if "k < DATA_BLOCK_BASE" for k
    using data [of k] bs(3) that by (force simp: data_block_def)
  have inodes3: "inode_used fs3 = inode_used fs" "\<And>m. inode_no m \<Longrightarrow> inode_at fs3 m = inode_at fs m"
    using same_rest_inodes [OF rest(1)] low inode_used_frame [of fs3 fs2] inode_at_frame [of fs3 fs2]
    by (auto simp: layout_simps)
  have used3: "block_used fs3 = block_used fs2"
    by (rule block_used_frame) (simp add: low layout_simps)
  have used4: "block_used fs4 = block_used fs2" using used3 frame_put_inode [OF x(1) no] by (simp add: fs4_def)
  have live4: "live fs4 m = live fs m" for m
    using inodes3(1) frame_put_inode [OF x(1) no] by (simp add: live_def fs4_def)
  have at4: "inode_at fs4 m = (if m = n then x else inode_at fs m)" if "inode_no m" for m
    using that no x(1) inodes3 by (simp add: fs4_def inode_at_put_inode)
  have own4: "owned fs4 m = (if m = n then bs else owned fs m)" if "inode_no m" for m
    using at4 [OF that] x by (simp add: owned_def)
  have disj: "set bs \<inter> set (owned fs m) = {}" if "live fs m" "m \<noteq> n" for m
    using bs(3) fd(4,5) that n by (fastforce simp: inode_wf_def)
  have data4: "fblock fs4 k = fblock fs3 k" if "DATA_BLOCK_BASE \<le> k" for k
    using that inode_blk_range [OF no] unfolding fs4_def by (intro fblock_put_inode) (auto simp: x)
  show "live fs4 m = live fs m" by (rule live4)
  show "inode_at fs4 n = x" using at4 no by simp
  show "live fs m \<Longrightarrow> m \<noteq> n \<Longrightarrow> inode_at fs4 m = inode_at fs m" using at4 by (simp add: live_def)
  show "b \<in> set bs \<Longrightarrow> fblock fs4 (unat b) = fblock fs3 (unat b)"
    using bs(3) data4 by (simp add: data_block_def)
  show "fblock fs4 (unat b) = fblock fs (unat b)" if "live fs m" "m \<noteq> n" "b \<in> set (owned fs m)"
  proof -
    have "data_block (unat b)" using fd(4) that by (simp add: inode_wf_def)
    moreover have "unat b \<notin> unat ` set bs" using disj [OF that(1,2)] that(3) by (auto simp: unat_image_iff)
    ultimately show ?thesis
      using data data4 same_rest_inodes(5) [OF rest(1)] by (simp add: data_block_def)
  qed
  have "mounted fs4" using rest(3) by (simp add: fs4_def)
  moreover have "base_reserved fs4"
    unfolding base_reserved_def used4
  proof (intro allI impI)
    fix k assume k: "k < DATA_BLOCK_BASE"
    then have "k < BLOCKS_PER_GROUP" by (simp add: layout_simps)
    moreover have "k \<notin> unat ` set (owned fs n)"
      using fd(4) [OF n] k by (auto simp: inode_wf_def data_block_def)
    ultimately show "block_used fs2 k" using used fd(2) k by (simp add: base_reserved_def)
  qed
  moreover have "counts_ok fs4"
  proof -
    have "counts_ok fs3 = counts_ok fs2" by (rule counts_ok_frame) (simp add: low layout_simps)
    moreover have "counts_ok fs4 = counts_ok fs3"
      unfolding fs4_def by (rule counts_ok_frame) (use inode_blk_range [OF no] in \<open>auto intro!: fblock_put_inode simp: x\<close>)
    ultimately show ?thesis using rest(2) by simp
  qed
  moreover have "inode_wf fs4 m" if m: "live fs4 m" for m
  proof (cases "m = n")
    case True
    then show ?thesis
      using x bs no used data_blockD(2) by (auto simp: inode_wf_def at4 own4 used4)
  next
    case False
    have l: "live fs m" "inode_no m" using m live4 by (auto simp: live_def)
    have "block_used fs2 (unat b)" "data_block (unat b)" if "b \<in> set (owned fs m)" for b
    proof -
      have b: "data_block (unat b)" "block_used fs (unat b)" using fd(4) [OF l(1)] that by (auto simp: inode_wf_def)
      moreover have "unat b \<notin> unat ` set (owned fs n)"
        using fd(5) [OF l(1) n False] that by (auto simp: unat_image_iff)
      ultimately show "block_used fs2 (unat b)" "data_block (unat b)"
        using used data_blockD(2) by auto
    qed
    then show ?thesis
      using fd(4) [OF l(1)] l False by (simp add: inode_wf_def at4 own4 used4)
  qed
  moreover have "set (owned fs4 m) \<inter> set (owned fs4 m') = {}" if "live fs4 m" "live fs4 m'" "m \<noteq> m'" for m m'
    using that disj fd(5) live4 own4 by (auto simp: live_def split: if_splits)
  ultimately show "fs_inv fs4" unfolding fs_inv_def by blast
qed

end
