(* ===== verification/Fs_File.thy ===== *)
theory Fs_File
  imports Fs_Inv Mem
begin

text \<open>
  File contents (\<open>src/fs/fs.c\<close>): \<open>fsWrite\<close> with its three loops (grow, roll back, shrink) and
  \<open>fillDataBlock\<close>, and \<open>fsRead\<close>. The theorems: what \<open>fsRead\<close> returns after \<open>fsWrite\<close> is what was
  written, a write that runs out of blocks gives every block it took back, and the consistency of
  bitmaps, counters and block ownership is kept.
\<close>

section \<open>Operations\<close>

text \<open>The read, clear and write of a bit of the block bitmap, as every freeing loop does it.\<close>

definition clear_block_bit :: "Filesystem \<Rightarrow> bytes \<Rightarrow> u32 \<Rightarrow> (bytes \<times> Filesystem) option" where
  "clear_block_bit fs block b = do {
     let target = of_nat BLOCKS_PER_GROUP * GET_DATA_GROUP b + of_nat BLOCK_BITMAP_BASE;
     (_, block) \<leftarrow> fsRd fs target block;
     block \<leftarrow> setZeroBit (b mod of_nat BLOCKS_PER_GROUP) block;
     (_, fs) \<leftarrow> fsWr fs target block;
     Some (block, fs) }"

function fill_from :: "Filesystem \<Rightarrow> Inode \<Rightarrow> u64 \<Rightarrow> u64 \<Rightarrow> bytes \<Rightarrow> nat \<Rightarrow> nat \<Rightarrow> Filesystem option" where
  "fill_from fs inode len offset buffer i blockCount =
    (if i < blockCount then do {
       let blockStart = of_nat i * of_nat MAX_BLOCK_SIZE;
       let copyStart = (if offset > blockStart then offset else blockStart);
       let copyEnd = (let e = offset + len in
             if e > blockStart + of_nat MAX_BLOCK_SIZE then blockStart + of_nat MAX_BLOCK_SIZE else e);
       let block = replicate MAX_BLOCK_SIZE 0;
       block \<leftarrow> (if copyStart < copyEnd
                then let p = unat (copyStart - blockStart) in
                  do { part \<leftarrow> memcpy (drop p block) (drop (unat (copyStart - offset)) buffer)
                         (unat (copyEnd - copyStart));
                       Some (take p block @ part) }
                else Some block);
       b \<leftarrow> idx (i_block inode) i;
       (_, fs) \<leftarrow> fsWr fs b block;
       fill_from fs inode len offset buffer (Suc i) blockCount }
     else Some fs)"
  by pat_completeness auto
termination
  by (relation "measure (\<lambda>(fs, inode, len, offset, buffer, i, n). n - i)") auto

declare fill_from.simps [simp del]

definition fillDataBlock :: "Filesystem \<Rightarrow> Inode \<Rightarrow> u64 \<Rightarrow> u64 \<Rightarrow> bytes \<Rightarrow> u32 \<Rightarrow> Filesystem option" where
  "fillDataBlock fs inode len offset buffer blockCount =
     fill_from fs inode len offset buffer 0 (unat blockCount)"

text \<open>\<open>while (i-- > currentInode.blocks)\<close>: gives back the blocks taken so far.\<close>

function rollback :: "Filesystem \<Rightarrow> bytes \<Rightarrow> Inode \<Rightarrow> nat \<Rightarrow> (bytes \<times> Filesystem) option" where
  "rollback fs block inode i =
    (if i > unat (i_blocks inode) then do {
       b \<leftarrow> idx (i_block inode) (i - 1);
       (_, fs) \<leftarrow> setSbFreeBlockCount fs 1;
       (_, fs) \<leftarrow> setGdFreeBlockCount fs b 1;
       (block, fs) \<leftarrow> clear_block_bit fs block b;
       rollback fs block inode (i - 1) }
     else Some (block, fs))"
  by pat_completeness auto
termination
  by (relation "measure (\<lambda>(fs, block, inode, i). i)") auto

declare rollback.simps [simp del]

function grow :: "Filesystem \<Rightarrow> bytes \<Rightarrow> Inode \<Rightarrow> nat \<Rightarrow> nat \<Rightarrow> (bool \<times> Inode \<times> bytes \<times> Filesystem) option" where
  "grow fs block inode i blockCount =
    (if i < blockCount then do {
       (newBlock, fs) \<leftarrow> getFreeBlockNumber fs;
       if newBlock = 0 then do {
         (block, fs) \<leftarrow> rollback fs block inode i;
         Some (False, inode, block, fs) }
       else do {
         bl \<leftarrow> upd (i_block inode) i newBlock;
         let inode = inode\<lparr> i_block := bl \<rparr>;
         (_, fs) \<leftarrow> setSbFreeBlockCount fs (-1);
         (_, fs) \<leftarrow> setGdFreeBlockCount fs newBlock (-1);
         grow fs block inode (Suc i) blockCount } }
     else Some (True, inode, block, fs))"
  by pat_completeness auto
termination
  by (relation "measure (\<lambda>(fs, block, inode, i, n). n - i)") auto

declare grow.simps [simp del]

function shrink :: "Filesystem \<Rightarrow> bytes \<Rightarrow> Inode \<Rightarrow> nat \<Rightarrow> (Inode \<times> bytes \<times> Filesystem) option" where
  "shrink fs block inode i =
    (if i < unat (i_blocks inode) then do {
       b \<leftarrow> idx (i_block inode) i;
       (_, fs) \<leftarrow> setSbFreeBlockCount fs 1;
       (_, fs) \<leftarrow> setGdFreeBlockCount fs b 1;
       (block, fs) \<leftarrow> clear_block_bit fs block b;
       bl \<leftarrow> upd (i_block inode) i 0;
       shrink fs block (inode\<lparr> i_block := bl \<rparr>) (Suc i) }
     else Some (inode, block, fs))"
  by pat_completeness auto
termination
  by (relation "measure (\<lambda>(fs, block, inode, i). unat (i_blocks inode) - i)") auto

declare shrink.simps [simp del]

definition write_block_count :: "u64 \<Rightarrow> u64 \<Rightarrow> u32" where
  "write_block_count offset len =
    (let c = (ucast ((offset + len + of_nat MAX_BLOCK_SIZE - 1) div of_nat MAX_BLOCK_SIZE) :: u32)
     in if c = 0 then 1 else c)"

definition fsWrite :: "Filesystem \<Rightarrow> FsNode \<Rightarrow> u64 \<Rightarrow> u64 \<Rightarrow> bytes \<Rightarrow> (int \<times> Filesystem) option" where
  "fsWrite fs file offset len buffer = do {
     let blockCount = write_block_count offset len;
     if blockCount > of_nat FS_D_BLOCKS then Some (FS_ERROR, fs)
     else do {
       (_, block) \<leftarrow> fsRd fs (l_block (n_location file)) [];
       myEntry \<leftarrow> struct_at DIR_ENTRY_SIZE decDirEntry block (unat (l_offset (n_location file)));
       got \<leftarrow> getInode fs (d_inode myEntry);
       case got of
         None \<Rightarrow> Some (FS_ERROR, fs)
       | Some currentInode \<Rightarrow> do {
           let currentInode = currentInode\<lparr> i_size := ucast (offset + len) \<rparr>;
           (grown, currentInode, block, fs) \<leftarrow>
             grow fs block currentInode (unat (i_blocks currentInode)) (unat blockCount);
           if \<not> grown then Some (FS_ERROR, fs)
           else do {
             (currentInode, block, fs) \<leftarrow> shrink fs block currentInode (unat blockCount);
             let currentInode = currentInode\<lparr> i_blocks := blockCount \<rparr>;
             fs \<leftarrow> fillDataBlock fs currentInode len offset buffer blockCount;
             (_, fs) \<leftarrow> insertInodeTable fs currentInode (sint (d_inode myEntry));
             Some (FS_SUCCESS, fs) } } } }"

text \<open>
  \<open>fsRead\<close>: null pointers are \<^term>\<open>None\<close>; the result is the return value and the caller's buffer
  afterwards. The offset is a signed \<open>int\<close>, divided with truncation.
\<close>

definition fsRead :: "Filesystem \<Rightarrow> FsNode option \<Rightarrow> int \<Rightarrow> u64 \<Rightarrow> bytes option \<Rightarrow> (int \<times> bytes option) option" where
  "fsRead fs fsEntry offset len buffer = do {
     let count = (word_of_int (offset sdiv int MAX_BLOCK_SIZE) :: u32);
     let blockOffset = (word_of_int (offset smod int MAX_BLOCK_SIZE) :: u32);
     case (fsEntry, buffer) of
       (Some node, Some buf) \<Rightarrow>
         if len = 0 then Some (-1, buffer)
         else do {
           got \<leftarrow> getInode fs (d_inode (n_entry node));
           case got of
             None \<Rightarrow> Some (-1, buffer)
           | Some inodeBuffer \<Rightarrow>
               if word_of_int offset \<ge> i_size inodeBuffer then Some (0, buffer)
               else if count \<ge> i_blocks inodeBuffer then Some (0, buffer)
               else do {
                 b \<leftarrow> idx (i_block inodeBuffer) (unat count);
                 (_, block) \<leftarrow> fsRd fs b [];
                 let copySize = (ucast len :: u32);
                 let copySize = (if word_of_int offset + copySize > i_size inodeBuffer
                                 then i_size inodeBuffer - word_of_int offset else copySize);
                 let copySize = (if blockOffset + copySize > of_nat MAX_BLOCK_SIZE
                                 then of_nat MAX_BLOCK_SIZE - blockOffset else copySize);
                 buf \<leftarrow> memcpy buf (drop (unat blockOffset) block) (unat copySize);
                 Some (sint copySize, Some buf) } }
     | _ \<Rightarrow> Some (-1, buffer) }"

section \<open>Freeing one block\<close>

lemma clear_block_bit_eq:
  assumes "mounted fs" and "unat b \<noteq> 0" and "unat b < BLOCKS_PER_GROUP" and "length block \<le> MAX_BLOCK_SIZE"
  shows "clear_block_bit fs block b =
    Some (and_not_bit (unat b) (fblock fs BLOCK_BITMAP_BASE), unmark_block fs (unat b))"
proof -
  have g: "GET_DATA_GROUP b = 0" using assms by (intro first_group) auto
  have m: "b mod of_nat BLOCKS_PER_GROUP = b"
    using assms(3) by (simp add: word_unat_eq_iff unat_mod_distrib layout_simps)
  have t: "of_nat BLOCKS_PER_GROUP * GET_DATA_GROUP b + of_nat BLOCK_BITMAP_BASE = (of_nat BLOCK_BITMAP_BASE :: u32)"
    by (simp add: g)
  have z: "setZeroBit b (fblock fs BLOCK_BITMAP_BASE) = Some (and_not_bit (unat b) (fblock fs BLOCK_BITMAP_BASE))"
    using assms(3) by (intro setZeroBit_eq) (simp add: layout_simps)
  have "unat (of_nat BLOCK_BITMAP_BASE :: u32) = BLOCK_BITMAP_BASE" by (simp add: layout_simps)
  then show ?thesis
    using mounted_ok [OF assms(1)] assms(4) bases_on_disk(3)
    unfolding clear_block_bit_def t m Let_def
    by (simp add: fsd.rd_content fsd.wr_put z unmark_block_def bm_simps layout_values(3))
qed

lemma release:
  assumes "mounted fs" and "unat b \<noteq> 0" and "unat b < BLOCKS_PER_GROUP" and "length block \<le> MAX_BLOCK_SIZE"
  obtains fs1 block' where "setSbFreeBlockCount fs 1 = Some (0, fs1)"
    and "setGdFreeBlockCount fs1 b 1 = Some (0, add_free fs 1)"
    and "clear_block_bit (add_free fs 1) block b = Some (block', given fs (unat b))"
    and "length block' \<le> MAX_BLOCK_SIZE"
proof -
  obtain fs1 where "setSbFreeBlockCount fs 1 = Some (0, fs1)"
    and "setGdFreeBlockCount fs1 (of_nat (unat b)) 1 = Some (0, add_free fs 1)"
    using count_up [of fs "unat b"] assms by auto
  moreover have "clear_block_bit (add_free fs 1) block b =
      Some (and_not_bit (unat b) (fblock (add_free fs 1) BLOCK_BITMAP_BASE), given fs (unat b))"
    using assms by (subst clear_block_bit_eq) (auto simp: add_free_simps given_def)
  ultimately show ?thesis
    using that by (simp add: bm_simps layout_values(3))
qed

section \<open>The three loops of a write\<close>

lemma rollback_spec:
  assumes "mounted fs" and "counts_ok fs" and "fresh fs (map unat ks)"
    and "i = unat (i_blocks inode) + length ks" and "i \<le> length (i_block inode)"
    and "\<forall>t < length ks. i_block inode ! (unat (i_blocks inode) + t) = ks ! t"
    and "length block \<le> MAX_BLOCK_SIZE"
  shows "\<exists>block'. rollback (foldl taken fs (map unat ks)) block inode i = Some (block', fs)"
  using assms(3-7)
proof (induction ks arbitrary: i block rule: rev_induct)
  case Nil
  then show ?case by (simp add: rollback.simps [of fs])
next
  case (snoc b ks)
  let ?fs = "foldl taken fs (map unat ks)"
  have i: "unat (i_blocks inode) < i" "i - 1 < length (i_block inode)" "i - 1 = unat (i_blocks inode) + length ks"
    using snoc.prems by auto
  have at: "i_block inode ! (i - 1) = b" using snoc.prems(4) i by simp
  have fr: "fresh fs (map unat ks)" "unat b \<notin> set (map unat ks)" "data_block (unat b)" "\<not> block_used fs (unat b)"
    using snoc.prems(1) by (auto simp: fresh_def)
  then have nu: "\<not> block_used ?fs (unat b)"
    using foldl_taken_facts [OF assms(2) fr(1)] data_blockD(2) by auto
  have m: "mounted (taken ?fs (unat b))" using assms(1) by simp
  obtain fs1 block' where step: "setSbFreeBlockCount (taken ?fs (unat b)) 1 = Some (0, fs1)"
    "setGdFreeBlockCount fs1 b 1 = Some (0, add_free (taken ?fs (unat b)) 1)"
    "clear_block_bit (add_free (taken ?fs (unat b)) 1) block b = Some (block', given (taken ?fs (unat b)) (unat b))"
    and len: "length block' \<le> MAX_BLOCK_SIZE"
    using release [OF m, of b block] fr(3) snoc.prems(5) by (metis data_blockD(1,2))
  have "given (taken ?fs (unat b)) (unat b) = ?fs"
    using nu data_blockD(2) [OF fr(3)] by (intro given_taken)
  moreover have "\<exists>block''. rollback ?fs block' inode (i - 1) = Some (block'', fs)"
    using snoc.IH [of "i - 1" block'] fr(1) i len snoc.prems(4) by (simp add: nth_append)
  ultimately show ?case
    using i at step by (subst rollback.simps) (simp add: idx_def)
qed

text \<open>
  The growing loop either takes the blocks it needs, all of them free before and all different, or
  gives back what it took and leaves the disk as it was.
\<close>

lemma grow_step:
  assumes "mounted fs" and "counts_ok fs" and "data_block k" and "\<not> block_used fs k"
    and "getFreeBlockNumber fs = Some (of_nat k, mark_block fs k)" and "(of_nat k :: u32) \<noteq> 0"
    and "i < n" and "i < length (i_block inode)"
  shows "grow fs block inode i n =
    grow (taken fs k) block (inode\<lparr> i_block := (i_block inode)[i := of_nat k] \<rparr>) (Suc i) n"
proof -
  obtain fs1 where "setSbFreeBlockCount (mark_block fs k) (-1) = Some (0, fs1)"
    and "setGdFreeBlockCount fs1 (of_nat k) (-1) = Some (0, taken fs k)"
    using count_down assms data_blockD by metis
  then show ?thesis
    using assms(5-) by (simp add: grow.simps [of fs] upd_def)
qed

lemma grow_spec:
  assumes "mounted fs0" and "counts_ok fs0" and "base_reserved fs0"
    and "fresh fs0 (map unat ks)" and "i = unat (i_blocks inode) + length ks"
    and "\<forall>t < length ks. i_block inode ! (unat (i_blocks inode) + t) = ks ! t"
    and "i \<le> n" and "n \<le> length (i_block inode)" and "length block \<le> MAX_BLOCK_SIZE"
  shows "(\<exists>block'. \<exists>new. grow (foldl taken fs0 (map unat ks)) block inode i n =
             Some (True, inode\<lparr> i_block := overwrite (i_block inode) i new \<rparr>, block',
               foldl taken fs0 (map unat (ks @ new))) \<and>
           length block' \<le> MAX_BLOCK_SIZE \<and> length new = n - i \<and> fresh fs0 (map unat (ks @ new)))
       \<or> (\<exists>block' inode'. grow (foldl taken fs0 (map unat ks)) block inode i n = Some (False, inode', block', fs0) \<and>
            free_blocks fs0 < n - unat (i_blocks inode))"
  using assms(4-)
proof (induction "n - i" arbitrary: i inode ks)
  case 0
  then have "i = n" by simp
  with 0 show ?case
    by (intro disjI1 exI [of _ block] exI [of _ "[]"]) (simp add: grow.simps overwrite_def)
next
  case (Suc d)
  let ?fs = "foldl taken fs0 (map unat ks)"
  have "i < n" using Suc.hyps by simp
  then have lt: "i < n" "i < length (i_block inode)" using Suc.prems by auto
  have m: "mounted ?fs" using assms(1) by simp
  have tk: "counts_ok ?fs" "\<And>j. j < BLOCKS_PER_GROUP \<Longrightarrow> block_used ?fs j \<longleftrightarrow> j \<in> set (map unat ks) \<or> block_used fs0 j"
    using foldl_taken_facts [OF assms(2) Suc.prems(1)] by auto
  have br: "base_reserved ?fs"
    using assms(3) tk(2) by (auto simp: base_reserved_def layout_simps)
  show ?case
  proof (cases rule: alloc_block_cases [OF m br, case_names full got])
    case full
    obtain block' where "rollback ?fs block inode i = Some (block', fs0)"
      using rollback_spec [OF assms(1,2) Suc.prems(1,2)] lt Suc.prems by auto
    moreover have "free_blocks fs0 < n - unat (i_blocks inode)"
      using free_blocks_taken [OF Suc.prems(1)] free_blocks_0 [OF full(2)] lt Suc.prems(2) by simp
    ultimately show ?thesis using full lt by (simp add: grow.simps [of ?fs])
  next
    case (got k)
    define inode' where "inode' = inode\<lparr> i_block := (i_block inode)[i := of_nat k] \<rparr>"
    have step: "grow ?fs block inode i n = grow (foldl taken fs0 (map unat (ks @ [of_nat k]))) block inode' (Suc i) n"
      using grow_step [OF m tk(1) got(2,3,1,4) lt] got(5) by (simp add: inode'_def)
    have fr: "fresh fs0 (map unat (ks @ [of_nat k]))"
      using Suc.prems(1) got tk(2) data_blockD(2) by (auto simp: fresh_def)
    have at: "\<forall>t < length (ks @ [of_nat k]). i_block inode' ! (unat (i_blocks inode') + t) = (ks @ [of_nat k]) ! t"
      using Suc.prems lt by (auto simp: inode'_def nth_append less_Suc_eq)
    have IH: "(\<exists>block'. \<exists>new. grow (foldl taken fs0 (map unat (ks @ [of_nat k]))) block inode' (Suc i) n =
             Some (True, inode'\<lparr> i_block := overwrite (i_block inode') (Suc i) new \<rparr>, block',
               foldl taken fs0 (map unat ((ks @ [of_nat k]) @ new))) \<and>
           length block' \<le> MAX_BLOCK_SIZE \<and> length new = n - Suc i \<and> fresh fs0 (map unat ((ks @ [of_nat k]) @ new)))
       \<or> (\<exists>block' inode''. grow (foldl taken fs0 (map unat (ks @ [of_nat k]))) block inode' (Suc i) n =
            Some (False, inode'', block', fs0) \<and> free_blocks fs0 < n - unat (i_blocks inode'))"
      using Suc.hyps lt Suc.prems fr at by (intro Suc.hyps(1)) (auto simp: inode'_def)
    have ov: "overwrite (i_block inode') (Suc i) new = overwrite (i_block inode) i (of_nat k # new)" for new
      using lt(2) by (simp add: inode'_def overwrite_def take_Suc_conv_app_nth drop_update_cancel)
    from IH show ?thesis
    proof (elim disjE exE conjE)
      fix block' new
      assume *: "grow (foldl taken fs0 (map unat (ks @ [of_nat k]))) block inode' (Suc i) n =
          Some (True, inode'\<lparr> i_block := overwrite (i_block inode') (Suc i) new \<rparr>, block',
            foldl taken fs0 (map unat ((ks @ [of_nat k]) @ new)))"
        "length block' \<le> MAX_BLOCK_SIZE" "length new = n - Suc i" "fresh fs0 (map unat ((ks @ [of_nat k]) @ new))"
      then show ?thesis
        using step lt ov
        by (intro disjI1 exI [of _ block'] exI [of _ "of_nat k # new"]) (simp add: inode'_def)
    qed (use step in \<open>auto simp: inode'_def\<close>)
  qed
qed

lemma shrink_spec:
  assumes "mounted fs" and "unat (i_blocks inode) \<le> length (i_block inode)" and "length block \<le> MAX_BLOCK_SIZE"
    and "\<forall>b \<in> set (drop i (take (unat (i_blocks inode)) (i_block inode))). data_block (unat b)"
  shows "\<exists>block'. shrink fs block inode i =
    Some (inode\<lparr> i_block := overwrite (i_block inode) i (replicate (unat (i_blocks inode) - i) 0) \<rparr>, block',
      foldl given fs (map unat (drop i (take (unat (i_blocks inode)) (i_block inode))))) \<and>
    length block' \<le> MAX_BLOCK_SIZE"
  using assms
proof (induction "unat (i_blocks inode) - i" arbitrary: i inode fs block)
  case 0
  then show ?case by (simp add: shrink.simps [of fs] overwrite_def)
next
  case (Suc d)
  let ?bl = "i_block inode" and ?n = "unat (i_blocks inode)"
  have lt: "i < ?n" "i < length ?bl" using Suc.hyps Suc.prems by auto
  have dr: "drop i (take ?n ?bl) = ?bl ! i # drop (Suc i) (take ?n ?bl)"
    using lt by (simp add: Cons_nth_drop_Suc [symmetric])
  then have db: "data_block (unat (?bl ! i))" using Suc.prems(4) by simp
  obtain fs1 block' where step: "setSbFreeBlockCount fs 1 = Some (0, fs1)"
    "setGdFreeBlockCount fs1 (?bl ! i) 1 = Some (0, add_free fs 1)"
    "clear_block_bit (add_free fs 1) block (?bl ! i) = Some (block', given fs (unat (?bl ! i)))"
    and len: "length block' \<le> MAX_BLOCK_SIZE"
    using release [OF Suc.prems(1), of "?bl ! i" block] db Suc.prems(3) by (metis data_blockD(1,2))
  define inode' where "inode' = inode\<lparr> i_block := ?bl[i := 0] \<rparr>"
  have same: "drop (Suc i) (take ?n (?bl[i := 0])) = drop (Suc i) (take ?n ?bl)"
    by (simp add: drop_take)
  have ov: "overwrite (?bl[i := 0]) (Suc i) (replicate (?n - Suc i) 0) = overwrite ?bl i (replicate (?n - i) 0)"
    using lt by (simp add: overwrite_def take_Suc_conv_app_nth replicate_Suc [symmetric] Suc_diff_Suc
        del: replicate_Suc)
  have "\<exists>block''. shrink (given fs (unat (?bl ! i))) block' inode' (Suc i) =
      Some (inode'\<lparr> i_block := overwrite (i_block inode') (Suc i) (replicate (?n - Suc i) 0) \<rparr>, block'',
        foldl given (given fs (unat (?bl ! i))) (map unat (drop (Suc i) (take ?n (i_block inode'))))) \<and>
      length block'' \<le> MAX_BLOCK_SIZE"
    using Suc.hyps(1) [of inode' "Suc i" "given fs (unat (?bl ! i))" block'] Suc.hyps(2) Suc.prems lt len dr same
    by (simp add: inode'_def)
  then show ?case
    using lt step dr same ov by (simp add: shrink.simps [of fs block] idx_def upd_def inode'_def)
qed

section \<open>Filling the data blocks\<close>

text \<open>The byte that position \<open>p\<close> of the file holds after a write of \<open>len\<close> bytes at \<open>off\<close>.\<close>

definition written_byte :: "nat \<Rightarrow> nat \<Rightarrow> bytes \<Rightarrow> nat \<Rightarrow> u8" where
  "written_byte off len buffer p = (if off \<le> p \<and> p < off + len then buffer ! (p - off) else 0)"

definition written_block :: "nat \<Rightarrow> nat \<Rightarrow> bytes \<Rightarrow> nat \<Rightarrow> bytes" where
  "written_block off len buffer i = map (\<lambda>j. written_byte off len buffer (i * MAX_BLOCK_SIZE + j)) [0..<MAX_BLOCK_SIZE]"

lemma length_written_block [simp]: "length (written_block off len buffer i) = MAX_BLOCK_SIZE"
  by (simp add: written_block_def)

lemma unat_max_min:
  "unat (if (a :: 'a::len word) > b then a else b) = max (unat a) (unat b)"
  "unat (if (a :: 'a::len word) > b then b else a) = min (unat a) (unat b)"
  by (auto simp: word_less_nat_alt)

lemma copied_block:
  assumes "len \<le> length buffer" and "cs = max off (p)" and "ce = min (off + len) (p + m)"
    and "cs < ce"
  shows "memcpy (drop (cs - p) (replicate m 0)) (drop (cs - off) buffer) (ce - cs) =
      Some (take (ce - cs) (drop (cs - off) buffer) @ drop (ce - cs) (drop (cs - p) (replicate m 0)))"
    and "take (cs - p) (replicate m 0) @
      take (ce - cs) (drop (cs - off) buffer) @ drop (ce - cs) (drop (cs - p) (replicate m 0)) =
      map (\<lambda>j. written_byte off len buffer (p + j)) [0..<m]"
proof -
  have b: "off \<le> cs" "p \<le> cs" "ce \<le> off + len" "ce \<le> p + m" "len \<le> length buffer"
    using assms by auto
  have len: "cs - p \<le> m" "ce - cs \<le> length buffer - (cs - off)"
    "ce - cs \<le> m - (cs - p)" "length (take (ce - cs) (drop (cs - off) buffer)) = ce - cs"
    using b assms(4) by auto
  show "memcpy (drop (cs - p) (replicate m 0)) (drop (cs - off) buffer) (ce - cs) =
      Some (take (ce - cs) (drop (cs - off) buffer) @ drop (ce - cs) (drop (cs - p) (replicate m 0)))"
    using len by (simp add: memcpy_eq)
  show "take (cs - p) (replicate m 0) @
      take (ce - cs) (drop (cs - off) buffer) @ drop (ce - cs) (drop (cs - p) (replicate m 0)) =
      map (\<lambda>j. written_byte off len buffer (p + j)) [0..<m]" (is "?l = ?r")
  proof (rule nth_equalityI)
    show "length ?l = length ?r" using len by simp
    fix j assume "j < length ?l"
    then have j: "j < m" using len by simp
    then have rhs: "?r ! j = written_byte off len buffer (p + j)"
      by simp
    consider "j < cs - p" | "cs - p \<le> j" "j < ce - p" | "ce - p \<le> j" by linarith
    then show "?l ! j = ?r ! j"
    proof cases
      case 1
      then have "p + j < off" using assms(2) by (auto simp: max_def split: if_splits)
      with 1 j show ?thesis by (simp add: nth_append rhs written_byte_def)
    next
      case 2
      have "\<not> j < cs - p" using 2 by simp
      moreover have sub: "j - (cs - p) < ce - cs" using 2 b by linarith
      moreover have "drop (cs - off) buffer ! (j - (cs - p)) = buffer ! (cs - off + (j - (cs - p)))"
        using sub len(2) by (intro nth_drop) linarith
      moreover have "length (take (cs - p) (replicate m (0 :: u8))) = cs - p" using len(1) by simp
      ultimately have "?l ! j = buffer ! (cs - off + (j - (cs - p)))"
        using len(4) by (simp add: nth_append del: length_take)
      also have "cs - off + (j - (cs - p)) = p + j - off"
        using 2 b by linarith
      finally have l: "?l ! j = buffer ! (p + j - off)" .
      have "off \<le> p + j" "p + j < off + len" using 2 b by linarith+
      with l j show ?thesis by (simp add: rhs written_byte_def)
    next
      case 3
      then have "off + len \<le> p + j" using assms(3) j by (auto simp: min_def split: if_splits)
      moreover have "cs - p + (ce - cs) = ce - p" using b assms(4) by simp
      moreover have "\<not> j < cs - p" using 3 b assms(4) by simp
      moreover have "\<not> j - (cs - p) < ce - cs" using 3 b assms(4) by simp
      moreover have "j - (ce - p) < m - (ce - p)" using 3 j by simp
      moreover have "length (take (cs - p) (replicate m (0 :: u8))) = cs - p" using len(1) by simp
      ultimately show ?thesis using len(4) j by (simp add: nth_append rhs written_byte_def drop_replicate del: length_take)
    qed
  qed
qed

lemma untouched_block:
  assumes "\<not> max off (i * MAX_BLOCK_SIZE) < min (off + len) (i * MAX_BLOCK_SIZE + MAX_BLOCK_SIZE)"
  shows "written_block off len buffer i = replicate MAX_BLOCK_SIZE 0"
  using assms by (intro nth_equalityI) (auto simp: written_block_def written_byte_def)

lemma fill_word_values:
  assumes "unat (off :: u64) + unat len < 2 ^ 32" and "i \<le> 12"
  defines "bs \<equiv> (of_nat i * of_nat MAX_BLOCK_SIZE :: u64)"
  shows "unat bs = i * 1024" "unat (off + len) = unat off + unat len"
    "unat (bs + of_nat MAX_BLOCK_SIZE) = i * 1024 + 1024"
proof -
  have "bs = of_nat (i * 1024)" by (simp add: bs_def layout_simps)
  moreover have "unat (of_nat (i * 1024) :: u64) = i * 1024" using assms(2) by (intro unat_le_of_nat) simp
  ultimately show v: "unat bs = i * 1024" by (simp only:)
  show "unat (off + len) = unat off + unat len" using assms(1) by (intro unat_add_no_wrap) simp
  show "unat (bs + of_nat MAX_BLOCK_SIZE) = i * 1024 + 1024"
    using v assms(2) by (subst unat_add_no_wrap) (auto simp: layout_simps)
qed

lemma fill_step:
  assumes "fs_ok fs" and "i < n" and "n \<le> 12" and "n \<le> length (i_block inode)"
    and "unat (i_block inode ! i) < disk_blocks"
    and "unat off + unat len < 2 ^ 32" and "unat len \<le> length buffer"
  shows "fill_from fs inode len off buffer i n =
    fill_from (fput fs (unat (i_block inode ! i)) (written_block (unat off) (unat len) buffer i))
      inode len off buffer (Suc i) n"
proof -
  define bs where "bs = (of_nat i * of_nat MAX_BLOCK_SIZE :: u64)"
  define cs where "cs = (if off > bs then off else bs)"
  define ce where "ce = (if off + len > bs + of_nat MAX_BLOCK_SIZE then bs + of_nat MAX_BLOCK_SIZE else off + len)"
  let ?cs = "max (unat off) (i * 1024)" and ?ce = "min (unat off + unat len) (i * 1024 + 1024)"
  have i: "i \<le> 12" using assms by simp
  note v = fill_word_values [OF assms(6) i, folded bs_def]
  have cs: "unat cs = ?cs" unfolding cs_def by (simp only: unat_max_min v)
  have ce: "unat ce = ?ce" unfolding ce_def by (simp only: unat_max_min v)
  have lt: "cs < ce \<longleftrightarrow> ?cs < ?ce" by (simp only: word_less_nat_alt cs ce)
  have ge: "unat (cs - bs) = ?cs - i * 1024" "unat (cs - off) = ?cs - unat off"
    using unat_sub [of bs cs] unat_sub [of off cs] by (simp_all add: word_le_nat_alt cs v)
  have blk: "(if cs < ce then
        do { part \<leftarrow> memcpy (drop (unat (cs - bs)) (replicate MAX_BLOCK_SIZE 0)) (drop (unat (cs - off)) buffer)
               (unat (ce - cs));
             Some (take (unat (cs - bs)) (replicate MAX_BLOCK_SIZE 0) @ part) }
      else Some (replicate MAX_BLOCK_SIZE 0)) = Some (written_block (unat off) (unat len) buffer i)"
  proof (cases "cs < ce")
    case True
    then have d: "unat (ce - cs) = ?ce - ?cs" using unat_sub [of cs ce] by (simp add: cs ce less_imp_le)
    have "?cs < ?ce" using True lt by simp
    note c = copied_block [OF assms(7) refl refl this]
    show ?thesis
      unfolding if_P [OF True] ge d layout_values(3) c(1) written_block_def c(2) [symmetric] by simp
  next
    case False
    then have "written_block (unat off) (unat len) buffer i = replicate 1024 0"
      using lt untouched_block [of "unat off" i "unat len" buffer, unfolded layout_values(3)] by simp
    then show ?thesis unfolding if_not_P [OF False] layout_values(3) by (simp only:)
  qed
  have "fill_from fs inode len off buffer i n = do {
      block \<leftarrow> (if cs < ce then
        do { part \<leftarrow> memcpy (drop (unat (cs - bs)) (replicate MAX_BLOCK_SIZE 0)) (drop (unat (cs - off)) buffer)
               (unat (ce - cs));
             Some (take (unat (cs - bs)) (replicate MAX_BLOCK_SIZE 0) @ part) }
        else Some (replicate MAX_BLOCK_SIZE 0));
      b \<leftarrow> idx (i_block inode) i;
      (_, fs) \<leftarrow> fsWr fs b block;
      fill_from fs inode len off buffer (Suc i) n }"
    unfolding fill_from.simps [of fs inode len off buffer i n] Let_def if_P [OF assms(2)]
      bs_def [symmetric] cs_def [symmetric] ce_def [symmetric] by (rule refl)
  then show ?thesis
    unfolding blk using assms(1-5) by (simp add: fsd.wr_put)
qed

definition fill_all :: "Filesystem \<Rightarrow> u32 list \<Rightarrow> (nat \<Rightarrow> bytes) \<Rightarrow> nat list \<Rightarrow> Filesystem" where
  "fill_all fs bl W js = foldl (\<lambda>fs j. fput fs (unat (bl ! j)) (W j)) fs js"

lemma fill_all_simps [simp]:
  "fill_all fs bl W [] = fs"
  "fill_all fs bl W (j # js) = fill_all (fput fs (unat (bl ! j)) (W j)) bl W js"
  by (simp_all add: fill_all_def)

lemma mounted_fill_all [simp]: "mounted (fill_all fs bl W js) = mounted fs"
  by (induction js arbitrary: fs) simp_all

lemma fblock_fill_other:
  assumes "\<And>j. length (W j) = MAX_BLOCK_SIZE"
  shows "k \<notin> (\<lambda>j. unat (bl ! j)) ` set js \<Longrightarrow> fblock (fill_all fs bl W js) k = fblock fs k"
  by (induction js arbitrary: fs) (auto simp: fsd.content_put assms)

lemma fblock_fill_same:
  assumes "\<And>j. length (W j) = MAX_BLOCK_SIZE"
  shows "distinct (map (\<lambda>j. unat (bl ! j)) js) \<Longrightarrow> j \<in> set js \<Longrightarrow>
    fblock (fill_all fs bl W js) (unat (bl ! j)) = W j"
proof (induction js arbitrary: fs)
  case (Cons i js)
  show ?case
  proof (cases "j = i")
    case True
    then show ?thesis using Cons.prems by (auto simp: fblock_fill_other assms fsd.content_put)
  next
    case False
    then show ?thesis using Cons by simp
  qed
qed simp

lemma fill_from_eq:
  assumes "n \<le> 12" and "n \<le> length (i_block inode)"
    and "\<forall>j < n. unat (i_block inode ! j) < disk_blocks"
    and "unat off + unat len < 2 ^ 32" and "unat len \<le> length buffer"
  shows "fs_ok fs \<Longrightarrow> fill_from fs inode len off buffer i n =
    Some (fill_all fs (i_block inode) (written_block (unat off) (unat len) buffer) [i..<n])"
proof (induction "n - i" arbitrary: i fs)
  case 0
  then show ?case by (simp add: fill_from.simps)
next
  case (Suc d)
  then have "i < n" by simp
  then show ?case
    using Suc fill_step [OF Suc.prems _ assms(1,2) _ assms(4,5)] assms(3) by (simp add: upt_conv_Cons)
qed

lemma write_block_count_val:
  assumes "unat off + unat len < 2 ^ 32"
  shows "unat (write_block_count off len) = max 1 ((unat off + unat len + 1023) div 1024)"
proof -
  let ?S = "unat off + unat len"
  have "unat (off + len + 1024 - 1) = ?S + 1023"
  proof -
    have "off + len + 1024 - 1 = off + len + 1023" by simp
    moreover have "unat (off + len) = ?S" using assms by (intro unat_add_no_wrap) simp
    ultimately show ?thesis using assms by (simp only:) (subst unat_add_no_wrap; simp)
  qed
  then have "unat ((off + len + 1024 - 1) div 1024) = (?S + 1023) div 1024" by (simp add: unat_div_distrib)
  then have u: "unat (ucast ((off + len + 1024 - 1) div 1024) :: u32) = (?S + 1023) div 1024"
    using assms by (simp add: unsigned_ucast_eq unsigned_of_nat take_bit_eq_mod)
  define c where "c = (ucast ((off + len + 1024 - 1) div 1024) :: u32)"
  have "write_block_count off len = (if c = 0 then 1 else c)"
    unfolding write_block_count_def Let_def layout_values(3) of_nat_numeral c_def ..
  moreover have "unat c = (?S + 1023) div 1024" using u by (simp only: c_def)
  moreover have "c = 0 \<longleftrightarrow> unat c = 0" by (simp add: unat_eq_zero)
  ultimately show ?thesis by (auto simp: max_def)
qed

section \<open>Writing a file\<close>

definition entry_at :: "Filesystem \<Rightarrow> DirEntryLocation \<Rightarrow> DirEntry" where
  "entry_at fs loc = decDirEntry (drop (unat (l_offset loc) * DIR_ENTRY_SIZE) (fblock fs (unat (l_block loc))))"

definition loc_ok :: "DirEntryLocation \<Rightarrow> bool" where
  "loc_ok loc \<longleftrightarrow> unat (l_block loc) < disk_blocks \<and> unat (l_offset loc) < MAX_BLOCK_SIZE div DIR_ENTRY_SIZE"

text \<open>The directory entry a node points at names the live inode \<open>n\<close>.\<close>

definition file_node :: "Filesystem \<Rightarrow> FsNode \<Rightarrow> nat \<Rightarrow> bool" where
  "file_node fs file n \<longleftrightarrow> loc_ok (n_location file) \<and> live fs n \<and>
     unat (d_inode (entry_at fs (n_location file))) = n"

lemma entry_struct_at:
  assumes "loc_ok loc"
  shows "struct_at DIR_ENTRY_SIZE decDirEntry (fblock fs (unat (l_block loc))) (unat (l_offset loc)) =
    Some (entry_at fs loc)"
  using assms by (simp add: struct_at_def entry_at_def loc_ok_def layout_simps)

lemma take_overwrite:
  "i + length ys \<le> length xs \<Longrightarrow> take (i + length ys) (overwrite xs i ys) = take i xs @ ys"
  "n \<le> i \<Longrightarrow> i \<le> length xs \<Longrightarrow> take n (overwrite xs i ys) = take n xs"
  by (auto simp: overwrite_def min_absorb2)

text \<open>The first two loops together: what they leave in the inode and on the disk.\<close>

lemma resize:
  assumes inv: "fs_inv fs" and n: "live fs n" and c: "c \<le> FS_N_BLOCKS" and len: "length block \<le> MAX_BLOCK_SIZE"
    and ino: "ino = (inode_at fs n)\<lparr> i_size := sz \<rparr>"
  shows "(\<exists>bs bl block1 ino1 fs1 block2 fs2.
      grow fs block ino (unat (i_blocks ino)) c = Some (True, ino1, block1, fs1) \<and>
      shrink fs1 block1 ino1 c = Some (ino\<lparr> i_block := bl \<rparr>, block2, fs2) \<and>
      same_rest fs fs2 \<and> counts_ok fs2 \<and> mounted fs2 \<and> length bl = FS_N_BLOCKS \<and> take c bl = bs \<and>
      length bs = c \<and> distinct bs \<and>
      (\<forall>b\<in>set bs. data_block (unat b) \<and> (b \<in> set (owned fs n) \<or> \<not> block_used fs (unat b))) \<and>
      (\<forall>j < BLOCKS_PER_GROUP. block_used fs2 j \<longleftrightarrow>
         j \<in> unat ` set bs \<or> block_used fs j \<and> j \<notin> unat ` set (owned fs n)))
    \<or> (\<exists>block' ino'. grow fs block ino (unat (i_blocks ino)) c = Some (False, ino', block', fs) \<and>
         free_blocks fs < c - unat (i_blocks ino))"
proof -
  note fd = fs_invD [OF inv]
  let ?bl = "i_block ino" and ?n = "unat (i_blocks ino)"
  have wf: "length ?bl = FS_N_BLOCKS" using wf_inode_at [of fs n] by (simp add: ino wfInode_def layout_simps)
  have own: "owned fs n = take ?n ?bl" by (simp add: owned_def ino)
  have nw: "?n \<le> FS_N_BLOCKS" "distinct (take ?n ?bl)"
    "\<forall>b\<in>set (take ?n ?bl). data_block (unat b) \<and> block_used fs (unat b)"
    using fd(4) [OF n] by (simp_all add: inode_wf_def own [symmetric]) (simp add: ino)
  show ?thesis
  proof (cases "?n \<le> c")
    case True
    have "(\<exists>block' new. grow fs block ino ?n c = Some (True, ino\<lparr> i_block := overwrite ?bl ?n new \<rparr>, block',
               foldl taken fs (map unat new)) \<and>
             length block' \<le> MAX_BLOCK_SIZE \<and> length new = c - ?n \<and> fresh fs (map unat new)) \<or>
          (\<exists>block' ino'. grow fs block ino ?n c = Some (False, ino', block', fs) \<and> free_blocks fs < c - ?n)"
      using grow_spec [OF fd(1,3,2), of "[]" ?n ino c block] True c len by (simp add: wf)
    then show ?thesis
    proof (elim disjE exE conjE)
      fix block' new
      assume g: "grow fs block ino ?n c = Some (True, ino\<lparr> i_block := overwrite ?bl ?n new \<rparr>, block',
          foldl taken fs (map unat new))"
        and new: "length block' \<le> MAX_BLOCK_SIZE" "length new = c - ?n" "fresh fs (map unat new)"
      let ?fs2 = "foldl taken fs (map unat new)" and ?bl2 = "overwrite ?bl ?n new"
      have sh: "shrink ?fs2 block' (ino\<lparr> i_block := ?bl2 \<rparr>) c = Some (ino\<lparr> i_block := ?bl2 \<rparr>, block', ?fs2)"
        using True by (simp add: shrink.simps)
      have bs: "take c ?bl2 = take ?n ?bl @ new" "length ?bl2 = FS_N_BLOCKS"
        using take_overwrite(1) [of ?n new ?bl] True new(2) c wf by (simp_all add: buf_simps)
      have tk: "counts_ok ?fs2" "\<And>j. j < BLOCKS_PER_GROUP \<Longrightarrow> block_used ?fs2 j \<longleftrightarrow> j \<in> unat ` set new \<or> block_used fs j"
        using foldl_taken_facts [OF fd(3) new(3)] by auto
      have fr: "\<forall>b\<in>set new. data_block (unat b) \<and> \<not> block_used fs (unat b)" "distinct new"
        using new(3) by (auto simp: fresh_def distinct_unat)
      show ?thesis
        by (intro disjI1 exI [of _ "take c ?bl2"] exI [of _ ?bl2], rule exI, rule exI, rule exI, rule exI, rule exI,
            intro conjI, rule g, rule sh)
           (use bs tk fr nw c wf True new(2) fd(1) own same_rest_foldl(1) [of fs "map unat new"] in
             \<open>auto simp: own\<close>)
    qed auto
  next
    case False
    let ?drop = "drop c (take ?n ?bl)"
    let ?bl2 = "overwrite ?bl c (replicate (?n - c) 0)" and ?fs2 = "foldl given fs (map unat ?drop)"
    have g: "grow fs block ino ?n c = Some (True, ino, block, fs)" using False by (simp add: grow.simps)
    obtain block' where sh: "shrink fs block ino c = Some (ino\<lparr> i_block := ?bl2 \<rparr>, block', ?fs2)"
      using shrink_spec [OF fd(1), of ino block c] nw wf len by (auto dest: in_set_dropD)
    have bs: "take c ?bl2 = take c ?bl" "length ?bl2 = FS_N_BLOCKS"
      using take_overwrite(2) [of c c ?bl] False nw(1) c wf by (simp_all add: buf_simps)
    have split: "take ?n ?bl = take c ?bl @ ?drop" using False by (metis append_take_drop_id min.absorb1 nat_le_linear take_take)
    have dd: "distinct (take c ?bl)" "distinct ?drop" "set (take c ?bl) \<inter> set ?drop = {}"
      using nw(2) split by (metis distinct_append)+
    have gv: "counts_ok ?fs2" "\<And>j. j < BLOCKS_PER_GROUP \<Longrightarrow> block_used ?fs2 j \<longleftrightarrow> j \<notin> unat ` set ?drop \<and> block_used fs j"
      using foldl_given_facts [OF fd(3), of "map unat ?drop"] dd(2) nw(3)
      by (auto simp: distinct_unat dest: in_set_dropD)
    have st: "set (take ?n ?bl) = set (take c ?bl) \<union> set ?drop" using split by (metis set_append)
    have u: "block_used ?fs2 j \<longleftrightarrow> j \<in> unat ` set (take c ?bl) \<or> block_used fs j \<and> j \<notin> unat ` set (owned fs n)"
      if "j < BLOCKS_PER_GROUP" for j
    proof -
      have "unat ` set (take c ?bl) \<inter> unat ` set ?drop = {}"
        using dd(3) by (auto simp: word_unat_eq_iff [symmetric])
      moreover have "\<forall>j \<in> unat ` (set (take c ?bl) \<union> set ?drop). block_used fs j" using nw(3) st by auto
      ultimately show ?thesis unfolding gv(2) [OF that] own st image_Un by blast
    qed
    show ?thesis
      by (intro disjI1 exI [of _ "take c ?bl"] exI [of _ ?bl2], rule exI, rule exI, rule exI, rule exI, rule exI,
          intro conjI, rule g, rule sh)
         (use bs gv(1) u dd nw c wf False fd(1) own st same_rest_foldl(2) [of fs "map unat ?drop"] in auto)
  qed
qed

definition file_content :: "Filesystem \<Rightarrow> nat \<Rightarrow> bytes" where
  "file_content fs n =
     take (unat (i_size (inode_at fs n))) (concat (map (\<lambda>b. fblock fs (unat b)) (owned fs n)))"

lemma concat_written:
  "concat (map (written_block off len buffer) [0..<c]) = map (written_byte off len buffer) [0..<c * MAX_BLOCK_SIZE]"
proof (induction c)
  case (Suc c)
  have "[0..<Suc c * MAX_BLOCK_SIZE] = [0..<c * MAX_BLOCK_SIZE] @ map (\<lambda>j. c * MAX_BLOCK_SIZE + j) [0..<MAX_BLOCK_SIZE]"
    using upt_add_eq_append [of 0 "c * MAX_BLOCK_SIZE" MAX_BLOCK_SIZE] map_add_upt [of "c * MAX_BLOCK_SIZE" MAX_BLOCK_SIZE]
    by (simp add: add.commute)
  with Suc show ?case by (simp add: written_block_def o_def)
qed simp

lemma take_written:
  assumes "off + len \<le> m" and "len \<le> length buffer"
  shows "take (off + len) (map (written_byte off len buffer) [0..<m]) = replicate off 0 @ take len buffer"
  using assms by (intro nth_equalityI) (auto simp: written_byte_def nth_append)

text \<open>Enough blocks for the bytes: what \<open>fillDataBlock\<close> leaves in them is the new content.\<close>

lemma filled_content:
  assumes fs3: "fs3 = fill_all fs2 bl (written_block off len buffer) [0..<c]"
    and bs: "take c bl = bs" "length bs = c" "distinct bs"
    and "off + len \<le> c * MAX_BLOCK_SIZE" and "len \<le> length buffer"
  shows "take (off + len) (concat (map (\<lambda>b. fblock fs3 (unat b)) bs)) = replicate off 0 @ take len buffer"
    and "k \<notin> unat ` set bs \<Longrightarrow> fblock fs3 k = fblock fs2 k"
proof -
  have bl: "bl ! j = bs ! j" if "j < c" for j using bs(1) that by auto
  have mp: "map (\<lambda>j. unat (bl ! j)) [0..<c] = map unat bs"
    using bl bs(2) by (intro nth_equalityI) auto
  have img: "(\<lambda>j. unat (bl ! j)) ` set [0..<c] = unat ` set bs"
    using arg_cong [OF mp, of set] by simp
  have "map (\<lambda>b. fblock fs3 (unat b)) bs = map (written_block off len buffer) [0..<c]"
  proof (rule nth_equalityI)
    fix j assume "j < length (map (\<lambda>b. fblock fs3 (unat b)) bs)"
    then have j: "j < c" using bs(2) by simp
    then have "fblock fs3 (unat (bl ! j)) = written_block off len buffer j"
      unfolding fs3 using mp bs(3) by (intro fblock_fill_same) (auto simp: distinct_unat)
    then show "map (\<lambda>b. fblock fs3 (unat b)) bs ! j = map (written_block off len buffer) [0..<c] ! j"
      using j bs(2) bl by simp
  qed (simp add: bs)
  then show "take (off + len) (concat (map (\<lambda>b. fblock fs3 (unat b)) bs)) = replicate off 0 @ take len buffer"
    using assms(5,6) by (simp add: concat_written take_written)
  show "k \<notin> unat ` set bs \<Longrightarrow> fblock fs3 k = fblock fs2 k"
    unfolding fs3 using img by (intro fblock_fill_other) auto
qed

lemma fsWrite_too_big:
  assumes "FS_D_BLOCKS * MAX_BLOCK_SIZE < unat off + unat len" and "unat off + unat len < 2 ^ 32"
  shows "fsWrite fs file off len buffer = Some (FS_ERROR, fs)"
proof -
  have "of_nat FS_D_BLOCKS < write_block_count off len"
    using assms write_block_count_val [OF assms(2)] by (simp add: word_less_nat_alt layout_simps)
  then show ?thesis by (simp add: fsWrite_def)
qed

text \<open>The effect of a write that found its blocks, and of one that did not.\<close>

definition unchanged_but :: "nat \<Rightarrow> Filesystem \<Rightarrow> Filesystem \<Rightarrow> bool" where
  "unchanged_but n fs fs' \<longleftrightarrow> (\<forall>m. live fs' m = live fs m) \<and>
     (\<forall>m. live fs m \<longrightarrow> m \<noteq> n \<longrightarrow> inode_at fs' m = inode_at fs m \<and>
        (\<forall>b\<in>set (owned fs m). fblock fs' (unat b) = fblock fs (unat b)))"

lemma fsWrite_unfold:
  assumes "fs_inv fs" and "file_node fs file n" and "write_block_count off len \<le> of_nat FS_D_BLOCKS"
  shows "fsWrite fs file off len buffer = do {
      let c = write_block_count off len;
      let ino = (inode_at fs n)\<lparr> i_size := ucast (off + len) \<rparr>;
      (grown, ino, block, fs) \<leftarrow> grow fs (fblock fs (unat (l_block (n_location file)))) ino (unat (i_blocks ino)) (unat c);
      if \<not> grown then Some (FS_ERROR, fs)
      else do {
        (ino, block, fs) \<leftarrow> shrink fs block ino (unat c);
        let ino = ino\<lparr> i_blocks := c \<rparr>;
        fs \<leftarrow> fillDataBlock fs ino len off buffer c;
        (_, fs) \<leftarrow> insertInodeTable fs ino (int n);
        Some (FS_SUCCESS, fs) } }"
proof -
  let ?loc = "n_location file"
  have ok: "fs_ok fs" using fs_invD(1) [OF assms(1)] by (rule mounted_ok)
  have l: "loc_ok ?loc" "inode_no n" "unat (d_inode (entry_at fs ?loc)) = n"
    using assms(2) by (auto simp: file_node_def live_def)
  have s: "sint (d_inode (entry_at fs ?loc)) = int n"
    using l by (subst sint_small) (auto simp: inode_no_def layout_simps)
  have "getInode fs (d_inode (entry_at fs ?loc)) = Some (Some (inode_at fs n))"
    using getInode_eq [OF ok, of "d_inode (entry_at fs ?loc)"] l by simp
  moreover have "fsRd fs (l_block ?loc) [] = Some (0, fblock fs (unat (l_block ?loc)))"
    using ok l(1) by (simp add: fsd.rd_content loc_ok_def)
  ultimately show ?thesis
    using assms(3) entry_struct_at [OF l(1), of fs]
    unfolding fsWrite_def Let_def by (simp add: leD s cong: if_cong)
qed

lemma fsWrite_full:
  assumes "fs_inv fs" and "file_node fs file n"
    and "unat off + unat len \<le> FS_D_BLOCKS * MAX_BLOCK_SIZE" and "unat len \<le> length buffer"
  shows "\<exists>r fs'. fsWrite fs file off len buffer = Some (r, fs') \<and>
    (r = FS_SUCCESS \<and> fs_inv fs' \<and> unchanged_but n fs fs' \<and>
       file_content fs' n = replicate (unat off) 0 @ take (unat len) buffer \<and>
       i_mode (inode_at fs' n) = i_mode (inode_at fs n) \<and> length (owned fs' n) = unat (write_block_count off len) \<and>
       unat (i_size (inode_at fs' n)) = unat off + unat len
     \<or> r = FS_ERROR \<and> fs' = fs \<and>
       free_blocks fs < unat (write_block_count off len) - unat (i_blocks (inode_at fs n)))"
proof -
  let ?c = "unat (write_block_count off len)" and ?W = "written_block (unat off) (unat len) buffer"
  define ino where "ino = (inode_at fs n)\<lparr> i_size := ucast (off + len) \<rparr>"
  let ?block = "fblock fs (unat (l_block (n_location file)))"
  have S: "unat off + unat len < 2 ^ 32" using assms(3) by (simp add: layout_simps)
  have c: "?c \<le> 12" "unat off + unat len \<le> ?c * 1024"
    using assms(3) by (auto simp: write_block_count_val [OF S] layout_simps)
  then have wc: "write_block_count off len \<le> of_nat FS_D_BLOCKS" by (simp add: word_le_nat_alt layout_simps)
  have n: "live fs n" "inode_no n" using assms(2) by (auto simp: file_node_def live_def)
  have sz: "unat (ucast (off + len) :: u32) = unat off + unat len"
    using S by (simp add: unsigned_ucast_eq unsigned_of_nat unat_add_no_wrap take_bit_eq_mod)
  note unf = fsWrite_unfold [OF assms(1,2) wc, of buffer, unfolded Let_def, folded ino_def]
  have blk: "length ?block \<le> MAX_BLOCK_SIZE" "?c \<le> FS_N_BLOCKS" using c by (simp_all add: layout_simps)
  from resize [OF assms(1) n(1) blk(2,1) ino_def]
  show ?thesis
  proof (elim disjE exE conjE)
    fix bs bl block1 ino1 fs1 block2 fs2
    assume g: "grow fs ?block ino (unat (i_blocks ino)) ?c = Some (True, ino1, block1, fs1)"
      and sh: "shrink fs1 block1 ino1 ?c = Some (ino\<lparr> i_block := bl \<rparr>, block2, fs2)"
      and fs2: "same_rest fs fs2" "counts_ok fs2" "mounted fs2"
      and bs: "length bl = FS_N_BLOCKS" "take ?c bl = bs" "length bs = ?c" "distinct bs"
        "\<forall>b\<in>set bs. data_block (unat b) \<and> (b \<in> set (owned fs n) \<or> \<not> block_used fs (unat b))"
      and used: "\<forall>j < BLOCKS_PER_GROUP. block_used fs2 j \<longleftrightarrow>
         j \<in> unat ` set bs \<or> block_used fs j \<and> j \<notin> unat ` set (owned fs n)"
    define x where "x = ino\<lparr> i_block := bl, i_blocks := write_block_count off len \<rparr>"
    define fs3 where "fs3 = fill_all fs2 bl ?W [0..<?c]"
    have wf: "wfInode x" using wf_inode_at [of fs n] bs(1) by (simp add: x_def ino_def wfInode_def layout_simps)
    have on_disk: "\<forall>j < ?c. unat (i_block x ! j) < disk_blocks"
    proof (intro allI impI)
      fix j assume "j < ?c"
      then have "bl ! j \<in> set bs" using bs(2,3) by (metis nth_mem nth_take)
      then show "unat (i_block x ! j) < disk_blocks" using bs(5) data_blockD(5) by (simp add: x_def)
    qed
    have fill: "fillDataBlock fs2 x len off buffer (write_block_count off len) = Some fs3"
      using fill_from_eq [OF c(1) _ on_disk S assms(4), of fs2 0] bs(1) blk(2) mounted_ok [OF fs2(3)]
      by (simp add: fillDataBlock_def x_def fs3_def)
    note content = filled_content [OF fs3_def bs(2,3,4), unfolded layout_values(3), OF c(2) assms(4)]
    have ins: "insertInodeTable fs3 x (int n) = Some (FS_SUCCESS, put_inode fs3 n x)"
      using fs2(3) wf n by (intro insertInodeTable_eq mounted_ok) (auto simp: fs3_def)
    have run: "fsWrite fs file off len buffer = Some (FS_SUCCESS, put_inode fs3 n x)"
      using unf g sh fill ins by (simp add: x_def)
    note rep = replace_inode [OF assms(1) n(1) fs2(1,2) _ _ bs(4) _ _ content(2) wf]
    have hyps: "mounted fs3" "length bs \<le> FS_N_BLOCKS" "unat (i_blocks x) = length bs" "take (length bs) (i_block x) = bs"
      using fs2(3) bs blk(2) by (simp_all add: fs3_def x_def)
    have "fs_inv (put_inode fs3 n x)"
      by (rule rep(1)) (use hyps used bs(5) in auto)
    moreover have "unchanged_but n fs (put_inode fs3 n x)"
      unfolding unchanged_but_def
      by (intro conjI allI impI ballI; (rule rep(2) | rule rep(4) | rule rep(5))) (use hyps used bs(5) in auto)
    moreover have at: "inode_at (put_inode fs3 n x) n = x" using wf n by (simp add: inode_at_put_inode)
    moreover have "length (owned (put_inode fs3 n x) n) = ?c"
      using bs(1) blk(2) by (simp add: owned_def at) (simp add: x_def)
    moreover have "i_mode x = i_mode (inode_at fs n)" "unat (i_size x) = unat off + unat len" using sz by (simp_all add: x_def ino_def)
    moreover have "file_content (put_inode fs3 n x) n = replicate (unat off) 0 @ take (unat len) buffer"
    proof -
      have "fblock (put_inode fs3 n x) (unat b) = fblock fs3 (unat b)" if "b \<in> set bs" for b
        by (rule rep(6)) (use hyps used bs(5) that in auto)
      then have eq: "map (\<lambda>b. fblock (put_inode fs3 n x) (unat b)) bs = map (\<lambda>b. fblock fs3 (unat b)) bs" by simp
      have own: "owned (put_inode fs3 n x) n = bs" "unat (i_size x) = unat off + unat len"
        using bs(2) sz by (simp_all add: owned_def at) (simp_all add: x_def ino_def)
      show ?thesis unfolding file_content_def at own eq by (rule content(1))
    qed
    ultimately show ?thesis using run by auto
  next
    fix block' ino'
    assume g: "grow fs ?block ino (unat (i_blocks ino)) ?c = Some (False, ino', block', fs)"
      and f: "free_blocks fs < ?c - unat (i_blocks ino)"
    then have "fsWrite fs file off len buffer = Some (FS_ERROR, fs)" using unf by simp
    then show ?thesis using f by (simp add: ino_def)
  qed
qed

lemma fsWrite_spec:
  assumes "fs_inv fs" and "file_node fs file n"
    and "unat off + unat len \<le> FS_D_BLOCKS * MAX_BLOCK_SIZE" and "unat len \<le> length buffer"
  shows "\<exists>r fs'. fsWrite fs file off len buffer = Some (r, fs') \<and>
    (r = FS_SUCCESS \<and> fs_inv fs' \<and> unchanged_but n fs fs' \<and>
       file_content fs' n = replicate (unat off) 0 @ take (unat len) buffer \<and>
       i_mode (inode_at fs' n) = i_mode (inode_at fs n) \<and> length (owned fs' n) = unat (write_block_count off len)
     \<or> r = FS_ERROR \<and> fs' = fs \<and>
       free_blocks fs < unat (write_block_count off len) - unat (i_blocks (inode_at fs n)))"
  using fsWrite_full [OF assms] by blast

text \<open>C1: Writing a file. On a consistent file system, \<open>fsWrite\<close> of at most twelve blocks' worth of
  bytes through a node of a live inode always returns without undefined behaviour. Either it reports
  success: then the file is exactly \<open>offset\<close> zero bytes followed by the bytes written, the file
  system is consistent again (bitmap, both free counters, no block owned twice) and every other
  inode and all its blocks are untouched, as is the mode of the file; or it reports an error, which happens only when fewer
  blocks are free than the file has to grow by, and then the disk is exactly what it was.\<close>

theorem fsWrite_correct:
  assumes "fs_inv fs" and "file_node fs file n"
    and "unat off + unat len \<le> FS_D_BLOCKS * MAX_BLOCK_SIZE" and "unat len \<le> length buffer"
  shows "\<exists>r fs'. fsWrite fs file off len buffer = Some (r, fs') \<and>
    (r = FS_SUCCESS \<and> fs_inv fs' \<and> unchanged_but n fs fs' \<and>
       file_content fs' n = replicate (unat off) 0 @ take (unat len) buffer \<and>
       i_mode (inode_at fs' n) = i_mode (inode_at fs n) \<and> length (owned fs' n) = unat (write_block_count off len)
     \<or> r = FS_ERROR \<and> fs' = fs \<and>
       free_blocks fs < unat (write_block_count off len) - unat (i_blocks (inode_at fs n)))"
  by (rule fsWrite_spec [OF assms])

section \<open>Reading a file\<close>

lemma bslice_concat:
  assumes "\<And>b. b \<in> set bs \<Longrightarrow> length b = m" and "c < length bs" and "r + k \<le> m"
  shows "bslice (c * m + r) k (concat bs) = bslice r k (bs ! c)"
  using assms
proof (induction bs arbitrary: c)
  case (Cons b bs)
  then have b: "length b = m" by simp
  show ?case
  proof (cases c)
    case 0
    then show ?thesis using b Cons.prems(3) by (simp add: bslice_def)
  next
    case (Suc d)
    then have "bslice (c * m + r) k (concat (b # bs)) = bslice (d * m + r) k (concat bs)"
      using b by (simp add: bslice_def add.assoc)
    also have "\<dots> = bslice r k (bs ! d)" using Cons Suc by (intro Cons.IH) auto
    finally show ?thesis using Suc by simp
  qed
qed simp

lemma concat_length: "(\<And>b. b \<in> set bs \<Longrightarrow> length b = m) \<Longrightarrow> length (concat bs) = length bs * m"
  by (induction bs) auto

definition read_size :: "Filesystem \<Rightarrow> nat \<Rightarrow> nat \<Rightarrow> nat \<Rightarrow> nat" where
  "read_size fs n off len =
     min len (min (length (file_content fs n) - off) (MAX_BLOCK_SIZE - off mod MAX_BLOCK_SIZE))"

lemma length_file_content:
  assumes "unat (i_blocks (inode_at fs n)) \<le> FS_N_BLOCKS"
  shows "length (file_content fs n) =
    min (unat (i_size (inode_at fs n))) (unat (i_blocks (inode_at fs n)) * 1024)"
proof -
  have "length (owned fs n) = unat (i_blocks (inode_at fs n))"
    using assms wf_inode_at [of fs n] by (simp add: owned_def wfInode_def layout_simps)
  moreover have "length (concat (map (\<lambda>b. fblock fs (unat b)) (owned fs n))) = length (owned fs n) * 1024"
    by (subst concat_length [where m = 1024]) (auto simp: layout_simps)
  ultimately show ?thesis by (simp add: file_content_def min.commute)
qed

lemma fsRead_words:
  assumes "0 \<le> off" and "off < 2 ^ 31"
  shows "(word_of_int off :: u32) = of_nat (nat off)" "unat (of_nat (nat off) :: u32) = nat off"
    and "(word_of_int (off sdiv int MAX_BLOCK_SIZE) :: u32) = of_nat (nat off div 1024)"
    and "unat (of_nat (nat off div 1024) :: u32) = nat off div 1024"
    and "(word_of_int (off smod int MAX_BLOCK_SIZE) :: u32) = of_nat (nat off mod 1024)"
    and "unat (of_nat (nat off mod 1024) :: u32) = nat off mod 1024"
proof -
  obtain o' where o: "off = int o'" using assms(1) by (metis nonneg_int_cases)
  have lt: "o' < 2 ^ 31" using assms(2) by (simp add: o)
  have md: "o' mod 1024 < 1024" by simp
  show "(word_of_int off :: u32) = of_nat (nat off)" "unat (of_nat (nat off) :: u32) = nat off"
    "unat (of_nat (nat off div 1024) :: u32) = nat off div 1024"
    "unat (of_nat (nat off mod 1024) :: u32) = nat off mod 1024"
    using lt md by (simp_all add: o unat_le_of_nat)
  have q: "off sdiv int MAX_BLOCK_SIZE = int (o' div 1024)" "off smod int MAX_BLOCK_SIZE = int (o' mod 1024)"
    by (simp_all add: o layout_simps signed_divide_int_def signed_modulo_int_def sgn_if zdiv_int zmod_int)
  show "(word_of_int (off sdiv int MAX_BLOCK_SIZE) :: u32) = of_nat (nat off div 1024)"
    "(word_of_int (off smod int MAX_BLOCK_SIZE) :: u32) = of_nat (nat off mod 1024)"
    unfolding q by (simp_all add: o)
qed

text \<open>The three clamps of the copy size, on machine words.\<close>

lemma copy_size:
  fixes len :: u64 and sz :: u32
  assumes "o' < unat sz" and "o' + unat len < 2 ^ 32"
  defines "cs1 \<equiv> (if of_nat o' + ucast len > sz then sz - of_nat o' else (ucast len :: u32))"
  defines "cs2 \<equiv> (if of_nat (o' mod 1024) + cs1 > (1024 :: u32) then 1024 - of_nat (o' mod 1024) else cs1)"
  shows "unat cs2 = min (unat len) (min (unat sz - o') (1024 - o' mod 1024))"
proof -
  have ol: "o' < 2 ^ 32" using order.strict_trans [OF assms(1) unsigned_less] by simp
  have u: "unat (ucast len :: u32) = unat len" "unat (of_nat o' :: u32) = o'"
    "unat (of_nat (o' mod 1024) :: u32) = o' mod 1024"
    using assms(2) ol
    by (simp_all add: unsigned_ucast_eq unsigned_of_nat take_bit_eq_mod unat_le_of_nat)
  have "unat (of_nat o' + ucast len :: u32) = o' + unat len"
    using u assms(2) by (subst unat_add_no_wrap) auto
  moreover have "unat (sz - of_nat o') = unat sz - o'"
    using unat_sub [of "of_nat o'" sz] u assms(1) by (simp add: word_le_nat_alt)
  ultimately have c1: "unat cs1 = min (unat len) (unat sz - o')"
    using u by (auto simp: cs1_def word_less_nat_alt)
  have md: "o' mod 1024 \<le> o'" "o' mod 1024 < 1024" by simp_all
  have "unat (of_nat (o' mod 1024) + cs1) = o' mod 1024 + unat cs1"
    using u c1 assms(2) md(1) by (subst unat_add_no_wrap) auto
  moreover have "unat (1024 - of_nat (o' mod 1024) :: u32) = 1024 - o' mod 1024"
    using unat_sub [of "of_nat (o' mod 1024)" "1024 :: u32"] u md(2) by (simp add: word_le_nat_alt)
  moreover have "(1024 :: u32) < of_nat (o' mod 1024) + cs1 \<longleftrightarrow> 1024 < o' mod 1024 + unat cs1"
    using word_less_nat_alt [of "1024 :: u32" "of_nat (o' mod 1024) + cs1"] calculation(1) by simp
  ultimately have "unat cs2 = (if 1024 < o' mod 1024 + unat cs1 then 1024 - o' mod 1024 else unat cs1)"
    unfolding cs2_def by simp
  then show ?thesis using c1 by (auto simp: min_def)
qed

lemma block_end: "p + (1024 - p mod 1024) = (p div 1024 + 1) * (1024 :: nat)"
proof -
  define q r where "q = p div 1024" and "r = p mod 1024"
  have "p = q * 1024 + r" "r < 1024" by (simp_all add: q_def r_def)
  then show ?thesis unfolding q_def [symmetric] r_def [symmetric] by simp
qed

lemma min_clip: "p + d \<le> b \<Longrightarrow> min l (min (min a b - p) d) = min l (min (a - p) (d :: nat))"
  by (cases "a \<le> b") (auto simp: min_def)

lemma fsRead_fits:
  assumes "fs_inv fs" and "live fs (unat (d_inode (n_entry node)))"
    and "0 \<le> off" and "off < 2 ^ 31" and "0 < unat len" and "nat off + unat len < 2 ^ 32"
    and "read_size fs (unat (d_inode (n_entry node))) (nat off) (unat len) \<le> length buf"
  defines "n \<equiv> unat (d_inode (n_entry node))"
  defines "k \<equiv> read_size fs n (nat off) (unat len)"
  shows "fsRead fs (Some node) off len (Some buf) =
    Some (int k, Some (bslice (nat off) k (file_content fs n) @ drop k buf))"
proof -
  let ?i = "inode_at fs n" and ?o = "nat off"
  let ?sz = "unat (i_size ?i)" and ?b = "unat (i_blocks ?i)" and ?c = "nat off div 1024" and ?r = "nat off mod 1024"
  have no: "inode_no n" using assms(2) by (simp add: live_def n_def)
  have wf: "?b \<le> FS_N_BLOCKS" "\<And>b. b \<in> set (owned fs n) \<Longrightarrow> data_block (unat b)"
    using fs_invD(4) [OF assms(1)] assms(2) by (auto simp: inode_wf_def n_def)
  have bl: "length (i_block ?i) = 15" using wf_inode_at [of fs n] by (simp add: wfInode_def)
  have ok: "fs_ok fs" using fs_invD(1) [OF assms(1)] by (rule mounted_ok)
  have gi: "getInode fs (d_inode (n_entry node)) = Some (Some ?i)"
    using getInode_eq [OF ok] no by (simp add: n_def)
  have l0: "len \<noteq> 0" using assms(5) by auto
  note w = fsRead_words [OF assms(3,4)]
  note fc = length_file_content [OF wf(1)]
  have split: "?o = ?c * 1024 + ?r" by simp
  show ?thesis
  proof (cases "?sz \<le> ?o \<or> ?b \<le> ?c")
    case True
    then have "length (file_content fs n) \<le> ?o" using fc split by (auto simp: min_def)
    then have "k = 0" by (simp add: k_def read_size_def)
    moreover have "i_size ?i \<le> of_nat ?o \<or> i_blocks ?i \<le> of_nat ?c"
      using True unfolding word_le_nat_alt w(2,4) .
    ultimately show ?thesis
      using gi l0 unfolding fsRead_def Let_def w(1,3,5) by (simp add: bslice_def) blast?
  next
    case False
    let ?bk = "i_block ?i ! ?c"
    have lt: "?o < ?sz" "?c < ?b" "?c < 15" using False wf(1) by (auto simp: layout_simps)
    have c: "\<not> i_size ?i \<le> of_nat ?o" "\<not> i_blocks ?i \<le> of_nat ?c"
      using lt(1,2) unfolding word_le_nat_alt w(2,4) by simp_all
    have own: "?c < length (owned fs n)" "owned fs n ! ?c = ?bk" using lt bl by (simp_all add: owned_def)
    then have db: "data_block (unat ?bk)" using wf(2) by (metis nth_mem)
    have rd: "fsRd fs ?bk [] = Some (0, fblock fs (unat ?bk))"
      using ok data_blockD(5) [OF db] by (simp add: fsd.rd_content)
    note cs = copy_size [OF lt(1) assms(6)]
    have "?o + (1024 - ?r) = (?c + 1) * 1024" by (rule block_end)
    also have "\<dots> \<le> ?b * 1024" using lt(2) by (intro mult_le_mono1) simp
    finally have "?o + (1024 - ?r) \<le> ?b * 1024" .
    then have k: "k = min (unat len) (min (?sz - ?o) (1024 - ?r))"
      unfolding k_def read_size_def fc layout_values(3) by (rule min_clip)
    have kl: "k \<le> unat len" "k \<le> 1024 - ?r" "k \<le> ?sz - ?o"
      unfolding k by (rule min.cobounded1 min.coboundedI2 [OF min.cobounded2] min.coboundedI2 [OF min.cobounded1])+
    have "?r < 1024" by (rule mod_less_divisor) simp
    with kl(2) have rk: "?r + k \<le> 1024" by linarith
    from kl(3) lt(1) have ok': "?o + k \<le> ?sz" by linarith
    have slice: "bslice ?o k (file_content fs n) = bslice ?r k (fblock fs (unat ?bk))"
    proof -
      have "bslice ?o k (file_content fs n) =
          bslice ?o k (concat (map (\<lambda>b. fblock fs (unat b)) (owned fs n)))"
        using ok' by (simp add: file_content_def bslice_def drop_take min_absorb2 add_le_imp_le_diff add.commute)
      also have "\<dots> = bslice ?r k (map (\<lambda>b. fblock fs (unat b)) (owned fs n) ! ?c)"
        by (subst split, rule bslice_concat) (use own rk in \<open>auto simp: layout_simps\<close>)
      finally show ?thesis using own by simp
    qed
    have cp: "memcpy buf (drop ?r (fblock fs (unat ?bk))) k =
        Some (bslice ?r k (fblock fs (unat ?bk)) @ drop k buf)"
      using kl(1,2) assms(7) [folded n_def, folded k_def] by (simp add: memcpy_eq bslice_def layout_values(3))
    have "k < 2 ^ 31" using rk by simp
    then have si: "sint x = int k" if "unat x = k" for x :: u32 using sint_small [of x] that by simp
    define ow cw rw where "ow = (of_nat ?o :: u32)" and "cw = (of_nat ?c :: u32)" and "rw = (of_nat ?r :: u32)"
    have ws: "unat cw = ?c" "unat rw = ?r" "\<not> i_size ?i \<le> ow" "\<not> i_blocks ?i \<le> cw"
      using w(4,6) c by (simp_all only: ow_def cw_def rw_def not_False_eq_True)
    have ix: "idx (i_block ?i) (unat cw) = Some ?bk" using ws(1) lt(3) bl by (simp only: idx_Some)
    define cw2 where "cw2 = (if 1024 < rw + (if i_size ?i < ow + ucast len then i_size ?i - ow else ucast len)
      then 1024 - rw else if i_size ?i < ow + ucast len then i_size ?i - ow else ucast len)"
    have cs': "unat cw2 = k" unfolding cw2_def ow_def rw_def k by (rule cs)
    have "fsRead fs (Some node) off len (Some buf) =
        do { buf \<leftarrow> memcpy buf (drop (unat rw) (fblock fs (unat ?bk))) (unat cw2); Some (sint cw2, Some buf) }"
      unfolding fsRead_def Let_def w(1,3,5)
      unfolding ow_def [symmetric] cw_def [symmetric] rw_def [symmetric] layout_values(3) of_nat_numeral
      by (simp only: gi l0 ws(3,4) ix rd cw2_def option.case prod.case bind.bind_lunit if_False)
    also have "\<dots> = Some (int k, Some (bslice ?o k (file_content fs n) @ drop k buf))"
      by (simp add: ws(2) cs' cp si slice)
    finally show ?thesis .
  qed
qed

lemma fsRead_spec:
  assumes "fs_inv fs" and "live fs (unat (d_inode (n_entry node)))"
    and "0 \<le> off" and "off < 2 ^ 31" and "0 < unat len" and "nat off + unat len < 2 ^ 32"
    and "unat len \<le> length buf"
  defines "n \<equiv> unat (d_inode (n_entry node))"
  defines "k \<equiv> read_size fs n (nat off) (unat len)"
  shows "fsRead fs (Some node) off len (Some buf) =
    Some (int k, Some (bslice (nat off) k (file_content fs n) @ drop k buf))"
  unfolding n_def k_def by (rule fsRead_fits [OF assms(1-6)]) (use assms(7) in \<open>simp add: read_size_def\<close>)

text \<open>C2: Reading a file. On a consistent file system, \<open>fsRead\<close> at a non-negative offset of a live inode
  copies into the caller's buffer the bytes of the file from that offset on, and returns how many:
  as many as were asked for, cut at the end of the file and at the end of the block the offset lies
  in (zero beyond the end of the file). The rest of the buffer is untouched. The request must not
  reach past the 32-bit range, the arithmetic of the clamps.\<close>

theorem fsRead_correct:
  assumes "fs_inv fs" and "live fs (unat (d_inode (n_entry node)))"
    and "0 \<le> off" and "off < 2 ^ 31" and "0 < unat len" and "nat off + unat len < 2 ^ 32"
    and "unat len \<le> length buf"
  defines "n \<equiv> unat (d_inode (n_entry node))"
  defines "k \<equiv> read_size fs n (nat off) (unat len)"
  shows "fsRead fs (Some node) off len (Some buf) =
    Some (int k, Some (bslice (nat off) k (file_content fs n) @ drop k buf))"
  unfolding n_def k_def by (rule fsRead_spec [OF assms(1-7)])

end
