(* ===== verification/Fs_Dir.thy ===== *)
theory Fs_Dir
  imports Fs_File
begin

text \<open>
  Directories (\<open>src/fs/fs.c\<close>): the 8.3 names, the search of a directory block and of a directory, and
  the insertion of an entry. A directory is an inode whose blocks are arrays of 32 entries; an
  entry whose name starts with \<open>DIR_ENTRY_FREE\<close> can be reused and one whose name starts with
  \<open>DIR_ENTRY_NO_MORE\<close> ends the directory.

  \<open>insertEntry\<close> passes a two-byte array where eleven bytes are compared. The bytes that follow it on
  the stack are the argument \<open>stk\<close> of the model.
\<close>

section \<open>Names\<close>

fun upper_string :: "bytes \<Rightarrow> nat \<Rightarrow> bytes option" where
  "upper_string [] len = None"
| "upper_string (b # str) len =
    (if b \<noteq> 0 \<and> len > 0
     then map_option ((#) (word_of_int (toupper (sint b)))) (upper_string str (len - 1))
     else Some (b # str))"

record name_state =
  extender :: bool
  nameLength :: nat
  extenderCurrent :: nat
  regularName :: bytes

text \<open>The loop of \<open>formatName\<close> over the characters of the name; \<^term>\<open>None\<close> is its \<open>FS_ERROR\<close>.\<close>

fun format_loop :: "bytes \<Rightarrow> name_state \<Rightarrow> name_state option" where
  "format_loop [] st = Some st"
| "format_loop (c # cs) st =
    (if c \<noteq> 46 \<and> \<not> isdigit (sint c) \<and> \<not> isalpha (sint c) then None
     else if c = 46 then
       (if extender st then None else format_loop cs (st\<lparr> extender := True \<rparr>))
     else if isdigit (sint c) \<or> isalpha (sint c) then
       (if extender st then
          (if extenderCurrent st \<ge> MAX_ENTRY_NAME_LENGTH then None
           else format_loop cs (st\<lparr> regularName := (regularName st)[extenderCurrent st := c],
                  extenderCurrent := extenderCurrent st + 1 \<rparr>))
        else
          (if nameLength st \<ge> 8 then None
           else format_loop cs (st\<lparr> regularName := (regularName st)[nameLength st := c],
                  nameLength := nameLength st + 1 \<rparr>)))
     else None)"

definition dot_name :: bytes where "dot_name = 46 # replicate 10 32"
definition dotdot_name :: bytes where "dotdot_name = 46 # 46 # replicate 9 32"

definition formatName :: "bytes \<Rightarrow> (int \<times> bytes) option" where
  "formatName name = do {
     let regular = replicate MAX_ENTRY_NAME_LENGTH 32;
     len \<leftarrow> strlen name;
     dd \<leftarrow> strncmp name [46, 46, 0] 2;
     if dd = 0 then do { name \<leftarrow> memcpy name dotdot_name 11; Some (FS_SUCCESS, name) }
     else do {
       d \<leftarrow> strncmp name [46, 0] 1;
       if d = 0 then do { name \<leftarrow> memcpy name dot_name 11; Some (FS_SUCCESS, name) }
       else do {
         name \<leftarrow> upper_string name MAX_ENTRY_NAME_LENGTH;
         case format_loop (take len name)
                \<lparr> extender = False, nameLength = 0, extenderCurrent = 8, regularName = regular \<rparr> of
           None \<Rightarrow> Some (FS_ERROR, name)
         | Some st \<Rightarrow>
             if nameLength st > 8 \<or> nameLength st = 0 \<or> extenderCurrent st > 11 then Some (FS_ERROR, name)
             else do { name \<leftarrow> memcpy name (regularName st) MAX_ENTRY_NAME_LENGTH; Some (FS_SUCCESS, name) } } } }"

fun my_strnlen :: "bytes \<Rightarrow> nat \<Rightarrow> nat option" where
  "my_strnlen src 0 = Some 0"
| "my_strnlen [] (Suc m) = None"
| "my_strnlen (b # src) (Suc m) =
     (if b \<noteq> 0 \<and> b \<noteq> 0x20 then map_option Suc (my_strnlen src m) else Some 0)"

section \<open>Searching\<close>

text \<open>
  \<open>findEntryAtBlock\<close>: the loop counter starts at \<open>begin\<close>, the entry pointer at the start of the
  block. The result is the return value and \<open>*number\<close>.
\<close>

function find_from :: "bytes \<Rightarrow> bytes option \<Rightarrow> nat \<Rightarrow> nat \<Rightarrow> nat \<Rightarrow> (int \<times> nat) option" where
  "find_from block formattedName i e lst =
    (if i < lst then do {
       entry \<leftarrow> struct_at DIR_ENTRY_SIZE decDirEntry block e;
       let n0 = d_name entry ! 0;
       hit \<leftarrow> (case formattedName of
          None \<Rightarrow> Some (n0 \<noteq> DIR_ENTRY_NO_MORE \<and> n0 \<noteq> DIR_ENTRY_FREE \<and> n0 \<noteq> 46)
        | Some fname \<Rightarrow> do {
            r \<leftarrow> memcmp (d_name entry) fname MAX_ENTRY_NAME_LENGTH;
            if r = 0 then Some True
            else do {
              f0 \<leftarrow> idx fname 0;
              Some ((f0 = DIR_ENTRY_FREE \<or> f0 = DIR_ENTRY_NO_MORE) \<and> f0 = n0) } });
       if hit then Some (FS_SUCCESS, i)
       else if n0 = DIR_ENTRY_NO_MORE then Some (-2, i)
       else find_from block formattedName (Suc i) (Suc e) lst }
     else Some (FS_ERROR, i))"
  by pat_completeness auto
termination
  by (relation "measure (\<lambda>(block, nm, i, e, lst). lst - i)") auto

declare find_from.simps [simp del]

definition findEntryAtBlock :: "bytes \<Rightarrow> bytes option \<Rightarrow> nat \<Rightarrow> nat \<Rightarrow> (int \<times> nat) option" where
  "findEntryAtBlock block formattedName begin lst = find_from block formattedName begin 0 lst"

function lookup_from :: "Filesystem \<Rightarrow> Inode \<Rightarrow> bytes option \<Rightarrow> bytes \<Rightarrow> FsNode \<Rightarrow> nat \<Rightarrow> (int \<times> FsNode) option" where
  "lookup_from fs inode name block ret i =
    (if i < unat (i_blocks inode) then do {
       b \<leftarrow> idx (i_block inode) i;
       (_, block) \<leftarrow> fsRd fs b block;
       let ret = ret\<lparr> n_location := (n_location ret)\<lparr> l_block := b \<rparr> \<rparr>;
       (result, number) \<leftarrow> findEntryAtBlock block name 0 (MAX_BLOCK_SIZE div DIR_ENTRY_SIZE);
       if result = -2 then Some (FS_ERROR, ret)
       else if result = -1 then lookup_from fs inode name block ret (Suc i)
       else do {
         entry \<leftarrow> struct_at DIR_ENTRY_SIZE decDirEntry block number;
         Some (FS_SUCCESS, \<lparr> n_entry = entry, n_location =
           \<lparr> l_group = GET_INODE_GROUP (d_inode entry), l_block = b, l_offset = of_nat number \<rparr> \<rparr>) } }
     else Some (FS_ERROR, ret))"
  by pat_completeness auto
termination
  by (relation "measure (\<lambda>(fs, inode, nm, block, ret, i). unat (i_blocks inode) - i)") auto

declare lookup_from.simps [simp del]

definition lookupEntry :: "Filesystem \<Rightarrow> u32 \<Rightarrow> bytes option \<Rightarrow> FsNode \<Rightarrow> (int \<times> FsNode) option" where
  "lookupEntry fs inode name ret = do {
     got \<leftarrow> getInode fs inode;
     inodeBuffer \<leftarrow> got;
     lookup_from fs inodeBuffer name [] ret 0 }"

definition fsLookup :: "Filesystem \<Rightarrow> FsNode \<Rightarrow> bytes \<Rightarrow> FsNode \<Rightarrow> (int \<times> FsNode) option" where
  "fsLookup fs parent entryName ret = do {
     copied \<leftarrow> strncpy (Some (replicate MAX_NAME_LENGTH 0)) (Some entryName) MAX_ENTRY_NAME_LENGTH;
     formattedName \<leftarrow> copied;
     (_, formattedName) \<leftarrow> formatName formattedName;
     lookupEntry fs (d_inode (n_entry parent)) (Some formattedName) ret }"

section \<open>Inserting\<close>

definition setEntry :: "Filesystem \<Rightarrow> DirEntryLocation \<Rightarrow> DirEntry \<Rightarrow> (int \<times> Filesystem) option" where
  "setEntry fs location value = do {
     (_, block) \<leftarrow> fsRd fs (l_block location) [];
     block \<leftarrow> struct_put DIR_ENTRY_SIZE encDirEntry block (unat (l_offset location)) value;
     fsWr fs (l_block location) block }"

text \<open>
  The directory grows by one zeroed block when its last slot has been filled; the result is the
  number of the block, 0 when none is free.
\<close>

definition extend_dir :: "Filesystem \<Rightarrow> FsNode \<Rightarrow> (u32 \<times> Filesystem) option" where
  "extend_dir fs parent = do {
     got \<leftarrow> getInode fs (d_inode (n_entry parent));
     inodeBuffer \<leftarrow> got;
     (free_blockNum, fs) \<leftarrow> getFreeBlockNumber fs;
     if free_blockNum = 0 then Some (0, fs)
     else do {
       bl \<leftarrow> upd (i_block inodeBuffer) (unat (i_blocks inodeBuffer)) free_blockNum;
       let inodeBuffer = inodeBuffer\<lparr> i_block := bl, i_blocks := i_blocks inodeBuffer + 1 \<rparr>;
       (_, fs) \<leftarrow> insertInodeTable fs inodeBuffer (sint (d_inode (n_entry parent)));
       (_, fs) \<leftarrow> setSbFreeBlockCount fs (-1);
       (_, fs) \<leftarrow> setGdFreeBlockCount fs free_blockNum (-1);
       (_, fs) \<leftarrow> fsWr fs free_blockNum (replicate MAX_BLOCK_SIZE 0);
       Some (free_blockNum, fs) } }"

definition insertEntry :: "bytes \<Rightarrow> Filesystem \<Rightarrow> FsNode \<Rightarrow> FsNode \<Rightarrow> (int \<times> FsNode \<times> Filesystem) option" where
  "insertEntry stk fs parent newEntry = do {
     (r, entry) \<leftarrow> lookupEntry fs (d_inode (n_entry parent)) (Some ([DIR_ENTRY_FREE, 0] @ stk)) zero_node;
     if r = FS_SUCCESS then do {
       (_, fs) \<leftarrow> setEntry fs (n_location entry) (n_entry newEntry);
       Some (FS_SUCCESS, newEntry\<lparr> n_location := n_location entry \<rparr>, fs) }
     else do {
       (r, entry) \<leftarrow> lookupEntry fs (d_inode (n_entry parent)) (Some ([DIR_ENTRY_NO_MORE, 0] @ stk)) entry;
       if r = FS_ERROR then Some (FS_ERROR, newEntry, fs)
       else do {
         (_, fs) \<leftarrow> setEntry fs (n_location entry) (n_entry newEntry);
         let newEntry = newEntry\<lparr> n_location := n_location entry \<rparr>;
         let loc = (n_location entry)\<lparr> l_offset := l_offset (n_location entry) + 1 \<rparr>;
         if l_offset loc = of_nat (MAX_BLOCK_SIZE div DIR_ENTRY_SIZE) then do {
           (free_blockNum, fs) \<leftarrow> extend_dir fs parent;
           if free_blockNum = 0 then Some (FS_ERROR, newEntry, fs)
           else do {
             (_, fs) \<leftarrow> setEntry fs (loc\<lparr> l_block := free_blockNum, l_offset := 0 \<rparr>) (n_entry entry);
             Some (FS_SUCCESS, newEntry, fs) } }
         else do {
           (_, fs) \<leftarrow> setEntry fs loc (n_entry entry);
           Some (FS_SUCCESS, newEntry, fs) } } } }"

section \<open>Listing\<close>

function read_dir_from :: "bytes \<Rightarrow> DirEntryLocation \<Rightarrow> nat \<Rightarrow> FsNode list option" where
  "read_dir_from block loc i =
    (if i < MAX_BLOCK_SIZE div DIR_ENTRY_SIZE then do {
       entry \<leftarrow> struct_at DIR_ENTRY_SIZE decDirEntry block i;
       let n0 = d_name entry ! 0;
       if n0 = DIR_ENTRY_NO_MORE then Some []
       else do {
         rest \<leftarrow> read_dir_from block loc (Suc i);
         Some (if n0 \<noteq> 46 \<and> n0 \<noteq> DIR_ENTRY_FREE
               then \<lparr> n_entry = entry, n_location = loc\<lparr> l_offset := of_nat i \<rparr> \<rparr> # rest else rest) } }
     else Some [])"
  by pat_completeness auto
termination
  by (relation "measure (\<lambda>(block, loc, i). 32 - i)") (auto simp: layout_simps)

declare read_dir_from.simps [simp del]

definition get_data_block_at_inode :: "Inode \<Rightarrow> nat \<Rightarrow> u32 option" where
  "get_data_block_at_inode inode number = idx (i_block inode) number"

text \<open>
  The nodes handed to the \<open>adder\<close> callback, in order. The group and block of their locations are
  those of the uninitialised local node: the argument \<open>loc\<close>.
\<close>

definition read_dir_from_block :: "bytes \<Rightarrow> DirEntryLocation \<Rightarrow> FsNode list option" where
  "read_dir_from_block block loc = read_dir_from block loc 0"

function read_blocks :: "Filesystem \<Rightarrow> Inode \<Rightarrow> DirEntryLocation \<Rightarrow> bytes \<Rightarrow> nat \<Rightarrow> FsNode list option" where
  "read_blocks fs inode loc block i =
    (if i < unat (i_blocks inode) then do {
       blockNum \<leftarrow> get_data_block_at_inode inode i;
       (_, block) \<leftarrow> fsRd fs blockNum block;
       nodes \<leftarrow> read_dir_from_block block loc;
       rest \<leftarrow> read_blocks fs inode loc block (Suc i);
       Some (nodes @ rest) }
     else Some [])"
  by pat_completeness auto
termination
  by (relation "measure (\<lambda>(fs, inode, loc, block, i). unat (i_blocks inode) - i)") auto

declare read_blocks.simps [simp del]

definition fsReadDir :: "bool \<Rightarrow> DirEntryLocation \<Rightarrow> Filesystem \<Rightarrow> FsNode \<Rightarrow> (int \<times> FsNode list) option" where
  "fsReadDir kmalloc_ok loc fs dir =
    (if \<not> kmalloc_ok then Some (FS_ERROR, [])
     else do {
       got \<leftarrow> getInode fs (d_inode (n_entry dir));
       case got of
         None \<Rightarrow> Some (FS_ERROR, [])
       | Some inode \<Rightarrow> do {
           nodes \<leftarrow> read_blocks fs inode loc (replicate MAX_BLOCK_SIZE 0) 0;
           Some (FS_SUCCESS, nodes) } })"

end
