(* ===== verification/Fs_Names.thy ===== *)
theory Fs_Names
  imports Fs_Dir
begin

text \<open>
  What \<open>formatName\<close> computes: the 8.3 form of a name, against a direct description of which names are
  valid and what their form is.
\<close>

section \<open>Characters\<close>

definition alnum :: "u8 \<Rightarrow> bool" where
  "alnum c \<longleftrightarrow> isdigit (sint c) \<or> isalpha (sint c)"

definition upper :: "u8 \<Rightarrow> u8" where
  "upper c = word_of_int (toupper (sint c))"

lemma sint_small_byte: "0 \<le> v \<Longrightarrow> v < 128 \<Longrightarrow> sint (word_of_int v :: u8) = v"
  by (simp add: signed_of_int signed_take_bit_int_eq_self)

lemma upper_cases:
  "(97 \<le> sint c \<and> sint c \<le> 122 \<and> sint (upper c) = sint c - 32) \<or> (\<not> (97 \<le> sint c \<and> sint c \<le> 122) \<and> upper c = c)"
proof (cases "97 \<le> sint c \<and> sint c \<le> 122")
  case True
  then have "sint (upper c) = sint c - 32"
    unfolding upper_def toupper_def using sint_small_byte [of "sint c - 32"] by simp
  with True show ?thesis by simp
next
  case False
  then show ?thesis by (auto simp: upper_def toupper_def)
qed

lemma upper_facts [simp]:
  "alnum (upper c) = alnum c" "upper c = 46 \<longleftrightarrow> c = 46" "upper c = 0 \<longleftrightarrow> c = 0" "upper (upper c) = upper c"
proof -
  have s: "sint (46 :: u8) = 46" "sint (0 :: u8) = 0" by simp_all
  note u = upper_cases [of c]
  show "alnum (upper c) = alnum c" using u by (auto simp: alnum_def isdigit_def isalpha_def)
  show "upper c = 46 \<longleftrightarrow> c = 46" using u s by auto
  show "upper c = 0 \<longleftrightarrow> c = 0" using u s by auto
  show "upper (upper c) = upper c" using u upper_cases [of "upper c"] by auto
qed

lemma alnum_special [simp]: "\<not> alnum 46" "\<not> alnum 0" "\<not> alnum 32"
  by (simp_all add: alnum_def isdigit_def isalpha_def)

lemma upper_string_eq:
  "terminated str \<Longrightarrow> upper_string str n =
    Some (map upper (take n (cstr str)) @ drop (min n (length (cstr str))) str)"
proof (induction str arbitrary: n)
  case (Cons b str)
  then show ?case by (cases n) (auto simp: upper_def)
qed simp

section \<open>The loop\<close>

definition dot_free :: "bytes \<Rightarrow> bytes" where
  "dot_free cs = takeWhile (\<lambda>c. c \<noteq> 46) cs"

definition after_dot :: "bytes \<Rightarrow> bytes" where
  "after_dot cs = tl (dropWhile (\<lambda>c. c \<noteq> 46) cs)"

lemma overwrite_Cons:
  "p < length xs \<Longrightarrow> overwrite (xs[p := c]) (Suc p) cs = overwrite xs p (c # cs)"
  by (simp add: overwrite_def take_Suc_conv_app_nth)

lemma format_ext:
  assumes "extender st" "length (regularName st) = 11" "extenderCurrent st \<le> 11"
  shows "format_loop cs st =
    (if list_all alnum cs \<and> extenderCurrent st + length cs \<le> 11
     then Some (st\<lparr> regularName := overwrite (regularName st) (extenderCurrent st) cs,
       extenderCurrent := extenderCurrent st + length cs \<rparr>) else None)"
  using assms
proof (induction cs arbitrary: st)
  case Nil
  then show ?case by (simp add: overwrite_Nil)
next
  case (Cons c cs)
  let ?st = "st\<lparr> regularName := (regularName st)[extenderCurrent st := c], extenderCurrent := extenderCurrent st + 1 \<rparr>"
  have ow: "extenderCurrent st < 11 \<Longrightarrow> overwrite ((regularName st)[extenderCurrent st := c]) (Suc (extenderCurrent st)) cs =
      overwrite (regularName st) (extenderCurrent st) (c # cs)"
    using Cons.prems by (intro overwrite_Cons) simp
  show ?case
  proof (cases "alnum c \<and> extenderCurrent st < 11")
    case True
    then have "c \<noteq> 46" by auto
    then have "format_loop (c # cs) st = format_loop cs ?st"
      using True Cons.prems by (auto simp: alnum_def layout_values)
    then show ?thesis using True Cons.IH [of ?st] Cons.prems ow by simp
  next
    case False
    then show ?thesis using Cons.prems by (auto simp: alnum_def layout_values)
  qed
qed

lemma format_base:
  assumes "\<not> extender st" "length (regularName st) = 11" "nameLength st \<le> 8"
  shows "format_loop cs st =
    (if list_all alnum (dot_free cs) \<and> nameLength st + length (dot_free cs) \<le> 8
     then let st' = st\<lparr> regularName := overwrite (regularName st) (nameLength st) (dot_free cs),
            nameLength := nameLength st + length (dot_free cs) \<rparr>
       in if 46 \<in> set cs then format_loop (after_dot cs) (st'\<lparr> extender := True \<rparr>) else Some st'
     else None)"
  using assms
proof (induction cs arbitrary: st)
  case Nil
  then show ?case by (simp add: dot_free_def overwrite_Nil)
next
  case (Cons c cs)
  let ?st = "st\<lparr> regularName := (regularName st)[nameLength st := c], nameLength := nameLength st + 1 \<rparr>"
  have ow: "nameLength st < 11 \<Longrightarrow> overwrite ((regularName st)[nameLength st := c]) (Suc (nameLength st)) bs =
      overwrite (regularName st) (nameLength st) (c # bs)" for bs
    using Cons.prems by (intro overwrite_Cons) simp
  consider "c = 46" | "c \<noteq> 46" "alnum c" "nameLength st < 8" | "c \<noteq> 46" "\<not> (alnum c \<and> nameLength st < 8)" by blast
  then show ?case
  proof cases
    case 1
    then show ?thesis using Cons.prems by (simp add: dot_free_def after_dot_def overwrite_Nil)
  next
    case 2
    then have "format_loop (c # cs) st = format_loop cs ?st"
      using Cons.prems by (auto simp: alnum_def)
    then show ?thesis using 2 Cons.IH [of ?st] Cons.prems ow
      by (simp add: dot_free_def after_dot_def Let_def)
  next
    case 3
    then show ?thesis using Cons.prems by (auto simp: alnum_def dot_free_def)
  qed
qed

section \<open>Valid names and their form\<close>

definition valid83 :: "bytes \<Rightarrow> bool" where
  "valid83 s \<longleftrightarrow> list_all alnum (dot_free s) \<and> list_all alnum (after_dot s) \<and>
     1 \<le> length (dot_free s) \<and> length (dot_free s) \<le> 8 \<and> length (after_dot s) \<le> 3"

definition pad :: "nat \<Rightarrow> bytes \<Rightarrow> bytes" where
  "pad n s = s @ replicate (n - length s) 32"

definition form83 :: "bytes \<Rightarrow> bytes" where
  "form83 s = pad 8 (dot_free s) @ pad 3 (after_dot s)"

text \<open>The name after \<open>upper_string\<close>, which changes at most eleven characters.\<close>

definition up11 :: "bytes \<Rightarrow> bytes" where
  "up11 s = map upper (take 11 s) @ drop 11 s"

lemma after_dot_empty: "46 \<notin> set cs \<Longrightarrow> after_dot cs = [] \<and> dot_free cs = cs"
  by (induction cs) (auto simp: after_dot_def dot_free_def)

lemma length_form83: "valid83 s \<Longrightarrow> length (form83 s) = 11"
  by (simp add: valid83_def form83_def pad_def)

definition start_state :: name_state where
  "start_state = \<lparr> extender = False, nameLength = 0, extenderCurrent = 8, regularName = replicate 11 32 \<rparr>"

lemma start_fields [simp]:
  "\<not> extender start_state" "nameLength start_state = 0" "extenderCurrent start_state = 8"
  "regularName start_state = replicate 11 32"
  by (simp_all add: start_state_def)

lemma padded:
  "length b \<le> 8 \<Longrightarrow> length e \<le> 3 \<Longrightarrow> overwrite (overwrite (replicate 11 32) 0 b) 8 e = pad 8 b @ pad 3 e"
  by (auto simp: overwrite_def pad_def min_def)

lemma format_loop_eq:
  "case format_loop cs start_state of
     None \<Rightarrow> \<not> valid83 cs
   | Some st \<Rightarrow> (valid83 cs \<longleftrightarrow> nameLength st \<noteq> 0) \<and> nameLength st \<le> 8 \<and> extenderCurrent st \<le> 11 \<and>
       (valid83 cs \<longrightarrow> regularName st = form83 cs)"
proof (cases "list_all alnum (dot_free cs) \<and> length (dot_free cs) \<le> 8")
  case False
  then show ?thesis by (auto simp: format_base [of start_state] valid83_def)
next
  case True
  let ?st = "start_state\<lparr> regularName := overwrite (replicate 11 32) 0 (dot_free cs), nameLength := length (dot_free cs) \<rparr>"
  have len: "length (overwrite (replicate 11 32) 0 (dot_free cs)) = 11"
    using True by (simp add: buf_simps)
  show ?thesis
  proof (cases "46 \<in> set cs")
    case dot: True
    then have "format_loop cs start_state = format_loop (after_dot cs) (?st\<lparr> extender := True \<rparr>)"
      using True by (simp add: format_base [of start_state])
    also have "\<dots> = (if list_all alnum (after_dot cs) \<and> length (after_dot cs) \<le> 3
       then Some (?st\<lparr> extender := True, regularName := pad 8 (dot_free cs) @ pad 3 (after_dot cs),
         extenderCurrent := 8 + length (after_dot cs) \<rparr>) else None)"
      using len True by (subst format_ext) (auto simp: padded)
    finally show ?thesis using True by (auto simp: valid83_def form83_def Suc_le_eq)
  next
    case False
    then have "format_loop cs start_state = Some ?st"
      using True by (simp add: format_base [of start_state])
    moreover have "overwrite (replicate 11 32) 0 (dot_free cs) = form83 cs"
      using padded [of "dot_free cs" "[]"] True after_dot_empty [OF False] len
      by (simp add: form83_def overwrite_Nil)
    ultimately show ?thesis
      using True after_dot_empty [OF False] by (auto simp: valid83_def Suc_le_eq)
  qed
qed

definition same_class :: "u8 \<Rightarrow> u8 \<Rightarrow> bool" where
  "same_class c d \<longleftrightarrow> (c = 46 \<longleftrightarrow> d = 46) \<and> alnum c = alnum d"

lemma same_class_split:
  "list_all2 same_class s u \<Longrightarrow> list_all2 same_class (dot_free s) (dot_free u) \<and>
     list_all2 same_class (after_dot s) (after_dot u)"
  by (induction rule: list_all2_induct) (auto simp: dot_free_def after_dot_def same_class_def)

lemma same_class_alnum: "list_all2 same_class s u \<Longrightarrow> list_all alnum s = list_all alnum u"
  by (induction rule: list_all2_induct) (auto simp: same_class_def)

lemma valid83_up11 [simp]: "valid83 (up11 s) = valid83 s"
proof -
  have "list_all2 same_class s (up11 s)"
    unfolding up11_def
    by (subst append_take_drop_id [of 11 s, symmetric], rule list_all2_appendI)
      (auto simp: list_all2_conv_all_nth same_class_def)
  note sp = same_class_split [OF this]
  then show ?thesis
    using same_class_alnum [OF conjunct1 [OF sp]] same_class_alnum [OF conjunct2 [OF sp]]
      list_all2_lengthD [OF conjunct1 [OF sp]] list_all2_lengthD [OF conjunct2 [OF sp]]
    by (simp add: valid83_def)
qed

section \<open>The whole function\<close>

lemma formatName_eq:
  assumes "terminated name" "11 \<le> length name" "take 1 (cstr name) \<noteq> [46]"
  shows "formatName name = Some (if valid83 (cstr name)
    then (FS_SUCCESS, form83 (up11 (cstr name)) @ drop 11 (up11 (cstr name) @ drop (length (cstr name)) name))
    else (FS_ERROR, up11 (cstr name) @ drop (length (cstr name)) name))"
proof -
  let ?s = "cstr name" and ?n = "up11 (cstr name) @ drop (length (cstr name)) name"
  obtain c rest where name: "name = c # rest" "c \<noteq> 46"
    using assms(1,3) by (cases name) (auto split: if_splits)
  have cmp: "strncmp name [46, 46, 0] 2 = Some (if c > 46 then 1 else -1)"
    "strncmp name [46, 0] 1 = Some (if c > 46 then 1 else -1)"
    using name by (simp_all add: numeral_2_eq_2)
  have len: "strlen name = Some (length ?s)" using assms(1) by (simp add: strlen_eq)
  have up: "upper_string name MAX_ENTRY_NAME_LENGTH = Some ?n"
  proof -
    obtain q where q: "name = ?s @ 0 # q" using terminated_decomp [OF assms(1)] by blast
    define s where "s = ?s"
    have "drop (min 11 (length s)) (s @ 0 # q) = drop 11 s @ drop (length s) (s @ 0 # q)"
      by (cases "11 \<le> length s") (simp_all add: min_def)
    then have "drop (min 11 (length ?s)) name = drop 11 ?s @ drop (length ?s) name"
      unfolding s_def using q by metis
    then show ?thesis using upper_string_eq [OF assms(1), of 11] by (simp add: layout_values up11_def)
  qed
  have nlen: "length ?n = length name" "length (up11 ?s) = length ?s" "take (length ?s) ?n = up11 ?s"
    using assms(1) length_cstr_less [OF assms(1)] by (auto simp: up11_def)
  have st: "\<lparr> extender = False, nameLength = 0, extenderCurrent = 8, regularName = replicate MAX_ENTRY_NAME_LENGTH 32 \<rparr> = start_state"
    by (simp add: start_state_def layout_values)
  have run: "formatName name = (case format_loop (up11 ?s) start_state of
       None \<Rightarrow> Some (FS_ERROR, ?n)
     | Some st \<Rightarrow> if nameLength st > 8 \<or> nameLength st = 0 \<or> extenderCurrent st > 11 then Some (FS_ERROR, ?n)
         else do { name \<leftarrow> memcpy ?n (regularName st) MAX_ENTRY_NAME_LENGTH; Some (FS_SUCCESS, name) })"
    using cmp len up nlen unfolding formatName_def Let_def st by (auto simp del: append_assoc)
  show ?thesis
    using format_loop_eq [of "up11 ?s"] run assms(2) nlen length_form83 [of "up11 ?s"]
    by (auto simp: memcpy_eq layout_values split: option.splits)
qed

section \<open>Names that are searched for\<close>

lemma up11_short: "length s \<le> 11 \<Longrightarrow> up11 s = map upper s"
  by (simp add: up11_def)

lemma upper_space [simp]: "upper 32 = 32"
  by (simp add: upper_def toupper_def)

text \<open>The key under which a name of at most eleven characters is stored and found.\<close>

definition key :: "bytes \<Rightarrow> bytes" where
  "key s = form83 (map upper s)"

lemma valid83_upper [simp]: "valid83 (map upper s) = valid83 s"
proof -
  have "list_all2 same_class s (map upper s)" by (simp add: list_all2_conv_all_nth same_class_def)
  note sp = same_class_split [OF this]
  then show ?thesis
    using same_class_alnum [OF conjunct1 [OF sp]] same_class_alnum [OF conjunct2 [OF sp]]
      list_all2_lengthD [OF conjunct1 [OF sp]] list_all2_lengthD [OF conjunct2 [OF sp]]
    by (simp add: valid83_def)
qed

lemma split_upper: "dot_free (map upper s) = map upper (dot_free s)" "after_dot (map upper s) = map upper (after_dot s)"
  by (induction s) (auto simp: dot_free_def after_dot_def)

lemma form83_chars:
  assumes "valid83 s"
  shows "\<And>c. c \<in> set (form83 s) \<Longrightarrow> alnum c \<or> c = 32" and "alnum (form83 s ! 0)"
proof -
  show "alnum c \<or> c = 32" if "c \<in> set (form83 s)" for c
    using assms that by (auto simp: form83_def pad_def valid83_def list_all_iff)
  have "dot_free s \<noteq> []" using assms by (auto simp: valid83_def)
  then show "alnum (form83 s ! 0)"
    using assms by (cases "dot_free s") (auto simp: form83_def pad_def valid83_def)
qed

lemma key_facts:
  assumes "valid83 s"
  shows "length (key s) = 11" "0 \<notin> set (key s)" "46 \<notin> set (key s)" "map upper (key s) = key s"
    "key s ! 0 \<noteq> DIR_ENTRY_FREE" "key s ! 0 \<noteq> DIR_ENTRY_NO_MORE"
proof -
  have v: "valid83 (map upper s)" using assms by simp
  show "length (key s) = 11" using length_form83 [OF v] by (simp add: key_def)
  show "0 \<notin> set (key s)" "46 \<notin> set (key s)" using form83_chars(1) [OF v] by (force simp: key_def)+
  show "map upper (key s) = key s" by (simp add: key_def form83_def pad_def split_upper)
  have "\<not> alnum 1" by (simp add: alnum_def isdigit_def isalpha_def)
  then show "key s ! 0 \<noteq> DIR_ENTRY_FREE" "key s ! 0 \<noteq> DIR_ENTRY_NO_MORE"
    using form83_chars(2) [OF v] by (auto simp: key_def DIR_ENTRY_FREE_def DIR_ENTRY_NO_MORE_def)
qed

lemma key_not_a_name: "valid83 s \<Longrightarrow> \<not> valid83 (key s)"
  using after_dot_empty [of "key s"] key_facts [of s] by (simp add: valid83_def)

lemma cstr_prefix: "0 \<notin> set f \<Longrightarrow> cstr (f @ z) = f @ cstr z"
  by (induction f) auto

lemma fsLookup_valid:
  assumes "terminated nm" "valid83 (take 11 (cstr nm))"
  shows "\<exists>x. fsLookup fs parent nm ret =
    lookupEntry fs (d_inode (n_entry parent)) (Some (key (take 11 (cstr nm)) @ x)) ret"
proof -
  define s where "s = take 11 (cstr nm)"
  have len: "length s \<le> 11" "11 - length s = 11 - length (cstr nm)" and nz: "0 \<notin> set s"
    using cstr_nonzero [of nm] by (auto simp: s_def dest: in_set_takeD)
  let ?b = "s @ replicate (256 - length s) 0"
  have "replicate (11 - length s) 0 @ replicate 245 (0 :: u8) = replicate (256 - length s) 0"
    using len by (simp add: replicate_add [symmetric])
  then have copy: "strncpy (Some (replicate MAX_NAME_LENGTH 0)) (Some nm) MAX_ENTRY_NAME_LENGTH = Some (Some ?b)"
    using strncpy_eq [of 11 "replicate 256 0" nm] assms(1) len by (simp add: layout_values s_def)
  have c: "cstr ?b = s" using len cstr_prefix [OF nz] by (cases "256 - length s") auto
  have t: "terminated ?b" using len by (auto simp: terminated_def)
  have no: "take 1 s \<noteq> [46]"
    using assms(2) by (cases s) (auto simp: s_def [symmetric] valid83_def dot_free_def)
  have "formatName ?b = Some (FS_SUCCESS, key s @ drop 11 (up11 s @ drop (length s) ?b))"
    using formatName_eq [of ?b] t c no assms(2) len by (simp add: up11_short key_def s_def [symmetric])
  then show ?thesis using copy by (auto simp: fsLookup_def s_def [symmetric])
qed

lemma fsLookup_key:
  assumes "valid83 s"
  shows "\<exists>x. fsLookup fs parent (key s @ z) ret = lookupEntry fs (d_inode (n_entry parent)) (Some (key s @ x)) ret"
proof -
  note k = key_facts [OF assms]
  let ?b = "key s @ replicate 245 0"
  have copy: "strncpy (Some (replicate MAX_NAME_LENGTH 0)) (Some (key s @ z)) MAX_ENTRY_NAME_LENGTH = Some (Some ?b)"
    using strncpy_eq [of 11 "replicate 256 0" "key s @ z"] k by (simp add: layout_values cstr_prefix)
  have c: "cstr ?b = key s" using k by (simp add: cstr_prefix) (simp add: cstr_def)
  have t: "terminated ?b" by (simp add: terminated_def)
  have no: "take 1 (key s) \<noteq> [46]" using k(3) by (cases "key s") auto
  have "formatName ?b = Some (FS_ERROR, key s @ replicate 245 0)"
    using formatName_eq [of ?b] t c no k key_not_a_name [OF assms] by (simp add: up11_short)
  then show ?thesis using copy by (auto simp: fsLookup_def)
qed

lemma dot_parts: "46 \<notin> set b \<Longrightarrow> dot_free (b @ 46 # x) = b \<and> after_dot (b @ 46 # x) = x"
  by (induction b) (auto simp: dot_free_def after_dot_def)

lemma full_name_split:
  assumes "valid83 s" "length s = 12"
  obtains b e where "s = b @ 46 # e" "46 \<notin> set b" "length b = 8" "length e = 3" "list_all alnum b" "list_all alnum e"
proof -
  have "46 \<in> set s"
  proof (rule ccontr)
    assume "46 \<notin> set s"
    then show False using assms after_dot_empty [of s] by (simp add: valid83_def)
  qed
  then obtain b e where s: "s = b @ 46 # e" "46 \<notin> set b" by (metis split_list_first)
  then show ?thesis using that [of b e] assms dot_parts [of b e] by (simp add: valid83_def)
qed

section \<open>Properties\<close>

text \<open>What lies behind the first eleven bytes is left alone.\<close>

lemma behind_name: "drop 11 (up11 (cstr name) @ drop (length (cstr name)) name) = drop 11 name"
proof -
  have n: "name = cstr name @ drop (length (cstr name)) name" by (simp add: cstr_def dropWhile_eq_drop [symmetric])
  have "drop 11 (up11 (cstr name)) = drop 11 (cstr name)" by (cases "11 \<le> length (cstr name)") (simp_all add: up11_def)
  moreover have "length (up11 (cstr name)) = length (cstr name)" by (simp add: up11_def)
  ultimately have "drop 11 (up11 (cstr name) @ drop (length (cstr name)) name) = drop 11 (cstr name @ drop (length (cstr name)) name)"
    by (simp only: drop_append)
  then show ?thesis using n by metis
qed

lemma formatName_dots:
  assumes "terminated name" "11 \<le> length name" "take 1 (cstr name) = [46]"
  shows "formatName name = Some (FS_SUCCESS, (if take 2 (cstr name) = [46, 46] then dotdot_name else dot_name) @ drop 11 name)"
proof -
  obtain d rest where name: "name = 46 # d # rest"
    using assms by (cases name; cases "tl name") (auto simp: terminated_def split: if_splits)
  have len: "strlen name = Some (length (cstr name))" using assms(1) by (simp add: strlen_eq)
  have cp: "memcpy name dotdot_name 11 = Some (dotdot_name @ drop 11 name)" "memcpy name dot_name 11 = Some (dot_name @ drop 11 name)"
    using assms(2) by (simp_all add: memcpy_eq dotdot_name_def dot_name_def)
  have z: "(46 :: u8) \<noteq> 0" by simp
  have two: "2 = Suc (Suc 0)" by simp
  have cmp: "strncmp name [46, 46, 0] 2 = Some (if d = 46 then 0 else if d > 46 then 1 else -1)" "strncmp name [46, 0] 1 = Some 0"
    unfolding name two using z by simp_all
  have dots: "take 2 (cstr name) = [46, 46] \<longleftrightarrow> d = 46" unfolding two name using z by simp
  show ?thesis unfolding formatName_def Let_def using len cmp cp dots by simp
qed

text \<open>C32: \<open>formatName\<close> on every terminated name in a buffer of at least eleven bytes. A name that begins with two
  dots becomes the entry name \<open>..\<close>, any other that begins with a dot becomes \<open>.\<close>, whatever follows. Of the others
  exactly the 8.3 names (one to eight letters or digits, then optionally a dot and at most three more) succeed: the first eleven
  bytes of the buffer become the name padded with blanks to eight and three characters, its first eleven characters
  capitalised; a twelfth, which a name of full length has, is stored as typed. Any other name is an error and has only been
  capitalised up to its eleventh character.\<close>

theorem formatName_correct:
  assumes "terminated name" "11 \<le> length name"
  shows "formatName name = Some (
    if take 2 (cstr name) = [46, 46] then (FS_SUCCESS, dotdot_name @ drop 11 name)
    else if take 1 (cstr name) = [46] then (FS_SUCCESS, dot_name @ drop 11 name)
    else if valid83 (cstr name) then (FS_SUCCESS, form83 (up11 (cstr name)) @ drop 11 name)
    else (FS_ERROR, up11 (cstr name) @ drop (length (cstr name)) name))"
proof (cases "take 1 (cstr name) = [46]")
  case True
  then show ?thesis using formatName_dots [OF assms] by simp
next
  case False
  then have "take 2 (cstr name) \<noteq> [46, 46]" by (cases "cstr name") auto
  then show ?thesis using formatName_eq [OF assms False] False by (simp add: behind_name del: drop_append)
qed

theorem formatName_correct_witness:
  "formatName [102, 111, 111, 46, 99, 0, 0, 0, 0, 0, 0, 0] =
    Some (FS_SUCCESS, [70, 79, 79, 32, 32, 32, 32, 32, 67, 32, 32, 0])"
proof -
  let ?n = "[102, 111, 111, 46, 99, 0, 0, 0, 0, 0, 0, 0] :: bytes"
  have n: "terminated ?n" "cstr ?n = [102, 111, 111, 46, 99]" by simp_all
  have r: "replicate 5 x = [x, x, x, x, x]" "replicate 2 x = [x, x]" for x :: u8
    by (simp_all add: numeral_eq_Suc)
  show ?thesis
    using formatName_correct [OF n(1)] n(2)
    by (simp add: valid83_def dot_free_def after_dot_def form83_def pad_def up11_def alnum_def isdigit_def isalpha_def
        upper_def toupper_def r)
qed

text \<open>C33: A file with a name of the full length, eight characters, a dot and three more, cannot be
  looked up by that name: \<open>fsLookup\<close> copies only eleven characters, so that the key it searches for
  differs from the one that \<open>formatName\<close> makes of the name and \<open>fsCreate\<close> stores.\<close>

theorem full_length_name_lost:
  assumes "terminated nm" "valid83 (cstr nm)" "length (cstr nm) = 12"
  shows "\<exists>stored x searched y. formatName nm = Some (FS_SUCCESS, stored @ x) \<and>
    fsLookup fs parent nm ret = lookupEntry fs (d_inode (n_entry parent)) (Some (searched @ y)) ret \<and>
    length stored = 11 \<and> length searched = 11 \<and> stored \<noteq> searched"
proof -
  obtain b e where s: "cstr nm = b @ 46 # e" "46 \<notin> set b" "length b = 8" "length e = 3" "list_all alnum b" "list_all alnum e"
    using full_name_split [OF assms(2,3)] by blast
  obtain x y z where e: "e = [x, y, z]" using s(4) by (auto simp: length_Suc_conv numeral_3_eq_3)
  have t11: "take 11 (cstr nm) = b @ 46 # [x, y]" and u11: "up11 (cstr nm) = map upper b @ 46 # [upper x, upper y, z]"
    using s e by (simp_all add: up11_def)
  have no46: "46 \<notin> set (map upper b)" using s(2) by (metis (mono_tags, lifting) image_iff list.set_map upper_facts(2))
  have v11: "valid83 (take 11 (cstr nm))"
    using s e dot_parts [of b "[x, y]"] by (simp add: t11 valid83_def)
  have k: "key (take 11 (cstr nm)) = map upper b @ [upper x, upper y, 32]"
    using s(3) dot_parts [OF s(2), of "[x, y]"] by (simp add: t11 key_def form83_def split_upper pad_def del: map_append)
  have f: "form83 (up11 (cstr nm)) = map upper b @ [upper x, upper y, z]"
    using s(3) dot_parts [OF no46, of "[upper x, upper y, z]"] by (simp add: u11 form83_def pad_def)
  have "z \<noteq> 32" using s(6) e by auto
  moreover have "formatName nm = Some (FS_SUCCESS, form83 (up11 (cstr nm)) @ drop 11 (up11 (cstr nm) @ drop 12 nm))"
  proof -
    have "11 \<le> length nm" using length_cstr_less [OF assms(1)] assms(3) by simp
    moreover have "take 1 (cstr nm) \<noteq> [46]" using s by (cases b) auto
    ultimately show ?thesis using formatName_eq [OF assms(1)] assms(2,3) by simp
  qed
  moreover obtain w where "fsLookup fs parent nm ret = lookupEntry fs (d_inode (n_entry parent)) (Some (key (take 11 (cstr nm)) @ w)) ret"
    using fsLookup_valid [OF assms(1) v11] by blast
  ultimately show ?thesis
    using s(3) unfolding k f
    by (intro exI [of _ "map upper b @ [upper x, upper y, z]"] exI [of _ "map upper b @ [upper x, upper y, 32]"] exI) auto
qed

theorem full_length_name_lost_witness:
  "\<forall>fs parent ret. \<exists>stored x searched y.
    formatName (replicate 8 65 @ [46, 84, 88, 84, 0]) = Some (FS_SUCCESS, stored @ x) \<and>
    fsLookup fs parent (replicate 8 65 @ [46, 84, 88, 84, 0]) ret =
      lookupEntry fs (d_inode (n_entry parent)) (Some (searched @ y)) ret \<and>
    length stored = 11 \<and> length searched = 11 \<and> stored \<noteq> searched"
proof (intro allI, rule full_length_name_lost)
  have c: "cstr (replicate 8 65 @ [46, 84, 88, 84, 0]) = replicate 8 65 @ 46 # [84, 88, 84]"
    by (simp add: cstr_prefix)
  show "terminated (replicate 8 65 @ [46, 84, 88, 84, 0])" by (simp add: terminated_def)
  show "valid83 (cstr (replicate 8 65 @ [46, 84, 88, 84, 0]))"
    unfolding c using dot_parts [of "replicate 8 65" "[84, 88, 84]"]
    by (simp add: valid83_def list_all_iff alnum_def isdigit_def isalpha_def)
  show "length (cstr (replicate 8 65 @ [46, 84, 88, 84, 0])) = 12" unfolding c by simp
qed

end
