(* ===== verification/Fs_Trans.thy ===== *)
theory Fs_Trans
  imports Fs_Inv
begin

text \<open>
  The two transitions of the inventory that creating and removing consist of, stated by what they do
  to the bitmaps, the counters and the inode table: an inode (new or existing) gets one more block,
  and an inode disappears with all its blocks. Whatever sequence of writes brings the disk from the
  one state to the other, the invariant is kept.
\<close>

lemma free_blocks_card: "free_blocks fs = card {j. j < BLOCKS_PER_GROUP \<and> \<not> block_used fs j}"
  by (simp add: free_blocks_def fs_bits.clear_count_def block_used_def)

lemma free_blocks_one_less:
  assumes "k < BLOCKS_PER_GROUP" "\<not> block_used fs k"
    and "\<And>j. j < BLOCKS_PER_GROUP \<Longrightarrow> block_used fs' j \<longleftrightarrow> j = k \<or> block_used fs j"
  shows "Suc (free_blocks fs') = free_blocks fs"
proof -
  let ?S = "{j. j < BLOCKS_PER_GROUP \<and> \<not> block_used fs j}"
  have "{j. j < BLOCKS_PER_GROUP \<and> \<not> block_used fs' j} = ?S - {k}" using assms by auto
  moreover have "k \<in> ?S" "finite ?S" using assms by auto
  ultimately show ?thesis using card.remove [of ?S k] by (simp add: free_blocks_card)
qed

lemma free_blocks_more:
  assumes "K \<subseteq> {j. j < BLOCKS_PER_GROUP \<and> block_used fs j}"
    and "\<And>j. j < BLOCKS_PER_GROUP \<Longrightarrow> block_used fs' j \<longleftrightarrow> block_used fs j \<and> j \<notin> K"
  shows "free_blocks fs' = free_blocks fs + card K"
proof -
  let ?S = "{j. j < BLOCKS_PER_GROUP \<and> \<not> block_used fs j}"
  have "{j. j < BLOCKS_PER_GROUP \<and> \<not> block_used fs' j} = ?S \<union> K" using assms by auto
  moreover have "finite K" "?S \<inter> K = {}" using assms(1) by (auto intro: finite_subset)
  ultimately show ?thesis using card_Un_disjoint [of ?S K] by (simp add: free_blocks_card)
qed

section \<open>One more block\<close>

lemma gain_block:
  assumes inv: "fs_inv fs" and m': "mounted fs'"
    and k: "data_block k" "\<not> block_used fs k"
    and used: "\<And>j. j < BLOCKS_PER_GROUP \<Longrightarrow> block_used fs' j \<longleftrightarrow> j = k \<or> block_used fs j"
    and sb: "sb_freeBlockCount (sb_of fs') = sb_freeBlockCount (sb_of fs) - 1"
    and gd: "gd_freeBlocksCount (gd_of fs') = gd_freeBlocksCount (gd_of fs) - 1"
    and n: "inode_no n" "\<And>m. inode_no m \<Longrightarrow> inode_used fs' m \<longleftrightarrow> m = n \<or> inode_used fs m"
    and at: "\<And>m. inode_no m \<Longrightarrow> inode_at fs' m = (if m = n then x else inode_at fs m)"
    and x: "take (unat (i_blocks x)) (i_block x) = (if live fs n then owned fs n else []) @ [of_nat k]"
      "unat (i_blocks x) \<le> FS_N_BLOCKS"
  shows "fs_inv fs'" "live fs' m \<longleftrightarrow> m = n \<or> live fs m"
    "owned fs' n = (if live fs n then owned fs n else []) @ [of_nat k]"
    "live fs m \<Longrightarrow> m \<noteq> n \<Longrightarrow> owned fs' m = owned fs m"
    "Suc (free_blocks fs') = free_blocks fs"
proof -
  note fd = fs_invD [OF inv]
  have u: "unat (of_nat k :: u32) = k" using data_blockD(3) [OF k(1)] by (simp add: unat_le_of_nat)
  show live: "live fs' m \<longleftrightarrow> m = n \<or> live fs m" for m using n by (auto simp: live_def)
  show own_n: "owned fs' n = (if live fs n then owned fs n else []) @ [of_nat k]"
    unfolding owned_def [of fs'] using at [OF n(1)] x(1) by simp
  show own: "live fs m \<Longrightarrow> m \<noteq> n \<Longrightarrow> owned fs' m = owned fs m" for m
    using at by (simp add: owned_def live_def)
  show free: "Suc (free_blocks fs') = free_blocks fs"
    by (rule free_blocks_one_less [OF data_blockD(2) [OF k(1)] k(2) used])
  then have "counts_ok fs'"
    using fd(3) sb gd by (auto simp: counts_ok_def intro!: unat_pred)
  moreover have "base_reserved fs'"
    using fd(2) used by (auto simp: base_reserved_def layout_simps)
  moreover have wf: "inode_wf fs' m" if "live fs' m" for m
  proof (cases "m = n")
    case False
    then have "live fs m" "inode_no m" using that live by (auto simp: live_def)
    then show ?thesis
      using fd(4) False own at used data_blockD(2) by (auto simp: inode_wf_def)
  next
    case True
    have "of_nat k \<notin> set (owned fs n)" if "live fs n"
      using fd(4) [OF that] k(2) u by (auto simp: inode_wf_def)
    moreover have "live fs n \<longrightarrow> distinct (owned fs n)" using fd(4) by (simp add: inode_wf_def)
    ultimately have dist: "distinct (owned fs' n)" by (simp add: own_n)
    have "data_block (unat b) \<and> block_used fs' (unat b)" if "b \<in> set (owned fs' n)" for b
    proof -
      have "b = of_nat k \<or> live fs n \<and> b \<in> set (owned fs n)" using that by (auto simp: own_n split: if_splits)
      then show ?thesis
        using fd(4) [of n] k u used data_blockD(2) by (auto simp: inode_wf_def)
    qed
    then show ?thesis using dist True x(2) at [OF n(1)] by (simp add: inode_wf_def)
  qed
  moreover have "set (owned fs' m) \<inter> set (owned fs' m') = {}" if "live fs' m" "live fs' m'" "m \<noteq> m'" for m m'
  proof -
    have new: "of_nat k \<notin> set (owned fs m)" if "live fs m" for m
      using fd(4) [OF that] k(2) u by (auto simp: inode_wf_def)
    have one: "set (owned fs' n) \<inter> set (owned fs' m) = {}" if "live fs m" "m \<noteq> n" for m
      using fd(5) [of n m] that own [OF that] new [OF that(1)] by (auto simp: own_n split: if_splits)
    show ?thesis
      using that live one [of m] one [of m'] own fd(5) [of m m'] by (cases "m = n"; cases "m' = n") auto
  qed
  ultimately show "fs_inv fs'" using m' by (simp add: fs_inv_def)
qed

section \<open>An inode disappears\<close>

lemma lose_inode:
  assumes inv: "fs_inv fs" and m': "mounted fs'" and n: "live fs n"
    and used: "\<And>j. j < BLOCKS_PER_GROUP \<Longrightarrow> block_used fs' j \<longleftrightarrow> block_used fs j \<and> j \<notin> unat ` set (owned fs n)"
    and sb: "sb_freeBlockCount (sb_of fs') = sb_freeBlockCount (sb_of fs) + of_nat (length (owned fs n))"
    and gd: "gd_freeBlocksCount (gd_of fs') = gd_freeBlocksCount (gd_of fs) + of_nat (length (owned fs n))"
    and inodes: "\<And>m. inode_no m \<Longrightarrow> inode_used fs' m \<longleftrightarrow> m \<noteq> n \<and> inode_used fs m"
    and at: "\<And>m. live fs m \<Longrightarrow> m \<noteq> n \<Longrightarrow> inode_at fs' m = inode_at fs m"
  shows "fs_inv fs'" "live fs' m \<longleftrightarrow> m \<noteq> n \<and> live fs m" "live fs m \<Longrightarrow> m \<noteq> n \<Longrightarrow> owned fs' m = owned fs m"
    "free_blocks fs' = free_blocks fs + length (owned fs n)"
proof -
  note fd = fs_invD [OF inv]
  have wf: "distinct (owned fs n)" "\<And>b. b \<in> set (owned fs n) \<Longrightarrow> data_block (unat b) \<and> block_used fs (unat b)"
    using fd(4) [OF n] by (auto simp: inode_wf_def)
  show live: "live fs' m \<longleftrightarrow> m \<noteq> n \<and> live fs m" for m using inodes by (auto simp: live_def)
  show own: "live fs m \<Longrightarrow> m \<noteq> n \<Longrightarrow> owned fs' m = owned fs m" for m using at by (simp add: owned_def)
  have "card (unat ` set (owned fs n)) = length (owned fs n)"
    using wf(1) distinct_card [of "map unat (owned fs n)"] by (simp add: distinct_unat)
  moreover have "unat ` set (owned fs n) \<subseteq> {j. j < BLOCKS_PER_GROUP \<and> block_used fs j}"
    using wf(2) data_blockD(2) by auto
  ultimately show free: "free_blocks fs' = free_blocks fs + length (owned fs n)"
    using free_blocks_more [of "unat ` set (owned fs n)" fs fs'] used by simp
  have "counts_ok fs'"
  proof -
    have le: "free_blocks fs + length (owned fs n) \<le> 8192"
      using free_blocks_le [of fs'] by (simp add: free layout_simps)
    have u: "unat (of_nat (length (owned fs n)) :: u32) = length (owned fs n)"
      "unat (of_nat (length (owned fs n)) :: u16) = length (owned fs n)"
      using le by (simp_all add: unat_le_of_nat)
    have "unat (sb_freeBlockCount (sb_of fs) + of_nat (length (owned fs n))) = free_blocks fs + length (owned fs n)"
      using fd(3) le u by (subst unat_add_no_wrap) (auto simp: counts_ok_def)
    moreover have "unat (gd_freeBlocksCount (gd_of fs) + of_nat (length (owned fs n))) = free_blocks fs + length (owned fs n)"
      using fd(3) le u by (subst unat_add_no_wrap) (auto simp: counts_ok_def)
    ultimately show ?thesis using sb gd free by (simp add: counts_ok_def)
  qed
  moreover have "base_reserved fs'"
    using fd(2) used wf(2) by (force simp: base_reserved_def data_block_def layout_simps)
  moreover have "inode_wf fs' m" if "live fs' m" for m
  proof -
    have m: "live fs m" "m \<noteq> n" using that live by auto
    have "block_used fs' (unat b)" if "b \<in> set (owned fs m)" for b
      using fd(4) [OF m(1)] fd(5) [OF m(1) n m(2)] that used data_blockD(2)
      by (fastforce simp: inode_wf_def unat_image_iff)
    then show ?thesis using fd(4) [OF m(1)] own [OF m] at [OF m] by (auto simp: inode_wf_def)
  qed
  moreover have "set (owned fs' m) \<inter> set (owned fs' m') = {}" if "live fs' m" "live fs' m'" "m \<noteq> m'" for m m'
    using that live own fd(5) by auto
  ultimately show "fs_inv fs'" using m' by (simp add: fs_inv_def)
qed

end
