(* ===== verification/Fs_Slots.thy ===== *)
theory Fs_Slots
  imports Fs_Names Fs_Trans
begin

text \<open>
  Directories as sequences of slots. The blocks of a directory are read as one sequence of entries;
  the loops of the lookup over blocks and over the entries of a block are then a single search for
  the first slot that matches or ends the directory.
\<close>

section \<open>Entries of a block\<close>

lemma wf_zero_structs:
  "wfSuperBlock (decSuperBlock (replicate SUPER_BLOCK_SIZE 0))"
  "wfGroupDescriptor (decGroupDescriptor (replicate GROUP_DESCRIPTOR_SIZE 0))"
  "wfInode zero_inode" "wfDirEntry zero_entry"
  unfolding zero_inode_def zero_entry_def
  by (rule super_codec.wf_dec group_codec.wf_dec inode_codec.wf_dec dirent_codec.wf_dec; simp)+

lemma zero_entries: "i < 32 \<Longrightarrow> struct_at DIR_ENTRY_SIZE decDirEntry (replicate MAX_BLOCK_SIZE 0) i = Some zero_entry"
proof -
  assume "i < 32"
  then have "decDirEntry (drop (i * DIR_ENTRY_SIZE) (replicate MAX_BLOCK_SIZE 0)) = zero_entry"
    using dirent_codec.dec_take [of "replicate (MAX_BLOCK_SIZE - i * DIR_ENTRY_SIZE) 0"]
    unfolding zero_entry_def by (simp add: layout_values(3,30) min_def)
  with \<open>i < 32\<close> show ?thesis by (simp add: struct_at_def layout_values(3,30))
qed

lemma entry_put_ok:
  assumes "length block = MAX_BLOCK_SIZE" and "i < 32" and "wfDirEntry e"
  obtains block' where "struct_put DIR_ENTRY_SIZE encDirEntry block i e = Some block'"
    and "length block' = MAX_BLOCK_SIZE"
    and "\<And>j. struct_at DIR_ENTRY_SIZE decDirEntry block' j =
      (if j = i then Some e else struct_at DIR_ENTRY_SIZE decDirEntry block j)"
proof -
  obtain block' where b: "struct_put DIR_ENTRY_SIZE encDirEntry block i e = Some block'"
    using dirent_codec.put_defined [of i block e] assms(1,2) by (auto simp: layout_simps)
  show ?thesis
    using that [OF b] dirent_codec.put_length [OF assms(3) b] dirent_codec.at_put_same [OF assms(3) b]
      dirent_codec.at_put_other [OF assms(3) b] assms(1) by auto
qed

lemma wf_entry_update [simp]:
  "wfDirEntry e \<Longrightarrow> length nm = 11 \<Longrightarrow> wfDirEntry (e\<lparr> d_name := nm \<rparr>)"
  "wfDirEntry e \<Longrightarrow> wfDirEntry (e\<lparr> d_inode := n \<rparr>)" "wfDirEntry e \<Longrightarrow> wfDirEntry (e\<lparr> d_nameLen := l \<rparr>)"
  by (simp_all add: wfDirEntry_def)

lemma zero_entry_name: "d_name zero_entry = replicate 11 0" "d_inode zero_entry = 0" "d_nameLen zero_entry = 0"
  by (simp_all add: zero_entry_def decDirEntry_def layout_values(30) bslice_def rd32_def eval_nat_numeral)

lemma dot_names [simp]: "length dot_name = 11" "length dotdot_name = 11"
  by (simp_all add: dot_name_def dotdot_name_def)

definition blk_entry :: "bytes \<Rightarrow> nat \<Rightarrow> DirEntry" where
  "blk_entry block j = decDirEntry (drop (j * DIR_ENTRY_SIZE) block)"

lemma blk_entry_at:
  "length block = MAX_BLOCK_SIZE \<Longrightarrow> j < 32 \<Longrightarrow> struct_at DIR_ENTRY_SIZE decDirEntry block j = Some (blk_entry block j)"
  by (simp add: struct_at_def blk_entry_def layout_values)

lemma wf_blk_entry: "length block = MAX_BLOCK_SIZE \<Longrightarrow> j < 32 \<Longrightarrow> wfDirEntry (blk_entry block j)"
  using blk_entry_at dirent_codec.at_wf by blast

definition ended :: "DirEntry \<Rightarrow> bool" where
  "ended e \<longleftrightarrow> d_name e ! 0 = DIR_ENTRY_NO_MORE"

definition unused :: "DirEntry \<Rightarrow> bool" where
  "unused e \<longleftrightarrow> d_name e ! 0 = DIR_ENTRY_FREE"

text \<open>Which entries a search stops at with success.\<close>

definition hit :: "bytes option \<Rightarrow> DirEntry \<Rightarrow> bool" where
  "hit nm e = (case nm of
     None \<Rightarrow> \<not> ended e \<and> \<not> unused e \<and> d_name e ! 0 \<noteq> 46
   | Some f \<Rightarrow> d_name e = take 11 f \<or> (f ! 0 = DIR_ENTRY_FREE \<or> f ! 0 = DIR_ENTRY_NO_MORE) \<and> f ! 0 = d_name e ! 0)"

definition name_ok :: "bytes option \<Rightarrow> bool" where
  "name_ok nm \<longleftrightarrow> (case nm of None \<Rightarrow> True | Some f \<Rightarrow> 11 \<le> length f)"

lemma find_from_eq:
  assumes "length block = MAX_BLOCK_SIZE" "name_ok nm" "i \<le> 32"
  shows "find_from block nm i i 32 = Some (
    case first_from (\<lambda>j. hit nm (blk_entry block j) \<or> ended (blk_entry block j)) i 32 of
      None \<Rightarrow> (FS_ERROR, 32)
    | Some j \<Rightarrow> if hit nm (blk_entry block j) then (FS_SUCCESS, j) else (-2, j))"
  using assms(3)
proof (induction "32 - i" arbitrary: i)
  case 0
  then show ?case by (simp add: find_from.simps [of block nm 32] first_from_step)
next
  case (Suc d)
  let ?e = "blk_entry block i"
  have i: "i < 32" using Suc by simp
  have nl: "length (d_name ?e) = 11" using wf_blk_entry [OF assms(1) i] by (simp add: wfDirEntry_def)
  have h: "(case nm of
          None \<Rightarrow> Some (d_name ?e ! 0 \<noteq> DIR_ENTRY_NO_MORE \<and> d_name ?e ! 0 \<noteq> DIR_ENTRY_FREE \<and> d_name ?e ! 0 \<noteq> 46)
        | Some fname \<Rightarrow> do {
            r \<leftarrow> memcmp (d_name ?e) fname MAX_ENTRY_NAME_LENGTH;
            if r = 0 then Some True
            else do {
              f0 \<leftarrow> idx fname 0;
              Some ((f0 = DIR_ENTRY_FREE \<or> f0 = DIR_ENTRY_NO_MORE) \<and> f0 = d_name ?e ! 0) } }) = Some (hit nm ?e)"
  proof (cases nm)
    case None
    then show ?thesis by (simp add: hit_def ended_def unused_def)
  next
    case (Some f)
    then have f: "11 \<le> length f" using assms(2) by (simp add: name_ok_def)
    obtain r where r: "memcmp (d_name ?e) f 11 = Some r" using memcmp_defined [of 11 "d_name ?e" f] nl f by auto
    moreover have "r = 0 \<longleftrightarrow> d_name ?e = take 11 f" using memcmp_eq_0_iff [of "d_name ?e" f 11] r nl f by auto
    moreover have "idx f 0 = Some (f ! 0)" using f by (intro idx_Some) linarith
    ultimately show ?thesis using Some f by (auto simp: hit_def layout_values)
  qed
  have step: "find_from block nm i i 32 = (if hit nm ?e then Some (FS_SUCCESS, i)
      else if ended ?e then Some (-2, i) else find_from block nm (Suc i) (Suc i) 32)"
    using i by (subst find_from.simps) (simp add: blk_entry_at [OF assms(1) i] h ended_def Let_def)
  show ?case
  proof (cases "hit nm ?e \<or> ended ?e")
    case True
    then show ?thesis using step i by (auto simp: first_from_step)
  next
    case False
    then show ?thesis using step i Suc.hyps(1) [of "Suc i"] Suc.hyps(2) by (simp add: first_from_step)
  qed
qed

section \<open>The slots of a directory\<close>

definition slot :: "Filesystem \<Rightarrow> nat \<Rightarrow> nat \<Rightarrow> DirEntry" where
  "slot fs n g = blk_entry (fblock fs (unat (owned fs n ! (g div 32)))) (g mod 32)"

definition slots :: "Filesystem \<Rightarrow> nat \<Rightarrow> nat" where
  "slots fs n = 32 * length (owned fs n)"

definition slot_loc :: "Filesystem \<Rightarrow> nat \<Rightarrow> nat \<Rightarrow> DirEntryLocation" where
  "slot_loc fs n g = \<lparr> l_group = GET_INODE_GROUP (d_inode (slot fs n g)),
     l_block = owned fs n ! (g div 32), l_offset = of_nat (g mod 32) \<rparr>"

definition slot_node :: "Filesystem \<Rightarrow> nat \<Rightarrow> nat \<Rightarrow> FsNode" where
  "slot_node fs n g = \<lparr> n_entry = slot fs n g, n_location = slot_loc fs n g \<rparr>"

definition seek :: "Filesystem \<Rightarrow> nat \<Rightarrow> bytes option \<Rightarrow> nat option" where
  "seek fs n nm = first_from (\<lambda>g. hit nm (slot fs n g) \<or> ended (slot fs n g)) 0 (slots fs n)"

text \<open>The slot at which a search succeeds.\<close>

definition found :: "Filesystem \<Rightarrow> nat \<Rightarrow> bytes option \<Rightarrow> nat option" where
  "found fs n nm = (case seek fs n nm of Some g \<Rightarrow> if hit nm (slot fs n g) then Some g else None | None \<Rightarrow> None)"

lemma owned_on_disk:
  assumes "fs_inv fs" "live fs n" "i < length (owned fs n)"
  shows "unat (owned fs n ! i) < disk_blocks" "data_block (unat (owned fs n ! i))"
  using fs_invD(4) [OF assms(1,2)] assms(3) nth_mem [OF assms(3)] data_blockD(5)
  by (auto simp: inode_wf_def)

lemma owned_nth:
  assumes "fs_inv fs" "live fs n"
  shows "length (owned fs n) = unat (i_blocks (inode_at fs n))"
    and "i < length (owned fs n) \<Longrightarrow> idx (i_block (inode_at fs n)) i = Some (owned fs n ! i)"
proof -
  have l: "unat (i_blocks (inode_at fs n)) \<le> length (i_block (inode_at fs n))"
    using fs_invD(4) [OF assms] wf_inode_at [of fs n] by (auto simp: inode_wf_def wfInode_def layout_values)
  then show "length (owned fs n) = unat (i_blocks (inode_at fs n))" by (simp add: owned_def)
  with l show "i < length (owned fs n) \<Longrightarrow> idx (i_block (inode_at fs n)) i = Some (owned fs n ! i)"
    by (simp add: owned_def)
qed

lemma lookup_from_eq:
  assumes inv: "fs_inv fs" "live fs n" and nm: "name_ok nm" and i: "i \<le> length (owned fs n)"
    and block: "length block \<le> MAX_BLOCK_SIZE"
  shows "\<exists>ret'. n_entry ret' = n_entry ret \<and> lookup_from fs (inode_at fs n) nm block ret i = Some (
    case first_from (\<lambda>g. hit nm (slot fs n g) \<or> ended (slot fs n g)) (32 * i) (slots fs n) of
      None \<Rightarrow> (FS_ERROR, ret')
    | Some g \<Rightarrow> if hit nm (slot fs n g) then (FS_SUCCESS, slot_node fs n g) else (FS_ERROR, ret'))"
  using i block
proof (induction "length (owned fs n) - i" arbitrary: i block ret)
  case 0
  then have "i = length (owned fs n)" by simp
  then show ?case
    using owned_nth(1) [OF inv] by (subst lookup_from.simps) (auto simp: slots_def first_from_step)
next
  case (Suc d)
  let ?P = "\<lambda>g. hit nm (slot fs n g) \<or> ended (slot fs n g)"
  let ?b = "owned fs n ! i" and ?blk = "fblock fs (unat (owned fs n ! i))"
  let ?ret = "ret\<lparr> n_location := (n_location ret)\<lparr> l_block := ?b \<rparr> \<rparr>"
  have i: "i < length (owned fs n)" using Suc by simp
  have rd: "fsRd fs ?b blk = Some (0, ?blk)" if "length blk \<le> MAX_BLOCK_SIZE" for blk
    using mounted_ok [OF fs_invD(1) [OF inv(1)]] owned_on_disk(1) [OF inv i] that by (simp add: fsd.rd_content)
  have len: "length ?blk = MAX_BLOCK_SIZE" by (simp add: layout_values)
  have sl: "slot fs n (32 * i + j) = blk_entry ?blk j" if "j < 32" for j
    using that by (simp add: slot_def)
  have inner: "first_from (\<lambda>j. hit nm (blk_entry ?blk j) \<or> ended (blk_entry ?blk j)) 0 32 =
      map_option (\<lambda>g. g - 32 * i) (first_from ?P (32 * i) (32 * i + 32))"
  proof -
    have "first_from (\<lambda>j. hit nm (blk_entry ?blk j) \<or> ended (blk_entry ?blk j)) 0 32 = first_from (\<lambda>j. ?P (32 * i + j)) 0 32"
      by (rule first_from_cong) (simp add: sl)
    then show ?thesis using first_from_shift [of ?P "32 * i" 0 32] by simp
  qed
  have outer: "first_from ?P (32 * i) (slots fs n) = (case first_from ?P (32 * i) (32 * i + 32) of
      Some g \<Rightarrow> Some g | None \<Rightarrow> first_from ?P (32 * Suc i) (slots fs n))"
  proof -
    have "32 * Suc i = 32 * i + 32" "32 * i + 32 \<le> slots fs n" using i by (auto simp: slots_def)
    then show ?thesis using first_from_append [of "32 * i" "32 * i + 32" "slots fs n" ?P] by (simp only: le_add1 cong: option.case_cong)
  qed
  have step: "lookup_from fs (inode_at fs n) nm block ret i =
    (case first_from ?P (32 * i) (32 * i + 32) of
       None \<Rightarrow> lookup_from fs (inode_at fs n) nm ?blk ?ret (Suc i)
     | Some g \<Rightarrow> if hit nm (slot fs n g) then Some (FS_SUCCESS, slot_node fs n g) else Some (FS_ERROR, ?ret))"
  proof (cases "first_from ?P (32 * i) (32 * i + 32)")
    case None
    then show ?thesis
      using i rd [OF Suc.prems(2)] owned_nth [OF inv] find_from_eq [OF len nm, of 0] inner
      by (subst lookup_from.simps) (simp add: findEntryAtBlock_def Let_def layout_values)
  next
    case (Some g)
    then have g: "32 * i \<le> g" "g < 32 * i + 32" by (auto simp: first_from_Some_iff)
    then have e: "slot fs n g = blk_entry ?blk (g - 32 * i)" using sl [of "g - 32 * i"] by simp
    have q: "g div 32 = i" "g mod 32 = g - 32 * i" using g by (auto simp: div_nat_eqI mod_nat_eqI)
    have node: "slot_node fs n g = \<lparr> n_entry = blk_entry ?blk (g - 32 * i), n_location =
        \<lparr> l_group = GET_INODE_GROUP (d_inode (blk_entry ?blk (g - 32 * i))), l_block = ?b, l_offset = of_nat (g - 32 * i) \<rparr> \<rparr>"
      using e q by (simp add: slot_node_def slot_loc_def)
    have "struct_at DIR_ENTRY_SIZE decDirEntry ?blk (g - 32 * i) = Some (blk_entry ?blk (g - 32 * i))"
      using g by (intro blk_entry_at [OF len]) simp
    then show ?thesis
      using Some i rd [OF Suc.prems(2)] owned_nth [OF inv] find_from_eq [OF len nm, of 0] inner e node
      by (subst lookup_from.simps) (simp add: findEntryAtBlock_def Let_def layout_values)
  qed
  show ?case
  proof (cases "first_from ?P (32 * i) (32 * i + 32)")
    case None
    then show ?thesis
      using Suc.hyps(1) [of "Suc i" ?blk ?ret] Suc.hyps(2) i len step outer by simp
  next
    case (Some g)
    then show ?thesis using step outer by (intro exI [of _ ?ret]) auto
  qed
qed

lemma lookupEntry_eq:
  assumes "fs_inv fs" "live fs (unat n)" "name_ok nm"
  obtains (found) g where "found fs (unat n) nm = Some g" "lookupEntry fs n nm ret = Some (FS_SUCCESS, slot_node fs (unat n) g)"
    | (missing) ret' where "found fs (unat n) nm = None" "lookupEntry fs n nm ret = Some (FS_ERROR, ret')" "n_entry ret' = n_entry ret"
proof -
  have gi: "getInode fs n = Some (Some (inode_at fs (unat n)))"
    using getInode_eq mounted_ok fs_invD(1) assms by (simp add: live_def)
  obtain ret' where "n_entry ret' = n_entry ret" "lookup_from fs (inode_at fs (unat n)) nm [] ret 0 = Some (
    case seek fs (unat n) nm of
      None \<Rightarrow> (FS_ERROR, ret')
    | Some g \<Rightarrow> if hit nm (slot fs (unat n) g) then (FS_SUCCESS, slot_node fs (unat n) g) else (FS_ERROR, ret'))"
    using lookup_from_eq [OF assms, of 0 "[]" ret] by (auto simp: seek_def)
  with gi that show ?thesis
    by (auto simp: lookupEntry_def found_def split: option.splits if_splits)
qed

lemma lookup_found:
  assumes "fs_inv fs" "live fs (unat n)" "name_ok nm" "found fs (unat n) nm = Some g"
  shows "lookupEntry fs n nm ret = Some (FS_SUCCESS, slot_node fs (unat n) g)"
  using assms(4) by (cases rule: lookupEntry_eq [OF assms(1-3), of ret]) auto

lemma lookup_missing:
  assumes "fs_inv fs" "live fs (unat n)" "name_ok nm" "found fs (unat n) nm = None"
  obtains ret' where "lookupEntry fs n nm ret = Some (FS_ERROR, ret')" "n_entry ret' = n_entry ret"
  using assms(4) by (cases rule: lookupEntry_eq [OF assms(1-3), of ret]) auto

section \<open>Writing a slot\<close>

definition put_entry :: "Filesystem \<Rightarrow> nat \<Rightarrow> nat \<Rightarrow> DirEntry \<Rightarrow> Filesystem" where
  "put_entry fs b j v = fput fs b (overwrite (fblock fs b) (j * DIR_ENTRY_SIZE) (encDirEntry v))"

lemma put_entry_block:
  assumes "wfDirEntry v" "j < 32"
  shows "struct_put DIR_ENTRY_SIZE encDirEntry (fblock fs b) j v =
      Some (overwrite (fblock fs b) (j * DIR_ENTRY_SIZE) (encDirEntry v))"
    and "length (overwrite (fblock fs b) (j * DIR_ENTRY_SIZE) (encDirEntry v)) = MAX_BLOCK_SIZE"
    and "fblock (put_entry fs b j v) k =
      (if k = b then overwrite (fblock fs b) (j * DIR_ENTRY_SIZE) (encDirEntry v) else fblock fs k)"
    and "j' < 32 \<Longrightarrow> blk_entry (fblock (put_entry fs b j v) b) j' = (if j' = j then v else blk_entry (fblock fs b) j')"
proof -
  have l: "length (fblock fs b) = MAX_BLOCK_SIZE" by (simp add: layout_values)
  show put: "struct_put DIR_ENTRY_SIZE encDirEntry (fblock fs b) j v =
      Some (overwrite (fblock fs b) (j * DIR_ENTRY_SIZE) (encDirEntry v))"
    using assms(2) by (simp add: struct_put_def layout_values)
  show len: "length (overwrite (fblock fs b) (j * DIR_ENTRY_SIZE) (encDirEntry v)) = MAX_BLOCK_SIZE"
    using dirent_codec.put_length [OF assms(1) put] l by simp
  show fb: "fblock (put_entry fs b j v) k =
      (if k = b then overwrite (fblock fs b) (j * DIR_ENTRY_SIZE) (encDirEntry v) else fblock fs k)" for k
    unfolding put_entry_def using len by (simp add: fsd.content_put)
  show "blk_entry (fblock (put_entry fs b j v) b) j' = (if j' = j then v else blk_entry (fblock fs b) j')" if "j' < 32"
    using dirent_codec.at_put_same [OF assms(1) put] dirent_codec.at_put_other [OF assms(1) put, of j']
      blk_entry_at [OF l that] blk_entry_at [OF len that] fb by (cases "j' = j") auto
qed

lemma setEntry_eq:
  assumes "fs_ok fs" "unat (l_block loc) < disk_blocks" "unat (l_offset loc) < 32" "wfDirEntry v"
  shows "setEntry fs loc v = Some (0, put_entry fs (unat (l_block loc)) (unat (l_offset loc)) v)"
  using assms put_entry_block(1,2) [OF assms(4,3), of fs "unat (l_block loc)"]
  by (simp add: setEntry_def fsd_simps put_entry_def layout_values)

text \<open>Writing into a data block changes nothing but that block.\<close>

lemma data_write:
  assumes "data_block k" "length bs = MAX_BLOCK_SIZE"
  shows "live (fput fs k bs) n = live fs n" "live fs n \<Longrightarrow> inode_at (fput fs k bs) n = inode_at fs n"
    "live fs n \<Longrightarrow> owned (fput fs k bs) n = owned fs n" "free_blocks (fput fs k bs) = free_blocks fs"
    "block_used (fput fs k bs) = block_used fs" "inode_used (fput fs k bs) = inode_used fs"
    "fs_inv (fput fs k bs) = fs_inv fs"
proof -
  have k: "DATA_BLOCK_BASE \<le> k" using assms(1) by (simp add: data_block_def)
  note f = frame_data [OF k assms(2)]
  show l: "live (fput fs k bs) n = live fs n" for n by (simp add: live_def f)
  show a: "live fs n \<Longrightarrow> inode_at (fput fs k bs) n = inode_at fs n" for n by (simp add: live_def f)
  show o: "live fs n \<Longrightarrow> owned (fput fs k bs) n = owned fs n" for n by (simp add: owned_def a)
  show fr: "free_blocks (fput fs k bs) = free_blocks fs"
    using k assms(2) by (simp add: free_blocks_def fsd.content_put layout_values)
  show "block_used (fput fs k bs) = block_used fs" "inode_used (fput fs k bs) = inode_used fs" by (simp_all add: f)
  have "inode_wf (fput fs k bs) n = inode_wf fs n" if "live fs n" for n
    using that by (simp add: inode_wf_def a o f)
  then show "fs_inv (fput fs k bs) = fs_inv fs"
    by (auto simp: fs_inv_def base_reserved_def counts_ok_def f fr l o)
qed

lemma data_write_read: "length bs = MAX_BLOCK_SIZE \<Longrightarrow> fblock (fput fs k bs) j = (if j = k then bs else fblock fs j)"
  by (rule fsd.content_put)

text \<open>Writing the slot \<open>g\<close> of the directory \<open>n\<close>.\<close>

definition put_slot :: "Filesystem \<Rightarrow> nat \<Rightarrow> nat \<Rightarrow> DirEntry \<Rightarrow> Filesystem" where
  "put_slot fs n g v = put_entry fs (unat (owned fs n ! (g div 32))) (g mod 32) v"

lemma slot_block: "g < slots fs n \<Longrightarrow> g div 32 < length (owned fs n)"
  by (simp add: slots_def)

lemma put_slot_frame:
  assumes inv: "fs_inv fs" "live fs n" and g: "g < slots fs n" and v: "wfDirEntry v"
  defines "fs' \<equiv> put_slot fs n g v"
  shows "fs_inv fs'" "live fs' m = live fs m" "live fs m \<Longrightarrow> inode_at fs' m = inode_at fs m"
    "live fs m \<Longrightarrow> owned fs' m = owned fs m" "free_blocks fs' = free_blocks fs" "block_used fs' = block_used fs"
    "inode_used fs' = inode_used fs"
    "g' < slots fs n \<Longrightarrow> slot fs' n g' = (if g' = g then v else slot fs n g')"
    "b \<noteq> unat (owned fs n ! (g div 32)) \<Longrightarrow> fblock fs' b = fblock fs b"
    "live fs m \<Longrightarrow> m \<noteq> n \<Longrightarrow> b' \<in> set (owned fs m) \<Longrightarrow> fblock fs' (unat b') = fblock fs (unat b')"
proof -
  let ?b = "owned fs n ! (g div 32)"
  have d: "data_block (unat ?b)" using owned_on_disk(2) [OF inv slot_block [OF g]] .
  have j: "g mod 32 < 32" by simp
  note pb = put_entry_block [OF v j, where fs = fs and b = "unat ?b"]
  note dw = data_write [OF d pb(2), where fs = fs, folded put_entry_def]
  show "fs_inv fs'" "live fs' m = live fs m" "live fs m \<Longrightarrow> inode_at fs' m = inode_at fs m"
    "free_blocks fs' = free_blocks fs" "block_used fs' = block_used fs" "inode_used fs' = inode_used fs"
    using dw inv by (simp_all add: fs'_def put_slot_def)
  show own: "live fs m \<Longrightarrow> owned fs' m = owned fs m" for m using dw by (simp add: fs'_def put_slot_def)
  show fb: "b \<noteq> unat ?b \<Longrightarrow> fblock fs' b = fblock fs b" for b using pb(3) by (simp add: fs'_def put_slot_def)
  show "slot fs' n g' = (if g' = g then v else slot fs n g')" if g': "g' < slots fs n"
  proof (cases "g' div 32 = g div 32")
    case True
    then have "g' = g \<longleftrightarrow> g' mod 32 = g mod 32" by (metis div_mult_mod_eq)
    then show ?thesis using True pb(4) own inv by (simp add: slot_def fs'_def put_slot_def)
  next
    case False
    have "distinct (owned fs n)" using fs_invD(4) [OF inv] by (simp add: inode_wf_def)
    then have "owned fs n ! (g' div 32) \<noteq> ?b"
      using False slot_block [OF g] slot_block [OF g'] by (simp add: nth_eq_iff_index_eq)
    then have "unat (owned fs n ! (g' div 32)) \<noteq> unat ?b" by (simp add: word_unat_eq_iff)
    then show ?thesis using fb own inv False by (auto simp: slot_def)
  qed
  show "fblock fs' (unat b') = fblock fs (unat b')" if "live fs m" "m \<noteq> n" "b' \<in> set (owned fs m)"
  proof -
    have "b' \<noteq> ?b" using fs_invD(5) [OF inv(1) that(1) inv(2) that(2)] that(3) nth_mem [OF slot_block [OF g]] by auto
    then show ?thesis by (intro fb) (simp add: word_unat_eq_iff)
  qed
qed

lemma setEntry_slot:
  assumes inv: "fs_inv fs" "live fs n" and g: "g < slots fs n" and v: "wfDirEntry v"
    and loc: "l_block loc = owned fs n ! (g div 32)" "l_offset loc = of_nat (g mod 32)"
  shows "setEntry fs loc v = Some (0, put_slot fs n g v)"
proof -
  have "unat (of_nat (g mod 32) :: u32) = g mod 32" by (simp add: unat_le_of_nat)
  then show ?thesis
    using setEntry_eq [of fs loc v] mounted_ok [OF fs_invD(1) [OF inv(1)]] owned_on_disk(1) [OF inv slot_block [OF g]] v loc
    by (simp add: put_slot_def)
qed

section \<open>A directory grows by a block\<close>

lemma count_less:
  assumes "mounted fs" "1 \<le> unat (sb_freeBlockCount (sb_of fs))" "1 \<le> unat (gd_freeBlocksCount (gd_of fs))"
    and "k \<noteq> 0" "k \<le> BLOCKS_PER_GROUP"
  obtains fs1 where "setSbFreeBlockCount fs (-1) = Some (0, fs1)"
    and "setGdFreeBlockCount fs1 (of_nat k) (-1) = Some (0, add_free fs (-1))"
proof -
  have pos: "1 \<le> sb_freeBlockCount (sb_of fs)" using assms(2) by (simp add: word_le_nat_alt)
  have posg: "1 \<le> uint (gd_freeBlocksCount (gd_of fs))"
    using assms(3) uint_nat [of "gd_freeBlocksCount (gd_of fs)"] by linarith
  define fs1 where "fs1 = put_sb fs ((sb_of fs)\<lparr> sb_freeBlockCount := sb_freeBlockCount (sb_of fs) + word_of_int (-1) \<rparr>)"
  have u: "unat (of_nat k :: u32) = k" using assms(5) by (simp add: unat_le_of_nat layout_simps)
  have "gd_of fs1 = gd_of fs" by (simp add: fs1_def fs_frame wf_add_free_structs)
  then have "setGdFreeBlockCount fs1 (of_nat k) (-1) = Some (0, add_free fs (-1))"
    using assms(1,4,5) posg u
    by (subst setGdFreeBlockCount_eq) (auto simp: fs1_def mounted_ok add_free_def Let_def)
  moreover have "setSbFreeBlockCount fs (-1) = Some (0, fs1)"
    using assms(1) pos by (simp add: setSbFreeBlockCount_eq mounted_ok fs1_def Let_def)
  ultimately show ?thesis using that by blast
qed

lemma add_free_inodes:
  "inode_used (add_free fs num) = inode_used fs" "inode_no n \<Longrightarrow> inode_at (add_free fs num) n = inode_at fs n"
  "j \<noteq> SUPER_BLOCK_BASE \<Longrightarrow> j \<noteq> GDT_BASE \<Longrightarrow> fblock (add_free fs num) j = fblock fs j"
  using same_rest_inodes(1,2) [OF same_rest_add_free] by (simp_all add: fblock_add_free)

definition longer :: "Filesystem \<Rightarrow> nat \<Rightarrow> nat \<Rightarrow> Inode" where
  "longer fs n k = (inode_at fs n)\<lparr> i_block := (i_block (inode_at fs n))[unat (i_blocks (inode_at fs n)) := of_nat k],
     i_blocks := i_blocks (inode_at fs n) + 1 \<rparr>"

definition extended :: "Filesystem \<Rightarrow> nat \<Rightarrow> nat \<Rightarrow> Filesystem" where
  "extended fs n k = fput (add_free (put_inode (mark_block fs k) n (longer fs n k)) (-1)) k (replicate MAX_BLOCK_SIZE 0)"

lemma longer_facts:
  assumes "fs_inv fs" "live fs n" "length (owned fs n) < FS_N_BLOCKS"
  shows "wfInode (longer fs n k)" "unat (i_blocks (longer fs n k)) \<le> FS_N_BLOCKS"
    "take (unat (i_blocks (longer fs n k))) (i_block (longer fs n k)) = owned fs n @ [of_nat k]"
    "upd (i_block (inode_at fs n)) (unat (i_blocks (inode_at fs n))) (of_nat k) = Some (i_block (longer fs n k))"
    "(inode_at fs n)\<lparr> i_block := i_block (longer fs n k), i_blocks := i_blocks (inode_at fs n) + 1 \<rparr> = longer fs n k"
proof -
  let ?i = "inode_at fs n"
  have len: "length (i_block ?i) = 15" using wf_inode_at [of fs n] by (simp add: wfInode_def layout_simps)
  have bl: "unat (i_blocks ?i) < 15" using assms owned_nth(1) by (simp add: layout_simps)
  have ub: "unat (i_blocks ?i + 1) = Suc (unat (i_blocks ?i))" using bl by (simp add: unat_succ)
  show "wfInode (longer fs n k)" using wf_inode_at [of fs n] by (simp add: longer_def wfInode_def)
  show "unat (i_blocks (longer fs n k)) \<le> FS_N_BLOCKS" using bl ub by (simp add: longer_def layout_simps)
  show "take (unat (i_blocks (longer fs n k))) (i_block (longer fs n k)) = owned fs n @ [of_nat k]"
    using bl len by (simp add: longer_def ub owned_def take_Suc_conv_app_nth)
qed (use wf_inode_at [of fs n] assms owned_nth(1) [of fs n] in \<open>auto simp: longer_def wfInode_def layout_simps\<close>)

lemma extended_blocks:
  assumes "data_block k" "inode_no n" "wfInode (longer fs n k)" "DATA_BLOCK_BASE \<le> b"
  shows "fblock (extended fs n k) b = (if b = k then replicate MAX_BLOCK_SIZE 0 else fblock fs b)"
  using assms inode_blk_range [OF assms(2)]
  by (simp add: extended_def data_write_read add_free_inodes fblock_put_inode fblock_mark layout_values)

lemma extended_facts:
  assumes inv: "fs_inv fs" and n: "live fs n" "length (owned fs n) < FS_N_BLOCKS"
    and k: "data_block k" "\<not> block_used fs k"
  defines "fs' \<equiv> extended fs n k"
  shows "fs_inv fs'" "live fs' m = live fs m" "owned fs' n = owned fs n @ [of_nat k]"
    "live fs m \<Longrightarrow> m \<noteq> n \<Longrightarrow> owned fs' m = owned fs m" "live fs m \<Longrightarrow> inode_at fs' m = (if m = n then longer fs n k else inode_at fs m)"
    "inode_used fs' = inode_used fs" "Suc (free_blocks fs') = free_blocks fs"
proof -
  note x = longer_facts [OF inv n, of k]
  have no: "inode_no n" using n by (simp add: live_def)
  have K: "DATA_BLOCK_BASE \<le> k" "length (replicate MAX_BLOCK_SIZE (0 :: u8)) = MAX_BLOCK_SIZE"
    using data_blockD(4) [OF k(1)] by auto
  note fr = frame_data [OF K] frame_put_inode [OF x(1) no] add_free_simps add_free_inodes
  have used: "block_used fs' j \<longleftrightarrow> j = k \<or> block_used fs j" if "j < BLOCKS_PER_GROUP" for j
    using that data_blockD(2) [OF k(1)] by (simp add: fs'_def extended_def fr fs_frame)
  have iu: "inode_used fs' = inode_used fs" by (simp add: fs'_def extended_def fr fs_frame)
  have at: "inode_at fs' m = (if m = n then longer fs n k else inode_at fs m)" if "inode_no m" for m
    using that no x(1) by (simp add: fs'_def extended_def fr fs_frame inode_at_put_inode)
  have mt: "mounted fs'" using fs_invD(1) [OF inv] by (simp add: fs'_def extended_def add_free_simps)
  have counts: "sb_freeBlockCount (sb_of fs') = sb_freeBlockCount (sb_of fs) - 1"
    "gd_freeBlocksCount (gd_of fs') = gd_freeBlocksCount (gd_of fs) - 1"
    by (simp_all add: fs'_def extended_def fr fs_frame)
  have iu': "inode_used fs' m \<longleftrightarrow> m = n \<or> inode_used fs m" if "inode_no m" for m
    using n by (auto simp: iu live_def)
  have tk: "take (unat (i_blocks (longer fs n k))) (i_block (longer fs n k)) = (if live fs n then owned fs n else []) @ [of_nat k]"
    using x(3) n(1) by simp
  note gb = gain_block [OF inv mt k used counts no iu' at tk x(2)]
  show "fs_inv fs'" "owned fs' n = owned fs n @ [of_nat k]" "Suc (free_blocks fs') = free_blocks fs"
    "live fs m \<Longrightarrow> m \<noteq> n \<Longrightarrow> owned fs' m = owned fs m" "inode_used fs' = inode_used fs"
    using gb n iu by simp_all
  show "live fs' m = live fs m" by (simp add: live_def iu)
  show "live fs m \<Longrightarrow> inode_at fs' m = (if m = n then longer fs n k else inode_at fs m)"
    using at by (simp add: live_def)
qed

lemma extend_dir_cases:
  assumes inv: "fs_inv fs" and n: "live fs n" "length (owned fs n) < FS_N_BLOCKS" "n = unat (d_inode (n_entry parent))"
  obtains (full) "extend_dir fs parent = Some (0, fs)" "free_blocks fs = 0"
    | (got) k where "extend_dir fs parent = Some (of_nat k, extended fs n k)" "data_block k" "\<not> block_used fs k"
        "(of_nat k :: u32) \<noteq> 0" "unat (of_nat k :: u32) = k"
proof -
  note fd = fs_invD [OF inv]
  have no: "inode_no n" using n by (simp add: live_def)
  have gi: "getInode fs (d_inode (n_entry parent)) = Some (Some (inode_at fs n))"
    using getInode_eq [OF mounted_ok [OF fd(1)]] no n(3) by simp
  have s: "sint (d_inode (n_entry parent)) = int n"
    using no n(3) by (subst sint_small) (auto simp: inode_no_def layout_simps)
  show ?thesis
  proof (cases rule: alloc_block_cases [OF fd(1,2)])
    case 1
    then show ?thesis using that(1) gi free_blocks_0 by (simp add: extend_dir_def)
  next
    case (2 k)
    note x = longer_facts [OF inv n(1,2), of k]
    let ?fs2 = "put_inode (mark_block fs k) n (longer fs n k)"
    have kk: "k \<noteq> 0" "k < BLOCKS_PER_GROUP" "k \<le> BLOCKS_PER_GROUP" "k < disk_blocks" using data_blockD [OF 2(2)] by auto
    have "free_blocks fs \<noteq> 0" using free_blocks_mark [OF kk(2) 2(3)] by simp
    then have pos: "1 \<le> unat (sb_freeBlockCount (sb_of ?fs2))" "1 \<le> unat (gd_freeBlocksCount (gd_of ?fs2))"
      using fd(3) by (auto simp: counts_ok_def fs_frame x(1) no)
    have m2: "mounted ?fs2" using fd(1) by simp
    have ins: "insertInodeTable (mark_block fs k) (longer fs n k) (int n) = Some (FS_SUCCESS, ?fs2)"
      using fd(1) x(1) no by (intro insertInodeTable_eq mounted_ok) auto
    obtain fs3 where cnt: "setSbFreeBlockCount ?fs2 (-1) = Some (0, fs3)"
      "setGdFreeBlockCount fs3 (of_nat k) (-1) = Some (0, add_free ?fs2 (-1))"
      using count_less [OF m2 pos kk(1,3)] by blast
    have wr: "fsWr (add_free ?fs2 (-1)) (of_nat k) (replicate MAX_BLOCK_SIZE 0) = Some (0, extended fs n k)"
      unfolding extended_def using kk m2 by (intro fsWr_nat mounted_ok) (auto simp: add_free_simps)
    have "extend_dir fs parent = Some (of_nat k, extended fs n k)"
      using gi 2(1,4) x(4,5) ins cnt wr s by (simp add: extend_dir_def Let_def)
    then show ?thesis using that(2) 2 by blast
  qed
qed

section \<open>Inserting an entry\<close>

definition dir_end :: "Filesystem \<Rightarrow> nat \<Rightarrow> nat option" where
  "dir_end fs n = first_from (\<lambda>g. ended (slot fs n g)) 0 (slots fs n)"

definition free_slot :: "Filesystem \<Rightarrow> nat \<Rightarrow> nat option" where
  "free_slot fs n = (case first_from (\<lambda>g. unused (slot fs n g) \<or> ended (slot fs n g)) 0 (slots fs n) of
     Some g \<Rightarrow> if unused (slot fs n g) then Some g else None | None \<Rightarrow> None)"

lemma wf_slot: "wfDirEntry (slot fs n g)"
  unfolding slot_def by (rule wf_blk_entry) (simp_all add: layout_values)

lemma name_length [simp]: "length (d_name (slot fs n g)) = 11"
  using wf_slot [of fs n g] by (simp add: wfDirEntry_def)

text \<open>The two searches of \<open>insertEntry\<close> do not depend on what lies behind the two-byte name.\<close>

lemma marker_hits:
  assumes "9 \<le> length stk"
  shows "hit (Some ([DIR_ENTRY_FREE, 0] @ stk)) (slot fs n g) \<longleftrightarrow> unused (slot fs n g)"
    and "hit (Some ([DIR_ENTRY_NO_MORE, 0] @ stk)) (slot fs n g) \<longleftrightarrow> ended (slot fs n g)"
proof -
  have "d_name (slot fs n g) ! 0 = c" if "d_name (slot fs n g) = take 11 ([c, 0] @ stk)" for c
    using that by simp
  then show "hit (Some ([DIR_ENTRY_FREE, 0] @ stk)) (slot fs n g) \<longleftrightarrow> unused (slot fs n g)"
    "hit (Some ([DIR_ENTRY_NO_MORE, 0] @ stk)) (slot fs n g) \<longleftrightarrow> ended (slot fs n g)"
    by (auto simp: hit_def unused_def ended_def)
qed

lemma marker_searches:
  assumes "9 \<le> length stk"
  shows "found fs n (Some ([DIR_ENTRY_FREE, 0] @ stk)) = free_slot fs n"
    and "found fs n (Some ([DIR_ENTRY_NO_MORE, 0] @ stk)) = dir_end fs n"
proof -
  show "found fs n (Some ([DIR_ENTRY_FREE, 0] @ stk)) = free_slot fs n"
    unfolding found_def seek_def free_slot_def marker_hits [OF assms] ..
  have "(case dir_end fs n of None \<Rightarrow> None | Some g \<Rightarrow> if ended (slot fs n g) then Some g else None) = dir_end fs n"
  proof (cases "dir_end fs n")
    case (Some g)
    then have "ended (slot fs n g)" by (simp add: dir_end_def first_from_Some_iff)
    with Some show ?thesis by simp
  qed simp
  then show "found fs n (Some ([DIR_ENTRY_NO_MORE, 0] @ stk)) = dir_end fs n"
    unfolding found_def seek_def marker_hits [OF assms] disj_absorb dir_end_def .
qed

lemma slot_ranges:
  "free_slot fs n = Some g \<Longrightarrow> g < slots fs n \<and> unused (slot fs n g)"
  "dir_end fs n = Some g \<Longrightarrow> g < slots fs n \<and> ended (slot fs n g)"
  by (auto simp: free_slot_def dir_end_def first_from_Some_iff split: option.splits if_splits)

definition push_entry :: "Filesystem \<Rightarrow> nat \<Rightarrow> nat \<Rightarrow> DirEntry \<Rightarrow> Filesystem" where
  "push_entry fs n E e = put_slot (put_slot fs n E e) n (Suc E) (slot fs n E)"

lemma insertEntry_reuse:
  assumes inv: "fs_inv fs" "live fs n" "n = unat (d_inode (n_entry parent))" and stk: "9 \<le> length stk"
    and e: "wfDirEntry (n_entry new)" and g: "free_slot fs n = Some g"
  shows "insertEntry stk fs parent new = Some (FS_SUCCESS, new\<lparr> n_location := slot_loc fs n g \<rparr>, put_slot fs n g (n_entry new))"
proof -
  have ok: "name_ok (Some ([DIR_ENTRY_FREE, 0] @ stk))" using stk by (simp add: name_ok_def)
  have r: "g < slots fs n" using slot_ranges(1) [OF g] by simp
  have look: "lookupEntry fs (d_inode (n_entry parent)) (Some ([DIR_ENTRY_FREE, 0] @ stk)) zero_node = Some (FS_SUCCESS, slot_node fs n g)"
    using lookup_found [OF inv(1) inv(2) [unfolded inv(3)] ok, of g] g marker_searches(1) [OF stk] inv(3) by simp
  have "setEntry fs (slot_loc fs n g) (n_entry new) = Some (0, put_slot fs n g (n_entry new))"
    by (rule setEntry_slot [OF inv(1,2) r e]) (simp_all add: slot_loc_def)
  then show ?thesis
    unfolding insertEntry_def by (simp only: look bind.bind_lunit prod.case) (simp add: slot_node_def)
qed

lemma insert_at_end:
  assumes inv: "fs_inv fs" "live fs n" "n = unat (d_inode (n_entry parent))" and stk: "9 \<le> length stk"
    and e: "wfDirEntry (n_entry new)" and none: "free_slot fs n = None" and E: "dir_end fs n = Some E"
  shows "insertEntry stk fs parent new = do {
    let loc = (slot_loc fs n E)\<lparr> l_offset := l_offset (slot_loc fs n E) + 1 \<rparr>;
    let new' = new\<lparr> n_location := slot_loc fs n E \<rparr>;
    let fs' = put_slot fs n E (n_entry new);
    if l_offset loc = of_nat (MAX_BLOCK_SIZE div DIR_ENTRY_SIZE) then do {
      (free_blockNum, fs') \<leftarrow> extend_dir fs' parent;
      if free_blockNum = 0 then Some (FS_ERROR, new', fs')
      else do {
        (_, fs') \<leftarrow> setEntry fs' (loc\<lparr> l_block := free_blockNum, l_offset := 0 \<rparr>) (slot fs n E);
        Some (FS_SUCCESS, new', fs') } }
    else do {
      (_, fs') \<leftarrow> setEntry fs' loc (slot fs n E);
      Some (FS_SUCCESS, new', fs') } }"
proof -
  have ok: "name_ok (Some ([c, 0] @ stk))" for c using stk by (simp add: name_ok_def)
  have r: "E < slots fs n" using slot_ranges(2) [OF E] by simp
  obtain ret where look: "lookupEntry fs (d_inode (n_entry parent)) (Some ([DIR_ENTRY_FREE, 0] @ stk)) zero_node = Some (FS_ERROR, ret)"
    using lookup_missing [OF inv(1) inv(2) [unfolded inv(3)] ok, of DIR_ENTRY_FREE] none marker_searches(1) [OF stk] inv(3) by metis
  have look2: "lookupEntry fs (d_inode (n_entry parent)) (Some ([DIR_ENTRY_NO_MORE, 0] @ stk)) ret = Some (FS_SUCCESS, slot_node fs n E)"
    using lookup_found [OF inv(1) inv(2) [unfolded inv(3)] ok, of DIR_ENTRY_NO_MORE E] E marker_searches(2) [OF stk] inv(3) by simp
  have "setEntry fs (slot_loc fs n E) (n_entry new) = Some (0, put_slot fs n E (n_entry new))"
    by (rule setEntry_slot [OF inv(1,2) r e]) (simp_all add: slot_loc_def)
  then show ?thesis
    unfolding insertEntry_def
    by (simp only: look look2 bind.bind_lunit prod.case) (simp add: slot_node_def layout_values(26,27) Let_def cong: if_cong)
qed

lemma insertEntry_append:
  assumes inv: "fs_inv fs" "live fs n" "n = unat (d_inode (n_entry parent))" and stk: "9 \<le> length stk"
    and e: "wfDirEntry (n_entry new)" and none: "free_slot fs n = None" and E: "dir_end fs n = Some E" "E mod 32 \<noteq> 31"
  shows "insertEntry stk fs parent new =
    Some (FS_SUCCESS, new\<lparr> n_location := slot_loc fs n E \<rparr>, push_entry fs n E (n_entry new))" "Suc E < slots fs n"
proof -
  have r: "E < slots fs n" using slot_ranges(2) [OF E(1)] by simp
  have sq: "Suc E div 32 = E div 32" "Suc E mod 32 = Suc (E mod 32)"
    using E(2) by (simp_all add: div_Suc mod_Suc)
  show r': "Suc E < slots fs n"
  proof -
    have "E div 32 < length (owned fs n)" by (rule slot_block [OF r])
    then have "Suc E div 32 < length (owned fs n)" by (simp add: sq)
    then show ?thesis by (simp add: slots_def div_less_iff_less_mult mult.commute)
  qed
  let ?fs = "put_slot fs n E (n_entry new)"
  let ?loc = "(slot_loc fs n E)\<lparr> l_offset := l_offset (slot_loc fs n E) + 1 \<rparr>"
  note f = put_slot_frame [OF inv(1,2) r e]
  have "setEntry ?fs ?loc (slot fs n E) = Some (0, push_entry fs n E (n_entry new))"
    unfolding push_entry_def
    by (rule setEntry_slot) (use f inv r' sq in \<open>auto simp: slots_def wf_slot slot_loc_def\<close>)
  moreover have "l_offset ?loc \<noteq> of_nat (MAX_BLOCK_SIZE div DIR_ENTRY_SIZE)"
  proof -
    have "unat (of_nat (Suc (E mod 32)) :: u32) = Suc (E mod 32)" by (intro unat_le_of_nat) (simp add: Suc_le_eq)
    then have "(of_nat (Suc (E mod 32)) :: u32) \<noteq> 32" using E(2) by (auto dest: arg_cong [of _ _ unat])
    then show ?thesis by (simp add: slot_loc_def layout_values add.commute)
  qed
  ultimately show "insertEntry stk fs parent new =
    Some (FS_SUCCESS, new\<lparr> n_location := slot_loc fs n E \<rparr>, push_entry fs n E (n_entry new))"
    by (simp add: insert_at_end [OF inv stk e none E(1)] Let_def)
qed

definition push_block :: "Filesystem \<Rightarrow> nat \<Rightarrow> nat \<Rightarrow> DirEntry \<Rightarrow> nat \<Rightarrow> Filesystem" where
  "push_block fs n E e k = put_entry (extended (put_slot fs n E e) n k) k 0 (slot fs n E)"

lemma insertEntry_extend:
  assumes inv: "fs_inv fs" "live fs n" "n = unat (d_inode (n_entry parent))" and stk: "9 \<le> length stk"
    and e: "wfDirEntry (n_entry new)" and none: "free_slot fs n = None" and E: "dir_end fs n = Some E" "E mod 32 = 31"
    and room: "length (owned fs n) < FS_N_BLOCKS"
  obtains (full) "insertEntry stk fs parent new =
      Some (FS_ERROR, new\<lparr> n_location := slot_loc fs n E \<rparr>, put_slot fs n E (n_entry new))" "free_blocks fs = 0"
    | (got) k where "insertEntry stk fs parent new =
        Some (FS_SUCCESS, new\<lparr> n_location := slot_loc fs n E \<rparr>, push_block fs n E (n_entry new) k)"
        "data_block k" "\<not> block_used fs k" "unat (of_nat k :: u32) = k"
proof -
  have r: "E < slots fs n" using slot_ranges(2) [OF E(1)] by simp
  let ?fs = "put_slot fs n E (n_entry new)"
  let ?loc = "(slot_loc fs n E)\<lparr> l_offset := l_offset (slot_loc fs n E) + 1 \<rparr>"
  note f = put_slot_frame [OF inv(1,2) r e]
  have off: "l_offset ?loc = of_nat (MAX_BLOCK_SIZE div DIR_ENTRY_SIZE)"
    using E(2) by (simp add: slot_loc_def layout_values)
  have pre: "fs_inv ?fs" "live ?fs n" "length (owned ?fs n) < FS_N_BLOCKS" using f inv room by simp_all
  show ?thesis
  proof (cases rule: extend_dir_cases [OF pre inv(3)])
    case 1
    then show ?thesis using that(1) f off by (simp add: insert_at_end [OF inv stk e none E(1)] Let_def)
  next
    case (2 k)
    have x: "fs_inv (extended ?fs n k)" by (rule extended_facts(1) [OF pre 2(2,3)])
    have "setEntry (extended ?fs n k) (?loc\<lparr> l_block := of_nat k, l_offset := 0 \<rparr>) (slot fs n E) =
        Some (0, push_block fs n E (n_entry new) k)"
      unfolding push_block_def
      using setEntry_eq [of "extended ?fs n k" "?loc\<lparr> l_block := of_nat k, l_offset := 0 \<rparr>" "slot fs n E"]
        mounted_ok [OF fs_invD(1) [OF x]] 2(5) data_blockD(5) [OF 2(2)] wf_slot by simp
    then show ?thesis
      using that(2) [of k] 2 f(6) off by (simp add: insert_at_end [OF inv stk e none E(1)] Let_def)
  qed
qed

end
