(* ===== verification/Fs_Ops.thy ===== *)
theory Fs_Ops
  imports Fs_Slots
begin

text \<open>
  Creation and removal of files and directories (\<open>src/fs/fs.c\<close>).
\<close>

section \<open>Creation\<close>

definition fsCreate :: "bytes \<Rightarrow> Filesystem \<Rightarrow> FsNode \<Rightarrow> bytes \<Rightarrow> FsNode \<Rightarrow> (int \<times> FsNode \<times> Filesystem) option" where
  "fsCreate stk fs parent entryName ret =
    (if gd_freeInodesCount (fs_gd fs) = 0 then Some (FS_ERROR, ret, fs)
     else do {
       copied \<leftarrow> strncpy (Some (replicate MAX_NAME_LENGTH 0)) (Some entryName) (MAX_NAME_LENGTH - 1);
       name \<leftarrow> copied;
       (r, name) \<leftarrow> formatName name;
       if r = FS_ERROR then Some (FS_ERROR, ret, fs)
       else do {
         (r, ret) \<leftarrow> fsLookup fs parent name zero_node;
         if r = FS_SUCCESS then Some (FS_ERROR, ret, fs)
         else do {
           (freeInode, fs) \<leftarrow> getFreeInodeNumber fs;
           (free_data_block, fs) \<leftarrow> getFreeBlockNumber fs;
           if freeInode = 0 \<or> free_data_block = 0 then Some (FS_ERROR, ret, fs)
           else do {
             (_, fs) \<leftarrow> setSbFreeBlockCount fs (-1);
             (_, fs) \<leftarrow> setSbFreeInodeCount fs (-1);
             (_, fs) \<leftarrow> setGdFreeBlockCount fs free_data_block (-1);
             (_, fs) \<leftarrow> setGdFreeInodeCount fs freeInode (-1);
             bl \<leftarrow> upd (i_block zero_inode) 0 free_data_block;
             let inode_entry = zero_inode\<lparr> i_block := bl, i_mode := USER_PERMISSION OR 0x2000,
               i_blocks := 1, i_size := 0 \<rparr>;
             (_, fs) \<leftarrow> insertInodeTable fs inode_entry (sint freeInode);
             nm \<leftarrow> memcpy (d_name (n_entry ret)) name MAX_ENTRY_NAME_LENGTH;
             len \<leftarrow> my_strnlen nm MAX_ENTRY_NAME_LENGTH;
             let ret = ret\<lparr> n_entry := (n_entry ret)\<lparr> d_name := nm, d_nameLen := of_nat len, d_inode := freeInode \<rparr> \<rparr>;
             (_, ret, fs) \<leftarrow> insertEntry stk fs parent ret;
             Some (FS_SUCCESS, ret, fs) } } } })"

text \<open>
  \<open>fsMkdir\<close>. The length stored in the entry is that of the C string that starts at the name, which
  runs on into the (zero) fields behind it.
\<close>

definition entry_name_string :: "DirEntry \<Rightarrow> bytes" where
  "entry_name_string e = d_name e @ le32 (d_nameLen e) @ d_pad e"

definition fsMkdir :: "bytes \<Rightarrow> Filesystem \<Rightarrow> FsNode \<Rightarrow> bytes \<Rightarrow> FsNode \<Rightarrow> (int \<times> FsNode \<times> Filesystem) option" where
  "fsMkdir stk fs parent entryName ret = do {
     copied \<leftarrow> strncpy (Some (replicate MAX_NAME_LENGTH 0)) (Some entryName) (MAX_NAME_LENGTH - 1);
     name \<leftarrow> copied;
     (r, name) \<leftarrow> formatName name;
     if r = FS_ERROR then Some (FS_ERROR, ret, fs)
     else do {
       (freeInode, fs) \<leftarrow> getFreeInodeNumber fs;
       (free_data_block, fs) \<leftarrow> getFreeBlockNumber fs;
       if freeInode = 0 \<or> free_data_block = 0 then Some (FS_ERROR, ret, fs)
       else do {
         (_, fs) \<leftarrow> setSbFreeBlockCount fs (-1);
         (_, fs) \<leftarrow> setSbFreeInodeCount fs (-1);
         (_, fs) \<leftarrow> setGdFreeBlockCount fs free_data_block (-1);
         (_, fs) \<leftarrow> setGdFreeInodeCount fs freeInode (-1);
         let ret = zero_node;
         nm \<leftarrow> memcpy (d_name (n_entry ret)) name MAX_ENTRY_NAME_LENGTH;
         len \<leftarrow> strlen (entry_name_string ((n_entry ret)\<lparr> d_name := nm \<rparr>));
         let ret = ret\<lparr> n_entry := (n_entry ret)\<lparr> d_name := nm, d_nameLen := of_nat len, d_inode := freeInode \<rparr> \<rparr>;
         (result, ret, fs) \<leftarrow> insertEntry stk fs parent ret;
         if result = FS_ERROR then Some (FS_ERROR, ret, fs)
         else do {
           bl \<leftarrow> upd (i_block zero_inode) 0 free_data_block;
           let inode_entry = zero_inode\<lparr> i_block := bl, i_mode := USER_PERMISSION OR FILE_TYPE_DIR,
             i_blocks := 1, i_size := 0 \<rparr>;
           (_, fs) \<leftarrow> insertInodeTable fs inode_entry (sint freeInode);
           let dotNode = zero_node\<lparr> n_entry := zero_entry\<lparr> d_name := dot_name, d_inode := d_inode (n_entry ret) \<rparr> \<rparr>;
           (_, _, fs) \<leftarrow> insertEntry stk fs ret dotNode;
           let dotdotNode = zero_node\<lparr> n_entry := zero_entry\<lparr> d_name := dotdot_name, d_inode := d_inode (n_entry parent) \<rparr> \<rparr>;
           (_, _, fs) \<leftarrow> insertEntry stk fs ret dotdotNode;
           Some (FS_SUCCESS, ret, fs) } } } }"

section \<open>Removal\<close>

text \<open>The loop over the blocks that \<open>fsRemove\<close> and \<open>fsRmdir\<close> share: zero the block, count it, clear its bit.\<close>

function free_inode_blocks :: "Filesystem \<Rightarrow> Inode \<Rightarrow> nat \<Rightarrow> Filesystem option" where
  "free_inode_blocks fs inode i =
    (if i < unat (i_blocks inode) then
       (if i < FS_D_BLOCKS then do {
          b \<leftarrow> idx (i_block inode) i;
          (_, fs) \<leftarrow> fsWr fs b (replicate MAX_BLOCK_SIZE 0);
          (_, fs) \<leftarrow> setGdFreeBlockCount fs b 1;
          (_, fs) \<leftarrow> setSbFreeBlockCount fs 1;
          (_, fs) \<leftarrow> clear_block_bit fs (replicate MAX_BLOCK_SIZE 0) b;
          free_inode_blocks fs inode (Suc i) }
        else free_inode_blocks fs inode (Suc i))
     else Some fs)"
  by pat_completeness auto
termination
  by (relation "measure (\<lambda>(fs, inode, i). unat (i_blocks inode) - i)") auto

declare free_inode_blocks.simps [simp del]

text \<open>The rest of both: the directory entry, the inode, its bitmap bit and the inode counters.\<close>

definition drop_entry_and_inode :: "Filesystem \<Rightarrow> DirEntryLocation \<Rightarrow> (int \<times> Filesystem) option" where
  "drop_entry_and_inode fs location = do {
     (_, block) \<leftarrow> fsRd fs (l_block location) [];
     dir \<leftarrow> struct_at DIR_ENTRY_SIZE decDirEntry block (unat (l_offset location));
     let inodenum = sint (d_inode dir);
     let groupnum = inodenum sdiv int INODES_PER_GROUP;
     block \<leftarrow> struct_put DIR_ENTRY_SIZE encDirEntry block (unat (l_offset location)) zero_entry;
     (_, fs) \<leftarrow> fsWr fs (l_block location) block;
     nm \<leftarrow> upd (d_name zero_entry) 0 DIR_ENTRY_FREE;
     (_, fs) \<leftarrow> setEntry fs location (zero_entry\<lparr> d_name := nm \<rparr>);
     (_, fs) \<leftarrow> insertInodeTable fs zero_inode inodenum;
     let target = word_of_int (groupnum * int BLOCKS_PER_GROUP + int INODE_BITMAP_BASE);
     (_, block) \<leftarrow> fsRd fs target block;
     block \<leftarrow> setZeroBit (word_of_int (inodenum smod int INODES_PER_GROUP - 1)) block;
     (_, fs) \<leftarrow> fsWr fs target block;
     (_, fs) \<leftarrow> setSbFreeInodeCount fs 1;
     (_, fs) \<leftarrow> setGdFreeInodeCount fs (word_of_int inodenum) 1;
     Some (FS_SUCCESS, fs) }"

definition fsRemove :: "Filesystem \<Rightarrow> FsNode \<Rightarrow> FsNode \<Rightarrow> (int \<times> Filesystem) option" where
  "fsRemove fs parent rmfile = do {
     got \<leftarrow> getInode fs (d_inode (n_entry rmfile));
     inodeBuffer \<leftarrow> got;
     if i_mode inodeBuffer AND FILE_TYPE_DIR \<noteq> 0 then Some (FS_ERROR, fs)
     else do {
       fs \<leftarrow> free_inode_blocks fs inodeBuffer 0;
       drop_entry_and_inode fs (n_location rmfile) } }"

definition fsRmdir :: "Filesystem \<Rightarrow> FsNode \<Rightarrow> FsNode \<Rightarrow> (int \<times> Filesystem) option" where
  "fsRmdir fs parent rmdir = do {
     got \<leftarrow> getInode fs (d_inode (n_entry rmdir));
     inodeBuffer \<leftarrow> got;
     if i_mode inodeBuffer AND FILE_TYPE_DIR = 0 then Some (FS_ERROR, fs)
     else do {
       (r, _) \<leftarrow> lookupEntry fs (d_inode (n_entry rmdir)) None zero_node;
       if r = FS_SUCCESS then Some (FS_ERROR, fs)
       else do {
         fs \<leftarrow> free_inode_blocks fs inodeBuffer 0;
         drop_entry_and_inode fs (n_location rmdir) } } }"

end
