(* ===== verification/Fs_Format.thy ===== *)
theory Fs_Format
  imports Fs_Ops
begin

text \<open>
  Formatting and mounting (\<open>src/fs/fs.c\<close>). Two copies read past the end of a structure: a whole
  block is copied from the 1020-byte super block and from the 32-byte descriptor table. What lies
  behind them in memory is an argument of the model (\<open>behind_sb\<close>, \<open>behind_gdt\<close>).
\<close>

section \<open>Formatting\<close>

definition fillSuperBlock :: SuperBlock where
  "fillSuperBlock =
    (let sb = decSuperBlock (replicate SUPER_BLOCK_SIZE 0);
         first = (of_nat (1 + BLOCK_NUM_GDT_PER_GROUP + 1 + 1 +
           (INODES_PER_GROUP * INODE_SIZE + (MAX_BLOCK_SIZE - 1)) div MAX_BLOCK_SIZE) :: u32)
     in sb\<lparr> sb_maxInodeCount := of_nat NUMBER_OF_INODES,
          sb_firstDataBlockEachGroup := first,
          sb_blockCount := of_nat NUMBER_OF_BLOCK,
          sb_reservedBlockCount := of_nat NUMBER_OF_BLOCK div 100 * 5,
          sb_freeBlockCount := of_nat NUMBER_OF_BLOCK - first - 1,
          sb_freeInodeCount := of_nat (NUMBER_OF_INODES - 11),
          sb_firstDataBlock := of_nat SUPER_BLOCK_BASE,
          sb_logBlockSize := 0,
          sb_logFragmentationSize := 0,
          sb_blockPerGroup := of_nat BLOCKS_PER_GROUP,
          sb_fragmentationPerGroup := 0,
          sb_inodePerGroup := of_nat (NUMBER_OF_INODES div NUMBER_OF_GROUPS),
          sb_magicSignature := 0xEF53,
          sb_errors := 0,
          sb_firstNonReservedInode := 11,
          sb_inodeStructureSize := 128 \<rparr>)"

definition fillDescriptor :: "SuperBlock \<Rightarrow> nat \<Rightarrow> GroupDescriptor" where
  "fillDescriptor sb i = (decGroupDescriptor (replicate GROUP_DESCRIPTOR_SIZE 0))\<lparr>
     gd_startBlockOfBlockBitmap := of_nat (BLOCK_BITMAP_BASE + BLOCKS_PER_GROUP * i),
     gd_startBlockOfInodeBitmap := of_nat (BLOCK_BITMAP_BASE + BLOCKS_PER_GROUP * i + 1),
     gd_startBlockOfInodeTable := of_nat (BLOCK_BITMAP_BASE + BLOCKS_PER_GROUP * i + 1 + 1),
     gd_freeBlocksCount := ucast (sb_freeBlockCount sb div of_nat NUMBER_OF_GROUPS),
     gd_freeInodesCount := ucast (sb_freeInodeCount sb div of_nat NUMBER_OF_GROUPS),
     gd_directoriesCount := 0 \<rparr>"

definition fillDescriptorTable :: "SuperBlock \<Rightarrow> GroupDescriptor list" where
  "fillDescriptorTable sb = map (fillDescriptor sb) [0..<NUMBER_OF_GROUPS]"

definition initSuperBlock :: "bytes \<Rightarrow> Disk \<Rightarrow> SuperBlock \<Rightarrow> u32 \<Rightarrow> Disk option" where
  "initSuperBlock behind_sb d sb groupNumber = do {
     block \<leftarrow> memcpy (replicate MAX_BLOCK_SIZE 0) (encSuperBlock sb @ behind_sb) MAX_BLOCK_SIZE;
     (_, d) \<leftarrow> blockWrite d (of_nat SUPER_BLOCK_BASE + groupNumber * of_nat BLOCKS_PER_GROUP) block;
     (_, _) \<leftarrow> blockRead d (of_nat SUPER_BLOCK_BASE + groupNumber * of_nat BLOCKS_PER_GROUP)
       (replicate MAX_BLOCK_SIZE 0);
     Some d }"

fun initFsGdt_loop :: "bytes \<Rightarrow> u32 \<Rightarrow> nat list \<Rightarrow> Disk \<Rightarrow> Disk option" where
  "initFsGdt_loop gdt_bytes groupNumber [] d = Some d"
| "initFsGdt_loop gdt_bytes groupNumber (k # ks) d = do {
     block \<leftarrow> memcpy (replicate MAX_BLOCK_SIZE 0) (drop (k * MAX_BLOCK_SIZE) gdt_bytes) MAX_BLOCK_SIZE;
     (_, d) \<leftarrow> blockWrite d (of_nat GDT_BASE + groupNumber * of_nat BLOCKS_PER_GROUP + of_nat k) block;
     initFsGdt_loop gdt_bytes groupNumber ks d }"

definition initFsGdt :: "bytes \<Rightarrow> Disk \<Rightarrow> GroupDescriptor list \<Rightarrow> u32 \<Rightarrow> Disk option" where
  "initFsGdt behind_gdt d gdt groupNumber =
     initFsGdt_loop (concat (map encGroupDescriptor gdt) @ behind_gdt) groupNumber
       [0..<BLOCK_NUM_GDT_PER_GROUP] d"

fun set_bits :: "nat list \<Rightarrow> bytes \<Rightarrow> bytes option" where
  "set_bits [] block = Some block"
| "set_bits (i # is) block = do { block \<leftarrow> setBit (of_nat i) block; set_bits is block }"

definition initBlockBitmap :: "Disk \<Rightarrow> u32 \<Rightarrow> Disk option" where
  "initBlockBitmap d groupNumber = do {
     block \<leftarrow> set_bits [0..<DATA_BLOCK_BASE] (replicate MAX_BLOCK_SIZE 0);
     (_, d) \<leftarrow> blockWrite d (of_nat BLOCK_BITMAP_BASE + groupNumber * of_nat BLOCKS_PER_GROUP) block;
     Some d }"

definition initInodeBitmap :: "Disk \<Rightarrow> u32 \<Rightarrow> Disk option" where
  "initInodeBitmap d groupNumber = do {
     block \<leftarrow> set_bits [0..<10] (replicate MAX_BLOCK_SIZE 0);
     (_, d) \<leftarrow> blockWrite d (of_nat INODE_BITMAP_BASE + groupNumber * of_nat BLOCKS_PER_GROUP) block;
     Some d }"

text \<open>\<open>init_data_block\<close> is defined in the source and not called there.\<close>

definition init_data_block :: "Disk \<Rightarrow> u32 \<Rightarrow> Disk option" where
  "init_data_block d groupNumber = do {
     (_, d) \<leftarrow> blockWrite d (of_nat DATA_BLOCK_BASE + groupNumber * of_nat BLOCKS_PER_GROUP)
       (replicate MAX_BLOCK_SIZE 0);
     Some d }"

definition root_dir_block :: "bytes option" where
  "root_dir_block = do {
     block \<leftarrow> struct_put DIR_ENTRY_SIZE encDirEntry (replicate MAX_BLOCK_SIZE 0) 0
       (zero_entry\<lparr> d_name := dotdot_name, d_inode := NUM_OF_ROOT_INODE, d_nameLen := 2 \<rparr>);
     block \<leftarrow> struct_put DIR_ENTRY_SIZE encDirEntry block 1
       (zero_entry\<lparr> d_name := dot_name, d_inode := NUM_OF_ROOT_INODE, d_nameLen := 1 \<rparr>);
     entry \<leftarrow> struct_at DIR_ENTRY_SIZE decDirEntry block 2;
     nm \<leftarrow> upd (d_name entry) 0 DIR_ENTRY_NO_MORE;
     struct_put DIR_ENTRY_SIZE encDirEntry block 2 (entry\<lparr> d_name := nm \<rparr>) }"

fun root_sb_loop :: "nat list \<Rightarrow> bytes \<Rightarrow> Disk \<Rightarrow> (bytes \<times> Disk) option" where
  "root_sb_loop [] block d = Some (block, d)"
| "root_sb_loop (gi # gs) block d = do {
     (_, block) \<leftarrow> blockRead d (of_nat (BLOCKS_PER_GROUP * gi + SUPER_BLOCK_BASE)) block;
     sb \<leftarrow> struct_at SUPER_BLOCK_SIZE decSuperBlock block 0;
     block \<leftarrow> struct_put SUPER_BLOCK_SIZE encSuperBlock block 0
       (sb\<lparr> sb_freeBlockCount := sb_freeBlockCount sb - 1 \<rparr>);
     (_, d) \<leftarrow> blockWrite d (of_nat (BLOCKS_PER_GROUP * gi + SUPER_BLOCK_BASE)) block;
     root_sb_loop gs block d }"

fun root_gd_loop :: "nat list \<Rightarrow> bytes \<Rightarrow> Disk \<Rightarrow> Disk option" where
  "root_gd_loop [] block d = Some d"
| "root_gd_loop (gi # gs) block d = do {
     (_, d) \<leftarrow> blockWrite d (of_nat (BLOCKS_PER_GROUP * gi + GDT_BASE)) block;
     root_gd_loop gs block d }"

definition root_inode :: "Inode option" where
  "root_inode = do {
     bl \<leftarrow> upd (i_block zero_inode) 0 (of_nat DATA_BLOCK_BASE);
     Some (zero_inode\<lparr> i_mode := 0x1FF OR 0x4000, i_size := 0, i_blocks := 1, i_block := bl \<rparr>) }"

definition createRoot :: "Disk \<Rightarrow> SuperBlock \<Rightarrow> Disk option" where
  "createRoot d sb = do {
     block \<leftarrow> root_dir_block;
     let rootBlock = 1 + sb_firstDataBlockEachGroup sb;
     (_, d) \<leftarrow> blockWrite d rootBlock block;
     (block, d) \<leftarrow> root_sb_loop [0..<NUMBER_OF_GROUPS] block d;
     (_, block) \<leftarrow> blockRead d (of_nat GDT_BASE) block;
     gd \<leftarrow> struct_at GROUP_DESCRIPTOR_SIZE decGroupDescriptor block 0;
     block \<leftarrow> struct_put GROUP_DESCRIPTOR_SIZE encGroupDescriptor block 0
       (gd\<lparr> gd_freeBlocksCount := gd_freeBlocksCount gd - 1, gd_directoriesCount := 1 \<rparr>);
     d \<leftarrow> root_gd_loop [0..<NUMBER_OF_GROUPS] block d;
     (_, block) \<leftarrow> blockRead d (of_nat BLOCK_BITMAP_BASE) block;
     block \<leftarrow> setBit rootBlock block;
     (_, d) \<leftarrow> blockWrite d (of_nat BLOCK_BITMAP_BASE) block;
     ip \<leftarrow> root_inode;
     block \<leftarrow> struct_put INODE_SIZE encInode (replicate MAX_BLOCK_SIZE 0) 1 ip;
     (_, d) \<leftarrow> blockWrite d (of_nat INODE_TABLE_BASE) block;
     Some d }"

fun format_groups :: "bytes \<Rightarrow> bytes \<Rightarrow> GroupDescriptor list \<Rightarrow> nat list \<Rightarrow> SuperBlock \<Rightarrow> Disk \<Rightarrow> (SuperBlock \<times> Disk) option" where
  "format_groups behind_sb behind_gdt gdt [] sb d = Some (sb, d)"
| "format_groups behind_sb behind_gdt gdt (i # is) sb d = do {
     let sb = sb\<lparr> sb_blockGroupNumber := of_nat i \<rparr>;
     d \<leftarrow> initSuperBlock behind_sb d sb (of_nat i);
     d \<leftarrow> initFsGdt behind_gdt d gdt (of_nat i);
     d \<leftarrow> initBlockBitmap d (of_nat i);
     d \<leftarrow> initInodeBitmap d (of_nat i);
     format_groups behind_sb behind_gdt gdt is sb d }"

definition fsFormat :: "bytes \<Rightarrow> bytes \<Rightarrow> Disk \<Rightarrow> (int \<times> Disk) option" where
  "fsFormat behind_sb behind_gdt d = do {
     let sb = fillSuperBlock;
     let gdt = fillDescriptorTable sb;
     (sb, d) \<leftarrow> format_groups behind_sb behind_gdt gdt [0..<NUMBER_OF_GROUPS] sb d;
     d \<leftarrow> createRoot d sb;
     Some (FS_SUCCESS, d) }"

section \<open>Mounting\<close>

definition validateSb :: "bytes \<Rightarrow> int option" where
  "validateSb block = do {
     sb \<leftarrow> struct_at SUPER_BLOCK_SIZE decSuperBlock block 0;
     Some (if sb_magicSignature sb \<noteq> 0xEF53 then FS_ERROR else FS_SUCCESS) }"

definition readRootBlock :: "Filesystem \<Rightarrow> bytes \<Rightarrow> (int \<times> bytes) option" where
  "readRootBlock fs block = do {
     got \<leftarrow> getInode fs 2;
     inodeBuffer \<leftarrow> got;
     rootBlock \<leftarrow> idx (i_block inodeBuffer) 0;
     fsRd fs rootBlock block }"

text \<open>
  \<open>readSuperblock\<close>. Both pointers are tested. The message that is then printed shows them, and dereferences
  the file system object for it: with no object the behaviour is undefined, with an object whose disk pointer is null the
  result is an error. The entry of the root node is a local structure of which
  only three fields are set; its initial bytes are the argument \<open>entry0\<close>. The copy of a whole block
  into the super block spills four bytes into the descriptor behind it, which is overwritten next.
\<close>

datatype fs_pointer = No_Filesystem | No_Disk Filesystem | On_Disk Filesystem

definition readSuperblock :: "DirEntry \<Rightarrow> fs_pointer \<Rightarrow> (int \<times> FsNode option \<times> Filesystem) option" where
  "readSuperblock entry0 fsp = (case fsp of
     No_Filesystem \<Rightarrow> None
   | No_Disk fs \<Rightarrow> Some (FS_ERROR, None, fs)
   | On_Disk fs \<Rightarrow> do {
     (r, block) \<leftarrow> fsRd fs (of_nat SUPER_BLOCK_BASE) [];
     if r \<noteq> 0 then Some (FS_ERROR, None, fs)
     else do {
       v \<leftarrow> validateSb block;
       if v \<noteq> 0 then Some (FS_ERROR, None, fs)
       else do {
         let fs = fs\<lparr> fs_sb := decSuperBlock block \<rparr>;
         (_, block) \<leftarrow> fsRd fs (of_nat GDT_BASE) (replicate MAX_BLOCK_SIZE 0);
         gd \<leftarrow> struct_at GROUP_DESCRIPTOR_SIZE decGroupDescriptor block 0;
         let fs = fs\<lparr> fs_gd := gd \<rparr>;
         (r, block) \<leftarrow> readRootBlock fs (replicate MAX_BLOCK_SIZE 0);
         if r \<noteq> 0 then Some (FS_ERROR, None, fs)
         else do {
           nm \<leftarrow> upd (d_name entry0) 0 47;
           let entry = entry0\<lparr> d_inode := 2, d_nameLen := 1, d_name := nm \<rparr>;
           let location = \<lparr> l_group = 0, l_block = of_nat DATA_BLOCK_BASE, l_offset = 0 \<rparr>;
           Some (FS_SUCCESS, Some \<lparr> n_entry = entry, n_location = location \<rparr>, fs) } } } })"

section \<open>What formatting writes\<close>

lemma blockRead_nat: "disk_ok d \<Longrightarrow> k < disk_blocks \<Longrightarrow> length buf \<le> MAX_BLOCK_SIZE \<Longrightarrow>
    blockRead d (of_nat k) buf = Some (0, dblock d k)"
  by (simp add: blk.rd_content unat_le_of_nat layout_simps)

lemma blockWrite_nat: "disk_ok d \<Longrightarrow> k < disk_blocks \<Longrightarrow> length bs = MAX_BLOCK_SIZE \<Longrightarrow>
    blockWrite d (of_nat k) bs = Some (0, put_block d k bs)"
  by (simp add: blk.wr_put unat_le_of_nat layout_simps)

lemma one_group: "[0..<NUMBER_OF_GROUPS] = [0]" "[0..<BLOCK_NUM_GDT_PER_GROUP] = [0]"
  by (simp_all add: layout_simps)

lemma set_bits_eq:
  "\<forall>i\<in>set is. i < 8 * length bm \<and> i < 2 ^ 32 \<Longrightarrow> set_bits is bm = Some (fold or_bit is bm)"
  by (induction "is" arbitrary: bm) (auto simp: setBit_eq unat_le_of_nat bm_simps)

lemma wf_fill: "wfSuperBlock fillSuperBlock" "wfGroupDescriptor (fillDescriptor sb i)"
  using wf_zero_structs(1,2)
  by (simp_all add: fillSuperBlock_def fillDescriptor_def Let_def wfSuperBlock_def wfGroupDescriptor_def)

lemma fill_values:
  "sb_freeBlockCount fillSuperBlock = 7675" "sb_freeInodeCount fillSuperBlock = 4085"
  "sb_firstDataBlockEachGroup fillSuperBlock = 516" "sb_magicSignature fillSuperBlock = 0xEF53"
  "sb_inodePerGroup fillSuperBlock = 4096" "sb_blockPerGroup fillSuperBlock = 8192"
  "gd_freeBlocksCount (fillDescriptor fillSuperBlock i) = 7675"
  "gd_freeInodesCount (fillDescriptor fillSuperBlock i) = 4085"
  by (simp_all add: fillSuperBlock_def fillDescriptor_def Let_def layout_simps)

definition format_sb :: SuperBlock where
  "format_sb = fillSuperBlock\<lparr> sb_blockGroupNumber := 0, sb_freeBlockCount := 7674 \<rparr>"

definition format_gd :: GroupDescriptor where
  "format_gd = (fillDescriptor fillSuperBlock 0)\<lparr> gd_freeBlocksCount := 7674, gd_directoriesCount := 1 \<rparr>"

definition format_block_bitmap :: bytes where
  "format_block_bitmap = or_bit 517 (fold or_bit [0..<517] (replicate MAX_BLOCK_SIZE 0))"

definition format_inode_bitmap :: bytes where
  "format_inode_bitmap = fold or_bit [0..<10] (replicate MAX_BLOCK_SIZE 0)"

lemma length_bitmaps: "length format_block_bitmap = MAX_BLOCK_SIZE" "length format_inode_bitmap = MAX_BLOCK_SIZE"
  by (simp_all add: format_block_bitmap_def format_inode_bitmap_def bm_simps)

lemma initBlockBitmap_eq:
  assumes "disk_ok d"
  shows "initBlockBitmap d 0 = Some (put_block d 3 (fold or_bit [0..<517] (replicate MAX_BLOCK_SIZE 0)))"
proof -
  have "set_bits [0..<517] (replicate MAX_BLOCK_SIZE 0) = Some (fold or_bit [0..<517] (replicate MAX_BLOCK_SIZE 0))"
    by (rule set_bits_eq) (simp add: layout_values(3))
  then show ?thesis
    unfolding initBlockBitmap_def layout_values(20-25)
    using blockWrite_nat [OF assms, of 3] by (simp add: layout_simps(22) disk_blocks_value)
qed

lemma initInodeBitmap_eq:
  assumes "disk_ok d"
  shows "initInodeBitmap d 0 = Some (put_block d 4 format_inode_bitmap)"
proof -
  have "set_bits [0..<10] (replicate MAX_BLOCK_SIZE 0) = Some format_inode_bitmap"
    unfolding format_inode_bitmap_def by (rule set_bits_eq) (simp add: layout_values(3))
  then show ?thesis
    unfolding initInodeBitmap_def layout_values(20-25)
    using blockWrite_nat [OF assms, of 4] by (simp add: length_bitmaps disk_blocks_value)
qed

lemma initSuperBlock_eq:
  assumes "disk_ok d" and "wfSuperBlock sb" and "4 \<le> length behind"
  shows "initSuperBlock behind d sb 0 = Some (put_block d 1 (encSuperBlock sb @ take 4 behind))"
proof -
  have len: "length (encSuperBlock sb) = 1020" using super_codec.enc_length [OF assms(2)] by (simp add: layout_simps)
  then have "memcpy (replicate MAX_BLOCK_SIZE 0) (encSuperBlock sb @ behind) MAX_BLOCK_SIZE =
      Some (encSuperBlock sb @ take 4 behind)"
    using assms(3) by (simp add: memcpy_eq layout_values(3))
  then show ?thesis
    unfolding initSuperBlock_def layout_values(18-25)
    using blockWrite_nat [OF assms(1), of 1] blockRead_nat [of "put_block d 1 (encSuperBlock sb @ take 4 behind)" 1] assms len
    by (simp add: disk_blocks_value layout_values(3))
qed

lemma initFsGdt_eq:
  assumes "disk_ok d" and "wfGroupDescriptor gd" and "992 \<le> length behind"
  shows "initFsGdt behind d [gd] 0 = Some (put_block d 2 (encGroupDescriptor gd @ take 992 behind))"
proof -
  have len: "length (encGroupDescriptor gd) = 32" using group_codec.enc_length [OF assms(2)] by (simp add: layout_simps)
  then have "memcpy (replicate MAX_BLOCK_SIZE 0) (encGroupDescriptor gd @ behind) MAX_BLOCK_SIZE =
      Some (encGroupDescriptor gd @ take 992 behind)"
    using assms(3) by (simp add: memcpy_eq layout_values(3))
  then show ?thesis
    unfolding initFsGdt_def one_group
    using blockWrite_nat [OF assms(1), of 2] assms len
    by (simp add: disk_blocks_value layout_values(3,19))
qed

lemma format_groups_eq:
  assumes "disk_ok d" and "4 \<le> length behind_sb" and "992 \<le> length behind_gdt"
  defines "sb \<equiv> fillSuperBlock\<lparr> sb_blockGroupNumber := 0 \<rparr>"
  shows "format_groups behind_sb behind_gdt (fillDescriptorTable fillSuperBlock) [0..<NUMBER_OF_GROUPS] fillSuperBlock d =
    Some (sb, put_block (put_block (put_block (put_block d 1 (encSuperBlock sb @ take 4 behind_sb))
        2 (encGroupDescriptor (fillDescriptor fillSuperBlock 0) @ take 992 behind_gdt))
        3 (fold or_bit [0..<517] (replicate MAX_BLOCK_SIZE 0))) 4 format_inode_bitmap)"
proof -
  have wf: "wfSuperBlock sb" using wf_fill(1) by (simp add: sb_def wfSuperBlock_def)
  have tbl: "fillDescriptorTable fillSuperBlock = [fillDescriptor fillSuperBlock 0]"
    unfolding fillDescriptorTable_def one_group by simp
  show ?thesis
    unfolding tbl one_group using assms(1-3) wf
    by (simp add: sb_def [symmetric] initSuperBlock_eq initFsGdt_eq initBlockBitmap_eq initInodeBitmap_eq wf_fill)
qed

section \<open>The root directory\<close>

definition root_dotdot :: DirEntry where
  "root_dotdot = zero_entry\<lparr> d_name := dotdot_name, d_inode := NUM_OF_ROOT_INODE, d_nameLen := 2 \<rparr>"

definition root_dot :: DirEntry where
  "root_dot = zero_entry\<lparr> d_name := dot_name, d_inode := NUM_OF_ROOT_INODE, d_nameLen := 1 \<rparr>"

lemma root_dir_block_ok:
  obtains R where "root_dir_block = Some R" and "length R = MAX_BLOCK_SIZE"
    and "\<And>i. i < 32 \<Longrightarrow> struct_at DIR_ENTRY_SIZE decDirEntry R i =
      Some (if i = 0 then root_dotdot else if i = 1 then root_dot else zero_entry)"
proof -
  have wf: "wfDirEntry root_dotdot" "wfDirEntry root_dot"
    using wf_zero_structs(4) by (simp_all add: root_dotdot_def root_dot_def)
  obtain b1 where b1: "struct_put DIR_ENTRY_SIZE encDirEntry (replicate MAX_BLOCK_SIZE 0) 0 root_dotdot = Some b1"
    "length b1 = MAX_BLOCK_SIZE" "\<And>j. struct_at DIR_ENTRY_SIZE decDirEntry b1 j =
      (if j = 0 then Some root_dotdot else struct_at DIR_ENTRY_SIZE decDirEntry (replicate MAX_BLOCK_SIZE 0) j)"
    using entry_put_ok [OF _ _ wf(1), of "replicate MAX_BLOCK_SIZE 0" 0] by auto
  obtain b2 where b2: "struct_put DIR_ENTRY_SIZE encDirEntry b1 1 root_dot = Some b2"
    "length b2 = MAX_BLOCK_SIZE" "\<And>j. struct_at DIR_ENTRY_SIZE decDirEntry b2 j =
      (if j = 1 then Some root_dot else struct_at DIR_ENTRY_SIZE decDirEntry b1 j)"
    using entry_put_ok [OF b1(2) _ wf(2), of 1] by auto
  have at2: "struct_at DIR_ENTRY_SIZE decDirEntry b2 2 = Some zero_entry"
    using b1(3) b2(3) zero_entries [of 2] by simp
  have ze: "zero_entry\<lparr> d_name := (d_name zero_entry)[0 := DIR_ENTRY_NO_MORE] \<rparr> = zero_entry"
  proof -
    have "(replicate 11 (0::u8))[0 := 0] = replicate 11 0" by (simp add: list_update_same_conv)
    then have "(d_name zero_entry)[0 := DIR_ENTRY_NO_MORE] = d_name zero_entry"
      by (simp only: zero_entry_name DIR_ENTRY_NO_MORE_def)
    then show ?thesis by simp
  qed
  have "root_dir_block = struct_put DIR_ENTRY_SIZE encDirEntry b2 2 zero_entry"
    unfolding root_dir_block_def root_dotdot_def [symmetric] root_dot_def [symmetric]
    using b1(1) b2(1) at2 ze wf_zero_structs(4) by (simp add: wfDirEntry_def)
  also have "\<dots> = Some b2" by (rule dirent_codec.put_at_same [OF at2])
  finally show ?thesis
    using that b1 b2 zero_entries by simp
qed

definition format_root_inode :: Inode where
  "format_root_inode = zero_inode\<lparr> i_mode := 0x1FF OR 0x4000, i_size := 0, i_blocks := 1,
     i_block := (i_block zero_inode)[0 := of_nat DATA_BLOCK_BASE] \<rparr>"

lemma root_inode_eq: "root_inode = Some format_root_inode"
  using wf_zero_structs(3) by (simp add: root_inode_def format_root_inode_def wfInode_def)

lemma wf_root_inode: "wfInode format_root_inode"
  using wf_zero_structs(3) by (simp add: format_root_inode_def wfInode_def)

lemma dec_sb_block: "length bs = MAX_BLOCK_SIZE \<Longrightarrow>
    struct_at SUPER_BLOCK_SIZE decSuperBlock bs 0 = Some (decSuperBlock bs) \<and>
    struct_put SUPER_BLOCK_SIZE encSuperBlock bs 0 sb = Some (overwrite bs 0 (encSuperBlock sb)) \<and>
    struct_at GROUP_DESCRIPTOR_SIZE decGroupDescriptor bs 0 = Some (decGroupDescriptor bs) \<and>
    struct_put GROUP_DESCRIPTOR_SIZE encGroupDescriptor bs 0 gd = Some (overwrite bs 0 (encGroupDescriptor gd))"
  by (simp add: struct_at_def struct_put_def layout_simps)

definition root_sb_block :: "bytes \<Rightarrow> bytes" where
  "root_sb_block bs = overwrite bs 0 (encSuperBlock
     ((decSuperBlock bs)\<lparr> sb_freeBlockCount := sb_freeBlockCount (decSuperBlock bs) - 1 \<rparr>))"

definition root_gd_block :: "bytes \<Rightarrow> bytes" where
  "root_gd_block bs = overwrite bs 0 (encGroupDescriptor
     ((decGroupDescriptor bs)\<lparr> gd_freeBlocksCount := gd_freeBlocksCount (decGroupDescriptor bs) - 1,
        gd_directoriesCount := 1 \<rparr>))"

definition root_table_block :: bytes where
  "root_table_block = overwrite (replicate MAX_BLOCK_SIZE 0) INODE_SIZE (encInode format_root_inode)"

lemma length_root_blocks:
  assumes "length bs = MAX_BLOCK_SIZE"
  shows "length (root_sb_block bs) = MAX_BLOCK_SIZE" "length (root_gd_block bs) = MAX_BLOCK_SIZE"
    "length root_table_block = MAX_BLOCK_SIZE"
proof -
  have "wfSuperBlock (decSuperBlock bs)" "wfGroupDescriptor (decGroupDescriptor bs)"
    using assms by (auto intro!: super_codec.wf_dec group_codec.wf_dec simp: layout_simps)
  then have "length (encSuperBlock ((decSuperBlock bs)\<lparr> sb_freeBlockCount := v \<rparr>)) = 1020"
    "length (encGroupDescriptor ((decGroupDescriptor bs)\<lparr> gd_freeBlocksCount := c, gd_directoriesCount := 1 \<rparr>)) = 32" for v c
    using super_codec.enc_length group_codec.enc_length by (simp_all add: layout_simps wfGroupDescriptor_def)
  then show "length (root_sb_block bs) = MAX_BLOCK_SIZE" "length (root_gd_block bs) = MAX_BLOCK_SIZE"
    using assms by (simp_all add: root_sb_block_def root_gd_block_def buf_simps layout_simps)
  show "length root_table_block = MAX_BLOCK_SIZE"
    using inode_codec.enc_length [OF wf_root_inode]
    by (simp add: root_table_block_def buf_simps layout_values(3,16))
qed

lemma createRoot_eq:
  assumes "disk_ok d" and "sb_firstDataBlockEachGroup sb = 516"
    and R: "root_dir_block = Some R" "length R = MAX_BLOCK_SIZE"
  shows "createRoot d sb = Some (put_block (put_block (put_block (put_block (put_block d 517 R)
      1 (root_sb_block (dblock d 1))) 2 (root_gd_block (dblock d 2)))
      3 (or_bit 517 (dblock d 3))) 5 root_table_block)"
proof -
  have len: "length (dblock d k) = MAX_BLOCK_SIZE" for k by (rule blk.content_length)
  note rb = length_root_blocks [OF len]
  let ?d1 = "put_block d 517 R"
  let ?d2 = "put_block ?d1 1 (root_sb_block (dblock d 1))"
  let ?d3 = "put_block ?d2 2 (root_gd_block (dblock d 2))"
  let ?d4 = "put_block ?d3 3 (or_bit 517 (dblock d 3))"
  have ok: "disk_ok ?d1" "disk_ok ?d2" "disk_ok ?d3" "disk_ok ?d4" using assms(1) by simp_all
  have w: "blockWrite d 517 R = Some (0, ?d1)"
    using blockWrite_nat [OF assms(1), of 517 R] R by (simp add: disk_blocks_value)
  have s: "root_sb_loop [0] R ?d1 = Some (root_sb_block (dblock d 1), ?d2)"
    using blockRead_nat [OF ok(1), of 1 R] blockWrite_nat [OF ok(1), of 1] R(2) rb dec_sb_block [OF len]
    by (simp add: disk_blocks_value layout_values(18) blk.content_put root_sb_block_def)
  have rg: "blockRead ?d2 (of_nat GDT_BASE) (root_sb_block (dblock d 1)) = Some (0, dblock d 2)"
    using blockRead_nat [OF ok(2), of 2] rb R(2)
    by (simp add: disk_blocks_value layout_values(19) blk.content_put)
  have g: "root_gd_loop [0] (root_gd_block (dblock d 2)) ?d2 = Some ?d3"
    using blockWrite_nat [OF ok(2), of 2] rb by (simp add: disk_blocks_value layout_values(19))
  have b: "blockRead ?d3 (of_nat BLOCK_BITMAP_BASE) (root_gd_block (dblock d 2)) = Some (0, dblock d 3)"
    using blockRead_nat [OF ok(3), of 3] rb R(2)
    by (simp add: disk_blocks_value layout_values(21) blk.content_put)
  have sb: "setBit 517 (dblock d 3) = Some (or_bit 517 (dblock d 3))"
    using setBit_eq [of 517 "dblock d 3"] len by (simp add: layout_values(3))
  have bw: "blockWrite ?d3 (of_nat BLOCK_BITMAP_BASE) (or_bit 517 (dblock d 3)) = Some (0, ?d4)"
    using blockWrite_nat [OF ok(3), of 3] len by (simp add: disk_blocks_value layout_values(21) bm_simps)
  have it: "struct_put INODE_SIZE encInode (replicate MAX_BLOCK_SIZE 0) 1 format_root_inode = Some root_table_block"
    by (simp add: struct_put_def root_table_block_def layout_values(3,16))
  have iw: "blockWrite ?d4 (of_nat INODE_TABLE_BASE) root_table_block = Some (0, put_block ?d4 5 root_table_block)"
    using blockWrite_nat [OF ok(4), of 5] rb by (simp add: disk_blocks_value layout_values(23))
  have gd: "struct_put GROUP_DESCRIPTOR_SIZE encGroupDescriptor (dblock d 2) 0
      ((decGroupDescriptor (dblock d 2))\<lparr> gd_freeBlocksCount := gd_freeBlocksCount (decGroupDescriptor (dblock d 2)) - 1,
        gd_directoriesCount := 1 \<rparr>) = Some (root_gd_block (dblock d 2))"
    using dec_sb_block [OF len] by (simp add: root_gd_block_def)
  show ?thesis
    unfolding createRoot_def one_group Let_def assms(2) root_inode_eq
    by (simp add: w s rg g b sb bw it iw gd dec_sb_block [OF len, THEN conjunct2, THEN conjunct2, THEN conjunct1] R(1)
        del: root_sb_loop.simps root_gd_loop.simps One_nat_def)
qed

section \<open>A formatted disk\<close>

lemma formatted_blocks:
  assumes "disk_ok d" and "4 \<le> length behind_sb" and "992 \<le> length behind_gdt"
  obtains d' R where "fsFormat behind_sb behind_gdt d = Some (FS_SUCCESS, d')" and "disk_ok d'"
    and "root_dir_block = Some R"
    and "decSuperBlock (dblock d' 1) = format_sb" and "decGroupDescriptor (dblock d' 2) = format_gd"
    and "dblock d' 3 = format_block_bitmap" and "dblock d' 4 = format_inode_bitmap"
    and "dblock d' 5 = root_table_block" and "dblock d' 517 = R"
    and "\<And>k. k \<notin> {1, 2, 3, 4, 5, 517} \<Longrightarrow> dblock d' k = dblock d k"
proof -
  obtain R where R: "root_dir_block = Some R" "length R = MAX_BLOCK_SIZE" using root_dir_block_ok by metis
  let ?sb = "fillSuperBlock\<lparr> sb_blockGroupNumber := 0 \<rparr>" and ?gd = "fillDescriptor fillSuperBlock 0"
  let ?B1 = "encSuperBlock ?sb @ take 4 behind_sb" and ?B2 = "encGroupDescriptor ?gd @ take 992 behind_gdt"
  let ?B3 = "fold or_bit [0..<517] (replicate MAX_BLOCK_SIZE 0)"
  define d0 where "d0 = put_block (put_block (put_block (put_block d 1 ?B1) 2 ?B2) 3 ?B3) 4 format_inode_bitmap"
  have wf: "wfSuperBlock ?sb" using wf_fill(1) by (simp add: wfSuperBlock_def)
  have len: "length ?B1 = MAX_BLOCK_SIZE" "length ?B2 = MAX_BLOCK_SIZE" "length ?B3 = MAX_BLOCK_SIZE"
    using super_codec.enc_length [OF wf] group_codec.enc_length [OF wf_fill(2)] assms(2,3)
    by (simp_all add: layout_values(3,28,29))
  have d0: "disk_ok d0" "dblock d0 1 = ?B1" "dblock d0 2 = ?B2" "dblock d0 3 = ?B3"
    "dblock d0 4 = format_inode_bitmap" "\<And>k. k \<notin> {1, 2, 3, 4} \<Longrightarrow> dblock d0 k = dblock d k"
    using assms(1) len length_bitmaps by (simp_all add: d0_def blk.content_put)
  define d' where "d' = put_block (put_block (put_block (put_block (put_block d0 517 R)
      1 (root_sb_block (dblock d0 1))) 2 (root_gd_block (dblock d0 2)))
      3 (or_bit 517 (dblock d0 3))) 5 root_table_block"
  have "createRoot d0 ?sb = Some d'"
    unfolding d'_def by (rule createRoot_eq [OF d0(1) _ R]) (simp add: fill_values)
  moreover have "format_groups behind_sb behind_gdt (fillDescriptorTable fillSuperBlock) [0..<NUMBER_OF_GROUPS]
      fillSuperBlock d = Some (?sb, d0)"
    unfolding d0_def by (rule format_groups_eq [OF assms])
  ultimately have run: "fsFormat behind_sb behind_gdt d = Some (FS_SUCCESS, d')"
    by (simp add: fsFormat_def Let_def)
  have lens: "length (root_sb_block (dblock d0 1)) = MAX_BLOCK_SIZE" "length (root_gd_block (dblock d0 2)) = MAX_BLOCK_SIZE"
    "length root_table_block = MAX_BLOCK_SIZE" "length (or_bit 517 (dblock d0 3)) = MAX_BLOCK_SIZE"
    using length_root_blocks [OF blk.content_length] by (simp_all add: bm_simps)
  have at: "dblock d' 1 = root_sb_block ?B1" "dblock d' 2 = root_gd_block ?B2" "dblock d' 3 = format_block_bitmap"
    "dblock d' 4 = format_inode_bitmap" "dblock d' 5 = root_table_block" "dblock d' 517 = R"
    "\<And>k. k \<notin> {1, 2, 3, 4, 5, 517} \<Longrightarrow> dblock d' k = dblock d k"
    using lens R(2) d0 by (simp_all add: d'_def blk.content_put format_block_bitmap_def)
  have dsb: "decSuperBlock ?B1 = ?sb" "decGroupDescriptor ?B2 = ?gd"
    using super_codec.dec_enc [OF wf] group_codec.dec_enc [OF wf_fill(2)] by simp_all
  have sb': "wfSuperBlock format_sb" "wfGroupDescriptor format_gd"
    using wf_fill by (simp_all add: format_sb_def format_gd_def wfSuperBlock_def wfGroupDescriptor_def)
  have "root_sb_block ?B1 = overwrite ?B1 0 (encSuperBlock format_sb)"
    unfolding root_sb_block_def dsb by (simp add: format_sb_def fill_values)
  then have "decSuperBlock (dblock d' 1) = format_sb"
    using super_codec.dec_enc [OF sb'(1)] at(1) by (simp add: overwrite_def)
  moreover have "root_gd_block ?B2 = overwrite ?B2 0 (encGroupDescriptor format_gd)"
    unfolding root_gd_block_def dsb by (simp add: format_gd_def fill_values)
  then have "decGroupDescriptor (dblock d' 2) = format_gd"
    using group_codec.dec_enc [OF sb'(2)] at(2) by (simp add: overwrite_def)
  moreover have "disk_ok d'" using d0(1) by (simp add: d'_def)
  ultimately show ?thesis using that [OF run] R(1) at(3-) by blast
qed

lemma bm_used_zero: "j < 8192 \<Longrightarrow> \<not> bm_used (replicate MAX_BLOCK_SIZE 0) j"
proof -
  assume "j < 8192"
  then have "replicate MAX_BLOCK_SIZE (0 :: u8) ! (j div 8) = 0" by (intro nth_replicate) (simp add: layout_values(3))
  then show ?thesis by (simp add: bm_used_def)
qed

lemma format_bits:
  assumes "j < 8192"
  shows "bm_used format_block_bitmap j \<longleftrightarrow> j < 518" and "bm_used format_inode_bitmap j \<longleftrightarrow> j < 10"
proof -
  have "bm_used (fold or_bit xs (replicate MAX_BLOCK_SIZE 0)) j \<longleftrightarrow> j \<in> set xs" if "\<forall>i\<in>set xs. i < 8192" for xs
    using fs_bits.test_put_range [of xs "replicate MAX_BLOCK_SIZE 0" j] that assms bm_used_zero [OF assms]
    by (simp add: layout_values(3))
  moreover have "bm_used (or_bit 517 b) j \<longleftrightarrow> j = 517 \<or> bm_used b j" if "length b = MAX_BLOCK_SIZE" for b
    using fs_bits.test_put [of 517 b j] that assms by (simp add: layout_values(3))
  ultimately show "bm_used format_block_bitmap j \<longleftrightarrow> j < 518" "bm_used format_inode_bitmap j \<longleftrightarrow> j < 10"
    by (auto simp: format_block_bitmap_def format_inode_bitmap_def)
qed

lemma free_after_format: "fs_bits.clear_count 8192 format_block_bitmap = 7674"
proof -
  have "{i. i < 8192 \<and> \<not> bm_used format_block_bitmap i} = {518..<8192}"
    using format_bits(1) by (auto simp: not_less)
  then show ?thesis by (simp add: fs_bits.clear_count_def)
qed

lemma zero_inode_blocks: "i_blocks zero_inode = 0" "length (i_block zero_inode) = 15"
  using wf_zero_structs(3)
  by (simp_all add: wfInode_def) (simp add: zero_inode_def decInode_def layout_values(16) rd32_def)

text \<open>The inode table entries that the format leaves on the disk and reserves own no blocks.\<close>

definition reserved_empty :: "Disk \<Rightarrow> bool" where
  "reserved_empty d \<longleftrightarrow> (\<forall>n \<in> {9, 10}.
     i_blocks (decInode (drop (inode_idx n * INODE_SIZE) (dblock d (inode_blk n)))) = 0)"

lemma root_table_inodes:
  assumes "n \<in> {1..8}"
  shows "decInode (drop (inode_idx n * INODE_SIZE) root_table_block) =
    (if n = 2 then format_root_inode else zero_inode)"
proof -
  have put: "struct_put INODE_SIZE encInode (replicate MAX_BLOCK_SIZE 0) 1 format_root_inode = Some root_table_block"
    by (simp add: struct_put_def root_table_block_def layout_values(3,16))
  have n: "inode_idx n = n - 1" "n - 1 < 8" using assms by (auto simp: inode_idx_def layout_values(17))
  then have fits: "(inode_idx n + 1) * INODE_SIZE \<le> MAX_BLOCK_SIZE" by (simp add: layout_values(3,16))
  have zero: "struct_at INODE_SIZE decInode (replicate MAX_BLOCK_SIZE 0) (inode_idx n) = Some zero_inode"
    using inode_codec.dec_take [of "replicate (MAX_BLOCK_SIZE - inode_idx n * INODE_SIZE) 0"] fits
    by (simp add: struct_at_def zero_inode_def min_def)
  have "struct_at INODE_SIZE decInode root_table_block (inode_idx n) =
      Some (if n = 2 then format_root_inode else zero_inode)"
    using inode_codec.at_put_same [OF wf_root_inode put] inode_codec.at_put_other [OF wf_root_inode put, of "inode_idx n"]
      zero n assms by (cases "n = 2") auto
  moreover have "length root_table_block = MAX_BLOCK_SIZE" by (rule length_root_blocks(3) [of "replicate MAX_BLOCK_SIZE 0"]) simp
  ultimately show ?thesis using fits by (simp add: inode_codec.at_defined)
qed

lemma formatted_inv:
  assumes ok: "disk_ok (fs_disk fs)" and sb: "fs_sb fs = format_sb"
    and blocks: "decSuperBlock (fblock fs 1) = format_sb" "decGroupDescriptor (fblock fs 2) = format_gd"
      "fblock fs 3 = format_block_bitmap" "fblock fs 4 = format_inode_bitmap" "fblock fs 5 = root_table_block"
    and res: "\<And>n. n \<in> {9, 10} \<Longrightarrow> i_blocks (inode_at fs n) = 0"
  shows "fs_inv fs" and "inode_at fs 2 = format_root_inode" and "owned fs 2 = [517]" and "live fs 2"
    and "live fs n \<Longrightarrow> n \<noteq> 2 \<Longrightarrow> owned fs n = []"
proof -
  have used: "block_used fs k \<longleftrightarrow> k < 518" if "k < 8192" for k
    using format_bits(1) [OF that] blocks(3) by (simp add: block_used_def layout_values(21))
  have iused: "live fs n \<longleftrightarrow> 1 \<le> n \<and> n \<le> 10" for n
  proof (cases "1 \<le> n \<and> n \<le> 4096")
    case True
    then have "bm_used format_inode_bitmap (n - 1) \<longleftrightarrow> n - 1 < 10" by (intro format_bits(2)) auto
    with True show ?thesis
      unfolding live_def inode_used_def inode_no_def layout_values(13,22) blocks(4) by auto
  next
    case False
    then show ?thesis by (auto simp: live_def inode_no_def layout_values(13))
  qed
  have blk: "inode_blk n = 5" if "1 \<le> n" "n \<le> 8" for n using that by (auto simp: inode_blk_def layout_values(17,23))
  have at: "inode_at fs n = (if n = 2 then format_root_inode else zero_inode)" if "n \<in> {1..8}" for n
    using root_table_inodes [OF that] blk [of n] that blocks(5) by (simp add: inode_at_def)
  show at2: "inode_at fs 2 = format_root_inode" using at [of 2] by simp
  have z15: "\<exists>a bs. i_block zero_inode = a # bs" using zero_inode_blocks(2) by (cases "i_block zero_inode") auto
  then show own2: "owned fs 2 = [517]"
    by (auto simp: owned_def at2 format_root_inode_def layout_values(25))
  have own: "owned fs n = []" if "live fs n" "n \<noteq> 2" for n
  proof (cases "n \<le> 8")
    case True
    then show ?thesis using at [of n] that iused [of n] by (simp add: owned_def zero_inode_blocks)
  next
    case False
    then have "n \<in> {9, 10}" using that iused [of n] by auto
    then show ?thesis using res by (simp add: owned_def)
  qed
  then show "live fs n \<Longrightarrow> n \<noteq> 2 \<Longrightarrow> owned fs n = []" by simp
  show live2: "live fs 2" using iused [of 2] by simp
  have m: "mounted fs"
    using ok sb by (simp add: mounted_def fs_ok_def format_sb_def fill_values layout_values(11,14))
  moreover have "base_reserved fs" using used by (simp add: base_reserved_def layout_values(25))
  moreover have "counts_ok fs"
    using blocks free_after_format
    by (simp add: counts_ok_def sb_of_def gd_of_def free_blocks_def layout_values(11,18,19,21) format_sb_def format_gd_def)
  moreover have "inode_wf fs n" if "live fs n" for n
  proof (cases "n = 2")
    case True
    have "unat (i_blocks (inode_at fs 2)) = 1" by (simp add: at2 format_root_inode_def)
    then show ?thesis using True own2 used [of 517]
      by (simp add: inode_wf_def data_block_def layout_values(7,11,25))
  next
    case False
    have "i_blocks (inode_at fs n) = 0"
    proof (cases "n \<le> 8")
      case True
      then show ?thesis using at [of n] that iused [of n] False by (simp add: zero_inode_blocks)
    next
      case False
      then have "n \<in> {9, 10}" using that iused [of n] by auto
      then show ?thesis using res by simp
    qed
    then show ?thesis using own [OF that False] by (simp add: inode_wf_def)
  qed
  moreover have "set (owned fs n) \<inter> set (owned fs k) = {}" if "live fs n" "live fs k" "n \<noteq> k" for n k
    using own that by (cases "n = 2") auto
  ultimately show "fs_inv fs" by (simp add: fs_inv_def)
qed

section \<open>Mounting a formatted disk\<close>

definition root_node :: "DirEntry \<Rightarrow> FsNode" where
  "root_node entry0 = \<lparr> n_entry = entry0\<lparr> d_inode := 2, d_nameLen := 1, d_name := (d_name entry0)[0 := 47] \<rparr>,
     n_location = \<lparr> l_group = 0, l_block = of_nat DATA_BLOCK_BASE, l_offset = 0 \<rparr> \<rparr>"

definition mount_of :: "Filesystem \<Rightarrow> Disk \<Rightarrow> Filesystem" where
  "mount_of fs0 d = fs0\<lparr> fs_disk := d, fs_sb := decSuperBlock (dblock d 1), fs_gd := decGroupDescriptor (dblock d 2) \<rparr>"

lemma format_mount_run:
  assumes "disk_ok d" and "4 \<le> length behind_sb" and "992 \<le> length behind_gdt"
    and "reserved_empty d" and "wfDirEntry entry0"
  obtains d' R where "fsFormat behind_sb behind_gdt d = Some (FS_SUCCESS, d')" and "root_dir_block = Some R"
    and "readSuperblock entry0 (On_Disk (fs0\<lparr> fs_disk := d' \<rparr>)) = Some (FS_SUCCESS, Some (root_node entry0), mount_of fs0 d')"
    and "fs_inv (mount_of fs0 d')" and "inode_at (mount_of fs0 d') 2 = format_root_inode"
    and "owned (mount_of fs0 d') 2 = [517]" and "live (mount_of fs0 d') 2"
    and "fblock (mount_of fs0 d') 517 = R" and "sb_of (mount_of fs0 d') = format_sb"
    and "gd_of (mount_of fs0 d') = format_gd"
    and "fblock (mount_of fs0 d') 4 = format_inode_bitmap"
proof -
  obtain d' R where d': "fsFormat behind_sb behind_gdt d = Some (FS_SUCCESS, d')" "disk_ok d'"
    "root_dir_block = Some R" "decSuperBlock (dblock d' 1) = format_sb" "decGroupDescriptor (dblock d' 2) = format_gd"
    "dblock d' 3 = format_block_bitmap" "dblock d' 4 = format_inode_bitmap" "dblock d' 5 = root_table_block"
    "dblock d' 517 = R" "\<And>k. k \<notin> {1, 2, 3, 4, 5, 517} \<Longrightarrow> dblock d' k = dblock d k"
    by (rule formatted_blocks [OF assms(1-3)]) blast
  let ?fs = "mount_of fs0 d'"
  have fb: "fblock ?fs k = dblock d' k" "fs_sb ?fs = format_sb" "fs_disk ?fs = d'" for k
    using d'(4) by (simp_all add: fblock_def mount_of_def)
  have res: "i_blocks (inode_at ?fs n) = 0" if "n \<in> {9, 10}" for n
  proof -
    have "inode_blk n = 6" using that by (auto simp: inode_blk_def layout_values(17,23))
    then have "dblock d' (inode_blk n) = dblock d (inode_blk n)" using d'(10) [of 6] by simp
    then show ?thesis using assms(4) that by (auto simp: inode_at_def fb reserved_empty_def)
  qed
  have ok: "disk_ok (fs_disk ?fs)" using d'(2) fb by simp
  note inv = formatted_inv [OF ok fb(2), unfolded fb(1), OF d'(4-8) res]
  have rd: "fsRd fs (of_nat k) buf = Some (0, dblock d' k)"
    if "fs_disk fs = d'" "k < 8193" "length buf \<le> MAX_BLOCK_SIZE" for fs k buf
    using blockRead_nat [OF d'(2), of k buf] that by (simp add: fsRd_def disk_blocks_value)
  have len: "length (dblock d' k) = MAX_BLOCK_SIZE" for k by simp
  have gi: "getInode ?fs 2 = Some (Some format_root_inode)"
    using getInode_eq [of ?fs 2] inv(2,4) ok by (simp add: fs_ok_def live_def)
  have "idx (i_block format_root_inode) 0 = Some (of_nat DATA_BLOCK_BASE)"
    using zero_inode_blocks(2) by (simp add: format_root_inode_def)
  then have rr: "readRootBlock ?fs (replicate MAX_BLOCK_SIZE 0) = Some (0, dblock d' 517)"
    using gi rd [of ?fs 517 "replicate MAX_BLOCK_SIZE 0"] fb(3) by (simp add: readRootBlock_def layout_values(25))
  have v: "validateSb (dblock d' 1) = Some FS_SUCCESS"
    using dec_sb_block [OF len, of 1] d'(4) by (simp add: validateSb_def format_sb_def fill_values)
  have mo: "fs0\<lparr> fs_disk := d', fs_sb := decSuperBlock (dblock d' 1), fs_gd := decGroupDescriptor (dblock d' 2) \<rparr> = ?fs"
    by (simp add: mount_of_def)
  have "upd (d_name entry0) 0 47 = Some ((d_name entry0)[0 := 47])"
    using assms(5) by (simp add: wfDirEntry_def)
  then have mt: "readSuperblock entry0 (On_Disk (fs0\<lparr> fs_disk := d' \<rparr>)) = Some (FS_SUCCESS, Some (root_node entry0), ?fs)"
    unfolding readSuperblock_def layout_values(18,19) Let_def fs_pointer.case
    using rd [of "fs0\<lparr> fs_disk := d' \<rparr>" 1 "[]"]
      rd [of "fs0\<lparr> fs_disk := d', fs_sb := decSuperBlock (dblock d' 1) \<rparr>" 2 "replicate MAX_BLOCK_SIZE 0"]
      v rr dec_sb_block [OF len, of 2] mo
    by (simp add: root_node_def layout_values(27))
  show ?thesis
    by (rule that [OF d'(1,3) mt]) (use inv d' fb in \<open>simp_all add: sb_of_def gd_of_def layout_values(18,19)\<close>)
qed

text \<open>C8: Formatting and mounting. Whatever the disk holds (provided the two inodes the format reserves
  but does not write own no blocks), \<open>fsFormat\<close> succeeds and \<open>readSuperblock\<close> then mounts it: the
  mounted file system is consistent, its root is inode 2 with the single data block 517, and both
  block counters say that 7674 blocks are free, which is the number of clear bits of the bitmap.\<close>

theorem format_mount:
  assumes "disk_ok d" and "4 \<le> length behind_sb" and "992 \<le> length behind_gdt"
    and "reserved_empty d" and "wfDirEntry entry0"
  shows "\<exists>d' root fs. fsFormat behind_sb behind_gdt d = Some (FS_SUCCESS, d') \<and>
    readSuperblock entry0 (On_Disk (fs0\<lparr> fs_disk := d' \<rparr>)) = Some (FS_SUCCESS, Some root, fs) \<and>
    fs_disk fs = d' \<and> fs_inv fs \<and> unat (d_inode (n_entry root)) = 2 \<and> live fs 2 \<and>
    owned fs 2 = [of_nat DATA_BLOCK_BASE] \<and> free_blocks fs = 7674"
proof -
  obtain d' R where f: "fsFormat behind_sb behind_gdt d = Some (FS_SUCCESS, d')"
    and m: "readSuperblock entry0 (On_Disk (fs0\<lparr> fs_disk := d' \<rparr>)) = Some (FS_SUCCESS, Some (root_node entry0), mount_of fs0 d')"
    and i: "fs_inv (mount_of fs0 d')" "owned (mount_of fs0 d') 2 = [517]" "live (mount_of fs0 d') 2"
      "sb_of (mount_of fs0 d') = format_sb"
    using format_mount_run [OF assms] by metis
  have "free_blocks (mount_of fs0 d') = 7674"
    using fs_invD(3) [OF i(1)] i(4) by (simp add: counts_ok_def format_sb_def)
  with f m i show ?thesis by (auto simp: root_node_def mount_of_def layout_values(25))
qed

text \<open>C29: The two copies that read past the end of a structure. Without readable memory behind the
  1020-byte super block (or behind the 32-byte descriptor table) formatting has no defined meaning;
  what lies there is copied to the disk.\<close>

theorem fsFormat_overread:
  assumes "disk_ok d" and "length behind_sb < 4 \<or> length behind_gdt < 992"
  shows "fsFormat behind_sb behind_gdt d = None"
proof -
  let ?sb = "fillSuperBlock\<lparr> sb_blockGroupNumber := 0 \<rparr>" and ?gd = "fillDescriptor fillSuperBlock 0"
  have wf: "wfSuperBlock ?sb" using wf_fill(1) by (simp add: wfSuperBlock_def)
  have lens: "length (encSuperBlock ?sb) = 1020" "length (encGroupDescriptor ?gd) = 32"
    using super_codec.enc_length [OF wf] group_codec.enc_length [OF wf_fill(2)] by (simp_all add: layout_simps)
  have tbl: "fillDescriptorTable fillSuperBlock = [?gd]" unfolding fillDescriptorTable_def one_group by simp
  have "format_groups behind_sb behind_gdt [?gd] [0] fillSuperBlock d = None"
  proof (cases "4 \<le> length behind_sb")
    case True
    then have "initFsGdt behind_gdt d' [?gd] 0 = None" for d'
      using assms(2) lens by (simp add: initFsGdt_def one_group memcpy_eq layout_values(3))
    then show ?thesis using True assms(1) wf by (simp add: initSuperBlock_eq)
  next
    case False
    then have "initSuperBlock behind_sb d ?sb 0 = None"
      using lens by (simp add: initSuperBlock_def memcpy_eq layout_values(3))
    then show ?thesis by simp
  qed
  then show ?thesis unfolding fsFormat_def tbl one_group Let_def by simp
qed

section \<open>An example disk\<close>

definition blank_disk :: Disk where
  "blank_disk = \<lparr> numberOfSectors = 16386, bytesPerSector = 512, pdata = True, diskStorage = (\<lambda>_. 0) \<rparr>"

definition blank_fs :: Filesystem where
  "blank_fs = \<lparr> fs_sb = decSuperBlock (replicate SUPER_BLOCK_SIZE 0),
     fs_gd = decGroupDescriptor (replicate GROUP_DESCRIPTOR_SIZE 0), fs_disk = blank_disk \<rparr>"

lemma blank_disk_facts: "disk_ok blank_disk" "reserved_empty blank_disk"
proof -
  show "disk_ok blank_disk" by (simp add: disk_ok_def blank_disk_def layout_simps)
  have "dblock blank_disk k = replicate MAX_BLOCK_SIZE 0" for k
    by (simp add: dblock_def storage_read_def blank_disk_def map_replicate_const)
  moreover have "rd32 (replicate m 0) 28 = 0" if "32 \<le> m" for m
    using that by (simp add: rd32_def)
  ultimately show "reserved_empty blank_disk"
    by (simp add: reserved_empty_def decInode_def inode_idx_def layout_values(3,16,17))
qed

theorem format_mount_witness:
  "\<exists>d' root fs. fsFormat (replicate 4 7) (replicate 992 9) blank_disk = Some (FS_SUCCESS, d') \<and>
    readSuperblock zero_entry (On_Disk (blank_fs\<lparr> fs_disk := d' \<rparr>)) = Some (FS_SUCCESS, Some root, fs) \<and>
    fs_inv fs \<and> free_blocks fs = 7674"
  using format_mount [of blank_disk "replicate 4 7" "replicate 992 9" zero_entry blank_fs]
    blank_disk_facts wf_zero_structs(4) by auto

theorem fsFormat_overread_witness: "fsFormat [] (replicate 992 9) blank_disk = None"
  using fsFormat_overread [of blank_disk "[]" "replicate 992 9"] blank_disk_facts by simp

definition demo_disk :: Disk where
  "demo_disk = (case fsFormat (replicate 4 0) (replicate 992 0) blank_disk of
     Some (_, d) \<Rightarrow> d | None \<Rightarrow> blank_disk)"

definition demo_fs :: Filesystem where "demo_fs = mount_of blank_fs demo_disk"

definition demo_node :: FsNode where
  "demo_node = \<lparr> n_entry = root_dotdot, n_location = \<lparr> l_group = 0, l_block = 517, l_offset = 0 \<rparr> \<rparr>"

lemma demo_facts:
  shows "fs_inv demo_fs" and "live demo_fs 2" and "owned demo_fs 2 = [517]" and "file_node demo_fs demo_node 2"
    and "free_blocks demo_fs = 7674" and "inode_at demo_fs 2 = format_root_inode"
proof -
  obtain d' R where f: "fsFormat (replicate 4 0) (replicate 992 0) blank_disk = Some (FS_SUCCESS, d')"
    and R: "root_dir_block = Some R"
    and i: "fs_inv (mount_of blank_fs d')" "inode_at (mount_of blank_fs d') 2 = format_root_inode"
      "owned (mount_of blank_fs d') 2 = [517]" "live (mount_of blank_fs d') 2"
      "fblock (mount_of blank_fs d') 517 = R" "sb_of (mount_of blank_fs d') = format_sb"
    by (rule format_mount_run [of blank_disk "replicate 4 0" "replicate 992 0" zero_entry blank_fs])
       (use blank_disk_facts wf_zero_structs(4) in auto)
  have demo: "demo_fs = mount_of blank_fs d'" using f by (simp add: demo_fs_def demo_disk_def)
  show "fs_inv demo_fs" "live demo_fs 2" "owned demo_fs 2 = [517]" "inode_at demo_fs 2 = format_root_inode"
    using i demo by simp_all
  show "free_blocks demo_fs = 7674"
    using fs_invD(3) [OF i(1)] i(6) demo by (simp add: counts_ok_def format_sb_def)
  have "struct_at DIR_ENTRY_SIZE decDirEntry R 0 = Some root_dotdot"
  proof (rule root_dir_block_ok)
    fix R' assume R': "root_dir_block = Some R'"
      and e: "\<And>i. i < 32 \<Longrightarrow> struct_at DIR_ENTRY_SIZE decDirEntry R' i =
        Some (if i = 0 then root_dotdot else if i = 1 then root_dot else zero_entry)"
    have "Some R = Some R'" unfolding R [symmetric] by (rule R')
    then have "R = R'" by simp
    then show ?thesis using e [of 0] by simp
  qed
  moreover have "loc_ok (n_location demo_node)" by (simp add: loc_ok_def demo_node_def layout_simps)
  moreover have "entry_at demo_fs (n_location demo_node) = root_dotdot"
    using calculation entry_struct_at [of "n_location demo_node" demo_fs] i(5) demo by (simp add: demo_node_def)
  ultimately show "file_node demo_fs demo_node 2"
    using i(4) demo by (simp add: file_node_def root_dotdot_def NUM_OF_ROOT_INODE_def)
qed

theorem fsWrite_correct_witness:
  "\<exists>fs'. fsWrite demo_fs demo_node 2 3 [104, 105, 33] = Some (FS_SUCCESS, fs') \<and> fs_inv fs' \<and>
     file_content fs' 2 = [0, 0, 104, 105, 33]"
proof -
  have "replicate 2 (0 :: u8) = [0, 0]" by (simp add: numeral_2_eq_2)
  then show ?thesis
    using fsWrite_correct [OF demo_facts(1,4), of 2 3 "[104, 105, 33]"] demo_facts(5)
    by (auto simp: layout_values write_block_count_val)
qed

theorem fsRead_correct_witness:
  "\<exists>fs'. fsWrite demo_fs demo_node 0 3 [104, 105, 33] = Some (FS_SUCCESS, fs') \<and>
     fsRead fs' (Some demo_node) 1 8 (Some (replicate 8 0)) = Some (2, Some ([105, 33] @ replicate 6 0))"
proof -
  obtain fs' where w: "fsWrite demo_fs demo_node 0 3 [104, 105, 33] = Some (FS_SUCCESS, fs')" "fs_inv fs'"
    "unchanged_but 2 demo_fs fs'" "file_content fs' 2 = [104, 105, 33]"
    using fsWrite_correct [OF demo_facts(1,4), of 0 3 "[104, 105, 33]"] demo_facts(5)
    by (auto simp: layout_values write_block_count_val)
  have "live fs' 2" using w(3) demo_facts(2) by (simp add: unchanged_but_def)
  moreover have "d_inode (n_entry demo_node) = 2"
    by (simp add: demo_node_def root_dotdot_def NUM_OF_ROOT_INODE_def)
  ultimately have "fsRead fs' (Some demo_node) 1 8 (Some (replicate 8 0)) =
      Some (2, Some ([105, 33] @ replicate 6 0))"
    using fsRead_correct [of fs' demo_node 1 8 "replicate 8 0"] w(2,4)
    by (simp add: read_size_def layout_values(3) bslice_def)
  with w(1) show ?thesis by blast
qed

theorem getFreeBlockNumber_first_fit_witness:
  "\<exists>b fs'. mounted demo_fs \<and> getFreeBlockNumber demo_fs = Some (b, fs') \<and> \<not> block_used demo_fs (unat b) \<and>
    (\<forall>k < BLOCKS_PER_GROUP. block_used fs' k \<longleftrightarrow> k = unat b \<or> block_used demo_fs k)"
proof -
  have f: "(\<forall>k < BLOCKS_PER_GROUP. block_used demo_fs k) = False"
    using free_blocks_0 [of demo_fs] demo_facts(5) by auto
  have m: "mounted demo_fs" using demo_facts(1) by (rule fs_invD(1))
  show ?thesis using getFreeBlockNumber_first_fit [OF m] m unfolding f if_False by blast
qed

theorem inode_table_roundtrip_witness:
  "\<exists>fs'. fs_ok demo_fs \<and> insertInodeTable demo_fs zero_inode 12 = Some (FS_SUCCESS, fs') \<and>
     getInode fs' 12 = Some (Some zero_inode) \<and> getInode fs' 2 = Some (Some format_root_inode)"
proof -
  have ok: "fs_ok demo_fs" using fs_invD(1) [OF demo_facts(1)] by (rule mounted_ok)
  have "getInode demo_fs 2 = Some (Some format_root_inode)"
    using getInode_eq [OF ok, of 2] demo_facts(2,6) by (simp add: live_def)
  then show ?thesis
    using inode_table_roundtrip [OF ok wf_zero_structs(3), of 12] ok by (auto simp: layout_values(13))
qed

end
