(* ===== verification/Fs_Insert.thy ===== *)
theory Fs_Insert
  imports Fs_Slots
begin

text \<open>
  What \<open>insertEntry\<close> does to a directory, as seen by the lookups: the new entry is found under its
  name and every other name is found where it was.
\<close>

section \<open>Well-formed directories\<close>

text \<open>The end marker of a directory is in its last block.\<close>

definition dir_ok :: "Filesystem \<Rightarrow> nat \<Rightarrow> bool" where
  "dir_ok fs n \<longleftrightarrow> live fs n \<and>
     (case dir_end fs n of Some E \<Rightarrow> Suc (E div 32) = length (owned fs n) | None \<Rightarrow> False)"

text \<open>A name under which entries are looked up: eleven bytes that are neither the free nor the end mark.\<close>

definition proper :: "bytes \<Rightarrow> bool" where
  "proper k \<longleftrightarrow> length k = 11 \<and> k ! 0 \<noteq> DIR_ENTRY_FREE \<and> k ! 0 \<noteq> DIR_ENTRY_NO_MORE"

lemma hit_key: "proper k \<Longrightarrow> hit (Some (k @ x)) e \<longleftrightarrow> d_name e = k"
  by (auto simp: hit_def proper_def nth_append)

lemma proper_entry: "proper (d_name e) \<Longrightarrow> \<not> ended e \<and> \<not> unused e"
  by (simp add: proper_def ended_def unused_def)

lemma found_key_Some:
  assumes "proper k"
  shows "found fs n (Some (k @ x)) = Some g \<longleftrightarrow> g < slots fs n \<and> d_name (slot fs n g) = k \<and>
    (\<forall>j < g. \<not> ended (slot fs n j) \<and> d_name (slot fs n j) \<noteq> k)"
proof -
  have "seek fs n (Some (k @ x)) = first_from (\<lambda>g. d_name (slot fs n g) = k \<or> ended (slot fs n g)) 0 (slots fs n)"
    by (simp add: seek_def hit_key [OF assms])
  moreover have "found fs n (Some (k @ x)) = Some g \<longleftrightarrow> seek fs n (Some (k @ x)) = Some g \<and> d_name (slot fs n g) = k"
    by (auto simp: found_def hit_key [OF assms] split: option.splits if_splits)
  ultimately show ?thesis by (auto simp: first_from_Some_iff)
qed

lemma found_key_None:
  assumes "proper k" "found fs n (Some (k @ x)) = None" "g < slots fs n" "\<forall>j \<le> g. \<not> ended (slot fs n j)"
  shows "d_name (slot fs n g) \<noteq> k"
proof
  assume a: "d_name (slot fs n g) = k"
  define h where "h = (LEAST h. d_name (slot fs n h) = k)"
  have "d_name (slot fs n h) = k" unfolding h_def using a by (rule LeastI)
  moreover have "h \<le> g" unfolding h_def using a by (rule Least_le)
  moreover have "\<forall>j < h. d_name (slot fs n j) \<noteq> k" unfolding h_def using not_less_Least by blast
  ultimately have "found fs n (Some (k @ x)) = Some h"
    using assms(1,3,4) by (auto simp: found_key_Some)
  with assms(2) show False by simp
qed

section \<open>The effect of an insertion\<close>

text \<open>The entry \<open>e\<close> has been put into slot \<open>g\<close>, either over a free one or over the end mark, which
  has then moved one slot on.\<close>

definition inserted :: "Filesystem \<Rightarrow> Filesystem \<Rightarrow> nat \<Rightarrow> nat \<Rightarrow> DirEntry \<Rightarrow> bool" where
  "inserted fs fs' n g e \<longleftrightarrow> g < slots fs n \<and> g < slots fs' n \<and> slot fs' n g = e \<and>
     (\<forall>j < g. slot fs' n j = slot fs n j \<and> \<not> ended (slot fs n j)) \<and>
     (unused (slot fs n g) \<and> slots fs' n = slots fs n \<and> (\<forall>j < slots fs n. j > g \<longrightarrow> slot fs' n j = slot fs n j) \<or>
      ended (slot fs n g) \<and> Suc g < slots fs' n \<and> ended (slot fs' n (Suc g)))"

lemma inserted_found:
  assumes ins: "inserted fs fs' n g e" and e: "proper (d_name e)"
    and new: "found fs n (Some (d_name e @ x)) = None"
  shows "found fs' n (Some (d_name e @ y)) = Some g"
proof -
  have "d_name (slot fs n j) \<noteq> d_name e" if "j < g" for j
    using ins that by (intro found_key_None [OF e new]) (auto simp: inserted_def)
  then show ?thesis using ins by (auto simp: inserted_def found_key_Some [OF e])
qed

lemma found_key_cong:
  assumes "proper k"
    and "\<And>h. (h < slots fs' n \<and> d_name (slot fs' n h) = k \<and> (\<forall>j < h. \<not> ended (slot fs' n j) \<and> d_name (slot fs' n j) \<noteq> k)) \<longleftrightarrow>
      (h < slots fs n \<and> d_name (slot fs n h) = k \<and> (\<forall>j < h. \<not> ended (slot fs n j) \<and> d_name (slot fs n j) \<noteq> k))"
  shows "found fs' n (Some (k @ x)) = found fs n (Some (k @ x))"
  by (rule option_eqI) (simp only: found_key_Some [OF assms(1)] assms(2))

lemma inserted_other:
  assumes ins: "inserted fs fs' n g e" and e: "proper (d_name e)" and k: "proper k" "k \<noteq> d_name e"
  shows "found fs' n (Some (k @ x)) = found fs n (Some (k @ x))"
proof (rule found_key_cong [OF k(1)])
  fix h
  have low: "slot fs' n j = slot fs n j" "\<not> ended (slot fs n j)" if "j < g" for j using ins that by (auto simp: inserted_def)
  have g: "g < slots fs n" "g < slots fs' n" "slot fs' n g = e" "\<not> ended e" using ins proper_entry [OF e] by (auto simp: inserted_def)
  have kk: "\<not> ended d" "\<not> unused d" if "d_name d = k" for d using proper_entry [of d] that k by auto
  consider "h < g" | "h = g" | "h > g" by linarith
  then show "(h < slots fs' n \<and> d_name (slot fs' n h) = k \<and> (\<forall>j < h. \<not> ended (slot fs' n j) \<and> d_name (slot fs' n j) \<noteq> k)) \<longleftrightarrow>
      (h < slots fs n \<and> d_name (slot fs n h) = k \<and> (\<forall>j < h. \<not> ended (slot fs n j) \<and> d_name (slot fs n j) \<noteq> k))"
  proof cases
    case 1
    then show ?thesis using low g by auto
  next
    case 2
    then show ?thesis using g k kk [of "slot fs n g"] ins by (auto simp: inserted_def)
  next
    case 3
    show ?thesis
    proof (cases "unused (slot fs n g)")
      case True
      then have r: "slots fs' n = slots fs n" "\<And>j. j < slots fs n \<Longrightarrow> j > g \<Longrightarrow> slot fs' n j = slot fs n j"
        using ins by (auto simp: inserted_def ended_def unused_def DIR_ENTRY_FREE_def DIR_ENTRY_NO_MORE_def)
      have "\<not> ended (slot fs n g)" "d_name (slot fs n g) \<noteq> k"
        using True kk [of "slot fs n g"] by (auto simp: ended_def unused_def DIR_ENTRY_FREE_def DIR_ENTRY_NO_MORE_def)
      then have "(\<not> ended (slot fs' n j) \<and> d_name (slot fs' n j) \<noteq> k) = (\<not> ended (slot fs n j) \<and> d_name (slot fs n j) \<noteq> k)"
        if "j < h" "h < slots fs n" for j
        using that low g k r(2) by (cases j g rule: linorder_cases) auto
      then show ?thesis using r 3 by auto
    next
      case False
      then have stop: "ended (slot fs n g)" "ended (slot fs' n (Suc g))" using ins by (auto simp: inserted_def)
      have "h = Suc g \<or> Suc g < h" using 3 by auto
      then show ?thesis using stop 3 kk [of "slot fs' n h"] by auto
    qed
  qed
qed

lemma free_slot_Some:
  "free_slot fs n = Some g \<Longrightarrow> g < slots fs n \<and> unused (slot fs n g) \<and> (\<forall>j < g. \<not> ended (slot fs n j))"
  by (auto simp: free_slot_def first_from_Some_iff split: option.splits if_splits)

lemma dir_end_Some: "dir_end fs n = Some E \<longleftrightarrow> E < slots fs n \<and> ended (slot fs n E) \<and> (\<forall>j < E. \<not> ended (slot fs n j))"
  by (auto simp: dir_end_def first_from_Some_iff)

lemma unused_not_ended: "unused e \<Longrightarrow> \<not> ended e"
  by (simp add: unused_def ended_def DIR_ENTRY_FREE_def DIR_ENTRY_NO_MORE_def)

text \<open>The result of an insertion into the directory \<open>n\<close>.\<close>

definition insert_effect :: "Filesystem \<Rightarrow> Filesystem \<Rightarrow> nat \<Rightarrow> nat \<Rightarrow> DirEntry \<Rightarrow> bool" where
  "insert_effect fs fs' n g e \<longleftrightarrow> inserted fs fs' n g e \<and> fs_inv fs' \<and> dir_ok fs' n \<and> unchanged_but n fs fs' \<and>
     inode_used fs' = inode_used fs \<and> i_mode (inode_at fs' n) = i_mode (inode_at fs n) \<and>
     (\<exists>zs. owned fs' n = owned fs n @ zs)"

lemma put_slot_slots:
  assumes "fs_inv fs" "live fs n" "g < slots fs n" "wfDirEntry v"
  shows "slots (put_slot fs n g v) n = slots fs n"
  using put_slot_frame(4) [OF assms assms(2)] by (simp add: slots_def)

lemma put_slot_unchanged:
  assumes "fs_inv fs" "live fs n" "g < slots fs n" "wfDirEntry v"
  shows "unchanged_but n fs (put_slot fs n g v)"
  using put_slot_frame [OF assms] by (simp add: unchanged_but_def)

lemma unchanged_but_trans:
  assumes "unchanged_but n fs fs1" "unchanged_but n fs1 fs2" "\<And>m. live fs m \<Longrightarrow> m \<noteq> n \<Longrightarrow> owned fs1 m = owned fs m"
  shows "unchanged_but n fs fs2"
  using assms by (simp add: unchanged_but_def)

lemma reuse_effect:
  assumes "fs_inv fs" "dir_ok fs n" "wfDirEntry e" "proper (d_name e)" "free_slot fs n = Some g"
  shows "insert_effect fs (put_slot fs n g e) n g e"
proof -
  let ?fs = "put_slot fs n g e"
  have live: "live fs n" using assms(2) by (simp add: dir_ok_def)
  have g: "g < slots fs n" "unused (slot fs n g)" "\<forall>j < g. \<not> ended (slot fs n j)"
    using free_slot_Some [OF assms(5)] by auto
  note f = put_slot_frame [OF assms(1) live g(1) assms(3)]
  have s: "slots ?fs n = slots fs n" by (rule put_slot_slots [OF assms(1) live g(1) assms(3)])
  have ins: "inserted fs ?fs n g e"
    unfolding inserted_def s using g by (auto simp: f(8))
  obtain E where E: "dir_end fs n = Some E" "Suc (E div 32) = length (owned fs n)"
    using assms(2) by (auto simp: dir_ok_def split: option.splits)
  have "dir_end ?fs n = Some E"
    using E(1) g proper_entry [OF assms(4)] unused_not_ended [OF g(2)] unfolding dir_end_Some s by (auto simp: f(8))
  then have "dir_ok ?fs n" using E(2) f(2,4) live by (simp add: dir_ok_def)
  then show ?thesis
    unfolding insert_effect_def
    using ins f(1,3,4,7) live put_slot_unchanged [OF assms(1) live g(1) assms(3)] by simp
qed

lemma push_effect:
  assumes "fs_inv fs" "dir_ok fs n" "wfDirEntry e" "proper (d_name e)" "dir_end fs n = Some E" "Suc E < slots fs n" "E mod 32 \<noteq> 31"
  shows "insert_effect fs (push_entry fs n E e) n E e"
proof -
  let ?fs = "put_slot fs n E e" and ?fs2 = "push_entry fs n E e"
  have live: "live fs n" using assms(2) by (simp add: dir_ok_def)
  have E: "E < slots fs n" "ended (slot fs n E)" "\<forall>j < E. \<not> ended (slot fs n j)" using assms(5) by (auto simp: dir_end_Some)
  note f = put_slot_frame [OF assms(1) live E(1) assms(3)]
  have s: "slots ?fs n = slots fs n" by (rule put_slot_slots [OF assms(1) live E(1) assms(3)])
  have pre: "fs_inv ?fs" "live ?fs n" "Suc E < slots ?fs n" "wfDirEntry (slot fs n E)"
    using f(1,2) live s assms(6) wf_slot by simp_all
  note f2 = put_slot_frame [OF pre, folded push_entry_def]
  have s2: "slots ?fs2 n = slots fs n" using put_slot_slots [OF pre] s by (simp add: push_entry_def)
  have sl: "slot ?fs2 n j = (if j = E then e else if j = Suc E then slot fs n E else slot fs n j)" if "j < slots fs n" for j
    using f(8) [OF that] f2(8) [of j] that s by auto
  have ins: "inserted fs ?fs2 n E e" unfolding inserted_def s2 using E assms(6) by (auto simp: sl)
  have "dir_end ?fs2 n = Some (Suc E)"
    using E assms(6) proper_entry [OF assms(4)] unfolding dir_end_Some s2 by (auto simp: sl less_Suc_eq)
  moreover have "Suc (E div 32) = length (owned fs n)" using assms(2,5) by (auto simp: dir_ok_def)
  ultimately have "dir_ok ?fs2 n"
    using f(2,4) f2(2,4) live assms(7) by (simp add: dir_ok_def div_Suc mod_Suc)
  moreover have "unchanged_but n fs ?fs2"
    using unchanged_but_trans [OF put_slot_unchanged [OF assms(1) live E(1) assms(3)] put_slot_unchanged [OF pre]] f(4)
    by (simp add: push_entry_def)
  ultimately show ?thesis
    unfolding insert_effect_def using ins f(2,3,4,7) f2(1,3,4,7) live by simp
qed

lemma zero_entry_ended: "ended zero_entry"
  by (simp add: ended_def zero_entry_name DIR_ENTRY_NO_MORE_def)

lemma extended_slots:
  assumes inv: "fs_inv fs" "live fs n" "length (owned fs n) < FS_N_BLOCKS" and k: "data_block k" "\<not> block_used fs k"
  shows "slots (extended fs n k) n = slots fs n + 32"
    "j < slots fs n \<Longrightarrow> slot (extended fs n k) n j = slot fs n j"
    "unchanged_but n fs (extended fs n k)"
proof -
  note x = extended_facts [OF assms]
  have wf: "wfInode (longer fs n k)" "inode_no n" using longer_facts(1) [OF inv] inv(2) by (auto simp: live_def)
  note blk = extended_blocks [OF k(1) wf(2,1)]
  have old: "fblock (extended fs n k) (unat b) = fblock fs (unat b)" if "live fs m" "b \<in> set (owned fs m)" for m b
  proof -
    have "data_block (unat b)" "block_used fs (unat b)" using fs_invD(4) [OF inv(1) that(1)] that(2) by (auto simp: inode_wf_def)
    then show ?thesis using blk [of "unat b"] k(2) by (auto simp: data_block_def)
  qed
  show "slots (extended fs n k) n = slots fs n + 32" by (simp add: slots_def x(3))
  show "slot (extended fs n k) n j = slot fs n j" if "j < slots fs n"
    using slot_block [OF that] old [OF inv(2) nth_mem [OF slot_block [OF that]]] by (simp add: slot_def x(3) nth_append)
  show "unchanged_but n fs (extended fs n k)"
    using x(2,5) old by (auto simp: unchanged_but_def)
qed

lemma push_block_effect:
  assumes "fs_inv fs" "dir_ok fs n" "wfDirEntry e" "proper (d_name e)" "dir_end fs n = Some E" "E mod 32 = 31"
    and "length (owned fs n) < FS_N_BLOCKS" and k: "data_block k" "\<not> block_used fs k" "unat (of_nat k :: u32) = k"
  shows "insert_effect fs (push_block fs n E e k) n E e"
proof -
  let ?fs = "put_slot fs n E e" and ?fs2 = "extended (put_slot fs n E e) n k" and ?fs3 = "push_block fs n E e k"
  have live: "live fs n" using assms(2) by (simp add: dir_ok_def)
  have E: "E < slots fs n" "ended (slot fs n E)" "\<forall>j < E. \<not> ended (slot fs n j)" using assms(5) by (auto simp: dir_end_Some)
  have last: "Suc E = slots fs n"
  proof -
    have "Suc (E div 32) = length (owned fs n)" using assms(2,5) by (auto simp: dir_ok_def)
    moreover have "E = 32 * (E div 32) + 31" using assms(6) mult_div_mod_eq [of 32 E] by simp
    ultimately show ?thesis by (simp add: slots_def)
  qed
  note f = put_slot_frame [OF assms(1) live E(1) assms(3)]
  have s: "slots ?fs n = slots fs n" by (rule put_slot_slots [OF assms(1) live E(1) assms(3)])
  have pre: "fs_inv ?fs" "live ?fs n" "length (owned ?fs n) < FS_N_BLOCKS" "data_block k" "\<not> block_used ?fs k"
    using f live assms(7) k by simp_all
  note x = extended_facts [OF pre] and xs = extended_slots [OF pre]
  have own2: "owned ?fs2 n = owned fs n @ [of_nat k]" using x(3) f(4) live by simp
  have s2: "slots ?fs2 n = slots fs n + 32" using xs(1) s by simp
  have p3: "?fs3 = put_slot ?fs2 n (slots fs n) (slot fs n E)"
    using k(3) by (simp add: push_block_def put_slot_def [of ?fs2] own2 slots_def)
  have pre3: "fs_inv ?fs2" "live ?fs2 n" "slots fs n < slots ?fs2 n" "wfDirEntry (slot fs n E)"
    using x(1,2) pre(2) s2 wf_slot by simp_all
  note f3 = put_slot_frame [OF pre3, folded p3]
  have s3: "slots ?fs3 n = slots fs n + 32" using put_slot_slots [OF pre3] s2 p3 by simp
  have low: "slot ?fs3 n j = (if j = E then e else slot fs n j)" if "j < slots fs n" for j
    using f3(8) [of j] s2 that xs(2) [of j] s f(8) [OF that] by simp
  have new: "slot ?fs3 n (slots fs n) = slot fs n E" using f3(8) [of "slots fs n"] s2 by simp
  have ins: "inserted fs ?fs3 n E e" unfolding inserted_def s3 using E low new last by auto
  have "dir_end ?fs3 n = Some (slots fs n)"
    using E proper_entry [OF assms(4)] last new low unfolding dir_end_Some s3 by (auto simp: less_Suc_eq)
  then have "dir_ok ?fs3 n"
    using own2 f3(2,4) pre3(2) by (simp add: dir_ok_def slots_def)
  moreover have "unchanged_but n fs ?fs3"
  proof (rule unchanged_but_trans)
    show "unchanged_but n fs ?fs" by (rule put_slot_unchanged [OF assms(1) live E(1) assms(3)])
    show "unchanged_but n ?fs ?fs3"
      by (rule unchanged_but_trans [OF xs(3) put_slot_unchanged [OF pre3, folded p3]]) (use x(4) in simp)
  qed (use f(4) in simp)
  ultimately show ?thesis
    unfolding insert_effect_def using ins f3(1,3,4,7) x(2,5,6) f(2,3,7) live pre(2) pre3(2) own2 by (simp add: longer_def)
qed

text \<open>When there is a place for one more entry: a free slot, a slot behind the end mark in its block, or
  a block for the directory to grow by.\<close>

definition has_room :: "Filesystem \<Rightarrow> nat \<Rightarrow> bool" where
  "has_room fs n \<longleftrightarrow> free_slot fs n \<noteq> None \<or> (\<exists>E. dir_end fs n = Some E \<and> E mod 32 \<noteq> 31) \<or>
     length (owned fs n) < FS_N_BLOCKS \<and> free_blocks fs > 0"

lemma insertEntry_spec:
  assumes "fs_inv fs" "dir_ok fs n" "n = unat (d_inode (n_entry parent))" "9 \<le> length stk"
    and "wfDirEntry (n_entry new)" "proper (d_name (n_entry new))" "has_room fs n"
  shows "\<exists>g fs'. insertEntry stk fs parent new = Some (FS_SUCCESS, new\<lparr> n_location := slot_loc fs n g \<rparr>, fs') \<and>
    insert_effect fs fs' n g (n_entry new)"
proof (cases "free_slot fs n")
  case (Some g)
  then show ?thesis
    using insertEntry_reuse [OF assms(1) _ assms(3-5)] reuse_effect [OF assms(1,2,5,6)] assms(2)
    by (auto simp: dir_ok_def)
next
  case None
  have live: "live fs n" using assms(2) by (simp add: dir_ok_def)
  obtain E where E: "dir_end fs n = Some E" using assms(2) by (auto simp: dir_ok_def split: option.splits)
  show ?thesis
  proof (cases "E mod 32 = 31")
    case False
    note a = insertEntry_append [OF assms(1) live assms(3-5) None E False]
    then show ?thesis using push_effect [OF assms(1,2,5,6) E a(2) False] by blast
  next
    case True
    then have room: "length (owned fs n) < FS_N_BLOCKS" "free_blocks fs > 0"
      using assms(7) None E by (auto simp: has_room_def)
    show ?thesis
    proof (cases rule: insertEntry_extend [OF assms(1) live assms(3-5) None E True room(1)])
      case 1
      then show ?thesis using room(2) by simp
    next
      case (2 k)
      then show ?thesis using push_block_effect [OF assms(1,2,5,6) E True room(1) 2(2-4)] by blast
    qed
  qed
qed

end
