(* ===== verification/Fs_Create.thy ===== *)
theory Fs_Create
  imports Fs_Ops Fs_Insert
begin

text \<open>
  Creating a file: \<open>fsCreate\<close> takes an inode and a block, adjusts the counters, writes the inode and
  inserts the entry. Its effect is that of giving a fresh inode one block followed by an insertion.
\<close>

section \<open>Counters\<close>

text \<open>Only the inode counters, in the super block and the group descriptor, may differ.\<close>

definition quiet :: "Filesystem \<Rightarrow> Filesystem \<Rightarrow> bool" where
  "quiet fs fs' \<longleftrightarrow> mounted fs' = mounted fs \<and> sb_freeBlockCount (sb_of fs') = sb_freeBlockCount (sb_of fs) \<and>
     gd_freeBlocksCount (gd_of fs') = gd_freeBlocksCount (gd_of fs) \<and>
     (\<forall>j. j \<noteq> SUPER_BLOCK_BASE \<longrightarrow> j \<noteq> GDT_BASE \<longrightarrow> fblock fs' j = fblock fs j)"

lemma quiet_refl [simp]: "quiet fs fs"
  by (simp add: quiet_def)

lemma inode_counts_quiet:
  assumes "mounted fs"
  obtains r fs' where "setSbFreeInodeCount fs num = Some (r, fs')" "quiet fs fs'"
    and "\<And>n. inode_no (unat n) \<Longrightarrow> \<exists>r fs''. setGdFreeInodeCount fs n num = Some (r, fs'') \<and> quiet fs fs''"
proof -
  have w: "wfSuperBlock ((sb_of fs)\<lparr> sb_freeInodeCount := v \<rparr>)" "wfGroupDescriptor ((gd_of fs)\<lparr> gd_freeInodesCount := c \<rparr>)" for v c
    by (simp_all add: wf_sb_of wf_gd_of)
  have q: "quiet fs (put_sb fs ((sb_of fs)\<lparr> sb_freeInodeCount := v \<rparr>))"
    "quiet fs (put_gd fs ((gd_of fs)\<lparr> gd_freeInodesCount := c \<rparr>))" for v c
    using w by (simp_all add: quiet_def sb_of_put_sb gd_of_put_gd fs_frame fblock_put_sb fblock_put_gd)
  have sb: "\<exists>r fs'. setSbFreeInodeCount fs num = Some (r, fs') \<and> quiet fs fs'"
    using q(1) mounted_ok [OF assms] by (auto simp: setSbFreeInodeCount_eq Let_def)
  have "\<exists>r fs''. setGdFreeInodeCount fs n num = Some (r, fs'') \<and> quiet fs fs''" if "inode_no (unat n)" for n
    using q(2) mounted_ok [OF assms] that by (auto simp: setGdFreeInodeCount_eq Let_def inode_no_def)
  with sb that show ?thesis by blast
qed

text \<open>The four counter updates of a creation.\<close>

definition counted :: "Filesystem \<Rightarrow> Filesystem \<Rightarrow> bool" where
  "counted fs fs' \<longleftrightarrow> mounted fs' \<and> sb_freeBlockCount (sb_of fs') = sb_freeBlockCount (sb_of fs) - 1 \<and>
     gd_freeBlocksCount (gd_of fs') = gd_freeBlocksCount (gd_of fs) - 1 \<and>
     (\<forall>j. j \<noteq> SUPER_BLOCK_BASE \<longrightarrow> j \<noteq> GDT_BASE \<longrightarrow> fblock fs' j = fblock fs j)"

lemma create_counts:
  assumes "mounted fs" "1 \<le> unat (sb_freeBlockCount (sb_of fs))" "1 \<le> unat (gd_freeBlocksCount (gd_of fs))"
    and k: "data_block k" "unat b = k" and i: "inode_no (unat i)"
  shows "\<exists>fs1 r2 fs2 fs3 r4 fs4. setSbFreeBlockCount fs (-1) = Some (0, fs1) \<and> setSbFreeInodeCount fs1 (-1) = Some (r2, fs2) \<and>
    setGdFreeBlockCount fs2 b (-1) = Some (0, fs3) \<and> setGdFreeInodeCount fs3 i (-1) = Some (r4, fs4) \<and> counted fs fs4"
proof -
  have pos: "1 \<le> sb_freeBlockCount (sb_of fs)" using assms(2) by (simp add: word_le_nat_alt)
  have posg: "1 \<le> uint (gd_freeBlocksCount (gd_of fs))"
    using assms(3) uint_nat [of "gd_freeBlocksCount (gd_of fs)"] by linarith
  define fs1 where "fs1 = put_sb fs ((sb_of fs)\<lparr> sb_freeBlockCount := sb_freeBlockCount (sb_of fs) + word_of_int (-1) \<rparr>)"
  have c1: "setSbFreeBlockCount fs (-1) = Some (0, fs1)"
    using assms(1) pos by (simp add: setSbFreeBlockCount_eq mounted_ok fs1_def Let_def)
  have o1: "mounted fs1" "sb_freeBlockCount (sb_of fs1) = sb_freeBlockCount (sb_of fs) - 1" "gd_of fs1 = gd_of fs"
    "\<And>j. j \<noteq> SUPER_BLOCK_BASE \<Longrightarrow> fblock fs1 j = fblock fs j"
    using assms(1) by (simp_all add: fs1_def sb_of_put_sb fs_frame wf_add_free_structs fblock_put_sb)
  obtain r2 fs2 where c2: "setSbFreeInodeCount fs1 (-1) = Some (r2, fs2)" "quiet fs1 fs2"
    using inode_counts_quiet [OF o1(1)] by metis
  have m2: "mounted fs2" using c2(2) o1(1) by (simp add: quiet_def)
  define fs3 where "fs3 = put_gd fs2 ((gd_of fs2)\<lparr> gd_freeBlocksCount := gd_freeBlocksCount (gd_of fs2) + word_of_int (-1) \<rparr>)"
  have g2: "gd_freeBlocksCount (gd_of fs2) = gd_freeBlocksCount (gd_of fs)" using c2(2) o1(3) by (simp add: quiet_def)
  have c3: "setGdFreeBlockCount fs2 b (-1) = Some (0, fs3)"
    using m2 k data_blockD(1,2) [OF k(1)] posg g2
    by (subst setGdFreeBlockCount_eq) (auto simp: mounted_ok fs3_def Let_def)
  have o3: "mounted fs3" "sb_of fs3 = sb_of fs2" "gd_freeBlocksCount (gd_of fs3) = gd_freeBlocksCount (gd_of fs) - 1"
    "\<And>j. j \<noteq> GDT_BASE \<Longrightarrow> fblock fs3 j = fblock fs2 j"
    using m2 g2 by (simp_all add: fs3_def gd_of_put_gd fs_frame wf_add_free_structs fblock_put_gd)
  obtain r4 fs4 where c4: "setGdFreeInodeCount fs3 i (-1) = Some (r4, fs4)" "quiet fs3 fs4"
    using inode_counts_quiet [OF o3(1)] i by metis
  have "counted fs fs4"
    using o1 c2(2) o3 c4(2) by (simp add: counted_def quiet_def)
  with c1 c2 c3 c4 show ?thesis by blast
qed

section \<open>A new inode with one block\<close>

definition new_inode :: "u16 \<Rightarrow> nat \<Rightarrow> Inode" where
  "new_inode mode k = zero_inode\<lparr> i_block := (i_block zero_inode)[0 := of_nat k], i_mode := mode, i_blocks := 1, i_size := 0 \<rparr>"

lemma new_inode_facts:
  "wfInode (new_inode mode k)" "take (unat (i_blocks (new_inode mode k))) (i_block (new_inode mode k)) = [of_nat k]"
  "unat (i_blocks (new_inode mode k)) \<le> FS_N_BLOCKS" "unat (i_size (new_inode mode k)) = 0"
proof -
  have len: "length (i_block zero_inode) = 15" using wf_zero_structs(3) by (simp add: wfInode_def layout_simps)
  then obtain a r where z: "i_block zero_inode = a # r" by (cases "i_block zero_inode") auto
  show "wfInode (new_inode mode k)" using wf_zero_structs(3) by (simp add: new_inode_def wfInode_def)
  show "take (unat (i_blocks (new_inode mode k))) (i_block (new_inode mode k)) = [of_nat k]"
    "unat (i_blocks (new_inode mode k)) \<le> FS_N_BLOCKS" "unat (i_size (new_inode mode k)) = 0"
    by (simp_all add: new_inode_def z layout_simps)
qed

lemma alloc_inode_cases:
  assumes "mounted fs"
  obtains (full) "getFreeInodeNumber fs = Some (0, fs)" "\<And>i. inode_no i \<Longrightarrow> inode_used fs i"
    | (got) i where "getFreeInodeNumber fs = Some (of_nat i, mark_inode fs i)" "inode_no i" "\<not> inode_used fs i"
        "unat (of_nat i :: u32) = i" "(of_nat i :: u32) \<noteq> 0" "sint (of_nat i :: u32) = int i"
        "\<And>m. inode_no m \<Longrightarrow> \<not> inode_used fs m \<Longrightarrow> i \<le> m"
proof (cases "first_from (\<lambda>k. \<not> inode_used fs (Suc k)) 0 INODES_PER_GROUP")
  case None
  have "inode_used fs i" if "inode_no i" for i
    using first_from_None_iff [THEN iffD1, OF None] that by (cases i) (auto simp: inode_no_def layout_simps)
  then show ?thesis using full getFreeInodeNumber_eq [OF assms] None by simp
next
  case (Some k)
  then have k: "k < 4096" "\<not> inode_used fs (Suc k)" by (auto simp: first_from_Some_iff layout_simps)
  have u: "unat (of_nat (Suc k) :: u32) = Suc k" using k by (intro unat_le_of_nat) simp
  then have "(of_nat (Suc k) :: u32) \<noteq> 0" by (metis Zero_not_Suc unat_0)
  moreover have "sint (of_nat (Suc k) :: u32) = int (Suc k)" using k by (intro sint_of_nat_small) simp
  moreover have "inode_no (Suc k)" using k by (simp add: inode_no_def layout_simps)
  moreover have "Suc k \<le> m" if "inode_no m" "\<not> inode_used fs m" for m
    using Some that by (cases m) (auto simp: first_from_Some_iff inode_no_def not_less [symmetric])
  ultimately show ?thesis using got [of "Suc k"] getFreeInodeNumber_eq [OF assms] Some k u by simp
qed

text \<open>After the inode has been written: it is live with one block, everything else is as before.\<close>

lemma created_inode:
  assumes inv: "fs_inv fs" and i: "inode_no i" "\<not> inode_used fs i" and k: "data_block k" "\<not> block_used fs k"
    and cnt: "counted (mark_block (mark_inode fs i) k) fs4" and x: "x = new_inode mode k"
  defines "fs5 \<equiv> put_inode fs4 i x"
  shows "fs_inv fs5" "live fs5 m \<longleftrightarrow> m = i \<or> live fs m" "owned fs5 i = [of_nat k]"
    "live fs m \<Longrightarrow> owned fs5 m = owned fs m" "inode_no m \<Longrightarrow> inode_at fs5 m = (if m = i then x else inode_at fs m)"
    "DATA_BLOCK_BASE \<le> b \<Longrightarrow> fblock fs5 b = fblock fs b" "Suc (free_blocks fs5) = free_blocks fs"
proof -
  let ?fs2 = "mark_block (mark_inode fs i) k"
  have wf: "wfInode x" using new_inode_facts(1) x by simp
  have fb: "fblock fs4 j = fblock ?fs2 j" if "j \<noteq> SUPER_BLOCK_BASE" "j \<noteq> GDT_BASE" for j
    using cnt that by (simp add: counted_def)
  have u4: "block_used fs4 = block_used ?fs2" "inode_used fs4 = inode_used ?fs2"
    by (rule block_used_frame inode_used_frame; simp add: fb layout_simps)+
  have at4: "inode_at fs4 m = inode_at ?fs2 m" if "inode_no m" for m
    by (rule inode_at_frame) (use that in \<open>auto simp: fb layout_simps\<close>)
  show at: "inode_no m \<Longrightarrow> inode_at fs5 m = (if m = i then x else inode_at fs m)" for m
    using i wf at4 by (simp add: fs5_def inode_at_put_inode fs_frame)
  have bu: "block_used fs5 j \<longleftrightarrow> j = k \<or> block_used fs j" if "j < BLOCKS_PER_GROUP" for j
    using that data_blockD(2) [OF k(1)] by (simp add: fs5_def fs_frame wf i u4)
  have iu: "inode_used fs5 m \<longleftrightarrow> m = i \<or> inode_used fs m" if "inode_no m" for m
    using that i by (simp add: fs5_def fs_frame wf u4)
  have c: "sb_freeBlockCount (sb_of fs5) = sb_freeBlockCount (sb_of fs) - 1"
    "gd_freeBlocksCount (gd_of fs5) = gd_freeBlocksCount (gd_of fs) - 1" "mounted fs5"
    using cnt by (simp_all add: counted_def fs5_def fs_frame wf i)
  have dead: "\<not> live fs i" using i by (simp add: live_def)
  have tk: "take (unat (i_blocks x)) (i_block x) = (if live fs i then owned fs i else []) @ [of_nat k]" "unat (i_blocks x) \<le> FS_N_BLOCKS"
    using new_inode_facts(2,3) dead by (simp_all add: x)
  note gb = gain_block [OF inv c(3) k bu c(1,2) i(1) iu at tk]
  show "fs_inv fs5" "live fs5 m \<longleftrightarrow> m = i \<or> live fs m" "owned fs5 i = [of_nat k]" "Suc (free_blocks fs5) = free_blocks fs"
    using gb dead by simp_all
  show "live fs m \<Longrightarrow> owned fs5 m = owned fs m" using gb(4) dead by (cases "m = i") auto
  show "fblock fs5 b = fblock fs b" if "DATA_BLOCK_BASE \<le> b"
    using that inode_blk_range [OF i(1)] wf fb
    by (simp add: fs5_def fblock_put_inode fblock_mark layout_values)
qed

section \<open>Running \<open>fsCreate\<close>\<close>

lemma my_strnlen_defined: "m \<le> length src \<Longrightarrow> \<exists>l. my_strnlen src m = Some l"
  by (induction src m rule: my_strnlen.induct) auto

lemma create_name:
  assumes "terminated nm" "valid83 (cstr nm)" "length (cstr nm) \<le> 11"
  obtains b z where "strncpy (Some (replicate MAX_NAME_LENGTH 0)) (Some nm) (MAX_NAME_LENGTH - 1) = Some (Some b)"
    "formatName b = Some (FS_SUCCESS, key (cstr nm) @ z)"
proof -
  let ?s = "cstr nm" and ?b = "cstr nm @ replicate (256 - length (cstr nm)) 0"
  have "256 - length ?s = Suc (255 - length ?s)" using assms(3) by linarith
  then have "replicate (255 - length ?s) 0 @ [0 :: u8] = replicate (256 - length ?s) 0" "0 # replicate (255 - length ?s) (0 :: u8) = replicate (256 - length ?s) 0"
    by (simp_all only: replicate_Suc replicate_append_same)
  then have copy: "strncpy (Some (replicate MAX_NAME_LENGTH 0)) (Some nm) (MAX_NAME_LENGTH - 1) = Some (Some ?b)"
    using strncpy_eq [of 255 "replicate 256 0" nm] assms by (simp add: layout_values)
  have c: "cstr ?b = ?s" using assms(3) cstr_prefix [OF cstr_nonzero, of nm] by (cases "256 - length ?s") auto
  have t: "terminated ?b" using assms(3) by (auto simp: terminated_def)
  have no: "take 1 ?s \<noteq> [46]" using assms(2) by (cases ?s) (auto simp: valid83_def dot_free_def)
  have "formatName ?b = Some (FS_SUCCESS, key ?s @ drop 11 (up11 ?s @ drop (length ?s) ?b))"
    using formatName_eq [of ?b] t c no assms(2,3) by (simp add: up11_short key_def)
  with copy show ?thesis by (rule that)
qed

lemma proper_key: "valid83 s \<Longrightarrow> proper (key s)"
  using key_facts by (simp add: proper_def)

lemma key_name_ok: "valid83 s \<Longrightarrow> name_ok (Some (key s @ x))"
  using key_facts(1) by (simp add: name_ok_def)

text \<open>Whether the directory \<open>n\<close> has an entry under a name.\<close>

definition has_name :: "Filesystem \<Rightarrow> nat \<Rightarrow> bytes \<Rightarrow> bool" where
  "has_name fs n s \<longleftrightarrow> found fs n (Some (key s)) \<noteq> None"

lemma found_suffix: "proper k \<Longrightarrow> found fs n (Some (k @ x)) = found fs n (Some k)"
  using found_key_Some [of k fs n x] found_key_Some [of k fs n "[]"] by (intro option_eqI) simp

lemma fsCreate_exists_eq:
  assumes inv: "fs_inv fs" "live fs n" "n = unat (d_inode (n_entry parent))"
    and nm: "terminated nm" "valid83 (cstr nm)" "length (cstr nm) \<le> 11" and has: "has_name fs n (cstr nm)"
  shows "\<exists>ret'. fsCreate stk fs parent nm ret = Some (FS_ERROR, ret', fs)"
proof (cases "gd_freeInodesCount (fs_gd fs) = 0")
  case False
  obtain b z where b: "strncpy (Some (replicate MAX_NAME_LENGTH 0)) (Some nm) (MAX_NAME_LENGTH - 1) = Some (Some b)"
    "formatName b = Some (FS_SUCCESS, key (cstr nm) @ z)" using create_name [OF nm] .
  obtain x where look: "fsLookup fs parent (key (cstr nm) @ z) zero_node =
      lookupEntry fs (d_inode (n_entry parent)) (Some (key (cstr nm) @ x)) zero_node"
    using fsLookup_key [OF nm(2)] by blast
  obtain g where "found fs n (Some (key (cstr nm) @ x)) = Some g"
    using has found_suffix [OF proper_key [OF nm(2)], of fs n x] by (auto simp: has_name_def)
  then have "fsLookup fs parent (key (cstr nm) @ z) zero_node = Some (FS_SUCCESS, slot_node fs n g)"
    using look lookup_found [OF inv(1) _ key_name_ok [OF nm(2)], of "d_inode (n_entry parent)" x g] inv(2,3) by simp
  then show ?thesis using False b by (auto simp: fsCreate_def layout_values(26,27))
qed (simp add: fsCreate_def)


section \<open>Directories as maps\<close>

text \<open>A directory is a finite map from names in directory form to inode numbers.\<close>

definition dir_map :: "Filesystem \<Rightarrow> nat \<Rightarrow> bytes \<Rightarrow> u32 option" where
  "dir_map fs n k = (if proper k then map_option (\<lambda>g. d_inode (slot fs n g)) (found fs n (Some k)) else None)"

lemma dir_map_found: "valid83 s \<Longrightarrow> dir_map fs n (key s) = map_option (\<lambda>g. d_inode (slot fs n g)) (found fs n (Some (key s @ x)))"
  using found_suffix [OF proper_key, of s] by (simp add: dir_map_def proper_key)

lemma has_name_map: "valid83 s \<Longrightarrow> has_name fs n s \<longleftrightarrow> dir_map fs n (key s) \<noteq> None"
  by (simp add: has_name_def dir_map_def proper_key)

text \<open>An insertion adds one pair.\<close>

lemma inserted_map:
  assumes ins: "inserted fs fs' n g e" and e: "proper (d_name e)" and new: "dir_map fs n (d_name e) = None"
  shows "dir_map fs' n = (dir_map fs n)(d_name e \<mapsto> d_inode e)"
proof
  fix k
  have none: "found fs n (Some (d_name e @ [])) = None" using new e by (simp add: dir_map_def)
  consider "k = d_name e" | "\<not> proper k" "k \<noteq> d_name e" | "proper k" "k \<noteq> d_name e" by blast
  then show "dir_map fs' n k = ((dir_map fs n)(d_name e \<mapsto> d_inode e)) k"
  proof cases
    case 1
    then show ?thesis
      using inserted_found [OF ins e none, of "[]"] e ins by (simp add: dir_map_def inserted_def)
  next
    case 2
    then show ?thesis by (simp add: dir_map_def)
  next
    case 3
    note same = inserted_other [OF ins e 3, of "[]"]
    have "slot fs' n h = slot fs n h" if "found fs n (Some (k @ [])) = Some h" for h
    proof -
      have h: "h < slots fs n" "d_name (slot fs n h) = k" "\<forall>j < h. \<not> ended (slot fs n j)"
        using found_key_Some [OF 3(1), of fs n "[]" h] that by auto
      have "\<not> ended (slot fs n h)" "\<not> unused (slot fs n h)" using proper_entry [of "slot fs n h"] h 3 by auto
      then show ?thesis using ins h by (cases h g rule: linorder_cases) (auto simp: inserted_def)
    qed
    then show ?thesis using 3 same by (auto simp: dir_map_def split: option.splits) (cases "found fs n (Some k)"; auto)
  qed
qed

text \<open>No two entries in front of the end mark have the same name.\<close>

definition unique_names :: "Filesystem \<Rightarrow> nat \<Rightarrow> bool" where
  "unique_names fs n \<longleftrightarrow> (\<forall>h h'. h < slots fs n \<longrightarrow> h' < h \<longrightarrow> (\<forall>j \<le> h. \<not> ended (slot fs n j)) \<longrightarrow>
     proper (d_name (slot fs n h)) \<longrightarrow> d_name (slot fs n h) \<noteq> d_name (slot fs n h'))"

lemma inserted_unique:
  assumes ins: "inserted fs fs' n g e" and e: "proper (d_name e)" and new: "dir_map fs n (d_name e) = None" and u: "unique_names fs n"
  shows "unique_names fs' n"
  unfolding unique_names_def
proof (intro allI impI)
  fix h h' assume a: "h < slots fs' n" "h' < h" "\<forall>j \<le> h. \<not> ended (slot fs' n j)" "proper (d_name (slot fs' n h))"
  have none: "found fs n (Some (d_name e @ [])) = None" using new e by (simp add: dir_map_def)
  have low: "slot fs' n j = slot fs n j" "\<not> ended (slot fs n j)" if "j < g" for j using ins that by (auto simp: inserted_def)
  have g: "g < slots fs n" "slot fs' n g = e" using ins by (auto simp: inserted_def)
  have fresh: "d_name (slot fs n x) \<noteq> d_name e" if "x < slots fs n" "\<forall>j \<le> x. \<not> ended (slot fs n j)" for x
    using found_key_None [OF e none] that by blast
  consider "h < g" | "h = g" | "h > g" by linarith
  then show "d_name (slot fs' n h) \<noteq> d_name (slot fs' n h')"
  proof cases
    case 1
    have "d_name (slot fs n h) \<noteq> d_name (slot fs n h')"
      using u 1 low g(1) a(2,4) unfolding unique_names_def by (metis le_less_trans less_trans)
    then show ?thesis using low 1 a(2) by simp
  next
    case 2
    then have "d_name (slot fs n h') \<noteq> d_name e" using fresh [of h'] low a(2) g(1) by simp
    then show ?thesis using 2 g low a(2) by simp
  next
    case 3
    then have "\<not> ended (slot fs' n (Suc g))" using a(3) by (simp add: Suc_leI)
    then have r: "unused (slot fs n g)" "slots fs' n = slots fs n" "\<And>j. j < slots fs n \<Longrightarrow> j > g \<Longrightarrow> slot fs' n j = slot fs n j"
      using ins by (auto simp: inserted_def)
    have ne: "\<forall>j \<le> h. \<not> ended (slot fs n j)"
    proof (intro allI impI)
      fix j assume j: "j \<le> h"
      show "\<not> ended (slot fs n j)"
        using low(2) [of j] unused_not_ended [OF r(1)] r(2) r(3) [of j] a(1) a(3) j
        by (cases j g rule: linorder_cases) auto
    qed
    have h: "slot fs' n h = slot fs n h" "h < slots fs n" using r 3 a(1) by simp_all
    show ?thesis
    proof (cases "h' = g")
      case True
      then show ?thesis using fresh [OF h(2) ne] g(2) h(1) by simp
    next
      case False
      then have "slot fs' n h' = slot fs n h'" using low(1) [of h'] r(3) [of h'] a(2) h(2) by (cases h' g rule: linorder_cases) auto
      then show ?thesis using u h a(2,4) ne unfolding unique_names_def by metis
    qed
  qed
qed

text \<open>
  Up to the insertion: an unused inode and a free block are taken, the counters adjusted and the inode
  written; the entry is the one of the name.
\<close>

definition name_entry :: "bytes \<Rightarrow> nat \<Rightarrow> DirEntry \<Rightarrow> bool" where
  "name_entry k i e \<longleftrightarrow> wfDirEntry e \<and> d_name e = k \<and> d_inode e = of_nat i"

lemma take_blocks:
  assumes inv: "fs_inv fs" and "inode_no j" "\<not> inode_used fs j" and "0 < free_blocks fs"
  obtains i k where "getFreeInodeNumber fs = Some (of_nat i, mark_inode fs i)" "inode_no i" "\<not> inode_used fs i"
    "(of_nat i :: u32) \<noteq> 0" "sint (of_nat i :: u32) = int i" "unat (of_nat i :: u32) = i"
    "getFreeBlockNumber (mark_inode fs i) = Some (of_nat k, mark_block (mark_inode fs i) k)" "data_block k" "\<not> block_used fs k"
    "(of_nat k :: u32) \<noteq> 0" "unat (of_nat k :: u32) = k" "i \<le> j"
    "\<exists>fs1 r2 fs2 fs3 r4 fs4. setSbFreeBlockCount (mark_block (mark_inode fs i) k) (-1) = Some (0, fs1) \<and>
      setSbFreeInodeCount fs1 (-1) = Some (r2, fs2) \<and> setGdFreeBlockCount fs2 (of_nat k) (-1) = Some (0, fs3) \<and>
      setGdFreeInodeCount fs3 (of_nat i) (-1) = Some (r4, fs4) \<and> counted (mark_block (mark_inode fs i) k) fs4"
proof (cases rule: alloc_inode_cases [OF fs_invD(1) [OF inv]])
  case 1
  then show ?thesis using assms(2,3) by blast
next
  case (2 i)
  note fd = fs_invD [OF inv]
  have mi: "mounted (mark_inode fs i)" "base_reserved (mark_inode fs i)"
    using fd by (simp_all add: base_reserved_def fs_frame)
  have pos: "\<exists>k < BLOCKS_PER_GROUP. \<not> block_used fs k" using free_blocks_0 [of fs] assms(4) by fastforce
  show ?thesis
  proof (cases rule: alloc_block_cases [OF mi])
    case 1
    then show ?thesis using pos by (auto simp: fs_frame)
  next
    case k: (2 k)
    have "1 \<le> unat (sb_freeBlockCount (sb_of fs))" "1 \<le> unat (gd_freeBlocksCount (gd_of fs))"
      using fd(3) assms(4) by (auto simp: counts_ok_def)
    moreover have "inode_no (unat (of_nat i :: u32))" using 2 by simp
    ultimately have "\<exists>fs1 r2 fs2 fs3 r4 fs4. setSbFreeBlockCount (mark_block (mark_inode fs i) k) (-1) = Some (0, fs1) \<and>
      setSbFreeInodeCount fs1 (-1) = Some (r2, fs2) \<and> setGdFreeBlockCount fs2 (of_nat k) (-1) = Some (0, fs3) \<and>
      setGdFreeInodeCount fs3 (of_nat i) (-1) = Some (r4, fs4) \<and> counted (mark_block (mark_inode fs i) k) fs4"
      using mi(1) k by (intro create_counts) (simp_all add: fs_frame)
    moreover have "i \<le> j" using 2 assms(2,3) by blast
    ultimately show ?thesis using 2 k by (intro that) (simp_all add: fs_frame)
  qed
qed

abbreviation file_mode :: u16 where
  "file_mode \<equiv> USER_PERMISSION OR 0x2000"

lemma fsCreate_run:
  assumes inv: "fs_inv fs" "live fs n" "n = unat (d_inode (n_entry parent))"
    and nm: "terminated nm" "valid83 (cstr nm)" "length (cstr nm) \<le> 11" and new: "\<not> has_name fs n (cstr nm)"
    and room: "gd_freeInodesCount (fs_gd fs) \<noteq> 0" "inode_no j" "\<not> inode_used fs j" "0 < free_blocks fs"
  obtains i k fs4 node where "inode_no i" "\<not> inode_used fs i" "unat (of_nat i :: u32) = i" "data_block k" "\<not> block_used fs k"
    "counted (mark_block (mark_inode fs i) k) fs4" "name_entry (key (cstr nm)) i (n_entry node)" "i \<le> j"
    "fsCreate stk fs parent nm ret =
      do { (_, ret, fs) \<leftarrow> insertEntry stk (put_inode fs4 i (new_inode file_mode k)) parent node; Some (FS_SUCCESS, ret, fs) }"
proof -
  let ?k = "key (cstr nm)"
  note pk = key_facts [OF nm(2)]
  obtain b z where b: "strncpy (Some (replicate MAX_NAME_LENGTH 0)) (Some nm) (MAX_NAME_LENGTH - 1) = Some (Some b)"
    "formatName b = Some (FS_SUCCESS, ?k @ z)" using create_name [OF nm] .
  obtain x where look: "fsLookup fs parent (?k @ z) zero_node =
      lookupEntry fs (d_inode (n_entry parent)) (Some (?k @ x)) zero_node"
    using fsLookup_key [OF nm(2)] by blast
  have "found fs (unat (d_inode (n_entry parent))) (Some (?k @ x)) = None"
    using new found_suffix [OF proper_key [OF nm(2)], of fs n x] inv(3) by (auto simp: has_name_def)
  then obtain ret' where look': "fsLookup fs parent (?k @ z) zero_node = Some (FS_ERROR, ret')" "n_entry ret' = n_entry zero_node"
    using lookup_missing [OF inv(1) _ key_name_ok [OF nm(2)]] look inv(2,3) by metis
  obtain i k where i: "getFreeInodeNumber fs = Some (of_nat i, mark_inode fs i)" "inode_no i" "\<not> inode_used fs i"
    "(of_nat i :: u32) \<noteq> 0" "sint (of_nat i :: u32) = int i" "unat (of_nat i :: u32) = i"
    and k: "getFreeBlockNumber (mark_inode fs i) = Some (of_nat k, mark_block (mark_inode fs i) k)" "data_block k" "\<not> block_used fs k"
    "(of_nat k :: u32) \<noteq> 0" "i \<le> j"
    and c: "\<exists>fs1 r2 fs2 fs3 r4 fs4. setSbFreeBlockCount (mark_block (mark_inode fs i) k) (-1) = Some (0, fs1) \<and>
      setSbFreeInodeCount fs1 (-1) = Some (r2, fs2) \<and> setGdFreeBlockCount fs2 (of_nat k) (-1) = Some (0, fs3) \<and>
      setGdFreeInodeCount fs3 (of_nat i) (-1) = Some (r4, fs4) \<and> counted (mark_block (mark_inode fs i) k) fs4"
    using take_blocks [OF inv(1) room(2-4)] by metis
  obtain fs1 r2 fs2 fs3 r4 fs4 where c: "setSbFreeBlockCount (mark_block (mark_inode fs i) k) (-1) = Some (0, fs1)"
      "setSbFreeInodeCount fs1 (-1) = Some (r2, fs2)" "setGdFreeBlockCount fs2 (of_nat k) (-1) = Some (0, fs3)"
      "setGdFreeInodeCount fs3 (of_nat i) (-1) = Some (r4, fs4)" "counted (mark_block (mark_inode fs i) k) fs4"
    using c by blast
  have m4: "fs_ok fs4" using c(5) by (auto simp: counted_def intro: mounted_ok)
  have up: "upd (i_block zero_inode) 0 (of_nat k) = Some ((i_block zero_inode)[0 := of_nat k])"
    using wf_zero_structs(3) by (simp add: wfInode_def layout_values)
  have ins: "insertInodeTable fs4 (new_inode file_mode k) (int i) = Some (FS_SUCCESS, put_inode fs4 i (new_inode file_mode k))"
    by (rule insertInodeTable_eq [OF m4 i(2) new_inode_facts(1)])
  have cp: "memcpy (d_name zero_entry) (?k @ z) MAX_ENTRY_NAME_LENGTH = Some ?k"
    using pk(1) by (simp add: memcpy_eq zero_entry_name layout_values)
  obtain l where l: "my_strnlen ?k MAX_ENTRY_NAME_LENGTH = Some l"
    using my_strnlen_defined [of MAX_ENTRY_NAME_LENGTH ?k] pk(1) by (auto simp: layout_values)
  define node where "node = ret'\<lparr> n_entry := zero_entry\<lparr> d_name := ?k, d_nameLen := of_nat l, d_inode := of_nat i \<rparr> \<rparr>"
  have e: "n_entry zero_node = zero_entry" by (simp add: zero_node_def)
  have "name_entry ?k i (n_entry node)"
    using wf_zero_structs(4) pk(1) by (simp add: name_entry_def node_def wfDirEntry_def)
  moreover have "fsCreate stk fs parent nm ret =
      do { (_, ret, fs) \<leftarrow> insertEntry stk (put_inode fs4 i (new_inode file_mode k)) parent node; Some (FS_SUCCESS, ret, fs) }"
    unfolding fsCreate_def using b room(1) look' i(1,4,5) k(1,4) c(1-4) up ins cp l e
    by (simp add: layout_values(26,27) Let_def node_def new_inode_def)
  ultimately show ?thesis using that i k c by blast
qed

section \<open>The directory before and after\<close>

definition same_slots :: "Filesystem \<Rightarrow> Filesystem \<Rightarrow> nat \<Rightarrow> bool" where
  "same_slots fs fs' n \<longleftrightarrow> owned fs' n = owned fs n \<and> (\<forall>g < slots fs n. slot fs' n g = slot fs n g)"

lemma same_slotsI:
  assumes "fs_inv fs" "live fs n" "owned fs' n = owned fs n"
    and "\<And>b. DATA_BLOCK_BASE \<le> b \<Longrightarrow> b \<in> unat ` set (owned fs n) \<Longrightarrow> fblock fs' b = fblock fs b"
  shows "same_slots fs fs' n"
proof -
  have "slot fs' n g = slot fs n g" if "g < slots fs n" for g
    using slot_block [OF that] owned_on_disk(2) [OF assms(1,2), of "g div 32"] assms(3,4)
    by (simp add: slot_def data_block_def)
  then show ?thesis using assms(3) by (simp add: same_slots_def)
qed

lemma same_slots_dir:
  assumes "same_slots fs fs' n"
  shows "slots fs' n = slots fs n" "found fs' n nm = found fs n nm" "dir_end fs' n = dir_end fs n" "free_slot fs' n = free_slot fs n"
    "dir_map fs' n = dir_map fs n" "unique_names fs' n = unique_names fs n"
proof -
  have o: "owned fs' n = owned fs n" and s: "slot fs' n g = slot fs n g" if "g < slots fs n" for g
    using assms that by (auto simp: same_slots_def)
  show n: "slots fs' n = slots fs n" using assms by (simp add: slots_def same_slots_def)
  have seek: "seek fs' n nm = seek fs n nm" for nm
    unfolding seek_def n by (rule first_from_cong) (simp add: s)
  have in_range: "slot fs' n g = slot fs n g" if "first_from P 0 (slots fs n) = Some g" for P g
    using that s by (simp add: first_from_Some_iff)
  show found: "found fs' n nm = found fs n nm" for nm
    unfolding found_def seek by (cases "seek fs n nm") (simp_all add: in_range seek_def)
  show "dir_end fs' n = dir_end fs n"
    unfolding dir_end_def n by (rule first_from_cong) (simp add: s)
  have "first_from (\<lambda>g. unused (slot fs' n g) \<or> ended (slot fs' n g)) 0 (slots fs n) =
      first_from (\<lambda>g. unused (slot fs n g) \<or> ended (slot fs n g)) 0 (slots fs n)"
    by (rule first_from_cong) (simp add: s)
  then show "free_slot fs' n = free_slot fs n"
    unfolding free_slot_def n
    by (cases "first_from (\<lambda>g. unused (slot fs n g) \<or> ended (slot fs n g)) 0 (slots fs n)") (simp_all add: in_range)
  show "dir_map fs' n = dir_map fs n"
  proof
    fix k
    have "d_inode (slot fs' n g) = d_inode (slot fs n g)" if "found fs n (Some k) = Some g" for g
      using that by (auto simp: found_def seek_def in_range split: option.splits if_splits)
    then show "dir_map fs' n k = dir_map fs n k"
      by (cases "found fs n (Some k)") (auto simp: dir_map_def found)
  qed
  show "unique_names fs' n = unique_names fs n"
  proof -
    have "(\<forall>j \<le> h. \<not> ended (slot fs' n j)) = (\<forall>j \<le> h. \<not> ended (slot fs n j))" if "h < slots fs n" for h
      using s le_less_trans [OF _ that] by auto
    moreover have "slot fs' n h' = slot fs n h'" if "h < slots fs n" "h' < h" for h h'
      using s less_trans [OF that(2,1)] by simp
    ultimately have "(h < slots fs n \<longrightarrow> h' < h \<longrightarrow> (\<forall>j \<le> h. \<not> ended (slot fs' n j)) \<longrightarrow>
        proper (d_name (slot fs' n h)) \<longrightarrow> d_name (slot fs' n h) \<noteq> d_name (slot fs' n h')) =
      (h < slots fs n \<longrightarrow> h' < h \<longrightarrow> (\<forall>j \<le> h. \<not> ended (slot fs n j)) \<longrightarrow>
        proper (d_name (slot fs n h)) \<longrightarrow> d_name (slot fs n h) \<noteq> d_name (slot fs n h'))" for h h'
      using s [of h] by (cases "h < slots fs n \<and> h' < h") auto
    then show ?thesis unfolding unique_names_def n by simp
  qed
qed

text \<open>The node of a slot points at the entry in it.\<close>

lemma slot_file_node:
  assumes "fs_inv fs" "live fs n" "g < slots fs n" "l_block loc = owned fs n ! (g div 32)" "l_offset loc = of_nat (g mod 32)"
    and "d_inode (slot fs n g) = of_nat i" "unat (of_nat i :: u32) = i" "live fs i"
  shows "file_node fs \<lparr> n_entry = e, n_location = loc \<rparr> i"
proof -
  have o: "unat (l_offset loc) = g mod 32" unfolding assms(5) by (rule unat_le_of_nat) simp
  have l: "loc_ok loc" using owned_on_disk(1) [OF assms(1,2) slot_block [OF assms(3)]] assms(4) o by (simp add: loc_ok_def layout_values)
  have "entry_at fs loc = slot fs n g"
    by (simp add: entry_at_def slot_def blk_entry_def assms(4) o)
  then show ?thesis using assms(6-8) l by (simp add: file_node_def)
qed

lemma file_content_cong:
  assumes "inode_at fs' m = inode_at fs m" "\<And>b. b \<in> set (owned fs m) \<Longrightarrow> fblock fs' (unat b) = fblock fs (unat b)"
  shows "file_content fs' m = file_content fs m"
proof -
  have "owned fs' m = owned fs m" using assms(1) by (simp add: owned_def)
  then show ?thesis using assms by (simp add: file_content_def cong: map_cong)
qed

lemma unchanged_content: "unchanged_but n fs fs' \<Longrightarrow> live fs m \<Longrightarrow> m \<noteq> n \<Longrightarrow> file_content fs' m = file_content fs m"
  by (rule file_content_cong) (auto simp: unchanged_but_def)

text \<open>The state between the allocation and the insertion, as the directory \<open>n\<close> and the files see it.\<close>

lemma created_state:
  assumes inv: "fs_inv fs" "dir_ok fs n" and i: "inode_no i" "\<not> inode_used fs i" and k: "data_block k" "\<not> block_used fs k"
    and cnt: "counted (mark_block (mark_inode fs i) k) fs4" and room: "has_room fs n" "2 \<le> free_blocks fs"
    and fs5: "fs5 = put_inode fs4 i (new_inode mode k)"
  shows "fs_inv fs5" "dir_ok fs5 n" "has_room fs5 n" "dir_map fs5 n = dir_map fs n" "i \<noteq> n"
    "unique_names fs5 n = unique_names fs n"
    "live fs5 m \<longleftrightarrow> m = i \<or> live fs m" "file_content fs5 i = []" "live fs m \<Longrightarrow> file_content fs5 m = file_content fs m"
    "i_mode (inode_at fs5 i) = mode" "live fs n" "length (owned fs5 i) = 1"
proof -
  note c = created_inode [OF inv(1) i k cnt refl, where mode = mode, folded fs5]
  have live: "live fs n" using inv(2) by (simp add: dir_ok_def)
  have ss: "same_slots fs fs5 n"
    using same_slotsI [OF inv(1) live, of fs5] c(4,6) live by simp
  note d = same_slots_dir [OF ss]
  show "fs_inv fs5" "dir_map fs5 n = dir_map fs n" "unique_names fs5 n = unique_names fs n" "live fs5 m \<longleftrightarrow> m = i \<or> live fs m" using c(1,2) d by simp_all
  show "dir_ok fs5 n" using inv(2) c(2) c(4) [OF live] d live by (simp add: dir_ok_def cong: option.case_cong)
  show "has_room fs5 n" using room c(7) c(4) [OF live] d live by (auto simp: has_room_def)
  show "live fs n" by (rule live)
  show "length (owned fs5 i) = 1" using c(3) by simp
  show "i_mode (inode_at fs5 i) = mode" using c(5) [OF i(1)] by (simp add: new_inode_def)
  show "i \<noteq> n" using live i by (auto simp: live_def)
  show "file_content fs5 i = []" using c(5) [OF i(1)] new_inode_facts(4) by (simp add: file_content_def)
  show "file_content fs5 m = file_content fs m" if "live fs m"
  proof (rule file_content_cong)
    show "inode_at fs5 m = inode_at fs m" using c(5) [of m] that i by (auto simp: live_def)
    show "fblock fs5 (unat b) = fblock fs (unat b)" if "b \<in> set (owned fs m)" for b
      using fs_invD(4) [OF inv(1) \<open>live fs m\<close>] that c(6) by (auto simp: inode_wf_def data_block_def)
  qed
qed

lemma fsCreate_spec:
  assumes "fs_inv fs" "dir_ok fs n" "unique_names fs n" "n = unat (d_inode (n_entry parent))" "9 \<le> length stk"
    and "terminated nm" "valid83 (cstr nm)" "length (cstr nm) \<le> 11" "dir_map fs n (key (cstr nm)) = None"
    and "gd_freeInodesCount (fs_gd fs) \<noteq> 0" "inode_no j" "\<not> inode_used fs j" "2 \<le> free_blocks fs" "has_room fs n"
  shows "\<exists>i ret' fs'. fsCreate stk fs parent nm ret = Some (FS_SUCCESS, ret', fs') \<and> fs_inv fs' \<and> dir_ok fs' n \<and> unique_names fs' n \<and>
    dir_map fs' n = (dir_map fs n)(key (cstr nm) \<mapsto> of_nat i) \<and> \<not> live fs i \<and> (\<forall>m. live fs' m \<longleftrightarrow> m = i \<or> live fs m) \<and>
    i \<le> j \<and> i_mode (inode_at fs' i) = file_mode \<and> length (owned fs' i) = 1 \<and> file_node fs' ret' i \<and> file_content fs' i = [] \<and> (\<forall>m. live fs m \<and> m \<noteq> n \<longrightarrow> file_content fs' m = file_content fs m)"
proof -
  let ?k = "key (cstr nm)"
  have live: "live fs n" using assms(2) by (simp add: dir_ok_def)
  have new: "\<not> has_name fs n (cstr nm)" "0 < free_blocks fs" using assms(7,9,13) has_name_map by auto
  obtain i k fs4 node where i: "inode_no i" "\<not> inode_used fs i" "unat (of_nat i :: u32) = i" and k: "data_block k" "\<not> block_used fs k"
    and cnt: "counted (mark_block (mark_inode fs i) k) fs4" and e: "name_entry ?k i (n_entry node)" and ij: "i \<le> j"
    and run: "fsCreate stk fs parent nm ret =
      do { (_, ret, fs) \<leftarrow> insertEntry stk (put_inode fs4 i (new_inode file_mode k)) parent node; Some (FS_SUCCESS, ret, fs) }"
    by (rule fsCreate_run [OF assms(1) live assms(4,6-8) new(1) assms(10-12) new(2)])
  define fs5 where "fs5 = put_inode fs4 i (new_inode file_mode k)"
  note c = created_state [OF assms(1,2) i(1,2) k cnt assms(14,13) fs5_def]
  have e': "wfDirEntry (n_entry node)" "proper (d_name (n_entry node))" "d_name (n_entry node) = ?k" "d_inode (n_entry node) = of_nat i"
    using e proper_key [OF assms(7)] by (simp_all add: name_entry_def)
  obtain g fs' where ins: "insertEntry stk fs5 parent node = Some (FS_SUCCESS, node\<lparr> n_location := slot_loc fs5 n g \<rparr>, fs')"
    and eff: "insert_effect fs5 fs' n g (n_entry node)"
    using insertEntry_spec [OF c(1,2) assms(4,5) e'(1,2) c(3)] by blast
  from eff have f: "inserted fs5 fs' n g (n_entry node)" "fs_inv fs'" "dir_ok fs' n" "unchanged_but n fs5 fs'"
    "\<exists>zs. owned fs' n = owned fs5 n @ zs" by (simp_all add: insert_effect_def)
  have m: "dir_map fs' n = (dir_map fs n)(?k \<mapsto> of_nat i)"
    using inserted_map [OF f(1) e'(2)] e' assms(9) c(4) by simp
  have un: "unique_names fs' n"
    using inserted_unique [OF f(1) e'(2)] e'(3) assms(3,9) c(4,6) by simp
  have lv: "\<forall>m. live fs' m \<longleftrightarrow> m = i \<or> live fs m" using f(4) c(7) by (simp add: unchanged_but_def)
  have s: "g < slots fs5 n" "g < slots fs' n" "slot fs' n g = n_entry node" using f(1) by (simp_all add: inserted_def)
  have "l_block (slot_loc fs5 n g) = owned fs' n ! (g div 32)"
    using f(5) slot_block [OF s(1)] by (auto simp: slot_loc_def nth_append)
  then have "file_node fs' \<lparr> n_entry = n_entry node, n_location = slot_loc fs5 n g \<rparr> i"
    using f(2,3) s lv i e' by (intro slot_file_node [of fs' n g]) (simp_all add: dir_ok_def slot_loc_def)
  then have "file_node fs' (node\<lparr> n_location := slot_loc fs5 n g \<rparr>) i" by (simp add: file_node_def)
  moreover have "file_content fs' i = []" using unchanged_content [OF f(4), of i] c(5,7,8) by simp
  moreover have "\<forall>m. live fs m \<and> m \<noteq> n \<longrightarrow> file_content fs' m = file_content fs m"
    using unchanged_content [OF f(4)] c(7,9) by simp
  moreover have "i_mode (inode_at fs' i) = file_mode" using f(4) c(5,7,10) by (simp add: unchanged_but_def)
  moreover have "length (owned fs' i) = 1" using f(4) c(5,7,12) by (simp add: unchanged_but_def owned_def)
  moreover have "\<not> live fs i" using i by (simp add: live_def)
  ultimately show ?thesis using run ins f m lv un ij by (auto simp: fs5_def)
qed

text \<open>C5: Creating a file. On a consistent file system with room (an inode, two blocks, a slot in the
  directory), \<open>fsCreate\<close> of a well formed name the directory does not have succeeds. As a map from names to
  inode numbers the directory has gained exactly the pair of the name and a formerly unused inode;
  that inode is the first unused one, is an empty plain file which the returned node points at, no other inode has become used or unused, all other
  files keep their contents, the file system is consistent and names stay unique.\<close>

theorem fsCreate_correct:
  assumes "fs_inv fs" "dir_ok fs n" "unique_names fs n" "n = unat (d_inode (n_entry parent))" "9 \<le> length stk"
    and "terminated nm" "valid83 (cstr nm)" "length (cstr nm) \<le> 11" "dir_map fs n (key (cstr nm)) = None"
    and "gd_freeInodesCount (fs_gd fs) \<noteq> 0" "inode_no j" "\<not> inode_used fs j" "2 \<le> free_blocks fs" "has_room fs n"
  shows "\<exists>i ret' fs'. fsCreate stk fs parent nm ret = Some (FS_SUCCESS, ret', fs') \<and> fs_inv fs' \<and> dir_ok fs' n \<and> unique_names fs' n \<and>
    dir_map fs' n = (dir_map fs n)(key (cstr nm) \<mapsto> of_nat i) \<and> \<not> live fs i \<and> (\<forall>m. live fs' m \<longleftrightarrow> m = i \<or> live fs m) \<and>
    i \<le> j \<and> i_mode (inode_at fs' i) = file_mode \<and> length (owned fs' i) = 1 \<and> file_node fs' ret' i \<and> file_content fs' i = [] \<and> (\<forall>m. live fs m \<and> m \<noteq> n \<longrightarrow> file_content fs' m = file_content fs m)"
  by (rule fsCreate_spec [OF assms])

text \<open>C34: Creating an existing name. When the directory has the name already, \<open>fsCreate\<close> reports an error and
  the file system is exactly what it was.\<close>

theorem fsCreate_exists:
  assumes "fs_inv fs" "live fs n" "n = unat (d_inode (n_entry parent))"
    and "terminated nm" "valid83 (cstr nm)" "length (cstr nm) \<le> 11" "dir_map fs n (key (cstr nm)) \<noteq> None"
  shows "\<exists>ret'. fsCreate stk fs parent nm ret = Some (FS_ERROR, ret', fs)"
  using fsCreate_exists_eq [OF assms(1-6)] assms(5,7) has_name_map by blast

end
