(* ===== verification/Fs_Remove.thy ===== *)
theory Fs_Remove
  imports Fs_Create
begin

text \<open>
  Removing a file: \<open>fsRemove\<close> gives back the blocks one by one, overwrites the directory entry with a
  free one and clears the inode. As a map from names to inodes the directory loses one pair.
\<close>

section \<open>Giving back the blocks\<close>

text \<open>The blocks \<open>bs\<close> have been cleared and given back; apart from the super block, the group
  descriptor and the block bitmap nothing else has changed.\<close>

definition freed :: "Filesystem \<Rightarrow> u32 list \<Rightarrow> Filesystem \<Rightarrow> bool" where
  "freed fs bs fs' \<longleftrightarrow> mounted fs' \<and>
     sb_freeBlockCount (sb_of fs') = sb_freeBlockCount (sb_of fs) + of_nat (length bs) \<and>
     gd_freeBlocksCount (gd_of fs') = gd_freeBlocksCount (gd_of fs) + of_nat (length bs) \<and>
     (\<forall>j < BLOCKS_PER_GROUP. block_used fs' j \<longleftrightarrow> block_used fs j \<and> j \<notin> unat ` set bs) \<and>
     (\<forall>j. j \<notin> {SUPER_BLOCK_BASE, GDT_BASE, BLOCK_BITMAP_BASE} \<union> unat ` set bs \<longrightarrow> fblock fs' j = fblock fs j)"

lemma freed_Nil: "mounted fs \<Longrightarrow> freed fs [] fs"
  by (simp add: freed_def)

lemma freed_trans: "freed fs bs fs1 \<Longrightarrow> freed fs1 cs fs2 \<Longrightarrow> freed fs (bs @ cs) fs2"
  by (simp add: freed_def image_Un)

lemma free_one:
  assumes m: "mounted fs" and b: "data_block (unat b)"
  shows "\<exists>r fs1 fs2 bl fs4. fsWr fs b (replicate MAX_BLOCK_SIZE 0) = Some (r, fs1) \<and>
    setGdFreeBlockCount fs1 b 1 = Some (0, fs2) \<and>
    (\<exists>fs3. setSbFreeBlockCount fs2 1 = Some (0, fs3) \<and>
      clear_block_bit fs3 (replicate MAX_BLOCK_SIZE 0) b = Some (bl, fs4)) \<and> freed fs [b] fs4"
proof -
  note db = data_blockD [OF b]
  let ?z = "replicate MAX_BLOCK_SIZE (0 :: u8)"
  define fs1 where "fs1 = fput fs (unat b) ?z"
  define fs2 where "fs2 = put_gd fs1 ((gd_of fs1)\<lparr> gd_freeBlocksCount := gd_freeBlocksCount (gd_of fs1) + word_of_int 1 \<rparr>)"
  define fs3 where "fs3 = put_sb fs2 ((sb_of fs2)\<lparr> sb_freeBlockCount := sb_freeBlockCount (sb_of fs2) + word_of_int 1 \<rparr>)"
  define fs4 where "fs4 = unmark_block fs3 (unat b)"
  have m1: "mounted fs1" using m by (simp add: fs1_def)
  have m2: "mounted fs2" using m1 by (simp add: fs2_def)
  have m3: "mounted fs3" using m2 by (simp add: fs3_def)
  have c1: "fsWr fs b ?z = Some (0, fs1)" using mounted_ok [OF m] db(5) by (simp add: fsd.wr_put fs1_def)
  have c2: "setGdFreeBlockCount fs1 b 1 = Some (0, fs2)"
    using db by (subst setGdFreeBlockCount_eq [OF mounted_ok [OF m1]]) (simp_all add: fs2_def Let_def)
  have c3: "setSbFreeBlockCount fs2 1 = Some (0, fs3)"
    by (subst setSbFreeBlockCount_eq [OF mounted_ok [OF m2]]) (simp add: fs3_def Let_def)
  have c4: "\<exists>bl. clear_block_bit fs3 ?z b = Some (bl, fs4)"
    using clear_block_bit_eq [OF m3 db(1,2), of ?z] by (simp add: fs4_def)
  note f1 = frame_data [OF db(4), where bs = ?z and fs = fs, folded fs1_def]
  have fb: "fblock fs4 j = fblock fs j" if "j \<notin> {SUPER_BLOCK_BASE, GDT_BASE, BLOCK_BITMAP_BASE} \<union> {unat b}" for j
    using that by (simp add: fs4_def fs3_def fs2_def fs1_def fblock_mark fblock_put_sb fblock_put_gd wf_add_free_structs fsd.content_put)
  have "freed fs [b] fs4"
    unfolding freed_def using m3 fb f1 db(2)
    by (auto simp: fs4_def fs_frame) (simp_all add: fs3_def fs2_def sb_of_put_sb gd_of_put_gd fs_frame wf_add_free_structs)
  with c1 c2 c3 c4 show ?thesis by blast
qed

lemma free_inode_blocks_spec:
  assumes "mounted fs" "unat (i_blocks x) \<le> FS_D_BLOCKS" "FS_D_BLOCKS \<le> length (i_block x)"
    and "\<forall>b \<in> set (take (unat (i_blocks x)) (i_block x)). data_block (unat b)"
  shows "\<exists>fs'. free_inode_blocks fs x i = Some fs' \<and> freed fs (drop i (take (unat (i_blocks x)) (i_block x))) fs'"
  using assms(1)
proof (induction "unat (i_blocks x) - i" arbitrary: i fs)
  case 0
  then show ?case using freed_Nil by (simp add: free_inode_blocks.simps [of fs])
next
  case (Suc d)
  let ?bs = "take (unat (i_blocks x)) (i_block x)"
  have i: "i < unat (i_blocks x)" "i < FS_D_BLOCKS" "i < length (i_block x)" "i < length ?bs" using Suc.hyps(2) assms(2,3) by auto
  let ?b = "i_block x ! i"
  have "?bs ! i \<in> set ?bs" using i(4) by (rule nth_mem)
  then have b: "data_block (unat ?b)" using assms(4) i(1) by auto
  obtain r fs1 fs2 bl fs4 fs3 where step: "fsWr fs ?b (replicate MAX_BLOCK_SIZE 0) = Some (r, fs1)"
    "setGdFreeBlockCount fs1 ?b 1 = Some (0, fs2)" "setSbFreeBlockCount fs2 1 = Some (0, fs3)"
    "clear_block_bit fs3 (replicate MAX_BLOCK_SIZE 0) ?b = Some (bl, fs4)" "freed fs [?b] fs4"
    using free_one [OF Suc.prems b] by blast
  have m4: "mounted fs4" using step(5) by (simp add: freed_def)
  obtain fs' where rest: "free_inode_blocks fs4 x (Suc i) = Some fs'" "freed fs4 (drop (Suc i) ?bs) fs'"
    using Suc.hyps(1) [of "Suc i" fs4] Suc.hyps(2) m4 by (metis Suc_diff_Suc diff_Suc_Suc i(1) old.nat.inject)
  have "drop i ?bs = [?b] @ drop (Suc i) ?bs" using Cons_nth_drop_Suc [OF i(4)] i(1) by simp
  then have "freed fs (drop i ?bs) fs'" using freed_trans [OF step(5) rest(2)] by simp
  then show ?case using i step(1-4) rest(1) by (subst free_inode_blocks.simps) simp
qed

section \<open>Dropping the entry and the inode\<close>

definition free_entry :: DirEntry where
  "free_entry = zero_entry\<lparr> d_name := (d_name zero_entry)[0 := DIR_ENTRY_FREE] \<rparr>"

lemma free_entry_facts: "wfDirEntry free_entry" "unused free_entry"
  using wf_zero_structs(4) by (simp_all add: free_entry_def wfDirEntry_def unused_def zero_entry_name)

definition dropped :: "Filesystem \<Rightarrow> nat \<Rightarrow> nat \<Rightarrow> nat \<Rightarrow> Filesystem \<Rightarrow> bool" where
  "dropped fs b j i fs' \<longleftrightarrow> mounted fs' \<and> sb_freeBlockCount (sb_of fs') = sb_freeBlockCount (sb_of fs) \<and>
     gd_freeBlocksCount (gd_of fs') = gd_freeBlocksCount (gd_of fs) \<and> block_used fs' = block_used fs \<and>
     (\<forall>m. inode_no m \<longrightarrow> (inode_used fs' m \<longleftrightarrow> m \<noteq> i \<and> inode_used fs m) \<and> (m \<noteq> i \<longrightarrow> inode_at fs' m = inode_at fs m)) \<and>
     (\<forall>k. DATA_BLOCK_BASE \<le> k \<longrightarrow> k \<noteq> b \<longrightarrow> fblock fs' k = fblock fs k) \<and>
     (\<forall>j' < 32. blk_entry (fblock fs' b) j' = (if j' = j then free_entry else blk_entry (fblock fs b) j'))"

lemma quiet_dropped:
  assumes "quiet fs1 fs2" "dropped fs b j i fs1" "data_block b"
  shows "dropped fs b j i fs2"
proof -
  have fb: "fblock fs2 k = fblock fs1 k" if "k \<noteq> SUPER_BLOCK_BASE" "k \<noteq> GDT_BASE" for k
    using assms(1) that by (simp add: quiet_def)
  have u: "block_used fs2 = block_used fs1" "inode_used fs2 = inode_used fs1"
    by (rule block_used_frame inode_used_frame; simp add: fb layout_simps)+
  have at: "inode_at fs2 m = inode_at fs1 m" if "inode_no m" for m
    by (rule inode_at_frame) (use that in \<open>auto simp: fb layout_simps\<close>)
  have d: "fblock fs2 k = fblock fs1 k" if "DATA_BLOCK_BASE \<le> k" for k
    using that by (intro fb) (auto simp: layout_values)
  have "fblock fs2 b = fblock fs1 b" using d data_blockD(4) [OF assms(3)] by simp
  then show ?thesis using assms(1,2) u at d by (simp add: dropped_def quiet_def)
qed

text \<open>The state before the inode counters are raised.\<close>

lemma drop_core:
  assumes m: "mounted fs" and b: "data_block b" and j: "j < 32" and i: "inode_no i"
  defines "fs' \<equiv> unmark_inode (put_inode (put_entry (put_entry fs b j zero_entry) b j free_entry) i zero_inode) i"
  shows "dropped fs b j i fs'"
proof -
  note db = data_blockD [OF b]
  let ?f1 = "put_entry fs b j zero_entry"
  let ?f2 = "put_entry ?f1 b j free_entry"
  let ?f3 = "put_inode ?f2 i zero_inode"
  note e1 = put_entry_block [OF wf_zero_structs(4) j, where fs = fs and b = b]
  note e2 = put_entry_block [OF free_entry_facts(1) j, where fs = ?f1 and b = b]
  note d1 = frame_data [OF db(4) e1(2), where fs = fs, folded put_entry_def]
  note d2 = frame_data [OF db(4) e2(2), where fs = ?f1, folded put_entry_def]
  note z = wf_zero_structs(3)
  have hi: "fblock fs' k = fblock ?f2 k" if "DATA_BLOCK_BASE \<le> k" for k
    using that inode_blk_range [OF i] z by (auto simp: fs'_def fblock_mark fblock_put_inode layout_values)
  have "mounted fs'" using m by (simp add: fs'_def put_entry_def)
  moreover have "sb_of fs' = sb_of fs" "gd_of fs' = gd_of fs" "block_used fs' = block_used fs"
    using d1 d2 by (simp_all add: fs'_def fs_frame z i)
  moreover have "inode_used fs' n \<longleftrightarrow> n \<noteq> i \<and> inode_used fs n" if "inode_no n" for n
    using that i d1 d2 by (simp add: fs'_def fs_frame z)
  moreover have "inode_at fs' n = inode_at fs n" if "inode_no n" "n \<noteq> i" for n
    using that i d1(5) d2(5) by (simp add: fs'_def fs_frame inode_at_put_inode z)
  moreover have "fblock fs' k = fblock fs k" if "DATA_BLOCK_BASE \<le> k" "k \<noteq> b" for k
    using hi [OF that(1)] that e1(3) e2(3) by simp
  moreover have "blk_entry (fblock fs' b) j' = (if j' = j then free_entry else blk_entry (fblock fs b) j')" if "j' < 32" for j'
    using hi [OF db(4)] e1(4) [OF that] e2(4) [OF that] by simp
  ultimately show ?thesis by (simp add: dropped_def)
qed

lemma drop_entry_and_inode_spec:
  assumes m: "mounted fs" and b: "data_block (unat (l_block loc))" and j: "unat (l_offset loc) < 32"
    and i: "inode_no i" "i < 4096" "d_inode (blk_entry (fblock fs (unat (l_block loc))) (unat (l_offset loc))) = of_nat i"
  shows "\<exists>fs'. drop_entry_and_inode fs loc = Some (FS_SUCCESS, fs') \<and> dropped fs (unat (l_block loc)) (unat (l_offset loc)) i fs'"
proof -
  let ?b = "unat (l_block loc)" and ?j = "unat (l_offset loc)"
  note db = data_blockD [OF b] and z = wf_zero_structs(3,4)
  have i0: "0 < i" using i(1) by (simp add: inode_no_def)
  have len: "length (fblock fs ?b) = MAX_BLOCK_SIZE" by (simp add: layout_values)
  note e1 = put_entry_block [OF z(2) j, where fs = fs and b = ?b]
  define fs1 where "fs1 = put_entry fs ?b ?j zero_entry"
  define fs2 where "fs2 = put_entry fs1 ?b ?j free_entry"
  define fs3 where "fs3 = put_inode fs2 i zero_inode"
  define fs4 where "fs4 = unmark_inode fs3 i"
  have m1: "mounted fs1" "mounted fs2" "mounted fs3" "mounted fs4"
    using m by (simp_all add: fs4_def fs3_def fs2_def fs1_def put_entry_def)
  have r1: "fsRd fs (l_block loc) [] = Some (0, fblock fs ?b)" using mounted_ok [OF m] db(5) by (simp add: fsd.rd_content)
  have r2: "struct_at DIR_ENTRY_SIZE decDirEntry (fblock fs ?b) ?j = Some (blk_entry (fblock fs ?b) ?j)"
    using j len by (intro blk_entry_at) simp_all
  have w1: "fsWr fs (l_block loc) (overwrite (fblock fs ?b) (?j * DIR_ENTRY_SIZE) (encDirEntry zero_entry)) = Some (0, fs1)"
    using mounted_ok [OF m] db(5) e1(2) by (simp add: fsd.wr_put fs1_def put_entry_def)
  have s2: "setEntry fs1 loc free_entry = Some (0, fs2)"
    using setEntry_eq [of fs1 loc free_entry] mounted_ok m1 db(5) j free_entry_facts(1) by (simp add: fs2_def)
  have t3: "insertInodeTable fs2 zero_inode (int i) = Some (FS_SUCCESS, fs3)"
    unfolding fs3_def by (rule insertInodeTable_eq [OF mounted_ok [OF m1(2)] i(1) z(1)])
  have q: "sint (of_nat i :: u32) = int i" "int i sdiv int INODES_PER_GROUP = 0" "int i smod int INODES_PER_GROUP = int i"
    using i(2) by (simp_all add: sint_of_nat_small signed_divide_int_def signed_modulo_int_def sgn_if layout_values)
  have ub: "unat (of_nat INODE_BITMAP_BASE :: u32) = INODE_BITMAP_BASE" by (simp add: layout_values)
  have r4: "fsRd fs3 (of_nat INODE_BITMAP_BASE) bl = Some (0, fblock fs3 INODE_BITMAP_BASE)" if "length bl = MAX_BLOCK_SIZE" for bl
    using mounted_ok [OF m1(3)] that bases_on_disk(4) by (simp add: fsd.rd_content ub)
  have un: "unat (word_of_int (int i - 1) :: u32) = i - 1"
  proof -
    have "(word_of_int (int i - 1) :: u32) = of_nat (i - 1)" using i0 by (simp add: of_nat_diff word_of_int_minus)
    then show ?thesis using i(2) by (simp only:) (rule unat_le_of_nat; simp)
  qed
  have z4: "setZeroBit (word_of_int (int i - 1)) (fblock fs3 INODE_BITMAP_BASE) = Some (and_not_bit (i - 1) (fblock fs3 INODE_BITMAP_BASE))"
    using setZeroBit_eq [of "word_of_int (int i - 1)" "fblock fs3 INODE_BITMAP_BASE"] un i(2) by (simp add: layout_values)
  have w4: "fsWr fs3 (of_nat INODE_BITMAP_BASE) (and_not_bit (i - 1) (fblock fs3 INODE_BITMAP_BASE)) = Some (0, fs4)"
    using mounted_ok [OF m1(3)] by (simp add: fsWr_nat bases_on_disk(4) fs4_def unmark_inode_def bm_simps layout_values(3))
  obtain r5 fs5 where c5: "setSbFreeInodeCount fs4 1 = Some (r5, fs5)" "quiet fs4 fs5" using inode_counts_quiet [OF m1(4)] by metis
  have m5: "mounted fs5" using c5(2) m1(4) by (simp add: quiet_def)
  have "inode_no (unat (of_nat i :: u32))" using i by (simp add: unat_le_of_nat)
  then obtain r6 fs6 where c6: "setGdFreeInodeCount fs5 (of_nat i) 1 = Some (r6, fs6)" "quiet fs5 fs6"
    using inode_counts_quiet [OF m5] by metis
  have "dropped fs ?b ?j i fs4" unfolding fs4_def fs3_def fs2_def fs1_def by (rule drop_core [OF m b j i(1)])
  then have "dropped fs ?b ?j i fs6" using quiet_dropped b c5(2) c6(2) by blast
  moreover have "upd (d_name zero_entry) 0 DIR_ENTRY_FREE = Some ((d_name zero_entry)[0 := DIR_ENTRY_FREE])"
    by (simp add: zero_entry_name)
  ultimately show ?thesis
    unfolding drop_entry_and_inode_def
    using r1 r2 e1(1,2) w1 s2 t3 r4 z4 w4 c5(1) c6(1) q i(3) by (simp add: Let_def free_entry_def)
qed

section \<open>The directory without the entry\<close>

definition removed :: "Filesystem \<Rightarrow> Filesystem \<Rightarrow> nat \<Rightarrow> nat \<Rightarrow> bool" where
  "removed fs fs' n g \<longleftrightarrow> slots fs' n = slots fs n \<and> g < slots fs n \<and> \<not> ended (slot fs n g) \<and>
     (\<forall>j < slots fs n. slot fs' n j = (if j = g then free_entry else slot fs n j))"

lemma free_entry_other: "\<not> ended free_entry" "proper k \<Longrightarrow> d_name free_entry \<noteq> k"
  using free_entry_facts(2) unused_not_ended proper_entry by blast+

lemma free_entry_not_proper: "\<not> proper (d_name free_entry)"
  using free_entry_other(2) by blast

lemma removed_map:
  assumes rem: "removed fs fs' n g" and u: "unique_names fs n" and k: "found fs n (Some k) = Some g" "proper k"
  shows "dir_map fs' n = (dir_map fs n)(k := None)"
proof
  fix l
  have s: "slots fs' n = slots fs n" "\<And>j. j < slots fs n \<Longrightarrow> slot fs' n j = (if j = g then free_entry else slot fs n j)"
    using rem by (auto simp: removed_def)
  have g: "g < slots fs n" "d_name (slot fs n g) = k" "\<forall>j < g. \<not> ended (slot fs n j)" "\<not> ended (slot fs n g)"
    using found_key_Some [OF k(2), of fs n "[]" g] k(1) rem by (auto simp: removed_def)
  have en: "ended (slot fs' n j) = ended (slot fs n j)" if "j < slots fs n" for j
    using s(2) [OF that] g(4) free_entry_other(1) by simp
  have same: "found fs' n (Some (l @ [])) = found fs n (Some (l @ []))" if l: "proper l" "l \<noteq> k"
  proof (rule found_key_cong [OF l(1)])
    have nm: "d_name (slot fs' n j) = l \<longleftrightarrow> d_name (slot fs n j) = l" if "j < slots fs n" for j
      using s(2) [OF that] g(2) l free_entry_other(2) by auto
    have below: "(\<not> ended (slot fs' n j) \<and> d_name (slot fs' n j) \<noteq> l) = (\<not> ended (slot fs n j) \<and> d_name (slot fs n j) \<noteq> l)"
      if "j < h" "h < slots fs n" for j h using nm [of j] en [of j] that by simp
    show "(h < slots fs' n \<and> d_name (slot fs' n h) = l \<and> (\<forall>j < h. \<not> ended (slot fs' n j) \<and> d_name (slot fs' n j) \<noteq> l)) \<longleftrightarrow>
        (h < slots fs n \<and> d_name (slot fs n h) = l \<and> (\<forall>j < h. \<not> ended (slot fs n j) \<and> d_name (slot fs n j) \<noteq> l))" for h
      using nm [of h] below [of _ h] s(1) by (cases "h < slots fs n") simp_all
  qed
  have gone: "found fs' n (Some (k @ [])) = None"
  proof (rule ccontr)
    assume "found fs' n (Some (k @ [])) \<noteq> None"
    then obtain h where "found fs' n (Some (k @ [])) = Some h" by blast
    then have h: "h < slots fs n" "d_name (slot fs' n h) = k" "\<forall>j < h. \<not> ended (slot fs' n j)"
      using found_key_Some [OF k(2), of fs' n "[]" h] s(1) by auto
    have hg: "h \<noteq> g" using h(1,2) s(2) free_entry_other(2) [OF k(2)] by auto
    then have nh: "d_name (slot fs n h) = k" using h s(2) by auto
    have "\<not> ended (slot fs n h)" using proper_entry [of "slot fs n h"] nh k(2) by simp
    then have e: "\<forall>j \<le> h. \<not> ended (slot fs n j)" using h en by (auto simp: le_less)
    have e': "\<forall>j \<le> g. \<not> ended (slot fs n j)" using g by (auto simp: le_less)
    show False using u hg h(1) g(1,2) nh k(2) e e' unfolding unique_names_def by (metis nat_neq_iff)
  qed
  show "dir_map fs' n l = ((dir_map fs n)(k := None)) l"
  proof (cases "proper l \<and> l \<noteq> k")
    case True
    have slot: "slot fs' n h = slot fs n h" if "found fs n (Some (l @ [])) = Some h" for h
    proof -
      have "h < slots fs n" "d_name (slot fs n h) = l" using found_key_Some [of l fs n "[]" h] True that by auto
      moreover have "h \<noteq> g" using calculation(2) g(2) True by metis
      ultimately show ?thesis using s(2) [of h] by simp
    qed
    have fnd: "found fs' n (Some l) = found fs n (Some l)" using same True by simp
    show ?thesis
    proof (cases "found fs n (Some l)")
      case None
      then show ?thesis using True fnd by (simp add: dir_map_def)
    next
      case (Some h)
      then have "slot fs' n h = slot fs n h" using slot [of h] by simp
      then show ?thesis using True fnd Some by (simp add: dir_map_def)
    qed
  next
    case False
    then consider "l = k" | "\<not> proper l" "l \<noteq> k" by blast
    then show ?thesis by cases (use gone in \<open>simp_all add: dir_map_def\<close>)
  qed
qed

lemma removed_unique:
  assumes rem: "removed fs fs' n g" and u: "unique_names fs n"
  shows "unique_names fs' n"
  unfolding unique_names_def
proof (intro allI impI)
  fix h h' assume a: "h < slots fs' n" "h' < h" "\<forall>j \<le> h. \<not> ended (slot fs' n j)" "proper (d_name (slot fs' n h))"
  have s: "slots fs' n = slots fs n" "\<And>j. j < slots fs n \<Longrightarrow> slot fs' n j = (if j = g then free_entry else slot fs n j)" "\<not> ended (slot fs n g)"
    using rem by (auto simp: removed_def)
  have "h \<noteq> g" using a s free_entry_not_proper by auto
  moreover have "\<forall>j \<le> h. \<not> ended (slot fs n j)"
  proof (intro allI impI)
    fix j assume "j \<le> h"
    then show "\<not> ended (slot fs n j)" using a(1,3) s by (cases "j = g") force+
  qed
  moreover have "proper (d_name (slot fs n h))" using a \<open>h \<noteq> g\<close> s by auto
  ultimately have "d_name (slot fs n h) \<noteq> d_name (slot fs n h')" using u a s unfolding unique_names_def by metis
  then show "d_name (slot fs' n h) \<noteq> d_name (slot fs' n h')"
    using a s \<open>h \<noteq> g\<close> free_entry_other(2) by (metis less_trans)
qed

section \<open>Removing a file\<close>

lemma remove_state:
  assumes inv: "fs_inv fs" and i: "live fs i" "i \<noteq> n" and n: "live fs n"
    and fr: "freed fs (owned fs i) fs1" and dr: "dropped fs1 b j i fs2" and b: "b = unat (owned fs n ! (g div 32))" "j = g mod 32" and g: "g < slots fs n"
  shows "fs_inv fs2" "live fs2 m \<longleftrightarrow> m \<noteq> i \<and> live fs m" "free_blocks fs2 = free_blocks fs + length (owned fs i)"
    "owned fs2 n = owned fs n" "x < slots fs n \<Longrightarrow> slot fs2 n x = (if x = g then free_entry else slot fs n x)"
    "live fs m \<Longrightarrow> m \<noteq> n \<Longrightarrow> m \<noteq> i \<Longrightarrow> file_content fs2 m = file_content fs m"
proof -
  note fd = fs_invD [OF inv]
  have own: "data_block (unat c)" if "live fs m" "c \<in> set (owned fs m)" for m c using fd(4) [OF that(1)] that(2) by (auto simp: inode_wf_def)
  have fb1: "fblock fs1 k = fblock fs k" if "k \<notin> {SUPER_BLOCK_BASE, GDT_BASE, BLOCK_BITMAP_BASE} \<union> unat ` set (owned fs i)" for k
    using fr that by (simp add: freed_def)
  have low: "k \<notin> unat ` set (owned fs i)" if "k < DATA_BLOCK_BASE" for k using own [OF i(1)] that by (fastforce simp: data_block_def)
  have iu1: "inode_used fs1 = inode_used fs" by (rule inode_used_frame) (use low in \<open>simp add: fb1 layout_values\<close>)
  have at1: "inode_at fs1 m = inode_at fs m" if "inode_no m" for m
    by (rule inode_at_frame) (use that low in \<open>auto simp: fb1 layout_values\<close>)
  have used: "block_used fs2 k \<longleftrightarrow> block_used fs k \<and> k \<notin> unat ` set (owned fs i)" if "k < BLOCKS_PER_GROUP" for k
    using fr dr that by (simp add: freed_def dropped_def)
  have iu2: "inode_used fs2 m \<longleftrightarrow> m \<noteq> i \<and> inode_used fs m" if "inode_no m" for m using dr that iu1 by (simp add: dropped_def)
  have at2: "inode_at fs2 m = inode_at fs m" if "live fs m" "m \<noteq> i" for m using dr that at1 by (simp add: dropped_def live_def)
  note li = lose_inode [OF inv _ i(1) used _ _ iu2 at2]
  have c: "mounted fs2" "sb_freeBlockCount (sb_of fs2) = sb_freeBlockCount (sb_of fs) + of_nat (length (owned fs i))"
    "gd_freeBlocksCount (gd_of fs2) = gd_freeBlocksCount (gd_of fs) + of_nat (length (owned fs i))"
    using fr dr by (simp_all add: freed_def dropped_def)
  show "fs_inv fs2" "live fs2 m \<longleftrightarrow> m \<noteq> i \<and> live fs m" "free_blocks fs2 = free_blocks fs + length (owned fs i)"
    using li c by simp_all
  show own2: "owned fs2 n = owned fs n" using at2 [OF n] i(2) by (simp add: owned_def)
  have blk: "fblock fs2 (unat d) = fblock fs (unat d)" if "live fs m" "m \<noteq> i" "d \<in> set (owned fs m)" "unat d \<noteq> b" for m d
  proof -
    have "unat d \<notin> unat ` set (owned fs i)" using fd(5) [OF that(1) i(1) that(2)] that(3) by (auto simp: unat_image_iff)
    moreover have "DATA_BLOCK_BASE \<le> unat d" using own [OF that(1,3)] by (simp add: data_block_def)
    ultimately show ?thesis using dr that(4) fb1 [of "unat d"] by (simp add: dropped_def layout_values)
  qed
  have gb: "owned fs n ! (g div 32) \<in> set (owned fs n)" using slot_block [OF g] by simp
  have b1: "fblock fs1 b = fblock fs b"
  proof (rule fb1)
    have "b \<notin> unat ` set (owned fs i)" using fd(5) [OF n i(1)] i(2) gb b by (auto simp: unat_image_iff)
    then show "b \<notin> {SUPER_BLOCK_BASE, GDT_BASE, BLOCK_BITMAP_BASE} \<union> unat ` set (owned fs i)"
      using own [OF n gb] b by (auto simp: data_block_def layout_values)
  qed
  show "slot fs2 n x = (if x = g then free_entry else slot fs n x)" if x: "x < slots fs n"
  proof (cases "owned fs n ! (x div 32) = owned fs n ! (g div 32)")
    case True
    have "distinct (owned fs n)" using fd(4) [OF n] by (simp add: inode_wf_def)
    then have "x div 32 = g div 32" using True slot_block [OF g] slot_block [OF x] by (simp add: nth_eq_iff_index_eq)
    then have "x = g \<longleftrightarrow> x mod 32 = g mod 32" by (metis div_mult_mod_eq)
    then show ?thesis using dr b1 True b own2 by (simp add: slot_def dropped_def)
  next
    case False
    then have "x \<noteq> g" "unat (owned fs n ! (x div 32)) \<noteq> b" using b by (auto simp: word_unat_eq_iff)
    then show ?thesis using blk [OF n _ _] i(2) nth_mem [OF slot_block [OF x]] own2 by (simp add: slot_def)
  qed
  show "file_content fs2 m = file_content fs m" if m: "live fs m" "m \<noteq> n" "m \<noteq> i"
  proof (rule file_content_cong)
    show "inode_at fs2 m = inode_at fs m" by (rule at2 [OF m(1,3)])
    fix d assume d: "d \<in> set (owned fs m)"
    have "d \<noteq> owned fs n ! (g div 32)" using fd(5) [OF m(1) n m(2)] d gb by auto
    then have "unat d \<noteq> b" by (simp add: word_unat_eq_iff b)
    then show "fblock fs2 (unat d) = fblock fs (unat d)" by (rule blk [OF m(1,3) d])
  qed
qed

lemma unat_slot: "unat (of_nat (g mod 32) :: u32) = g mod 32"
  by (rule unat_le_of_nat) simp

lemma fsLookup_map:
  assumes "fs_inv fs" "live fs n" "n = unat (d_inode (n_entry parent))" and "terminated nm" "valid83 (cstr nm)" "length (cstr nm) \<le> 11"
  shows "\<exists>r node. fsLookup fs parent nm ret = Some (r, node) \<and>
    (case found fs n (Some (key (cstr nm))) of Some g \<Rightarrow> r = FS_SUCCESS \<and> node = slot_node fs n g | None \<Rightarrow> r = FS_ERROR)"
proof -
  let ?k = "key (cstr nm)"
  obtain x where look: "fsLookup fs parent nm ret = lookupEntry fs (d_inode (n_entry parent)) (Some (?k @ x)) ret"
    using fsLookup_valid [of nm fs parent ret] assms(4-6) by auto
  note ok = assms(1) assms(2) [unfolded assms(3)] key_name_ok [OF assms(5), of x]
  have f: "found fs (unat (d_inode (n_entry parent))) (Some (?k @ x)) = found fs n (Some ?k)"
    using found_suffix [OF proper_key [OF assms(5)]] assms(3) by simp
  show ?thesis
  proof (cases "found fs n (Some ?k)")
    case None
    then show ?thesis using lookup_missing [OF ok, of ret] f look by auto
  next
    case (Some g)
    then show ?thesis using lookup_found [OF ok, of g ret] f look assms(3) by auto
  qed
qed

lemma fsLookup_spec:
  assumes "fs_inv fs" "live fs n" "n = unat (d_inode (n_entry parent))" and "terminated nm" "valid83 (cstr nm)" "length (cstr nm) \<le> 11"
  shows "\<exists>r node. fsLookup fs parent nm ret = Some (r, node) \<and>
    (case dir_map fs n (key (cstr nm)) of None \<Rightarrow> r = FS_ERROR
     | Some i \<Rightarrow> r = FS_SUCCESS \<and> d_inode (n_entry node) = i \<and> (live fs (unat i) \<longrightarrow> file_node fs node (unat i)))"
proof -
  let ?k = "key (cstr nm)"
  obtain r node where l: "fsLookup fs parent nm ret = Some (r, node)"
    "case found fs n (Some ?k) of Some g \<Rightarrow> r = FS_SUCCESS \<and> node = slot_node fs n g | None \<Rightarrow> r = FS_ERROR"
    using fsLookup_map [OF assms] by blast
  show ?thesis
  proof (cases "found fs n (Some ?k)")
    case None
    then show ?thesis using l dir_map_found [OF assms(5), of fs n "[]"] by simp
  next
    case (Some g)
    have g: "g < slots fs n" using found_key_Some [OF proper_key [OF assms(5)], of fs n "[]" g] Some by simp
    have "file_node fs (slot_node fs n g) (unat (d_inode (slot fs n g)))" if "live fs (unat (d_inode (slot fs n g)))"
      unfolding slot_node_def by (rule slot_file_node [OF assms(1,2) g]) (use that in \<open>simp_all add: slot_loc_def\<close>)
    then show ?thesis using l Some dir_map_found [OF assms(5), of fs n "[]"] by (simp add: slot_node_def)
  qed
qed

text \<open>C7: Looking up a name. On a consistent file system \<open>fsLookup\<close> of a well formed name of at most eleven
  characters always returns: it fails exactly when the directory, as a map, does not have the name, and
  otherwise returns a node that carries the inode number the map has and points at its entry.\<close>

theorem fsLookup_correct:
  assumes "fs_inv fs" "live fs n" "n = unat (d_inode (n_entry parent))" and "terminated nm" "valid83 (cstr nm)" "length (cstr nm) \<le> 11"
  shows "\<exists>r node. fsLookup fs parent nm ret = Some (r, node) \<and>
    (case dir_map fs n (key (cstr nm)) of None \<Rightarrow> r = FS_ERROR
     | Some i \<Rightarrow> r = FS_SUCCESS \<and> d_inode (n_entry node) = i \<and> (live fs (unat i) \<longrightarrow> file_node fs node (unat i)))"
  by (rule fsLookup_spec [OF assms])

lemma fsRemove_spec:
  assumes "fs_inv fs" "dir_ok fs n" "unique_names fs n" "n = unat (d_inode (n_entry parent))"
    and "terminated nm" "valid83 (cstr nm)" "length (cstr nm) \<le> 11"
    and "fsLookup fs parent nm ret = Some (FS_SUCCESS, node)"
    and "i = unat (d_inode (n_entry node))" "live fs i" "i \<noteq> n" "i < 4096"
    and "i_mode (inode_at fs i) AND FILE_TYPE_DIR = 0" "length (owned fs i) \<le> FS_D_BLOCKS"
  shows "\<exists>fs'. fsRemove fs parent node = Some (FS_SUCCESS, fs') \<and> fs_inv fs' \<and> dir_ok fs' n \<and> unique_names fs' n \<and>
    dir_map fs' n = (dir_map fs n)(key (cstr nm) := None) \<and> (\<forall>m. live fs' m \<longleftrightarrow> m \<noteq> i \<and> live fs m) \<and>
    free_blocks fs' = free_blocks fs + length (owned fs i) \<and>
    (\<forall>m. live fs m \<and> m \<noteq> n \<and> m \<noteq> i \<longrightarrow> file_content fs' m = file_content fs m)"
proof -
  let ?k = "key (cstr nm)"
  have n: "live fs n" and m: "mounted fs" using assms(2) fs_invD(1) [OF assms(1)] by (simp_all add: dir_ok_def)
  have pk: "proper ?k" by (rule proper_key [OF assms(6)])
  obtain g where g: "found fs n (Some ?k) = Some g" "node = slot_node fs n g"
    using fsLookup_map [OF assms(1) n assms(4-7), of ret] assms(8)
    by (cases "found fs n (Some ?k)") (simp_all add: FS_SUCCESS_def FS_ERROR_def)
  then have s: "g < slots fs n" "d_name (slot fs n g) = ?k" using found_key_Some [OF pk, of fs n "[]" g] by auto
  let ?b = "owned fs n ! (g div 32)" and ?loc = "n_location node"
  have loc: "l_block ?loc = ?b" "unat (l_offset ?loc) = g mod 32" using g(2) by (simp_all add: slot_node_def slot_loc_def unat_slot)
  have e: "d_inode (n_entry node) = d_inode (slot fs n g)" using g(2) by (simp add: slot_node_def)
  have di: "d_inode (slot fs n g) = of_nat i" using assms(9) e by simp
  have no: "inode_no i" "inode_no (unat (d_inode (n_entry node)))" using assms(9,10) by (simp_all add: live_def)
  let ?x = "inode_at fs i"
  have got: "getInode fs (d_inode (n_entry node)) = Some (Some ?x)" using getInode_eq [OF mounted_ok [OF m] no(2)] assms(9) by simp
  have x: "length (i_block ?x) = 15" "unat (i_blocks ?x) \<le> 12"
    using wf_inode_at [of fs i] owned_nth(1) [OF assms(1,10)] assms(14) by (simp_all add: wfInode_def layout_values)
  have dt: "\<forall>b \<in> set (owned fs i). data_block (unat b)" using fs_invD(4) [OF assms(1,10)] by (simp add: inode_wf_def)
  obtain fs1 where fr: "free_inode_blocks fs ?x 0 = Some fs1" "freed fs (owned fs i) fs1"
    using free_inode_blocks_spec [OF m, of ?x 0] x dt by (auto simp: owned_def layout_values)
  have bn: "?b \<in> set (owned fs n)" "data_block (unat ?b)" using slot_block [OF s(1)] owned_on_disk(2) [OF assms(1) n] by simp_all
  have "unat ?b \<notin> unat ` set (owned fs i)" using fs_invD(5) [OF assms(1) n assms(10)] assms(11) bn(1) by (auto simp: unat_image_iff)
  then have "fblock fs1 (unat ?b) = fblock fs (unat ?b)"
    using fr(2) data_blockD(4) [OF bn(2)] by (simp add: freed_def layout_values)
  then have en: "d_inode (blk_entry (fblock fs1 (unat (l_block ?loc))) (unat (l_offset ?loc))) = of_nat i"
    using di loc by (simp add: slot_def)
  have m1: "mounted fs1" using fr(2) by (simp add: freed_def)
  obtain fs2 where dr: "drop_entry_and_inode fs1 ?loc = Some (FS_SUCCESS, fs2)" "dropped fs1 (unat ?b) (g mod 32) i fs2"
    using drop_entry_and_inode_spec [OF m1 _ _ no(1) assms(12) en] loc bn(2) by auto
  note r = remove_state [OF assms(1,10,11) n fr(2) dr(2) refl refl s(1)]
  have ne: "\<not> ended (slot fs n g)" using proper_entry [of "slot fs n g"] s(2) pk by simp
  have rem: "removed fs fs2 n g" using r(4,5) s(1) ne by (simp add: removed_def slots_def)
  have "dir_end fs2 n = dir_end fs n"
    unfolding dir_end_def using r(4) r(5) ne free_entry_other(1) by (simp add: slots_def) (rule first_from_cong; simp add: slots_def)
  then have "dir_ok fs2 n" using assms(2,11) r(2,4) by (simp add: dir_ok_def cong: option.case_cong)
  moreover have "fsRemove fs parent node = Some (FS_SUCCESS, fs2)"
    unfolding fsRemove_def using got assms(13) fr(1) dr(1) by simp
  ultimately show ?thesis using r removed_map [OF rem assms(3) g(1) pk] removed_unique [OF rem assms(3)] by auto
qed

text \<open>C6: Removing a file. On a consistent file system, let \<open>fsLookup\<close> have found a plain file other than
  the directory itself, with an inode number below 4096 and at most twelve blocks, in a directory without
  duplicate names. Then \<open>fsRemove\<close> of the node succeeds; as a map the directory has lost exactly that name, the inode is
  unused again, its blocks are free, every other file keeps its contents and the file system and the directory
  are consistent.\<close>

theorem fsRemove_correct:
  assumes "fs_inv fs" "dir_ok fs n" "unique_names fs n" "n = unat (d_inode (n_entry parent))"
    and "terminated nm" "valid83 (cstr nm)" "length (cstr nm) \<le> 11"
    and "fsLookup fs parent nm ret = Some (FS_SUCCESS, node)"
    and "i = unat (d_inode (n_entry node))" "live fs i" "i \<noteq> n" "i < 4096"
    and "i_mode (inode_at fs i) AND FILE_TYPE_DIR = 0" "length (owned fs i) \<le> FS_D_BLOCKS"
  shows "\<exists>fs'. fsRemove fs parent node = Some (FS_SUCCESS, fs') \<and> fs_inv fs' \<and> dir_ok fs' n \<and> unique_names fs' n \<and>
    dir_map fs' n = (dir_map fs n)(key (cstr nm) := None) \<and> (\<forall>m. live fs' m \<longleftrightarrow> m \<noteq> i \<and> live fs m) \<and>
    free_blocks fs' = free_blocks fs + length (owned fs i) \<and>
    (\<forall>m. live fs m \<and> m \<noteq> n \<and> m \<noteq> i \<longrightarrow> file_content fs' m = file_content fs m)"
  by (rule fsRemove_spec [OF assms])

end
