(* ===== verification/Fs_Lifecycle.thy ===== *)
theory Fs_Lifecycle
  imports Fs_Format Fs_Remove
begin

text \<open>
  The operations together: the life of a file from its creation to its removal, and the root directory
  of a freshly formatted disk as a concrete directory to run them on.
\<close>

section \<open>Writing does not disturb the directory\<close>

lemma unchanged_same_slots:
  assumes "fs_inv fs" "live fs n" "unchanged_but i fs fs'" "i \<noteq> n"
  shows "same_slots fs fs' n"
proof (rule same_slotsI [OF assms(1,2)])
  have "inode_at fs' n = inode_at fs n" using assms(2-4) by (simp add: unchanged_but_def)
  then show "owned fs' n = owned fs n" by (simp add: owned_def)
  show "fblock fs' b = fblock fs b" if "b \<in> unat ` set (owned fs n)" for b
    using assms(2-4) that by (auto simp: unchanged_but_def)
qed

lemma unchanged_dir:
  assumes "fs_inv fs" "dir_ok fs n" "unchanged_but i fs fs'" "i \<noteq> n"
  shows "dir_ok fs' n" "dir_map fs' n = dir_map fs n" "unique_names fs' n = unique_names fs n"
proof -
  have n: "live fs n" using assms(2) by (simp add: dir_ok_def)
  have ss: "same_slots fs fs' n" by (rule unchanged_same_slots [OF assms(1) n assms(3,4)])
  note d = same_slots_dir [OF ss]
  show "dir_map fs' n = dir_map fs n" "unique_names fs' n = unique_names fs n" using d by simp_all
  have "owned fs' n = owned fs n" "live fs' n" using ss n assms(3) by (simp_all add: same_slots_def unchanged_but_def)
  then show "dir_ok fs' n" using assms(2) d(3) n by (simp add: dir_ok_def cong: option.case_cong)
qed

lemma file_mode_plain: "file_mode AND FILE_TYPE_DIR = 0"
  by (simp add: USER_PERMISSION_def FILE_TYPE_DIR_def)

section \<open>The life of a file\<close>

text \<open>C3: The life of a file. On a consistent file system with room, a new name can be created, written with up to one block
  of bytes, looked up under its name and read back: what \<open>fsRead\<close> at any offset returns are the bytes written from
  there on. Removing what was
  looked up gives a consistent file system whose directory is, as a map, what it was at the beginning, with the
  same inodes in use and the same contents in all other files.\<close>

theorem file_lifecycle:
  assumes "fs_inv fs" "dir_ok fs n" "unique_names fs n" "n = unat (d_inode (n_entry parent))" "9 \<le> length stk"
    and "terminated nm" "valid83 (cstr nm)" "length (cstr nm) \<le> 11" "dir_map fs n (key (cstr nm)) = None"
    and "gd_freeInodesCount (fs_gd fs) \<noteq> 0" "inode_no j" "\<not> inode_used fs j" "j < 4096" "2 \<le> free_blocks fs" "has_room fs n"
    and "unat len \<le> MAX_BLOCK_SIZE" "unat len \<le> length buffer"
    and "0 < unat rlen" "unat rlen \<le> length buf" "unat rlen < 2 ^ 31" "0 \<le> off" "off < 2 ^ 31"
  defines "k \<equiv> min (unat rlen) (min (unat len - nat off) (MAX_BLOCK_SIZE - nat off mod MAX_BLOCK_SIZE))"
  shows "\<exists>node fs1 fs2 node2 fs3. fsCreate stk fs parent nm ret = Some (FS_SUCCESS, node, fs1) \<and>
    fsWrite fs1 node 0 len buffer = Some (FS_SUCCESS, fs2) \<and>
    fsLookup fs2 parent nm ret2 = Some (FS_SUCCESS, node2) \<and>
    fsRead fs2 (Some node2) off rlen (Some buf) = Some (int k, Some (bslice (nat off) k (take (unat len) buffer) @ drop k buf)) \<and>
    fsRemove fs2 parent node2 = Some (FS_SUCCESS, fs3) \<and> fs_inv fs3 \<and> dir_ok fs3 n \<and> dir_map fs3 n = dir_map fs n \<and>
    (\<forall>m. live fs3 m = live fs m) \<and> (\<forall>m. live fs m \<and> m \<noteq> n \<longrightarrow> file_content fs3 m = file_content fs m)"
proof -
  let ?k = "key (cstr nm)"
  obtain i node fs1 where cr: "fsCreate stk fs parent nm ret = Some (FS_SUCCESS, node, fs1)" "fs_inv fs1" "dir_ok fs1 n" "unique_names fs1 n"
    "dir_map fs1 n = (dir_map fs n)(?k \<mapsto> of_nat i)" "\<not> live fs i" "\<forall>m. live fs1 m \<longleftrightarrow> m = i \<or> live fs m" "i \<le> j"
    "i_mode (inode_at fs1 i) = file_mode" "length (owned fs1 i) = 1" "file_node fs1 node i"
    "\<forall>m. live fs m \<and> m \<noteq> n \<longrightarrow> file_content fs1 m = file_content fs m"
    using fsCreate_spec [OF assms(1-12,14,15), of ret] by metis
  have i: "live fs1 i" "i < 4096" "i \<noteq> n" using cr(6-8) assms(2,13) by (auto simp: dir_ok_def)
  have u: "unat (of_nat i :: u32) = i" using i(2) by (simp add: unat_le_of_nat)
  have sz: "unat 0 + unat len \<le> FS_D_BLOCKS * MAX_BLOCK_SIZE" using assms(16) by (simp add: layout_values)
  have wc: "unat (write_block_count 0 len) = 1"
    using write_block_count_val [of 0 len] assms(16) by (auto simp: layout_values max_def)
  have "unat (i_blocks (inode_at fs1 i)) = 1" using owned_nth(1) [OF cr(2) i(1)] cr(10) by simp
  then obtain fs2 where w: "fsWrite fs1 node 0 len buffer = Some (FS_SUCCESS, fs2)" "fs_inv fs2" "unchanged_but i fs1 fs2"
    "file_content fs2 i = take (unat len) buffer" "i_mode (inode_at fs2 i) = file_mode" "length (owned fs2 i) = 1"
    using fsWrite_spec [OF cr(2,11) sz assms(17)] cr(9) wc by auto
  note d = unchanged_dir [OF cr(2,3) w(3) i(3)]
  have lv: "live fs2 m \<longleftrightarrow> live fs1 m" for m using w(3) by (simp add: unchanged_but_def)
  have n: "live fs2 n" using d(1) by (simp add: dir_ok_def)
  have m: "dir_map fs2 n ?k = Some (of_nat i)" using d(2) cr(5) by simp
  obtain node2 where l: "fsLookup fs2 parent nm ret2 = Some (FS_SUCCESS, node2)" "d_inode (n_entry node2) = of_nat i"
    using fsLookup_spec [OF w(2) n assms(4,6-8), of ret2] m by auto
  have ni: "unat (d_inode (n_entry node2)) = i" using l(2) u by simp
  have li: "live fs2 i" using lv i(1) by simp
  have rd: "nat off + unat rlen < 2 ^ 32" using assms(20-22) by (simp add: nat_less_iff)
  have r: "fsRead fs2 (Some node2) off rlen (Some buf) =
      Some (int k, Some (bslice (nat off) k (take (unat len) buffer) @ drop k buf))"
    using fsRead_spec [OF w(2) _ assms(21,22,18) rd assms(19), of node2] ni li w(4) assms(17)
    by (simp add: read_size_def k_def min_absorb2)
  obtain fs3 where rm: "fsRemove fs2 parent node2 = Some (FS_SUCCESS, fs3)" "fs_inv fs3" "dir_ok fs3 n"
    "dir_map fs3 n = (dir_map fs2 n)(?k := None)" "\<forall>m. live fs3 m \<longleftrightarrow> m \<noteq> i \<and> live fs2 m"
    "\<forall>m. live fs2 m \<and> m \<noteq> n \<and> m \<noteq> i \<longrightarrow> file_content fs3 m = file_content fs2 m"
    using fsRemove_spec [OF w(2) d(1) _ assms(4,6-8) l(1) ni [symmetric] li i(3,2)] d(3) cr(4) w(5,6) file_mode_plain
    by (auto simp: layout_values)
  have "dir_map fs3 n = dir_map fs n" using rm(4) d(2) cr(5) assms(9) by (simp add: fun_upd_idem)
  moreover have "\<forall>m. live fs3 m = live fs m" using rm(5) lv cr(6,7) by auto
  moreover have "\<forall>m. live fs m \<and> m \<noteq> n \<longrightarrow> file_content fs3 m = file_content fs m"
  proof (intro allI impI)
    fix m assume a: "live fs m \<and> m \<noteq> n"
    then have "m \<noteq> i" "live fs1 m" using cr(6,7) by auto
    then show "file_content fs3 m = file_content fs m"
      using a rm(6) unchanged_content [OF w(3), of m] lv cr(12) by simp
  qed
  ultimately show ?thesis using cr(1) w(1) l(1) r rm(1-3) by blast
qed

section \<open>The root directory of a formatted disk\<close>

lemma demo_disk_facts:
  shows "fblock demo_fs 4 = format_inode_bitmap" "gd_freeInodesCount (fs_gd demo_fs) = gd_freeInodesCount format_gd"
    "g < 32 \<Longrightarrow> slot demo_fs 2 g = (if g = 0 then root_dotdot else if g = 1 then root_dot else zero_entry)"
proof -
  obtain d' R where f: "fsFormat (replicate 4 0) (replicate 992 0) blank_disk = Some (FS_SUCCESS, d')"
    and R: "root_dir_block = Some R"
    and i: "fblock (mount_of blank_fs d') 517 = R" "gd_of (mount_of blank_fs d') = format_gd" "fblock (mount_of blank_fs d') 4 = format_inode_bitmap"
    by (rule format_mount_run [of blank_disk "replicate 4 0" "replicate 992 0" zero_entry blank_fs])
       (use blank_disk_facts wf_zero_structs(4) in auto)
  have demo: "demo_fs = mount_of blank_fs d'" using f by (simp add: demo_fs_def demo_disk_def)
  show "fblock demo_fs 4 = format_inode_bitmap" using i demo by simp
  show "gd_freeInodesCount (fs_gd demo_fs) = gd_freeInodesCount format_gd"
    unfolding demo using i(2) by (simp add: gd_of_def mount_of_def fblock_def layout_values(19))
  show "slot demo_fs 2 g = (if g = 0 then root_dotdot else if g = 1 then root_dot else zero_entry)" if "g < 32"
  proof (rule root_dir_block_ok)
    fix R' assume R': "root_dir_block = Some R'" "length R' = MAX_BLOCK_SIZE"
      and e: "\<And>i. i < 32 \<Longrightarrow> struct_at DIR_ENTRY_SIZE decDirEntry R' i =
        Some (if i = 0 then root_dotdot else if i = 1 then root_dot else zero_entry)"
    have "Some R = Some R'" unfolding R [symmetric] by (rule R'(1))
    then have "blk_entry (fblock demo_fs 517) g = (if g = 0 then root_dotdot else if g = 1 then root_dot else zero_entry)"
      using e [OF that] blk_entry_at [OF R'(2) that] i(1) demo by simp
    then show ?thesis using that demo_facts(3) by (simp add: slot_def)
  qed
qed

lemma root_names_differ: "dotdot_name \<noteq> dot_name"
proof
  assume "dotdot_name = dot_name"
  then have "dotdot_name ! 1 = dot_name ! 1" by simp
  then show False by (simp add: dot_name_def dotdot_name_def)
qed

lemma root_names: "d_name root_dotdot = dotdot_name" "d_name root_dot = dot_name" "\<not> ended root_dotdot" "\<not> ended root_dot"
  "\<not> unused root_dotdot" "\<not> unused root_dot" "dotdot_name ! 0 = 46" "dot_name ! 0 = 46"
  by (simp_all add: root_dotdot_def root_dot_def ended_def unused_def dot_name_def dotdot_name_def DIR_ENTRY_FREE_def DIR_ENTRY_NO_MORE_def)

lemma demo_dir:
  shows "dir_ok demo_fs 2" "unique_names demo_fs 2" "has_room demo_fs 2" "k ! 0 \<noteq> 46 \<Longrightarrow> dir_map demo_fs 2 k = None"
    "\<not> inode_used demo_fs 11" "gd_freeInodesCount (fs_gd demo_fs) \<noteq> 0"
proof -
  have s: "slots demo_fs 2 = 32" using demo_facts(3) by (simp add: slots_def)
  note sl = demo_disk_facts(3)
  have at: "slot demo_fs 2 0 = root_dotdot" "slot demo_fs 2 1 = root_dot" "\<And>g. 2 \<le> g \<Longrightarrow> g < 32 \<Longrightarrow> slot demo_fs 2 g = zero_entry"
    using sl by auto
  have e: "ended (slot demo_fs 2 g) \<longleftrightarrow> 2 \<le> g" if "g < 32" for g
    using sl [OF that] root_names zero_entry_ended by auto
  have de: "dir_end demo_fs 2 = Some 2" unfolding dir_end_Some s using e by simp
  show "dir_ok demo_fs 2" using de demo_facts(2,3) by (simp add: dir_ok_def)
  show "has_room demo_fs 2" using de by (simp add: has_room_def)
  show "unique_names demo_fs 2"
    unfolding unique_names_def s
  proof (intro allI impI)
    fix h h' assume a: "h < 32" "h' < h" "\<forall>j \<le> h. \<not> ended (slot demo_fs 2 j)"
    then have "h = 1" "h' = 0" using e [of h] by auto
    then show "d_name (slot demo_fs 2 h) \<noteq> d_name (slot demo_fs 2 h')" using at root_names root_names_differ by simp
  qed
  show "dir_map demo_fs 2 k = None" if "k ! 0 \<noteq> 46"
  proof (rule ccontr)
    assume "dir_map demo_fs 2 k \<noteq> None"
    then obtain g where g: "proper k" "found demo_fs 2 (Some (k @ [])) = Some g" by (auto simp: dir_map_def split: if_splits)
    then have g': "g < 32" "d_name (slot demo_fs 2 g) = k" using found_key_Some [OF g(1), of demo_fs 2 "[]" g] s by auto
    have "\<not> ended (slot demo_fs 2 g)" using proper_entry [of "slot demo_fs 2 g"] g' g(1) by simp
    then have "g = 0 \<or> g = 1" using e [OF g'(1)] by auto
    then show False using at g'(2) root_names that by auto
  qed
  have "bm_used format_inode_bitmap 10 \<longleftrightarrow> 10 < (10 :: nat)" by (rule format_bits(2)) simp
  then show "\<not> inode_used demo_fs 11" using demo_disk_facts(1) by (simp add: inode_used_def layout_values(22))
  show "gd_freeInodesCount (fs_gd demo_fs) \<noteq> 0"
    unfolding demo_disk_facts(2) by (simp add: format_gd_def fill_values)
qed

text \<open>The name \<open>a.txt\<close> on that disk.\<close>

definition demo_name :: bytes where
  "demo_name = [97, 46, 116, 120, 116, 0]"

lemma demo_name_facts:
  "terminated demo_name" "cstr demo_name = [97, 46, 116, 120, 116]" "valid83 (cstr demo_name)" "length (cstr demo_name) \<le> 11"
  "key (cstr demo_name) ! 0 = 65"
proof -
  show "terminated demo_name" by (simp add: demo_name_def terminated_def)
  show c: "cstr demo_name = [97, 46, 116, 120, 116]" by (simp add: demo_name_def cstr_def)
  show "valid83 (cstr demo_name)" unfolding c by code_simp
  show "length (cstr demo_name) \<le> 11" by (simp add: c)
  show "key (cstr demo_name) ! 0 = 65" unfolding c by code_simp
qed

lemma demo_parent: "unat (d_inode (n_entry demo_node)) = 2"
  by (simp add: demo_node_def root_dotdot_def NUM_OF_ROOT_INODE_def)

lemmas demo_room = demo_facts(1) demo_dir(1,2) demo_parent [symmetric]

lemma demo_fresh: "dir_map demo_fs 2 (key (cstr demo_name)) = None"
  by (rule demo_dir(4)) (simp add: demo_name_facts(5))

lemma inode_no_11: "inode_no 11"
  by (simp add: inode_no_def layout_values)

text \<open>The disk with that file.\<close>

lemma demo_created:
  obtains i node fs1 where "fsCreate (replicate 9 0) demo_fs demo_node demo_name zero_node = Some (FS_SUCCESS, node, fs1)" "fs_inv fs1"
    "dir_ok fs1 2" "unique_names fs1 2" "dir_map fs1 2 (key (cstr demo_name)) = Some (of_nat i)" "live fs1 i" "i \<le> 11" "i \<noteq> 2"
    "i_mode (inode_at fs1 i) = file_mode" "length (owned fs1 i) = 1" "live fs1 2"
proof -
  have l: "live demo_fs 2" by (rule demo_facts(2))
  obtain i node fs1 where "fsCreate (replicate 9 0) demo_fs demo_node demo_name zero_node = Some (FS_SUCCESS, node, fs1)" "fs_inv fs1"
    "dir_ok fs1 2" "unique_names fs1 2" "dir_map fs1 2 = (dir_map demo_fs 2)(key (cstr demo_name) \<mapsto> of_nat i)" "\<not> live demo_fs i"
    "\<forall>m. live fs1 m \<longleftrightarrow> m = i \<or> live demo_fs m" "i \<le> 11" "i_mode (inode_at fs1 i) = file_mode" "length (owned fs1 i) = 1"
    using fsCreate_spec [OF demo_room, of "replicate 9 0" demo_name 11 zero_node]
      demo_name_facts(1,3,4) demo_fresh demo_dir(3,5,6) demo_facts(5) inode_no_11 by auto
  then show ?thesis using that [of node fs1 i] l by auto
qed

theorem fsCreate_correct_witness:
  "\<exists>i node fs'. fsCreate (replicate 9 0) demo_fs demo_node demo_name zero_node = Some (FS_SUCCESS, node, fs') \<and> fs_inv fs' \<and>
     dir_map fs' 2 (key (cstr demo_name)) = Some (of_nat i) \<and> file_node fs' node i \<and> file_content fs' i = []"
proof -
  obtain i node fs' where "fsCreate (replicate 9 0) demo_fs demo_node demo_name zero_node = Some (FS_SUCCESS, node, fs')" "fs_inv fs'"
    "dir_map fs' 2 = (dir_map demo_fs 2)(key (cstr demo_name) \<mapsto> of_nat i)" "file_node fs' node i" "file_content fs' i = []"
    using fsCreate_correct [OF demo_room, of "replicate 9 0" demo_name 11 zero_node]
      demo_name_facts demo_fresh demo_dir demo_facts(5) inode_no_11 by auto
  then show ?thesis by auto
qed

theorem fsCreate_exists_witness:
  "\<exists>node fs1 ret'. fsCreate (replicate 9 0) demo_fs demo_node demo_name zero_node = Some (FS_SUCCESS, node, fs1) \<and>
     fsCreate (replicate 9 0) fs1 demo_node demo_name zero_node = Some (FS_ERROR, ret', fs1)"
proof -
  obtain i node fs1 where c: "fsCreate (replicate 9 0) demo_fs demo_node demo_name zero_node = Some (FS_SUCCESS, node, fs1)" "fs_inv fs1"
    "dir_map fs1 2 (key (cstr demo_name)) = Some (of_nat i)" "live fs1 2"
    by (rule demo_created)
  have "\<exists>ret'. fsCreate (replicate 9 0) fs1 demo_node demo_name zero_node = Some (FS_ERROR, ret', fs1)"
    using fsCreate_exists [OF c(2,4) demo_parent [symmetric] demo_name_facts(1,3,4), of "replicate 9 0" zero_node] c(3) by simp
  with c(1) show ?thesis by blast
qed

theorem fsLookup_correct_witness:
  "\<exists>node fs1 i node2. fsCreate (replicate 9 0) demo_fs demo_node demo_name zero_node = Some (FS_SUCCESS, node, fs1) \<and>
     fsLookup fs1 demo_node demo_name zero_node = Some (FS_SUCCESS, node2) \<and> d_inode (n_entry node2) = of_nat i \<and> file_node fs1 node2 i"
proof -
  obtain i node fs1 where c: "fsCreate (replicate 9 0) demo_fs demo_node demo_name zero_node = Some (FS_SUCCESS, node, fs1)" "fs_inv fs1"
    "dir_map fs1 2 (key (cstr demo_name)) = Some (of_nat i)" "live fs1 i" "i \<le> 11" "live fs1 2"
    by (rule demo_created)
  have "unat (of_nat i :: u32) = i" using c(5) by (simp add: unat_le_of_nat)
  then show ?thesis
    using fsLookup_correct [OF c(2,6) demo_parent [symmetric] demo_name_facts(1,3,4), of zero_node] c by auto
qed

theorem fsRemove_correct_witness:
  "\<exists>node fs1 node2 fs2. fsCreate (replicate 9 0) demo_fs demo_node demo_name zero_node = Some (FS_SUCCESS, node, fs1) \<and>
     fsLookup fs1 demo_node demo_name zero_node = Some (FS_SUCCESS, node2) \<and>
     fsRemove fs1 demo_node node2 = Some (FS_SUCCESS, fs2) \<and> fs_inv fs2 \<and> dir_map fs2 2 (key (cstr demo_name)) = None"
proof -
  obtain i node fs1 where c: "fsCreate (replicate 9 0) demo_fs demo_node demo_name zero_node = Some (FS_SUCCESS, node, fs1)" "fs_inv fs1"
    "dir_ok fs1 2" "unique_names fs1 2" "dir_map fs1 2 (key (cstr demo_name)) = Some (of_nat i)" "live fs1 i" "i \<le> 11" "i \<noteq> 2"
    "i_mode (inode_at fs1 i) = file_mode" "length (owned fs1 i) = 1" "live fs1 2"
    by (rule demo_created)
  obtain node2 where l: "fsLookup fs1 demo_node demo_name zero_node = Some (FS_SUCCESS, node2)" "d_inode (n_entry node2) = of_nat i"
    using fsLookup_spec [OF c(2,11) demo_parent [symmetric] demo_name_facts(1,3,4), of zero_node] c(5) by auto
  have "i = unat (d_inode (n_entry node2))" "i < 4096" using c(7) l(2) by (simp_all add: unat_le_of_nat)
  then show ?thesis
    using fsRemove_correct [OF c(2,3,4) demo_parent [symmetric] demo_name_facts(1,3,4) l(1) _ c(6,8)] c(1,9,10) l(1) file_mode_plain
    by (auto simp: layout_values(6))
qed

theorem file_lifecycle_witness:
  "\<exists>node fs1 fs2 node2 fs3. fsCreate (replicate 9 0) demo_fs demo_node demo_name zero_node = Some (FS_SUCCESS, node, fs1) \<and>
     fsWrite fs1 node 0 3 [104, 105, 33] = Some (FS_SUCCESS, fs2) \<and>
     fsLookup fs2 demo_node demo_name zero_node = Some (FS_SUCCESS, node2) \<and>
     fsRead fs2 (Some node2) 1 8 (Some (replicate 8 0)) = Some (2, Some ([105, 33] @ replicate 6 0)) \<and>
     fsRemove fs2 demo_node node2 = Some (FS_SUCCESS, fs3) \<and> fs_inv fs3 \<and> dir_map fs3 2 = dir_map demo_fs 2"
proof -
  have nine: "9 \<le> length (replicate 9 (0 :: u8))" "2 \<le> free_blocks demo_fs" using demo_facts(5) by simp_all
  note life = file_lifecycle [OF demo_room nine(1) demo_name_facts(1,3,4) demo_fresh demo_dir(6) inode_no_11 demo_dir(5) _ nine(2) demo_dir(3),
      of 3 "[104, 105, 33]" 8 "replicate 8 0" 1 zero_node zero_node]
  then show ?thesis by (auto simp: layout_values(3) bslice_def)
qed

end
