(* ===== verification/Fs_Shell.thy ===== *)
theory Fs_Shell
  imports Fs_Lifecycle Printk
begin

text \<open>
  The layer between the shell and the file system: entry lists (\<open>src/fs/entrylist.c\<close>) and the operations the shell
  calls (\<open>src/fs/fs_shell.c\<close>). Of a \<open>ShellEntry\<close> the fields that are ever read are kept; its private data is the node.
  The memory of list items is a map from addresses; what \<open>kmalloc\<close> returns is an argument, 0 for failure. The
  parameter \<open>stk\<close> stands for uninitialised stack bytes.
\<close>

section \<open>Entry lists\<close>

record ShellEntry =
  se_name :: bytes
  se_isDirectory :: bool
  se_size :: u32
  se_pdata :: FsNode

record ShellEntryListItem =
  li_entry :: ShellEntry
  li_next :: u64

record ShellEntryList =
  el_count :: u32
  el_first :: u64
  el_last :: u64

type_synonym items = "u64 \<rightharpoonup> ShellEntryListItem"

definition initEntryList :: ShellEntryList where
  "initEntryList = \<lparr> el_count = 0, el_first = 0, el_last = 0 \<rparr>"

definition addEntryList :: "u64 \<Rightarrow> ShellEntryList \<Rightarrow> ShellEntry \<Rightarrow> items \<Rightarrow> (int \<times> ShellEntryList \<times> items) option" where
  "addEntryList newItem list entry mem =
    (if newItem = 0 then Some (-1, list, mem)
     else do {
       let mem = mem(newItem \<mapsto> \<lparr> li_entry = entry, li_next = 0 \<rparr>);
       (list, mem) \<leftarrow>
         (if el_count list = 0 then Some (list\<lparr> el_first := newItem, el_last := newItem \<rparr>, mem)
          else do {
            l \<leftarrow> mem (el_last list);
            Some (list\<lparr> el_last := newItem \<rparr>, mem(el_last list \<mapsto> l\<lparr> li_next := newItem \<rparr>)) });
       Some (0, list\<lparr> el_count := el_count list + 1 \<rparr>, mem) })"

text \<open>The \<open>do\<close> loop of \<open>releaseEntryList\<close>; freeing an item takes it out of the memory.\<close>

partial_function (option) release_loop :: "u64 \<Rightarrow> items \<Rightarrow> items option" where
  "release_loop a mem = do {
     item \<leftarrow> mem a;
     let mem = mem(a := None);
     if li_next item \<noteq> 0 then release_loop (li_next item) mem else Some mem }"

definition releaseEntryList :: "ShellEntryList \<Rightarrow> items \<Rightarrow> (ShellEntryList \<times> items) option" where
  "releaseEntryList list mem =
    (if el_count list = 0 then Some (list, mem)
     else do {
       mem \<leftarrow> release_loop (el_first list) mem;
       Some (\<lparr> el_count = 0, el_first = 0, el_last = 0 \<rparr>, mem) })"

section \<open>Names\<close>

fun myStrncpy :: "bytes \<Rightarrow> nat \<Rightarrow> bytes \<Rightarrow> int \<Rightarrow> (bytes \<times> nat) option" where
  "myStrncpy buf dest [] len = None"
| "myStrncpy buf dest (c # src) len =
    (if c \<noteq> 0 \<and> c \<noteq> 0x20 \<and> len > 0 then do {
       buf \<leftarrow> upd buf dest c;
       myStrncpy buf (Suc dest) src (len - 1) }
     else Some (buf, dest))"

text \<open>The characters are signed.\<close>

function myStrnicmp :: "bytes \<Rightarrow> bytes \<Rightarrow> int \<Rightarrow> int option" where
  "myStrnicmp str1 str2 len = (case (str1, str2) of
     (a # as, b # bs) \<Rightarrow>
       if (a \<noteq> 0 \<and> a \<noteq> 0x20 \<or> b \<noteq> 0 \<and> b \<noteq> 0x20) \<and> len > 0 then
         (let c1 = sint (word_of_int (toupper (sint a)) :: u8); c2 = sint (word_of_int (toupper (sint b)) :: u8)
          in if c1 > c2 then Some (-1) else if c1 < c2 then Some 1 else myStrnicmp as bs (len - 1))
       else Some 0
   | _ \<Rightarrow> None)"
  by pat_completeness auto
termination
  by (relation "measure (\<lambda>(str1, str2, len). length str1)") auto

declare myStrnicmp.simps [simp del]

section \<open>Nodes and entries\<close>

definition shellEntryToFsNode :: "ShellEntry \<Rightarrow> FsNode" where
  "shellEntryToFsNode entry = se_pdata entry"

definition entry_name :: "DirEntry \<Rightarrow> bytes option" where
  "entry_name e = do {
     (name, str) \<leftarrow> myStrncpy (replicate 256 0) 0 (entry_name_string e) 8;
     c \<leftarrow> idx (d_name e) 8;
     if c \<noteq> 0x20 then do {
       (name, str) \<leftarrow> myStrncpy name str [46, 0] 1;
       (name, str) \<leftarrow> myStrncpy name str (drop 8 (entry_name_string e)) 3;
       Some name }
     else Some name }"

text \<open>The result of \<open>getInode\<close> is not tested: \<open>ino0\<close> is what the local inode holds when it fails.\<close>

definition fsNodeToShellEntry :: "Inode \<Rightarrow> Filesystem \<Rightarrow> FsNode \<Rightarrow> ShellEntry option" where
  "fsNodeToShellEntry ino0 fs fsEntry = do {
     let inodeno = d_inode (n_entry fsEntry);
     got \<leftarrow> getInode fs inodeno;
     let ino = (case got of None \<Rightarrow> ino0 | Some i \<Rightarrow> i);
     name \<leftarrow> (if inodeno \<noteq> 2 then entry_name (n_entry fsEntry) else Some (replicate 256 0));
     Some \<lparr> se_name = name,
       se_isDirectory = (drop_bit 12 (i_mode ino) = drop_bit 12 0x4000 \<or> inodeno = 2),
       se_size = i_size ino, se_pdata = fsEntry \<rparr> }"

section \<open>Operations\<close>

definition zero_fs :: "Disk \<Rightarrow> Filesystem" where
  "zero_fs disk = \<lparr> fs_sb = decSuperBlock (replicate SUPER_BLOCK_SIZE 0), fs_gd = decGroupDescriptor (replicate GROUP_DESCRIPTOR_SIZE 0), fs_disk = disk \<rparr>"

definition sfsMount :: "bytes \<Rightarrow> bool \<Rightarrow> DirEntry \<Rightarrow> Inode \<Rightarrow> Disk \<Rightarrow> console \<Rightarrow>
    (int \<times> ShellEntry option \<times> Filesystem \<times> console) option" where
  "sfsMount stk kmalloc_ok entry0 ino0 disk con =
    (if \<not> kmalloc_ok then None
     else do {
       (result, fsEntry, fs) \<leftarrow> readSuperblock entry0 (On_Disk (zero_fs disk));
       if result \<noteq> FS_SUCCESS then Some (result, None, fs, con)
       else do {
         con \<leftarrow> printk stk (lit ''number of groups         : %d\<newline>'') [Num (of_nat NUMBER_OF_GROUPS)] con;
         con \<leftarrow> printk stk (lit ''blocks per group         : %d\<newline>'') [Num (ucast (sb_blockPerGroup (fs_sb fs)))] con;
         con \<leftarrow> printk stk (lit ''bytes per block          : %d\<newline>'') [Num (ucast (bytesPerSector (fs_disk fs)))] con;
         con \<leftarrow> printk stk (lit ''kfree block count        : %d\<newline>'') [Num (ucast (sb_freeBlockCount (fs_sb fs)))] con;
         con \<leftarrow> printk stk (map of_char ''kfree inode count'' @ 9 # lit ''     : %d\<newline>'') [Num (ucast (sb_freeInodeCount (fs_sb fs)))] con;
         con \<leftarrow> printk stk (lit ''first non reserved inode : %d\<newline>'') [Num (ucast (sb_firstNonReservedInode (fs_sb fs)))] con;
         con \<leftarrow> printk stk (lit ''inode structure size     : %d\<newline>'') [Num (ucast (sb_inodeStructureSize (fs_sb fs)))] con;
         con \<leftarrow> printk stk (lit ''first data block number  : %d\<newline>\<newline>'') [Num (ucast (sb_firstDataBlockEachGroup (fs_sb fs)))] con;
         node \<leftarrow> fsEntry;
         root \<leftarrow> fsNodeToShellEntry ino0 fs node;
         Some (result, Some root, fs, con) } })"

definition sfsFormat :: "bytes \<Rightarrow> bytes \<Rightarrow> bytes \<Rightarrow> Disk \<Rightarrow> console \<Rightarrow> (int \<times> Disk \<times> console) option" where
  "sfsFormat stk behind_sb behind_gdt disk con = do {
     con \<leftarrow> printk stk (lit ''formatting filesystem\<newline>'') [] con;
     (_, disk) \<leftarrow> fsFormat behind_sb behind_gdt disk;
     Some (1, disk, con) }"

text \<open>The offset is passed on as an \<open>int\<close>.\<close>

definition sfsRead :: "Filesystem \<Rightarrow> ShellEntry \<Rightarrow> u64 \<Rightarrow> u64 \<Rightarrow> bytes \<Rightarrow> (int \<times> bytes) option" where
  "sfsRead fs entry offset len buffer = do {
     (r, buf) \<leftarrow> fsRead fs (Some (shellEntryToFsNode entry)) (sint (ucast offset :: u32)) len (Some buffer);
     buf \<leftarrow> buf;
     Some (r, buf) }"

definition sfsWrite :: "Filesystem \<Rightarrow> ShellEntry \<Rightarrow> u64 \<Rightarrow> u64 \<Rightarrow> bytes \<Rightarrow> (int \<times> Filesystem) option" where
  "sfsWrite fs entry offset len buffer = fsWrite fs (shellEntryToFsNode entry) offset len buffer"

text \<open>\<open>fsCreate\<close> leaves the caller's node alone when the name is malformed or there is no inode left; turning the
  uninitialised node into an entry is then undefined.\<close>

definition name_error :: "bytes \<Rightarrow> bool option" where
  "name_error entryName = do {
     copied \<leftarrow> strncpy (Some (replicate MAX_NAME_LENGTH 0)) (Some entryName) (MAX_NAME_LENGTH - 1);
     name \<leftarrow> copied;
     (r, _) \<leftarrow> formatName name;
     Some (r = FS_ERROR) }"

definition sfsCreate :: "bytes \<Rightarrow> Inode \<Rightarrow> Filesystem \<Rightarrow> ShellEntry \<Rightarrow> bytes \<Rightarrow> (int \<times> ShellEntry \<times> Filesystem) option" where
  "sfsCreate stk ino0 fs parent name = do {
     bad \<leftarrow> name_error name;
     if gd_freeInodesCount (fs_gd fs) = 0 \<or> bad then None
     else do {
       (result, fsEntry, fs) \<leftarrow> fsCreate stk fs (shellEntryToFsNode parent) name zero_node;
       entry \<leftarrow> fsNodeToShellEntry ino0 fs fsEntry;
       Some (result, entry, fs) } }"

definition sfsLookup :: "Inode \<Rightarrow> Filesystem \<Rightarrow> ShellEntry \<Rightarrow> bytes \<Rightarrow> (int \<times> ShellEntry option) option" where
  "sfsLookup ino0 fs parent name = do {
     (result, fsEntry) \<leftarrow> fsLookup fs (shellEntryToFsNode parent) name zero_node;
     if result \<noteq> 0 then Some (result, None)
     else do { entry \<leftarrow> fsNodeToShellEntry ino0 fs fsEntry; Some (result, Some entry) } }"

text \<open>\<open>adder\<close> on the nodes that \<open>fsReadDir\<close> visits; \<open>allocs\<close> are the addresses \<open>kmalloc\<close> returns.\<close>

primrec add_nodes :: "Inode \<Rightarrow> Filesystem \<Rightarrow> FsNode list \<Rightarrow> u64 list \<Rightarrow> ShellEntryList \<Rightarrow> items \<Rightarrow> (ShellEntryList \<times> items) option" where
  "add_nodes ino0 fs [] allocs list mem = Some (list, mem)"
| "add_nodes ino0 fs (node # nodes) allocs list mem = do {
     entry \<leftarrow> fsNodeToShellEntry ino0 fs node;
     a \<leftarrow> idx allocs 0;
     (_, list, mem) \<leftarrow> addEntryList a list entry mem;
     add_nodes ino0 fs nodes (drop 1 allocs) list mem }"

definition sfsReadDir :: "bool \<Rightarrow> u64 list \<Rightarrow> DirEntryLocation \<Rightarrow> Inode \<Rightarrow> Filesystem \<Rightarrow> ShellEntry \<Rightarrow> ShellEntryList \<Rightarrow> items \<Rightarrow>
    (int \<times> ShellEntryList \<times> items) option" where
  "sfsReadDir kmalloc_ok allocs loc ino0 fs parent list mem = do {
     (list, mem) \<leftarrow> (if el_count list \<noteq> 0 then releaseEntryList list mem else Some (list, mem));
     (_, nodes) \<leftarrow> fsReadDir kmalloc_ok loc fs (shellEntryToFsNode parent);
     (list, mem) \<leftarrow> add_nodes ino0 fs nodes allocs list mem;
     Some (FS_SUCCESS, list, mem) }"

text \<open>The loop of \<open>isExist\<close>; both exits release the list.\<close>

partial_function (option) exist_loop :: "u64 \<Rightarrow> items \<Rightarrow> bytes \<Rightarrow> bool option" where
  "exist_loop current mem name =
    (if current = 0 then Some False
     else do {
       item \<leftarrow> mem current;
       c \<leftarrow> myStrnicmp (se_name (li_entry item)) name 12;
       if c = 0 then Some True else exist_loop (li_next item) mem name })"

definition isExist :: "bool \<Rightarrow> u64 list \<Rightarrow> DirEntryLocation \<Rightarrow> Inode \<Rightarrow> Filesystem \<Rightarrow> ShellEntry \<Rightarrow> bytes \<Rightarrow> items \<Rightarrow> (int \<times> items) option" where
  "isExist kmalloc_ok allocs loc ino0 fs parent name mem = do {
     (_, list, mem) \<leftarrow> sfsReadDir kmalloc_ok allocs loc ino0 fs parent initEntryList mem;
     found \<leftarrow> exist_loop (el_first list) mem name;
     (_, mem) \<leftarrow> releaseEntryList list mem;
     Some (if found then FS_ERROR else FS_SUCCESS, mem) }"

text \<open>\<open>fsMkdir\<close> has written the caller's node when its inode number is not 0.\<close>

definition sfsMkdir :: "bytes \<Rightarrow> bool \<Rightarrow> u64 list \<Rightarrow> DirEntryLocation \<Rightarrow> Inode \<Rightarrow> Filesystem \<Rightarrow> ShellEntry \<Rightarrow> bytes \<Rightarrow> items \<Rightarrow>
    (int \<times> ShellEntry option \<times> Filesystem \<times> items) option" where
  "sfsMkdir stk kmalloc_ok allocs loc ino0 fs parent name mem = do {
     (r, mem) \<leftarrow> isExist kmalloc_ok allocs loc ino0 fs parent name mem;
     if r \<noteq> 0 then Some (FS_ERROR, None, fs, mem)
     else do {
       (result, fsEntry, fs) \<leftarrow> fsMkdir stk fs (shellEntryToFsNode parent) name zero_node;
       if d_inode (n_entry fsEntry) = 0 then None
       else do {
         entry \<leftarrow> fsNodeToShellEntry ino0 fs fsEntry;
         Some (result, Some entry, fs, mem) } } }"

definition sfsRmdir :: "Filesystem \<Rightarrow> ShellEntry \<Rightarrow> bytes \<Rightarrow> (int \<times> Filesystem) option" where
  "sfsRmdir fs parent name = do {
     (result, dir) \<leftarrow> fsLookup fs (shellEntryToFsNode parent) name zero_node;
     if result \<noteq> 0 then Some (FS_ERROR, fs) else fsRmdir fs (shellEntryToFsNode parent) dir }"

definition sfsRemove :: "Filesystem \<Rightarrow> ShellEntry \<Rightarrow> bytes \<Rightarrow> (int \<times> Filesystem) option" where
  "sfsRemove fs parent name = do {
     (result, rmfile) \<leftarrow> fsLookup fs (shellEntryToFsNode parent) name zero_node;
     if result \<noteq> 0 then Some (FS_ERROR, fs) else fsRemove fs (shellEntryToFsNode parent) rmfile }"

end
