(* ===== verification/Crypto.thy ===== *)
theory Crypto
  imports Cstring
begin

text \<open>
  \<open>fs/crypto.c\<close> and the constants of \<open>fs/crypto.h\<close>: the password stream that the shell's
  \<open>encrypt\<close> and \<open>decrypt\<close> commands apply to a file. The key stream depends on the position and the
  password only, so applying it twice is the identity, and the check byte at position 0 depends
  on the first character of the password only.
\<close>

definition CRYPT_CHECK_BYTE :: u8 where
  "CRYPT_CHECK_BYTE = 0xA5"

definition FS_ENCRYPT_FL :: u32 where
  "FS_ENCRYPT_FL = 0x800"

text \<open>The \<open>for\<close> loop; \<open>i * 31\<close> is a signed product, undefined when it leaves \<open>int\<close>.\<close>

function cryptXor_from :: "bytes \<Rightarrow> bytes \<Rightarrow> nat \<Rightarrow> nat \<Rightarrow> int \<Rightarrow> bytes option" where
  "cryptXor_from buf password klen i len =
     (if int i < len then
        (if i < length buf \<and> int_range (int i * 31) then
           cryptXor_from
             (buf[i := buf ! i XOR (password ! (i mod klen) XOR word_of_int (int i * 31))])
             password klen (Suc i) len
         else None)
      else Some buf)"
  by pat_completeness auto
termination
  by (relation "measure (\<lambda>(buf, password, klen, i, len). nat len - i)") auto

declare cryptXor_from.simps [simp del]

definition cryptXor :: "bytes \<Rightarrow> int \<Rightarrow> bytes \<Rightarrow> bytes option" where
  "cryptXor buf len password =
     (case strlen password of
        None \<Rightarrow> None
      | Some klen \<Rightarrow> if klen = 0 then Some buf else cryptXor_from buf password klen 0 len)"

section \<open>The key stream\<close>

definition key_byte :: "bytes \<Rightarrow> nat \<Rightarrow> u8" where
  "key_byte password i = password ! (i mod length (cstr password)) XOR word_of_int (int i * 31)"

definition apply_key :: "bytes \<Rightarrow> nat \<Rightarrow> bytes \<Rightarrow> bytes" where
  "apply_key password n buf =
     map (\<lambda>i. if i < n then buf ! i XOR key_byte password i else buf ! i) [0..<length buf]"

lemma length_apply_key [simp]: "length (apply_key password n buf) = length buf"
  by (simp add: apply_key_def)

lemma nth_apply_key:
  "i < length buf \<Longrightarrow>
   apply_key password n buf ! i = (if i < n then buf ! i XOR key_byte password i else buf ! i)"
  by (simp add: apply_key_def)

lemma apply_key_involution: "apply_key password n (apply_key password n buf) = buf"
  by (rule nth_equalityI) (auto simp: nth_apply_key)

lemma cryptXor_from_eq:
  "n \<le> length buf \<Longrightarrow> int n * 31 < 2 ^ 31 \<Longrightarrow> i \<le> n \<Longrightarrow>
   cryptXor_from buf password (length (cstr password)) i (int n) =
     Some (map (\<lambda>j. if i \<le> j \<and> j < n then buf ! j XOR key_byte password j else buf ! j)
             [0..<length buf])"
proof (induction "n - i" arbitrary: i buf)
  case 0
  then have "i = n" by simp
  then have "(if i \<le> j \<and> j < n then buf ! j XOR key_byte password j else buf ! j) = buf ! j" for j
    by auto
  then show ?case
    using 0 by (simp add: cryptXor_from.simps [of buf] map_nth)
next
  case (Suc d)
  define buf' where "buf' = buf[i := buf ! i XOR key_byte password i]"
  have i: "i < n" "int_range (int i * 31)" using Suc by (auto simp: int_range_def)
  have "cryptXor_from buf' password (length (cstr password)) (Suc i) (int n) =
      Some (map (\<lambda>j. if Suc i \<le> j \<and> j < n then buf' ! j XOR key_byte password j else buf' ! j)
        [0..<length buf'])"
    using Suc i by (intro Suc.hyps(1)) (auto simp: buf'_def)
  also have "\<dots> = Some (map (\<lambda>j. if i \<le> j \<and> j < n then buf ! j XOR key_byte password j else buf ! j)
        [0..<length buf])"
    using i Suc.prems(1) by (auto simp: buf'_def nth_list_update le_less Suc_le_eq)
  finally show ?case
    using i Suc.prems(1)
    by (simp add: cryptXor_from.simps [of buf] buf'_def key_byte_def)
qed

lemma cryptXor_eq:
  assumes "terminated password" and "cstr password \<noteq> []"
    and "n \<le> length buf" and "int n * 31 < 2 ^ 31"
  shows "cryptXor buf (int n) password = Some (apply_key password n buf)"
  using assms cryptXor_from_eq [of n buf 0 password]
  by (simp add: cryptXor_def strlen_eq apply_key_def)

lemma cryptXor_empty_password:
  "terminated password \<Longrightarrow> cstr password = [] \<Longrightarrow> cryptXor buf len password = Some buf"
  by (simp add: cryptXor_def strlen_eq)

lemma key_byte_0: "cstr password \<noteq> [] \<Longrightarrow> key_byte password 0 = hd password"
  by (cases password) (auto simp: key_byte_def split: if_splits)

section \<open>Properties\<close>

text \<open>Applying \<open>cryptXor\<close> twice with the same password restores the buffer, for every password
  and every length the shell's buffer of 12 blocks can hold, and stays inside the buffer.\<close>

theorem cryptXor_involution:
  assumes "terminated password" and "n \<le> length buf" and "n \<le> 12 * 1024"
  shows "\<exists>buf'. cryptXor buf (int n) password = Some buf' \<and> length buf' = length buf \<and>
    cryptXor buf' (int n) password = Some buf"
proof (cases "cstr password = []")
  case True
  then show ?thesis using assms by (simp add: cryptXor_empty_password)
next
  case False
  then show ?thesis using assms by (simp add: cryptXor_eq apply_key_involution)
qed

theorem cryptXor_involution_witness:
  "cryptXor [1, 2, 3] 3 [112, 119, 0] = Some [113, 106, 77] \<and>
   (\<exists>buf'. cryptXor [1, 2, 3] (int 3) [112, 119, 0] = Some buf' \<and>
      cryptXor buf' (int 3) [112, 119, 0] = Some [1, 2, 3])"
proof
  show "cryptXor [1, 2, 3] 3 [112, 119, 0] = Some [113, 106, 77]"
    using cryptXor_eq [of "[112, 119, 0]" 3 "[1, 2, 3]"]
    by (simp add: apply_key_def key_byte_def upt_rec)
  show "\<exists>buf'. cryptXor [1, 2, 3] (int 3) [112, 119, 0] = Some buf' \<and>
      cryptXor buf' (int 3) [112, 119, 0] = Some [1, 2, 3]"
    using cryptXor_involution [of "[112, 119, 0]" 3 "[1, 2, 3]"] by auto
qed

text \<open>C28: the check byte in front of the plaintext detects a wrong password only by its first
  character: after encrypting with one password and decrypting with another of any length, the
  check byte is back exactly when the two passwords start with the same character.\<close>

theorem check_byte_first_char:
  assumes "terminated p" "terminated q" "cstr p \<noteq> []" "cstr q \<noteq> []"
    and "Suc (length text) \<le> 12 * 1024"
  shows "\<exists>c d. cryptXor (CRYPT_CHECK_BYTE # text) (int (Suc (length text))) p = Some c \<and>
    cryptXor c (int (Suc (length text))) q = Some d \<and>
    (hd d = CRYPT_CHECK_BYTE \<longleftrightarrow> hd p = hd q)"
proof -
  define n where "n = Suc (length text)"
  define c where "c = apply_key p n (CRYPT_CHECK_BYTE # text)"
  define d where "d = apply_key q n c"
  have enc: "cryptXor (CRYPT_CHECK_BYTE # text) (int n) p = Some c"
    unfolding c_def using assms by (intro cryptXor_eq) (auto simp: n_def)
  have dec: "cryptXor c (int n) q = Some d"
    unfolding d_def using assms by (intro cryptXor_eq) (auto simp: n_def c_def)
  have "d ! 0 = (CRYPT_CHECK_BYTE XOR hd p) XOR hd q"
    using assms by (simp add: d_def c_def nth_apply_key n_def key_byte_0)
  moreover have "hd d = d ! 0"
    by (rule hd_conv_nth) (auto simp: d_def c_def n_def simp flip: length_0_conv)
  moreover have "(CRYPT_CHECK_BYTE XOR hd p) XOR hd q = CRYPT_CHECK_BYTE \<longleftrightarrow> hd p = hd q"
    by (rule word_xor_both_iff)
  ultimately have "hd d = CRYPT_CHECK_BYTE \<longleftrightarrow> hd p = hd q" by simp
  with enc dec show ?thesis unfolding n_def [symmetric] by blast
qed

theorem check_byte_first_char_witness:
  "\<exists>c d. cryptXor [CRYPT_CHECK_BYTE, 65] 2 [112, 119, 0] = Some c \<and>
     cryptXor c 2 [112, 0] = Some d \<and> hd d = CRYPT_CHECK_BYTE"
proof -
  have "cstr [112, 119, 0] \<noteq> []" "cstr [112, 0] \<noteq> []" by (simp_all add: cstr_def)
  then show ?thesis
    using check_byte_first_char [of "[112, 119, 0]" "[112, 0]" "[65]"] by auto
qed

end
