(* ===== verification/Connection.thy ===== *)
theory Connection
  imports Keyboard
begin

text \<open>
  The serial line (\<open>src/connection.c\<close>): the UART driver and the link mode of the shell. The hardware is the list of
  the answers that the port reads will get, whatever the port, and the log of the port writes; a program that reads when
  the answers have ended waits for ever, which is \<^term>\<open>None\<close>. Link mode reads the keyboard ports too, so its answers
  hold the status and data bytes of both devices in the order of the reads.
\<close>

section \<open>Ports\<close>

record ports =
  replies :: bytes
  port_log :: "(u16 \<times> u8) list"

definition inb :: "u16 \<Rightarrow> ports \<Rightarrow> (u8 \<times> ports) option" where
  "inb port p = (case replies p of [] \<Rightarrow> None | b # bs \<Rightarrow> Some (b, p\<lparr> replies := bs \<rparr>))"

definition outb :: "u16 \<Rightarrow> u8 \<Rightarrow> ports \<Rightarrow> ports" where
  "outb port v p = p\<lparr> port_log := port_log p @ [(port, v)] \<rparr>"

definition COM1_BASE :: u16 where "COM1_BASE = 0x3F8"
definition UART_RBR :: u8 where "UART_RBR = 0"
definition UART_THR :: u8 where "UART_THR = 0"
definition UART_DLL :: u8 where "UART_DLL = 0"
definition UART_IER :: u8 where "UART_IER = 1"
definition UART_DLM :: u8 where "UART_DLM = 1"
definition UART_FCR :: u8 where "UART_FCR = 2"
definition UART_LCR :: u8 where "UART_LCR = 3"
definition UART_MCR :: u8 where "UART_MCR = 4"
definition UART_LSR :: u8 where "UART_LSR = 5"
definition LSR_DATA_READY :: u8 where "LSR_DATA_READY = 1"
definition LSR_THR_EMPTY :: u8 where "LSR_THR_EMPTY = 32"
definition KEYBOARD_STATUS_PORT :: u16 where "KEYBOARD_STATUS_PORT = 0x64"
definition KEYBOARD_DATA_PORT :: u16 where "KEYBOARD_DATA_PORT = 0x60"

definition uart_read :: "u16 \<Rightarrow> u8 \<Rightarrow> ports \<Rightarrow> (u8 \<times> ports) option" where
  "uart_read base reg p = inb (base + ucast reg) p"

definition uart_write :: "u16 \<Rightarrow> u8 \<Rightarrow> u8 \<Rightarrow> ports \<Rightarrow> ports" where
  "uart_write base reg val p = outb (base + ucast reg) val p"

definition serial_init :: "u16 \<Rightarrow> u16 \<Rightarrow> ports \<Rightarrow> ports" where
  "serial_init base baud_divisor p =
    (let p = uart_write base UART_IER 0x00 p;
         p = uart_write base UART_LCR 0x80 p;
         p = uart_write base UART_DLL (ucast (baud_divisor AND 0xFF)) p;
         p = uart_write base UART_DLM (ucast (drop_bit 8 baud_divisor AND 0xFF)) p;
         p = uart_write base UART_LCR 0x03 p;
         p = uart_write base UART_FCR 0xC7 p
     in uart_write base UART_MCR 0x0B p)"

definition serial_rx_ready :: "u16 \<Rightarrow> ports \<Rightarrow> (bool \<times> ports) option" where
  "serial_rx_ready base p = do { (b, p) \<leftarrow> uart_read base UART_LSR p; Some (b AND LSR_DATA_READY \<noteq> 0, p) }"

definition serial_tx_ready :: "u16 \<Rightarrow> ports \<Rightarrow> (bool \<times> ports) option" where
  "serial_tx_ready base p = do { (b, p) \<leftarrow> uart_read base UART_LSR p; Some (b AND LSR_THR_EMPTY \<noteq> 0, p) }"

text \<open>The busy loops that wait for the line to be ready for sending and for a byte to arrive.\<close>

partial_function (option) wait_tx :: "u16 \<Rightarrow> ports \<Rightarrow> ports option" where
  "wait_tx base p = do { (ready, p) \<leftarrow> serial_tx_ready base p; if ready then Some p else wait_tx base p }"

partial_function (option) wait_rx :: "u16 \<Rightarrow> ports \<Rightarrow> ports option" where
  "wait_rx base p = do { (ready, p) \<leftarrow> serial_rx_ready base p; if ready then Some p else wait_rx base p }"

section \<open>Sending\<close>

text \<open>\<open>serial_putc\<close> calls itself once, for the carriage return in front of a newline.\<close>

definition send_char :: "u16 \<Rightarrow> u8 \<Rightarrow> ports \<Rightarrow> ports option" where
  "send_char base c p = do { p \<leftarrow> wait_tx base p; Some (uart_write base UART_THR c p) }"

definition serial_putc :: "u16 \<Rightarrow> u8 \<Rightarrow> ports \<Rightarrow> ports option" where
  "serial_putc base c p = do {
     p \<leftarrow> (if c = 10 then send_char base 13 p else Some p);
     send_char base c p }"

text \<open>The string of \<open>serial_write\<close> may be a null pointer.\<close>

fun serial_write :: "u16 \<Rightarrow> bytes option \<Rightarrow> ports \<Rightarrow> ports option" where
  "serial_write base None p = Some p"
| "serial_write base (Some []) p = None"
| "serial_write base (Some (c # s)) p = (if c = 0 then Some p else do { p \<leftarrow> serial_putc base c p; serial_write base (Some s) p })"

function serial_raw_from :: "u16 \<Rightarrow> bytes \<Rightarrow> int \<Rightarrow> int \<Rightarrow> ports \<Rightarrow> ports option" where
  "serial_raw_from base data i len p =
    (if i < len then do {
       p \<leftarrow> wait_tx base p;
       c \<leftarrow> idx data (nat i);
       serial_raw_from base data (i + 1) len (uart_write base UART_THR c p) }
     else Some p)"
  by pat_completeness auto
termination
  by (relation "measure (\<lambda>(base, data, i, len, p). nat (len - i))") auto

declare serial_raw_from.simps [simp del]

definition serial_write_raw :: "u16 \<Rightarrow> bytes \<Rightarrow> int \<Rightarrow> ports \<Rightarrow> ports option" where
  "serial_write_raw base data len p = serial_raw_from base data 0 len p"

section \<open>Receiving\<close>

definition serial_try_getc :: "u16 \<Rightarrow> ports \<Rightarrow> (u8 option \<times> ports) option" where
  "serial_try_getc base p = do {
     (ready, p) \<leftarrow> serial_rx_ready base p;
     if \<not> ready then Some (None, p)
     else do { (c, p) \<leftarrow> uart_read base UART_RBR p; Some (Some c, p) } }"

definition serial_getc_blocking :: "u16 \<Rightarrow> ports \<Rightarrow> (u8 \<times> ports) option" where
  "serial_getc_blocking base p = do { p \<leftarrow> wait_rx base p; uart_read base UART_RBR p }"

definition getCharSerial :: "ports \<Rightarrow> console \<Rightarrow> (u8 \<times> ports \<times> console) option" where
  "getCharSerial p con = do { (c, p) \<leftarrow> serial_getc_blocking COM1_BASE p; Some (c, p, putChar c con) }"

partial_function (option) getCharAny :: "ports \<Rightarrow> console \<Rightarrow> (u8 \<times> ports \<times> console) option" where
  "getCharAny p con = do {
     (got, p) \<leftarrow> serial_try_getc COM1_BASE p;
     case got of
       Some sc \<Rightarrow> Some (sc, p, putChar sc con)
     | None \<Rightarrow> do {
         (st, p) \<leftarrow> inb KEYBOARD_STATUS_PORT p;
         if st AND 1 \<noteq> 0 then do {
           (code, p) \<leftarrow> inb KEYBOARD_DATA_PORT p;
           let ch = codeToChar (g_shift con) code;
           if ch \<noteq> 0 then Some (ch, p, putChar ch con) else getCharAny p con }
         else getCharAny p con } }"

section \<open>Link mode\<close>

text \<open>The end of a turn of \<open>enterConn\<close>: a byte that has arrived is shown.\<close>

definition show_received :: "ports \<Rightarrow> console \<Rightarrow> (ports \<times> console) option" where
  "show_received p con = do {
     (got, p) \<leftarrow> serial_try_getc COM1_BASE p;
     Some (p, case got of None \<Rightarrow> con | Some r \<Rightarrow> putChar r con) }"

partial_function (option) conn_loop :: "bool \<Rightarrow> ports \<Rightarrow> console \<Rightarrow> (ports \<times> console) option" where
  "conn_loop ctrl p con = do {
     (st, p) \<leftarrow> inb KEYBOARD_STATUS_PORT p;
     if st AND 1 \<noteq> 0 then do {
       (code, p) \<leftarrow> inb KEYBOARD_DATA_PORT p;
       if code = 0x1D then conn_loop True p con
       else if code = 0x9D then conn_loop False p con
       else if ctrl \<and> code = 0x2E then Some (p, con)
       else if code AND 0x80 \<noteq> 0 then conn_loop ctrl p con
       else do {
         let ch = codeToChar (g_shift con) code;
         (p, con) \<leftarrow> (if ch \<noteq> 0 then do { let con = putChar ch con; p \<leftarrow> serial_putc COM1_BASE ch p; Some (p, con) } else Some (p, con));
         (p, con) \<leftarrow> show_received p con;
         conn_loop ctrl p con } }
     else do {
       (p, con) \<leftarrow> show_received p con;
       conn_loop ctrl p con } }"

definition enterConn :: "ports \<Rightarrow> console \<Rightarrow> (ports \<times> console) option" where
  "enterConn p con = conn_loop False p con"

section \<open>What is sent\<close>

definition tx_free :: "u8 \<Rightarrow> bool" where
  "tx_free b \<longleftrightarrow> b AND LSR_THR_EMPTY \<noteq> 0"

text \<open>The answers that are left when the line has been free \<open>n\<close> times.\<close>

fun after_free :: "nat \<Rightarrow> bytes \<Rightarrow> bytes option" where
  "after_free 0 bs = Some bs"
| "after_free (Suc n) [] = None"
| "after_free (Suc n) (b # bs) = (if tx_free b then after_free n bs else after_free (Suc n) bs)"

lemma after_free_defined: "(\<exists>bs'. after_free n bs = Some bs') \<longleftrightarrow> n \<le> length (filter tx_free bs)"
  by (induction n bs rule: after_free.induct) auto

lemma after_free_Suc: "after_free (Suc n) bs = do { bs \<leftarrow> after_free 1 bs; after_free n bs }"
  by (induction bs) auto

lemma serial_tx_ready_eq:
  "serial_tx_ready base p = (case replies p of [] \<Rightarrow> None | b # bs \<Rightarrow> Some (tx_free b, p\<lparr> replies := bs \<rparr>))"
  by (auto simp: serial_tx_ready_def uart_read_def inb_def tx_free_def split: list.splits)

lemma wait_tx_eq: "wait_tx base p = do { bs \<leftarrow> after_free 1 (replies p); Some (p\<lparr> replies := bs \<rparr>) }"
proof (induction "replies p" arbitrary: p)
  case Nil
  then show ?case using Nil [symmetric] by (simp add: wait_tx.simps [of base p] serial_tx_ready_eq)
next
  case (Cons b bs)
  from Cons.hyps(1) [of "p\<lparr> replies := bs \<rparr>"] Cons.hyps(2) [symmetric] show ?case
    by (simp add: wait_tx.simps [of base p] serial_tx_ready_eq)
qed

text \<open>The loop of \<open>serial_write_raw\<close> returns exactly when the line becomes free often enough, and has then written the bytes in order.\<close>

lemma serial_raw_from_spec:
  "i + n \<le> length data \<Longrightarrow> serial_raw_from base data (int i) (int (i + n)) p =
    do { bs \<leftarrow> after_free n (replies p); Some (p\<lparr> replies := bs, port_log := port_log p @ map (Pair base) (take n (drop i data)) \<rparr>) }"
proof (induction n arbitrary: i p)
  case 0
  then show ?case by (simp add: serial_raw_from.simps)
next
  case (Suc n)
  show ?case
  proof (cases "after_free 1 (replies p)")
    case None
    then show ?thesis by (simp add: serial_raw_from.simps [of base data "int i"] wait_tx_eq after_free_Suc [of n])
  next
    case (Some bs)
    let ?p = "uart_write base UART_THR (data ! i) (p\<lparr> replies := bs \<rparr>)"
    have r: "replies ?p = bs" "port_log ?p = port_log p @ [(base, data ! i)]" by (simp_all add: uart_write_def outb_def UART_THR_def)
    have d: "take (Suc n) (drop i data) = data ! i # take n (drop (Suc i) data)" using Suc.prems by (simp add: Cons_nth_drop_Suc [symmetric])
    have "serial_raw_from base data (int i) (int (i + Suc n)) p = serial_raw_from base data (int (Suc i)) (int (Suc i + n)) ?p"
      using Some Suc.prems by (simp add: serial_raw_from.simps [of base data "int i"] wait_tx_eq add.commute)
    also have "\<dots> = do { bs \<leftarrow> after_free n bs; Some (?p\<lparr> replies := bs, port_log := port_log ?p @ map (Pair base) (take n (drop (Suc i) data)) \<rparr>) }"
      using Suc.IH [of "Suc i" ?p] Suc.prems r(1) by simp
    finally show ?thesis using Some r(2) d by (simp add: after_free_Suc [of n] uart_write_def outb_def UART_THR_def)
  qed
qed

lemma serial_write_raw_spec:
  "serial_write_raw base data (int (length data)) p =
    do { bs \<leftarrow> after_free (length data) (replies p); Some (p\<lparr> replies := bs, port_log := port_log p @ map (Pair base) data \<rparr>) }"
  using serial_raw_from_spec [of 0 "length data" data base p] by (simp add: serial_write_raw_def)

end
