(* ===== verification/Shell_Cmd.thy ===== *)
theory Shell_Cmd
  imports Fs_Shell Shell_Line Crypto Connection
begin

text \<open>
  The commands of the shell (\<open>src/fs/shell.c\<close>). The globals are the fields of \<open>shell\<close>; \<open>g_disk\<close> and the file system
  object behind \<open>g_fsOprs.pdata\<close> are its field \<open>vol\<close>, the serial line is its field \<open>uart\<close>. A
  command takes its arguments as C strings and returns its result with the new state. The record \<open>env\<close> holds
  what the code takes from elsewhere: uninitialised stack bytes and structures, and what \<open>kmalloc\<close> returns.
\<close>

section \<open>State\<close>

record shell =
  vol :: Filesystem
  g_isMounted :: bool
  g_rootDir :: ShellEntry
  g_currentDir :: ShellEntry
  path :: "ShellEntry list"
  pathTop :: int
  g_redir_file :: "bytes option"
  g_cryptbuf :: bytes
  items_mem :: items
  console_of :: console
  uart :: ports

record env =
  stack :: bytes
  ino_garbage :: Inode
  loc_garbage :: DirEntryLocation
  entry_garbage :: DirEntry
  behind_super :: bytes
  behind_table :: bytes
  heap_works :: bool
  item_addrs :: "u64 list"

type_synonym command = "env \<Rightarrow> bytes list \<Rightarrow> shell \<Rightarrow> (int \<times> shell) option"

definition CRYPT_BUF_MAX :: nat where "CRYPT_BUF_MAX = FS_D_BLOCKS * MAX_BLOCK_SIZE"

definition say :: "env \<Rightarrow> bytes \<Rightarrow> printk_arg list \<Rightarrow> shell \<Rightarrow> shell option" where
  "say e fmt args s = do { con \<leftarrow> printk (stack e) fmt args (console_of s); Some (s\<lparr> console_of := con \<rparr>) }"

text \<open>Print and return.\<close>

definition quit :: "env \<Rightarrow> string \<Rightarrow> printk_arg list \<Rightarrow> int \<Rightarrow> shell \<Rightarrow> (int \<times> shell) option" where
  "quit e fmt args r s = do { s \<leftarrow> say e (lit fmt) args s; Some (r, s) }"

section \<open>Helpers\<close>

definition is_help :: "bytes list \<Rightarrow> bool option" where
  "is_help argv =
    (if length argv = 2 then do {
       a \<leftarrow> strcmp (argv ! 1) (lit ''-h'');
       if a = 0 then Some True
       else do { b \<leftarrow> strcmp (argv ! 1) (lit ''--help''); Some (b = 0) } }
     else Some False)"

definition shell_lookup :: "env \<Rightarrow> shell \<Rightarrow> bytes \<Rightarrow> (int \<times> ShellEntry option) option" where
  "shell_lookup e s name = sfsLookup (ino_garbage e) (vol s) (g_currentDir s) name"

text \<open>\<open>write\<close> into the current volume, and looking a file up or else creating it.\<close>

definition shell_write :: "ShellEntry \<Rightarrow> nat \<Rightarrow> bytes \<Rightarrow> shell \<Rightarrow> (int \<times> shell) option" where
  "shell_write entry len data s = do {
     (r, fs) \<leftarrow> sfsWrite (vol s) entry 0 (of_nat len) data;
     Some (r, s\<lparr> vol := fs \<rparr>) }"

definition lookup_or_create :: "env \<Rightarrow> bytes \<Rightarrow> shell \<Rightarrow> (int \<times> ShellEntry option \<times> shell) option" where
  "lookup_or_create e name s = do {
     (result, entry) \<leftarrow> shell_lookup e s name;
     if result \<noteq> 0 then do {
       (result, entry, fs) \<leftarrow> sfsCreate (stack e) (ino_garbage e) (vol s) (g_currentDir s) name;
       Some (result, Some entry, s\<lparr> vol := fs \<rparr>) }
     else Some (result, entry, s) }"

definition write_string_to_file :: "env \<Rightarrow> bytes \<Rightarrow> bytes \<Rightarrow> nat \<Rightarrow> shell \<Rightarrow> (int \<times> shell) option" where
  "write_string_to_file e filename data len s = do {
     (result, entry, s) \<leftarrow> lookup_or_create e filename s;
     if result \<noteq> 0 then quit e ''cannot create %s\<newline>'' [Str filename] (-1) s
     else do {
       entry \<leftarrow> entry;
       (r, s) \<leftarrow> shell_write entry len data s;
       if r \<noteq> 0 then quit e ''write failed\<newline>'' [] (-1) s else Some (0, s) } }"

text \<open>The loop of \<open>read_whole_file\<close>; \<open>out\<close> is the buffer from the given pointer on.\<close>

function read_whole_from :: "Filesystem \<Rightarrow> ShellEntry \<Rightarrow> bytes \<Rightarrow> int \<Rightarrow> int \<Rightarrow> (int \<times> bytes) option" where
  "read_whole_from fs entry out most sofar =
    (if sofar < most then
       (case sfsRead fs entry (word_of_int sofar) 1024 (drop (nat sofar) out) of
          None \<Rightarrow> None
        | Some (r, buf) \<Rightarrow>
            (let out = take (nat sofar) out @ buf
             in if r > 0 then read_whole_from fs entry out most (sofar + r) else Some (sofar, out)))
     else Some (sofar, out))"
  by pat_completeness auto
termination
  by (relation "measure (\<lambda>(fs, entry, out, most, sofar). nat (most - sofar))") auto

declare read_whole_from.simps [simp del]

definition read_whole_file :: "Filesystem \<Rightarrow> ShellEntry \<Rightarrow> bytes \<Rightarrow> int \<Rightarrow> (int \<times> bytes) option" where
  "read_whole_file fs entry out most = read_whole_from fs entry out most 0"

definition crypt_is_marked :: "Filesystem \<Rightarrow> ShellEntry \<Rightarrow> bool option" where
  "crypt_is_marked fs entry = do {
     got \<leftarrow> getInode fs (d_inode (n_entry (shellEntryToFsNode entry)));
     Some (case got of None \<Rightarrow> False | Some ino \<Rightarrow> i_flags ino AND FS_ENCRYPT_FL \<noteq> 0) }"

definition crypt_mark_inode :: "Filesystem \<Rightarrow> ShellEntry \<Rightarrow> bool \<Rightarrow> Filesystem option" where
  "crypt_mark_inode fs entry on = do {
     let inodeno = d_inode (n_entry (shellEntryToFsNode entry));
     got \<leftarrow> getInode fs inodeno;
     case got of
       None \<Rightarrow> Some fs
     | Some ino \<Rightarrow> do {
         let ino = (if on then ino\<lparr> i_flags := i_flags ino OR FS_ENCRYPT_FL \<rparr> else ino\<lparr> i_flags := i_flags ino AND NOT FS_ENCRYPT_FL \<rparr>);
         (_, fs) \<leftarrow> insertInodeTable fs ino (sint inodeno);
         Some fs } }"

section \<open>Encrypting\<close>

definition shell_cmd_encrypt :: command where
  "shell_cmd_encrypt e argv s = do {
     help \<leftarrow> is_help argv;
     if help then quit e ''encrypt <file> <password> - XOR a file with the password\<newline>'' [] 0 s
     else if length argv \<noteq> 3 then do { a \<leftarrow> idx argv 0; quit e ''usage : %s [file] [password]\<newline>'' [Str a] 0 s }
     else do {
       let file = argv ! 1;
       let password = argv ! 2;
       c \<leftarrow> idx password 0;
       if c = 0 then quit e ''password required\<newline>'' [] (-1) s
       else do {
         (r, found) \<leftarrow> shell_lookup e s file;
         if r \<noteq> 0 then quit e ''%s lookup failed\<newline>'' [Str file] (-1) s
         else do {
           entry \<leftarrow> found;
           if se_isDirectory entry then quit e ''%s is a directory\<newline>'' [Str file] (-1) s
           else do {
             marked \<leftarrow> crypt_is_marked (vol s) entry;
             if marked then quit e ''%s is already encrypted\<newline>'' [Str file] (-1) s
             else if unat (se_size entry + 1) > CRYPT_BUF_MAX then quit e ''%s is too large to encrypt\<newline>'' [Str file] (-1) s
             else do {
               buf \<leftarrow> upd (g_cryptbuf s) 0 CRYPT_CHECK_BYTE;
               (total, tail) \<leftarrow> read_whole_file (vol s) entry (drop 1 buf) (int CRYPT_BUF_MAX - 1);
               let outlen = total + 1;
               buf \<leftarrow> cryptXor (take 1 buf @ tail) outlen password;
               let s = s\<lparr> g_cryptbuf := buf \<rparr>;
               (r, s) \<leftarrow> shell_write entry (nat outlen) buf s;
               if r \<noteq> 0 then quit e ''write failed\<newline>'' [] (-1) s
               else do {
                 fs \<leftarrow> crypt_mark_inode (vol s) entry True;
                 quit e ''encrypted %s (%d bytes)\<newline>'' [Str file, Num (word_of_int total)] 0 (s\<lparr> vol := fs \<rparr>) } } } } } } }"

text \<open>The loop that moves the buffer down by one byte.\<close>

fun shift_down :: "bytes \<Rightarrow> nat \<Rightarrow> nat \<Rightarrow> bytes option" where
  "shift_down buf i 0 = Some buf"
| "shift_down buf i (Suc n) = do { c \<leftarrow> idx buf (Suc i); buf \<leftarrow> upd buf i c; shift_down buf (Suc i) n }"

definition shell_cmd_decrypt :: command where
  "shell_cmd_decrypt e argv s = do {
     help \<leftarrow> is_help argv;
     if help then quit e ''decrypt <file> <password> - restore a file XOR'd with the password\<newline>'' [] 0 s
     else if length argv \<noteq> 3 then do { a \<leftarrow> idx argv 0; quit e ''usage : %s [file] [password]\<newline>'' [Str a] 0 s }
     else do {
       let file = argv ! 1;
       let password = argv ! 2;
       c \<leftarrow> idx password 0;
       if c = 0 then quit e ''password required\<newline>'' [] (-1) s
       else do {
         (r, found) \<leftarrow> shell_lookup e s file;
         if r \<noteq> 0 then quit e ''%s lookup failed\<newline>'' [Str file] (-1) s
         else do {
           entry \<leftarrow> found;
           marked \<leftarrow> crypt_is_marked (vol s) entry;
           if \<not> marked then quit e ''%s is not encrypted\<newline>'' [Str file] (-1) s
           else if unat (se_size entry) > CRYPT_BUF_MAX then quit e ''%s is too large\<newline>'' [Str file] (-1) s
           else do {
             (total, buf) \<leftarrow> read_whole_file (vol s) entry (g_cryptbuf s) (int CRYPT_BUF_MAX);
             buf \<leftarrow> cryptXor buf total password;
             let s = s\<lparr> g_cryptbuf := buf \<rparr>;
             wrong \<leftarrow> (if total < 1 then Some True else do { c \<leftarrow> idx buf 0; Some (c \<noteq> CRYPT_CHECK_BYTE) });
             if wrong then quit e ''wrong password for %s\<newline>'' [Str file] (-1) s
             else do {
               let outlen = total - 1;
               buf \<leftarrow> shift_down buf 0 (nat outlen);
               let s = s\<lparr> g_cryptbuf := buf \<rparr>;
               (r, s) \<leftarrow> shell_write entry (nat outlen) buf s;
               if r \<noteq> 0 then quit e ''write failed\<newline>'' [] (-1) s
               else do {
                 fs \<leftarrow> crypt_mark_inode (vol s) entry False;
                 quit e ''decrypted %s (%d bytes)\<newline>'' [Str file, Num (word_of_int outlen)] 0 (s\<lparr> vol := fs \<rparr>) } } } } } } }"

section \<open>Files and directories\<close>

definition shell_cmd_cd :: command where
  "shell_cmd_cd e argv s = do {
     help \<leftarrow> is_help argv;
     if help then do {
       s \<leftarrow> say e (lit ''cd [directory] - change working directory\<newline>'') [] s;
       s \<leftarrow> say e (lit ''  cd       go to root\<newline>'') [] s;
       quit e ''  cd ..    go up one level\<newline>'' [] 0 s }
     else do {
       p \<leftarrow> upd (path s) 0 (g_rootDir s);
       let s = s\<lparr> path := p \<rparr>;
       if length argv > 2 then do { a \<leftarrow> idx argv 0; quit e ''usage : %s [directory]\<newline>'' [Str a] 0 s }
       else do {
         let go = (\<lambda>s. do { d \<leftarrow> idx (path s) (nat (pathTop s)); Some (0, s\<lparr> g_currentDir := d \<rparr>) });
         if length argv = 1 then go (s\<lparr> pathTop := 0 \<rparr>)
         else do {
           a \<leftarrow> idx argv 1;
           dot \<leftarrow> strcmp a (lit ''.'');
           if dot = 0 then Some (0, s)
           else do {
             dotdot \<leftarrow> strcmp a (lit ''..'');
             if dotdot = 0 \<and> pathTop s > 0 then go (s\<lparr> pathTop := pathTop s - 1 \<rparr>)
             else do {
               (r, found) \<leftarrow> shell_lookup e s a;
               if r \<noteq> 0 then quit e ''directory not found\<newline>'' [] (-1) s
               else do {
                 newEntry \<leftarrow> found;
                 if \<not> se_isDirectory newEntry then quit e ''%s is not a directory\<newline>'' [Str a] (-1) s
                 else do {
                   p \<leftarrow> upd (path s) (nat (pathTop s + 1)) newEntry;
                   go (s\<lparr> path := p, pathTop := pathTop s + 1 \<rparr>) } } } } } } } }"

definition shell_cmd_mount :: command where
  "shell_cmd_mount e argv s = do {
     help \<leftarrow> is_help argv;
     if help then quit e ''mount - mount the filesystem\<newline>'' [] 0 s
     else do {
       (result, root, fs, con) \<leftarrow> sfsMount (stack e) (heap_works e) (entry_garbage e) (ino_garbage e) (fs_disk (vol s)) (console_of s);
       let s = s\<lparr> vol := fs, console_of := con, g_rootDir := (case root of None \<Rightarrow> g_rootDir s | Some r \<Rightarrow> r) \<rparr>;
       let s = s\<lparr> g_currentDir := g_rootDir s \<rparr>;
       if result < 0 then quit e ''%s file system mounting has been failed\<newline>'' [Str (lit ''FS'')] (-1) s
       else do {
         s \<leftarrow> say e (lit ''%s file system has been mounted successfully\<newline>'') [Str (lit ''FS'')] s;
         Some (0, s\<lparr> g_isMounted := True \<rparr>) } } }"

definition shell_cmd_umount :: command where
  "shell_cmd_umount e argv s = Some (0, s\<lparr> g_isMounted := False \<rparr>)"

definition shell_cmd_touch :: command where
  "shell_cmd_touch e argv s = do {
     help \<leftarrow> is_help argv;
     if help then quit e ''touch <file> - create an empty file\<newline>'' [] 0 s
     else if length argv < 2 then quit e ''usage : touch [files...]\<newline>'' [] (-2) s
     else do {
       (result, _, fs) \<leftarrow> sfsCreate (stack e) (ino_garbage e) (vol s) (g_currentDir s) (argv ! 1);
       let s = s\<lparr> vol := fs \<rparr>;
       if result \<noteq> 0 then quit e ''create failed\<newline>'' [] (-1) s else Some (0, s) } }"

definition shell_cmd_fill :: command where
  "shell_cmd_fill e argv s = do {
     help \<leftarrow> is_help argv;
     if help then quit e ''fill <file> <size> - write <size> bytes of test data to a file\<newline>'' [] 0 s
     else if length argv \<noteq> 3 then quit e ''usage : fill [file] [size]\<newline>'' [] 0 s
     else do {
       sz \<leftarrow> atoi (argv ! 2);
       if sz \<le> 0 then quit e ''invalid size\<newline>'' [] (-1) s
       else do {
         (result, entry, s) \<leftarrow> lookup_or_create e (argv ! 1) s;
         if result \<noteq> 0 then quit e ''create failed\<newline>'' [] (-1) s
         else if \<not> heap_works e then quit e ''out of memory\<newline>'' [] (-1) s
         else do {
           entry \<leftarrow> entry;
           (r, s) \<leftarrow> shell_write entry (nat sz) (replicate (nat sz) 65) s;
           if r \<noteq> 0 then quit e ''write failed\<newline>'' [] (-1) s else Some (0, s) } } } }"

text \<open>The loop over the arguments of \<open>rm\<close>.\<close>

primrec rm_files :: "env \<Rightarrow> bytes list \<Rightarrow> shell \<Rightarrow> shell option" where
  "rm_files e [] s = Some s"
| "rm_files e (name # names) s = do {
     (r, fs) \<leftarrow> sfsRemove (vol s) (g_currentDir s) name;
     let s = s\<lparr> vol := fs \<rparr>;
     s \<leftarrow> (if r \<noteq> 0 then say e (lit ''cannot remove file\<newline>'') [] s else Some s);
     rm_files e names s }"

definition shell_cmd_rm :: command where
  "shell_cmd_rm e argv s = do {
     help \<leftarrow> is_help argv;
     if help then quit e ''rm <files...> - remove one or more files\<newline>'' [] 0 s
     else if length argv < 2 then quit e ''usage : rm [files...]\<newline>'' [] 0 s
     else do { s \<leftarrow> rm_files e (drop 1 argv) s; Some (0, s) } }"

definition shell_cmd_format :: command where
  "shell_cmd_format e argv s = do {
     help \<leftarrow> is_help argv;
     if help then quit e ''format - format the disk\<newline>'' [] 0 s
     else do {
       (result, disk, con) \<leftarrow> sfsFormat (stack e) (behind_super e) (behind_table e) (fs_disk (vol s)) (console_of s);
       let s = s\<lparr> vol := (vol s)\<lparr> fs_disk := disk \<rparr>, console_of := con \<rparr>;
       if result < 0 then quit e ''%s formatting is failed\<newline>'' [Str (lit ''FS'')] (-1) s
       else quit e ''disk has been formatted successfully\<newline>'' [] 0 s } }"

definition shell_cmd_mkdir :: command where
  "shell_cmd_mkdir e argv s = do {
     help \<leftarrow> is_help argv;
     if help then quit e ''mkdir <name> - create a directory\<newline>'' [] 0 s
     else if length argv \<noteq> 2 then do { a \<leftarrow> idx argv 0; quit e ''usage : %s [name]\<newline>'' [Str a] 0 s }
     else do {
       (result, _, fs, mem) \<leftarrow> sfsMkdir (stack e) (heap_works e) (item_addrs e) (loc_garbage e) (ino_garbage e) (vol s) (g_currentDir s) (argv ! 1) (items_mem s);
       let s = s\<lparr> vol := fs, items_mem := mem \<rparr>;
       if result \<noteq> 0 then quit e ''cannot create directory\<newline>'' [] (-1) s else Some (0, s) } }"

definition shell_cmd_rmdir :: command where
  "shell_cmd_rmdir e argv s = do {
     help \<leftarrow> is_help argv;
     if help then quit e ''rmdir <name> - remove a directory\<newline>'' [] 0 s
     else if length argv \<noteq> 2 then do { a \<leftarrow> idx argv 0; quit e ''usage : %s [name]\<newline>'' [Str a] 0 s }
     else do {
       (result, fs) \<leftarrow> sfsRmdir (vol s) (g_currentDir s) (argv ! 1);
       let s = s\<lparr> vol := fs \<rparr>;
       if result \<noteq> 0 then quit e ''cannot remove directory\<newline>'' [] (-1) s else Some (0, s) } }"

text \<open>\<open>mkdirst\<close> is not in the table of commands. Its loop writes the number into a local array of ten bytes.\<close>

fun mkdirst_loop :: "env \<Rightarrow> nat \<Rightarrow> int \<Rightarrow> bytes \<Rightarrow> shell \<Rightarrow> (int \<times> shell) option" where
  "mkdirst_loop e 0 i buf s = Some (0, s)"
| "mkdirst_loop e (Suc n) i buf s = do {
     buf \<leftarrow> intToStr i 10 buf;
     (result, _, fs, mem) \<leftarrow> sfsMkdir (stack e) (heap_works e) (item_addrs e) (loc_garbage e) (ino_garbage e) (vol s) (g_currentDir s) buf (items_mem s);
     let s = s\<lparr> vol := fs, items_mem := mem \<rparr>;
     if result \<noteq> 0 then quit e ''cannot create directory\<newline>'' [] (-1) s else mkdirst_loop e n (i + 1) buf s }"

text \<open>Without digits \<open>count\<close> stays uninitialised.\<close>

definition shell_cmd_mkdirst :: command where
  "shell_cmd_mkdirst e argv s =
    (if length argv \<noteq> 2 then do { a \<leftarrow> idx argv 0; quit e ''usage : %s [count]\<newline>'' [Str a] 0 s }
     else do {
       (n, args) \<leftarrow> sscank (console_of s) (argv ! 1) (lit ''%d'') [Scan_Int 0];
       case args of
         [Scan_Int count] \<Rightarrow> if n = 0 then None else mkdirst_loop e (nat count) 0 (take 10 (stack e)) s
       | _ \<Rightarrow> None })"

text \<open>The loop of \<open>cat\<close>: a block at a time into a buffer that keeps a terminator behind it.\<close>

partial_function (option) cat_loop :: "env \<Rightarrow> ShellEntry \<Rightarrow> u64 \<Rightarrow> bytes \<Rightarrow> shell \<Rightarrow> shell option" where
  "cat_loop e entry offset buf s = do {
     (r, buf) \<leftarrow> sfsRead (vol s) entry offset 1024 buf;
     if r > 0 then do {
       s \<leftarrow> say e (lit ''%s'') [Str buf] s;
       cat_loop e entry (offset + 1024) (replicate 1025 0) s }
     else Some s }"

definition shell_cmd_cat :: command where
  "shell_cmd_cat e argv s = do {
     help \<leftarrow> is_help argv;
     if help then quit e ''cat <file> - display file contents\<newline>'' [] 0 s
     else if length argv \<noteq> 2 then do { a \<leftarrow> idx argv 0; quit e ''usage : %s [file name]\<newline>'' [Str a] 0 s }
     else do {
       (r, found) \<leftarrow> shell_lookup e s (argv ! 1);
       if r \<noteq> 0 then quit e ''%s lookup failed\<newline>'' [Str (argv ! 1)] (-1) s
       else do {
         entry \<leftarrow> found;
         s \<leftarrow> cat_loop e entry 0 (replicate 1025 0) s;
         quit e ''\<newline>'' [] 0 s } } }"

text \<open>The two loops of \<open>ls\<close>.\<close>

definition blue :: "bytes \<Rightarrow> bytes" where
  "blue rest = 27 # map of_char ''[34m%s'' @ 27 # map of_char ''[0m'' @ rest"

partial_function (option) ls_loop :: "env \<Rightarrow> bool \<Rightarrow> u64 \<Rightarrow> shell \<Rightarrow> shell option" where
  "ls_loop e long_fmt current s =
    (if current = 0 then Some s
     else do {
       item \<leftarrow> items_mem s current;
       let entry = li_entry item;
       let sz = Num (ucast (se_size entry));
       let name = Str (se_name entry);
       s \<leftarrow> (if long_fmt then
              if se_isDirectory entry then say e (map of_char ''d---'' @ 9 # map of_char ''%d'' @ 9 # blue (lit ''\<newline>'')) [sz, name] s
              else say e (map of_char ''----'' @ 9 # map of_char ''%d'' @ 9 # lit ''%s\<newline>'') [sz, name] s
            else if se_isDirectory entry then say e (blue (lit ''  '')) [name] s
            else say e (lit ''%s  '') [name] s);
       ls_loop e long_fmt (li_next item) s })"

definition shell_cmd_ls :: command where
  "shell_cmd_ls e argv s = do {
     help \<leftarrow> is_help argv;
     if help then do {
       s \<leftarrow> say e (lit ''ls [-l] - list directory contents\<newline>'') [] s;
       quit e ''  -l  long format (type, size, name)\<newline>'' [] 0 s }
     else do {
       long_fmt \<leftarrow> (if length argv \<ge> 2 then do { c \<leftarrow> strcmp (argv ! 1) (lit ''-l''); Some (c = 0) } else Some False);
       (r, list, mem) \<leftarrow> sfsReadDir (heap_works e) (item_addrs e) (loc_garbage e) (ino_garbage e) (vol s) (g_currentDir s) initEntryList (items_mem s);
       let s = s\<lparr> items_mem := mem \<rparr>;
       if r \<noteq> 0 then quit e ''Failed to read_dir\<newline>'' [] (-1) s
       else do {
         s \<leftarrow> (if long_fmt then do {
                s \<leftarrow> say e (lit ''total %d\<newline>'') [Num (ucast (el_count list))] s;
                ls_loop e True (el_first list) s }
              else do {
                s \<leftarrow> ls_loop e False (el_first list) s;
                say e (lit ''\<newline>'') [] s });
         (_, mem) \<leftarrow> releaseEntryList list (items_mem s);
         Some (0, s\<lparr> items_mem := mem \<rparr>) } } }"

section \<open>Text and messages\<close>

definition shell_cmd_clear :: command where
  "shell_cmd_clear e argv s = do {
     help \<leftarrow> is_help argv;
     if help then quit e ''clear - clear the screen\<newline>'' [] 0 s
     else do { s \<leftarrow> say e (27 # map of_char ''[2J'' @ 27 # lit ''[H'') [] s; Some (0, s) } }"

text \<open>The loops that join arguments with blanks in a local array; \<open>limit\<close> is one less than its size.\<close>

fun join_args :: "nat \<Rightarrow> bytes list \<Rightarrow> bytes \<Rightarrow> nat \<Rightarrow> (bytes \<times> nat) option" where
  "join_args limit [] out pos = Some (out, pos)"
| "join_args limit (arg # args) out pos = do {
     slen \<leftarrow> strlen arg;
     if pos + slen \<ge> limit then Some (out, pos)
     else do {
       tail \<leftarrow> memcpy (drop pos out) arg slen;
       let out = take pos out @ tail;
       let pos = pos + slen;
       if args \<noteq> [] then do { out \<leftarrow> upd out pos 32; join_args limit args out (pos + 1) }
       else Some (out, pos) } }"

definition shell_cmd_echo :: command where
  "shell_cmd_echo e argv s = do {
     help \<leftarrow> is_help argv;
     if help then quit e ''echo <text...> - print text (supports > redirect)\<newline>'' [] 0 s
     else do {
       (output, pos) \<leftarrow> join_args 999 (drop 1 argv) (take 1000 (stack e)) 0;
       output \<leftarrow> upd output pos 0;
       case g_redir_file s of
         Some file \<Rightarrow>
           if \<not> g_isMounted s then quit e ''file system is not mounted\<newline>'' [] (-1) s
           else write_string_to_file e file output pos s
       | None \<Rightarrow> quit e ''%s\<newline>'' [Str output] 0 s } }"

definition shell_cmd_conn :: command where
  "shell_cmd_conn e argv s = do {
     help \<leftarrow> is_help argv;
     if help then quit e ''conn - enter serial link mode (Ctrl+C to exit)\<newline>'' [] 0 s
     else do {
       s \<leftarrow> say e (lit ''[conn] entering serial link mode...\<newline>'') [] s;
       (p, con) \<leftarrow> enterConn (uart s) (console_of s);
       quit e ''[conn] exited serial link mode\<newline>'' [] 0 (s\<lparr> console_of := con, uart := p \<rparr>) } }"

text \<open>What \<open>msg_send\<close> prints or hands to the serial line.\<close>

definition transmit :: "env \<Rightarrow> send_result \<Rightarrow> shell \<Rightarrow> shell option" where
  "transmit e r s = (case r of
     No_Node_Id \<Rightarrow> say e (lit ''set node id first (setid <id>)\<newline>'') [] s
   | Invalid_Target \<Rightarrow> say e (lit ''invalid target (0-%d)\<newline>'') [Num (of_nat (MSG_MAX_NODES - 1))] s
   | Bad_Length \<Rightarrow> say e (lit ''message too long (max %d)\<newline>'') [Num (of_nat MSG_MAX_PAYLOAD)] s
   | Frame pkt \<Rightarrow> do { p \<leftarrow> serial_write_raw COM1_BASE pkt (int (length pkt)) (uart s); Some (s\<lparr> uart := p \<rparr>) })"

text \<open>\<open>msg_set_id\<close> with what it prints and sends.\<close>

definition announce :: "env \<Rightarrow> u8 \<Rightarrow> shell \<Rightarrow> shell option" where
  "announce e node s = do {
     (r, m) \<leftarrow> msg_set_id (msgs (console_of s)) node;
     if unat node \<ge> MSG_MAX_NODES then say e (lit ''invalid id (0-%d)\<newline>'') [Num (of_nat (MSG_MAX_NODES - 1))] s
     else do {
       s \<leftarrow> say e (lit ''node id set to %d\<newline>'') [Num (ucast node)] (s\<lparr> console_of := (console_of s)\<lparr> msgs := m \<rparr> \<rparr>);
       transmit e r s } }"

definition shell_cmd_setid :: command where
  "shell_cmd_setid e argv s = do {
     help \<leftarrow> is_help argv;
     if help then quit e ''setid <id> - set this node's ID (0-7) for encrypted messaging\<newline>'' [] 0 s
     else if length argv \<noteq> 2 then quit e ''usage: setid <id>\<newline>'' [] (-1) s
     else do {
       n \<leftarrow> atoi (argv ! 1);
       s \<leftarrow> announce e (word_of_int n) s;
       Some (0, s) } }"

definition shell_cmd_sendmsg :: command where
  "shell_cmd_sendmsg e argv s = do {
     help \<leftarrow> is_help argv;
     if help then do {
       s \<leftarrow> say e (lit ''sendmsg <target_id> <message...> - send encrypted message to a node\<newline>'') [] s;
       quit e ''  requires setid first. only the target can decrypt.\<newline>'' [] 0 s }
     else if length argv < 3 then quit e ''usage: sendmsg <target_id> <message...>\<newline>'' [] (-1) s
     else do {
       target \<leftarrow> atoi (argv ! 1);
       (msg, pos) \<leftarrow> join_args 511 (drop 2 argv) (take 512 (stack e)) 0;
       msg \<leftarrow> upd msg pos 0;
       r \<leftarrow> msg_send (msgs (console_of s)) (word_of_int target) msg (int pos);
       s \<leftarrow> transmit e r s;
       quit e ''sent encrypted message to node %d\<newline>'' [Num (word_of_int target)] 0 s } }"

section \<open>The command line\<close>

text \<open>The loops of \<open>separateString\<close> that move the pointer over characters with a property.\<close>

function scan :: "(u8 \<Rightarrow> bool) \<Rightarrow> bytes \<Rightarrow> nat \<Rightarrow> nat option" where
  "scan P buf p = (if p < length buf then if buf ! p \<noteq> 0 \<and> P (buf ! p) then scan P buf (Suc p) else Some p else None)"
  by pat_completeness auto
termination
  by (relation "measure (\<lambda>(P, buf, p). length buf - p)") auto

declare scan.simps [simp del]

definition blank :: "u8 \<Rightarrow> bool" where
  "blank c \<longleftrightarrow> isspace (sint c)"

text \<open>Pointers into the line are offsets. A quoted argument starts behind the quote.\<close>

function separate :: "bytes \<Rightarrow> nat \<Rightarrow> nat list \<Rightarrow> nat \<Rightarrow> (nat list \<times> bytes) option" where
  "separate buf p ptrs most =
    (if p \<ge> length buf then None
     else if buf ! p \<noteq> 0 \<and> length ptrs < most then
       (case scan blank buf p of
          None \<Rightarrow> None
        | Some p \<Rightarrow>
            if buf ! p = 0 then Some (ptrs, buf)
            else
              (let quoted = (buf ! p = 34); start = (if quoted then Suc p else p)
               in case scan (\<lambda>c. if quoted then c \<noteq> 34 else \<not> blank c) buf start of
                    None \<Rightarrow> None
                  | Some q \<Rightarrow>
                      if buf ! q \<noteq> 0 then separate (buf[q := 0]) (Suc q) (ptrs @ [start]) most
                      else separate buf q (ptrs @ [start]) most))
     else Some (ptrs, buf))"
  by pat_completeness auto
termination
  by (relation "measure (\<lambda>(buf, p, ptrs, most). most - length ptrs)") auto

declare separate.simps [simp del]

definition separateString :: "bytes \<Rightarrow> nat \<Rightarrow> bytes list option" where
  "separateString buf most = do {
     (ptrs, buf) \<leftarrow> separate buf 0 [] most;
     Some (map (\<lambda>p. drop p buf) ptrs) }"

definition COND_MOUNT :: u8 where "COND_MOUNT = 1"
definition COND_UMOUNT :: u8 where "COND_UMOUNT = 2"

definition checkConditions :: "env \<Rightarrow> u8 \<Rightarrow> shell \<Rightarrow> (int \<times> shell) option" where
  "checkConditions e conditions s =
    (if conditions AND COND_MOUNT \<noteq> 0 \<and> \<not> g_isMounted s then quit e ''file system is not mounted\<newline>'' [] (-1) s
     else if conditions AND COND_UMOUNT \<noteq> 0 \<and> g_isMounted s then quit e ''file system is already mounted\<newline>'' [] (-1) s
     else Some (0, s))"

text \<open>\<open>exit\<close> halts the machine.\<close>

datatype handler = Cmd command | Cmd_exit

datatype outcome = Running shell | Halted shell

definition g_commands :: "(string \<times> handler \<times> u8) list" where
  "g_commands = [(''cd'', Cmd shell_cmd_cd, COND_MOUNT), (''mount'', Cmd shell_cmd_mount, COND_UMOUNT),
     (''touch'', Cmd shell_cmd_touch, COND_MOUNT), (''fill'', Cmd shell_cmd_fill, COND_MOUNT),
     (''ls'', Cmd shell_cmd_ls, COND_MOUNT), (''format'', Cmd shell_cmd_format, COND_UMOUNT),
     (''mkdir'', Cmd shell_cmd_mkdir, COND_MOUNT), (''rm'', Cmd shell_cmd_rm, COND_MOUNT),
     (''rmdir'', Cmd shell_cmd_rmdir, COND_MOUNT), (''exit'', Cmd_exit, 0), (''cat'', Cmd shell_cmd_cat, COND_MOUNT),
     (''clear'', Cmd shell_cmd_clear, 0), (''echo'', Cmd shell_cmd_echo, 0), (''conn'', Cmd shell_cmd_conn, 0),
     (''setid'', Cmd shell_cmd_setid, 0), (''sendmsg'', Cmd shell_cmd_sendmsg, 0),
     (''encrypt'', Cmd shell_cmd_encrypt, COND_MOUNT), (''decrypt'', Cmd shell_cmd_decrypt, COND_MOUNT)]"

definition shell_cmd_exit :: "env \<Rightarrow> bytes list \<Rightarrow> shell \<Rightarrow> outcome option" where
  "shell_cmd_exit e argv s = do {
     help \<leftarrow> is_help argv;
     if help then do { (_, s) \<leftarrow> quit e ''exit - unmount filesystem and shut down\<newline>'' [] 0 s; Some (Running s) }
     else do { disk \<leftarrow> disksimUninit (Some (fs_disk (vol s))); Some (Halted (s\<lparr> vol := (vol s)\<lparr> fs_disk := disk \<rparr> \<rparr>)) } }"

definition unknown_command :: "env \<Rightarrow> shell \<Rightarrow> shell option" where
  "unknown_command e s = do {
     s \<leftarrow> say e (lit '' * '') [] s;
     s \<leftarrow> fold (\<lambda>name r. do { s \<leftarrow> r; say e (lit ''%s, '') [Str (lit name)] s }) (map fst (butlast g_commands)) (Some s);
     s \<leftarrow> say e (lit ''%s'') [Str (lit (fst (last g_commands)))] s;
     say e (lit ''\<newline>'') [] s }"

text \<open>The loop that looks for \<open>>\<close>: the arguments in front of it and the file behind it.\<close>

fun split_redirect :: "bytes list \<Rightarrow> bytes list \<Rightarrow> (bytes list \<times> bytes list option) option" where
  "split_redirect before [] = Some (before, None)"
| "split_redirect before (arg # args) = do {
     c \<leftarrow> strcmp arg (lit ''>'');
     if c = 0 then Some (before, Some args) else split_redirect (before @ [arg]) args }"

fun find_command :: "(string \<times> handler \<times> u8) list \<Rightarrow> bytes \<Rightarrow> (handler \<times> u8) option option" where
  "find_command [] name = Some None"
| "find_command ((n, h, c) # cmds) name = do {
     r \<leftarrow> strcmp (lit n) name;
     if r = 0 then Some (Some (h, c)) else find_command cmds name }"

definition run_command :: "env \<Rightarrow> bytes list \<Rightarrow> shell \<Rightarrow> outcome option" where
  "run_command e argv s = do {
     name \<leftarrow> idx argv 0;
     cmd \<leftarrow> find_command g_commands name;
     case cmd of
       None \<Rightarrow> do { s \<leftarrow> unknown_command e (s\<lparr> g_redir_file := None \<rparr>); Some (Running s) }
     | Some (h, cond) \<Rightarrow> do {
         help \<leftarrow> is_help argv;
         (ok, s) \<leftarrow> (if help then Some (0, s) else checkConditions e cond s);
         out \<leftarrow> (if ok = 0 then
                  (case h of Cmd f \<Rightarrow> do { (_, s) \<leftarrow> f e argv s; Some (Running s) } | Cmd_exit \<Rightarrow> shell_cmd_exit e argv s)
                else Some (Running s));
         Some (case out of Running s \<Rightarrow> Running (s\<lparr> g_redir_file := None \<rparr>) | Halted s \<Rightarrow> Halted s) } }"

text \<open>A line that has been read.\<close>

definition run_line :: "env \<Rightarrow> bytes \<Rightarrow> shell \<Rightarrow> outcome option" where
  "run_line e buf s = do {
     argv \<leftarrow> separateString buf 100;
     if argv = [] then Some (Running s)
     else do {
       (argv, redir) \<leftarrow> split_redirect [] argv;
       case redir of
         Some [] \<Rightarrow> do { s \<leftarrow> say e (lit ''syntax error: missing filename after >\<newline>'') [] (s\<lparr> g_redir_file := None \<rparr>); Some (Running s) }
       | Some (file # _) \<Rightarrow>
           if argv = [] then Some (Running (s\<lparr> g_redir_file := Some file \<rparr>)) else run_command e argv (s\<lparr> g_redir_file := Some file \<rparr>)
       | None \<Rightarrow> run_command e argv (s\<lparr> g_redir_file := None \<rparr>) } }"

text \<open>One turn of \<open>do_shell\<close>; \<open>serial\<close> are the bytes the serial port has when it starts.\<close>

definition shell_turn :: "env \<Rightarrow> bytes \<Rightarrow> history \<Rightarrow> bytes \<Rightarrow> shell \<Rightarrow> (outcome \<times> history \<times> bytes) option" where
  "shell_turn e serial h buf s = do {
     con \<leftarrow> console_poll serial (console_of s);
     let s = s\<lparr> console_of := con \<rparr>;
     s \<leftarrow> say e (lit ''[user/%s]# '') [Str (se_name (g_currentDir s))] s;
     (_, buf, h, con) \<leftarrow> shell_readline (take HIST_CMDLEN (stack e)) h buf 1000 (console_of s);
     out \<leftarrow> run_line e buf (s\<lparr> console_of := con \<rparr>);
     Some (out, h, buf) }"

text \<open>\<open>do_shell\<close> for as many turns as \<open>serials\<close> has, or until the machine halts.\<close>

fun shell_turns :: "env \<Rightarrow> bytes list \<Rightarrow> history \<Rightarrow> bytes \<Rightarrow> shell \<Rightarrow> (outcome \<times> history \<times> bytes) option" where
  "shell_turns e [] h buf s = Some (Running s, h, buf)"
| "shell_turns e (serial # serials) h buf s = do {
     (out, h, buf) \<leftarrow> shell_turn e serial h buf s;
     case out of Running s \<Rightarrow> shell_turns e serials h buf s | Halted s \<Rightarrow> Some (out, h, buf) }"

definition do_shell :: "env \<Rightarrow> bytes list \<Rightarrow> history \<Rightarrow> shell \<Rightarrow> (outcome \<times> history \<times> bytes) option" where
  "do_shell e serials h s = do {
     s \<leftarrow> say e (lit ''%s File system shell\<newline>'') [Str (lit ''FS'')] s;
     shell_turns e serials h (take 1000 (stack e)) s }"

definition SECTOR_SIZE :: u32 where "SECTOR_SIZE = 512"

definition initFs :: "env \<Rightarrow> bytes list \<Rightarrow> history \<Rightarrow> shell \<Rightarrow> (outcome \<times> history \<times> bytes) option" where
  "initFs e serials h s = do {
     let (r, d) = disksimInit (of_nat NUMBER_OF_SECTORS) SECTOR_SIZE (Some (fs_disk (vol s)));
     disk \<leftarrow> d;
     if r < 0 then do { s \<leftarrow> say e (lit ''disk simulator initialization has been failed\<newline>'') [] s; Some (Running s, h, []) }
     else do_shell e serials h (s\<lparr> vol := (vol s)\<lparr> fs_disk := disk \<rparr> \<rparr>) }"

end
