(* ===== verification/Shell_Crypt.thy ===== *)
theory Shell_Crypt
  imports Shell_Cmd
begin

text \<open>
  \<open>encrypt\<close> and \<open>decrypt\<close> of the shell, through the directory, the file and the inode: the second undoes the first.
\<close>

section \<open>Reading a whole file\<close>

lemma sfsRead_spec:
  assumes "fs_inv fs" "live fs n" "n = unat (d_inode (n_entry (se_pdata entry)))" "t < 2 ^ 31 - 1024"
    and "read_size fs n t 1024 \<le> length buf"
  shows "sfsRead fs entry (of_nat t) 1024 buf =
    Some (int (read_size fs n t 1024), bslice t (read_size fs n t 1024) (file_content fs n) @ drop (read_size fs n t 1024) buf)"
proof -
  have "unat (ucast (of_nat t :: u64) :: u32) = t" using assms(4) by (simp add: unsigned_ucast_eq unsigned_of_nat take_bit_nat_eq_self)
  then have "sint (ucast (of_nat t :: u64) :: u32) = int t" using sint_small [of "ucast (of_nat t :: u64) :: u32"] assms(4) by simp
  moreover have "fsRead fs (Some (se_pdata entry)) (int t) 1024 (Some buf) =
    Some (int (read_size fs n t 1024), Some (bslice t (read_size fs n t 1024) (file_content fs n) @ drop (read_size fs n t 1024) buf))"
    using fsRead_fits [OF assms(1), of "se_pdata entry" "int t" 1024 buf] assms(2-5) by simp
  ultimately show ?thesis by (simp add: sfsRead_def shellEntryToFsNode_def)
qed

lemma read_whole_from_spec:
  assumes fs: "fs_inv fs" "live fs n" "n = unat (d_inode (n_entry (se_pdata entry)))" and most: "length (file_content fs n) \<le> most" "most \<le> 12288"
  shows "most \<le> length out \<Longrightarrow> t \<le> length (file_content fs n) \<Longrightarrow> t mod 1024 = 0 \<or> t = length (file_content fs n) \<Longrightarrow>
    read_whole_from fs entry out (int most) (int t) =
      Some (int (length (file_content fs n)), take t out @ drop t (file_content fs n) @ drop (length (file_content fs n)) out)"
proof (induction "length (file_content fs n) - t" arbitrary: t out rule: less_induct)
  case less
  let ?c = "file_content fs n" and ?k = "read_size fs n t 1024"
  have k: "?k = min 1024 (min (length ?c - t) (1024 - t mod 1024))" by (simp add: read_size_def layout_values(3))
  show ?case
  proof (cases "t < most")
    case False
    then have "t = length ?c" using less.prems most(1) by simp
    then show ?thesis using False by (simp add: read_whole_from.simps)
  next
    case True
    have fit: "?k \<le> length (drop t out)" using k less.prems most(1) by auto
    have r: "sfsRead fs entry (word_of_int (int t)) 1024 (drop t out) = Some (int ?k, bslice t ?k ?c @ drop ?k (drop t out))"
      using sfsRead_spec [OF fs, of t "drop t out"] fit less.prems(2) most by simp
    show ?thesis
    proof (cases "t = length ?c")
      case True
      then have "?k = 0" using k by simp
      then show ?thesis using r \<open>t < most\<close> True by (simp add: read_whole_from.simps [of fs entry out] bslice_def)
    next
      case False
      then have lt: "t < length ?c" "t mod 1024 = 0" using less.prems by auto
      then have kk: "?k = min 1024 (length ?c - t)" "0 < ?k" by (simp_all add: k)
      let ?out = "take t out @ bslice t ?k ?c @ drop (t + ?k) out"
      have len: "length (bslice t ?k ?c) = ?k" using kk(1) by (simp add: bslice_def)
      have step: "read_whole_from fs entry out (int most) (int t) = read_whole_from fs entry ?out (int most) (int (t + ?k))"
        using r \<open>t < most\<close> kk(2) by (simp add: read_whole_from.simps [of fs entry out] add.commute)
      have next_t: "t + ?k \<le> length ?c" "(t + ?k) mod 1024 = 0 \<or> t + ?k = length ?c" using kk(1) lt by (auto simp: min_def)
      have lo: "length ?out = length out" using len less.prems(1,2) most(1) next_t(1) by simp
      have "read_whole_from fs entry ?out (int most) (int (t + ?k)) =
          Some (int (length ?c), take (t + ?k) ?out @ drop (t + ?k) ?c @ drop (length ?c) ?out)"
        by (rule less.hyps) (use next_t lo less.prems(1) lt kk(2) in auto)
      moreover have "take (t + ?k) ?out = take t out @ bslice t ?k ?c" using len less.prems(1,2) most(1) by simp
      moreover have "drop (length ?c) ?out = drop (length ?c) out"
      proof -
        have "length (take t out @ bslice t ?k ?c) = t + ?k" using len less.prems(1,2) most(1) by simp
        then have "drop (length ?c) ((take t out @ bslice t ?k ?c) @ drop (t + ?k) out) = drop (length ?c - (t + ?k)) (drop (t + ?k) out)"
          using next_t(1) by (simp only: drop_append) simp
        then show ?thesis using next_t(1) by simp
      qed
      moreover have "bslice t ?k ?c @ drop (t + ?k) ?c = drop t ?c"
        using append_take_drop_id [of ?k "drop t ?c"] by (simp add: bslice_def add.commute)
      ultimately show ?thesis using step by (metis append_assoc)
    qed
  qed
qed

lemma read_whole_file_spec:
  assumes "fs_inv fs" "live fs n" "n = unat (d_inode (n_entry (se_pdata entry)))" "length (file_content fs n) \<le> most" "most \<le> 12288" "most \<le> length out"
  shows "read_whole_file fs entry out (int most) = Some (int (length (file_content fs n)), file_content fs n @ drop (length (file_content fs n)) out)"
  using read_whole_from_spec [OF assms(1-5), of out 0] assms(6) by (simp add: read_whole_file_def)

section \<open>Marking an inode\<close>

lemma unchanged_but_compose:
  assumes "unchanged_but n fs fs1" "unchanged_but n fs1 fs2"
  shows "unchanged_but n fs fs2"
proof -
  have "owned fs1 m = owned fs m" if "live fs m" "m \<noteq> n" for m using assms(1) that by (simp add: unchanged_but_def owned_def)
  then show ?thesis using assms unfolding unchanged_but_def by metis
qed

lemma flagged_inode:
  fixes v :: u32
  assumes inv: "fs_inv fs" and n: "live fs n"
  defines "fs' \<equiv> put_inode fs n ((inode_at fs n)\<lparr> i_flags := v \<rparr>)"
  shows "fs_inv fs'" "unchanged_but n fs fs'" "inode_at fs' n = (inode_at fs n)\<lparr> i_flags := v \<rparr>" "file_content fs' n = file_content fs n" "owned fs' n = owned fs n"
proof -
  let ?x = "(inode_at fs n)\<lparr> i_flags := v \<rparr>" and ?bs = "owned fs n"
  have wf: "inode_wf fs n" by (rule fs_invD(4) [OF inv n])
  have bl: "length (i_block (inode_at fs n)) = 15" using wf_inode_at [of fs n] by (simp add: wfInode_def)
  have b: "unat (i_blocks (inode_at fs n)) \<le> 15" using wf by (simp add: inode_wf_def layout_values)
  then have len: "length ?bs = unat (i_blocks (inode_at fs n))" using bl by (simp add: owned_def)
  have x: "wfInode ?x" "unat (i_blocks ?x) = length ?bs" "take (length ?bs) (i_block ?x) = ?bs"
    using wf_inode_at [of fs n] len by (simp_all add: wfInode_def owned_def)
  have used: "block_used fs j \<longleftrightarrow> j \<in> unat ` set ?bs \<or> block_used fs j \<and> j \<notin> unat ` set ?bs" if "j < BLOCKS_PER_GROUP" for j
    using wf by (auto simp: inode_wf_def)
  have h: "distinct ?bs" "length ?bs \<le> FS_N_BLOCKS" "\<And>b. b \<in> set ?bs \<Longrightarrow> data_block (unat b) \<and> (b \<in> set (owned fs n) \<or> \<not> block_used fs (unat b))"
    using wf len by (auto simp: inode_wf_def)
  note r = replace_inode [OF inv n same_rest_refl fs_invD(3) [OF inv] fs_invD(1) [OF inv] used h refl x, folded fs'_def]
  show "fs_inv fs'" by (rule r(1))
  show "unchanged_but n fs fs'" unfolding unchanged_but_def using r(2,4,5) by blast
  show at: "inode_at fs' n = ?x" by (rule r(3))
  show o: "owned fs' n = owned fs n" by (simp add: owned_def at)
  show "file_content fs' n = file_content fs n"
    unfolding file_content_def o using at r(6) by (simp cong: map_cong)
qed

lemma crypt_mark_inode_spec:
  assumes inv: "fs_inv fs" and n: "live fs n" "n = unat (d_inode (n_entry (se_pdata entry)))"
  shows "crypt_mark_inode fs entry on = Some (put_inode fs n ((inode_at fs n)\<lparr> i_flags :=
    if on then i_flags (inode_at fs n) OR FS_ENCRYPT_FL else i_flags (inode_at fs n) AND NOT FS_ENCRYPT_FL \<rparr>))"
    "crypt_is_marked fs entry = Some (i_flags (inode_at fs n) AND FS_ENCRYPT_FL \<noteq> 0)"
proof -
  let ?w = "d_inode (n_entry (se_pdata entry))"
  have no: "inode_no n" using n(1) by (simp add: live_def)
  have ok: "fs_ok fs" by (rule mounted_ok [OF fs_invD(1) [OF inv]])
  have g: "getInode fs ?w = Some (Some (inode_at fs n))" using getInode_eq [OF ok, of ?w] no n(2) by simp
  have "n < 2 ^ 31" using no by (auto simp: inode_no_def layout_simps)
  then have si: "sint ?w = int n" using sint_small [of ?w] n(2) by simp
  have ins: "insertInodeTable fs ((inode_at fs n)\<lparr> i_flags := v \<rparr>) (int n) = Some (FS_SUCCESS, put_inode fs n ((inode_at fs n)\<lparr> i_flags := v \<rparr>))" for v
    by (rule insertInodeTable_eq [OF ok no]) (use wf_inode_at [of fs n] in \<open>simp add: wfInode_def\<close>)
  show "crypt_mark_inode fs entry on = Some (put_inode fs n ((inode_at fs n)\<lparr> i_flags :=
    if on then i_flags (inode_at fs n) OR FS_ENCRYPT_FL else i_flags (inode_at fs n) AND NOT FS_ENCRYPT_FL \<rparr>))"
    using g si ins by (simp add: crypt_mark_inode_def shellEntryToFsNode_def)
  show "crypt_is_marked fs entry = Some (i_flags (inode_at fs n) AND FS_ENCRYPT_FL \<noteq> 0)"
    using g by (simp add: crypt_is_marked_def shellEntryToFsNode_def)
qed

lemma flag_bits: "(v OR FS_ENCRYPT_FL) AND FS_ENCRYPT_FL \<noteq> 0" "(v AND NOT FS_ENCRYPT_FL) AND FS_ENCRYPT_FL = 0"
proof -
  have "(v OR FS_ENCRYPT_FL) AND FS_ENCRYPT_FL = FS_ENCRYPT_FL" "(v AND NOT FS_ENCRYPT_FL) AND FS_ENCRYPT_FL = 0"
    by (rule bit_word_eqI; auto simp: bit_simps)+
  then show "(v OR FS_ENCRYPT_FL) AND FS_ENCRYPT_FL \<noteq> 0" "(v AND NOT FS_ENCRYPT_FL) AND FS_ENCRYPT_FL = 0"
    by (simp_all add: FS_ENCRYPT_FL_def)
qed

section \<open>Looking a file up\<close>

lemma myStrncpy_defined:
  "nat len < length src \<Longrightarrow> dest + nat len \<le> length buf \<Longrightarrow>
    \<exists>buf' dest'. myStrncpy buf dest src len = Some (buf', dest') \<and> length buf' = length buf \<and> dest' \<le> dest + nat len"
proof (induction src arbitrary: buf dest len)
  case (Cons c src)
  show ?case
  proof (cases "c \<noteq> 0 \<and> c \<noteq> 0x20 \<and> len > 0")
    case True
    then have n: "nat len = Suc (nat (len - 1))" by (simp add: Suc_nat_eq_nat_zadd1)
    obtain buf' dest' where "myStrncpy (buf[dest := c]) (Suc dest) src (len - 1) = Some (buf', dest')" "length buf' = length buf"
      "dest' \<le> Suc dest + nat (len - 1)"
      using Cons.IH [of "len - 1" "Suc dest" "buf[dest := c]"] Cons.prems n by auto
    then show ?thesis using True Cons.prems(2) n by (auto simp: upd_def)
  qed auto
qed simp

lemma entry_name_defined: "wfDirEntry e \<Longrightarrow> \<exists>name. entry_name e = Some name"
proof -
  assume wf: "wfDirEntry e"
  then have len: "length (entry_name_string e) = 28" by (simp add: wfDirEntry_def entry_name_string_def le32_def)
  obtain n1 d1 where 1: "myStrncpy (replicate 256 0) 0 (entry_name_string e) 8 = Some (n1, d1)" "length n1 = 256" "d1 \<le> 8"
    using myStrncpy_defined [of 8 "entry_name_string e" 0 "replicate 256 0"] len by auto
  obtain n2 d2 where 2: "myStrncpy n1 d1 [46, 0] 1 = Some (n2, d2)" "length n2 = 256" "d2 \<le> 9"
    using myStrncpy_defined [of 1 "[46, 0]" d1 n1] 1 by auto
  obtain n3 d3 where 3: "myStrncpy n2 d2 (drop 8 (entry_name_string e)) 3 = Some (n3, d3)"
    using myStrncpy_defined [of 3 "drop 8 (entry_name_string e)" d2 n2] 2 len by auto
  show ?thesis using 1(1) 2(1) 3 wf by (simp add: entry_name_def wfDirEntry_def)
qed

text \<open>The name \<open>nm\<close> is that of the plain file \<open>i\<close> in the current directory \<open>d\<close>; the blocks of the file hold all its bytes.\<close>

definition plain_file :: "shell \<Rightarrow> nat \<Rightarrow> bytes \<Rightarrow> nat \<Rightarrow> bool" where
  "plain_file s d nm i \<longleftrightarrow> d = unat (d_inode (n_entry (se_pdata (g_currentDir s)))) \<and> fs_inv (vol s) \<and> dir_ok (vol s) d \<and>
     terminated nm \<and> valid83 (cstr nm) \<and> length (cstr nm) \<le> 11 \<and> dir_map (vol s) d (key (cstr nm)) = Some (of_nat i) \<and>
     live (vol s) i \<and> i \<noteq> d \<and> i \<noteq> 2 \<and> drop_bit 12 (i_mode (inode_at (vol s) i)) \<noteq> 4 \<and>
     unat (i_size (inode_at (vol s) i)) = length (file_content (vol s) i) \<and> length (g_cryptbuf s) = CRYPT_BUF_MAX"

definition encrypted :: "Filesystem \<Rightarrow> nat \<Rightarrow> bool" where
  "encrypted fs i \<longleftrightarrow> i_flags (inode_at fs i) AND FS_ENCRYPT_FL \<noteq> 0"

lemma inode_no_u32: "inode_no i \<Longrightarrow> unat (of_nat i :: u32) = i"
  by (rule unat_le_of_nat) (simp add: inode_no_def layout_simps)

lemma lookup_plain_file:
  assumes "plain_file s d nm i"
  shows "\<exists>entry. shell_lookup e s nm = Some (0, Some entry) \<and> file_node (vol s) (se_pdata entry) i \<and>
    unat (d_inode (n_entry (se_pdata entry))) = i \<and> se_size entry = i_size (inode_at (vol s) i) \<and> \<not> se_isDirectory entry"
proof -
  let ?fs = "vol s" and ?p = "se_pdata (g_currentDir s)"
  have a: "fs_inv ?fs" "live ?fs d" "d = unat (d_inode (n_entry ?p))" "terminated nm" "valid83 (cstr nm)" "length (cstr nm) \<le> 11"
    and i: "dir_map ?fs d (key (cstr nm)) = Some (of_nat i)" "live ?fs i" "i \<noteq> 2" "drop_bit 12 (i_mode (inode_at ?fs i)) \<noteq> 4"
    using assms by (auto simp: plain_file_def dir_ok_def)
  have no: "inode_no i" using i(2) by (simp add: live_def)
  have u: "unat (of_nat i :: u32) = i" by (rule inode_no_u32 [OF no])
  obtain node where n: "fsLookup ?fs ?p nm zero_node = Some (FS_SUCCESS, node)" "d_inode (n_entry node) = of_nat i" "file_node ?fs node i"
    using fsLookup_spec [OF a, of zero_node] i(1,2) u by auto
  obtain r node' where m: "fsLookup ?fs ?p nm zero_node = Some (r, node')"
    "case found ?fs d (Some (key (cstr nm))) of Some g \<Rightarrow> r = FS_SUCCESS \<and> node' = slot_node ?fs d g | None \<Rightarrow> r = FS_ERROR"
    using fsLookup_map [OF a, of zero_node] by blast
  then obtain g where "node = slot_node ?fs d g" using n(1) by (auto split: option.splits simp: FS_SUCCESS_def FS_ERROR_def)
  then have "wfDirEntry (n_entry node)" using wf_slot [of ?fs d g] by (simp add: slot_node_def)
  then obtain name where nm: "entry_name (n_entry node) = Some name" using entry_name_defined by blast
  have g: "getInode ?fs (of_nat i) = Some (Some (inode_at ?fs i))"
    using getInode_eq [OF mounted_ok [OF fs_invD(1) [OF a(1)]], of "of_nat i"] no u by simp
  have ne: "(of_nat i :: u32) \<noteq> 2" using u i(3) by auto
  show ?thesis using n nm g ne u i(4) by (simp add: shell_lookup_def sfsLookup_def shellEntryToFsNode_def fsNodeToShellEntry_def FS_SUCCESS_def)
qed

section \<open>Writing a file back\<close>

lemma quit_pieces:
  assumes "65 \<le> length (stack e)" "list_all piece_ok ps" "lit fmt = concat (map piece_fmt ps) @ [0]" "args = concat (map piece_args ps)"
  shows "\<exists>con. quit e fmt args r s = Some (r, s\<lparr> console_of := con \<rparr>)"
  using printk_pieces [OF assms(1,2), of "[]" "[]" "console_of s"] assms(3,4) by (auto simp: quit_def say_def)

lemma store_and_mark:
  assumes "fs_inv fs" "file_node fs (se_pdata entry) i" "unat (d_inode (n_entry (se_pdata entry))) = i"
    and "n \<le> CRYPT_BUF_MAX" "n \<le> length buf" "max 1 ((n + 1023) div 1024) \<le> unat (i_blocks (inode_at fs i)) + free_blocks fs"
  shows "\<exists>fs1 fs2. sfsWrite fs entry 0 (of_nat n) buf = Some (0, fs1) \<and> crypt_mark_inode fs1 entry on = Some fs2 \<and> fs_inv fs2 \<and>
    unchanged_but i fs fs2 \<and> file_content fs2 i = take n buf \<and> unat (i_size (inode_at fs2 i)) = n \<and>
    i_mode (inode_at fs2 i) = i_mode (inode_at fs i) \<and> unat (i_blocks (inode_at fs2 i)) = max 1 ((n + 1023) div 1024) \<and> encrypted fs2 i = on"
proof -
  have len: "unat (of_nat n :: u64) = n" using assms(4) by (intro unat_le_of_nat) (simp add: CRYPT_BUF_MAX_def layout_values)
  have wc: "unat (write_block_count 0 (of_nat n)) = max 1 ((n + 1023) div 1024)"
    using write_block_count_val [of 0 "of_nat n"] len assms(4) by (simp add: CRYPT_BUF_MAX_def layout_values)
  obtain fs1 where w: "fsWrite fs (se_pdata entry) 0 (of_nat n) buf = Some (FS_SUCCESS, fs1)" "fs_inv fs1" "unchanged_but i fs fs1"
    "file_content fs1 i = take n buf" "i_mode (inode_at fs1 i) = i_mode (inode_at fs i)" "length (owned fs1 i) = max 1 ((n + 1023) div 1024)"
    "unat (i_size (inode_at fs1 i)) = n"
    using fsWrite_full [OF assms(1,2), of 0 "of_nat n" buf] len wc assms(4-6) by (auto simp: CRYPT_BUF_MAX_def)
  have l: "live fs1 i" using assms(2) w(3) by (simp add: file_node_def unchanged_but_def)
  define v where "v = (if on then i_flags (inode_at fs1 i) OR FS_ENCRYPT_FL else i_flags (inode_at fs1 i) AND NOT FS_ENCRYPT_FL)"
  note f = flagged_inode [OF w(2) l, of v]
  have m: "crypt_mark_inode fs1 entry on = Some (put_inode fs1 i ((inode_at fs1 i)\<lparr> i_flags := v \<rparr>))"
    using crypt_mark_inode_spec(1) [OF w(2) l, of entry on] assms(3) by (simp add: v_def)
  have "unat (i_blocks (inode_at fs1 i)) = max 1 ((n + 1023) div 1024)" using owned_nth(1) [OF w(2) l] w(6) by simp
  moreover have "encrypted (put_inode fs1 i ((inode_at fs1 i)\<lparr> i_flags := v \<rparr>)) i = on"
    using f(3) flag_bits [of "i_flags (inode_at fs1 i)"] by (simp add: encrypted_def v_def)
  ultimately show ?thesis
    using w m f unchanged_but_compose [OF w(3) f(2)] by (simp add: sfsWrite_def shellEntryToFsNode_def FS_SUCCESS_def)
qed

lemma plain_file_step:
  assumes "plain_file s d nm i" "fs_inv fs'" "unchanged_but i (vol s) fs'" "i_mode (inode_at fs' i) = i_mode (inode_at (vol s) i)"
    and "unat (i_size (inode_at fs' i)) = length (file_content fs' i)" "vol s' = fs'" "g_currentDir s' = g_currentDir s" "length (g_cryptbuf s') = length (g_cryptbuf s)"
  shows "plain_file s' d nm i"
proof -
  have p: "fs_inv (vol s)" "dir_ok (vol s) d" "i \<noteq> d" "live (vol s) i" using assms(1) by (auto simp: plain_file_def)
  note u = unchanged_dir [OF p(1,2) assms(3) p(3)]
  have "live fs' i" using p(4) assms(3) by (simp add: unchanged_but_def)
  then show ?thesis using assms u(1,2) unfolding plain_file_def by auto
qed

section \<open>The two commands\<close>

lemma take_apply_key: "n \<le> length buf \<Longrightarrow> take n (apply_key pw n buf) = apply_key pw n (take n buf)"
  by (rule nth_equalityI) (auto simp: nth_apply_key)

lemma apply_key_append: "n = length xs \<Longrightarrow> apply_key pw n (xs @ ys) = apply_key pw n xs @ ys"
  by (rule nth_equalityI) (auto simp: nth_apply_key nth_append)

lemma shift_down_spec:
  "i + n < length buf \<Longrightarrow> \<exists>buf'. shift_down buf i n = Some buf' \<and> length buf' = length buf \<and>
    (\<forall>j. buf' ! j = (if i \<le> j \<and> j < i + n then buf ! Suc j else buf ! j))"
proof (induction n arbitrary: i buf)
  case (Suc n)
  then obtain buf' where "shift_down (buf[i := buf ! Suc i]) (Suc i) n = Some buf'" "length buf' = length buf"
    "\<forall>j. buf' ! j = (if Suc i \<le> j \<and> j < Suc i + n then buf[i := buf ! Suc i] ! Suc j else buf[i := buf ! Suc i] ! j)"
    using Suc.IH [of "Suc i" "buf[i := buf ! Suc i]"] by auto
  then show ?case using Suc.prems by (auto simp: upd_def nth_list_update)
qed auto

definition sealed :: "bytes \<Rightarrow> bytes \<Rightarrow> bytes" where
  "sealed pw c = apply_key pw (Suc (length c)) (CRYPT_CHECK_BYTE # c)"

lemma encrypt_run:
  assumes "plain_file s d nm i" "\<not> encrypted (vol s) i" "length (file_content (vol s) i) < CRYPT_BUF_MAX"
    and "(length (file_content (vol s) i) + 1024) div 1024 \<le> unat (i_blocks (inode_at (vol s) i)) + free_blocks (vol s)"
    and "terminated pw" "cstr pw \<noteq> []" "65 \<le> length (stack e)"
  shows "\<exists>s'. shell_cmd_encrypt e [cmd, nm, pw] s = Some (0, s') \<and> plain_file s' d nm i \<and> encrypted (vol s') i \<and>
    file_content (vol s') i = sealed pw (file_content (vol s) i) \<and> unchanged_but i (vol s) (vol s') \<and> g_currentDir s' = g_currentDir s \<and>
    unat (i_blocks (inode_at (vol s') i)) = (length (file_content (vol s) i) + 1024) div 1024"
proof -
  let ?fs = "vol s" and ?c = "file_content (vol s) i"
  let ?rest = "drop (length ?c) (drop 1 (g_cryptbuf s))"
  have b: "CRYPT_BUF_MAX = 12288" by (simp add: CRYPT_BUF_MAX_def layout_values)
  have p: "fs_inv ?fs" "live ?fs i" "unat (i_size (inode_at ?fs i)) = length ?c" "length (g_cryptbuf s) = 12288" "terminated nm"
    using assms(1) b by (auto simp: plain_file_def)
  have lc: "length ?c < 12288" using assms(3) b by simp
  obtain entry where en: "shell_lookup e s nm = Some (0, Some entry)" "file_node ?fs (se_pdata entry) i"
    "unat (d_inode (n_entry (se_pdata entry))) = i" "se_size entry = i_size (inode_at ?fs i)" "\<not> se_isDirectory entry"
    using lookup_plain_file [OF assms(1)] by blast
  have mk: "crypt_is_marked ?fs entry = Some False"
    using crypt_mark_inode_spec(2) [OF p(1,2), of entry] en(3) assms(2) by (simp add: encrypted_def)
  have small: "\<not> unat (se_size entry + 1) > CRYPT_BUF_MAX"
  proof -
    have "unat (se_size entry + 1) = length ?c + 1" using en(4) p(3) lc by (simp add: unat_word_ariths)
    then show ?thesis using lc b by simp
  qed
  have rd: "read_whole_file ?fs entry (drop 1 (g_cryptbuf s)) (int CRYPT_BUF_MAX - 1) = Some (int (length ?c), ?c @ ?rest)"
    using read_whole_file_spec [OF p(1,2) en(3) [symmetric], of 12287 "drop 1 (g_cryptbuf s)"] lc p(4) unfolding b by simp
  define buf where "buf = apply_key pw (Suc (length ?c)) (CRYPT_CHECK_BYTE # ?c @ ?rest)"
  have lb: "length buf = 12288" using p(4) lc by (simp add: buf_def)
  have cx: "cryptXor (CRYPT_CHECK_BYTE # ?c @ ?rest) (int (length ?c) + 1) pw = Some buf"
    using cryptXor_eq [OF assms(5,6), of "Suc (length ?c)" "CRYPT_CHECK_BYTE # ?c @ ?rest"] lc by (simp add: buf_def add.commute)
  have tk: "take (Suc (length ?c)) buf = sealed pw ?c" using take_apply_key [of "Suc (length ?c)" "CRYPT_CHECK_BYTE # ?c @ ?rest" pw] by (simp add: buf_def sealed_def)
  have mx: "max 1 ((Suc (length ?c) + 1023) div 1024) = (length ?c + 1024) div 1024" by simp
  obtain fs1 fs2 where w: "sfsWrite ?fs entry 0 (of_nat (Suc (length ?c))) buf = Some (0, fs1)" "crypt_mark_inode fs1 entry True = Some fs2" "fs_inv fs2"
    "unchanged_but i ?fs fs2" "file_content fs2 i = sealed pw ?c" "unat (i_size (inode_at fs2 i)) = Suc (length ?c)"
    "i_mode (inode_at fs2 i) = i_mode (inode_at ?fs i)" "unat (i_blocks (inode_at fs2 i)) = (length ?c + 1024) div 1024" "encrypted fs2 i"
    using store_and_mark [OF p(1) en(2,3), of "Suc (length ?c)" buf True] assms(4) lc lb unfolding b tk mx by auto
  obtain con where q: "quit e ''encrypted %s (%d bytes)\<newline>'' [Str nm, Num (word_of_int (int (length ?c)))] 0 (s\<lparr> g_cryptbuf := buf, vol := fs2 \<rparr>) =
      Some (0, s\<lparr> g_cryptbuf := buf, vol := fs2, console_of := con \<rparr>)"
    using quit_pieces [OF assms(7), of "[Text (map of_char ''encrypted ''), Word nm, Text (map of_char '' (''), Dec (word_of_int (int (length ?c))), Text (map of_char '' bytes)\<newline>'')]"
      "''encrypted %s (%d bytes)\<newline>''" _ 0 "s\<lparr> g_cryptbuf := buf, vol := fs2 \<rparr>"] p(5) by (auto simp: lit_def)
  have hd: "idx pw 0 = Some (hd pw)" "hd pw \<noteq> 0" using assms(5,6) by (cases pw; auto)+
  have bz: "upd (g_cryptbuf s) 0 CRYPT_CHECK_BYTE = Some (CRYPT_CHECK_BYTE # drop 1 (g_cryptbuf s))"
    using p(4) by (cases "g_cryptbuf s") (auto simp: upd_def)
  have run: "shell_cmd_encrypt e [cmd, nm, pw] s = Some (0, s\<lparr> g_cryptbuf := buf, vol := fs2, console_of := con \<rparr>)"
    using en(1,5) mk small rd cx w(1,2) q hd bz
    by (simp add: shell_cmd_encrypt_def is_help_def shell_write_def nat_add_distrib nat_int_add)
  moreover have "plain_file (s\<lparr> g_cryptbuf := buf, vol := fs2, console_of := con \<rparr>) d nm i"
    by (rule plain_file_step [OF assms(1) w(3,4,7)]) (use w(5,6) lb p(4) in \<open>simp_all add: sealed_def\<close>)
  ultimately show ?thesis using w by simp
qed

text \<open>What both outcomes of \<open>decrypt\<close> begin with.\<close>

lemma decrypt_open:
  assumes "plain_file s d nm i" "encrypted (vol s) i" "file_content (vol s) i = sealed pw c" "length c < CRYPT_BUF_MAX" "terminated q" "cstr q \<noteq> []"
  shows "\<exists>entry. shell_lookup e s nm = Some (0, Some entry) \<and> file_node (vol s) (se_pdata entry) i \<and>
    unat (d_inode (n_entry (se_pdata entry))) = i \<and> crypt_is_marked (vol s) entry = Some True \<and> \<not> unat (se_size entry) > CRYPT_BUF_MAX \<and>
    read_whole_file (vol s) entry (g_cryptbuf s) (int CRYPT_BUF_MAX) = Some (int (Suc (length c)), sealed pw c @ drop (Suc (length c)) (g_cryptbuf s)) \<and>
    cryptXor (sealed pw c @ drop (Suc (length c)) (g_cryptbuf s)) (int (Suc (length c))) q =
      Some (apply_key q (Suc (length c)) (sealed pw c) @ drop (Suc (length c)) (g_cryptbuf s))"
proof -
  let ?fs = "vol s"
  have b: "CRYPT_BUF_MAX = 12288" by (simp add: CRYPT_BUF_MAX_def layout_values)
  have lc: "length c < 12288" "length (sealed pw c) = Suc (length c)" using assms(4) b by (simp_all add: sealed_def)
  have p: "fs_inv ?fs" "live ?fs i" "unat (i_size (inode_at ?fs i)) = Suc (length c)" "length (g_cryptbuf s) = 12288"
    using assms(1,3) lc(2) b by (auto simp: plain_file_def)
  obtain entry where en: "shell_lookup e s nm = Some (0, Some entry)" "file_node ?fs (se_pdata entry) i"
    "unat (d_inode (n_entry (se_pdata entry))) = i" "se_size entry = i_size (inode_at ?fs i)"
    using lookup_plain_file [OF assms(1)] by blast
  have "crypt_is_marked ?fs entry = Some True"
    using crypt_mark_inode_spec(2) [OF p(1,2), of entry] en(3) assms(2) by (simp add: encrypted_def)
  moreover have "\<not> unat (se_size entry) > CRYPT_BUF_MAX" using en(4) p(3) lc(1) b by simp
  moreover have "read_whole_file ?fs entry (g_cryptbuf s) (int CRYPT_BUF_MAX) = Some (int (Suc (length c)), sealed pw c @ drop (Suc (length c)) (g_cryptbuf s))"
    using read_whole_file_spec [OF p(1,2) en(3) [symmetric], of 12288 "g_cryptbuf s"] assms(3) lc p(4) unfolding b by simp
  moreover have "cryptXor (sealed pw c @ drop (Suc (length c)) (g_cryptbuf s)) (int (Suc (length c))) q =
      Some (apply_key q (Suc (length c)) (sealed pw c) @ drop (Suc (length c)) (g_cryptbuf s))"
    using cryptXor_eq [OF assms(5,6), of "Suc (length c)" "sealed pw c @ drop (Suc (length c)) (g_cryptbuf s)"] lc
    by (simp add: apply_key_append)
  ultimately show ?thesis using en by blast
qed

lemma xor_differ: "a \<noteq> b \<Longrightarrow> x XOR b XOR a \<noteq> (x :: 'a::len word)"
proof
  assume "a \<noteq> b" "x XOR b XOR a = x"
  then have "(x XOR x) XOR b XOR a = 0" by (metis xor.assoc xor_self_eq)
  then have "b XOR (a XOR b) = 0 XOR b" by (metis xor.commute xor.assoc xor_self_eq xor.left_neutral)
  then have "a = b" by (metis xor.assoc xor.commute xor_self_eq xor.right_neutral)
  with \<open>a \<noteq> b\<close> show False ..
qed

lemma idx_password: "terminated q \<Longrightarrow> cstr q \<noteq> [] \<Longrightarrow> idx q 0 = Some (hd q) \<and> hd q \<noteq> 0"
  by (cases q) auto

lemma decrypt_run:
  assumes "plain_file s d nm i" "encrypted (vol s) i" "file_content (vol s) i = sealed pw c" "length c < CRYPT_BUF_MAX" "terminated pw" "cstr pw \<noteq> []"
    and "max 1 ((length c + 1023) div 1024) \<le> unat (i_blocks (inode_at (vol s) i))" "65 \<le> length (stack e)"
  shows "\<exists>s'. shell_cmd_decrypt e [cmd, nm, pw] s = Some (0, s') \<and> plain_file s' d nm i \<and> \<not> encrypted (vol s') i \<and>
    file_content (vol s') i = c \<and> unchanged_but i (vol s) (vol s') \<and> g_currentDir s' = g_currentDir s"
proof -
  let ?fs = "vol s" and ?rest = "drop (Suc (length c)) (g_cryptbuf s)"
  have b: "CRYPT_BUF_MAX = 12288" by (simp add: CRYPT_BUF_MAX_def layout_values)
  have p: "fs_inv ?fs" "length (g_cryptbuf s) = 12288" "terminated nm" "length c < 12288" using assms(1,4) b by (auto simp: plain_file_def)
  obtain entry where en: "shell_lookup e s nm = Some (0, Some entry)" "file_node ?fs (se_pdata entry) i"
    "unat (d_inode (n_entry (se_pdata entry))) = i" "crypt_is_marked ?fs entry = Some True" "\<not> unat (se_size entry) > CRYPT_BUF_MAX"
    "read_whole_file ?fs entry (g_cryptbuf s) (int CRYPT_BUF_MAX) = Some (int (Suc (length c)), sealed pw c @ ?rest)"
    "cryptXor (sealed pw c @ ?rest) (int (Suc (length c))) pw = Some (CRYPT_CHECK_BYTE # c @ ?rest)"
    using decrypt_open [OF assms(1-4) assms(5,6), of e] by (auto simp: sealed_def apply_key_involution)
  obtain buf where sd: "shift_down (CRYPT_CHECK_BYTE # c @ ?rest) 0 (length c) = Some buf" "length buf = 12288"
    "\<forall>j. buf ! j = (if j < length c then (CRYPT_CHECK_BYTE # c @ ?rest) ! Suc j else (CRYPT_CHECK_BYTE # c @ ?rest) ! j)"
    using shift_down_spec [of 0 "length c" "CRYPT_CHECK_BYTE # c @ ?rest"] p(2,4) by auto
  have tk: "take (length c) buf = c" using sd(2,3) p(4) by (intro nth_equalityI) (auto simp: nth_append)
  obtain fs1 fs2 where w: "sfsWrite ?fs entry 0 (of_nat (length c)) buf = Some (0, fs1)" "crypt_mark_inode fs1 entry False = Some fs2" "fs_inv fs2"
    "unchanged_but i ?fs fs2" "file_content fs2 i = c" "unat (i_size (inode_at fs2 i)) = length c"
    "i_mode (inode_at fs2 i) = i_mode (inode_at ?fs i)" "\<not> encrypted fs2 i"
    using store_and_mark [OF p(1) en(2,3), of "length c" buf False] assms(7) p(4) sd(2) unfolding b tk by auto
  obtain con where q: "quit e ''decrypted %s (%d bytes)\<newline>'' [Str nm, Num (word_of_int (int (length c)))] 0 (s\<lparr> g_cryptbuf := buf, vol := fs2 \<rparr>) =
      Some (0, s\<lparr> g_cryptbuf := buf, vol := fs2, console_of := con \<rparr>)"
    using quit_pieces [OF assms(8), of "[Text (map of_char ''decrypted ''), Word nm, Text (map of_char '' (''), Dec (word_of_int (int (length c))), Text (map of_char '' bytes)\<newline>'')]"
      "''decrypted %s (%d bytes)\<newline>''" _ 0 "s\<lparr> g_cryptbuf := buf, vol := fs2 \<rparr>"] p(3) by (auto simp: lit_def)
  have "shell_cmd_decrypt e [cmd, nm, pw] s = Some (0, s\<lparr> g_cryptbuf := buf, vol := fs2, console_of := con \<rparr>)"
    using en(1,4-7) idx_password [OF assms(5,6)] sd(1) w(1,2) q
    by (simp add: shell_cmd_decrypt_def is_help_def shell_write_def)
  moreover have "plain_file (s\<lparr> g_cryptbuf := buf, vol := fs2, console_of := con \<rparr>) d nm i"
    by (rule plain_file_step [OF assms(1) w(3,4,7)]) (use w(5,6) sd(2) p(2) in simp_all)
  ultimately show ?thesis using w by simp
qed

lemma decrypt_wrong:
  assumes "plain_file s d nm i" "encrypted (vol s) i" "file_content (vol s) i = sealed pw c" "length c < CRYPT_BUF_MAX" "cstr pw \<noteq> []"
    and "terminated q" "cstr q \<noteq> []" "hd q \<noteq> hd pw" "65 \<le> length (stack e)"
  shows "\<exists>s'. shell_cmd_decrypt e [cmd, nm, q] s = Some (-1, s') \<and> vol s' = vol s"
proof -
  let ?rest = "drop (Suc (length c)) (g_cryptbuf s)" and ?y = "apply_key q (Suc (length c)) (sealed pw c)"
  obtain entry where en: "shell_lookup e s nm = Some (0, Some entry)" "crypt_is_marked (vol s) entry = Some True" "\<not> unat (se_size entry) > CRYPT_BUF_MAX"
    "read_whole_file (vol s) entry (g_cryptbuf s) (int CRYPT_BUF_MAX) = Some (int (Suc (length c)), sealed pw c @ ?rest)"
    "cryptXor (sealed pw c @ ?rest) (int (Suc (length c))) q = Some (?y @ ?rest)"
    using decrypt_open [OF assms(1-4) assms(6,7), of e] by blast
  have y: "length ?y = Suc (length c)" "?y ! 0 = CRYPT_CHECK_BYTE XOR hd pw XOR hd q"
    using assms(5,7) by (simp_all add: sealed_def nth_apply_key key_byte_0 xor.assoc)
  have "(?y @ ?rest) ! 0 \<noteq> CRYPT_CHECK_BYTE" using y assms(8) xor_differ [of "hd q" "hd pw"] by (simp add: nth_append)
  moreover have "terminated nm" using assms(1) by (simp add: plain_file_def)
  then obtain con where "quit e ''wrong password for %s\<newline>'' [Str nm] (-1) (s\<lparr> g_cryptbuf := ?y @ ?rest \<rparr>) =
      Some (-1, s\<lparr> g_cryptbuf := ?y @ ?rest, console_of := con \<rparr>)"
    using quit_pieces [OF assms(9), of "[Text (map of_char ''wrong password for ''), Word nm, Text [10]]" "''wrong password for %s\<newline>''" _ "-1"
      "s\<lparr> g_cryptbuf := ?y @ ?rest \<rparr>"] by (auto simp: lit_def)
  ultimately have "shell_cmd_decrypt e [cmd, nm, q] s = Some (-1, s\<lparr> g_cryptbuf := ?y @ ?rest, console_of := con \<rparr>)"
    using en idx_password [OF assms(6,7)] y(1) by (simp add: shell_cmd_decrypt_def is_help_def)
  then show ?thesis by simp
qed

section \<open>Encrypting and decrypting a file\<close>

text \<open>C4: Encryption through the shell. For a plain file of the current directory of a consistent volume that is not
  encrypted, fits the buffer with one more byte and finds the block that byte may need, the command \<open>encrypt\<close> with
  a password succeeds: it leaves the check byte and the bytes of the file under the key stream of the password in
  the file and marks it. The command \<open>decrypt\<close> with the same password then succeeds, restores the bytes and clears the mark, and nothing else
  has changed: the directory is the same map, all other files have their contents, the volume is consistent. With a password
  that begins with another character it fails instead and does not touch the volume.\<close>

theorem encrypt_decrypt:
  assumes "plain_file s d nm i" "\<not> encrypted (vol s) i" "length (file_content (vol s) i) < CRYPT_BUF_MAX"
    and "(length (file_content (vol s) i) + 1024) div 1024 \<le> unat (i_blocks (inode_at (vol s) i)) + free_blocks (vol s)"
    and "terminated pw" "cstr pw \<noteq> []" "65 \<le> length (stack e)"
  shows "\<exists>s1 s2. shell_cmd_encrypt e [cmd, nm, pw] s = Some (0, s1) \<and> fs_inv (vol s1) \<and> encrypted (vol s1) i \<and>
    file_content (vol s1) i = sealed pw (file_content (vol s) i) \<and>
    (\<forall>q. terminated q \<and> cstr q \<noteq> [] \<and> hd q \<noteq> hd pw \<longrightarrow> (\<exists>s3. shell_cmd_decrypt e [cmd2, nm, q] s1 = Some (-1, s3) \<and> vol s3 = vol s1)) \<and>
    shell_cmd_decrypt e [cmd2, nm, pw] s1 = Some (0, s2) \<and> fs_inv (vol s2) \<and> \<not> encrypted (vol s2) i \<and>
    file_content (vol s2) i = file_content (vol s) i \<and> dir_map (vol s2) d = dir_map (vol s) d \<and>
    (\<forall>m. live (vol s) m \<and> m \<noteq> i \<longrightarrow> live (vol s2) m \<and> file_content (vol s2) m = file_content (vol s) m)"
proof -
  let ?c = "file_content (vol s) i"
  obtain s1 where 1: "shell_cmd_encrypt e [cmd, nm, pw] s = Some (0, s1)" "plain_file s1 d nm i" "encrypted (vol s1) i"
    "file_content (vol s1) i = sealed pw ?c" "unchanged_but i (vol s) (vol s1)" "unat (i_blocks (inode_at (vol s1) i)) = (length ?c + 1024) div 1024"
    using encrypt_run [OF assms, of cmd] by blast
  have "max 1 ((length ?c + 1023) div 1024) \<le> unat (i_blocks (inode_at (vol s1) i))" using 1(6) div_le_mono [of "length ?c + 1023" "length ?c + 1024" 1024] by simp
  then obtain s2 where 2: "shell_cmd_decrypt e [cmd2, nm, pw] s1 = Some (0, s2)" "plain_file s2 d nm i" "\<not> encrypted (vol s2) i"
    "file_content (vol s2) i = ?c" "unchanged_but i (vol s1) (vol s2)"
    using decrypt_run [OF 1(2-4) assms(3,5,6) _ assms(7), of cmd2] by blast
  have u: "unchanged_but i (vol s) (vol s2)" by (rule unchanged_but_compose [OF 1(5) 2(5)])
  have p: "fs_inv (vol s)" "dir_ok (vol s) d" "i \<noteq> d" "fs_inv (vol s1)" "fs_inv (vol s2)" using assms(1) 1(2) 2(2) by (auto simp: plain_file_def)
  have "dir_map (vol s2) d = dir_map (vol s) d" by (rule unchanged_dir(2) [OF p(1,2) u p(3)])
  moreover have "live (vol s2) m \<and> file_content (vol s2) m = file_content (vol s) m" if "live (vol s) m \<and> m \<noteq> i" for m
    using that u unchanged_content [OF u, of m] by (simp add: unchanged_but_def)
  moreover have "\<exists>s3. shell_cmd_decrypt e [cmd2, nm, q] s1 = Some (-1, s3) \<and> vol s3 = vol s1" if "terminated q \<and> cstr q \<noteq> [] \<and> hd q \<noteq> hd pw" for q
    using decrypt_wrong [OF 1(2-4) assms(3,6) _ _ _ assms(7)] that by blast
  ultimately show ?thesis using 1(1,3,4) 2(1,3,4) p(4,5) by blast
qed

definition demo_entry :: "FsNode \<Rightarrow> ShellEntry" where
  "demo_entry node = \<lparr> se_name = replicate 256 0, se_isDirectory = True, se_size = 0, se_pdata = node \<rparr>"

definition demo_env :: env where
  "demo_env = \<lparr> stack = replicate 65 0, ino_garbage = decInode (replicate 128 0), loc_garbage = n_location demo_node,
     entry_garbage = n_entry demo_node, behind_super = [], behind_table = [], heap_works = True, item_addrs = [] \<rparr>"

definition demo_shell :: "Filesystem \<Rightarrow> shell" where
  "demo_shell fs = \<lparr> vol = fs, g_isMounted = True, g_rootDir = demo_entry demo_node, g_currentDir = demo_entry demo_node,
     path = replicate 256 (demo_entry demo_node), pathTop = 0, g_redir_file = None, g_cryptbuf = replicate CRYPT_BUF_MAX 0,
     items_mem = Map.empty, console_of = demo_console, uart = \<lparr> replies = [], port_log = [] \<rparr> \<rparr>"

text \<open>The file of \<open>demo_created\<close> with three bytes in it.\<close>

lemma demo_file:
  obtains fs i where "plain_file (demo_shell fs) 2 demo_name i" "\<not> encrypted fs i" "file_content fs i = [104, 105, 33]"
    "unat (i_blocks (inode_at fs i)) = 1"
proof -
  obtain i node fs1 where c: "fs_inv fs1" "dir_ok fs1 2" "dir_map fs1 2 (key (cstr demo_name)) = Some (of_nat i)" "live fs1 i" "i \<le> 11" "i \<noteq> 2"
    "i_mode (inode_at fs1 i) = file_mode" "length (owned fs1 i) = 1" "live fs1 2"
    by (rule demo_created)
  have u: "unat (of_nat i :: u32) = i" using c(5) by (simp add: unat_le_of_nat)
  obtain node2 where l: "d_inode (n_entry node2) = of_nat i" "file_node fs1 node2 i"
    using fsLookup_spec [OF c(1,9) demo_parent [symmetric] demo_name_facts(1,3,4), of zero_node] c(3,4) u by auto
  have b: "unat (i_blocks (inode_at fs1 i)) = 1" using owned_nth(1) [OF c(1,4)] c(8) by simp
  obtain fs where w: "fs_inv fs" "unchanged_but i fs1 fs" "file_content fs i = [104, 105, 33]" "unat (i_size (inode_at fs i)) = 3"
    "i_mode (inode_at fs i) = file_mode" "unat (i_blocks (inode_at fs i)) = 1" "\<not> encrypted fs i"
    using store_and_mark [OF c(1), of "demo_entry node2" i 3 "[104, 105, 33]" False] l u b c(7)
    by (auto simp: demo_entry_def CRYPT_BUF_MAX_def layout_values)
  note d = unchanged_dir [OF c(1,2) w(2) c(6)]
  have "live fs i" using c(4) w(2) by (simp add: unchanged_but_def)
  then have "plain_file (demo_shell fs) 2 demo_name i"
    using w c(3,6) d(1,2) demo_name_facts(1,3,4) demo_parent by (simp add: plain_file_def demo_shell_def demo_entry_def USER_PERMISSION_def)
  then show ?thesis using that w(3,6,7) by blast
qed

theorem encrypt_decrypt_witness:
  "\<exists>fs i s1 s2. file_content fs i = [104, 105, 33] \<and>
     shell_cmd_encrypt demo_env [lit ''encrypt'', demo_name, lit ''pw''] (demo_shell fs) = Some (0, s1) \<and>
     file_content (vol s1) i = sealed (lit ''pw'') [104, 105, 33] \<and>
     shell_cmd_decrypt demo_env [lit ''decrypt'', demo_name, lit ''pw''] s1 = Some (0, s2) \<and>
     file_content (vol s2) i = [104, 105, 33] \<and> fs_inv (vol s2)"
proof -
  obtain fs i where f: "plain_file (demo_shell fs) 2 demo_name i" "\<not> encrypted fs i" "file_content fs i = [104, 105, 33]"
    "unat (i_blocks (inode_at fs i)) = 1" by (rule demo_file)
  have v: "vol (demo_shell fs) = fs" by (simp add: demo_shell_def)
  have pw: "terminated (lit ''pw'')" "cstr (lit ''pw'') \<noteq> []" "65 \<le> length (stack demo_env)" by (simp_all add: lit_def demo_env_def)
  have room: "length (file_content fs i) < CRYPT_BUF_MAX" "(length (file_content fs i) + 1024) div 1024 \<le> unat (i_blocks (inode_at fs i)) + free_blocks fs"
    using f(3,4) by (simp_all add: CRYPT_BUF_MAX_def layout_values)
  show ?thesis
    using encrypt_decrypt [OF f(1), unfolded v, OF f(2) room pw, of "lit ''encrypt''" "lit ''decrypt''"] f(3) by auto
qed

end
