(* ===== verification/Kernel.thy ===== *)
theory Kernel
  imports Descriptors Splash Shell_Crypt Slab_Init
begin

text \<open>
  The start of the kernel (\<open>src/kernel.c\<close>): the order in which \<open>kernelMain\<close> initialises the parts, the choice of the node, and the
  shell. What the boot loader and the linker provide are the fields of \<open>machine\<close>.
\<close>

section \<open>Boot\<close>

record machine =
  gdt_at :: u64
  gdtr_at :: u64
  idt_at :: u64
  isr_stubs :: "u64 list"
  endkernel :: u64
  heap_at_start :: heap
  framebuffer :: "SplashFB option"

text \<open>The block that runs when there is a frame buffer.\<close>

definition select_node :: "env \<Rightarrow> SplashFB \<Rightarrow> shell \<Rightarrow> (SplashFB \<times> shell) option" where
  "select_node e sfb s = do {
     (node_id, sfb, con) \<leftarrow> splash_screen sfb (console_of s);
     s \<leftarrow> say e (27 # map of_char ''[2J'' @ 27 # lit ''[H'') [] (s\<lparr> console_of := con \<rparr>);
     s \<leftarrow> announce e (word_of_int node_id) s;
     s \<leftarrow> say e (lit ''Node %d selected!\<newline>'') [Num (word_of_int node_id)] s;
     Some (sfb, s) }"

text \<open>What the processor and the allocator have been given when the shell starts.\<close>

record booted =
  gdt_loaded :: "Gdt \<times> Table_Register"
  idt_loaded :: "IdtDescriptorEntry list \<times> Table_Register"
  heap_ready :: heap

text \<open>\<open>kernelMain\<close> up to \<open>initFs\<close>, and as a whole.\<close>

definition boot :: "machine \<Rightarrow> env \<Rightarrow> shell \<Rightarrow> (booted \<times> shell) option" where
  "boot m e s = do {
     (gdt, gdtr, con) \<leftarrow> initGdt (stack e) (gdt_at m) (gdtr_at m) (console_of s);
     (idt, idtr, con) \<leftarrow> initIdt (stack e) (isr_stubs m) (idt_at m) con;
     (_, h) \<leftarrow> allocator_init (endkernel m) (heap_at_start m);
     let s = s\<lparr> uart := serial_init COM1_BASE 1 (uart s), console_of := con\<lparr> kbd := clearKeyboardBuffer (kbd con) \<rparr> \<rparr>;
     s \<leftarrow> (case framebuffer m of None \<Rightarrow> Some s | Some sfb \<Rightarrow> do { (_, s) \<leftarrow> select_node e sfb s; Some s });
     Some (\<lparr> gdt_loaded = (gdt, gdtr), idt_loaded = (idt, idtr), heap_ready = h \<rparr>, s) }"

definition kernelMain :: "machine \<Rightarrow> env \<Rightarrow> bytes list \<Rightarrow> history \<Rightarrow> shell \<Rightarrow> (booted \<times> outcome) option" where
  "kernelMain m e serials h s = do {
     (b, s) \<leftarrow> boot m e s;
     (out, _, _) \<leftarrow> initFs e serials h s;
     Some (b, out) }"

section \<open>Printing from the shell\<close>

lemma say_prints:
  assumes "65 \<le> length (stack e)" "prints fmt args"
  shows "\<exists>bs. say e fmt args s = Some (s\<lparr> console_of := puts bs (console_of s) \<rparr>)"
  using printk_prints [OF assms, of "[]" "console_of s"] by (auto simp: say_def)

section \<open>Selecting the node\<close>

lemma msgs_puts [simp]: "msgs (puts cs con) = msgs con"
  by (induction cs arbitrary: con) (simp_all add: putChar_def)

lemma announce_spec:
  assumes "65 \<le> length (stack e)" "unat node < MSG_MAX_NODES" "8 \<le> length (filter tx_free (replies (uart s)))"
  shows "\<exists>s'. announce e node s = Some s' \<and> g_node_id (msgs (console_of s')) = node \<and> keys (console_of s') = keys (console_of s) \<and>
    port_log (uart s') = port_log (uart s) @ map (Pair COM1_BASE) (good_frame node node [0]) \<and> vol s' = vol s"
proof -
  let ?m = "(msgs (console_of s))\<lparr> g_node_id := node \<rparr>" and ?f = "good_frame node node [0]"
  obtain rs where rs: "after_free 8 (replies (uart s)) = Some rs" using after_free_defined [of 8] assms(3) by blast
  have w: "serial_write_raw COM1_BASE ?f 8 (uart s) = Some ((uart s)\<lparr> replies := rs, port_log := port_log (uart s) @ map (Pair COM1_BASE) ?f \<rparr>)"
    using serial_write_raw_spec [of COM1_BASE ?f "uart s"] rs by simp
  obtain bs where "say e (lit ''node id set to %d\<newline>'') [Num (ucast node)] (s\<lparr> console_of := (console_of s)\<lparr> msgs := ?m \<rparr> \<rparr>) =
      Some (s\<lparr> console_of := puts bs ((console_of s)\<lparr> msgs := ?m \<rparr>) \<rparr>)"
    using say_prints [OF assms(1), of "lit ''node id set to %d\<newline>''" "[Num (ucast node)]" "s\<lparr> console_of := (console_of s)\<lparr> msgs := ?m \<rparr> \<rparr>"] by (auto simp: lit_def)
  then show ?thesis using assms(2) w by (simp add: announce_def msg_set_id_cases transmit_def)
qed

lemma select_node_spec:
  assumes "65 \<le> length (stack e)" "fb_ok sfb" "con_ok (console_of s)" "chosen 0 (keys (console_of s)) = Some (n, ks)"
    and "8 \<le> length (filter tx_free (replies (uart s)))"
  shows "\<exists>sfb' s'. select_node e sfb s = Some (sfb', s') \<and> 0 \<le> n \<and> n \<le> 7 \<and> g_node_id (msgs (console_of s')) = word_of_int n \<and>
    keys (console_of s') = ks \<and> port_log (uart s') = port_log (uart s) @ map (Pair COM1_BASE) (good_frame (word_of_int n) (word_of_int n) [0]) \<and> vol s' = vol s"
proof -
  obtain sfb' con where sp: "splash_screen sfb (console_of s) = Some (n, sfb', con)" "keys con = ks" "0 \<le> n" "n \<le> 7"
    using splash_screen_spec [OF assms(2,3)] assms(4) by auto
  obtain as where c: "say e (27 # map of_char ''[2J'' @ 27 # lit ''[H'') [] (s\<lparr> console_of := con \<rparr>) = Some (s\<lparr> console_of := puts as con \<rparr>)"
    using say_prints [OF assms(1), of "27 # map of_char ''[2J'' @ 27 # lit ''[H''" "[]" "s\<lparr> console_of := con \<rparr>"] by (auto simp: lit_def)
  have "unat (word_of_int n :: u8) = nat n" using sp(3,4) by (simp add: unsigned_of_int take_bit_int_eq_self)
  then have u: "unat (word_of_int n :: u8) < MSG_MAX_NODES" using sp(3,4) by (simp add: msg_layout)
  obtain s1 where a: "announce e (word_of_int n) (s\<lparr> console_of := puts as con \<rparr>) = Some s1" "g_node_id (msgs (console_of s1)) = word_of_int n"
    "keys (console_of s1) = keys con" "port_log (uart s1) = port_log (uart s) @ map (Pair COM1_BASE) (good_frame (word_of_int n) (word_of_int n) [0])" "vol s1 = vol s"
    using announce_spec [OF assms(1) u, of "s\<lparr> console_of := puts as con \<rparr>"] assms(5) by auto
  obtain bs where l: "say e (lit ''Node %d selected!\<newline>'') [Num (word_of_int n)] s1 = Some (s1\<lparr> console_of := puts bs (console_of s1) \<rparr>)"
    using say_prints [OF assms(1), of "lit ''Node %d selected!\<newline>''" "[Num (word_of_int n)]" s1] by (auto simp: lit_def)
  show ?thesis using sp a c l unfolding select_node_def by simp
qed

section \<open>The whole boot\<close>

definition uart_setup :: "(u16 \<times> u8) list" where
  "uart_setup = [(0x3F9, 0), (0x3FB, 0x80), (0x3F8, 1), (0x3F9, 0), (0x3FB, 3), (0x3FA, 0xC7), (0x3FC, 0x0B)]"

lemma serial_init_COM1: "serial_init COM1_BASE 1 p = p\<lparr> port_log := port_log p @ uart_setup \<rparr>"
  by (simp add: serial_init_def uart_write_def outb_def uart_setup_def COM1_BASE_def UART_IER_def UART_LCR_def UART_DLL_def UART_DLM_def UART_FCR_def UART_MCR_def)

lemma boot_spec:
  assumes "65 \<le> length (stack e)" "length (isr_stubs m) = ISR_COUNT" "endkernel_ok (endkernel m)"
    and "cache_cache (heap_at_start m) = 0" "length (size_caches (heap_at_start m)) = 8" "framebuffer m = Some sfb" "fb_ok sfb"
    and "con_ok (console_of s)" "chosen 0 (pressed (g_shift (console_of s)) (codes (clearKeyboardBuffer (kbd (console_of s))))) = Some (n, ks)"
    and "8 \<le> length (filter tx_free (replies (uart s)))"
  shows "\<exists>gdtr idt idtr h s'. boot m e s = Some (\<lparr> gdt_loaded = (gdt_table, gdtr), idt_loaded = (idt, idtr), heap_ready = h \<rparr>, s') \<and>
    tr_base_address gdtr = gdt_at m \<and> unat (tr_limit gdtr) = 23 \<and> length idt = IDT_MAX_ENTRIES \<and>
    (\<forall>i < ISR_COUNT. gate_offset (idt_bits (idt ! i)) = unat (isr_stubs m ! i) \<and> gate_fields (idt_bits (idt ! i)) = (8, 0, 14, 0, 1)) \<and>
    heap_ok Map.empty h \<and> 0 \<le> n \<and> n \<le> 7 \<and> g_node_id (msgs (console_of s')) = word_of_int n \<and> keys (console_of s') = ks \<and>
    port_log (uart s') = port_log (uart s) @ uart_setup @ map (Pair COM1_BASE) (good_frame (word_of_int n) (word_of_int n) [0]) \<and> vol s' = vol s"
proof -
  obtain gdtr as where g: "initGdt (stack e) (gdt_at m) (gdtr_at m) (console_of s) = Some (gdt_table, gdtr, puts as (console_of s))"
    "tr_base_address gdtr = gdt_at m" "unat (tr_limit gdtr) = 23" using initGdt_returns [OF assms(1)] by blast
  obtain idt idtr con where i: "initIdt (stack e) (isr_stubs m) (idt_at m) (puts as (console_of s)) = Some (idt, idtr, con)" "length idt = IDT_MAX_ENTRIES"
    "\<forall>i < IDT_MAX_ENTRIES. idt_bits (idt ! i) < 2 ^ 128 \<and> (if i < ISR_COUNT then gate_offset (idt_bits (idt ! i)) = unat (isr_stubs m ! i) \<and> gate_fields (idt_bits (idt ! i)) = (8, 0, 14, 0, 1)
       else gate_fields (idt_bits (idt ! i)) = (0, 0, 0, 0, 0))"
    using initIdt_spec [OF assms(2), of "stack e" "idt_at m" "puts as (console_of s)"] by blast
  obtain bs where con: "con = puts bs (puts as (console_of s))" using initIdt_console [OF assms(1) i(1)] by blast
  obtain h where h: "allocator_init (endkernel m) (heap_at_start m) = Some (0, h)" "heap_ok Map.empty h" using allocator_init_spec [OF assms(3-5)] by blast
  let ?s = "s\<lparr> uart := serial_init COM1_BASE 1 (uart s), console_of := con\<lparr> kbd := clearKeyboardBuffer (kbd con) \<rparr> \<rparr>"
  have c: "con_ok (console_of ?s)" "chosen 0 (keys (console_of ?s)) = Some (n, ks)" "8 \<le> length (filter tx_free (replies (uart ?s)))"
    using assms(8-10) con by (simp_all add: con_ok_def serial_init_COM1)
  obtain sfb' s' where n: "select_node e sfb ?s = Some (sfb', s')" "0 \<le> n" "n \<le> 7" "g_node_id (msgs (console_of s')) = word_of_int n" "keys (console_of s') = ks"
    "port_log (uart s') = port_log (uart ?s) @ map (Pair COM1_BASE) (good_frame (word_of_int n) (word_of_int n) [0])" "vol s' = vol ?s"
    using select_node_spec [OF assms(1,7) c] by blast
  have "\<forall>i < ISR_COUNT. gate_offset (idt_bits (idt ! i)) = unat (isr_stubs m ! i) \<and> gate_fields (idt_bits (idt ! i)) = (8, 0, 14, 0, 1)"
  proof (intro allI impI)
    fix j assume "j < ISR_COUNT"
    moreover have "j < IDT_MAX_ENTRIES" using \<open>j < ISR_COUNT\<close> by (simp add: IDT_MAX_ENTRIES_def ISR_COUNT_def)
    ultimately show "gate_offset (idt_bits (idt ! j)) = unat (isr_stubs m ! j) \<and> gate_fields (idt_bits (idt ! j)) = (8, 0, 14, 0, 1)" using i(3) by presburger
  qed
  then show ?thesis using g i(1,2) h n assms(6) unfolding boot_def by (simp add: serial_init_COM1)
qed

text \<open>C15: The kernel boots. With 32 exception stubs, free memory behind the kernel, a frame buffer that holds the boot screen, Enter among
  the keys that are pressed behind the ones dropped at the start, and a serial line that becomes free eight times,
  everything in front of the shell runs without undefined behaviour and returns: the segment table with its register and an
  interrupt table whose gates lead to the stubs are loaded, the heap is in order and empty, the UART has received its
  seven settings and then exactly the frame by which the selected node registers itself, the node id is the
  selected number from 0 to 7, and the remaining keys are left to the shell.\<close>

theorem kernel_boots:
  assumes "65 \<le> length (stack e)" "length (isr_stubs m) = ISR_COUNT" "endkernel_ok (endkernel m)"
    and "cache_cache (heap_at_start m) = 0" "length (size_caches (heap_at_start m)) = 8" "framebuffer m = Some sfb" "fb_ok sfb"
    and "con_ok (console_of s)" "chosen 0 (pressed (g_shift (console_of s)) (codes (clearKeyboardBuffer (kbd (console_of s))))) = Some (n, ks)"
    and "8 \<le> length (filter tx_free (replies (uart s)))"
  shows "\<exists>gdtr idt idtr h s'. boot m e s = Some (\<lparr> gdt_loaded = (gdt_table, gdtr), idt_loaded = (idt, idtr), heap_ready = h \<rparr>, s') \<and>
    tr_base_address gdtr = gdt_at m \<and> unat (tr_limit gdtr) = 23 \<and> length idt = IDT_MAX_ENTRIES \<and>
    (\<forall>i < ISR_COUNT. gate_offset (idt_bits (idt ! i)) = unat (isr_stubs m ! i) \<and> gate_fields (idt_bits (idt ! i)) = (8, 0, 14, 0, 1)) \<and>
    heap_ok Map.empty h \<and> 0 \<le> n \<and> n \<le> 7 \<and> g_node_id (msgs (console_of s')) = word_of_int n \<and> keys (console_of s') = ks \<and>
    port_log (uart s') = port_log (uart s) @ uart_setup @ map (Pair COM1_BASE) (good_frame (word_of_int n) (word_of_int n) [0]) \<and> vol s' = vol s"
  by (rule boot_spec [OF assms])

definition demo_machine :: machine where
  "demo_machine = \<lparr> gdt_at = 0xFFFFFFFF80200000, gdtr_at = 0xFFFFFFFF80200100, idt_at = 0xFFFFFFFF80201000, isr_stubs = replicate 32 0xFFFFFFFF80001234,
     endkernel = 0xFFFFFFFF80300000, heap_at_start = \<lparr> pages = boot_state, nxt = Map.empty, prv = Map.empty, caches = Map.empty, slabs = Map.empty, hdrs = Map.empty,
       cache_cache = 0, size_caches = replicate 8 0, reports = [] \<rparr>, framebuffer = Some demo_fb \<rparr>"

theorem kernel_boots_witness:
  "\<exists>b s'. boot demo_machine demo_env (demo_shell demo_fs\<lparr> console_of := demo_arrows\<lparr> kbd := Ready 0x1C # Not_Ready [] # kbd demo_arrows \<rparr>,
       uart := \<lparr> replies = replicate 8 0x20, port_log = [] \<rparr> \<rparr>) = Some (b, s') \<and>
     g_node_id (msgs (console_of s')) = 1 \<and> port_log (uart s') = uart_setup @ map (Pair COM1_BASE) (good_frame 1 1 [0])"
proof -
  let ?s = "demo_shell demo_fs\<lparr> console_of := demo_arrows\<lparr> kbd := Ready 0x1C # Not_Ready [] # kbd demo_arrows \<rparr>, uart := \<lparr> replies = replicate 8 0x20, port_log = [] \<rparr> \<rparr>"
  have m: "65 \<le> length (stack demo_env)" "length (isr_stubs demo_machine) = ISR_COUNT" "endkernel_ok (endkernel demo_machine)"
    "cache_cache (heap_at_start demo_machine) = 0" "length (size_caches (heap_at_start demo_machine)) = 8" "framebuffer demo_machine = Some demo_fb"
    by (simp_all add: demo_env_def demo_machine_def ISR_COUNT_def endkernel_ok_def layout_simps)
  have f: "fb_ok demo_fb" by (simp add: fb_ok_def demo_fb_def)
  have c: "con_ok (console_of ?s)" using demo_console_facts(1) by (simp add: demo_arrows_def con_ok_def)
  have "pressed (g_shift (console_of ?s)) (codes (clearKeyboardBuffer (kbd (console_of ?s)))) = [KEY_RIGHT, KEY_RIGHT, KEY_LEFT, 10]"
    by (simp add: demo_arrows_def demo_console_def extended_key_def codeToChar_def scan_code_map_def key_codes)
  then have k: "chosen 0 (pressed (g_shift (console_of ?s)) (codes (clearKeyboardBuffer (kbd (console_of ?s))))) = Some (1, [])" by (simp add: key_codes)
  have r: "8 \<le> length (filter tx_free (replies (uart ?s)))" by (simp add: tx_free_def LSR_THR_EMPTY_def)
  show ?thesis using kernel_boots [OF m f c k r] by auto
qed

end
