(* ===== verification/Spec2Isabelle.thy ===== *)
theory Spec2Isabelle
  imports Page_Alloc Hub Heap Kernel
begin

text \<open>
  A verification development for IOS, a small x86-64 kernel with a memory allocator, a file system on a simulated disk,
  a shell, and a message link between machines over the serial port, with the hub that joins the links on the host.

  \<^bold>\<open>The program and its model.\<close> Paths are relative to \<open>src/\<close>.

  \<^item> \<open>src/framework\<close>. \<open>Mem\<close> has the byte loops of \<open>mem.c\<close>, \<open>Cstring\<close> the string routines of \<open>string.c\<close>, \<open>Printk\<close> the
    formatted printing of \<open>printk.c\<close>. A pointer is the list of the bytes from it to the end of its object.
  \<^item> \<open>src/mm\<close>. \<open>Page_Alloc\<close> has the bitmap of pages with the length of each run (\<open>page_alloc.c\<close>). \<open>Slab\<close> has \<open>allocator.c\<close>:
    caches, slabs and their circular lists in memory, \<open>kmalloc\<close> and \<open>kfree\<close>. \<open>Slab_Ring\<close> describes the lists, \<open>Slab_Inv\<close> states
    the invariant, \<open>Slab_Ops\<close>, \<open>Slab_Alloc\<close> and \<open>Slab_Init\<close> prove it for the operations on a cache, for \<open>kmalloc\<close> and \<open>kfree\<close> and
    for \<open>allocator_init\<close>. \<open>Heap\<close> has the contract the kernel relies on.
  \<^item> \<open>src/fs/fs.c\<close>, \<open>fs.h\<close>, \<open>disksim.c\<close>. From below: \<open>Disksim\<close> (sectors and blocks), \<open>Fs_Layout\<close> (constants and packed
    structures), \<open>Fs_Meta\<close> (bitmaps, counters, inode table), \<open>Fs_File\<close> (\<open>fsWrite\<close>, \<open>fsRead\<close>), \<open>Fs_Dir\<close> (names, lookup,
    insertion, listing), \<open>Fs_Ops\<close> (\<open>fsCreate\<close>, \<open>fsMkdir\<close>, \<open>fsRemove\<close>, \<open>fsRmdir\<close>), \<open>Fs_Format\<close> (format and mount).
    \<open>Fs_Inv\<close> and \<open>Fs_Trans\<close> hold the invariant that ties inodes, blocks, bitmaps and counters together and the transitions
    that keep it; \<open>Fs_Names\<close>, \<open>Fs_Slots\<close>, \<open>Fs_Insert\<close>, \<open>Fs_Create\<close> and \<open>Fs_Remove\<close> read a directory as a map from names to
    inode numbers; \<open>Fs_Lifecycle\<close> puts the operations together.
  \<^item> \<open>src/fs/shell.c\<close>, \<open>fs_shell.c\<close>, \<open>entrylist.c\<close>, \<open>crypto.c\<close>. \<open>Shell_Line\<close> has the line editor with its history, \<open>Fs_Shell\<close> the entry
    lists and the adapter to the file system, \<open>Crypto\<close> the password stream, \<open>Shell_Cmd\<close> the commands, the command line
    and the loop of the shell, \<open>Shell_Crypt\<close> the proof that \<open>decrypt\<close> undoes \<open>encrypt\<close>.
  \<^item> \<open>src/keyboard.c\<close>, \<open>src/connection.c\<close>, \<open>src/msg.c\<close>, \<open>scripts/ioslink-hub.c\<close>. \<open>Keyboard\<close> has the scan codes, the blocking
    readers and the scanner, \<open>Connection\<close> the UART driver and link mode, \<open>Msg\<close> the framing and the receiver, \<open>Hub\<close> the
    connection table, the routing and a turn of the main loop of the hub.
  \<^item> \<open>src/gdt.c\<close>, \<open>src/idt.c\<close>, \<open>src/isr.c\<close>. \<open>Descriptors\<close> has the segment and gate descriptors and the exception handler.
  \<^item> \<open>src/splash.c\<close>, \<open>src/kernel.c\<close>. \<open>Splash\<close> has the boot screen on the frame buffer, \<open>Kernel\<close> the order of the initialisation.

  \<open>Prelude\<close> holds the types of machine integers, the treatment of buffers and the lemma collections.

  \<^bold>\<open>Conventions.\<close> \<^term>\<open>None\<close> is undefined behaviour, an access outside an object for instance, or waiting for ever; a theorem
  that a function is \<open>Some\<close> therefore also says that it is safe and returns. The error codes of the program are values.
  Machine integers are words of their width; an \<open>int\<close> of C is an integer with its range written out where it can overflow.
  Uninitialised memory and what lies behind an object are arguments. Hardware is the list of the answers it will give (key
  codes and status, bytes of the serial port, results of the system calls of the hub), so that theorems about all lists are
  theorems about all behaviours of the hardware. Loops over data end by structure or by a measure; loops over lists in memory
  and polling loops are \<^emph>\<open>partial functions\<close> into \<open>option\<close>, and what is proved about them includes that they return. No fuel is
  used. The list walk of \<open>kfree\<close> ends because the rings of a cache are finite (\<open>Heap.kfree_returns\<close>), the prompt because
  enough keys are pressed (\<open>Shell_Line.shell_readline_correct\<close>, \<open>Keyboard.fgetsk_correct\<close> say exactly when).

  \<^bold>\<open>Interfaces.\<close> \<open>bit_array\<close> and \<open>packed_bits\<close> (\<open>Bit_Array\<close>) are interpreted by the page bitmap and the bitmaps of the disk, which
  count bits from opposite ends; \<open>struct_codec\<close> (\<open>Codec\<close>) by the packed structures of the disk and the message header;
  \<open>block_device\<close> (\<open>Disksim\<close>) by the disk and by the mounted volume; \<open>stream_reader\<close> (\<open>Msg\<close>) by the receiver of a node
  and by a connection of the hub; \<open>block_allocator\<close> (\<open>Heap\<close>) by the page level and by the heap.

  \<^bold>\<open>What is proved.\<close> Memory: in every reachable state the page bitmap is the union of disjoint recorded runs; \<open>kalloc\<close> refines
  first fit; from boot on every sequence of \<open>kmalloc\<close> and \<open>kfree\<close> runs safely and keeps the blocks in use aligned and disjoint.
  What is in use is read off the slab lists, the free objects and the pages (\<open>Heap.in_use\<close>): a successful \<open>kmalloc\<close> adds exactly
  its block, one that fails has neither the pages it asks for nor a free object of the size (\<open>Slab_Alloc.no_room\<close>), and \<open>kfree\<close>
  returns and takes exactly its block away. Files: format and mount give a consistent volume; \<open>fsWrite\<close>,
  \<open>fsRead\<close>, \<open>fsCreate\<close>, \<open>fsRemove\<close> and \<open>fsLookup\<close> refine the view of a volume as files of bytes and directories as maps, keep the
  invariant, leave other files alone, and fail in the stated cases only; a file can be created, written, found, read and removed.
  The commands \<open>encrypt\<close> and \<open>decrypt\<close> of the shell, run one after the other on a file of a volume, restore it.
  Input and output: the line editor refines an abstract editor key by key and as a whole, typed lines arrive, \<open>printk\<close> equals a
  reference semantics of its formats. While the kernel waits for a key it polls the serial port, and a message that is complete is
  printed at once: \<open>Keyboard.wrote\<close> says that the screen has the output of an operation with such messages in between, and
  \<open>Printk.printk_message\<close> that the format of \<open>msg_poll\<close> prints the text assumed there. Messages: frames that a node sends pass the hub, however the streams are cut, and
  the addressed node prints exactly the messages for it (\<open>messages_arrive\<close> below); the receivers of node and hub stay inside their buffers
  for every input; corruption is detected. Descriptors: the tables that \<open>initGdt\<close> and
  \<open>initIdt\<close> return are flat code and data segments and interrupt gates to the handlers, as the processor reads them. The boot screen stays inside the
  frame buffer and selects a node the link accepts; the whole boot returns with tables, heap and node in place (\<open>Kernel.kernel_boots\<close>).

  \<^bold>\<open>Where the code falls short\<close>, theorems state what it does: the page counts of \<open>kalloc\<close> and \<open>krealloc\<close> are truncated, formatting
  copies bytes from behind its structures, names of full length are not found again and keep their last letter as typed, every name with a leading dot is taken for
  one of the two dot entries, the first segment descriptor is not null, a stray start byte loses a frame, the
  check byte of an encrypted file only tests the first character of the password, exceptions do not halt.

  \<^bold>\<open>Not modelled.\<close> Assembly (entry stubs, \<open>gdt.s\<close>, \<open>isr.s\<close>, the loading of table registers) and the structures of the boot protocol; the terminal
  library behind \<open>putChar\<close>, which is third-party code (the screen is the sequence of the characters written); of the hub the
  parsing of arguments and the set-up of the listening socket; \<open>dumpMemory\<close> and \<open>printkromP2P\<close>, which print memory for debugging;
  \<open>shell_cmd_df\<close> and \<open>get_percentage\<close>, which are never called and use floating point numbers. The keyboard reads the serial
  port between keys: the model takes the bytes of these moments from the keyboard's list of answers, those of link
  mode and of sending from the list of \<open>Connection\<close>.
\<close>

section \<open>Messages between machines\<close>

lemma parse_line:
  assumes "on_line ms = Some line" "\<forall>(noise, m) \<in> set ms. MAGIC1 \<notin> set noise"
  shows "hub_parse line = (map (\<lambda>(noise, sn, tg, body). good_frame sn tg body) ms, [])"
  using assms
proof (induction ms arbitrary: line)
  case Nil
  then show ?case by (simp add: hub_parse.simps [of "[]"] hub_layout)
next
  case (Cons x ms)
  obtain noise sn tg body where x: "x = (noise, sn, tg, body)" by (cases x)
  obtain f r where f: "sent (sn, tg, body) = Some f" "on_line ms = Some r" "line = noise @ f @ r"
    using Cons.prems(1) x by (auto simp: Option.bind_eq_Some_conv)
  then have "body \<noteq> []" "length body \<le> MAX_PAYLOAD" "f = good_frame sn tg body"
    by (auto simp: sent_Some_iff hub_magic)
  with Cons x f show ?case by (simp add: parse_good)
qed

lemma sent_target:
  assumes "sent (sn, tg, body) = Some f"
  shows "tg \<noteq> BROADCAST"
  using assms by (auto simp: sent_Some_iff msg_layout BROADCAST_def)

text \<open>What the owner of a node gets when the frames of a line are handled.\<close>

lemma fold_routes:
  assumes "hub_inv h" "i < MAX_PEERS" "fd (peers h ! i) \<ge> 0" "owner h j me" "j \<noteq> i"
    and "Send_Failed \<notin> set (answers h)" "on_line ms = Some line"
    and "\<forall>(noise, sn, tg, body) \<in> set ms. sn \<noteq> me"
  shows "accepted (fd (peers h ! j)) (foldl (handle_frame i) h (map (\<lambda>(noise, sn, tg, body). good_frame sn tg body) ms)) =
    accepted (fd (peers h ! j)) h @
    concat (map (\<lambda>(noise, sn, tg, body). good_frame sn tg body) (filter (\<lambda>(noise, sn, tg, body). tg = me) ms))"
  using assms
proof (induction ms arbitrary: h line)
  case (Cons x ms)
  obtain noise sn tg body where x: "x = (noise, sn, tg, body)" by (cases x)
  let ?f = "good_frame sn tg body"
  obtain r where f: "sent (sn, tg, body) = Some ?f" "on_line ms = Some r"
    using Cons.prems(7) x by (auto simp: Option.bind_eq_Some_conv sent_Some_iff)
  have "?f ! 2 \<noteq> me" "?f ! 3 \<noteq> BROADCAST" using Cons.prems(8) x sent_target [OF f(1)] by auto
  note h = handle_frame_routes [OF Cons.prems(1-6) this]
  note inv = handle_frame_inv [OF Cons.prems(1-3), of ?f]
  show ?case
    using Cons.IH [of "handle_frame i h ?f" r] h inv Cons.prems x f by (auto simp: Let_def)
qed simp

lemma printed_own: "printed me ms = printed me (filter (\<lambda>(noise, sn, tg, body). tg = me) ms)"
  by (induction me ms rule: printed.induct) auto

lemma on_line_own:
  assumes "on_line ms = Some line"
  shows "on_line (map (\<lambda>(noise, m). ([], m)) (filter P ms)) =
    Some (concat (map (\<lambda>(noise, sn, tg, body). good_frame sn tg body) (filter P ms)))"
  using assms
  by (induction ms arbitrary: line) (auto simp: Option.bind_eq_Some_conv sent_Some_iff split: prod.splits)

lemma printed_quiet: "printed me (map (\<lambda>(noise, m). ([], m)) ms) = printed me ms"
  by (induction me ms rule: printed.induct) auto

text \<open>C14: Messages arrive: the nodes behind one connection of the hub send messages with
  \<open>msg_send\<close>, in frames with line noise between them, the stream reaches the hub in pieces of any size, and
  no \<open>send\<close> of the hub fails (they may be interrupted and accept any part of what they are given).
  Then the bytes the hub adds to the connection of another node make that node's receiver print
  exactly the messages addressed to it, in order, each with its sender and its text up to the first
  NUL, and leave it idle.\<close>

theorem messages_arrive:
  assumes hub: "hub_reach h" "i < MAX_PEERS" "fd (peers h ! i) \<ge> 0" "buf (peers h ! i) = []"
    and owner: "owner h j (g_node_id s)" "j \<noteq> i" and sends: "Send_Failed \<notin> set (answers h)"
    and line: "on_line ms = Some (concat ds)" "ds \<noteq> []" "\<forall>d \<in> set ds. d \<noteq> [] \<and> length d \<le> BUF_CAP - MAX_FRAME"
    and noise: "\<forall>(noise, sn, tg, body) \<in> set ms. MAGIC1 \<notin> set noise \<and> sn \<noteq> g_node_id s"
    and receiver: "rx_inv s" "rx_state s = RX_IDLE"
  shows "\<exists>h' out s'. recv_all i ds h = Some h' \<and>
    accepted (fd (peers h ! j)) h' = accepted (fd (peers h ! j)) h @ out \<and>
    msg_poll s out = Some (s', printed (g_node_id s) ms) \<and> rx_inv s' \<and> rx_state s' = RX_IDLE"
proof -
  let ?me = "g_node_id s" and ?fs = "map (\<lambda>(noise, sn, tg, body). good_frame sn tg body) ms"
  let ?own = "filter (\<lambda>(noise, sn, tg, body). tg = g_node_id s) ms"
  let ?out = "concat (map (\<lambda>(noise, sn, tg, body). good_frame sn tg body) ?own)"
  have inv: "hub_inv h" by (rule reach_inv [OF hub(1)])
  have "hub_parse (buf (peers h ! i) @ concat ds) = (?fs, [])"
    using parse_line [OF line(1)] noise hub(4) by fastforce
  then have h': "recv_all i ds h = Some (set_buf i [] (foldl (handle_frame i) h ?fs))"
    by (rule recv_all_parses [OF line(2) inv hub(2,3) line(3)])
  have out: "accepted (fd (peers h ! j)) (foldl (handle_frame i) h ?fs) = accepted (fd (peers h ! j)) h @ ?out"
    by (rule fold_routes [OF inv hub(2,3) owner sends line(1)]) (use noise in fastforce)
  obtain s' where "msg_poll s ?out = Some (s', printed ?me (map (\<lambda>(noise, m). ([], m)) ?own))" "rx_inv s'" "rx_state s' = RX_IDLE"
    using feed_line [OF receiver on_line_own [OF line(1)]] by force
  then show ?thesis using h' out printed_own [of ?me ms] by (auto simp: printed_quiet accepted_def)
qed

text \<open>Two connections, and node 2 has announced itself on the second.\<close>

definition registered :: hub where
  "registered = set_buf 1 [] (handle_frame 1 two_peers (good_frame 2 2 [0]))"

lemma registered_facts:
  "hub_reach registered" "owner registered 1 2" "fd (peers registered ! 0) = 5" "fd (peers registered ! 1) = 6"
  "buf (peers registered ! 0) = []" "answers registered = []"
proof -
  let ?reg = "good_frame 2 2 [0]"
  have inv: "hub_inv two_peers" using two_peers_facts reach_inv by blast
  have h: "handle_frame 1 two_peers ?reg = learn 1 2 two_peers"
    by (simp add: handle_frame_def dispatch_def)
  have parse: "hub_parse (buf (peers two_peers ! 1) @ ?reg) = ([?reg], [])"
    using parse_good [of "[0]" "[]" 2 2 "[]"] by (simp add: two_peers_facts hub_parse.simps [of "[]"] hub_layout del: One_nat_def)
  have "hub_readable 1 (Data ?reg) two_peers = Some registered"
    using readable_data [OF inv _ _ _ parse] by (simp add: registered_def hub_layout two_peers_facts del: One_nat_def)
  then show "hub_reach registered"
    using reach_readable [of two_peers 1 "Data ?reg"] by (simp add: two_peers_facts hub_layout del: One_nat_def)
  have one: "1 < MAX_PEERS" "0 < MAX_PEERS" by (simp_all add: hub_layout)
  note l = learn_table [OF two_peers_facts(7) one(1), of 2]
  show "owner registered 1 2" "fd (peers registered ! 0) = 5" "fd (peers registered ! 1) = 6"
    "buf (peers registered ! 0) = []" "answers registered = []"
    using l one by (simp_all add: registered_def h owner_def two_peers_facts learn_silent del: One_nat_def)
qed

theorem messages_arrive_witness:
  "\<exists>h' out s'. recv_all 0 [MAGIC0 # good_frame 1 2 [72, 105]] registered = Some h' \<and>
    accepted 6 h' = accepted 6 registered @ out \<and>
    msg_poll (msg_boot\<lparr> g_node_id := 2 \<rparr>) out = Some (s', [(1, [72, 105])]) \<and> rx_inv s' \<and> rx_state s' = RX_IDLE"
proof -
  let ?ms = "[([MAGIC0], 1, 2, [72, 105])] :: (bytes \<times> u8 \<times> u8 \<times> bytes) list"
  have "sent (1, 2, [72, 105]) = Some (good_frame 1 2 [72, 105])"
    by (simp add: sent_Some_iff msg_layout)
  then have line: "on_line ?ms = Some (concat [MAGIC0 # good_frame 1 2 [72, 105]])" by simp
  have "\<exists>h' out s'. recv_all 0 [MAGIC0 # good_frame 1 2 [72, 105]] registered = Some h' \<and>
    accepted (fd (peers registered ! 1)) h' = accepted (fd (peers registered ! 1)) registered @ out \<and>
    msg_poll (msg_boot\<lparr> g_node_id := 2 \<rparr>) out = Some (s', printed (g_node_id (msg_boot\<lparr> g_node_id := 2 \<rparr>)) ?ms) \<and>
    rx_inv s' \<and> rx_state s' = RX_IDLE"
    by (rule messages_arrive [OF registered_facts(1) _ _ _ _ _ _ line])
      (simp_all add: registered_facts hub_layout rx_inv_set_id msg_boot_inv MAGIC0_def MAGIC1_def del: One_nat_def)
  then show ?thesis by (simp add: registered_facts del: One_nat_def)
qed

end
